(* ===== verification/Dlg_Prelude.thy ===== *)
theory Dlg_Prelude
  imports Main "HOL-Library.Word" "HOL-Library.Sublist" "HOL-Library.Multiset"
begin

text \<open>
  Shared vocabulary of the development: bytes and C strings, the parts of
  \<^verbatim>\<open>std::string\<close> and \<^verbatim>\<open><cstring>\<close> the sources call (find, substr, c_str, strcmp), the
  integer conversions of C++ (\<open>i32\<close>, \<open>u32\<close>), little-endian byte images of integers, and the
  list lemmas several components share.

  A \<^verbatim>\<open>char\<close> is a byte (\<^typ>\<open>char\<close>); on the platform of the sources it is signed, so
  \<^verbatim>\<open>c < 0\<close> means that the byte is at least 128 (\<open>char_neg\<close>). A \<^verbatim>\<open>std::string\<close> and a
  \<^verbatim>\<open>vector<char>\<close> are lists of bytes; the C string behind a \<^verbatim>\<open>const char *\<close> ends before the
  first NUL (\<open>c_str\<close>).
\<close>

named_theorems codec_simps \<open>round-trip equations of the byte codecs\<close>
named_theorems str_defs \<open>definitions of the string primitives\<close>

type_synonym bytes = "char list"

subsection \<open>Lists\<close>

lemma take_drop_Suc: "i < length xs \<Longrightarrow> drop i xs = xs ! i # drop (Suc i) xs"
  by (simp add: Cons_nth_drop_Suc)

lemma foldl_append_concat: "foldl (\<lambda>s p. s @ p) s ps = s @ concat ps"
  by (induction ps arbitrary: s) auto

lemma map_nth_drop: "map ((!) xs) [a..<length xs] = drop a xs"
  by (rule nth_equalityI) auto

lemma append_split_le:
  assumes "xs @ ys = as @ bs" "length as \<le> length xs"
  shows "take (length as) xs = as" "drop (length as) xs @ ys = bs"
  using assms by (auto simp: append_eq_append_conv2)

lemma append_split_ge:
  assumes "xs @ ys = as @ bs" "length xs \<le> length as"
  shows "as = xs @ take (length as - length xs) ys" "bs = drop (length as - length xs) ys"
  using assms by (auto simp: append_eq_append_conv2)

lemma nth_append_length_le: "i < length xs \<Longrightarrow> (xs @ ys) ! i = xs ! i"
  by (simp add: nth_append)

lemma mset_swap_update:
  assumes "i < length xs" "j < length xs"
  shows "mset (xs[i := xs ! j, j := xs ! i]) = mset xs"
  by (rule mset_swap [OF assms(2) assms(1)])

lemma sum_list_mset: "mset xs = mset ys \<Longrightarrow> (\<Sum>x \<leftarrow> xs. f x) = (\<Sum>x \<leftarrow> ys. f x :: nat)"
  unfolding sum_mset_sum_list [symmetric] mset_map by simp

lemma sorted_wrt_map_imp:
  "sorted_wrt P xs \<Longrightarrow> (\<And>x y. P x y \<Longrightarrow> Q (f x) (f y)) \<Longrightarrow> sorted_wrt Q (map f xs)"
  by (induction xs) auto

subsection \<open>Bytes and C strings\<close>

abbreviation NUL :: char where
  "NUL \<equiv> CHR 0x00"

definition char_neg :: "char \<Rightarrow> bool" where
  "char_neg c \<longleftrightarrow> 128 \<le> (of_char c :: nat)"

definition schar :: "char \<Rightarrow> int" where
  "schar c = (if char_neg c then of_char c - 256 else of_char c)"

definition c_str :: "string \<Rightarrow> string" where
  "c_str s = takeWhile (\<lambda>c. c \<noteq> NUL) s"

definition no_nul :: "string \<Rightarrow> bool" where
  "no_nul s \<longleftrightarrow> NUL \<notin> set s"

lemma no_nul_simps [simp]:
  "no_nul []"
  "no_nul (c # s) \<longleftrightarrow> c \<noteq> NUL \<and> no_nul s"
  "no_nul (s @ t) \<longleftrightarrow> no_nul s \<and> no_nul t"
  by (auto simp: no_nul_def)

lemma c_str_id [simp]: "no_nul s \<Longrightarrow> c_str s = s"
  unfolding c_str_def no_nul_def by (subst takeWhile_eq_all_conv) auto

lemma no_nul_c_str [simp]: "no_nul (c_str s)"
  by (auto simp: c_str_def no_nul_def dest: set_takeWhileD)

lemma c_str_idem [simp]: "c_str (c_str s) = c_str s"
  by simp

lemma c_str_append_nul [simp]: "no_nul s \<Longrightarrow> c_str (s @ NUL # t) = s"
  by (induction s) (auto simp: c_str_def)

text \<open>Reading the C string that starts at offset \<open>off\<close> of a buffer.\<close>

definition c_str_at :: "bytes \<Rightarrow> nat \<Rightarrow> string" where
  "c_str_at buf off = c_str (drop off buf)"

lemma c_str_at_append:
  "no_nul s \<Longrightarrow> c_str_at (pre @ s @ NUL # post) (length pre) = s"
  by (simp add: c_str_at_def)

text \<open>
  A C string can be read at an offset when the buffer holds a NUL at or behind it; reading
  elsewhere is undefined behaviour.
\<close>

definition readable :: "bytes \<Rightarrow> int \<Rightarrow> bool" where
  "readable buf off \<longleftrightarrow> 0 \<le> off \<and> NUL \<in> set (drop (nat off) buf)"

lemma readable_le: "readable buf off \<Longrightarrow> 0 \<le> off \<and> nat off < length buf"
  by (cases "nat off < length buf") (auto simp: readable_def)

lemma readable_append:
  assumes "readable buf off"
  shows "readable (buf @ x) off" "c_str_at (buf @ x) (nat off) = c_str_at buf (nat off)"
  using assms readable_le [OF assms] by (auto simp: readable_def c_str_at_def c_str_def)

subsection \<open>Order of C strings\<close>

text \<open>
  \<^verbatim>\<open>strcmp\<close> and \<^verbatim>\<open>std::string::operator<\<close> compare bytes as unsigned characters,
  lexicographically, a proper prefix being smaller. \<open>strcmp a b\<close> is given with its sign only,
  which is all the sources look at.
\<close>

fun strcmp :: "string \<Rightarrow> string \<Rightarrow> int" where
  "strcmp [] [] = 0"
| "strcmp [] (b # bs) = -1"
| "strcmp (a # as) [] = 1"
| "strcmp (a # as) (b # bs) =
     (if (of_char a :: nat) < of_char b then -1
      else if (of_char b :: nat) < of_char a then 1
      else strcmp as bs)"

definition str_less :: "string \<Rightarrow> string \<Rightarrow> bool" where
  "str_less a b \<longleftrightarrow> strcmp a b < 0"

lemma of_char_nat_eq: "(of_char a :: nat) = of_char b \<longleftrightarrow> a = b"
  by (rule of_char_eq_iff)

lemma strcmp_refl [simp]: "strcmp s s = 0"
  by (induction s) auto

lemma strcmp_0 [simp]: "strcmp a b = 0 \<longleftrightarrow> a = b"
  by (induction a b rule: strcmp.induct) (auto simp: not_less of_char_nat_eq)

lemma strcmp_swap: "strcmp b a = - strcmp a b"
  by (induction a b rule: strcmp.induct) auto

lemma strcmp_trans: "strcmp a b < 0 \<Longrightarrow> strcmp b c < 0 \<Longrightarrow> strcmp a c < 0"
proof (induction a arbitrary: b c)
  case Nil
  then show ?case by (cases b; cases c) auto
next
  case (Cons x xs)
  from Cons.prems obtain y ys z zs where "b = y # ys" "c = z # zs"
    by (cases b; cases c) auto
  with Cons show ?case
    by (auto simp: of_char_nat_eq split: if_splits)
qed

lemma str_less_irrefl [simp]: "\<not> str_less a a"
  by (simp add: str_less_def)

lemma str_less_trans: "str_less a b \<Longrightarrow> str_less b c \<Longrightarrow> str_less a c"
  unfolding str_less_def by (rule strcmp_trans)

lemma str_less_linear: "str_less a b \<or> a = b \<or> str_less b a"
  unfolding str_less_def using strcmp_0 [of a b] strcmp_swap [of a b] by linarith

lemma str_less_asym: "str_less a b \<Longrightarrow> \<not> str_less b a"
  using str_less_trans str_less_irrefl by blast

lemma str_less_neq: "str_less a b \<Longrightarrow> a \<noteq> b"
  by auto

subsection \<open>Searching in strings\<close>

text \<open>
  \<open>find0 pat s\<close> is the first position at which \<open>pat\<close> occurs in \<open>s\<close>;
  \<open>str_find s pat pos\<close> is \<^verbatim>\<open>s.find(pat, pos)\<close> with \<^verbatim>\<open>npos\<close> as \<^const>\<open>None\<close>.
\<close>

fun find0 :: "string \<Rightarrow> string \<Rightarrow> nat option" where
  "find0 pat [] = (if pat = [] then Some 0 else None)"
| "find0 pat (c # cs) = (if prefix pat (c # cs) then Some 0 else map_option Suc (find0 pat cs))"

definition str_find :: "string \<Rightarrow> string \<Rightarrow> nat \<Rightarrow> nat option" where
  "str_find s pat pos =
     (if pos \<le> length s then map_option (\<lambda>i. i + pos) (find0 pat (drop pos s)) else None)"

definition substr :: "string \<Rightarrow> nat \<Rightarrow> nat \<Rightarrow> string" where
  "substr s pos n = take n (drop pos s)"

lemma find0_Some_iff:
  "find0 pat s = Some i \<longleftrightarrow>
     i \<le> length s \<and> prefix pat (drop i s) \<and> (\<forall>j < i. \<not> prefix pat (drop j s))"
proof (induction s arbitrary: i)
  case Nil
  then show ?case by auto
next
  case (Cons c cs)
  show ?case
  proof (cases i)
    case 0
    then show ?thesis by auto
  next
    case (Suc k)
    have split: "(\<forall>j < Suc k. \<not> prefix pat (drop j (c # cs))) \<longleftrightarrow>
        \<not> prefix pat (c # cs) \<and> (\<forall>j < k. \<not> prefix pat (drop j cs))"
      by (auto simp: less_Suc_eq_0_disj)
    show ?thesis
      unfolding Suc split using Cons.IH [of k] by auto
  qed
qed

lemma all_le_Suc: "(\<forall>j \<le> Suc n. P j) \<longleftrightarrow> P 0 \<and> (\<forall>j \<le> n. P (Suc j))"
  unfolding less_Suc_eq_le [symmetric] by (auto simp: less_Suc_eq_0_disj)

lemma find0_None_iff: "find0 pat s = None \<longleftrightarrow> (\<forall>j \<le> length s. \<not> prefix pat (drop j s))"
  by (induction s) (auto simp: all_le_Suc)

lemma find0_bound: "find0 pat s = Some i \<Longrightarrow> i + length pat \<le> length s"
  by (auto simp: find0_Some_iff dest!: prefix_length_le)

lemma find0_split:
  assumes "find0 pat s = Some i"
  shows "s = take i s @ pat @ drop (i + length pat) s"
proof -
  from assms obtain r where "drop i s = pat @ r"
    by (auto simp: find0_Some_iff prefix_def)
  then have "s = take i s @ pat @ r" "r = drop (i + length pat) s"
    by (metis append_take_drop_id)
       (metis \<open>drop i s = pat @ r\<close> add.commute append_eq_conv_conj drop_drop)
  then show ?thesis by simp
qed

lemma prefix_iff_take: "prefix p s \<longleftrightarrow> take (length p) s = p"
  by (metis append_eq_conv_conj prefix_def take_is_prefix)

lemma find0_append:
  assumes "find0 pat s = Some i"
  shows "find0 pat (s @ t) = Some i"
proof -
  have b: "i + length pat \<le> length s" by (rule find0_bound [OF assms])
  have "prefix pat (drop j (s @ t)) \<longleftrightarrow> prefix pat (drop j s)" if "j \<le> i" for j
    using that b by (simp add: prefix_iff_take)
  with assms b show ?thesis by (simp add: find0_Some_iff)
qed

lemma str_find_bound: "str_find s pat pos = Some i \<Longrightarrow> pos \<le> i \<and> i + length pat \<le> length s"
  by (auto simp: str_find_def split: if_splits dest!: find0_bound)

end
