(* ===== verification/Byte_Codec.thy ===== *)
theory Byte_Codec
  imports Dlg_Prelude
begin

text \<open>
  Integers of fixed width and their byte images. \<open>i32\<close>, \<open>u32\<close>, \<open>i64\<close> and \<open>u64\<close> are
  the conversions to \<^verbatim>\<open>int32_t\<close>, \<^verbatim>\<open>uint32_t\<close>, \<^verbatim>\<open>int64_t\<close> and \<^verbatim>\<open>uint64_t\<close> (modulo the width,
  two's complement for the signed ones). The sources write their structures with
  \<^verbatim>\<open>fwrite\<close> and read them back with \<^verbatim>\<open>fread\<close>, that is as little-endian byte images of a fixed
  width; the locale \<open>fixed_codec\<close> is the interface between a structure and the file
  formats built from it.
\<close>

datatype fault =
    Bad_alloc        \<comment> \<open>\<^verbatim>\<open>new T[n]\<close> with a negative count throws\<close>
  | Out_of_bounds    \<comment> \<open>an access outside of an array or a vector (undefined behaviour)\<close>
  | Uninitialised    \<comment> \<open>a read of an indeterminate value (undefined behaviour)\<close>
  | Null_deref       \<comment> \<open>a null pointer is dereferenced\<close>
  | Diverges         \<comment> \<open>the loop does not end\<close>
  | Div_by_zero      \<comment> \<open>an integer division by zero (undefined behaviour)\<close>
  | Aborted          \<comment> \<open>an \<^verbatim>\<open>assert\<close> fails\<close>
  | Use_after_free   \<comment> \<open>a deleted object is used (undefined behaviour)\<close>
  | Thrown           \<comment> \<open>an exception of a library leaves the function\<close>

subsection \<open>Integer conversions\<close>

definition i32 :: "int \<Rightarrow> int" where
  "i32 x = (x + 2147483648) mod 4294967296 - 2147483648"

definition u32 :: "int \<Rightarrow> int" where
  "u32 x = x mod 4294967296"

definition i64 :: "int \<Rightarrow> int" where
  "i64 x = (x + 9223372036854775808) mod 18446744073709551616 - 9223372036854775808"

definition u64 :: "int \<Rightarrow> int" where
  "u64 x = x mod 18446744073709551616"

definition in_i32 :: "int \<Rightarrow> bool" where
  "in_i32 x \<longleftrightarrow> - 2147483648 \<le> x \<and> x < 2147483648"

definition in_u32 :: "int \<Rightarrow> bool" where
  "in_u32 x \<longleftrightarrow> 0 \<le> x \<and> x < 4294967296"

definition in_i64 :: "int \<Rightarrow> bool" where
  "in_i64 x \<longleftrightarrow> - 9223372036854775808 \<le> x \<and> x < 9223372036854775808"

definition in_u64 :: "int \<Rightarrow> bool" where
  "in_u64 x \<longleftrightarrow> 0 \<le> x \<and> x < 18446744073709551616"

lemma i32_id [simp]: "in_i32 x \<Longrightarrow> i32 x = x"
  by (simp add: i32_def in_i32_def)

lemma u32_id [simp]: "in_u32 x \<Longrightarrow> u32 x = x"
  by (simp add: u32_def in_u32_def)

lemma i64_id [simp]: "in_i64 x \<Longrightarrow> i64 x = x"
  by (simp add: i64_def in_i64_def)

lemma u64_id [simp]: "in_u64 x \<Longrightarrow> u64 x = x"
  by (simp add: u64_def in_u64_def)

lemma in_range [simp]: "in_i32 (i32 x)" "in_u32 (u32 x)" "in_i64 (i64 x)" "in_u64 (u64 x)"
  by (simp_all add: i32_def in_i32_def u32_def in_u32_def i64_def in_i64_def u64_def in_u64_def)

lemma in_i32_nat: "n < 2147483648 \<Longrightarrow> in_i32 (int n)"
  by (simp add: in_i32_def)

lemma in_u32_nat: "n < 4294967296 \<Longrightarrow> in_u32 (int n)"
  by (simp add: in_u32_def)

lemma in_i64_nat: "n < 9223372036854775808 \<Longrightarrow> in_i64 (int n)"
  by (simp add: in_i64_def)

lemma in_u64_nat: "n < 18446744073709551616 \<Longrightarrow> in_u64 (int n)"
  by (simp add: in_u64_def)

lemma i32_mod: "i32 (x mod 4294967296) = i32 x"
  unfolding i32_def by (simp add: mod_add_left_eq)

lemma i64_mod: "i64 (x mod 18446744073709551616) = i64 x"
  unfolding i64_def by (simp add: mod_add_left_eq)

subsection \<open>Little-endian byte images\<close>

fun le_bytes :: "nat \<Rightarrow> nat \<Rightarrow> bytes" where
  "le_bytes 0 n = []"
| "le_bytes (Suc k) n = char_of n # le_bytes k (n div 256)"

fun le_val :: "bytes \<Rightarrow> nat" where
  "le_val [] = 0"
| "le_val (c # cs) = of_char c + 256 * le_val cs"

lemma length_le_bytes [simp]: "length (le_bytes k n) = k"
  by (induction k arbitrary: n) auto

lemma le_val_le_bytes: "le_val (le_bytes k n) = n mod 256 ^ k"
proof (induction k arbitrary: n)
  case (Suc k)
  have "le_val (le_bytes (Suc k) n) = n mod 256 + 256 * (n div 256 mod 256 ^ k)"
    using Suc.IH by (simp add: of_char_of)
  also have "\<dots> = n mod 256 ^ Suc k"
    by (simp add: mod_mult2_eq)
  finally show ?case .
qed simp

definition enc_u32 :: "int \<Rightarrow> bytes" where
  "enc_u32 x = le_bytes 4 (nat (u32 x))"

definition dec_u32 :: "bytes \<Rightarrow> int" where
  "dec_u32 bs = int (le_val bs)"

definition enc_i32 :: "int \<Rightarrow> bytes" where
  "enc_i32 x = le_bytes 4 (nat (u32 x))"

definition dec_i32 :: "bytes \<Rightarrow> int" where
  "dec_i32 bs = i32 (int (le_val bs))"

definition enc_u64 :: "int \<Rightarrow> bytes" where
  "enc_u64 x = le_bytes 8 (nat (u64 x))"

definition dec_u64 :: "bytes \<Rightarrow> int" where
  "dec_u64 bs = int (le_val bs)"

definition enc_i64 :: "int \<Rightarrow> bytes" where
  "enc_i64 x = le_bytes 8 (nat (u64 x))"

definition dec_i64 :: "bytes \<Rightarrow> int" where
  "dec_i64 bs = i64 (int (le_val bs))"

definition enc_char :: "char \<Rightarrow> bytes" where
  "enc_char c = [c]"

definition dec_char :: "bytes \<Rightarrow> char" where
  "dec_char bs = hd bs"

lemma le_val_u32: "int (le_val (le_bytes 4 (nat (u32 x)))) = u32 x"
  by (simp add: le_val_le_bytes u32_def nat_mod_as_int)

lemma le_val_u64: "int (le_val (le_bytes 8 (nat (u64 x)))) = u64 x"
  by (simp add: le_val_le_bytes u64_def nat_mod_as_int)

lemma dec_enc_u32: "dec_u32 (enc_u32 x) = u32 x"
  by (simp add: dec_u32_def enc_u32_def le_val_u32)

lemma dec_enc_i32: "dec_i32 (enc_i32 x) = i32 x"
  unfolding dec_i32_def enc_i32_def le_val_u32 by (simp add: u32_def i32_mod)

lemma dec_enc_u64: "dec_u64 (enc_u64 x) = u64 x"
  by (simp add: dec_u64_def enc_u64_def le_val_u64)

lemma dec_enc_i64: "dec_i64 (enc_i64 x) = i64 x"
  unfolding dec_i64_def enc_i64_def le_val_u64 by (simp add: u64_def i64_mod)

subsection \<open>Reading and writing files\<close>

text \<open>
  A file opened for reading is the bytes that are left; \<open>fread_items w dec n\<close> is
  \<^verbatim>\<open>fread(buf, w, n, fp)\<close> with the test that all \<open>n\<close> items were read: \<^const>\<open>None\<close> when the file is
  too short. \<open>fwrite_items\<close> is the byte image \<^verbatim>\<open>fwrite\<close> appends.
\<close>

fun decode_items :: "nat \<Rightarrow> (bytes \<Rightarrow> 'a) \<Rightarrow> nat \<Rightarrow> bytes \<Rightarrow> 'a list" where
  "decode_items w dec 0 bs = []"
| "decode_items w dec (Suc n) bs = dec (take w bs) # decode_items w dec n (drop w bs)"

definition fread_items :: "nat \<Rightarrow> (bytes \<Rightarrow> 'a) \<Rightarrow> nat \<Rightarrow> bytes \<Rightarrow> ('a list \<times> bytes) option" where
  "fread_items w dec n f =
     (if length f < n * w then None
      else Some (decode_items w dec n f, drop (n * w) f))"

definition fread_item :: "nat \<Rightarrow> (bytes \<Rightarrow> 'a) \<Rightarrow> bytes \<Rightarrow> ('a \<times> bytes) option" where
  "fread_item w dec f = (if length f < w then None else Some (dec (take w f), drop w f))"

definition fwrite_items :: "('a \<Rightarrow> bytes) \<Rightarrow> 'a list \<Rightarrow> bytes" where
  "fwrite_items enc xs = concat (map enc xs)"

lemma fwrite_items_simps [simp]:
  "fwrite_items enc [] = []"
  "fwrite_items enc (x # xs) = enc x @ fwrite_items enc xs"
  "fwrite_items enc (xs @ ys) = fwrite_items enc xs @ fwrite_items enc ys"
  by (simp_all add: fwrite_items_def)

lemma length_decode_items [simp]: "length (decode_items w dec n bs) = n"
  by (induction n arbitrary: bs) auto

lemma fread_items_short: "fread_items w dec n f = None \<longleftrightarrow> length f < n * w"
  by (simp add: fread_items_def)

text \<open>The interface of a structure of fixed size to the file formats.\<close>

locale fixed_codec =
  fixes enc :: "'a \<Rightarrow> bytes"
    and dec :: "bytes \<Rightarrow> 'a"
    and width :: nat
    and ok :: "'a \<Rightarrow> bool"
  assumes enc_length: "length (enc x) = width"
    and dec_enc: "ok x \<Longrightarrow> dec (enc x) = x"
begin

lemma length_fwrite: "length (fwrite_items enc xs) = length xs * width"
  by (induction xs) (auto simp: enc_length)

lemma fread_item_enc [codec_simps]: "ok x \<Longrightarrow> fread_item width dec (enc x @ rest) = Some (x, rest)"
  by (simp add: fread_item_def enc_length dec_enc)

lemma decode_items_fwrite:
  "list_all ok xs \<Longrightarrow> decode_items width dec (length xs) (fwrite_items enc xs @ rest) = xs"
  by (induction xs) (auto simp: enc_length dec_enc)

lemma fread_items_fwrite [codec_simps]:
  assumes "list_all ok xs" "n = length xs"
  shows "fread_items width dec n (fwrite_items enc xs @ rest) = Some (xs, rest)"
  using assms by (simp add: fread_items_def length_fwrite decode_items_fwrite)

lemma fread_items_all:
  assumes "list_all ok xs"
  shows "fread_items width dec (length xs) (fwrite_items enc xs) = Some (xs, [])"
  using fread_items_fwrite [OF assms refl, of "[]"] by simp

lemma fread_items_truncated:
  assumes "n = length xs" "m < n * width"
  shows "fread_items width dec n (take m (fwrite_items enc xs)) = None"
  using assms by (simp add: fread_items_short length_fwrite)

end

interpretation cu32: fixed_codec enc_u32 dec_u32 4 in_u32
  by unfold_locales (simp add: enc_u32_def, simp add: dec_enc_u32)

interpretation ci32: fixed_codec enc_i32 dec_i32 4 in_i32
  by unfold_locales (simp add: enc_i32_def, simp add: dec_enc_i32)

interpretation cu64: fixed_codec enc_u64 dec_u64 8 in_u64
  by unfold_locales (simp add: enc_u64_def, simp add: dec_enc_u64)

interpretation ci64: fixed_codec enc_i64 dec_i64 8 in_i64
  by unfold_locales (simp add: enc_i64_def, simp add: dec_enc_i64)

interpretation cchar: fixed_codec enc_char dec_char 1 "\<lambda>_. True"
  by unfold_locales (simp_all add: enc_char_def dec_char_def)

lemma fwrite_chars [simp]: "fwrite_items enc_char s = s"
  by (induction s) (auto simp: enc_char_def)

end
