(* ===== verification/Quick_Partition.thy ===== *)
theory Quick_Partition
  imports Dlg_Prelude
begin

text \<open>
  The in-place partition loop that \<^verbatim>\<open>CHashVector_Enhanced::Partition\<close>
  (\<^verbatim>\<open>src/include/HashVector_Enhanced.h\<close>) and \<^verbatim>\<open>CommonIndex::Partition\<close>
  (\<^verbatim>\<open>src/include/common_index.h\<close>) share, and the recursive \<^verbatim>\<open>QSort\<close> both classes build on
  their partition. \<open>lo x\<close> is the test "x stays left of the pivot" of the scan from the
  left (\<^verbatim>\<open>strcmp(...) < 0\<close>, \<^verbatim>\<open>weight >= key_value\<close>), \<open>hi x\<close> the test "x stays right of it" of the
  scan from the right (two separate tests: both fail on a NaN), \<open>sw\<close> the class's exchange of two elements. \<open>QSort\<close> is a
  \<open>partial_function\<close>: nothing in its text bounds the recursion, which ends because of what the
  partition returns; the locale \<open>partition_law\<close> states that contract and proves, once, that
  \<open>QSort\<close> returns a sorted permutation under it.
\<close>

subsection \<open>The loops of the partition\<close>

function scan_left :: "('a \<Rightarrow> bool) \<Rightarrow> 'a list \<Rightarrow> nat \<Rightarrow> nat \<Rightarrow> nat" where
  "scan_left lo vect left right =
     (if left < right \<and> lo (vect ! left) then scan_left lo vect (left + 1) right else left)"
  by pat_completeness auto
termination
  by (relation "measure (\<lambda>(lo, v, l, r). r - l)") auto

declare scan_left.simps [simp del]

fun scan_right :: "('a \<Rightarrow> bool) \<Rightarrow> 'a list \<Rightarrow> nat \<Rightarrow> nat \<Rightarrow> nat \<Rightarrow> nat" where
  "scan_right hi vect key left right =
     (if left \<le> right \<and> key < right \<and> hi (vect ! right)
      then scan_right hi vect key left (right - 1) else right)"

declare scan_right.simps [simp del]

lemma scan_left_spec:
  assumes "left \<le> right"
  shows "left \<le> scan_left lo vect left right \<and> scan_left lo vect left right \<le> right
    \<and> (\<forall>i. left \<le> i \<and> i < scan_left lo vect left right \<longrightarrow> lo (vect ! i))
    \<and> (scan_left lo vect left right < right \<longrightarrow> \<not> lo (vect ! scan_left lo vect left right))"
  using assms
proof (induction lo vect left right rule: scan_left.induct)
  case (1 lo vect left right)
  show ?case
  proof (cases "left < right \<and> lo (vect ! left)")
    case True
    with 1 have IH: "left + 1 \<le> scan_left lo vect (left + 1) right \<and>
        scan_left lo vect (left + 1) right \<le> right \<and>
        (\<forall>i. left + 1 \<le> i \<and> i < scan_left lo vect (left + 1) right \<longrightarrow> lo (vect ! i)) \<and>
        (scan_left lo vect (left + 1) right < right \<longrightarrow>
          \<not> lo (vect ! scan_left lo vect (left + 1) right))" by simp
    have eq: "scan_left lo vect left right = scan_left lo vect (left + 1) right"
      using True by (subst scan_left.simps) simp
    have "lo (vect ! i)" if "left \<le> i" "i < scan_left lo vect (left + 1) right" for i
      using IH True that by (cases "i = left") auto
    with IH show ?thesis unfolding eq by auto
  next
    case False
    have eq: "scan_left lo vect left right = left"
      by (subst scan_left.simps) (simp only: False if_False)
    show ?thesis unfolding eq using False "1.prems" by auto
  qed
qed

lemma scan_right_spec:
  assumes "left \<le> Suc right" "key < left"
  shows "left \<le> Suc (scan_right hi vect key left right)
    \<and> scan_right hi vect key left right \<le> right
    \<and> (\<forall>i. scan_right hi vect key left right < i \<and> i \<le> right \<longrightarrow> hi (vect ! i))
    \<and> (left \<le> scan_right hi vect key left right \<longrightarrow> \<not> hi (vect ! scan_right hi vect key left right))"
  using assms
proof (induction hi vect key left right rule: scan_right.induct)
  case (1 hi vect key left right)
  show ?case
  proof (cases "left \<le> right \<and> key < right \<and> hi (vect ! right)")
    case True
    with 1 have IH: "left \<le> Suc (scan_right hi vect key left (right - 1)) \<and>
        scan_right hi vect key left (right - 1) \<le> right - 1 \<and>
        (\<forall>i. scan_right hi vect key left (right - 1) < i \<and> i \<le> right - 1 \<longrightarrow> hi (vect ! i)) \<and>
        (left \<le> scan_right hi vect key left (right - 1) \<longrightarrow>
          \<not> hi (vect ! scan_right hi vect key left (right - 1)))" by simp
    have eq: "scan_right hi vect key left right = scan_right hi vect key left (right - 1)"
      using True by (subst scan_right.simps) simp
    have "hi (vect ! i)"
      if "scan_right hi vect key left (right - 1) < i" "i \<le> right" for i
      using IH True that by (cases "i = right") auto
    with IH True show ?thesis unfolding eq by auto
  next
    case False
    have eq: "scan_right hi vect key left right = right"
      by (subst scan_right.simps) (simp only: False if_False)
    show ?thesis unfolding eq using False "1.prems" by auto
  qed
qed

lemma scan_right_le: "scan_right hi vect key left right \<le> right"
proof (induction hi vect key left right rule: scan_right.induct)
  case (1 hi vect key left right)
  then show ?case by (subst scan_right.simps) (simp, fastforce)
qed

text \<open>The outer \<^verbatim>\<open>while (left < right)\<close>: scan from both ends, exchange, step inwards.\<close>

function part_loop ::
    "('a \<Rightarrow> bool) \<Rightarrow> ('a \<Rightarrow> bool) \<Rightarrow> ('a list \<Rightarrow> nat \<Rightarrow> nat \<Rightarrow> 'a list) \<Rightarrow> 'a list \<Rightarrow> nat \<Rightarrow> nat \<Rightarrow> nat
      \<Rightarrow> 'a list \<times> nat \<times> nat" where
  "part_loop lo hi sw vect key left right =
     (if left < right then
        (if scan_left lo vect left right
              < scan_right hi vect key (scan_left lo vect left right) right
         then part_loop lo hi sw
                (sw vect (scan_left lo vect left right)
                   (scan_right hi vect key (scan_left lo vect left right) right))
                key (scan_left lo vect left right + 1)
                (scan_right hi vect key (scan_left lo vect left right) right - 1)
         else (vect, scan_left lo vect left right,
                scan_right hi vect key (scan_left lo vect left right) right))
      else (vect, left, right))"
  by pat_completeness auto
termination
proof (relation "measure (\<lambda>(lo, hi, sw, v, k, l, r). r - l)", simp, goal_cases)
  case (1 lo hi sw vect key left right)
  from 1(1) have l: "left \<le> scan_left lo vect left right" "scan_left lo vect left right \<le> right"
    using scan_left_spec [of left right lo vect] by auto
  from l 1 scan_right_le [of hi vect key "scan_left lo vect left right" right]
  show ?case by simp
qed

declare part_loop.simps [simp del]

text \<open>
  The rest of both partitions: \<open>key\<close> is the pivot's place, \<open>left\<close> starts one after it, an
  element that must stay on the right is left out, and the pivot goes to the boundary.
\<close>

definition part_tail ::
    "('a \<Rightarrow> bool) \<Rightarrow> ('a \<Rightarrow> bool) \<Rightarrow> ('a list \<Rightarrow> nat \<Rightarrow> nat \<Rightarrow> 'a list) \<Rightarrow> 'a list \<Rightarrow> nat \<Rightarrow> nat
      \<Rightarrow> 'a list \<times> nat" where
  "part_tail lo hi sw vect key right =
     (case part_loop lo hi sw vect key (key + 1) right of
        (v, l, r) \<Rightarrow>
          let r' = (if r = l \<and> hi (v ! r) then r - 1 else r)
          in if r' = key then (v, r') else (sw v key r', r'))"

partial_function (option) qsort_by ::
    "('a list \<Rightarrow> nat \<Rightarrow> nat \<Rightarrow> 'a list \<times> nat) \<Rightarrow> 'a list \<Rightarrow> int \<Rightarrow> int \<Rightarrow> 'a list option" where
  "qsort_by part vect left right =
     (if left < right then
        Option.bind
          (qsort_by part (fst (part vect (nat left) (nat right))) left
             (int (snd (part vect (nat left) (nat right))) - 1))
          (\<lambda>v. qsort_by part v (int (snd (part vect (nat left) (nat right))) + 1) right)
      else Some vect)"

declare qsort_by.simps [code]

subsection \<open>What the partition does\<close>

definition swap_nth :: "'a list \<Rightarrow> nat \<Rightarrow> nat \<Rightarrow> 'a list" where
  "swap_nth v i j = v[i := v ! j, j := v ! i]"

lemma swap_nth_simps [simp]:
  "length (swap_nth v i j) = length v"
  "i < length v \<Longrightarrow> j < length v \<Longrightarrow> mset (swap_nth v i j) = mset v"
  by (simp_all add: swap_nth_def mset_swap_update)

lemma nth_swap_nth:
  "i < length v \<Longrightarrow> j < length v \<Longrightarrow>
     swap_nth v i j ! k = (if k = j then v ! i else if k = i then v ! j else v ! k)"
  by (auto simp: swap_nth_def nth_list_update)

definition split_state :: "('a \<Rightarrow> bool) \<Rightarrow> 'a list \<Rightarrow> nat \<Rightarrow> nat \<Rightarrow> nat \<Rightarrow> nat \<Rightarrow> bool" where
  "split_state lo v key l r R \<longleftrightarrow>
     key < l \<and> l \<le> Suc r \<and> r \<le> R \<and> R < length v \<and>
     (\<forall>i. key < i \<and> i < l \<longrightarrow> lo (v ! i)) \<and> (\<forall>i. r < i \<and> i \<le> R \<longrightarrow> \<not> lo (v ! i))"

lemma split_state_scan:
  assumes "split_state lo v key l r R" "l < r"
  defines "l' \<equiv> scan_left lo v l r"
  defines "r' \<equiv> scan_right (\<lambda>x. \<not> lo x) v key l' r"
  shows "split_state lo v key l' r' R" "l' < r' \<Longrightarrow> \<not> lo (v ! l') \<and> lo (v ! r')" "r' \<le> r" "l \<le> l'"
proof -
  have l': "l \<le> l'" "l' \<le> r" "\<forall>i. l \<le> i \<and> i < l' \<longrightarrow> lo (v ! i)" "l' < r \<longrightarrow> \<not> lo (v ! l')"
    using scan_left_spec [of l r lo v] assms(2) by (auto simp: l'_def)
  have key: "key < l'" using assms(1) l'(1) by (auto simp: split_state_def)
  have r': "l' \<le> Suc r'" "r' \<le> r" "\<forall>i. r' < i \<and> i \<le> r \<longrightarrow> \<not> lo (v ! i)"
      "l' \<le> r' \<longrightarrow> lo (v ! r')"
    using scan_right_spec [of l' r key "\<lambda>x. \<not> lo x" v] l'(2) key by (auto simp: r'_def)
  show "r' \<le> r" "l \<le> l'" using r' l' by auto
  show "l' < r' \<Longrightarrow> \<not> lo (v ! l') \<and> lo (v ! r')" using l' r' by auto
  have "lo (v ! i)" if "key < i" "i < l'" for i
    using assms(1) l'(3) that by (cases "i < l") (auto simp: split_state_def)
  moreover have "\<not> lo (v ! i)" if "r' < i" "i \<le> R" for i
    using assms(1) r'(3) that by (cases "i \<le> r") (auto simp: split_state_def)
  ultimately show "split_state lo v key l' r' R"
    using assms(1) key r'(1,2) by (auto simp: split_state_def)
qed

lemma part_loop_spec:
  assumes "split_state lo v key l r R"
    and "part_loop lo (\<lambda>x. \<not> lo x) swap_nth v key l r = (v', l', r')"
  shows "split_state lo v' key l' r' R \<and> r' \<le> l' \<and> length v' = length v \<and> mset v' = mset v \<and>
    (\<forall>i. i \<le> key \<or> R < i \<longrightarrow> v' ! i = v ! i)"
  using assms
proof (induction "r - l" arbitrary: v l r rule: less_induct)
  case less
  show ?case
  proof (cases "l < r")
    case False
    then have "(v', l', r') = (v, l, r)"
      using less.prems(2) by (subst (asm) part_loop.simps) auto
    with less.prems(1) False show ?thesis by simp
  next
    case True
    let ?l = "scan_left lo v l r"
    let ?r = "scan_right (\<lambda>x. \<not> lo x) v key ?l r"
    note sc = split_state_scan [OF less.prems(1) True]
    show ?thesis
    proof (cases "?l < ?r")
      case False
      then have "(v', l', r') = (v, ?l, ?r)"
        using less.prems(2) True by (subst (asm) part_loop.simps) auto
      with sc(1) False show ?thesis by simp
    next
      case lr: True
      from sc have b: "?r < length v" "?l < length v" "key < ?l" "?r \<le> R"
        using lr by (auto simp: split_state_def)
      let ?v = "swap_nth v ?l ?r"
      have eq: "part_loop lo (\<lambda>x. \<not> lo x) swap_nth ?v key (?l + 1) (?r - 1) = (v', l', r')"
        using less.prems(2) True lr by (subst (asm) part_loop.simps) simp
      have st: "split_state lo ?v key (?l + 1) (?r - 1) R"
        using sc(1) sc(2) [OF lr] lr b
        by (auto simp: split_state_def nth_swap_nth less_Suc_eq)
      have "?r - 1 - (?l + 1) < r - l" using sc(3,4) lr by simp
      from less.hyps [OF this st eq] show ?thesis
        using b lr by (auto simp: nth_swap_nth)
    qed
  qed
qed

lemma part_tail_spec:
  assumes "key < R" "R < length v"
    and "part_tail lo (\<lambda>x. \<not> lo x) swap_nth v key R = (v', k)"
  shows "key \<le> k \<and> k \<le> R \<and> length v' = length v \<and> mset v' = mset v \<and> v' ! k = v ! key \<and>
    (\<forall>i. i < key \<or> R < i \<longrightarrow> v' ! i = v ! i) \<and>
    (\<forall>i. key \<le> i \<and> i < k \<longrightarrow> lo (v' ! i)) \<and> (\<forall>i. k < i \<and> i \<le> R \<longrightarrow> \<not> lo (v' ! i))"
proof -
  obtain w l r where w: "part_loop lo (\<lambda>x. \<not> lo x) swap_nth v key (key + 1) R = (w, l, r)"
    by (metis prod_cases3)
  have "split_state lo v key (key + 1) R R" using assms by (auto simp: split_state_def)
  from part_loop_spec [OF this w] have st: "split_state lo w key l r R" and "r \<le> l"
    and len: "length w = length v" and ms: "mset w = mset v"
    and out: "\<And>i. i \<le> key \<or> R < i \<Longrightarrow> w ! i = v ! i" by auto
  define r' where "r' = (if r = l \<and> \<not> lo (w ! r) then r - 1 else r)"
  have r': "key \<le> r'" "r' \<le> R" using st by (auto simp: split_state_def r'_def)
  have lows: "lo (w ! i)" if "key < i" "i \<le> r'" for i
    using st \<open>r \<le> l\<close> that by (auto simp: split_state_def r'_def le_less split: if_splits)
  have highs: "\<not> lo (w ! i)" if "r' < i" "i \<le> R" for i
    using st \<open>r \<le> l\<close> that by (cases "i = r") (auto simp: split_state_def r'_def split: if_splits)
  have res: "(v', k) = (if r' = key then (w, r') else (swap_nth w key r', r'))"
    using assms(3) unfolding part_tail_def w prod.case Let_def r'_def [symmetric] by simp
  have b: "key < length w" "r' < length w" using assms r' len by auto
  show ?thesis
  proof (cases "r' = key")
    case True
    with res have "v' = w" "k = key" by auto
    with True r' len ms out highs show ?thesis by auto
  next
    case False
    with res have v': "v' = swap_nth w key r'" "k = r'" by auto
    show ?thesis
      using r' len ms out highs lows b False unfolding v' by (auto simp: nth_swap_nth)
  qed
qed

text \<open>The partition looks at the tests on the elements of the list only.\<close>

lemma scan_right_cong:
  assumes "r < length v" "\<And>x. x \<in> set v \<Longrightarrow> hi x = hi' x"
  shows "scan_right hi v key l r = scan_right hi' v key l r"
  using assms
proof (induction hi v key l r rule: scan_right.induct)
  case (1 hi v key l r)
  have "hi (v ! r) = hi' (v ! r)" using "1.prems" by simp
  with 1 show ?case
    by (subst (1 2) scan_right.simps) auto
qed

lemma part_loop_cong:
  assumes "r < length v" "\<And>x. x \<in> set v \<Longrightarrow> hi x = hi' x"
  shows "part_loop lo hi swap_nth v key l r = part_loop lo hi' swap_nth v key l r"
  using assms
proof (induction "r - l" arbitrary: v l r rule: less_induct)
  case less
  let ?l = "scan_left lo v l r"
  let ?r = "scan_right hi v key ?l r"
  have r: "scan_right hi' v key ?l r = ?r"
    using scan_right_cong [OF less.prems] by simp
  show ?case
  proof (cases "l < r \<and> ?l < ?r")
    case True
    have b: "?r \<le> r" "l \<le> ?l" "?l \<le> r"
      using scan_right_le [of hi v key ?l r] scan_left_spec [of l r lo v] True by auto
    with True less.prems have "set (swap_nth v ?l ?r) = set v"
      by (intro mset_eq_setD swap_nth_simps) auto
    with b True less.prems have
      "part_loop lo hi swap_nth (swap_nth v ?l ?r) key (?l + 1) (?r - 1) =
       part_loop lo hi' swap_nth (swap_nth v ?l ?r) key (?l + 1) (?r - 1)"
      by (intro less.hyps) auto
    with True show ?thesis by (subst (1 2) part_loop.simps) (simp add: r)
  next
    case False
    then show ?thesis by (subst (1 2) part_loop.simps) (auto simp: r)
  qed
qed

lemma part_tail_cong:
  assumes "key < R" "R < length v" "\<And>x. x \<in> set v \<Longrightarrow> hi x = (\<not> lo x)"
  shows "part_tail lo hi swap_nth v key R = part_tail lo (\<lambda>x. \<not> lo x) swap_nth v key R"
proof -
  have eq: "part_loop lo hi swap_nth v key (key + 1) R =
      part_loop lo (\<lambda>x. \<not> lo x) swap_nth v key (key + 1) R"
    by (rule part_loop_cong) (use assms in auto)
  obtain w l r where w: "part_loop lo (\<lambda>x. \<not> lo x) swap_nth v key (key + 1) R = (w, l, r)"
    by (metis prod_cases3)
  have "split_state lo v key (key + 1) R R" using assms by (auto simp: split_state_def)
  from part_loop_spec [OF this w] have st: "r < length w" "mset w = mset v"
    by (auto simp: split_state_def)
  then have "w ! r \<in> set v" by (metis nth_mem mset_eq_setD)
  with assms(3) have "hi (w ! r) = (\<not> lo (w ! r))" by blast
  then show ?thesis unfolding part_tail_def eq w by simp
qed

text \<open>Two lists with the same multiset that differ only in a range hold the same values there.\<close>

lemma range_values:
  assumes "length w = length v" "mset w = mset v"
    and out: "\<And>i. i < a \<or> b \<le> i \<Longrightarrow> w ! i = v ! i"
    and ab: "a \<le> b" "b \<le> length v"
  shows "set (take (b - a) (drop a w)) = set (take (b - a) (drop a v))"
proof -
  have t: "take a w = take a v"
    using assms by (intro nth_equalityI) auto
  have d: "drop b w = drop b v"
    using assms by (intro nth_equalityI) auto
  have decomp: "x = take a x @ take (b - a) (drop a x) @ drop b x" for x :: "'a list"
    by (metis ab(1) append_take_drop_id drop_drop le_add_diff_inverse2)
  have "mset (take (b - a) (drop a w)) = mset (take (b - a) (drop a v))"
    using assms(2) t d arg_cong [OF decomp [of w], of mset] arg_cong [OF decomp [of v], of mset]
    by simp
  then show ?thesis by (metis set_mset_mset)
qed

lemma range_pred:
  assumes "length w = length v" "mset w = mset v"
    and "\<And>i. i < a \<or> b \<le> i \<Longrightarrow> w ! i = v ! i" "a \<le> b" "b \<le> length v"
    and "\<And>i. a \<le> i \<Longrightarrow> i < b \<Longrightarrow> P (v ! i)" "a \<le> i" "i < b"
  shows "P (w ! i)"
proof -
  have "w ! i \<in> set (take (b - a) (drop a w))"
    using assms by (auto simp: in_set_conv_nth intro!: exI [of _ "i - a"])
  then have "w ! i \<in> set (take (b - a) (drop a v))"
    using range_values [OF assms(1-5)] by simp
  then obtain j where "j < b - a" "w ! i = v ! (a + j)"
    using assms(4,5) by (auto simp: in_set_conv_nth)
  with assms(6) [of "a + j"] show ?thesis by simp
qed

subsection \<open>The contract of a partition and QSort\<close>

locale partition_law =
  fixes part :: "'a list \<Rightarrow> nat \<Rightarrow> nat \<Rightarrow> 'a list \<times> nat"
    and le :: "'a \<Rightarrow> 'a \<Rightarrow> bool"
    and ok :: "'a \<Rightarrow> bool"
  assumes part: "list_all ok v \<Longrightarrow> l < r \<Longrightarrow> r < length v \<Longrightarrow> part v l r = (v', k) \<Longrightarrow>
      l \<le> k \<and> k \<le> r \<and> length v' = length v \<and> mset v' = mset v \<and>
      (\<forall>i. i < l \<or> r < i \<longrightarrow> v' ! i = v ! i) \<and>
      (\<forall>i. l \<le> i \<and> i < k \<longrightarrow> le (v' ! i) (v' ! k)) \<and>
      (\<forall>i. k < i \<and> i \<le> r \<longrightarrow> le (v' ! k) (v' ! i))"
    and le_trans: "ok x \<Longrightarrow> ok y \<Longrightarrow> ok z \<Longrightarrow> le x y \<Longrightarrow> le y z \<Longrightarrow> le x z"
begin

definition sorts :: "'a list \<Rightarrow> 'a list \<Rightarrow> int \<Rightarrow> int \<Rightarrow> bool" where
  "sorts v w l r \<longleftrightarrow> length w = length v \<and> mset w = mset v \<and>
     (\<forall>i. int i < l \<or> r < int i \<longrightarrow> w ! i = v ! i) \<and>
     (\<forall>i j. l \<le> int i \<and> i < j \<and> int j \<le> r \<longrightarrow> le (w ! i) (w ! j))"

lemma list_all_mset: "mset w = mset v \<Longrightarrow> list_all ok v \<Longrightarrow> list_all ok w"
  by (metis list_all_iff mset_eq_setD)

lemma ok_nth: "list_all ok v \<Longrightarrow> i < length v \<Longrightarrow> ok (v ! i)"
  by (simp add: list_all_length)

lemma join_sorted:
  assumes ok: "list_all ok v3" and k: "0 \<le> l" "l \<le> int k" "int k \<le> r" "r < int (length v3)"
    and lows: "\<And>i. l \<le> int i \<Longrightarrow> i < k \<Longrightarrow> le (v3 ! i) (v3 ! k)"
    and highs: "\<And>i. k < i \<Longrightarrow> int i \<le> r \<Longrightarrow> le (v3 ! k) (v3 ! i)"
    and ls: "\<And>i j. l \<le> int i \<Longrightarrow> i < j \<Longrightarrow> j < k \<Longrightarrow> le (v3 ! i) (v3 ! j)"
    and hs: "\<And>i j. k < i \<Longrightarrow> i < j \<Longrightarrow> int j \<le> r \<Longrightarrow> le (v3 ! i) (v3 ! j)"
    and ij: "l \<le> int i" "i < j" "int j \<le> r"
  shows "le (v3 ! i) (v3 ! j)"
proof -
  have "ok (v3 ! i)" "ok (v3 ! j)" "ok (v3 ! k)"
    using ij k by (auto intro!: ok_nth [OF ok])
  note tr = le_trans [OF this(1) this(3) this(2)]
  show ?thesis
  proof (cases "i < k")
    case True
    then show ?thesis
      using lows [of i] highs [of j] ls [of i j] tr ij by (cases "j < k"; cases "j = k") auto
  next
    case False
    then show ?thesis using highs [of j] hs [of i j] ij by (cases "i = k") auto
  qed
qed

theorem qsort_sorts:
  assumes "list_all ok v" "0 \<le> l" "r < int (length v)"
  shows "\<exists>w. qsort_by part v l r = Some w \<and> sorts v w l r"
  using assms
proof (induction "nat (r - l + 1)" arbitrary: v l r rule: less_induct)
  case less
  show ?case
  proof (cases "l < r")
    case False
    then have "qsort_by part v l r = Some v" by (subst qsort_by.simps) simp
    with False show ?thesis by (auto simp: sorts_def)
  next
    case True
    obtain v1 k where v1: "part v (nat l) (nat r) = (v1, k)" by (cases "part v (nat l) (nat r)")
    from part [OF less.prems(1) _ _ v1] True less.prems have
      k: "l \<le> int k" "int k \<le> r" and m1: "length v1 = length v" "mset v1 = mset v"
      and out1: "\<And>i. int i < l \<or> r < int i \<Longrightarrow> v1 ! i = v ! i"
      and low1: "\<And>i. l \<le> int i \<Longrightarrow> i < k \<Longrightarrow> le (v1 ! i) (v1 ! k)"
      and high1: "\<And>i. k < i \<Longrightarrow> int i \<le> r \<Longrightarrow> le (v1 ! k) (v1 ! i)"
      by (auto simp: nat_less_iff zless_nat_eq_int_zless nat_le_iff)
    have ok1: "list_all ok v1" using list_all_mset [OF m1(2) less.prems(1)] .
    from less.hyps [of "int k - 1" l v1] k less.prems ok1 m1 obtain v2 where
      v2: "qsort_by part v1 l (int k - 1) = Some v2" "sorts v1 v2 l (int k - 1)" by auto
    have ok2: "list_all ok v2"
      using list_all_mset [OF _ ok1, of v2] v2(2) by (auto simp: sorts_def)
    from less.hyps [of r "int k + 1" v2] k less.prems ok2 m1 v2(2) obtain v3 where
      v3: "qsort_by part v2 (int k + 1) r = Some v3" "sorts v2 v3 (int k + 1) r"
      by (auto simp: sorts_def)
    have q: "qsort_by part v l r = Some v3"
      using True v1 v2(1) v3(1) by (subst qsort_by.simps) simp
    have out2: "v2 ! i = v1 ! i" if "i < nat l \<or> k \<le> i" for i
      using v2(2) that less.prems(2) by (auto simp: sorts_def)
    have low2: "le (v2 ! i) (v2 ! k)" if "l \<le> int i" "i < k" for i
      using out2 range_pred [of v2 v1 "nat l" k "\<lambda>x. le x (v1 ! k)" i] v2(2) low1 that less.prems(2,3) k m1
      by (auto simp: sorts_def nat_le_iff)
    have high3: "le (v3 ! k) (v3 ! i)" if "k < i" "int i \<le> r" for i
    proof -
      have "le (v2 ! k) (v2 ! j)" if "k + 1 \<le> j" "j < nat r + 1" for j
        using high1 [of j] v2(2) that less.prems(2) True by (auto simp: sorts_def)
      moreover have "v3 ! j = v2 ! j" if "j < k + 1 \<or> nat r + 1 \<le> j" for j
        using v3(2) that less.prems(2) True by (auto simp: sorts_def)
      moreover have "i < nat r + 1" "nat r + 1 \<le> length v"
        using that less.prems True by auto
      ultimately have "le (v2 ! k) (v3 ! i)"
        using range_pred [of v3 v2 "k + 1" "nat r + 1" "\<lambda>x. le (v2 ! k) x" i] v3(2) v2(2) that m1
          less.prems k by (auto simp: sorts_def)
      then show ?thesis using v3(2) by (auto simp: sorts_def)
    qed
    have ok3: "list_all ok v3"
      using list_all_mset [OF _ ok2, of v3] v3(2) by (auto simp: sorts_def)
    have "le (v3 ! i) (v3 ! j)" if "l \<le> int i" "i < j" "int j \<le> r" for i j
      by (rule join_sorted [OF ok3 less.prems(2) k _ _ high3 _ _ that])
        (use v2(2) v3(2) low2 less.prems(3) m1 in \<open>auto simp: sorts_def\<close>)
    then have "sorts v v3 l r"
      using v2(2) v3(2) m1 out1 k by (auto simp: sorts_def)
    with q show ?thesis by blast
  qed
qed

end

subsection \<open>Ranges that are in order already\<close>

lemma scan_right_down:
  assumes "key < l" "l = key + 1" "\<forall>i. key < i \<and> i \<le> r \<longrightarrow> hi (v ! i)" "key \<le> r"
  shows "scan_right hi v key l r = key"
  using assms
proof (induction hi v key l r rule: scan_right.induct)
  case (1 hi v key l r)
  show ?case
  proof (cases "key < r")
    case True
    with 1 have "scan_right hi v key l r = scan_right hi v key l (r - 1)"
      by (subst scan_right.simps) simp
    also have "\<dots> = key"
      using 1 True by (intro "1.IH") auto
    finally show ?thesis .
  next
    case False
    then show ?thesis using "1.prems" by (subst scan_right.simps) simp
  qed
qed

lemma part_tail_fixed:
  assumes "key < R" "\<forall>i. key < i \<and> i \<le> R \<longrightarrow> hi (v ! i) \<and> \<not> lo (v ! i)"
  shows "part_tail lo hi sw v key R = (v, key)"
proof (cases "key + 1 < R")
  case True
  have "scan_left lo v (key + 1) R = key + 1"
    using assms by (subst scan_left.simps) simp
  moreover have "scan_right hi v key (key + 1) R = key"
    using assms by (intro scan_right_down) auto
  ultimately have "part_loop lo hi sw v key (key + 1) R = (v, key + 1, key)"
    using True by (subst part_loop.simps) simp
  then show ?thesis by (simp add: part_tail_def)
next
  case False
  with assms have "R = key + 1" by simp
  moreover have "part_loop lo hi sw v key R R = (v, R, R)"
    by (subst part_loop.simps) simp
  ultimately show ?thesis using assms by (simp add: part_tail_def)
qed

lemma qsort_by_fixed:
  assumes part_fixed: "\<And>l r. l < r \<Longrightarrow> r < length v \<Longrightarrow> \<exists>k. part v l r = (v, k) \<and> l \<le> k \<and> k \<le> r"
    and "0 \<le> l" "r < int (length v)"
  shows "qsort_by part v l r = Some v"
  using assms(2,3)
proof (induction "nat (r - l + 1)" arbitrary: l r rule: less_induct)
  case less
  show ?case
  proof (cases "l < r")
    case True
    with less.prems part_fixed [of "nat l" "nat r"] have
      "\<exists>k. part v (nat l) (nat r) = (v, k) \<and> nat l \<le> k \<and> k \<le> nat r"
      by (simp add: nat_less_iff)
    then obtain k where k: "part v (nat l) (nat r) = (v, k)" "l \<le> int k" "int k \<le> r"
      using less.prems True by (auto simp: nat_le_iff le_nat_iff)
    from k less.prems less.hyps [of "int k - 1" l] less.hyps [of r "int k + 1"] True show ?thesis
      by (subst qsort_by.simps) simp
  qed (subst qsort_by.simps, simp)
qed

end
