(* ===== verification/Hash_Vector.thy ===== *)
theory Hash_Vector
  imports Dlg_Prelude Byte_Codec Quick_Partition
begin

text \<open>
  \<^verbatim>\<open>CHashVector_Enhanced<DLG_KEY_TYPE, HASH_BASIC>\<close> of
  \<^verbatim>\<open>src/include/HashVector_Enhanced.h\<close>: the key table of the inverted index, a hash table
  whose buckets are vectors of key nodes. It is used in three phases: fill (\<open>AddItem\<close>), order
  the buckets (\<open>Sort\<close>), then look up (\<open>Find\<close>) or store (\<open>WriteFile\<close>, \<open>ReadInFile\<close>). The class is
  a template; the sources instantiate it at \<^verbatim>\<open>DLG_KEY_TYPE\<close>
  (\<^verbatim>\<open>src/index/inv_index/doc_index.h\<close>) only, and so does the model. \<open>HASH_BASIC\<close> is the number of
  buckets, the length of \<open>hv_data\<close>.

  The words of the nodes are kept apart, NUL-terminated, in \<open>hv_charVect\<close> while the table is
  filled and in \<open>hv_wordsBuf\<close> (\<^const>\<open>None\<close> is the null pointer) afterwards; a node holds the offset.
\<close>

record key_node =
  key_begin :: int
  key_end :: int
  key_word_offset :: int

text \<open>
  \<^verbatim>\<open>DLG_KEY_TYPE::operator=\<close> assigns its own \<open>word_offset\<close> to itself: the offset of the target
  stays. (Copy construction, as in \<^verbatim>\<open>push_back\<close>, copies all three fields.)
\<close>

definition key_assign :: "key_node \<Rightarrow> key_node \<Rightarrow> key_node" where
  "key_assign dst m = dst\<lparr>key_begin := key_begin m, key_end := key_end m,
     key_word_offset := key_word_offset dst\<rparr>"

record hash_vector =
  hv_data :: "key_node list list"
  hv_charVect :: bytes
  hv_wordsBuf :: "bytes option"
  hv_wordsBufSize :: int

definition hv_new :: "nat \<Rightarrow> hash_vector" where
  "hv_new HASH_BASIC =
     \<lparr>hv_data = replicate HASH_BASIC [], hv_charVect = [], hv_wordsBuf = None, hv_wordsBufSize = 0\<rparr>"

subsection \<open>Hashing and filling\<close>

definition hash_step :: "32 word \<Rightarrow> char \<Rightarrow> 32 word" where
  "hash_step index c = xor index (push_bit 5 index + drop_bit 2 index + word_of_int (schar c))"

definition GetHashValue :: "nat \<Rightarrow> string \<Rightarrow> nat" where
  "GetHashValue HASH_BASIC str = unat (foldl hash_step 0 (c_str str)) mod HASH_BASIC"

definition AddItem :: "hash_vector \<Rightarrow> key_node \<Rightarrow> string \<Rightarrow> hash_vector" where
  "AddItem hv item word =
     (let item' = item\<lparr>key_word_offset := i64 (int (length (hv_charVect hv)))\<rparr>;
          hashValue = GetHashValue (length (hv_data hv)) word
      in hv\<lparr>hv_charVect := hv_charVect hv @ c_str word @ [NUL],
            hv_data := (hv_data hv)[hashValue := hv_data hv ! hashValue @ [item']]\<rparr>)"

subsection \<open>Ordering the buckets\<close>

definition node_word :: "bytes \<Rightarrow> key_node \<Rightarrow> string" where
  "node_word buf n = c_str_at buf (nat (key_word_offset n))"

text \<open>\<open>tmp = node1; node1 = node2; node2 = tmp\<close>, each with the assignment above.\<close>

definition hv_wap :: "key_node list \<Rightarrow> nat \<Rightarrow> nat \<Rightarrow> key_node list" where
  "hv_wap vect i j =
     (let tmp = key_assign \<lparr>key_begin = 0, key_end = 0, key_word_offset = 0\<rparr> (vect ! i);
          vect1 = vect[i := key_assign (vect ! i) (vect ! j)]
      in vect1[j := key_assign (vect1 ! j) tmp])"

definition hv_partition :: "bytes \<Rightarrow> key_node list \<Rightarrow> nat \<Rightarrow> nat \<Rightarrow> key_node list \<times> nat" where
  "hv_partition buf vect left right =
     (let key = left; pchKeyValue = node_word buf (vect ! key)
      in if right = left + 1 then
           (if 0 < strcmp pchKeyValue (node_word buf (vect ! right))
            then hv_wap vect key right else vect, right)
         else part_tail (\<lambda>n. strcmp (node_word buf n) pchKeyValue < 0)
                (\<lambda>n. 0 \<le> strcmp (node_word buf n) pchKeyValue) hv_wap vect key right)"

definition hv_qsort :: "bytes \<Rightarrow> key_node list \<Rightarrow> int \<Rightarrow> int \<Rightarrow> key_node list option" where
  "hv_qsort buf vect left right = qsort_by (hv_partition buf) vect left right"

fun those_buckets :: "'a option list \<Rightarrow> 'a list option" where
  "those_buckets [] = Some []"
| "those_buckets (x # xs) =
     (case x of None \<Rightarrow> None | Some y \<Rightarrow> map_option ((#) y) (those_buckets xs))"

definition hv_sort :: "hash_vector \<Rightarrow> hash_vector option" where
  "hv_sort hv =
     (let buf = hv_charVect hv
      in map_option (\<lambda>d. hv\<lparr>hv_wordsBuf := Some buf, hv_data := d\<rparr>)
           (those_buckets
              (map (\<lambda>vect. hv_qsort buf vect 0 (i32 (int (length vect) - 1))) (hv_data hv))))"

subsection \<open>Lookup\<close>

text \<open>Binary search in one bucket; the result is the position of the node found.\<close>

function find_loop ::
    "bytes \<Rightarrow> string \<Rightarrow> key_node list \<Rightarrow> int \<Rightarrow> int \<Rightarrow> fault + nat option" where
  "find_loop buf word vect left right =
     (if left \<le> right then
        (let mid = (left + right) div 2;
             compareRet = strcmp word (node_word buf (vect ! nat mid))
         in if \<not> readable buf (key_word_offset (vect ! nat mid)) then Inl Out_of_bounds
            else if compareRet = 0 then Inr (Some (nat mid))
            else if 0 < compareRet then find_loop buf word vect (mid + 1) right
            else find_loop buf word vect left (mid - 1))
      else Inr None)"
  by pat_completeness auto
termination
  by (relation "measure (\<lambda>(b, w, v, l, r). nat (r - l + 1))") auto

declare find_loop.simps [simp del]

definition Find :: "hash_vector \<Rightarrow> string \<Rightarrow> fault + key_node option" where
  "Find hv word0 =
     (let word = c_str word0;
          vect = hv_data hv ! GetHashValue (length (hv_data hv)) word
      in case hv_wordsBuf hv of
           None \<Rightarrow> (if vect = [] then Inr None else Inl Null_deref)
         | Some buf \<Rightarrow>
             (case find_loop buf word vect 0 (i32 (int (length vect) - 1)) of
                Inl e \<Rightarrow> Inl e
              | Inr r \<Rightarrow> Inr (map_option (\<lambda>i. vect ! i) r)))"

subsection \<open>The file image\<close>

definition enc_key :: "key_node \<Rightarrow> bytes" where
  "enc_key n = enc_i32 (key_begin n) @ enc_i32 (key_end n) @ enc_i64 (key_word_offset n)"

definition dec_key :: "bytes \<Rightarrow> key_node" where
  "dec_key bs = \<lparr>key_begin = dec_i32 (take 4 bs), key_end = dec_i32 (take 4 (drop 4 bs)),
     key_word_offset = dec_i64 (drop 8 bs)\<rparr>"

definition key_ok :: "key_node \<Rightarrow> bool" where
  "key_ok n \<longleftrightarrow> in_i32 (key_begin n) \<and> in_i32 (key_end n) \<and> in_i64 (key_word_offset n)"

text \<open>
  \<open>WriteFile\<close> first copies the words bucket by bucket into a new buffer and moves the offsets to
  the copies.
\<close>

fun relocate_bucket :: "bytes \<Rightarrow> bytes \<Rightarrow> key_node list \<Rightarrow> bytes \<times> key_node list" where
  "relocate_bucket charVect buf [] = (buf, [])"
| "relocate_bucket charVect buf (n # ns) =
     (let word_offset = u32 (key_word_offset n)
      in case relocate_bucket charVect (buf @ c_str_at charVect (nat word_offset) @ [NUL]) ns of
           (buf', ns') \<Rightarrow> (buf', n\<lparr>key_word_offset := u32 (int (length buf))\<rparr> # ns'))"

fun relocate :: "bytes \<Rightarrow> bytes \<Rightarrow> key_node list list \<Rightarrow> bytes \<times> key_node list list" where
  "relocate charVect buf [] = (buf, [])"
| "relocate charVect buf (v # vs) =
     (case relocate_bucket charVect buf v of
        (buf1, v') \<Rightarrow>
          (case relocate charVect buf1 vs of (buf2, vs') \<Rightarrow> (buf2, v' # vs')))"

fun write_buckets :: "nat \<Rightarrow> key_node list list \<Rightarrow> bytes" where
  "write_buckets i [] = []"
| "write_buckets i (v # vs) =
     enc_u32 (int i) @ enc_u32 (int (length v)) @
     (if 0 < length v then fwrite_items enc_key v else []) @ write_buckets (i + 1) vs"

text \<open>
  The words must fill the buffer that was allocated for them: more would be written behind its
  end, fewer would leave indeterminate bytes to be stored. \<open>hv_image\<close> is the table with the moved
  offsets and the whole file image; \<open>WriteFile room\<close> is \<open>WriteFile\<close> on a file that accepts
  \<open>room\<close> more bytes. Only the write of the word buffer is checked.
\<close>

definition hv_image :: "hash_vector \<Rightarrow> fault + (hash_vector \<times> bytes)" where
  "hv_image hv =
     (case relocate (hv_charVect hv) [] (hv_data hv) of
        (buf, data') \<Rightarrow>
          if \<not> list_all (list_all (\<lambda>n. readable (hv_charVect hv) (u32 (key_word_offset n)))) (hv_data hv)
          then Inl Out_of_bounds
          else if length (hv_charVect hv) < length buf then Inl Out_of_bounds
          else if length buf < length (hv_charVect hv) then Inl Uninitialised
          else Inr (hv\<lparr>hv_wordsBufSize := u64 (int (length (hv_charVect hv))), hv_data := data',
                       hv_wordsBuf := Some buf\<rparr>,
                    enc_u64 (int (length (hv_charVect hv))) @ fwrite_items enc_char buf @
                    enc_u32 (int (length data')) @ write_buckets 0 data'))"

definition WriteFile :: "nat \<Rightarrow> hash_vector \<Rightarrow> fault + (bool \<times> hash_vector \<times> bytes)" where
  "WriteFile room hv =
     (case hv_image hv of
        Inl e \<Rightarrow> Inl e
      | Inr (hv1, img) \<Rightarrow>
          if room - 8 < length (hv_charVect hv) then Inr (False, hv1, take room img)
          else Inr (True, hv1\<lparr>hv_wordsBuf := None\<rparr>, take room img))"

text \<open>
  \<open>ReadInFile\<close> does not check every \<^verbatim>\<open>fread\<close>. A short read of the buffer size overwrites only the
  bytes that were there (\<open>overlay\<close>); a short read of a bucket's index or size leaves an
  uninitialised local; a short read of the nodes leaves the zeros of \<^verbatim>\<open>NODETYPE()\<close>.
\<close>

definition overlay :: "bytes \<Rightarrow> bytes \<Rightarrow> bytes" where
  "overlay old f = take (length old) f @ drop (length f) old"

fun read_buckets :: "nat \<Rightarrow> key_node list list \<Rightarrow> bytes \<Rightarrow> fault + (key_node list list \<times> bytes)" where
  "read_buckets 0 data f = Inr (data, f)"
| "read_buckets (Suc k) data f =
     (case fread_item 4 dec_u32 f of
        None \<Rightarrow> Inl Uninitialised
      | Some (index, f1) \<Rightarrow>
          if length data \<le> nat index then Inl Out_of_bounds
          else case fread_item 4 dec_u32 f1 of
                 None \<Rightarrow> Inl Uninitialised
               | Some (vectSize, f2) \<Rightarrow>
                   read_buckets k
                     (data[nat index :=
                        decode_items 16 dec_key (nat vectSize)
                          (overlay (replicate (nat vectSize * 16) NUL) f2)])
                     (drop (nat vectSize * 16) f2))"

definition ReadInFile :: "hash_vector \<Rightarrow> bytes \<Rightarrow> fault + (bool \<times> hash_vector \<times> bytes)" where
  "ReadInFile hv f =
     (let size = dec_u64 (overlay (enc_u64 (hv_wordsBufSize hv)) f);
          f1 = drop 8 f;
          hv1 = hv\<lparr>hv_wordsBufSize := size\<rparr>
      in case fread_items 1 dec_char (nat size) f1 of
           None \<Rightarrow> Inr (False, hv1\<lparr>hv_wordsBuf := Some f1\<rparr>, [])
         | Some (buf, f2) \<Rightarrow>
             (case fread_item 4 dec_u32 f2 of
                None \<Rightarrow> Inr (False, hv1\<lparr>hv_wordsBuf := Some buf\<rparr>, [])
              | Some (hashSize, f3) \<Rightarrow>
                  if hashSize \<noteq> int (length (hv_data hv))
                  then Inr (False, hv1\<lparr>hv_wordsBuf := Some buf\<rparr>, f3)
                  else (case read_buckets (nat hashSize) (hv_data hv) f3 of
                          Inl e \<Rightarrow> Inl e
                        | Inr (d, f4) \<Rightarrow>
                            Inr (True, hv1\<lparr>hv_wordsBuf := Some buf, hv_data := d\<rparr>, f4))))"

definition hv_clear :: "hash_vector \<Rightarrow> hash_vector" where
  "hv_clear hv = hv\<lparr>hv_data := map (\<lambda>_. []) (hv_data hv), hv_charVect := [], hv_wordsBuf := None\<rparr>"

section \<open>Properties\<close>

interpretation ckey: fixed_codec enc_key dec_key 16 key_ok
  by unfold_locales
     (simp add: enc_key_def ci32.enc_length ci64.enc_length,
      simp add: enc_key_def dec_key_def key_ok_def ci32.enc_length ci64.enc_length
        ci32.dec_enc ci64.dec_enc)

lemma GetHashValue_less: "0 < N \<Longrightarrow> GetHashValue N w < N"
  by (simp add: GetHashValue_def)

lemma GetHashValue_c_str [simp]: "GetHashValue N (c_str w) = GetHashValue N w"
  by (simp add: GetHashValue_def)

subsection \<open>What a table holds\<close>

text \<open>
  \<open>hv_rep hv buf ts\<close>: read with the word buffer \<open>buf\<close>, the table holds the entries \<open>ts\<close> (a word,
  and the range \<open>begin\<close>, \<open>end\<close>), each in the bucket of its hash, in the order of \<open>ts\<close>.
\<close>

type_synonym entry = "string \<times> int \<times> int"

definition node_view :: "bytes \<Rightarrow> key_node \<Rightarrow> entry" where
  "node_view buf n = (node_word buf n, key_begin n, key_end n)"

definition node_ok :: "bytes \<Rightarrow> key_node \<Rightarrow> bool" where
  "node_ok buf n \<longleftrightarrow> readable buf (key_word_offset n) \<and> key_ok n"

definition in_bucket :: "nat \<Rightarrow> nat \<Rightarrow> entry list \<Rightarrow> entry list" where
  "in_bucket N h ts = filter (\<lambda>t. GetHashValue N (fst t) = h) ts"

definition hv_rep :: "hash_vector \<Rightarrow> bytes \<Rightarrow> entry list \<Rightarrow> bool" where
  "hv_rep hv buf ts \<longleftrightarrow>
     (\<forall>h < length (hv_data hv).
        map (node_view buf) (hv_data hv ! h) = in_bucket (length (hv_data hv)) h ts \<and>
        list_all (node_ok buf) (hv_data hv ! h))"

definition entry_ok :: "entry \<Rightarrow> bool" where
  "entry_ok t \<longleftrightarrow> no_nul (fst t) \<and> in_i32 (fst (snd t)) \<and> in_i32 (snd (snd t))"

definition entry_bytes :: "entry list \<Rightarrow> bytes" where
  "entry_bytes ts = concat (map (\<lambda>t. fst t @ [NUL]) ts)"

definition hv_filled :: "hash_vector \<Rightarrow> entry list \<Rightarrow> bool" where
  "hv_filled hv ts \<longleftrightarrow> hv_rep hv (hv_charVect hv) ts \<and> hv_charVect hv = entry_bytes ts
     \<and> list_all entry_ok ts"

lemma entry_bytes_simps [simp]:
  "entry_bytes [] = []"
  "entry_bytes (t # ts) = fst t @ NUL # entry_bytes ts"
  "entry_bytes (ts @ us) = entry_bytes ts @ entry_bytes us"
  by (simp_all add: entry_bytes_def)

lemma node_view_append:
  "node_ok buf n \<Longrightarrow> node_ok (buf @ x) n \<and> node_view (buf @ x) n = node_view buf n"
  by (simp add: node_ok_def node_view_def node_word_def readable_append)

lemma hv_rep_append:
  assumes "hv_rep hv buf ts"
  shows "hv_rep hv (buf @ x) ts"
proof -
  have "map (node_view (buf @ x)) v = map (node_view buf) v \<and> list_all (node_ok (buf @ x)) v"
    if "list_all (node_ok buf) v" for v
    using that node_view_append [of buf _ x] by (auto simp: list_all_iff)
  with assms show ?thesis unfolding hv_rep_def by metis
qed

lemma hv_new_filled: "hv_filled (hv_new N) []"
  by (simp add: hv_filled_def hv_rep_def hv_new_def in_bucket_def)

lemma AddItem_filled:
  assumes f: "hv_filled hv ts" and N: "0 < length (hv_data hv)"
    and w: "no_nul w" "in_i32 (key_begin item)" "in_i32 (key_end item)"
    and len: "length (hv_charVect hv) < 9223372036854775808"
  shows "hv_filled (AddItem hv item w) (ts @ [(w, key_begin item, key_end item)])"
proof -
  let ?N = "length (hv_data hv)" and ?buf = "hv_charVect hv"
  define n where "n = item\<lparr>key_word_offset := int (length ?buf)\<rparr>"
  have i: "i64 (int (length ?buf)) = int (length ?buf)" using len by (simp add: in_i64_nat)
  have eq: "AddItem hv item w = hv\<lparr>hv_charVect := ?buf @ w @ [NUL],
      hv_data := (hv_data hv)[GetHashValue ?N w := hv_data hv ! GetHashValue ?N w @ [n]]\<rparr>"
    using w by (simp add: AddItem_def i n_def Let_def)
  have n: "node_ok (?buf @ w @ [NUL]) n"
      "node_view (?buf @ w @ [NUL]) n = (w, key_begin item, key_end item)"
    using w len by (simp_all add: node_ok_def node_view_def node_word_def n_def readable_def
        key_ok_def in_i64_nat c_str_at_def)
  have r: "hv_rep hv (?buf @ w @ [NUL]) ts"
    using f unfolding hv_filled_def by (blast intro: hv_rep_append)
  have h: "GetHashValue ?N w < ?N" using N by (rule GetHashValue_less)
  have "hv_rep (AddItem hv item w) (?buf @ w @ [NUL]) (ts @ [(w, key_begin item, key_end item)])"
    using r h n unfolding hv_rep_def eq by (auto simp: nth_list_update in_bucket_def)
  with f w show ?thesis
    by (simp add: hv_filled_def eq entry_ok_def)
qed

subsection \<open>Sorted tables: Sort and Find\<close>

definition entries_sorted :: "entry list \<Rightarrow> bool" where
  "entries_sorted ts \<longleftrightarrow> sorted_wrt str_less (map fst ts)"

lemma in_bucket_sorted: "entries_sorted ts \<Longrightarrow> entries_sorted (in_bucket N h ts)"
  by (auto simp: entries_sorted_def in_bucket_def sorted_wrt_map intro: sorted_wrt_filter)

lemma map_fst_node_view: "map fst (map (node_view buf) v) = map (node_word buf) v"
  by (simp add: node_view_def)

lemma hv_partition_fixed:
  assumes "sorted_wrt str_less (map (node_word buf) v)" "l < r" "r < length v"
  shows "\<exists>k. hv_partition buf v l r = (v, k) \<and> l \<le> k \<and> k \<le> r"
proof -
  have less: "strcmp (node_word buf (v ! l)) (node_word buf (v ! i)) < 0" if "l < i" "i \<le> r" for i
    using assms that by (auto simp: sorted_wrt_iff_nth_less str_less_def)
  then have gr: "0 < strcmp (node_word buf (v ! i)) (node_word buf (v ! l))" if "l < i" "i \<le> r" for i
    using that strcmp_swap [of "node_word buf (v ! i)" "node_word buf (v ! l)"] by fastforce
  show ?thesis
  proof (cases "r = l + 1")
    case True
    with less [of r] show ?thesis by (simp add: hv_partition_def)
  next
    case False
    have "part_tail (\<lambda>n. strcmp (node_word buf n) (node_word buf (v ! l)) < 0)
        (\<lambda>n. 0 \<le> strcmp (node_word buf n) (node_word buf (v ! l))) hv_wap v l r = (v, l)"
      using gr assms by (intro part_tail_fixed) (auto simp: less_le_not_le)
    with False assms show ?thesis by (simp add: hv_partition_def)
  qed
qed

lemma hv_qsort_fixed:
  assumes "sorted_wrt str_less (map (node_word buf) v)" "r < int (length v)"
  shows "hv_qsort buf v 0 r = Some v"
  unfolding hv_qsort_def
  by (rule qsort_by_fixed) (use assms hv_partition_fixed in auto)

lemma those_buckets_map: "(\<And>v. v \<in> set d \<Longrightarrow> f v = Some v) \<Longrightarrow> those_buckets (map f d) = Some d"
  by (induction d) auto

text \<open>The table stays as it is, and gets its word buffer.\<close>

lemma hv_sort_sorted:
  assumes f: "hv_filled hv ts" and s: "entries_sorted ts" and len: "length ts \<le> 2147483648"
  shows "hv_sort hv = Some (hv\<lparr>hv_wordsBuf := Some (hv_charVect hv)\<rparr>)"
proof -
  have "hv_qsort (hv_charVect hv) v 0 (i32 (int (length v) - 1)) = Some v" if v: "v \<in> set (hv_data hv)" for v
  proof -
    obtain h where h: "h < length (hv_data hv)" "v = hv_data hv ! h"
      using v by (auto simp: in_set_conv_nth)
    with f have view: "map (node_view (hv_charVect hv)) v = in_bucket (length (hv_data hv)) h ts"
      unfolding hv_filled_def hv_rep_def by blast
    have "sorted_wrt str_less (map (node_word (hv_charVect hv)) v)"
      using in_bucket_sorted [OF s, of "length (hv_data hv)" h]
      unfolding entries_sorted_def view [symmetric] map_fst_node_view .
    moreover have "length v \<le> length ts"
      using arg_cong [OF view, of length] by (simp add: in_bucket_def)
    ultimately show ?thesis
      using len by (intro hv_qsort_fixed) (auto simp: in_i32_def)
  qed
  then show ?thesis
    by (simp add: hv_sort_def those_buckets_map)
qed

lemma find_loop_spec:
  assumes "sorted_wrt str_less (map (node_word buf) v)" "list_all (node_ok buf) v"
    and "0 \<le> l" "r < int (length v)"
  shows "\<exists>res. find_loop buf w v l r = Inr res \<and>
    (case res of Some i \<Rightarrow> l \<le> int i \<and> int i \<le> r \<and> node_word buf (v ! i) = w
     | None \<Rightarrow> (\<forall>i. l \<le> int i \<and> int i \<le> r \<longrightarrow> node_word buf (v ! i) \<noteq> w))"
  using assms
proof (induction buf w v l r rule: find_loop.induct)
  case (1 buf w v l r)
  show ?case
  proof (cases "l \<le> r")
    case False
    then show ?thesis by (subst find_loop.simps) auto
  next
    case True
    define m where "m = (l + r) div 2"
    have m: "l \<le> m" "m \<le> r" "0 \<le> m" "nat m < length v" using True 1 by (auto simp: m_def)
    let ?c = "strcmp w (node_word buf (v ! nat m))"
    have rd: "readable buf (key_word_offset (v ! nat m))"
      using 1 m by (simp add: list_all_length node_ok_def)
    have less: "str_less (node_word buf (v ! i)) (node_word buf (v ! j))" if "i < j" "j < length v" for i j
      using 1 that by (auto simp: sorted_wrt_iff_nth_less)
    have eq: "find_loop buf w v l r = (if ?c = 0 then Inr (Some (nat m))
        else if 0 < ?c then find_loop buf w v (m + 1) r else find_loop buf w v l (m - 1))"
      using True rd by (subst find_loop.simps) (simp add: Let_def m_def)
    consider "?c = 0" | "0 < ?c" | "?c < 0" by linarith
    then show ?thesis
    proof cases
      case 1
      with m show ?thesis unfolding eq by (auto)
    next
      case 2
      have no: "node_word buf (v ! i) \<noteq> w" if "int i \<le> m" for i
      proof (cases "int i = m")
        case False
        with that m have "i < nat m" by linarith
        from less [OF this m(4)] 2 show ?thesis by (auto simp: str_less_def)
      qed (use 2 in auto)
      have "?c \<noteq> 0" using 2 by linarith
      with "1.IH"(1) [OF True m_def refl _ _ 2] "1.prems" rd m
      have "\<exists>res. find_loop buf w v (m + 1) r = Inr res \<and>
        (case res of Some i \<Rightarrow> m + 1 \<le> int i \<and> int i \<le> r \<and> node_word buf (v ! i) = w
         | None \<Rightarrow> (\<forall>i. m + 1 \<le> int i \<and> int i \<le> r \<longrightarrow> node_word buf (v ! i) \<noteq> w))"
        by auto
      with 2 m no show ?thesis unfolding eq by (force split: option.splits)
    next
      case 3
      have no: "node_word buf (v ! i) \<noteq> w" if "m \<le> int i" "int i \<le> r" for i
      proof (cases "int i = m")
        case False
        with that m have "nat m < i" by linarith
        moreover have "i < length v" using that 1 by linarith
        ultimately show ?thesis
          using less [of "nat m" i] 3 strcmp_swap [of w "node_word buf (v ! nat m)"]
          by (auto simp: str_less_def)
      qed (use 3 in auto)
      have "?c \<noteq> 0" "\<not> 0 < ?c" using 3 by linarith+
      with "1.IH"(2) [OF True m_def refl] "1.prems" rd m
      have "\<exists>res. find_loop buf w v l (m - 1) = Inr res \<and>
        (case res of Some i \<Rightarrow> l \<le> int i \<and> int i \<le> m - 1 \<and> node_word buf (v ! i) = w
         | None \<Rightarrow> (\<forall>i. l \<le> int i \<and> int i \<le> m - 1 \<longrightarrow> node_word buf (v ! i) \<noteq> w))"
        by auto
      with 3 m no show ?thesis unfolding eq by (force split: option.splits)
    qed
  qed
qed

lemma map_of_in_bucket:
  "map_of (in_bucket N (GetHashValue N w) ts) w = map_of ts w"
  by (induction ts) (auto simp: in_bucket_def)

lemma sorted_distinct: "sorted_wrt str_less ws \<Longrightarrow> distinct ws"
  by (induction ws) auto

lemma map_of_view:
  assumes "distinct (map (node_word buf) v)" "i < length v" "node_word buf (v ! i) = w"
  shows "map_of (map (node_view buf) v) w = Some (key_begin (v ! i), key_end (v ! i))"
proof -
  have "(w, key_begin (v ! i), key_end (v ! i)) \<in> set (map (node_view buf) v)"
    using assms(2,3) by (force simp: node_view_def in_set_conv_nth)
  moreover have "distinct (map fst (map (node_view buf) v))"
    unfolding map_fst_node_view by (rule assms(1))
  ultimately show ?thesis by (rule map_of_is_SomeI [rotated])
qed

text \<open>On a sorted table \<open>Find\<close> is the lookup in the entries.\<close>

definition lookup_rep :: "hash_vector \<Rightarrow> bytes \<Rightarrow> entry list \<Rightarrow> bool" where
  "lookup_rep hv buf ts \<longleftrightarrow> hv_wordsBuf hv = Some buf \<and> hv_rep hv buf ts \<and> entries_sorted ts
     \<and> 0 < length (hv_data hv) \<and> length ts \<le> 2147483648"

lemma Find_map_of:
  assumes "lookup_rep hv buf ts"
  shows "\<exists>r. Find hv w = Inr r \<and> map_option (\<lambda>n. (key_begin n, key_end n)) r = map_of ts (c_str w)"
proof -
  let ?N = "length (hv_data hv)"
  define h where "h = GetHashValue ?N w"
  define v where "v = hv_data hv ! h"
  have "h < ?N" using assms by (simp add: lookup_rep_def h_def GetHashValue_less)
  with assms have view: "map (node_view buf) v = in_bucket ?N h ts" and ok: "list_all (node_ok buf) v"
    by (simp_all add: lookup_rep_def hv_rep_def v_def)
  have s: "sorted_wrt str_less (map (node_word buf) v)"
    using assms in_bucket_sorted [of ts ?N h]
    unfolding lookup_rep_def entries_sorted_def view [symmetric] map_fst_node_view by blast
  have "length v \<le> length ts"
    using arg_cong [OF view, of length] by (simp add: in_bucket_def)
  with assms have i: "i32 (int (length v) - 1) = int (length v) - 1"
    by (simp add: lookup_rep_def in_i32_def)
  have lk: "map_of ts (c_str w) = map_of (map (node_view buf) v) (c_str w)"
    using map_of_in_bucket [of ?N "c_str w" ts] by (simp add: view h_def)
  from find_loop_spec [OF s ok, of 0 "int (length v) - 1" "c_str w"] obtain res where
    res: "find_loop buf (c_str w) v 0 (int (length v) - 1) = Inr res"
    and cases: "case res of Some i \<Rightarrow> 0 \<le> int i \<and> int i \<le> int (length v) - 1 \<and>
          node_word buf (v ! i) = c_str w
      | None \<Rightarrow> \<forall>i. 0 \<le> int i \<and> int i \<le> int (length v) - 1 \<longrightarrow> node_word buf (v ! i) \<noteq> c_str w"
    by auto
  have F: "Find hv w = Inr (map_option ((!) v) res)"
    using assms res i by (simp add: Find_def lookup_rep_def Let_def v_def h_def)
  show ?thesis
  proof (cases res)
    case None
    with cases have "c_str w \<notin> fst ` set (map (node_view buf) v)"
      by (auto simp: node_view_def in_set_conv_nth)
    then have "map_of (map (node_view buf) v) (c_str w) = None"
      by (simp add: map_of_eq_None_iff)
    with None F lk show ?thesis by simp
  next
    case (Some j)
    with cases have "j < length v" "node_word buf (v ! j) = c_str w" by auto
    from map_of_view [OF sorted_distinct [OF s] this] Some F lk show ?thesis by simp
  qed
qed

subsection \<open>The file round trip\<close>

lemma relocate_bucket_spec:
  assumes "relocate_bucket cv buf v = (buf', v')"
    and "list_all (node_ok cv) v" "length cv < 4294967296"
  shows "buf' = buf @ concat (map (\<lambda>n. node_word cv n @ [NUL]) v) \<and>
    (length buf' < 4294967296 \<longrightarrow>
      map (node_view buf') v' = map (node_view cv) v \<and> list_all (node_ok buf') v')"
  using assms
proof (induction v arbitrary: buf buf' v')
  case (Cons n ns)
  from Cons.prems have n: "node_ok cv n" and ns: "list_all (node_ok cv) ns" by auto
  have off: "u32 (key_word_offset n) = key_word_offset n"
  proof (rule u32_id)
    have "0 \<le> key_word_offset n" "nat (key_word_offset n) < length cv"
      using n readable_le [of cv "key_word_offset n"] by (auto simp: node_ok_def)
    with Cons.prems(3) show "in_u32 (key_word_offset n)" unfolding in_u32_def by linarith
  qed
  obtain w' where w': "relocate_bucket cv (buf @ node_word cv n @ [NUL]) ns = (buf', w')"
    "v' = n\<lparr>key_word_offset := u32 (int (length buf))\<rparr> # w'"
    using Cons.prems(1) by (auto simp: Let_def off node_word_def split: prod.splits)
  note IH = Cons.IH [OF w'(1) ns Cons.prems(3)]
  have buf': "buf' = buf @ concat (map (\<lambda>n. node_word cv n @ [NUL]) (n # ns))"
    using IH by simp
  show ?case
  proof (intro conjI impI)
    assume len: "length buf' < 4294967296"
    then have o: "u32 (int (length buf)) = int (length buf)"
      by (simp add: buf' in_u32_nat)
    let ?n = "n\<lparr>key_word_offset := int (length buf)\<rparr>"
    have "node_view buf' ?n = node_view cv n"
      by (simp add: node_view_def node_word_def buf' c_str_at_def)
    moreover have "node_ok buf' ?n"
      using n len by (simp add: node_ok_def key_ok_def readable_def buf' in_i64_nat)
    moreover have "map (node_view buf') w' = map (node_view cv) ns" "list_all (node_ok buf') w'"
      using IH len by blast+
    ultimately show "map (node_view buf') v' = map (node_view cv) (n # ns)"
        "list_all (node_ok buf') v'"
      by (simp_all add: w' o)
  qed (rule buf')
qed simp

definition bucket_words :: "bytes \<Rightarrow> key_node list list \<Rightarrow> bytes" where
  "bucket_words cv d = concat (map (\<lambda>n. node_word cv n @ [NUL]) (concat d))"

lemma map_view_append:
  "list_all (node_ok b) v \<Longrightarrow>
     map (node_view (b @ x)) v = map (node_view b) v \<and> list_all (node_ok (b @ x)) v"
  using node_view_append [of b _ x] by (auto simp: list_all_iff)

lemma relocate_spec:
  assumes "relocate cv buf d = (buf', d')"
    and "list_all (list_all (node_ok cv)) d" "length cv < 4294967296"
  shows "buf' = buf @ bucket_words cv d \<and> length d' = length d \<and>
    (length buf' < 4294967296 \<longrightarrow>
      map (map (node_view buf')) d' = map (map (node_view cv)) d \<and>
      list_all (list_all (node_ok buf')) d')"
  using assms
proof (induction d arbitrary: buf buf' d')
  case (Cons v vs)
  obtain b1 v1 where b1: "relocate_bucket cv buf v = (b1, v1)" by force
  obtain d1 where d1: "relocate cv b1 vs = (buf', d1)" "d' = v1 # d1"
    using Cons.prems(1) by (auto simp: b1 split: prod.splits)
  have v: "list_all (node_ok cv) v" "list_all (list_all (node_ok cv)) vs" using Cons.prems by auto
  note B = relocate_bucket_spec [OF b1 v(1) Cons.prems(3)]
  note IH = Cons.IH [OF d1(1) v(2) Cons.prems(3)]
  have buf': "buf' = buf @ bucket_words cv (v # vs)" "buf' = b1 @ bucket_words cv vs"
    using B IH by (simp_all add: bucket_words_def)
  show ?case
  proof (intro conjI impI)
    show "length d' = length (v # vs)" using IH d1 by simp
    assume len: "length buf' < 4294967296"
    then have "length b1 < 4294967296" by (simp add: buf'(2))
    with B have "map (node_view b1) v1 = map (node_view cv) v" "list_all (node_ok b1) v1" by auto
    with map_view_append [of b1 v1 "bucket_words cv vs"]
    have "map (node_view buf') v1 = map (node_view cv) v \<and> list_all (node_ok buf') v1"
      by (simp add: buf'(2))
    with IH len d1 show "map (map (node_view buf')) d' = map (map (node_view cv)) (v # vs)"
        "list_all (list_all (node_ok buf')) d'" by auto
  qed (rule buf'(1))
qed (auto simp: bucket_words_def)

lemma read_write_buckets:
  assumes "list_all (list_all key_ok) d" "list_all (\<lambda>v. length v < 4294967296) d"
    and "i + length d \<le> length data" "length data < 4294967296"
  shows "read_buckets (length d) data (write_buckets i d @ rest) =
    Inr (take i data @ d @ drop (i + length d) data, rest)"
  using assms
proof (induction d arbitrary: i data)
  case (Cons v vs)
  have r: "in_u32 (int i)" "in_u32 (int (length v))" using Cons.prems by (auto simp: in_u32_def)
  have body: "decode_items 16 dec_key (length v)
        (overlay (replicate (length v * 16) NUL) (fwrite_items enc_key v @ x)) = v" for x
  proof -
    have "overlay (replicate (length v * 16) NUL) (fwrite_items enc_key v @ x) = fwrite_items enc_key v @ []"
      by (simp add: overlay_def ckey.length_fwrite)
    with Cons.prems show ?thesis
      by (metis ckey.decode_items_fwrite list.pred_inject(2))
  qed
  have w: "write_buckets i (v # vs) = enc_u32 (int i) @ enc_u32 (int (length v)) @
      fwrite_items enc_key v @ write_buckets (i + 1) vs" by simp
  have IH: "read_buckets (length vs) (data[i := v]) (write_buckets (i + 1) vs @ rest) =
      Inr (take (i + 1) (data[i := v]) @ vs @ drop (i + 1 + length vs) (data[i := v]), rest)"
    using Cons.prems by (intro Cons.IH) auto
  have "take (i + 1) (data[i := v]) = take i data @ [v]"
    using Cons.prems by (simp add: take_Suc_conv_app_nth)
  then have t: "take (i + 1) (data[i := v]) @ vs @ drop (i + 1 + length vs) (data[i := v]) =
      take i data @ (v # vs) @ drop (i + length (v # vs)) data"
    using Cons.prems by (simp add: drop_update_cancel)
  show ?case
    using Cons.prems r IH
    unfolding w t [symmetric] by (simp add: cu32.fread_item_enc body ckey.length_fwrite)
qed simp

lemma sum_buckets:
  assumes "\<And>t. t \<in> set ts \<Longrightarrow> h t < (N :: nat)"
  shows "(\<Sum>k<N. sum_list (map f (filter (\<lambda>t. h t = k) ts))) = (sum_list (map f ts) :: nat)"
  using assms
proof (induction ts)
  case (Cons t ts)
  have "(\<Sum>k<N. sum_list (map f (filter (\<lambda>u. h u = k) (t # ts)))) =
      (\<Sum>k<N. (if k = h t then f t else 0) + sum_list (map f (filter (\<lambda>u. h u = k) ts)))"
    by (intro sum.cong) auto
  also have "\<dots> = f t + sum_list (map f ts)"
    using Cons by (simp add: sum.distrib sum.delta)
  finally show ?case by simp
qed simp

lemma length_bucket_words:
  "length (bucket_words cv d) =
     sum_list (map (\<lambda>v. sum_list (map (\<lambda>t. length (fst t) + 1) (map (node_view cv) v))) d)"
proof (induction d)
  case (Cons v d)
  have "length (concat (map (\<lambda>n. node_word cv n @ [NUL]) v)) =
      sum_list (map (\<lambda>t. length (fst t) + 1) (map (node_view cv) v))"
    by (induction v) (auto simp: node_view_def)
  with Cons show ?case by (simp add: bucket_words_def)
qed (simp add: bucket_words_def)

lemma length_entry_bytes: "length (entry_bytes ts) = sum_list (map (\<lambda>t. length (fst t) + 1) ts)"
  by (induction ts) auto

text \<open>The copy takes exactly the space of the words that were added.\<close>

lemma hv_rep_words_length:
  assumes "hv_rep hv buf ts" "0 < length (hv_data hv)"
  shows "length (bucket_words buf (hv_data hv)) = length (entry_bytes ts)"
proof -
  let ?N = "length (hv_data hv)"
  have "length (bucket_words buf (hv_data hv)) =
      (\<Sum>k<?N. sum_list (map (\<lambda>t. length (fst t) + 1) (map (node_view buf) (hv_data hv ! k))))"
    by (simp only: length_bucket_words sum_list_sum_nth length_map atLeast0LessThan nth_map)
      (rule sum.cong, simp_all)
  also have "\<dots> = (\<Sum>k<?N. sum_list (map (\<lambda>t. length (fst t) + 1)
      (filter (\<lambda>t. GetHashValue ?N (fst t) = k) ts)))"
    by (intro sum.cong refl) (use assms in \<open>simp add: hv_rep_def in_bucket_def\<close>)
  also have "\<dots> = sum_list (map (\<lambda>t. length (fst t) + 1) ts)"
    using assms(2) by (intro sum_buckets) (simp add: GetHashValue_less)
  finally show ?thesis by (simp only: length_entry_bytes)
qed

lemma hv_image_ReadInFile:
  assumes f: "hv_filled hv ts" and N: "0 < length (hv_data hv)" "length (hv_data hv) < 4294967296"
    and len: "length (hv_charVect hv) < 4294967296" "length ts < 4294967296"
    and N0: "length (hv_data hv0) = length (hv_data hv)"
  shows "\<exists>hv' img hv1 buf. hv_image hv = Inr (hv', img) \<and>
    (\<forall>rest. ReadInFile hv0 (img @ rest) = Inr (True, hv1, rest)) \<and>
    hv_wordsBuf hv1 = Some buf \<and> hv_rep hv1 buf ts \<and> length (hv_data hv1) = length (hv_data hv)"
proof -
  let ?cv = "hv_charVect hv" and ?d = "hv_data hv" and ?N = "length (hv_data hv)"
  have rep: "hv_rep hv ?cv ts" and cv: "?cv = entry_bytes ts" using f unfolding hv_filled_def by blast+
  have ok: "list_all (list_all (node_ok ?cv)) ?d"
    using rep by (auto simp: hv_rep_def list_all_length)
  obtain buf d' where rel: "relocate ?cv [] ?d = (buf, d')" by force
  note R = relocate_spec [OF rel ok len(1)]
  have buflen: "length buf = length ?cv"
    using R hv_rep_words_length [OF rep N(1)] cv by simp
  with R len(1) have R': "buf = bucket_words ?cv ?d" "length d' = ?N"
      "map (map (node_view buf)) d' = map (map (node_view ?cv)) ?d"
      "list_all (list_all (node_ok buf)) d'" by auto
  have rd: "list_all (list_all (\<lambda>n. readable ?cv (u32 (key_word_offset n)))) ?d"
  proof -
    have "readable ?cv (u32 (key_word_offset n))" if "node_ok ?cv n" for n
    proof -
      have r: "readable ?cv (key_word_offset n)" using that by (simp add: node_ok_def)
      with readable_le [OF r] len(1) have "in_u32 (key_word_offset n)" unfolding in_u32_def by linarith
      with r show ?thesis by simp
    qed
    with ok show ?thesis by (simp add: list_all_iff)
  qed
  define img where "img = enc_u64 (int (length ?cv)) @ buf @ enc_u32 (int ?N) @ write_buckets 0 d'"
  define hv' where "hv' = hv\<lparr>hv_wordsBufSize := u64 (int (length ?cv)), hv_data := d', hv_wordsBuf := Some buf\<rparr>"
  have W: "hv_image hv = Inr (hv', img)"
    using rd buflen R'(2) by (simp add: hv_image_def rel img_def hv'_def)
  define hv1 where "hv1 = hv0\<lparr>hv_wordsBufSize := int (length ?cv), hv_wordsBuf := Some buf, hv_data := d'\<rparr>"
  have view: "map (node_view buf) (d' ! h) = map (node_view ?cv) (?d ! h)" if "h < ?N" for h
    using that R'(2) arg_cong [OF R'(3), of "\<lambda>x. x ! h"] by simp
  have rep1: "hv_rep hv1 buf ts"
    using rep view R'(2,4) by (simp add: hv_rep_def hv1_def list_all_length)
  have vlen: "length (d' ! h) \<le> length ts" if "h < ?N" for h
  proof -
    have "map (node_view buf) (d' ! h) = in_bucket ?N h ts"
      using that rep view [OF that] by (simp add: hv_rep_def)
    from arg_cong [OF this, of length] show ?thesis by (simp add: in_bucket_def)
  qed
  have dk: "list_all (list_all key_ok) d'"
    using R'(4) by (auto simp: list_all_iff node_ok_def)
  have dl: "list_all (\<lambda>v. length v < 4294967296) d'"
    using vlen R'(2) len(2) by (force simp: list_all_length)
  have "ReadInFile hv0 (img @ rest) = Inr (True, hv1, rest)" for rest
  proof -
    have sz: "dec_u64 (overlay (enc_u64 (hv_wordsBufSize hv0)) (img @ rest)) = int (length ?cv)"
      using len(1) by (simp add: overlay_def img_def cu64.enc_length cu64.dec_enc in_u64_nat)
    have f1: "drop 8 (img @ rest) = buf @ enc_u32 (int ?N) @ write_buckets 0 d' @ rest"
      by (simp add: img_def cu64.enc_length)
    have fr: "fread_items 1 dec_char (length ?cv) (buf @ x) = Some (buf, x)" for x
      using cchar.fread_items_fwrite [of buf "length ?cv" x] buflen by (simp add: list_all_iff)
    have rb: "read_buckets ?N (hv_data hv0) (write_buckets 0 d' @ rest) = Inr (d', rest)"
      using read_write_buckets [OF dk dl, of 0 "hv_data hv0" rest] R'(2) N0 N(2) by simp
    show ?thesis
      unfolding ReadInFile_def Let_def sz f1
      using N(2) N0 by (simp add: fr [unfolded One_nat_def] cu32.fread_item_enc in_u32_nat rb hv1_def)
  qed
  with W rep1 R'(2) show ?thesis by (auto simp: hv1_def intro!: exI [of _ hv1])
qed

subsection \<open>The interface to the index\<close>

text \<open>
  What the inverted index needs of its key table: entries that are added are held, and a table
  that is sealed (sorted), stored and restored finds exactly the entries it held, provided they were
  added in ascending order of their words.
\<close>

locale key_table =
  fixes add :: "'t \<Rightarrow> entry \<Rightarrow> 't"
    and holds :: "'t \<Rightarrow> entry list \<Rightarrow> bool"
    and fits :: "entry list \<Rightarrow> bool"
    and seal :: "'t \<Rightarrow> 't option"
    and store :: "'t \<Rightarrow> fault + ('t \<times> bytes)"
    and restore :: "'t \<Rightarrow> bytes \<Rightarrow> fault + (bool \<times> 't \<times> bytes)"
    and find :: "'t \<Rightarrow> string \<Rightarrow> fault + key_node option"
    and blank :: "'t \<Rightarrow> bool"
  assumes add_holds: "holds t ts \<Longrightarrow> entry_ok e \<Longrightarrow> fits (ts @ [e]) \<Longrightarrow> holds (add t e) (ts @ [e])"
    and fits_prefix: "fits (ts @ us) \<Longrightarrow> fits ts"
    and seal_holds: "holds t ts \<Longrightarrow> entries_sorted ts \<Longrightarrow> fits ts \<Longrightarrow> \<exists>t'. seal t = Some t' \<and> holds t' ts"
    and store_restore: "holds t ts \<Longrightarrow> entries_sorted ts \<Longrightarrow> fits ts \<Longrightarrow> blank t0 \<Longrightarrow>
      \<exists>t' img t1. store t = Inr (t', img) \<and> (\<forall>rest. restore t0 (img @ rest) = Inr (True, t1, rest)) \<and>
        (\<forall>w. \<exists>r. find t1 w = Inr r \<and>
           map_option (\<lambda>n. (key_begin n, key_end n)) r = map_of ts (c_str w))"
begin

lemma add_all_holds:
  "holds t ts \<Longrightarrow> list_all entry_ok es \<Longrightarrow> fits (ts @ es) \<Longrightarrow> holds (foldl add t es) (ts @ es)"
proof (induction es arbitrary: t ts)
  case (Cons e es)
  have "fits ((ts @ [e]) @ es)" using Cons.prems by simp
  then have "holds (add t e) (ts @ [e])"
    using Cons.prems fits_prefix add_holds by auto
  from Cons.IH [OF this] Cons.prems show ?case by simp
qed simp

theorem build_store_restore_find:
  assumes "holds t []" "list_all entry_ok es" "entries_sorted es" "fits es" "blank t0"
  shows "\<exists>t1 t2 img t3. seal (foldl add t es) = Some t1 \<and> store t1 = Inr (t2, img) \<and>
    (\<forall>rest. restore t0 (img @ rest) = Inr (True, t3, rest)) \<and>
    (\<forall>w. \<exists>r. find t3 w = Inr r \<and>
       map_option (\<lambda>n. (key_begin n, key_end n)) r = map_of es (c_str w))"
proof -
  have "holds (foldl add t es) es"
    using add_all_holds [of t "[]" es] assms by simp
  with seal_holds assms obtain t1 where "seal (foldl add t es) = Some t1" "holds t1 es" by blast
  with store_restore [OF \<open>holds t1 es\<close> assms(3,4,5)] show ?thesis by blast
qed

end

definition hv_add :: "hash_vector \<Rightarrow> entry \<Rightarrow> hash_vector" where
  "hv_add hv e =
     AddItem hv \<lparr>key_begin = fst (snd e), key_end = snd (snd e), key_word_offset = 0\<rparr> (fst e)"

definition hv_holds :: "nat \<Rightarrow> hash_vector \<Rightarrow> entry list \<Rightarrow> bool" where
  "hv_holds N hv ts \<longleftrightarrow> hv_filled hv ts \<and> length (hv_data hv) = N"

definition hv_fits :: "nat \<Rightarrow> entry list \<Rightarrow> bool" where
  "hv_fits N ts \<longleftrightarrow> 0 < N \<and> N < 4294967296 \<and> length (entry_bytes ts) < 4294967296
     \<and> length ts \<le> 2147483648"

definition hv_blank :: "nat \<Rightarrow> hash_vector \<Rightarrow> bool" where
  "hv_blank N hv \<longleftrightarrow> length (hv_data hv) = N"

lemma length_AddItem [simp]: "length (hv_data (AddItem hv item w)) = length (hv_data hv)"
  by (simp add: AddItem_def Let_def)

interpretation hvt: key_table hv_add "hv_holds N" "hv_fits N" hv_sort hv_image ReadInFile Find
    "hv_blank N" for N
proof (unfold_locales, goal_cases)
  case (1 t ts e)
  then show ?case
    using AddItem_filled [of t ts "fst e" "\<lparr>key_begin = fst (snd e), key_end = snd (snd e), key_word_offset = 0\<rparr>"]
    by (auto simp: hv_holds_def hv_add_def entry_ok_def hv_fits_def hv_filled_def)
next
  case (2 ts us)
  then show ?case by (simp add: hv_fits_def)
next
  case (3 t ts)
  then show ?case
    using hv_sort_sorted [of t ts]
    by (auto simp: hv_holds_def hv_fits_def hv_filled_def hv_rep_def)
next
  case (4 t ts t0)
  then obtain t' img t1 buf where r: "hv_image t = Inr (t', img)"
      "\<forall>rest. ReadInFile t0 (img @ rest) = Inr (True, t1, rest)"
      "hv_wordsBuf t1 = Some buf" "hv_rep t1 buf ts" "length (hv_data t1) = N"
    using hv_image_ReadInFile [of t ts t0]
    by (auto simp: hv_holds_def hv_fits_def hv_filled_def hv_blank_def)
  with 4 have "lookup_rep t1 buf ts" by (simp add: lookup_rep_def hv_fits_def)
  with r Find_map_of [of t1 buf ts] show ?case by blast
qed

subsection \<open>Properties\<close>

text \<open>
  C15: The hash table works as a stored map. Entries added to a new table in ascending order of their
  words, sorted, written with \<open>WriteFile\<close> and read with \<open>ReadInFile\<close> into any table with as many
  buckets are found by \<open>Find\<close>: it returns the range of a word that was added, and null for every
  other word; it never reads outside its buffers.
\<close>

theorem hash_table_round_trip:
  assumes "list_all entry_ok es" "entries_sorted es" "hv_fits N es" "length (hv_data hv0) = N"
  shows "\<exists>t1 t2 img t3. hv_sort (foldl hv_add (hv_new N) es) = Some t1 \<and> hv_image t1 = Inr (t2, img) \<and>
    (\<forall>rest. ReadInFile hv0 (img @ rest) = Inr (True, t3, rest)) \<and>
    (\<forall>w. \<exists>r. Find t3 w = Inr r \<and>
       map_option (\<lambda>n. (key_begin n, key_end n)) r = map_of es (c_str w))"
proof -
  have "hv_holds N (hv_new N) []"
    using hv_new_filled [of N] by (simp add: hv_holds_def hv_new_def)
  from hvt.build_store_restore_find [OF this assms(1-3)] assms(4) show ?thesis
    by (simp add: hv_blank_def)
qed

theorem hash_table_round_trip_witness:
  "\<exists>t1 t2 img t3. hv_sort (foldl hv_add (hv_new 2) [(''a'', 0, 2), (''b'', 2, 3)]) = Some t1 \<and>
    hv_image t1 = Inr (t2, img) \<and>
    (\<forall>rest. ReadInFile (hv_new 2) (img @ rest) = Inr (True, t3, rest)) \<and>
    (\<forall>w. \<exists>r. Find t3 w = Inr r \<and>
       map_option (\<lambda>n. (key_begin n, key_end n)) r = map_of [(''a'', 0, 2), (''b'', 2, 3)] (c_str w))"
  by (rule hash_table_round_trip)
    (simp_all add: entry_ok_def no_nul_def in_i32_def entries_sorted_def str_less_def hv_fits_def entry_bytes_def hv_new_def)

text \<open>
  The sort itself is wrong for keys added out of order: \<open>Wap\<close> exchanges nodes with the assignment of
  \<open>DLG_KEY_TYPE\<close>, which leaves the offset of the word alone, so the ranges move and the words do
  not. Of two keys in one bucket, added in descending order, one is lost and the other has its range.
\<close>

theorem hv_sort_out_of_order:
  "map_option (\<lambda>hv. map (Find hv) [''a'', ''b''])
     (hv_sort (foldl hv_add (hv_new 1) [(''b'', 1, 2), (''a'', 3, 4)])) =
   Some [Inr None, Inr (Some \<lparr>key_begin = 3, key_end = 4, key_word_offset = 0\<rparr>)]"
  by code_simp

end
