(* ===== verification/Common_Index.thy ===== *)
theory Common_Index
  imports Hash_Vector
begin

text \<open>
  \<^verbatim>\<open>CommonIndex<DLG_DOC_TYPE, DLG_INV_TYPE, DLG_KEY_TYPE>\<close> of \<^verbatim>\<open>src/include/common_index.h\<close>:
  the inverted index. It is filled with \<open>Add\<close> (documents with their texts; per key the list of
  its postings), turned into the key table of \<^theory_text>\<open>Hash_Vector\<close> and stored by \<open>Save\<close>, read back
  by \<open>Load\<close> and queried by \<open>GetInv\<close>, \<open>GetDoc\<close> and \<open>GetDocText\<close>. The class is a template; the
  sources use it at the three structures of \<^verbatim>\<open>src/index/inv_index/doc_index.h\<close>.

  Null pointers are \<^const>\<open>None\<close>; the pointers the queries return are positions in the buffers.
  The \<^verbatim>\<open>std::map\<close> of the postings is an association list in ascending order of its keys, the order
  in which the map is traversed.
\<close>

record doc_node =
  doc_word_offset :: int
  doc_weight :: "32 word"

record inv_node =
  occ :: int
  occ_len :: int
  occ_filed :: int
  inv_doc_id :: int

record common_index =
  ci_char_buf :: "bytes option"
  ci_num_char :: int
  ci_doc_buf :: "doc_node list option"
  ci_num_doc :: int
  ci_inv_buf :: "inv_node list option"
  ci_num_inv :: int
  ci_index :: hash_vector
  ci_char_vect :: bytes
  ci_doc_vect :: "doc_node list"
  ci_inv_vect :: "inv_node list"
  ci_index_map :: "(string \<times> inv_node list) list"

definition ci_new :: "nat \<Rightarrow> common_index" where
  "ci_new HASH_BASIC =
     \<lparr>ci_char_buf = None, ci_num_char = 0, ci_doc_buf = None, ci_num_doc = 0, ci_inv_buf = None,
      ci_num_inv = 0, ci_index = hv_new HASH_BASIC, ci_char_vect = [], ci_doc_vect = [],
      ci_inv_vect = [], ci_index_map = []\<rparr>"

subsection \<open>Adding documents\<close>

text \<open>\<^verbatim>\<open>m_index_map[key].push_back(v)\<close>\<close>

fun map_push :: "string \<Rightarrow> 'v \<Rightarrow> (string \<times> 'v list) list \<Rightarrow> (string \<times> 'v list) list" where
  "map_push k v [] = [(k, [v])]"
| "map_push k v ((k', vs) # m) =
     (if str_less k k' then (k, [v]) # (k', vs) # m
      else if k = k' then (k', vs @ [v]) # m
      else (k', vs) # map_push k v m)"

definition add_doc :: "common_index \<Rightarrow> doc_node \<Rightarrow> string \<Rightarrow> common_index \<times> doc_node" where
  "add_doc ci doc_node doc_text =
     (let doc' = doc_node\<lparr>doc_word_offset := i64 (int (length (ci_char_vect ci)))\<rparr>
      in (ci\<lparr>ci_char_vect := ci_char_vect ci @ c_str doc_text @ [NUL],
             ci_doc_vect := ci_doc_vect ci @ [doc']\<rparr>, doc'))"

definition next_doc_id :: "common_index \<Rightarrow> int" where
  "next_doc_id ci = i32 (int (length (ci_doc_vect ci)))"

text \<open>The three overloads of \<open>Add\<close>; the arguments passed by reference are results.\<close>

definition Add_key ::
    "common_index \<Rightarrow> string \<Rightarrow> inv_node \<Rightarrow> doc_node \<Rightarrow> string \<Rightarrow> common_index \<times> inv_node \<times> doc_node" where
  "Add_key ci key_word inv_node doc_node doc_text =
     (case add_doc ci doc_node doc_text of
        (ci1, doc') \<Rightarrow>
          let inv' = inv_node\<lparr>inv_doc_id := next_doc_id ci\<rparr>
          in (ci1\<lparr>ci_index_map := map_push (c_str key_word) inv' (ci_index_map ci1)\<rparr>, inv', doc'))"

definition Add_keys ::
    "common_index \<Rightarrow> string list \<Rightarrow> inv_node \<Rightarrow> doc_node \<Rightarrow> string \<Rightarrow> common_index \<times> inv_node \<times> doc_node" where
  "Add_keys ci key_vect inv_node doc_node doc_text =
     (case add_doc ci doc_node doc_text of
        (ci1, doc') \<Rightarrow>
          let inv' = inv_node\<lparr>inv_doc_id := next_doc_id ci\<rparr>
          in (ci1\<lparr>ci_index_map :=
                 foldl (\<lambda>m key. map_push (c_str key) inv' m) (ci_index_map ci1) key_vect\<rparr>, inv', doc'))"

fun push_pairs ::
    "int \<Rightarrow> string list \<Rightarrow> inv_node list \<Rightarrow> (string \<times> inv_node list) list
      \<Rightarrow> fault + (string \<times> inv_node list) list" where
  "push_pairs doc_id [] invs m = Inr m"
| "push_pairs doc_id (key # keys) [] m = Inl Out_of_bounds"
| "push_pairs doc_id (key # keys) (iv # ivs) m =
     push_pairs doc_id keys ivs (map_push (c_str key) (iv\<lparr>inv_doc_id := doc_id\<rparr>) m)"

definition Add_keys_invs ::
    "common_index \<Rightarrow> string list \<Rightarrow> inv_node list \<Rightarrow> doc_node \<Rightarrow> string
      \<Rightarrow> fault + (common_index \<times> doc_node)" where
  "Add_keys_invs ci key_vect inv_vect doc_node doc_text =
     (case add_doc ci doc_node doc_text of
        (ci1, doc') \<Rightarrow>
          (case push_pairs (next_doc_id ci) key_vect inv_vect (ci_index_map ci1) of
             Inl e \<Rightarrow> Inl e
           | Inr m \<Rightarrow> Inr (ci1\<lparr>ci_index_map := m\<rparr>, doc')))"

subsection \<open>Sorting postings by weight\<close>

text \<open>
  A weight is a 32-bit IEEE number, given by its bits: \<open>f32_lt\<close> and \<open>f32_ge\<close> are \<^verbatim>\<open><\<close> and
  \<^verbatim>\<open>>=\<close>, both false on a NaN; the two zeros are equal.
\<close>

definition f32_mag :: "32 word \<Rightarrow> int" where
  "f32_mag w = uint w mod 2147483648"

definition f32_nan :: "32 word \<Rightarrow> bool" where
  "f32_nan w \<longleftrightarrow> 2139095040 < f32_mag w"

definition f32_ord :: "32 word \<Rightarrow> int" where
  "f32_ord w = (if 2147483648 \<le> uint w then - f32_mag w else f32_mag w)"

definition f32_lt :: "32 word \<Rightarrow> 32 word \<Rightarrow> bool" where
  "f32_lt a b \<longleftrightarrow> \<not> f32_nan a \<and> \<not> f32_nan b \<and> f32_ord a < f32_ord b"

definition f32_ge :: "32 word \<Rightarrow> 32 word \<Rightarrow> bool" where
  "f32_ge a b \<longleftrightarrow> \<not> f32_nan a \<and> \<not> f32_nan b \<and> f32_ord b \<le> f32_ord a"

definition weight_of :: "doc_node list \<Rightarrow> inv_node \<Rightarrow> 32 word" where
  "weight_of doc_vect n = doc_weight (doc_vect ! nat (inv_doc_id n))"

definition ci_wap :: "inv_node list \<Rightarrow> nat \<Rightarrow> nat \<Rightarrow> inv_node list" where
  "ci_wap vect i j = (let node = vect ! i; vect1 = vect[i := vect ! j] in vect1[j := node])"

definition ci_partition :: "doc_node list \<Rightarrow> inv_node list \<Rightarrow> nat \<Rightarrow> nat \<Rightarrow> inv_node list \<times> nat" where
  "ci_partition doc_vect vect left right =
     (if right = left + 1 \<and> f32_lt (weight_of doc_vect (vect ! left)) (weight_of doc_vect (vect ! right))
      then (ci_wap vect left right, right)
      else let key = left; key_value = weight_of doc_vect (vect ! key)
           in part_tail (\<lambda>n. f32_ge (weight_of doc_vect n) key_value)
                (\<lambda>n. f32_lt (weight_of doc_vect n) key_value) ci_wap vect key right)"

definition ci_qsort :: "doc_node list \<Rightarrow> inv_node list \<Rightarrow> int \<Rightarrow> int \<Rightarrow> inv_node list option" where
  "ci_qsort doc_vect vect left right = qsort_by (ci_partition doc_vect) vect left right"

subsection \<open>Building the key table\<close>

fun change_loop ::
    "bool \<Rightarrow> doc_node list \<Rightarrow> (string \<times> inv_node list) list \<Rightarrow> inv_node list \<Rightarrow> hash_vector
      \<Rightarrow> ((string \<times> inv_node list) list \<times> inv_node list \<times> hash_vector) option" where
  "change_loop is_need_sort docs [] invs hv = Some ([], invs, hv)"
| "change_loop is_need_sort docs ((key, inv_vect) # m) invs hv =
     Option.bind
       (if is_need_sort then ci_qsort docs inv_vect 0 (i32 (int (length inv_vect) - 1))
        else Some inv_vect)
       (\<lambda>inv_vect'.
          let invs' = invs @ inv_vect';
              indexNode = \<lparr>key_begin = i32 (int (length invs)), key_end = i32 (int (length invs')),
                           key_word_offset = 0\<rparr>
          in Option.bind (change_loop is_need_sort docs m invs' (AddItem hv indexNode (c_str key)))
               (\<lambda>(m', invs'', hv'). Some ((key, inv_vect') # m', invs'', hv')))"

text \<open>
  \<^const>\<open>None\<close>: the sorting does not end. (\<open>indexNode.word_offset\<close> has no value before
  \<open>AddItem\<close> sets it; it is never read.)
\<close>

definition ChangeToHVIndex :: "common_index \<Rightarrow> bool \<Rightarrow> common_index option" where
  "ChangeToHVIndex ci is_need_sort =
     Option.bind
       (change_loop is_need_sort (ci_doc_vect ci) (ci_index_map ci) (ci_inv_vect ci) (ci_index ci))
       (\<lambda>(m, invs, hv).
          map_option (\<lambda>hv'. ci\<lparr>ci_index_map := m, ci_inv_vect := invs, ci_index := hv'\<rparr>) (hv_sort hv))"

subsection \<open>Save\<close>

text \<open>
  The byte images of the nodes; a \<^verbatim>\<open>DLG_DOC_TYPE\<close> is padded to 16 bytes, and the four bytes of
  padding, of which the language says nothing, are taken from the parameter \<open>pad\<close>.
\<close>

definition enc_doc :: "bytes \<Rightarrow> doc_node \<Rightarrow> bytes" where
  "enc_doc pad d = enc_i64 (doc_word_offset d) @ enc_u32 (uint (doc_weight d)) @
     take 4 (pad @ replicate 4 NUL)"

definition dec_doc :: "bytes \<Rightarrow> doc_node" where
  "dec_doc bs = \<lparr>doc_word_offset = dec_i64 (take 8 bs),
     doc_weight = word_of_int (dec_u32 (take 4 (drop 8 bs)))\<rparr>"

definition enc_inv :: "inv_node \<Rightarrow> bytes" where
  "enc_inv n = enc_i32 (occ n) @ enc_i32 (occ_len n) @ enc_i32 (occ_filed n) @ enc_i32 (inv_doc_id n)"

definition dec_inv :: "bytes \<Rightarrow> inv_node" where
  "dec_inv bs = \<lparr>occ = dec_i32 (take 4 bs), occ_len = dec_i32 (take 4 (drop 4 bs)),
     occ_filed = dec_i32 (take 4 (drop 8 bs)), inv_doc_id = dec_i32 (drop 12 bs)\<rparr>"

text \<open>
  \<^verbatim>\<open>fwrite(&vect[0], w, n, fp)\<close> reads \<open>n\<close> items of the vector, a negative \<open>n\<close> being a huge
  count. \<open>put room out bs\<close> appends to a file that accepts \<open>room\<close> bytes in all; the flag says
  whether everything was written.
\<close>

definition vect_items :: "('a \<Rightarrow> bytes) \<Rightarrow> 'a list \<Rightarrow> int \<Rightarrow> fault + bytes" where
  "vect_items enc vect n =
     (if n < 0 \<or> int (length vect) < n then Inl Out_of_bounds
      else Inr (fwrite_items enc (take (nat n) vect)))"

definition put :: "nat \<Rightarrow> bytes \<Rightarrow> bytes \<Rightarrow> bool \<times> bytes" where
  "put room out bs = (length out + length bs \<le> room, take room (out @ bs))"

text \<open>
  One checked section of the file: the count, then the items. The result is what \<open>Save\<close> returns
  when it stops here, or \<^const>\<open>None\<close> when it goes on, and the file.
\<close>

definition save_section ::
    "nat \<Rightarrow> ('a \<Rightarrow> bytes) \<Rightarrow> 'a list \<Rightarrow> bytes \<Rightarrow> fault + (int option \<times> bytes)" where
  "save_section room enc vect out =
     (let n = i32 (int (length vect))
      in case put room out (enc_i32 n) of
           (False, out1) \<Rightarrow> Inr (Some (-1), out1)
         | (True, out1) \<Rightarrow>
             (case vect_items enc vect n of
                Inl e \<Rightarrow> Inl e
              | Inr bs \<Rightarrow>
                  (case put room out1 bs of
                     (False, out2) \<Rightarrow> Inr (Some (-1), out2)
                   | (True, out2) \<Rightarrow> Inr (None, out2))))"

definition Save ::
    "nat \<Rightarrow> bytes \<Rightarrow> common_index \<Rightarrow> bool \<Rightarrow> fault + (int \<times> common_index \<times> bytes)" where
  "Save room pad ci is_need_sort =
     (case ChangeToHVIndex ci is_need_sort of
        None \<Rightarrow> Inl Diverges
      | Some ci0 \<Rightarrow>
          let ci1 = ci0\<lparr>ci_num_char := i32 (int (length (ci_char_vect ci0)))\<rparr>
          in case save_section room enc_char (ci_char_vect ci1) [] of
               Inl e \<Rightarrow> Inl e
             | Inr (Some r, out) \<Rightarrow> Inr (r, ci1, out)
             | Inr (None, out1) \<Rightarrow>
                 let ci2 = ci1\<lparr>ci_num_doc := i32 (int (length (ci_doc_vect ci1)))\<rparr>
                 in case save_section room (enc_doc pad) (ci_doc_vect ci2) out1 of
                      Inl e \<Rightarrow> Inl e
                    | Inr (Some r, out) \<Rightarrow> Inr (r, ci2, out)
                    | Inr (None, out2) \<Rightarrow>
                        let ci3 = ci2\<lparr>ci_num_inv := i32 (int (length (ci_inv_vect ci2)))\<rparr>
                        in case save_section room enc_inv (ci_inv_vect ci3) out2 of
                             Inl e \<Rightarrow> Inl e
                           | Inr (Some r, out) \<Rightarrow> Inr (r, ci3, out)
                           | Inr (None, out3) \<Rightarrow>
                               (case WriteFile (room - length out3) (ci_index ci3) of
                                  Inl e \<Rightarrow> Inl e
                                | Inr (ret, hv, img) \<Rightarrow>
                                    Inr (0, ci3\<lparr>ci_index := hv\<rparr>, out3 @ img)))"

subsection \<open>Load, Clear and the queries\<close>

definition ci_clear :: "common_index \<Rightarrow> common_index" where
  "ci_clear ci = ci\<lparr>ci_char_buf := None, ci_num_char := 0, ci_doc_buf := None, ci_num_doc := 0,
     ci_inv_buf := None, ci_num_inv := 0, ci_index := hv_clear (ci_index ci), ci_char_vect := [],
     ci_doc_vect := [], ci_inv_vect := [], ci_index_map := []\<rparr>"

text \<open>
  One section read back: \<^verbatim>\<open>fread\<close> of the count, \<^verbatim>\<open>new T[n]\<close>, \<^verbatim>\<open>fread\<close> of the items. The
  results are the count if it was read, the buffer if it was allocated (after a short read the
  items that were read whole; the rest is indeterminate), whether to go on, and the rest of the file.
\<close>

definition load_section ::
    "nat \<Rightarrow> (bytes \<Rightarrow> 'a) \<Rightarrow> bytes \<Rightarrow> fault + (int option \<times> 'a list option \<times> bool \<times> bytes)" where
  "load_section w dec f =
     (case fread_item 4 dec_i32 f of
        None \<Rightarrow> Inr (None, None, False, [])
      | Some (n, f1) \<Rightarrow>
          if n < 0 then Inl Bad_alloc
          else case fread_items w dec (nat n) f1 of
                 None \<Rightarrow> Inr (Some n, Some (decode_items w dec (length f1 div w) f1), False, [])
               | Some (buf, f2) \<Rightarrow> Inr (Some n, Some buf, True, f2))"

definition opt_or :: "int option \<Rightarrow> int \<Rightarrow> int" where
  "opt_or r d = (case r of None \<Rightarrow> d | Some x \<Rightarrow> x)"

definition Load :: "common_index \<Rightarrow> bytes \<Rightarrow> fault + (int \<times> common_index \<times> bytes)" where
  "Load ci f =
     (let ci0 = ci_clear ci
      in case load_section 1 dec_char f of
           Inl e \<Rightarrow> Inl e
         | Inr (n, buf, ok, f1) \<Rightarrow>
             let ci1 = ci0\<lparr>ci_num_char := opt_or n (ci_num_char ci0), ci_char_buf := buf\<rparr>
             in if \<not> ok then Inr (-1, ci1, f1)
                else case load_section 16 dec_doc f1 of
                       Inl e \<Rightarrow> Inl e
                     | Inr (n, buf, ok, f2) \<Rightarrow>
                         let ci2 = ci1\<lparr>ci_num_doc := opt_or n (ci_num_doc ci1), ci_doc_buf := buf\<rparr>
                         in if \<not> ok then Inr (-1, ci2, f2)
                            else case load_section 16 dec_inv f2 of
                                   Inl e \<Rightarrow> Inl e
                                 | Inr (n, buf, ok, f3) \<Rightarrow>
                                     let ci3 = ci2\<lparr>ci_num_inv := opt_or n (ci_num_inv ci2), ci_inv_buf := buf\<rparr>
                                     in if \<not> ok then Inr (-1, ci3, f3)
                                        else case ReadInFile (ci_index ci3) f3 of
                                               Inl e \<Rightarrow> Inl e
                                             | Inr (ret, hv, f4) \<Rightarrow>
                                                 Inr (if ret then 0 else -1, ci3\<lparr>ci_index := hv\<rparr>, f4))"

text \<open>
  \<open>GetInv\<close>: the position of the first posting in the buffer and the value of \<open>num_inv\<close>
  afterwards. A key that is not found leaves \<open>num_inv\<close> as the caller set it.
\<close>

definition GetInv :: "common_index \<Rightarrow> string \<Rightarrow> int \<Rightarrow> fault + (int option \<times> int)" where
  "GetInv ci key_word num_inv =
     (case Find (ci_index ci) key_word of
        Inl e \<Rightarrow> Inl e
      | Inr None \<Rightarrow> Inr (None, num_inv)
      | Inr (Some key_node) \<Rightarrow> Inr (Some (key_begin key_node), i32 (key_end key_node - key_begin key_node)))"

definition GetDoc :: "common_index \<Rightarrow> inv_node \<Rightarrow> int" where
  "GetDoc ci inv_node = inv_doc_id inv_node"

text \<open>Dereferencing a position in a buffer.\<close>

definition buf_at :: "'a list option \<Rightarrow> int \<Rightarrow> fault + 'a" where
  "buf_at buf p =
     (case buf of
        None \<Rightarrow> Inl Null_deref
      | Some xs \<Rightarrow> if 0 \<le> p \<and> nat p < length xs then Inr (xs ! nat p) else Inl Out_of_bounds)"

definition GetDocText :: "common_index \<Rightarrow> doc_node \<Rightarrow> fault + string" where
  "GetDocText ci doc_node =
     (case ci_char_buf ci of
        None \<Rightarrow> Inl Null_deref
      | Some buf \<Rightarrow>
          if readable buf (doc_word_offset doc_node)
          then Inr (c_str_at buf (nat (doc_word_offset doc_node))) else Inl Out_of_bounds)"

section \<open>Properties\<close>

subsection \<open>Sorting by weight\<close>

lemma ci_wap_swap: "ci_wap = swap_nth"
  by (intro ext) (simp add: ci_wap_def swap_nth_def Let_def)

lemma f32_ge_trans: "f32_ge a b \<Longrightarrow> f32_ge b c \<Longrightarrow> f32_ge a c"
  by (auto simp: f32_ge_def)

lemma f32_lt_not_ge: "\<not> f32_nan a \<Longrightarrow> \<not> f32_nan b \<Longrightarrow> f32_lt a b \<longleftrightarrow> \<not> f32_ge a b"
  by (auto simp: f32_ge_def f32_lt_def)

definition weight_ok :: "doc_node list \<Rightarrow> inv_node \<Rightarrow> bool" where
  "weight_ok docs n \<longleftrightarrow> \<not> f32_nan (weight_of docs n)"

definition heavier :: "doc_node list \<Rightarrow> inv_node \<Rightarrow> inv_node \<Rightarrow> bool" where
  "heavier docs a b \<longleftrightarrow> f32_ge (weight_of docs a) (weight_of docs b)"

lemma ci_partition_spec:
  assumes ok: "list_all (weight_ok docs) v" and lr: "l < r" "r < length v"
    and p: "ci_partition docs v l r = (v', k)"
  shows "l \<le> k \<and> k \<le> r \<and> length v' = length v \<and> mset v' = mset v \<and>
      (\<forall>i. i < l \<or> r < i \<longrightarrow> v' ! i = v ! i) \<and>
      (\<forall>i. l \<le> i \<and> i < k \<longrightarrow> heavier docs (v' ! i) (v' ! k)) \<and>
      (\<forall>i. k < i \<and> i \<le> r \<longrightarrow> heavier docs (v' ! k) (v' ! i))"
proof (cases "r = l + 1 \<and> f32_lt (weight_of docs (v ! l)) (weight_of docs (v ! r))")
  case True
  with p lr have eq: "v' = swap_nth v l r" "k = r" by (auto simp: ci_partition_def ci_wap_swap)
  with True lr show ?thesis
    by (auto simp: nth_swap_nth heavier_def f32_lt_def f32_ge_def)
next
  case False
  let ?lo = "\<lambda>n. f32_ge (weight_of docs n) (weight_of docs (v ! l))"
  have nn: "\<not> f32_nan (weight_of docs x)" if "x \<in> set v" for x
    using ok that by (simp add: list_all_iff weight_ok_def)
  have key: "\<not> f32_nan (weight_of docs (v ! l))" using nn lr by simp
  have self: "?lo (v ! l)" using key by (simp add: f32_ge_def)
  have eq: "part_tail ?lo (\<lambda>n. f32_lt (weight_of docs n) (weight_of docs (v ! l))) swap_nth v l r = (v', k)"
    using p unfolding ci_partition_def ci_wap_swap Let_def if_not_P [OF False] .
  have eq': "part_tail ?lo (\<lambda>x. \<not> ?lo x) swap_nth v l r = (v', k)"
    unfolding eq [symmetric]
    by (rule part_tail_cong [symmetric]) (use nn key lr f32_lt_not_ge in auto)
  note P = part_tail_spec [OF lr eq']
  have "\<not> f32_nan (weight_of docs (v' ! i))" if "i < length v" for i
    using P nn that by (metis mset_eq_setD nth_mem)
  then have "f32_ge (weight_of docs (v ! l)) (weight_of docs (v' ! i))" if "k < i" "i \<le> r" for i
    using P key that lr by (auto simp: f32_ge_def)
  with P show ?thesis by (auto simp: heavier_def)
qed

interpretation doc_order: partition_law "ci_partition docs" "heavier docs" "weight_ok docs" for docs
  by unfold_locales (erule (3) ci_partition_spec, auto simp: heavier_def intro: f32_ge_trans)

text \<open>What \<open>ChangeToHVIndex\<close> does with one list of postings.\<close>

definition order_rel :: "bool \<Rightarrow> doc_node list \<Rightarrow> inv_node list \<Rightarrow> inv_node list \<Rightarrow> bool" where
  "order_rel is_need_sort docs v v' \<longleftrightarrow>
     (if is_need_sort then mset v' = mset v \<and> sorted_wrt (heavier docs) v' else v' = v)"

lemma ci_qsort_sorted:
  assumes "list_all (weight_ok docs) v"
  shows "\<exists>v'. ci_qsort docs v 0 (int (length v) - 1) = Some v' \<and> order_rel True docs v v'"
proof -
  from doc_order.qsort_sorts [OF assms, of 0 "int (length v) - 1"] obtain w where
    w: "qsort_by (ci_partition docs) v 0 (int (length v) - 1) = Some w"
      "doc_order.sorts docs v w 0 (int (length v) - 1)" by auto
  then have "sorted_wrt (heavier docs) w" "mset w = mset v"
    by (auto simp: doc_order.sorts_def sorted_wrt_iff_nth_less)
  with w(1) show ?thesis by (auto simp: ci_qsort_def order_rel_def)
qed

lemma order_rel_length: "order_rel b docs v v' \<Longrightarrow> length v' = length v \<and> set v' = set v"
  by (auto simp: order_rel_def dest: mset_eq_length mset_eq_setD split: if_splits)

subsection \<open>The codecs of the nodes\<close>

definition doc_ok :: "doc_node \<Rightarrow> bool" where
  "doc_ok d \<longleftrightarrow> in_i64 (doc_word_offset d)"

definition inv_ok :: "inv_node \<Rightarrow> bool" where
  "inv_ok n \<longleftrightarrow> in_i32 (occ n) \<and> in_i32 (occ_len n) \<and> in_i32 (occ_filed n) \<and> in_i32 (inv_doc_id n)"

lemma in_u32_uint: "in_u32 (uint (w :: 32 word))"
  using uint_ge_0 [of w] uint_lt2p [of w] by (simp add: in_u32_def)

interpretation cdoc: fixed_codec "enc_doc pad" dec_doc 16 doc_ok for pad
  by unfold_locales
     (simp add: enc_doc_def ci64.enc_length cu32.enc_length,
      simp add: enc_doc_def dec_doc_def doc_ok_def ci64.enc_length cu32.enc_length ci64.dec_enc
        cu32.dec_enc in_u32_uint)

interpretation cinv: fixed_codec enc_inv dec_inv 16 inv_ok
  by unfold_locales
     (simp add: enc_inv_def ci32.enc_length,
      simp add: enc_inv_def dec_inv_def inv_ok_def ci32.enc_length ci32.dec_enc)

subsection \<open>The key table\<close>

fun key_ranges :: "nat \<Rightarrow> (string \<times> inv_node list) list \<Rightarrow> entry list" where
  "key_ranges b [] = []"
| "key_ranges b ((k, v) # m) = (k, int b, int (b + length v)) # key_ranges (b + length v) m"

definition all_postings :: "(string \<times> inv_node list) list \<Rightarrow> inv_node list" where
  "all_postings m = concat (map snd m)"

definition map_ordered ::
    "bool \<Rightarrow> doc_node list \<Rightarrow> (string \<times> inv_node list) list \<Rightarrow> (string \<times> inv_node list) list \<Rightarrow> bool" where
  "map_ordered b docs m m' \<longleftrightarrow>
     list_all2 (\<lambda>kv kv'. fst kv' = fst kv \<and> order_rel b docs (snd kv) (snd kv')) m m'"

lemma map_fst_key_ranges: "map fst (key_ranges b m) = map fst m"
  by (induction b m rule: key_ranges.induct) auto

lemma change_loop_spec:
  assumes "list_all (\<lambda>kv. no_nul (fst kv) \<and> (b \<longrightarrow> list_all (weight_ok docs) (snd kv))) m"
    and "length invs + length (all_postings m) < 2147483648"
  shows "\<exists>m'. change_loop b docs m invs hv =
      Some (m', invs @ all_postings m', foldl hv_add hv (key_ranges (length invs) m'))
    \<and> map_ordered b docs m m'"
  using assms
proof (induction m arbitrary: invs hv)
  case Nil
  then show ?case by (simp add: map_ordered_def all_postings_def)
next
  case (Cons kv m)
  obtain k v where kv: "kv = (k, v)" by (cases kv)
  have len: "length v < 2147483648" using Cons.prems(2) by (simp add: kv all_postings_def)
  then have i: "i32 (int (length v) - 1) = int (length v) - 1" by (simp add: in_i32_def)
  have "\<exists>v'. (if b then ci_qsort docs v 0 (int (length v) - 1) else Some v) = Some v' \<and> order_rel b docs v v'"
    using ci_qsort_sorted [of docs v] Cons.prems(1) kv by (cases b) (auto simp: order_rel_def)
  then obtain v' where v': "(if b then ci_qsort docs v 0 (int (length v) - 1) else Some v) = Some v'"
      "order_rel b docs v v'" by blast
  have lv: "length v' = length v" using order_rel_length [OF v'(2)] by simp
  let ?e = "(k, int (length invs), int (length invs + length v'))"
  have e: "i32 (int (length invs)) = int (length invs)"
      "i32 (int (length invs) + int (length v')) = int (length invs) + int (length v')"
    using Cons.prems(2) by (simp_all add: kv all_postings_def lv in_i32_def)
  have nn: "no_nul k" using Cons.prems(1) kv by simp
  from Cons.prems have "list_all (\<lambda>kv. no_nul (fst kv) \<and> (b \<longrightarrow> list_all (weight_ok docs) (snd kv))) m"
      "length (invs @ v') + length (all_postings m) < 2147483648"
    by (auto simp: kv all_postings_def lv)
  from Cons.IH [OF this, of "hv_add hv ?e"] obtain m' where
    m': "change_loop b docs m (invs @ v') (hv_add hv ?e) =
      Some (m', (invs @ v') @ all_postings m', foldl hv_add (hv_add hv ?e) (key_ranges (length (invs @ v')) m'))"
      "map_ordered b docs m m'" by blast
  have srt: "(if b then ci_qsort docs v 0 (i32 (int (length v) - 1)) else Some v) = Some v'"
    unfolding i by (rule v'(1))
  have "change_loop b docs (kv # m) invs hv =
      Some ((k, v') # m', invs @ all_postings ((k, v') # m'),
            foldl hv_add hv (key_ranges (length invs) ((k, v') # m')))"
    using m'(1) e nn
    by (simp add: kv srt Let_def hv_add_def all_postings_def split del: if_split)
  moreover have "map_ordered b docs (kv # m) ((k, v') # m')"
    using v'(2) m'(2) by (simp add: map_ordered_def kv)
  ultimately show ?case by blast
qed

lemma key_ranges_lookup:
  assumes "map_of m k = Some v"
  shows "\<exists>b. map_of (key_ranges b0 m) k = Some (int b, int (b + length v)) \<and> b0 \<le> b \<and>
    take (length v) (drop (b - b0) (all_postings m)) = v \<and> b + length v \<le> b0 + length (all_postings m)"
  using assms
proof (induction b0 m rule: key_ranges.induct)
  case (2 b0 k' v' m)
  show ?case
  proof (cases "k' = k")
    case True
    with 2 show ?thesis by (auto simp: all_postings_def)
  next
    case False
    with 2 obtain b where "map_of (key_ranges (b0 + length v') m) k = Some (int b, int (b + length v))"
        "b0 + length v' \<le> b" "take (length v) (drop (b - (b0 + length v')) (all_postings m)) = v"
        "b + length v \<le> b0 + length v' + length (all_postings m)" by auto
    with False show ?thesis
      by (intro exI [of _ b]) (auto simp: all_postings_def)
  qed
qed simp

lemma key_ranges_none: "map_of m k = None \<Longrightarrow> map_of (key_ranges b m) k = None"
  using map_fst_key_ranges [of b m] by (metis map_of_eq_None_iff list.set_map)

subsection \<open>The invariant of an index under construction\<close>

definition postings_ok :: "int \<Rightarrow> (string \<times> inv_node list) list \<Rightarrow> bool" where
  "postings_ok n m \<longleftrightarrow>
     list_all (\<lambda>kv. no_nul (fst kv) \<and> snd kv \<noteq> [] \<and>
       list_all (\<lambda>x. inv_ok x \<and> 0 \<le> inv_doc_id x \<and> inv_doc_id x < n) (snd kv)) m"

definition docs_ok :: "bytes \<Rightarrow> doc_node list \<Rightarrow> bool" where
  "docs_ok chars docs \<longleftrightarrow>
     list_all (\<lambda>d. doc_ok d \<and> readable chars (doc_word_offset d)) docs"

definition ci_wf :: "nat \<Rightarrow> common_index \<Rightarrow> bool" where
  "ci_wf N ci \<longleftrightarrow>
     sorted_wrt str_less (map fst (ci_index_map ci)) \<and>
     postings_ok (int (length (ci_doc_vect ci))) (ci_index_map ci) \<and>
     docs_ok (ci_char_vect ci) (ci_doc_vect ci) \<and>
     ci_inv_vect ci = [] \<and> hv_holds N (ci_index ci) []"

text \<open>The abstract view: the postings of a key, and the text of a document.\<close>

definition posting_list :: "(string \<times> inv_node list) list \<Rightarrow> string \<Rightarrow> inv_node list" where
  "posting_list m key = (case map_of m key of None \<Rightarrow> [] | Some v \<Rightarrow> v)"

definition doc_text :: "common_index \<Rightarrow> nat \<Rightarrow> string" where
  "doc_text ci i = c_str_at (ci_char_vect ci) (nat (doc_word_offset (ci_doc_vect ci ! i)))"

lemma map_fst_map_push:
  "set (map fst (map_push k v m)) = insert k (set (map fst m))"
  by (induction k v m rule: map_push.induct) auto

lemma map_push_sorted:
  "sorted_wrt str_less (map fst m) \<Longrightarrow> sorted_wrt str_less (map fst (map_push k v m))"
proof (induction k v m rule: map_push.induct)
  case (2 k v k' vs m)
  show ?case
  proof (cases "str_less k k' \<or> k = k'")
    case True
    with 2 show ?thesis by (auto dest: str_less_trans)
  next
    case False
    then have "str_less k' k" using str_less_linear by blast
    with False 2 map_fst_map_push [of k v m] show ?thesis by auto
  qed
qed simp

lemma posting_list_push:
  assumes "sorted_wrt str_less (map fst m)"
  shows "posting_list (map_push k v m) key =
    (if key = k then posting_list m key @ [v] else posting_list m key)"
  using assms
proof (induction k v m rule: map_push.induct)
  case (2 k v k' vs m)
  have "map_of m k = None" if "str_less k k'"
    using "2.prems" that by (auto simp: map_of_eq_None_iff dest: str_less_trans str_less_asym)
  moreover have "k' \<noteq> k" if "str_less k k'" using that by auto
  ultimately show ?case
    using 2 by (auto simp: posting_list_def)
qed (simp add: posting_list_def)

lemma map_push_ok:
  "postings_ok n m \<Longrightarrow> no_nul k \<Longrightarrow> inv_ok v \<Longrightarrow> 0 \<le> inv_doc_id v \<Longrightarrow> inv_doc_id v < n \<Longrightarrow>
     postings_ok n (map_push k v m)"
  by (induction k v m rule: map_push.induct) (auto simp: postings_ok_def)

lemma postings_ok_mono: "postings_ok n m \<Longrightarrow> n \<le> n' \<Longrightarrow> postings_ok n' m"
  unfolding postings_ok_def by (erule list.pred_mono_strong) (force elim: list.pred_mono_strong)

lemma docs_ok_add:
  assumes "docs_ok chars docs" "length chars < 9223372036854775808"
  shows "docs_ok (chars @ c_str t @ [NUL]) (docs @ [d\<lparr>doc_word_offset := i64 (int (length chars))\<rparr>])"
proof -
  have "docs_ok (chars @ c_str t @ [NUL]) docs"
    using assms(1) unfolding docs_ok_def
    by (elim list.pred_mono_strong) (simp add: readable_append)
  moreover have "i64 (int (length chars)) = int (length chars)"
    using assms(2) by (simp add: in_i64_nat)
  ultimately show ?thesis
    using assms(2) by (simp add: docs_ok_def doc_ok_def readable_def in_i64_nat)
qed

lemma ci_new_wf: "0 < N \<Longrightarrow> ci_wf N (ci_new N)"
  by (simp add: ci_wf_def ci_new_def postings_ok_def docs_ok_def hv_holds_def hv_new_filled)
     (simp add: hv_new_def)

lemma push_pairs_spec:
  assumes "sorted_wrt str_less (map fst m)" "postings_ok n m" "length keys \<le> length invs"
    and "list_all inv_ok invs" "0 \<le> d" "d < n" "in_i32 d"
  shows "\<exists>m'. push_pairs d keys invs m = Inr m' \<and> sorted_wrt str_less (map fst m') \<and>
    postings_ok n m' \<and>
    (\<forall>key. posting_list m' key = posting_list m key @
       map (\<lambda>p. (snd p)\<lparr>inv_doc_id := d\<rparr>) (filter (\<lambda>p. c_str (fst p) = key) (zip keys invs)))"
  using assms
proof (induction d keys invs m rule: push_pairs.induct)
  case (3 d key keys iv ivs m)
  let ?m = "map_push (c_str key) (iv\<lparr>inv_doc_id := d\<rparr>) m"
  have s: "sorted_wrt str_less (map fst ?m)" by (rule map_push_sorted [OF "3.prems"(1)])
  have ok: "postings_ok n ?m"
    using "3.prems" by (intro map_push_ok) (auto simp: inv_ok_def)
  from 3 s ok show ?case
    by (fastforce simp: posting_list_push [OF "3.prems"(1)])
qed auto

text \<open>
  The third \<open>Add\<close>: the invariant is kept; the postings of each key get, at their end, one node per
  occurrence of the key, all with the new document's number; texts are kept and the new one is added.
\<close>

lemma Add_keys_invs_spec:
  assumes wf: "ci_wf N ci" and len: "length keys \<le> length invs" and ok: "list_all inv_ok invs"
    and size: "length (ci_doc_vect ci) < 2147483647" "length (ci_char_vect ci) < 9223372036854775808"
  shows "\<exists>ci' doc'. Add_keys_invs ci keys invs doc text = Inr (ci', doc') \<and> ci_wf N ci' \<and>
    length (ci_doc_vect ci') = Suc (length (ci_doc_vect ci)) \<and>
    (\<forall>i < length (ci_doc_vect ci). doc_text ci' i = doc_text ci i) \<and>
    doc_text ci' (length (ci_doc_vect ci)) = c_str text \<and>
    (\<forall>key. posting_list (ci_index_map ci') key = posting_list (ci_index_map ci) key @
       map (\<lambda>p. (snd p)\<lparr>inv_doc_id := int (length (ci_doc_vect ci))\<rparr>)
         (filter (\<lambda>p. c_str (fst p) = key) (zip keys invs)))"
proof -
  let ?n = "int (length (ci_doc_vect ci))" and ?ch = "ci_char_vect ci"
  have id: "next_doc_id ci = ?n" "in_i32 ?n"
    using size(1) by (simp_all add: next_doc_id_def in_i32_nat)
  have w: "sorted_wrt str_less (map fst (ci_index_map ci))" "postings_ok ?n (ci_index_map ci)"
      "docs_ok ?ch (ci_doc_vect ci)" "ci_inv_vect ci = []" "hv_holds N (ci_index ci) []"
    using wf by (simp_all add: ci_wf_def)
  from push_pairs_spec [OF w(1) postings_ok_mono [OF w(2)] len ok _ _ id(2), of "?n + 1"]
  obtain m' where m': "push_pairs ?n keys invs (ci_index_map ci) = Inr m'"
      "sorted_wrt str_less (map fst m')" "postings_ok (?n + 1) m'"
      "\<forall>key. posting_list m' key = posting_list (ci_index_map ci) key @
       map (\<lambda>p. (snd p)\<lparr>inv_doc_id := ?n\<rparr>) (filter (\<lambda>p. c_str (fst p) = key) (zip keys invs))"
    by auto
  define doc' where "doc' = doc\<lparr>doc_word_offset := i64 (int (length ?ch))\<rparr>"
  define ci' where "ci' = ci\<lparr>ci_char_vect := ?ch @ c_str text @ [NUL],
      ci_doc_vect := ci_doc_vect ci @ [doc'], ci_index_map := m'\<rparr>"
  have eq: "Add_keys_invs ci keys invs doc text = Inr (ci', doc')"
    using m'(1) id(1) by (simp add: Add_keys_invs_def add_doc_def ci'_def doc'_def Let_def)
  have off: "i64 (int (length ?ch)) = int (length ?ch)" using size(2) by (simp add: in_i64_nat)
  have dk: "docs_ok (?ch @ c_str text @ [NUL]) (ci_doc_vect ci @ [doc'])"
    unfolding doc'_def by (rule docs_ok_add [OF w(3) size(2)])
  have "doc_text ci' i = doc_text ci i" if "i < length (ci_doc_vect ci)" for i
    using that w(3) by (simp add: doc_text_def ci'_def nth_append docs_ok_def list_all_length readable_append)
  moreover have "doc_text ci' (length (ci_doc_vect ci)) = c_str text"
    by (simp add: doc_text_def ci'_def doc'_def off c_str_at_def)
  moreover have "ci_wf N ci'"
    using m'(2,3) dk w(4,5) by (simp add: ci_wf_def ci'_def add.commute)
  ultimately show ?thesis using eq m'(4) by (auto simp: ci'_def)
qed

subsection \<open>The stored index\<close>

definition file_section :: "('a \<Rightarrow> bytes) \<Rightarrow> 'a list \<Rightarrow> bytes" where
  "file_section enc xs = enc_i32 (int (length xs)) @ fwrite_items enc xs"

lemma save_section_ok:
  assumes "length xs < 2147483648" "length out + length (file_section enc xs) \<le> room"
  shows "save_section room enc xs out = Inr (None, out @ file_section enc xs)"
proof -
  have "i32 (int (length xs)) = int (length xs)" using assms(1) by (simp add: in_i32_nat)
  with assms(2) show ?thesis
    by (simp add: save_section_def put_def vect_items_def file_section_def Let_def)
qed

context fixed_codec
begin

lemma load_section_ok:
  assumes "list_all ok xs" "length xs < 2147483648"
  shows "load_section width dec (file_section enc xs @ rest) =
    Inr (Some (int (length xs)), Some xs, True, rest)"
  using assms by (simp add: load_section_def file_section_def ci32.fread_item_enc in_i32_nat
      fread_items_fwrite)

end

definition ci_fits :: "nat \<Rightarrow> common_index \<Rightarrow> bool" where
  "ci_fits N ci \<longleftrightarrow> length (ci_char_vect ci) < 2147483648 \<and> length (ci_doc_vect ci) < 2147483648 \<and>
     length (all_postings (ci_index_map ci)) < 2147483648 \<and>
     hv_fits N (key_ranges 0 (ci_index_map ci))"

definition weights_ok :: "common_index \<Rightarrow> bool" where
  "weights_ok ci \<longleftrightarrow>
     list_all (\<lambda>kv. list_all (weight_ok (ci_doc_vect ci)) (snd kv)) (ci_index_map ci)"

lemma map_ordered_keys: "map_ordered b docs m m' \<Longrightarrow> map fst m' = map fst m"
  unfolding map_ordered_def by (induction rule: list_all2_induct) auto

lemma map_ordered_length:
  "map_ordered b docs m m' \<Longrightarrow> length (all_postings m') = length (all_postings m)"
  unfolding map_ordered_def
  by (induction rule: list_all2_induct) (auto simp: all_postings_def dest: order_rel_length)

lemma map_ordered_set:
  "map_ordered b docs m m' \<Longrightarrow> set (all_postings m') = set (all_postings m)"
  unfolding map_ordered_def
  by (induction rule: list_all2_induct) (auto simp: all_postings_def dest: order_rel_length)

lemma entries_eq_keys:
  assumes "map fst ts = map fst us"
  shows "entry_bytes ts = entry_bytes us" "length ts = length us" "entries_sorted ts = entries_sorted us"
proof -
  have "entry_bytes xs = concat (map (\<lambda>w. w @ [NUL]) (map fst xs))" for xs
    by (simp add: entry_bytes_def comp_def)
  with assms show "entry_bytes ts = entry_bytes us" by metis
  show "length ts = length us" using arg_cong [OF assms, of length] by simp
  show "entries_sorted ts = entries_sorted us" by (simp add: entries_sorted_def assms)
qed

lemma key_ranges_ok:
  "list_all (\<lambda>kv. no_nul (fst kv)) m \<Longrightarrow> b + length (all_postings m) < 2147483648 \<Longrightarrow>
     list_all entry_ok (key_ranges b m)"
  by (induction b m rule: key_ranges.induct) (auto simp: entry_ok_def in_i32_def all_postings_def)

text \<open>Building the table of a well-formed index, storing and restoring it.\<close>

lemma ChangeToHVIndex_table:
  assumes wf: "ci_wf N ci" and fits: "ci_fits N ci" and w: "b \<longrightarrow> weights_ok ci"
    and N0: "hv_blank N hv0"
  shows "\<exists>m' hv hv' img hv1.
    ChangeToHVIndex ci b = Some (ci\<lparr>ci_index_map := m', ci_inv_vect := all_postings m', ci_index := hv\<rparr>) \<and>
    map_ordered b (ci_doc_vect ci) (ci_index_map ci) m' \<and>
    hv_image hv = Inr (hv', img) \<and> (\<forall>rest. ReadInFile hv0 (img @ rest) = Inr (True, hv1, rest)) \<and>
    length (hv_charVect hv) + 8 \<le> length img \<and>
    (\<forall>w. \<exists>r. Find hv1 w = Inr r \<and>
       map_option (\<lambda>n. (key_begin n, key_end n)) r = map_of (key_ranges 0 m') (c_str w))"
proof -
  let ?m = "ci_index_map ci" and ?docs = "ci_doc_vect ci"
  have nn: "list_all (\<lambda>kv. no_nul (fst kv)) ?m"
    using wf by (auto simp: ci_wf_def postings_ok_def list_all_iff)
  have "list_all (\<lambda>kv. no_nul (fst kv) \<and> (b \<longrightarrow> list_all (weight_ok ?docs) (snd kv))) ?m"
    using nn w by (auto simp: weights_ok_def list_all_iff)
  moreover have inv0: "ci_inv_vect ci = []" using wf by (simp add: ci_wf_def)
  ultimately obtain m' where m': "change_loop b ?docs ?m (ci_inv_vect ci) (ci_index ci) =
      Some (m', all_postings m', foldl hv_add (ci_index ci) (key_ranges 0 m'))"
      "map_ordered b ?docs ?m m'"
    using change_loop_spec [of b ?docs ?m "ci_inv_vect ci" "ci_index ci"] fits by (auto simp: ci_fits_def)
  note keys = map_ordered_keys [OF m'(2)]
  have kr: "map fst (key_ranges 0 m') = map fst (key_ranges 0 ?m)"
    by (simp only: map_fst_key_ranges keys)
  have hf: "hv_fits N (key_ranges 0 m')"
    using fits entries_eq_keys [OF kr] by (simp add: ci_fits_def hv_fits_def)
  have srt: "entries_sorted (key_ranges 0 m')"
    using wf by (simp add: entries_sorted_def map_fst_key_ranges keys ci_wf_def)
  have nn': "list_all (\<lambda>kv. no_nul (fst kv)) m'"
    using nn keys by (metis (no_types, lifting) list.pred_map comp_apply list.pred_cong)
  have eok: "list_all entry_ok (key_ranges 0 m')"
    using nn' fits map_ordered_length [OF m'(2)] by (intro key_ranges_ok) (auto simp: ci_fits_def)
  have "hv_holds N (ci_index ci) []" using wf by (simp add: ci_wf_def)
  from hvt.build_store_restore_find [OF this eok srt hf N0] obtain hv hv' img hv1 where
    t: "hv_sort (foldl hv_add (ci_index ci) (key_ranges 0 m')) = Some hv" "hv_image hv = Inr (hv', img)"
      "\<forall>rest. ReadInFile hv0 (img @ rest) = Inr (True, hv1, rest)"
      "\<forall>w. \<exists>r. Find hv1 w = Inr r \<and>
         map_option (\<lambda>n. (key_begin n, key_end n)) r = map_of (key_ranges 0 m') (c_str w)" by blast
  have "length (hv_charVect hv) + 8 \<le> length img"
    using t(2) by (auto simp: hv_image_def cu64.enc_length split: prod.splits if_splits)
  moreover have "ChangeToHVIndex ci b =
      Some (ci\<lparr>ci_index_map := m', ci_inv_vect := all_postings m', ci_index := hv\<rparr>)"
    by (simp add: ChangeToHVIndex_def m'(1) t(1))
  ultimately show ?thesis using m'(2) t by blast
qed

lemma Save_image:
  assumes "ChangeToHVIndex ci b = Some ci0" "hv_image (ci_index ci0) = Inr (hv', img)"
    and "length (hv_charVect (ci_index ci0)) + 8 \<le> length img"
    and "length (ci_char_vect ci0) < 2147483648" "length (ci_doc_vect ci0) < 2147483648"
      "length (ci_inv_vect ci0) < 2147483648"
    and whole: "whole = file_section enc_char (ci_char_vect ci0) @
      file_section (enc_doc pad) (ci_doc_vect ci0) @ file_section enc_inv (ci_inv_vect ci0) @ img"
    and room: "length whole \<le> room"
  shows "\<exists>ci1. Save room pad ci b = Inr (0, ci1, whole)"
proof -
  let ?A = "file_section enc_char (ci_char_vect ci0)"
  let ?B = "file_section (enc_doc pad) (ci_doc_vect ci0)"
  let ?C = "file_section enc_inv (ci_inv_vect ci0)"
  have s: "save_section room enc_char (ci_char_vect ci0) [] = Inr (None, ?A)"
      "save_section room (enc_doc pad) (ci_doc_vect ci0) ?A = Inr (None, ?A @ ?B)"
      "save_section room enc_inv (ci_inv_vect ci0) (?A @ ?B) = Inr (None, (?A @ ?B) @ ?C)"
    using room assms(4-6) by (subst save_section_ok; simp add: whole)+
  have "length img \<le> room - length ((?A @ ?B) @ ?C)" using room by (simp add: whole)
  then have "WriteFile (room - length ((?A @ ?B) @ ?C)) (ci_index ci0) =
      Inr (True, hv'\<lparr>hv_wordsBuf := None\<rparr>, img)"
    using assms(2,3) by (simp add: WriteFile_def)
  with s show ?thesis
    unfolding Save_def assms(1) by (simp add: Let_def whole)
qed

theorem Save_Load_query:
  assumes wf: "ci_wf N ci" and fits: "ci_fits N ci" and w: "b \<longrightarrow> weights_ok ci"
    and N0: "hv_blank N (ci_index ci0)"
  shows "\<exists>m' img ci2.
    map_ordered b (ci_doc_vect ci) (ci_index_map ci) m' \<and>
    (\<forall>room. length img \<le> room \<longrightarrow> (\<exists>ci1. Save room pad ci b = Inr (0, ci1, img))) \<and>
    (\<forall>rest. Load ci0 (img @ rest) = Inr (0, ci2, rest)) \<and>
    ci_char_buf ci2 = Some (ci_char_vect ci) \<and> ci_doc_buf ci2 = Some (ci_doc_vect ci) \<and>
    (\<forall>key num. case map_of m' (c_str key) of
       None \<Rightarrow> GetInv ci2 key num = Inr (None, num)
     | Some v \<Rightarrow> \<exists>p. GetInv ci2 key num = Inr (Some (int p), int (length v)) \<and>
         (\<forall>i < length v. buf_at (ci_inv_buf ci2) (int p + int i) = Inr (v ! i)))"
proof -
  let ?chars = "ci_char_vect ci" and ?docs = "ci_doc_vect ci"
  have "hv_blank N (hv_clear (ci_index ci0))" using N0 by (simp add: hv_blank_def hv_clear_def)
  from ChangeToHVIndex_table [OF wf fits w this] obtain m' hv hv' img hv1 where
    t: "ChangeToHVIndex ci b = Some (ci\<lparr>ci_index_map := m', ci_inv_vect := all_postings m', ci_index := hv\<rparr>)"
      "map_ordered b ?docs (ci_index_map ci) m'" "hv_image hv = Inr (hv', img)"
      "\<forall>rest. ReadInFile (hv_clear (ci_index ci0)) (img @ rest) = Inr (True, hv1, rest)"
      "length (hv_charVect hv) + 8 \<le> length img"
      "\<forall>w. \<exists>r. Find hv1 w = Inr r \<and>
         map_option (\<lambda>n. (key_begin n, key_end n)) r = map_of (key_ranges 0 m') (c_str w)" by blast
  let ?P = "all_postings m'"
  define whole where "whole = file_section enc_char ?chars @ file_section (enc_doc pad) ?docs @
      file_section enc_inv ?P @ img"
  have len: "length ?chars < 2147483648" "length ?docs < 2147483648" "length ?P < 2147483648"
    using fits map_ordered_length [OF t(2)] by (simp_all add: ci_fits_def)
  have sv: "\<exists>ci1. Save room pad ci b = Inr (0, ci1, whole)" if "length whole \<le> room" for room
    by (rule Save_image [OF t(1), of hv' img]) (use t len that in \<open>simp_all add: whole_def\<close>)
  have ok: "list_all doc_ok ?docs" "list_all inv_ok ?P"
    using wf map_ordered_set [OF t(2)]
    by (auto simp: ci_wf_def docs_ok_def postings_ok_def list_all_iff all_postings_def)
  define ci2 where "ci2 = (ci_clear ci0)\<lparr>ci_num_char := int (length ?chars), ci_char_buf := Some ?chars,
      ci_num_doc := int (length ?docs), ci_doc_buf := Some ?docs,
      ci_num_inv := int (length ?P), ci_inv_buf := Some ?P, ci_index := hv1\<rparr>"
  have ld: "Load ci0 (whole @ rest) = Inr (0, ci2, rest)" for rest
  proof -
    have "load_section 1 dec_char (whole @ rest) = Inr (Some (int (length ?chars)), Some ?chars, True,
        file_section (enc_doc pad) ?docs @ file_section enc_inv ?P @ img @ rest)"
      unfolding whole_def append_assoc by (rule cchar.load_section_ok) (simp_all add: len list_all_iff)
    moreover note cdoc.load_section_ok [OF ok(1) len(2)] cinv.load_section_ok [OF ok(2) len(3)]
    moreover have "ci_index (ci_clear ci0) = hv_clear (ci_index ci0)" by (simp add: ci_clear_def)
    ultimately show ?thesis
      unfolding Load_def Let_def by (simp add: t(4) ci2_def opt_or_def)
  qed
  have "case map_of m' (c_str key) of
       None \<Rightarrow> GetInv ci2 key num = Inr (None, num)
     | Some v \<Rightarrow> \<exists>p. GetInv ci2 key num = Inr (Some (int p), int (length v)) \<and>
         (\<forall>i < length v. buf_at (ci_inv_buf ci2) (int p + int i) = Inr (v ! i))" for key num
  proof -
    from t(6) obtain r where r: "Find hv1 key = Inr r"
      "map_option (\<lambda>n. (key_begin n, key_end n)) r = map_of (key_ranges 0 m') (c_str key)" by blast
    show ?thesis
    proof (cases "map_of m' (c_str key)")
      case None
      with key_ranges_none [OF None, of 0] r show ?thesis by (simp add: GetInv_def ci2_def)
    next
      case (Some v)
      from key_ranges_lookup [OF Some, of 0] obtain p where
        p: "map_of (key_ranges 0 m') (c_str key) = Some (int p, int (p + length v))"
          "take (length v) (drop p ?P) = v" "p + length v \<le> length ?P" by auto
      with r have "GetInv ci2 key num = Inr (Some (int p), int (length v))"
        using len(3) by (auto simp: GetInv_def ci2_def in_i32_nat)
      moreover have "buf_at (ci_inv_buf ci2) (int p + int i) = Inr (v ! i)" if "i < length v" for i
      proof -
        have "?P ! (p + i) = v ! i"
          using p(2,3) that by (metis nth_drop nth_take add_leD1)
        then show ?thesis using p(3) that by (simp add: buf_at_def ci2_def nat_add_distrib)
      qed
      ultimately show ?thesis using Some by auto
    qed
  qed
  with t(2) sv ld show ?thesis
    by (intro exI [of _ m'] exI [of _ whole] exI [of _ ci2]) (auto simp: ci2_def)
qed

subsection \<open>Properties\<close>

text \<open>
  C21: Adding a document with its keys keeps the index well formed and changes exactly what it should: one
  document more, with the given text, after the old ones; every key gets, after its old postings, those
  given for it, with the number of the new document.
\<close>

theorem Add_document:
  assumes "ci_wf N ci" "length keys \<le> length invs" "list_all inv_ok invs"
    and "length (ci_doc_vect ci) < 2147483647" "length (ci_char_vect ci) < 9223372036854775808"
  shows "\<exists>ci' doc'. Add_keys_invs ci keys invs doc text = Inr (ci', doc') \<and> ci_wf N ci' \<and>
    length (ci_doc_vect ci') = Suc (length (ci_doc_vect ci)) \<and>
    (\<forall>i < length (ci_doc_vect ci). doc_text ci' i = doc_text ci i) \<and>
    doc_text ci' (length (ci_doc_vect ci)) = c_str text \<and>
    (\<forall>key. posting_list (ci_index_map ci') key = posting_list (ci_index_map ci) key @
       map (\<lambda>p. (snd p)\<lparr>inv_doc_id := int (length (ci_doc_vect ci))\<rparr>)
         (filter (\<lambda>p. c_str (fst p) = key) (zip keys invs)))"
  by (rule Add_keys_invs_spec [OF assms])

theorem Add_document_witness:
  "\<exists>ci' doc'. Add_keys_invs (ci_new 3) [''k''] [\<lparr>occ = 1, occ_len = 1, occ_filed = 0, inv_doc_id = 9\<rparr>]
      \<lparr>doc_word_offset = 0, doc_weight = 0\<rparr> ''text'' = Inr (ci', doc') \<and> ci_wf 3 ci' \<and>
    length (ci_doc_vect ci') = Suc (length (ci_doc_vect (ci_new 3))) \<and>
    (\<forall>i < length (ci_doc_vect (ci_new 3)). doc_text ci' i = doc_text (ci_new 3) i) \<and>
    doc_text ci' (length (ci_doc_vect (ci_new 3))) = c_str ''text'' \<and>
    (\<forall>key. posting_list (ci_index_map ci') key = posting_list (ci_index_map (ci_new 3)) key @
       map (\<lambda>p. (snd p)\<lparr>inv_doc_id := int (length (ci_doc_vect (ci_new 3)))\<rparr>)
         (filter (\<lambda>p. c_str (fst p) = key)
           (zip [''k''] [\<lparr>occ = 1, occ_len = 1, occ_filed = 0, inv_doc_id = 9\<rparr>])))"
  by (rule Add_document) (simp_all add: ci_new_wf inv_ok_def in_i32_def, simp_all add: ci_new_def)

text \<open>
  C22: The quicksort of the postings ends and sorts them by the weight of their documents, heaviest first, when
  every posting names a document and no weight is NaN.
\<close>

theorem postings_sorted_by_weight:
  assumes "list_all (\<lambda>x. 0 \<le> inv_doc_id x \<and> inv_doc_id x < int (length docs)) v" "list_all (weight_ok docs) v"
  shows "\<exists>v'. ci_qsort docs v 0 (int (length v) - 1) = Some v' \<and> mset v' = mset v \<and>
    sorted_wrt (heavier docs) v'"
  using ci_qsort_sorted [OF assms(2)] by (simp add: order_rel_def)

theorem postings_sorted_by_weight_witness:
  "\<exists>v'. ci_qsort [\<lparr>doc_word_offset = 0, doc_weight = 0\<rparr>, \<lparr>doc_word_offset = 0, doc_weight = 0x3F800000\<rparr>]
      [\<lparr>occ = 0, occ_len = 0, occ_filed = 0, inv_doc_id = 0\<rparr>, \<lparr>occ = 0, occ_len = 0, occ_filed = 0, inv_doc_id = 1\<rparr>]
      0 (int (length [\<lparr>occ = 0, occ_len = 0, occ_filed = 0, inv_doc_id = 0\<rparr>,
        \<lparr>occ = 0, occ_len = 0, occ_filed = 0, inv_doc_id = 1\<rparr>]) - 1) = Some v' \<and>
    mset v' = mset [\<lparr>occ = 0, occ_len = 0, occ_filed = 0, inv_doc_id = 0\<rparr>,
        \<lparr>occ = 0, occ_len = 0, occ_filed = 0, inv_doc_id = 1\<rparr>] \<and>
    sorted_wrt (heavier [\<lparr>doc_word_offset = 0, doc_weight = 0\<rparr>, \<lparr>doc_word_offset = 0, doc_weight = 0x3F800000\<rparr>]) v'"
  by (rule postings_sorted_by_weight) (code_simp, code_simp)

end
