(* ===== verification/Gary_String.thy ===== *)
theory Gary_String
  imports Dlg_Prelude Byte_Codec
begin

text \<open>
  The string helpers of \<^verbatim>\<open>src/include/gary_common/gary_string.h\<close> (namespace \<^verbatim>\<open>spaceGary\<close>)
  and the two private helpers of \<^verbatim>\<open>src/index/index_da/Index_da.cpp\<close>, \<open>split_sam\<close> and
  \<open>DeleteSpace\<close>. A separator is a C string, so it is the list of bytes before its NUL.
  The splitting loops search with \<^verbatim>\<open>find\<close> and do not advance on an empty separator: they are
  \<open>partial_function\<close>s whose \<^const>\<open>None\<close> means that the loop does not end, and the lemmas
  below show that they do end for every other separator.
\<close>

subsection \<open>Reference splitting\<close>

text \<open>All pieces between the leftmost non-overlapping occurrences of \<open>w\<close>, empty ones included.\<close>

function split_ref :: "string \<Rightarrow> string \<Rightarrow> string list" where
  "split_ref w s =
     (if w = [] then [s]
      else case find0 w s of
             None \<Rightarrow> [s]
           | Some i \<Rightarrow> take i s # split_ref w (drop (i + length w) s))"
  by pat_completeness auto
termination
  by (relation "measure (\<lambda>(w, s). length s)") (auto dest!: find0_bound simp flip: length_greater_0_conv)

declare split_ref.simps [simp del]

lemma split_ref_None: "find0 w s = None \<Longrightarrow> split_ref w s = [s]"
  by (subst split_ref.simps) simp

lemma split_ref_Some:
  "w \<noteq> [] \<Longrightarrow> find0 w s = Some i \<Longrightarrow>
     split_ref w s = take i s # split_ref w (drop (i + length w) s)"
  by (subst split_ref.simps) simp

lemma split_ref_nonempty [simp]: "split_ref w s \<noteq> []"
  by (subst split_ref.simps) (simp split: option.splits)

fun join_with :: "string \<Rightarrow> string list \<Rightarrow> string" where
  "join_with w [] = []"
| "join_with w [p] = p"
| "join_with w (p # q # ps) = p @ w @ join_with w (q # ps)"

lemma join_with_snoc: "join_with w (ps @ [p]) = (if ps = [] then p else join_with w ps @ w @ p)"
proof (induction ps)
  case (Cons q ps)
  then show ?case by (cases ps) auto
qed simp

lemma join_with_Cons: "ps \<noteq> [] \<Longrightarrow> join_with w (p # ps) = p @ w @ join_with w ps"
  by (cases ps) auto

lemma join_split_ref: "w \<noteq> [] \<Longrightarrow> join_with w (split_ref w s) = s"
proof (induction w s rule: split_ref.induct)
  case (1 w s)
  show ?case
  proof (cases "find0 w s")
    case None
    then show ?thesis by (simp add: split_ref_None)
  next
    case (Some i)
    with 1 have "join_with w (split_ref w s) = take i s @ w @ drop (i + length w) s"
      by (simp add: split_ref_Some join_with_Cons)
    with find0_split [OF Some] show ?thesis by simp
  qed
qed

definition occurs :: "string \<Rightarrow> string \<Rightarrow> bool" where
  "occurs w s \<longleftrightarrow> find0 w s \<noteq> None"

lemma occurs_iff: "occurs w s \<longleftrightarrow> (\<exists>a b. s = a @ w @ b)"
proof
  assume "occurs w s"
  then obtain i where "find0 w s = Some i" by (auto simp: occurs_def)
  from find0_split [OF this] show "\<exists>a b. s = a @ w @ b" by blast
next
  assume "\<exists>a b. s = a @ w @ b"
  then obtain a b where s: "s = a @ w @ b" by blast
  show "occurs w s"
    unfolding occurs_def find0_None_iff s by (auto intro!: exI [of _ "length a"])
qed

lemma split_ref_no_occ: "w \<noteq> [] \<Longrightarrow> p \<in> set (split_ref w s) \<Longrightarrow> \<not> occurs w p"
proof (induction w s rule: split_ref.induct)
  case (1 w s)
  show ?case
  proof (cases "find0 w s")
    case None
    with 1 show ?thesis by (simp add: split_ref_None occurs_def)
  next
    case (Some i)
    have "\<not> occurs w (take i s)"
    proof
      assume "occurs w (take i s)"
      then obtain j where j: "find0 w (take i s) = Some j" by (auto simp: occurs_def)
      from find0_bound [OF j] find0_bound [OF Some] have "j + length w \<le> i" by simp
      moreover from j have "prefix w (drop j (take i s))" by (simp add: find0_Some_iff)
      then have "prefix w (drop j s)"
        by (metis drop_take prefix_order.trans take_is_prefix)
      ultimately have "j < i \<and> prefix w (drop j s)" using \<open>w \<noteq> []\<close> by (cases w) auto
      with Some show False by (auto simp: find0_Some_iff)
    qed
    with 1 Some show ?thesis by (auto simp: split_ref_Some)
  qed
qed

lemma find0_fresh:
  assumes "c \<notin> set p"
  shows "find0 (c # w) (p @ (c # w) @ r) = Some (length p)"
  using assms by (induction p) auto

lemma find0_fresh_None:
  assumes "c \<notin> set p"
  shows "find0 (c # w) p = None"
  using assms by (induction p) auto

lemma split_ref_join:
  assumes "list_all (\<lambda>p. c \<notin> set p) ps" "ps \<noteq> []"
  shows "split_ref (c # w) (join_with (c # w) ps) = ps"
  using assms
proof (induction "c # w" ps rule: join_with.induct)
  case (2 p)
  then show ?case by (subst split_ref.simps) (simp add: find0_fresh_None)
next
  case (3 p q ps)
  then show ?case
    using find0_fresh [of c p w "join_with (c # w) (q # ps)"] by (subst split_ref.simps) simp
qed simp

subsection \<open>StringSplit\<close>

partial_function (option) StringSplit_loop ::
    "string \<Rightarrow> string \<Rightarrow> nat \<Rightarrow> nat option \<Rightarrow> string list \<Rightarrow> (nat \<times> string list) option" where
  "StringSplit_loop strItem splitWord posFindBegin posOnePart vectRes =
     (case posOnePart of
        None \<Rightarrow> Some (posFindBegin, vectRes)
      | Some p \<Rightarrow>
          StringSplit_loop strItem splitWord (p + length splitWord)
            (str_find strItem splitWord (p + length splitWord))
            (if p \<noteq> posFindBegin
             then vectRes @ [substr strItem posFindBegin (p - posFindBegin)] else vectRes))"

declare StringSplit_loop.simps [code]

definition StringSplit :: "string \<Rightarrow> string \<Rightarrow> string list option" where
  "StringSplit strItem splitWord =
     (case StringSplit_loop strItem splitWord 0 (str_find strItem splitWord 0) [] of
        None \<Rightarrow> None
      | Some (posFindBegin, vectRes) \<Rightarrow>
          Some (if posFindBegin < length strItem
                then vectRes @ [drop posFindBegin strItem] else vectRes))"

lemma StringSplit_loop_ref:
  assumes "w \<noteq> []" "b \<le> length s"
  shows "\<exists>b'. b' \<le> length s \<and> drop b' s = last (split_ref w (drop b s)) \<and>
    StringSplit_loop s w b (str_find s w b) res
      = Some (b', res @ filter (\<lambda>p. p \<noteq> []) (butlast (split_ref w (drop b s))))"
  using assms(2)
proof (induction "length s - b" arbitrary: b res rule: less_induct)
  case less
  show ?case
  proof (cases "find0 w (drop b s)")
    case None
    with less.prems have "str_find s w b = None" by (simp add: str_find_def)
    with None less.prems show ?thesis
      by (subst StringSplit_loop.simps) (auto simp: split_ref_None)
  next
    case (Some i)
    let ?p = "i + b" and ?b = "i + b + length w"
    from Some less.prems have f: "str_find s w b = Some ?p" by (simp add: str_find_def)
    from find0_bound [OF Some] less.prems have b: "?b \<le> length s" by simp
    have dr: "drop (i + length w) (drop b s) = drop ?b s" by (simp add: algebra_simps)
    have lt: "length s - ?b < length s - b" using b \<open>w \<noteq> []\<close> by (cases w) auto
    let ?res = "if ?p \<noteq> b then res @ [substr s b (?p - b)] else res"
    from less.hyps [OF lt b, of ?res] obtain b' where
      IH: "b' \<le> length s" "drop b' s = last (split_ref w (drop ?b s))"
        "StringSplit_loop s w ?b (str_find s w ?b) ?res
          = Some (b', ?res @ filter (\<lambda>p. p \<noteq> []) (butlast (split_ref w (drop ?b s))))"
      by blast
    have sub: "take i (drop b s) = [] \<longleftrightarrow> i = 0"
      using find0_bound [OF Some] \<open>w \<noteq> []\<close> by (cases i) (auto simp: take_eq_Nil)
    have "split_ref w (drop b s) = take i (drop b s) # split_ref w (drop ?b s)"
      using split_ref_Some [OF \<open>w \<noteq> []\<close> Some] dr by simp
    moreover have "StringSplit_loop s w b (str_find s w b) res
        = StringSplit_loop s w ?b (str_find s w ?b) ?res"
      by (subst StringSplit_loop.simps) (simp add: f)
    ultimately show ?thesis
      using IH sub by (intro exI [of _ b']) (auto simp: substr_def)
  qed
qed

lemma StringSplit_ref:
  assumes "w \<noteq> []"
  shows "StringSplit s w = Some (filter (\<lambda>p. p \<noteq> []) (split_ref w s))"
proof -
  from StringSplit_loop_ref [OF assms, of 0 s "[]"] obtain b' where
    b': "b' \<le> length s" "drop b' s = last (split_ref w s)"
      "StringSplit_loop s w 0 (str_find s w 0) []
        = Some (b', filter (\<lambda>p. p \<noteq> []) (butlast (split_ref w s)))"
    by auto
  have "filter (\<lambda>p. p \<noteq> []) (split_ref w s)
      = filter (\<lambda>p. p \<noteq> []) (butlast (split_ref w s) @ [last (split_ref w s)])"
    by simp
  also have "\<dots> = filter (\<lambda>p. p \<noteq> []) (butlast (split_ref w s))
      @ (if b' < length s then [drop b' s] else [])"
    unfolding filter_append b'(2) [symmetric] using b'(1) by auto
  finally show ?thesis using b'(3) by (simp add: StringSplit_def)
qed

lemma find0_empty [simp]: "find0 [] s = Some 0"
  by (cases s) auto

lemma str_find_empty: "b \<le> length s \<Longrightarrow> str_find s [] b = Some b"
  by (simp add: str_find_def)

text \<open>On an empty separator the position never moves: the loop does not end.\<close>

lemma StringSplit_loop_empty:
  assumes "StringSplit_loop s [] b (Some p) res = Some r" "p \<le> length s"
  shows False
proof -
  have "[] = ([] :: string) \<longrightarrow> (\<forall>q. Some p = Some q \<longrightarrow> \<not> q \<le> length s)"
  proof (rule StringSplit_loop.raw_induct
      [where P = "\<lambda>s w b po res r. w = [] \<longrightarrow> (\<forall>q. po = Some q \<longrightarrow> \<not> q \<le> length s)",
       OF _ assms(1)])
    fix loop s w b po res r
    assume IH: "\<And>s w b po res r. loop s w b po res = Some r \<Longrightarrow>
          w = [] \<longrightarrow> (\<forall>q. po = Some q \<longrightarrow> \<not> q \<le> length s)"
      and eq: "(case po of None \<Rightarrow> Some (b, res)
        | Some p \<Rightarrow> loop s w (p + length w) (str_find s w (p + length w))
            (if p \<noteq> b then res @ [substr s b (p - b)] else res)) = Some r"
    show "w = [] \<longrightarrow> (\<forall>q. po = Some q \<longrightarrow> \<not> q \<le> length s)"
    proof (intro impI allI notI)
      fix q
      assume q: "w = []" "po = Some q" "q \<le> length s"
      with eq have "loop s [] q (Some q)
          (if q \<noteq> b then res @ [substr s b (q - b)] else res) = Some r"
        by (simp add: str_find_empty)
      from IH [OF this] q(3) show False by simp
    qed
  qed
  with assms(2) show False by simp
qed

lemma StringSplit_empty: "StringSplit s [] = None"
  using StringSplit_loop_empty [of s 0 0 "[]"]
  by (auto simp: StringSplit_def str_find_empty split: option.splits)

subsection \<open>SegSplit\<close>

partial_function (option) SegSplit_loop ::
    "string \<Rightarrow> string \<Rightarrow> nat \<Rightarrow> nat option \<Rightarrow> bool \<Rightarrow> string list \<Rightarrow> (nat \<times> string list) option" where
  "SegSplit_loop strItem splitWord posFindBegin posOnePart is_pre_seg vectRes =
     (case posOnePart of
        None \<Rightarrow> Some (posFindBegin, vectRes)
      | Some p \<Rightarrow>
          (if p = posFindBegin then
             SegSplit_loop strItem splitWord (p + length splitWord)
               (str_find strItem splitWord (p + length splitWord)) True
               (if is_pre_seg then vectRes @ [splitWord] else vectRes)
           else
             SegSplit_loop strItem splitWord (p + length splitWord)
               (str_find strItem splitWord (p + length splitWord)) False
               (vectRes @ [substr strItem posFindBegin (p - posFindBegin)])))"

declare SegSplit_loop.simps [code]

definition SegSplit :: "string \<Rightarrow> string \<Rightarrow> string list option" where
  "SegSplit strItem splitWord =
     (case SegSplit_loop strItem splitWord 0 (str_find strItem splitWord 0) False [] of
        None \<Rightarrow> None
      | Some (posFindBegin, vectRes) \<Rightarrow>
          Some (if posFindBegin < length strItem
                then vectRes @ [drop posFindBegin strItem] else vectRes))"

text \<open>
  What it computes: the pieces of the reference splitting, where the second and later of
  several adjacent empty pieces stand for a literal separator.
\<close>

fun seg_pieces :: "string \<Rightarrow> bool \<Rightarrow> string list \<Rightarrow> string list" where
  "seg_pieces w pre [] = []"
| "seg_pieces w pre (p # ps) =
     (if p = [] then (if pre then [w] else []) @ seg_pieces w True ps
      else p # seg_pieces w False ps)"

lemma SegSplit_loop_ref:
  assumes "w \<noteq> []" "b \<le> length s"
  shows "\<exists>b'. b' \<le> length s \<and> drop b' s = last (split_ref w (drop b s)) \<and>
    SegSplit_loop s w b (str_find s w b) pre res
      = Some (b', res @ seg_pieces w pre (butlast (split_ref w (drop b s))))"
  using assms(2)
proof (induction "length s - b" arbitrary: b pre res rule: less_induct)
  case less
  show ?case
  proof (cases "find0 w (drop b s)")
    case None
    with less.prems have "str_find s w b = None" by (simp add: str_find_def)
    with None less.prems show ?thesis
      by (subst SegSplit_loop.simps) (auto simp: split_ref_None)
  next
    case (Some i)
    let ?p = "i + b" and ?b = "i + b + length w"
    from Some less.prems have f: "str_find s w b = Some ?p" by (simp add: str_find_def)
    from find0_bound [OF Some] less.prems have b: "?b \<le> length s" by simp
    have dr: "drop (i + length w) (drop b s) = drop ?b s" by (simp add: algebra_simps)
    have lt: "length s - ?b < length s - b" using b \<open>w \<noteq> []\<close> by (cases w) auto
    let ?res = "if i = 0 then (if pre then res @ [w] else res) else res @ [substr s b i]"
    from less.hyps [OF lt b, of "i = 0" ?res] obtain b' where
      IH: "b' \<le> length s" "drop b' s = last (split_ref w (drop ?b s))"
        "SegSplit_loop s w ?b (str_find s w ?b) (i = 0) ?res
          = Some (b', ?res @ seg_pieces w (i = 0) (butlast (split_ref w (drop ?b s))))"
      by blast
    have sub: "take i (drop b s) = [] \<longleftrightarrow> i = 0"
      using find0_bound [OF Some] \<open>w \<noteq> []\<close> by (cases i) (auto simp: take_eq_Nil)
    have "split_ref w (drop b s) = take i (drop b s) # split_ref w (drop ?b s)"
      using split_ref_Some [OF \<open>w \<noteq> []\<close> Some] dr by simp
    moreover have "SegSplit_loop s w b (str_find s w b) pre res
        = SegSplit_loop s w ?b (str_find s w ?b) (i = 0) ?res"
      by (subst SegSplit_loop.simps) (simp add: f)
    ultimately show ?thesis
      using IH sub by (intro exI [of _ b']) (auto simp: substr_def)
  qed
qed

lemma SegSplit_ref:
  assumes "w \<noteq> []"
  shows "SegSplit s w = Some (seg_pieces w False (butlast (split_ref w s))
           @ filter (\<lambda>p. p \<noteq> []) [last (split_ref w s)])"
proof -
  from SegSplit_loop_ref [OF assms, of 0 s False "[]"] obtain b' where
    "b' \<le> length s" "drop b' s = last (split_ref w s)"
      "SegSplit_loop s w 0 (str_find s w 0) False []
        = Some (b', seg_pieces w False (butlast (split_ref w s)))"
    by auto
  then show ?thesis by (auto simp: SegSplit_def)
qed

subsection \<open>split_sam and DeleteSpace\<close>

text \<open>
  \<open>split_sam\<close> appends all pieces to \<open>vec\<close>, the empty ones included, and returns 0 without
  pushing anything on an empty line, 1 otherwise.
\<close>

partial_function (option) split_sam_loop ::
    "string list \<Rightarrow> string \<Rightarrow> string \<Rightarrow> (string list \<times> string) option" where
  "split_sam_loop vec line blank =
     (case find0 (c_str blank) line of
        None \<Rightarrow> Some (vec, line)
      | Some loc \<Rightarrow>
          split_sam_loop (vec @ [substr line 0 loc])
            (substr line (loc + length blank) (length line - (loc + length blank))) blank)"

declare split_sam_loop.simps [code]

definition split_sam :: "string list \<Rightarrow> string \<Rightarrow> string \<Rightarrow> (int \<times> string list) option" where
  "split_sam vec line blank =
     (if length line < 1 then Some (0, vec)
      else case split_sam_loop vec line blank of
             None \<Rightarrow> None
           | Some (vec', line') \<Rightarrow> Some (1, vec' @ [line']))"

lemma substr_rest: "substr s n (length s - n) = drop n s"
  by (simp add: substr_def)

lemma split_sam_loop_ref:
  assumes "w \<noteq> []" "no_nul w"
  shows "\<exists>vec' line'. split_sam_loop vec s w = Some (vec', line') \<and>
    vec' @ [line'] = vec @ split_ref w s"
  using assms
proof (induction w s arbitrary: vec rule: split_ref.induct)
  case (1 w s)
  show ?case
  proof (cases "find0 w s")
    case None
    show ?thesis by (subst split_sam_loop.simps) (simp add: "1.prems" None split_ref_None)
  next
    case (Some i)
    from "1.IH" [OF \<open>w \<noteq> []\<close> Some "1.prems"] obtain vec' line' where
      IH: "split_sam_loop (vec @ [substr s 0 i]) (drop (i + length w) s) w = Some (vec', line')"
        "vec' @ [line'] = (vec @ [substr s 0 i]) @ split_ref w (drop (i + length w) s)"
      by blast
    have "split_sam_loop vec s w = Some (vec', line')"
      by (subst split_sam_loop.simps) (simp add: "1.prems" Some substr_rest IH(1))
    moreover have "vec' @ [line'] = vec @ split_ref w s"
      unfolding IH(2) split_ref_Some [OF \<open>w \<noteq> []\<close> Some] by (simp add: substr_def)
    ultimately show ?thesis by blast
  qed
qed

lemma split_sam_ref:
  assumes "w \<noteq> []" "no_nul w"
  shows "split_sam vec s w = Some (if s = [] then (0, vec) else (1, vec @ split_ref w s))"
  using split_sam_loop_ref [OF assms, of vec s] by (cases s) (auto simp: split_sam_def)

text \<open>\<open>DeleteSpace\<close> copies two-byte characters and drops the single byte \<open>del\<close>.\<close>

fun DeleteSpace :: "string \<Rightarrow> string \<Rightarrow> char \<Rightarrow> int \<times> string" where
  "DeleteSpace [] output del = (0, output)"
| "DeleteSpace (c # cs) output del =
     (if char_neg c then
        (case cs of
           [] \<Rightarrow> (-1, output)
         | d # ds \<Rightarrow> DeleteSpace ds (output @ [c, d]) del)
      else if c = del then DeleteSpace cs output del
      else DeleteSpace cs (output @ [c]) del)"

text \<open>A text in which every lead byte (a negative char) is followed by a trail byte.\<close>

fun gbk_wf :: "string \<Rightarrow> bool" where
  "gbk_wf [] = True"
| "gbk_wf (c # cs) =
     (if char_neg c then (case cs of [] \<Rightarrow> False | d # ds \<Rightarrow> gbk_wf ds) else gbk_wf cs)"

fun gbk_chars :: "string \<Rightarrow> string list" where
  "gbk_chars [] = []"
| "gbk_chars (c # cs) =
     (if char_neg c then (case cs of [] \<Rightarrow> [[c]] | d # ds \<Rightarrow> [c, d] # gbk_chars ds)
      else [c] # gbk_chars cs)"

lemma concat_gbk_chars [simp]: "concat (gbk_chars s) = s"
  by (induction s rule: gbk_chars.induct) (auto split: list.splits)

lemma DeleteSpace_chars:
  assumes "gbk_wf s" "\<not> char_neg del"
  shows "DeleteSpace s out del = (0, out @ concat (filter (\<lambda>ch. ch \<noteq> [del]) (gbk_chars s)))"
  using assms(1)
proof (induction s arbitrary: out rule: gbk_wf.induct)
  case (2 c cs)
  show ?case
  proof (cases "char_neg c")
    case True
    with "2.prems" obtain d ds where cs: "cs = d # ds" "gbk_wf ds" by (cases cs) auto
    from "2.IH"(1) [OF True cs] True cs show ?thesis by simp
  next
    case False
    with "2.prems" have "gbk_wf cs" by simp
    from "2.IH"(2) [OF False this] False show ?thesis using assms(2) by simp
  qed
qed simp

lemma DeleteSpace_ret: "fst (DeleteSpace s out del) = (if gbk_wf s then 0 else -1)"
  by (induction s out del rule: DeleteSpace.induct) (auto split: list.splits)

subsection \<open>StringTrim\<close>

definition is_blank :: "char \<Rightarrow> bool" where
  "is_blank c \<longleftrightarrow> c = CHR '' '' \<or> c = CHR 0x09 \<or> c = CHR 0x0D \<or> c = CHR 0x0A"

text \<open>The counters of the source; \<open>right\<close> is kept one above the source's, so that it is not negative.\<close>

function trim_left_loop :: "string \<Rightarrow> nat \<Rightarrow> nat" where
  "trim_left_loop pItem left =
     (if left < length pItem \<and> is_blank (pItem ! left)
      then trim_left_loop pItem (Suc left) else left)"
  by pat_completeness auto
termination
  by (relation "measure (\<lambda>(s, l). length s - l)") auto

declare trim_left_loop.simps [simp del]

fun trim_right_loop :: "string \<Rightarrow> nat \<Rightarrow> nat" where
  "trim_right_loop pItem 0 = 0"
| "trim_right_loop pItem (Suc r) =
     (if is_blank (pItem ! r) then trim_right_loop pItem r else Suc r)"

definition StringTrim :: "string \<Rightarrow> string" where
  "StringTrim strItem =
     (if length strItem = 0 then strItem
      else let left = trim_left_loop strItem 0;
               right1 = trim_right_loop strItem (length strItem)
           in if right1 \<le> left then [] else substr strItem left (right1 - left))"

definition trim_ref :: "string \<Rightarrow> string" where
  "trim_ref s = rev (dropWhile is_blank (rev (dropWhile is_blank s)))"

lemma trim_left_loop_eq:
  "l \<le> length s \<Longrightarrow> trim_left_loop s l = l + length (takeWhile is_blank (drop l s))"
proof (induction s l rule: trim_left_loop.induct)
  case (1 s l)
  show ?case
  proof (cases "l < length s \<and> is_blank (s ! l)")
    case True
    with 1 show ?thesis by (subst trim_left_loop.simps) (simp add: take_drop_Suc)
  next
    case False
    with "1.prems" show ?thesis
      by (subst trim_left_loop.simps) (cases "l < length s"; simp add: take_drop_Suc)
  qed
qed

lemma trim_right_loop_eq:
  "r \<le> length s \<Longrightarrow> trim_right_loop s r = length (dropWhile is_blank (rev (take r s)))"
  by (induction s r rule: trim_right_loop.induct) (auto simp: take_Suc_conv_app_nth)

lemma trim_right_take: "rev (dropWhile P (rev s)) = take (length (dropWhile P (rev s))) s"
  by (metis dropWhile_eq_drop length_drop length_rev rev_drop rev_swap)

lemma StringTrim_ref: "StringTrim s = trim_ref s"
proof (cases "s = []")
  case False
  let ?l = "length (takeWhile is_blank s)"
  let ?r = "length (dropWhile is_blank (rev s))"
  have l: "trim_left_loop s 0 = ?l" by (simp add: trim_left_loop_eq)
  have r: "trim_right_loop s (length s) = ?r" by (simp add: trim_right_loop_eq)
  have dl: "dropWhile is_blank s = drop ?l s" by (simp add: dropWhile_eq_drop)
  show ?thesis
  proof (cases "\<forall>c \<in> set s. is_blank c")
    case True
    then have e: "dropWhile is_blank (rev s) = []" "dropWhile is_blank s = []" by auto
    have "trim_ref s = []" by (simp only: trim_ref_def e) simp
    moreover have "StringTrim s = []"
      using False by (simp add: StringTrim_def r e(1) del: dropWhile_eq_Nil_conv)
    ultimately show ?thesis by simp
  next
    case nb: False
    then obtain d ds where d: "dropWhile is_blank s = d # ds"
      by (cases "dropWhile is_blank s") (auto simp: dropWhile_eq_Nil_conv)
    then have db: "\<not> is_blank d" by (metis hd_dropWhile list.discI list.sel(1))
    have s: "s = takeWhile is_blank s @ d # ds" using takeWhile_dropWhile_id [of is_blank s] d by simp
    have "dropWhile is_blank (rev s) = dropWhile is_blank (rev (d # ds)) @ rev (takeWhile is_blank s)"
      by (subst s, subst rev_append, subst dropWhile_append1 [of d]) (auto simp: db)
    then have r': "?r = ?l + length (dropWhile is_blank (rev (d # ds)))" by simp
    have "dropWhile is_blank (rev (d # ds)) \<noteq> []" using db by auto
    then have "StringTrim s = take (length (dropWhile is_blank (rev (d # ds)))) (drop ?l s)"
      using False unfolding StringTrim_def l r r' Let_def substr_def
      by (simp del: dropWhile_eq_Nil_conv rev.simps)
    also have "\<dots> = trim_ref s"
      unfolding trim_ref_def trim_right_take [of _ "dropWhile is_blank s"] using dl d by simp
    finally show ?thesis .
  qed
qed (simp add: StringTrim_def trim_ref_def)

lemma length_StringTrim: "length (StringTrim s) \<le> length s"
  unfolding StringTrim_ref trim_ref_def
  by (metis (no_types, lifting) dual_order.trans length_dropWhile_le length_rev)

lemma no_nul_StringTrim: "no_nul s \<Longrightarrow> no_nul (StringTrim s)"
  unfolding StringTrim_ref trim_ref_def no_nul_def by (auto dest!: set_dropWhileD)

lemma trim_ref_idem: "trim_ref (trim_ref s) = trim_ref s"
proof -
  have stab: "dropWhile is_blank (rev (dropWhile is_blank (rev t))) = rev (dropWhile is_blank (rev t))"
    if "t = [] \<or> \<not> is_blank (hd t)" for t :: string
  proof (cases "rev (dropWhile is_blank (rev t))")
    case (Cons c cs)
    have "prefix (rev (dropWhile is_blank (rev t))) t"
      by (metis suffix_dropWhile suffix_to_prefix rev_rev_ident)
    with Cons have "hd t = c" by (auto simp: prefix_def)
    moreover have "t \<noteq> []" using Cons by auto
    ultimately show ?thesis using that Cons by auto
  next
    case Nil
    show ?thesis unfolding Nil by simp
  qed
  have "dropWhile is_blank s = [] \<or> \<not> is_blank (hd (dropWhile is_blank s))"
    using hd_dropWhile [of is_blank s] by (cases "dropWhile is_blank s") auto
  from stab [OF this] show ?thesis
    by (simp add: trim_ref_def)
qed

lemma StringTrim_idem: "StringTrim (StringTrim s) = StringTrim s"
  by (simp add: StringTrim_ref trim_ref_idem)

subsection \<open>Word helpers\<close>

text \<open>
  The inner loop of \<open>GetWordNum\<close>: \<^const>\<open>Inl\<close> is its early return, \<^const>\<open>Inr\<close> the rest of the
  text and the count with which the outer loop goes on.
\<close>

fun word_inner :: "string \<Rightarrow> int \<Rightarrow> int + string \<times> int" where
  "word_inner [] num = Inr ([], num)"
| "word_inner (c # cs) num =
     (if char_neg c then
        (case cs of [] \<Rightarrow> Inl (num + 1) | d # ds \<Rightarrow> word_inner ds num)
      else if c = CHR '' '' then Inr (cs, num + 1)
      else word_inner cs num)"

lemma word_inner_length: "word_inner s num = Inr (t, n) \<Longrightarrow> s \<noteq> [] \<Longrightarrow> length t < length s"
proof (induction s num rule: word_inner.induct)
  case (2 c cs num)
  show ?case
  proof (cases cs)
    case Nil
    with 2 show ?thesis by (auto split: if_splits)
  next
    case (Cons d ds)
    show ?thesis
    proof (cases "char_neg c")
      case True
      show ?thesis
      proof (cases ds)
        case Nil
        with 2 True Cons show ?thesis by auto
      next
        case (Cons e es)
        with 2 True \<open>cs = d # ds\<close> show ?thesis by fastforce
      qed
    next
      case False
      with 2 Cons show ?thesis by (auto split: if_splits)
    qed
  qed
qed simp

function word_outer :: "string \<Rightarrow> int \<Rightarrow> int" where
  "word_outer p num =
     (case p of
        [] \<Rightarrow> num + 1
      | c # cs \<Rightarrow>
          (case word_inner (if c = CHR '' '' then cs else p) num of
             Inl r \<Rightarrow> r
           | Inr (q, n) \<Rightarrow> word_outer q n))"
  by pat_completeness auto
termination
proof (relation "measure (\<lambda>(p, n). length p)")
  fix p num c cs x q n
  assume p: "p = c # cs" and
    i: "word_inner (if c = CHR '' '' then cs else p) num = Inr x" and x: "(q, n) = x"
  show "((q, n), p, num) \<in> measure (\<lambda>(p, n). length p)"
  proof (cases "c = CHR '' ''")
    case True
    with i x have "word_inner cs num = Inr (q, n)" by simp
    with word_inner_length [OF this] have "length q \<le> length cs"
      by (cases "cs = []") auto
    with p show ?thesis by simp
  next
    case False
    with i x have "word_inner p num = Inr (q, n)" by simp
    from word_inner_length [OF this] p show ?thesis by simp
  qed
qed simp

declare word_outer.simps [simp del]

definition GetWordNum :: "string \<Rightarrow> int" where
  "GetWordNum src = word_outer (c_str src) 0"

definition plain_word :: "string \<Rightarrow> bool" where
  "plain_word w \<longleftrightarrow> w \<noteq> [] \<and> list_all (\<lambda>c. \<not> char_neg c \<and> c \<noteq> CHR '' '' \<and> c \<noteq> NUL) w"

lemma word_inner_plain:
  "list_all (\<lambda>c. \<not> char_neg c \<and> c \<noteq> CHR '' '' \<and> c \<noteq> NUL) w \<Longrightarrow>
     word_inner (w @ r) num = word_inner r num"
  by (induction w) auto

lemma space_not_neg [simp]: "\<not> char_neg (CHR '' '')"
  by (simp add: char_neg_def)

lemma word_outer_join:
  "ws \<noteq> [] \<Longrightarrow> list_all plain_word ws \<Longrightarrow>
     word_outer (join_with '' '' ws) num = num + int (length ws)"
proof (induction "'' ''" ws arbitrary: num rule: join_with.induct)
  case (2 p)
  then obtain c cs where p: "p = c # cs" "c \<noteq> CHR '' ''" by (cases p) (auto simp: plain_word_def)
  have "word_inner p num = Inr ([], num)"
    using word_inner_plain [of p "[]"] "2.prems" by (simp add: plain_word_def)
  then have "word_outer p num = word_outer [] num"
    using p by (subst word_outer.simps) simp
  then show ?case by (simp add: word_outer.simps)
next
  case (3 p q ps)
  then obtain c cs where p: "p = c # cs" "c \<noteq> CHR '' ''" by (cases p) (auto simp: plain_word_def)
  let ?r = "join_with '' '' (q # ps)"
  have "word_inner (p @ '' '' @ ?r) num = Inr (?r, num + 1)"
    using word_inner_plain [of p "'' '' @ ?r"] "3.prems" by (simp add: plain_word_def)
  then have "word_outer (p @ '' '' @ ?r) num = word_outer ?r (num + 1)"
    using p by (subst word_outer.simps) simp
  with 3 show ?case by simp
qed simp

text \<open>
  \<open>GetTheWord\<close> cuts the buffer at the first space after an optional leading one. It works in
  place on the whole array, so the model takes the array with its NUL; a lead byte makes it
  step over the next byte, whatever that is.
\<close>

function GetTheWord_loop :: "bytes \<Rightarrow> nat \<Rightarrow> fault + nat" where
  "GetTheWord_loop buf p =
     (if length buf \<le> p then Inl Out_of_bounds
      else if buf ! p = NUL \<or> buf ! p = CHR '' '' then Inr p
      else if char_neg (buf ! p) then GetTheWord_loop buf (p + 2)
      else GetTheWord_loop buf (p + 1))"
  by pat_completeness auto
termination
  by (relation "measure (\<lambda>(b, p). length b - p)") auto

declare GetTheWord_loop.simps [simp del]

definition GetTheWord :: "bytes \<Rightarrow> fault + bytes" where
  "GetTheWord src =
     (case src of
        [] \<Rightarrow> Inl Out_of_bounds
      | c # _ \<Rightarrow>
          (case GetTheWord_loop src (if c = CHR '' '' then 1 else 0) of
             Inl e \<Rightarrow> Inl e
           | Inr p \<Rightarrow> Inr (src[p := NUL])))"

fun word_len :: "string \<Rightarrow> nat" where
  "word_len [] = 0"
| "word_len (c # cs) =
     (if c = CHR '' '' then 0
      else if char_neg c then (case cs of [] \<Rightarrow> 1 | d # ds \<Rightarrow> 2 + word_len ds)
      else 1 + word_len cs)"

lemma GetTheWord_loop_wf:
  "gbk_wf s \<Longrightarrow> no_nul s \<Longrightarrow>
     GetTheWord_loop (pre @ s @ NUL # post) (length pre) = Inr (length pre + word_len s)"
proof (induction s arbitrary: pre rule: word_len.induct)
  case 1
  then show ?case by (simp add: GetTheWord_loop.simps)
next
  case (2 c cs)
  show ?case
  proof (cases "c = CHR '' ''")
    case True
    then show ?thesis by (simp add: GetTheWord_loop.simps)
  next
    case sp: False
    show ?thesis
    proof (cases "char_neg c")
      case True
      with 2 obtain d ds where cs: "cs = d # ds" "gbk_wf ds" "no_nul ds" by (cases cs) auto
      from "2.IH"(1) [OF sp True cs(1) cs(2) cs(3), of "pre @ [c, d]"] show ?thesis
        using sp True cs "2.prems" by (subst GetTheWord_loop.simps) (simp add: nth_append)
    next
      case False
      with 2 have "gbk_wf cs" "no_nul cs" by auto
      from "2.IH"(2) [OF sp False this, of "pre @ [c]"] show ?thesis
        using sp False "2.prems" by (subst GetTheWord_loop.simps) (simp add: nth_append)
    qed
  qed
qed

lemma GetTheWord_wf:
  assumes "gbk_wf s" "no_nul s"
  shows "\<exists>buf. GetTheWord (s @ [NUL]) = Inr buf \<and>
    c_str buf = (if s \<noteq> [] \<and> hd s = CHR '' '' then CHR '' '' # take (word_len (tl s)) (tl s)
                 else take (word_len s) s)"
proof -
  have cut: "c_str ((pre @ t @ [NUL])[length pre + n := NUL]) = pre @ take n t"
    if "no_nul pre" "no_nul t" "n \<le> length t" for pre t n
  proof -
    have "(pre @ t @ [NUL])[length pre + n := NUL]
        = (pre @ take n t) @ NUL # drop (Suc n) (t @ [NUL])"
      using that(3) by (simp add: list_update_append upd_conv_take_nth_drop)
    moreover have "no_nul (pre @ take n t)"
      using that by (auto simp: no_nul_def dest: in_set_takeD)
    ultimately show ?thesis by (metis c_str_append_nul)
  qed
  have len: "word_len t \<le> length t" for t
    by (induction t rule: word_len.induct) (auto split: list.splits)
  show ?thesis
  proof (cases "s \<noteq> [] \<and> hd s = CHR '' ''")
    case True
    then obtain t where s: "s = CHR '' '' # t" by (cases s) auto
    with assms have t: "gbk_wf t" "no_nul t" by auto
    from GetTheWord_loop_wf [OF t, of "'' ''" "[]"] cut [of "'' ''" t "word_len t"] t len [of t] s
    show ?thesis by (simp add: GetTheWord_def)
  next
    case False
    then have "hd (s @ [NUL]) \<noteq> CHR '' ''" by (cases s) auto
    with GetTheWord_loop_wf [OF assms, of "[]" "[]"] cut [of "[]" s "word_len s"] assms(2) len [of s] False
    show ?thesis by (cases s) (auto simp: GetTheWord_def)
  qed
qed

text \<open>
  \<open>GetEngWord\<close> measures at most \<open>num_eng_word\<close> leading lower-case words; the result is whether a
  non-null pointer is returned, the length and the number of words.
\<close>

definition is_lower_letter :: "char \<Rightarrow> bool" where
  "is_lower_letter c \<longleftrightarrow> 97 \<le> (of_char c :: nat) \<and> (of_char c :: nat) \<le> 122"

fun eng_loop :: "string \<Rightarrow> int \<Rightarrow> int \<Rightarrow> int \<Rightarrow> int \<Rightarrow> int \<times> int" where
  "eng_loop [] cur_len_eng len_eng cur_num_eng_word num_eng_word = (len_eng, cur_num_eng_word)"
| "eng_loop (c # cs) cur_len_eng len_eng cur_num_eng_word num_eng_word =
     (if c = CHR '' '' then
        (if num_eng_word \<le> cur_num_eng_word + 1
         then (cur_len_eng, cur_num_eng_word + 1)
         else eng_loop cs (cur_len_eng + 1) cur_len_eng (cur_num_eng_word + 1) num_eng_word)
      else if is_lower_letter c
      then eng_loop cs (cur_len_eng + 1) len_eng cur_num_eng_word num_eng_word
      else (len_eng, cur_num_eng_word))"

definition GetEngWord :: "string \<Rightarrow> int \<Rightarrow> bool \<times> int \<times> int" where
  "GetEngWord query num_eng_word =
     (case eng_loop (c_str query) 0 0 0 num_eng_word of
        (len_eng, cur_num_eng_word) \<Rightarrow> (len_eng \<noteq> 0, len_eng, cur_num_eng_word))"

lemma eng_loop_spec:
  assumes "eng_loop q (int n) l k m = (l', k')"
  shows "(l', k') = (l, k) \<or>
    (\<exists>i < length q. q ! i = CHR '' '' \<and> l' = int n + int i \<and>
       list_all (\<lambda>c. is_lower_letter c \<or> c = CHR '' '') (take i q) \<and>
       k' = k + int (count_list (take (Suc i) q) (CHR '' '')))"
  using assms
proof (induction q "int n" l k m arbitrary: n rule: eng_loop.induct)
  case (2 c cs l k m)
  have step: ?case
    if "eng_loop cs (int (Suc n)) l0 k0 m = (l', k')"
      and "(l0, k0) = (if c = CHR '' '' then (int n, k + 1) else (l, k))"
      and "is_lower_letter c \<or> c = CHR '' ''"
      and IH: "(l', k') = (l0, k0) \<or>
        (\<exists>i < length cs. cs ! i = CHR '' '' \<and> l' = int (Suc n) + int i \<and>
           list_all (\<lambda>c. is_lower_letter c \<or> c = CHR '' '') (take i cs) \<and>
           k' = k0 + int (count_list (take (Suc i) cs) (CHR '' '')))" for l0 k0
    using IH
  proof
    assume eq: "(l', k') = (l0, k0)"
    show ?thesis
    proof (cases "c = CHR '' ''")
      case True
      with eq that(2) show ?thesis by (intro disjI2 exI [of _ 0]) auto
    qed (use eq that(2) in auto)
  next
    assume "\<exists>i < length cs. cs ! i = CHR '' '' \<and> l' = int (Suc n) + int i \<and>
           list_all (\<lambda>c. is_lower_letter c \<or> c = CHR '' '') (take i cs) \<and>
           k' = k0 + int (count_list (take (Suc i) cs) (CHR '' ''))"
    then obtain i where "i < length cs \<and> cs ! i = CHR '' '' \<and> l' = int (Suc n) + int i \<and>
           list_all (\<lambda>c. is_lower_letter c \<or> c = CHR '' '') (take i cs) \<and>
           k' = k0 + int (count_list (take (Suc i) cs) (CHR '' ''))" by blast
    with that(2,3) show ?thesis
      by (intro disjI2 exI [of _ "Suc i"]) (auto split: if_splits)
  qed
  consider (stop) "c = CHR '' ''" "m \<le> k + 1" | (space) "c = CHR '' ''" "\<not> m \<le> k + 1"
    | (lower) "c \<noteq> CHR '' ''" "is_lower_letter c" | (other) "c \<noteq> CHR '' ''" "\<not> is_lower_letter c"
    by blast
  then show ?case
  proof cases
    case stop
    with "2.prems" show ?thesis by (intro disjI2 exI [of _ 0]) auto
  next
    case space
    with "2.prems" have r: "eng_loop cs (int (Suc n)) (int n) (k + 1) m = (l', k')"
      by (simp add: algebra_simps)
    show ?thesis
      by (rule step [OF r]) (use space "2.hyps"(1) [OF space, of "Suc n"] r in \<open>auto simp: algebra_simps\<close>)
  next
    case lower
    with "2.prems" have r: "eng_loop cs (int (Suc n)) l k m = (l', k')"
      by (simp add: algebra_simps)
    show ?thesis
      by (rule step [OF r]) (use lower "2.hyps"(2) [OF lower, of "Suc n"] r in \<open>auto simp: algebra_simps\<close>)
  next
    case other
    with "2.prems" show ?thesis by simp
  qed
qed simp

lemma GetEngWord_spec:
  assumes "GetEngWord q m = (True, len, num)" "no_nul q"
  shows "\<exists>i < length q. len = int i \<and> q ! i = CHR '' '' \<and>
    list_all (\<lambda>c. is_lower_letter c \<or> c = CHR '' '') (take i q) \<and>
    num = int (count_list (take (Suc i) q) (CHR '' ''))"
proof -
  from assms have "eng_loop q (int 0) 0 0 m = (len, num)" "len \<noteq> 0"
    by (auto simp: GetEngWord_def split: prod.splits)
  with eng_loop_spec [OF this(1)] show ?thesis by auto
qed

subsection \<open>Deletion\<close>

function deleteSpace_loop :: "string \<Rightarrow> string" where
  "deleteSpace_loop line =
     (case find0 '' '' line of
        None \<Rightarrow> line
      | Some loc \<Rightarrow> deleteSpace_loop (take loc line @ drop (loc + 1) line))"
  by pat_completeness auto
termination
  by (relation "measure length") (auto dest!: find0_bound)

declare deleteSpace_loop.simps [simp del]

definition deleteSpace :: "string \<Rightarrow> string" where
  "deleteSpace line = (if length line < 1 then line else deleteSpace_loop line)"

lemma find0_single: "find0 [c] s = None \<longleftrightarrow> c \<notin> set s"
  by (induction s) auto

lemma find0_single_nth: "find0 [c] s = Some i \<Longrightarrow> i < length s \<and> s ! i = c"
  by (induction s arbitrary: i) (auto split: if_splits)

lemma deleteSpace_loop_filter: "deleteSpace_loop s = filter (\<lambda>c. c \<noteq> CHR '' '') s"
proof (induction s rule: deleteSpace_loop.induct)
  case (1 s)
  show ?case
  proof (cases "find0 '' '' s")
    case None
    then have "filter (\<lambda>c. c \<noteq> CHR '' '') s = s" by (simp only: find0_single filter_id_conv) auto
    with None show ?thesis by (subst deleteSpace_loop.simps) simp
  next
    case (Some i)
    from find0_single_nth [OF this] have s: "s = take i s @ CHR '' '' # drop (i + 1) s"
      by (metis Suc_eq_plus1 id_take_nth_drop)
    have "deleteSpace_loop s = filter (\<lambda>c. c \<noteq> CHR '' '') (take i s @ drop (i + 1) s)"
      using 1 Some by (subst deleteSpace_loop.simps) simp
    also have "\<dots> = filter (\<lambda>c. c \<noteq> CHR '' '') s"
      by (subst (3) s) simp
    finally show ?thesis .
  qed
qed

partial_function (option) deleteStr_loop :: "string \<Rightarrow> string \<Rightarrow> string option" where
  "deleteStr_loop line str =
     (case find0 str line of
        None \<Rightarrow> Some line
      | Some loc \<Rightarrow> deleteStr_loop (take loc line @ drop (loc + length str) line) str)"

declare deleteStr_loop.simps [code]

definition deleteStr :: "string \<Rightarrow> string \<Rightarrow> string option" where
  "deleteStr line str = (if length line < 1 then Some line else deleteStr_loop line str)"

lemma deleteStr_loop_total:
  assumes "str \<noteq> []"
  shows "\<exists>r. deleteStr_loop line str = Some r \<and> \<not> occurs str r \<and> subseq r line"
proof (induction "length line" arbitrary: line rule: less_induct)
  case less
  show ?case
  proof (cases "find0 str line")
    case None
    then show ?thesis by (subst deleteStr_loop.simps) (simp add: occurs_def)
  next
    case (Some i)
    let ?l = "take i line @ drop (i + length str) line"
    have "length ?l < length line" using find0_bound [OF Some] assms by (cases str) auto
    from less [OF this] obtain r where
      r: "deleteStr_loop ?l str = Some r" "\<not> occurs str r" "subseq r ?l" by blast
    have "subseq ?l (take i line @ drop i line)"
      by (intro list_emb_append_mono subseq_order.refl)
         (metis add.commute drop_drop suffix_drop suffix_imp_subseq)
    with r(3) have "subseq r line" by (metis append_take_drop_id subseq_order.trans)
    with r Some show ?thesis by (subst deleteStr_loop.simps) simp
  qed
qed

subsection \<open>Substrings of a segmentation\<close>

definition all_substr_row :: "string list \<Rightarrow> nat \<Rightarrow> string list \<Rightarrow> string list" where
  "all_substr_row segment i all_sub =
     (let K = (if length segment \<le> i + 5 then length segment else i + 5)
      in snd (fold (\<lambda>j (sub, all). (sub @ segment ! j, all @ [sub @ segment ! j])) [i..<K]
           ([], all_sub)))"

definition all_substr :: "string list \<Rightarrow> string list \<Rightarrow> string list" where
  "all_substr segment all_sub =
     (if length segment < 1 then all_sub
      else fold (all_substr_row segment) [0..<length segment] all_sub)"

lemma fold_sub_row:
  "fold (\<lambda>j (sub, all). (sub @ seg ! j, all @ [sub @ seg ! j])) [i..<k] (s0, acc) =
     (s0 @ concat (map ((!) seg) [i..<k]),
      acc @ map (\<lambda>j. s0 @ concat (map ((!) seg) [i..<Suc j])) [i..<k])"
proof (cases "i \<le> k")
  case True
  then show ?thesis
    by (induction k rule: dec_induct) (auto simp: upt_Suc)
qed simp

lemma all_substr_eq:
  "all_substr seg acc = acc @
     concat (map (\<lambda>i. map (\<lambda>j. concat (map ((!) seg) [i..<Suc j])) [i..<min (length seg) (i + 5)])
       [0..<length seg])"
proof -
  have row: "all_substr_row seg i a =
      a @ map (\<lambda>j. concat (map ((!) seg) [i..<Suc j])) [i..<min (length seg) (i + 5)]" for i a
    by (simp add: all_substr_row_def Let_def fold_sub_row min_def del: upt_Suc)
  have "fold (all_substr_row seg) xs a = a @
      concat (map (\<lambda>i. map (\<lambda>j. concat (map ((!) seg) [i..<Suc j])) [i..<min (length seg) (i + 5)]) xs)"
    for xs a
    by (induction xs arbitrary: a) (simp_all add: row del: upt_Suc)
  then show ?thesis by (auto simp: all_substr_def)
qed

definition all_suffix :: "string list \<Rightarrow> string list" where
  "all_suffix segment =
     (if length segment < 1 then []
      else let size = length segment;
               begin = (if 10 < size then size - 10 else 0)
           in map (\<lambda>i. fold (\<lambda>j sub. sub @ segment ! j) [i + 1..<size] (segment ! i)) [begin..<size])"

lemma fold_append_nth: "fold (\<lambda>j sub. sub @ seg ! j) js s = s @ concat (map ((!) seg) js)"
  by (induction js arbitrary: s) auto

lemma all_suffix_eq:
  "all_suffix seg = map (\<lambda>i. concat (drop i seg)) [length seg - 10..<length seg]"
proof -
  have "fold (\<lambda>j sub. sub @ seg ! j) [i + 1..<length seg] (seg ! i) = concat (drop i seg)"
    if "i < length seg" for i
    unfolding fold_append_nth map_nth_drop take_drop_Suc [OF that] by simp
  moreover have "(if 10 < length seg then length seg - 10 else 0) = length seg - 10" by simp
  ultimately show ?thesis
    by (cases "seg = []") (simp_all add: all_suffix_def Let_def Suc_le_eq cong: map_cong)
qed

lemma StringTrim_parts:
  "\<exists>a b. s = a @ StringTrim s @ b \<and> list_all is_blank (a @ b) \<and>
     (StringTrim s = [] \<or> \<not> is_blank (hd (StringTrim s)) \<and> \<not> is_blank (last (StringTrim s)))"
proof -
  let ?t = "dropWhile is_blank s"
  let ?r = "StringTrim s"
  let ?b = "rev (takeWhile is_blank (rev ?t))"
  have r: "?r = rev (dropWhile is_blank (rev ?t))" by (simp add: StringTrim_ref trim_ref_def)
  have "?t = ?r @ ?b" unfolding r by (metis rev_append rev_rev_ident takeWhile_dropWhile_id)
  then have s: "s = takeWhile is_blank s @ ?r @ ?b" by (metis takeWhile_dropWhile_id)
  have "\<not> is_blank (last ?r)" if "?r \<noteq> []"
    using that hd_dropWhile [of is_blank "rev ?t"] unfolding r by (simp add: last_rev)
  moreover have "hd ?r = hd ?t \<and> ?t \<noteq> []" if "?r \<noteq> []"
    using that \<open>?t = ?r @ ?b\<close> by (metis append_is_Nil_conv hd_append2)
  ultimately have ends: "?r = [] \<or> \<not> is_blank (hd ?r) \<and> \<not> is_blank (last ?r)"
    using hd_dropWhile [of is_blank s] by metis
  have "list_all is_blank (takeWhile is_blank s @ ?b)"
    by (auto simp: list_all_iff dest: set_takeWhileD)
  with s ends show ?thesis by blast
qed

lemma StringTrim_ends:
  assumes "StringTrim s \<noteq> []"
  shows "\<not> is_blank (hd (StringTrim s))" "\<not> is_blank (last (StringTrim s))"
  using StringTrim_parts [of s] assms by blast+

subsection \<open>Properties\<close>

text \<open>
  C31: \<open>StringSplit\<close> loses nothing but empty pieces: its result is what remains, without the empty
  strings, of a list of pieces that gives back the text when joined with the separator and of
  which none contains the separator.
\<close>

theorem StringSplit_pieces:
  assumes "w \<noteq> []"
  shows "\<exists>ps. StringSplit s w = Some (filter (\<lambda>p. p \<noteq> []) ps) \<and> join_with w ps = s \<and>
    (\<forall>p \<in> set ps. \<not> occurs w p)"
  using StringSplit_ref [OF assms] join_split_ref [OF assms] split_ref_no_occ [OF assms] by blast

theorem StringSplit_pieces_witness:
  "\<exists>ps. StringSplit ''a##_##b##_##'' ''##_##'' = Some (filter (\<lambda>p. p \<noteq> []) ps) \<and>
    join_with ''##_##'' ps = ''a##_##b##_##'' \<and> (\<forall>p \<in> set ps. \<not> occurs ''##_##'' p)"
  by (rule StringSplit_pieces) simp

text \<open>
  The loop of \<open>StringSplit\<close> never ends on an empty separator, whatever the text is: \<open>find\<close>
  returns the position it was started at again and again.
\<close>

theorem StringSplit_no_separator: "StringSplit s [] = None"
  by (rule StringSplit_empty)

text \<open>
  C30: \<open>split_sam\<close> keeps the empty pieces, so that joining what it appends with the separator
  gives back the text; the text is never empty then, which is the other return value.
\<close>

theorem split_sam_join:
  assumes "w \<noteq> []" "no_nul w" "s \<noteq> []"
  shows "\<exists>ps. split_sam vec s w = Some (1, vec @ ps) \<and> join_with w ps = s \<and>
    (\<forall>p \<in> set ps. \<not> occurs w p)"
  using split_sam_ref [OF assms(1,2), of vec s] join_split_ref [OF assms(1)]
    split_ref_no_occ [OF assms(1)] assms(3) by auto

theorem split_sam_join_witness:
  "\<exists>ps. split_sam [''x''] ''a,,b'' '','' = Some (1, ''x'' # ps) \<and> join_with '','' ps = ''a,,b'' \<and>
    (\<forall>p \<in> set ps. \<not> occurs '','' p)"
  using split_sam_join [of "'',''" "''a,,b''" "[''x'']"] by (simp add: no_nul_def)

text \<open>
  \<open>StringTrim\<close> removes a blank prefix and a blank suffix and nothing else, the rest neither
  starts nor ends with a blank, and trimming again changes nothing.
\<close>

theorem StringTrim_trims:
  "\<exists>a b. s = a @ StringTrim s @ b \<and> list_all is_blank (a @ b) \<and>
     (StringTrim s = [] \<or> \<not> is_blank (hd (StringTrim s)) \<and> \<not> is_blank (last (StringTrim s))) \<and>
     StringTrim (StringTrim s) = StringTrim s"
  using StringTrim_parts [of s] StringTrim_idem [of s] by blast

text \<open>
  C35: On a well-formed GBK string, \<open>DeleteSpace\<close> succeeds and removes exactly the single-byte
  characters equal to the deleted one: a trail byte with the same value stays.
\<close>

theorem DeleteSpace_gbk:
  assumes "gbk_wf s" "\<not> char_neg del"
  shows "DeleteSpace s out del = (0, out @ concat (filter (\<lambda>ch. ch \<noteq> [del]) (gbk_chars s)))"
  by (rule DeleteSpace_chars [OF assms])

theorem DeleteSpace_gbk_witness:
  "DeleteSpace [CHR ''a'', CHR '' '', CHR 0x81, CHR 0x40] [] (CHR 0x40) =
     (0, [CHR ''a'', CHR '' '', CHR 0x81, CHR 0x40])"
  using DeleteSpace_gbk [of "[CHR ''a'', CHR '' '', CHR 0x81, CHR 0x40]" "CHR 0x40" "[]"]
  by (simp add: char_neg_def)

text \<open>\<open>GetWordNum\<close> counts the words of a text of ASCII words with single spaces between.\<close>

theorem GetWordNum_counts:
  assumes "ws \<noteq> []" "list_all plain_word ws"
  shows "GetWordNum (join_with '' '' ws) = int (length ws)"
proof -
  have "no_nul (join_with '' '' ws)"
    using assms(2) by (induction "'' ''" ws rule: join_with.induct)
      (auto simp: plain_word_def no_nul_def list_all_iff)
  then show ?thesis using word_outer_join [OF assms, of 0] by (simp add: GetWordNum_def)
qed

theorem GetWordNum_counts_witness: "GetWordNum (join_with '' '' [''how'', ''are'', ''you'']) = int 3"
  using GetWordNum_counts [of "[''how'', ''are'', ''you'']"] by (simp add: plain_word_def char_neg_def)

text \<open>
  \<open>GetEngWord\<close> returns a length only at a space that ends a run of lower-case letters and
  spaces, and the number of words it returns is the number of spaces up to there.
\<close>

theorem GetEngWord_at_space:
  assumes "GetEngWord q m = (True, len, num)" "no_nul q"
  shows "\<exists>i < length q. len = int i \<and> q ! i = CHR '' '' \<and>
    list_all (\<lambda>c. is_lower_letter c \<or> c = CHR '' '') (take i q) \<and>
    num = int (count_list (take (Suc i) q) (CHR '' ''))"
  by (rule GetEngWord_spec [OF assms])

theorem GetEngWord_at_space_witness:
  "\<exists>i < length ''ab cd e''. (5::int) = int i \<and> ''ab cd e'' ! i = CHR '' '' \<and>
    list_all (\<lambda>c. is_lower_letter c \<or> c = CHR '' '') (take i ''ab cd e'') \<and>
    (2::int) = int (count_list (take (Suc i) ''ab cd e'') (CHR '' ''))"
  by (rule GetEngWord_at_space [of "''ab cd e''" 2]) code_simp+

text \<open>
  \<open>deleteStr\<close> ends for every non-empty string, and leaves a subsequence of the line in which the
  string does not occur, also where a deletion brings a new occurrence together.
\<close>

theorem deleteStr_removes:
  assumes "str \<noteq> []"
  shows "\<exists>r. deleteStr line str = Some r \<and> \<not> occurs str r \<and> subseq r line"
  using deleteStr_loop_total [OF assms, of line] assms by (cases line) (auto simp: deleteStr_def occurs_iff)

theorem deleteStr_removes_witness:
  "\<exists>r. deleteStr ''aabbc'' ''ab'' = Some r \<and> \<not> occurs ''ab'' r \<and> subseq r ''aabbc''"
  by (rule deleteStr_removes) simp

end
