(* ===== verification/Text_Files.thy ===== *)
theory Text_Files
  imports Gary_String
begin

text \<open>
  The two ways the sources read a text file line by line: \<^verbatim>\<open>while (fgets(line, n, fp))\<close> on a
  buffer of \<open>n\<close> bytes and \<^verbatim>\<open>while (getline(in, line))\<close>. A file is the list of its bytes.
\<close>

text \<open>\<open>fgets\<close> reads at most \<open>k = n - 1\<close> bytes, up to and with the first newline.\<close>

fun fgets_chunk :: "nat \<Rightarrow> bytes \<Rightarrow> bytes \<times> bytes" where
  "fgets_chunk 0 f = ([], f)"
| "fgets_chunk (Suc k) [] = ([], [])"
| "fgets_chunk (Suc k) (c # f) =
     (if c = CHR 0x0A then ([c], f)
      else case fgets_chunk k f of (l, r) \<Rightarrow> (c # l, r))"

lemma fgets_chunk_append: "fgets_chunk k f = (l, r) \<Longrightarrow> l @ r = f"
  by (induction k f arbitrary: l r rule: fgets_chunk.induct) (auto split: if_splits prod.splits)

lemma fgets_chunk_progress: "fgets_chunk (Suc k) (c # f) = (l, r) \<Longrightarrow> length r \<le> length f"
proof -
  assume a: "fgets_chunk (Suc k) (c # f) = (l, r)"
  then have "l \<noteq> []" by (auto split: if_splits prod.splits)
  then show ?thesis using arg_cong [OF fgets_chunk_append [OF a], of length] by (cases l) auto
qed

text \<open>
  All chunks of the loop; \<^verbatim>\<open>string line_str = line\<close> takes each only up to its first NUL.
  (A buffer of two or more bytes: \<open>k\<close> is the buffer size less two.)
\<close>

function fgets_chunks :: "nat \<Rightarrow> bytes \<Rightarrow> bytes list" where
  "fgets_chunks k [] = []"
| "fgets_chunks k (c # f) =
     fst (fgets_chunk (Suc k) (c # f)) # fgets_chunks k (snd (fgets_chunk (Suc k) (c # f)))"
  by pat_completeness auto
termination
proof (relation "measure (\<lambda>(k, f). length f)", simp, goal_cases)
  case (1 k c f)
  obtain l r where "fgets_chunk (Suc k) (c # f) = (l, r)" by force
  then show ?case using fgets_chunk_progress by fastforce
qed

definition fgets_lines :: "nat \<Rightarrow> bytes \<Rightarrow> string list" where
  "fgets_lines n f = map c_str (fgets_chunks (n - 2) f)"

lemma fgets_chunk_length: "length (fst (fgets_chunk k f)) \<le> k"
  by (induction k f rule: fgets_chunk.induct) (auto split: prod.splits)

lemma fgets_chunks_length: "list_all (\<lambda>l. length l \<le> Suc k) (fgets_chunks k f)"
proof (induction k f rule: fgets_chunks.induct)
  case (2 k c f)
  then show ?case using fgets_chunk_length [of "Suc k" "c # f"] by (simp del: fgets_chunk.simps)
qed simp

lemma length_c_str_le: "length (c_str s) \<le> length s"
  unfolding c_str_def by (rule length_takeWhile_le)

lemma fgets_lines_length:
  assumes "2 \<le> n"
  shows "list_all (\<lambda>l. length l < n) (fgets_lines n f)"
proof -
  have "length (c_str l) < n" if "l \<in> set (fgets_chunks (n - 2) f)" for l
    using fgets_chunks_length [of "n - 2" f] that assms length_c_str_le [of l]
    by (fastforce simp: list_all_iff)
  then show ?thesis by (auto simp: fgets_lines_def list_all_iff)
qed

text \<open>\<open>getline\<close> drops the newline; a last line without one counts when it is not empty.\<close>

fun getline_loop :: "string \<Rightarrow> bytes \<Rightarrow> string list" where
  "getline_loop cur [] = (if cur = [] then [] else [cur])"
| "getline_loop cur (c # f) =
     (if c = CHR 0x0A then cur # getline_loop [] f else getline_loop (cur @ [c]) f)"

definition getlines :: "bytes \<Rightarrow> string list" where
  "getlines f = getline_loop [] f"

lemma concat_fgets_chunks: "concat (fgets_chunks k f) = f"
proof (induction k f rule: fgets_chunks.induct)
  case (2 k c f)
  obtain l r where lr: "fgets_chunk (Suc k) (c # f) = (l, r)" by force
  with 2 fgets_chunk_append [OF lr] show ?case by (simp add: lr del: fgets_chunk.simps)
qed simp

lemma fgets_chunk_line:
  assumes "length l \<le> k" "CHR 0x0A \<notin> set l"
  shows "fgets_chunk (Suc k) (l @ CHR 0x0A # f) = (l @ [CHR 0x0A], f)"
  using assms
proof (induction l arbitrary: k)
  case (Cons c l)
  then obtain k' where "k = Suc k'" by (cases k) auto
  moreover have "c \<noteq> CHR 0x0A" using Cons.prems by auto
  ultimately show ?case using Cons by simp
qed simp

text \<open>
  Both readers give the lines of a file whose lines end in newlines; for \<open>fgets\<close> they must fit
  the buffer (\<open>n - 2\<close> bytes and the newline) and hold no NUL.
\<close>

definition unlines :: "string list \<Rightarrow> bytes" where
  "unlines ls = concat (map (\<lambda>l. l @ [CHR 0x0A]) ls)"

lemma fgets_lines_unlines:
  assumes "list_all (\<lambda>l. length l + 2 \<le> n \<and> CHR 0x0A \<notin> set l \<and> no_nul l) ls"
  shows "fgets_lines n (unlines ls) = map (\<lambda>l. l @ [CHR 0x0A]) ls"
  using assms
proof (induction ls)
  case Nil
  then show ?case by (simp add: fgets_lines_def unlines_def)
next
  case (Cons l ls)
  have f: "fgets_chunk (Suc (n - 2)) (l @ CHR 0x0A # unlines ls) = (l @ [CHR 0x0A], unlines ls)"
    using Cons.prems by (intro fgets_chunk_line) auto
  have "fgets_chunks (n - 2) (l @ CHR 0x0A # unlines ls) = (l @ [CHR 0x0A]) # fgets_chunks (n - 2) (unlines ls)"
  proof (cases "l @ CHR 0x0A # unlines ls")
    case (Cons c g)
    with f show ?thesis by (simp del: fgets_chunk.simps)
  qed simp
  with Cons show ?case by (simp add: fgets_lines_def unlines_def)
qed

lemma getline_loop_line:
  "CHR 0x0A \<notin> set l \<Longrightarrow> getline_loop cur (l @ CHR 0x0A # f) = (cur @ l) # getline_loop [] f"
  by (induction l arbitrary: cur) auto

lemma getlines_unlines:
  assumes "list_all (\<lambda>l. CHR 0x0A \<notin> set l) ls"
  shows "getlines (unlines ls) = ls"
  using assms unfolding getlines_def
  by (induction ls) (auto simp: unlines_def getline_loop_line)

subsection \<open>Properties\<close>

text \<open>
  Reading with \<open>fgets\<close> gives back the lines of a text, each with its newline, when every
  line leaves room for the newline and the terminator in the buffer.
\<close>

theorem fgets_reads_lines:
  assumes "list_all (\<lambda>l. length l + 2 \<le> n \<and> CHR 0x0A \<notin> set l \<and> no_nul l) ls"
  shows "fgets_lines n (unlines ls) = map (\<lambda>l. l @ [CHR 0x0A]) ls"
  by (rule fgets_lines_unlines [OF assms])

theorem fgets_reads_lines_witness:
  "fgets_lines 4 (unlines [''ab'', [], ''c'']) = map (\<lambda>l. l @ [CHR 0x0A]) [''ab'', [], ''c'']"
  by (rule fgets_reads_lines) (simp add: no_nul_def)

end
