(* ===== verification/Segmenter.thy ===== *)
theory Segmenter
  imports Text_Files
begin

text \<open>
  Word segmentation: \<open>SEGMENT_1::Segment_\<close> (\<^verbatim>\<open>src/segment/Segment.cpp\<close>), the class \<open>Normal\<close> that
  replaces words by their synonyms (\<^verbatim>\<open>src/index/inv_index/normalize.cpp\<close>) and
  \<open>CDlgIndex::GraphSegment\<close> (\<^verbatim>\<open>src/index/inv_index/doc_index.cpp\<close>).

  The segmentor and the encoding conversions are libraries that are not part of the sources; the
  record \<open>platform\<close> holds the functions the sources call, as parameters of the model:
  \<open>gbk_utf16le\<close> (the contents of the buffer it fills), \<open>bcscspn\<close> (the number of units before
  the terminator), \<open>graphSegment\<close> (text, its length, the room for results; the positions and
  lengths of the words), \<open>utf16le_gbk\<close> (what it writes for a range of the buffer) and
  \<open>dbc2gchar\<close> (half-width to full-width; the string, the room) and \<open>t2sgchar\<close> (traditional to
  simplified, full-width; the string, the room; the number of units or a negative number, and the
  buffer).
\<close>

record platform =
  gbk_utf16le :: "string \<Rightarrow> nat \<Rightarrow> bytes"
  bcscspn :: "bytes \<Rightarrow> nat"
  graphSegment :: "bytes \<Rightarrow> nat \<Rightarrow> nat \<Rightarrow> (nat \<times> nat) list"
  utf16le_gbk :: "bytes \<Rightarrow> string"
  dbc2gchar :: "string \<Rightarrow> nat \<Rightarrow> string"
  t2sgchar :: "string \<Rightarrow> nat \<Rightarrow> int \<times> bytes"

text \<open>
  The part the three functions share, with the size of \<open>buf\<close> and the room in \<open>info\<close>:
  \<^verbatim>\<open>strcpy\<close> needs room for the terminator, too.
\<close>

definition segment_words :: "platform \<Rightarrow> nat \<Rightarrow> nat \<Rightarrow> string \<Rightarrow> fault + string list" where
  "segment_words pf buf_size max_info query =
     (if buf_size < length (c_str query) + 1 then Inl Out_of_bounds
      else let dest = gbk_utf16le pf (c_str query) (length query);
               info = graphSegment pf dest (bcscspn pf dest) max_info
           in Inr (map (\<lambda>(pos, tlen).
                 c_str (utf16le_gbk pf (substr dest (pos * 2) (tlen * 2)))) info))"

definition MAXLEN :: nat where
  "MAXLEN = 20480"

definition Segment :: "platform \<Rightarrow> string \<Rightarrow> fault + (int \<times> string list)" where
  "Segment pf query =
     (if length query < 2 then Inr (0, [])
      else if MAXLEN < length query then Inr (-1, [])
      else case segment_words pf MAXLEN MAXLEN query of
             Inl e \<Rightarrow> Inl e
           | Inr parts \<Rightarrow> Inr (0, parts))"

definition Normal_Segment :: "platform \<Rightarrow> string \<Rightarrow> fault + (int \<times> string list)" where
  "Normal_Segment pf query =
     (if length query < 2 then Inr (0, [])
      else case segment_words pf 4096 100 query of
             Inl e \<Rightarrow> Inl e
           | Inr parts \<Rightarrow> Inr (0, parts))"

definition GraphSegment :: "platform \<Rightarrow> string set \<Rightarrow> string \<Rightarrow> fault + (int \<times> string list)" where
  "GraphSegment pf m_stopword query =
     (if length query < 2 then Inr (0, [])
      else case segment_words pf 4096 100 query of
             Inl e \<Rightarrow> Inl e
           | Inr parts \<Rightarrow> Inr (0, filter (\<lambda>word. word \<notin> m_stopword) parts))"

subsection \<open>Synonyms\<close>

type_synonym syn_map = "string \<Rightarrow> string list option"

text \<open>
  A line has at least four fields separated by tabs; the first is the word, the fourth its synonym.
\<close>

definition syn_line :: "syn_map \<Rightarrow> string \<Rightarrow> syn_map" where
  "syn_line hash_syn line =
     (case StringSplit line [CHR 0x09] of
        None \<Rightarrow> hash_syn
      | Some vec \<Rightarrow>
          if length vec < 4 then hash_syn
          else let word = vec ! 0; syn = vec ! 3
               in hash_syn(word \<mapsto> (case hash_syn word of None \<Rightarrow> [] | Some v \<Rightarrow> v) @ [syn]))"

definition loadSyn :: "bytes option \<Rightarrow> syn_map \<Rightarrow> int \<times> syn_map" where
  "loadSyn infile hash_syn =
     (case infile of
        None \<Rightarrow> (-1, hash_syn)
      | Some f \<Rightarrow> (0, foldl syn_line hash_syn (getlines f)))"

definition syn_word :: "syn_map \<Rightarrow> string \<Rightarrow> string" where
  "syn_word hash_syn w =
     (case hash_syn w of
        None \<Rightarrow> w
      | Some v \<Rightarrow> if length v > 0 then v ! 0 else w)"

fun normalize_loop :: "syn_map \<Rightarrow> string list \<Rightarrow> string \<Rightarrow> string \<Rightarrow> string \<times> string" where
  "normalize_loop hash_syn [] segment oss = (segment, oss)"
| "normalize_loop hash_syn (w # ws) segment oss =
     normalize_loop hash_syn ws (segment @ w) (oss @ syn_word hash_syn w)"

text \<open>
  \<open>dest\<close> is zeroed, so it ends the converted string. The result is the return value, \<open>segment\<close>
  and \<open>norm_\<close>; the return value of \<^verbatim>\<open>Segment_\<close> is not looked at.
\<close>

definition Normalize :: "platform \<Rightarrow> syn_map \<Rightarrow> string \<Rightarrow> fault + (int \<times> string \<times> string)" where
  "Normalize pf hash_syn line =
     (let key = StringTrim (c_str line);
          dest = c_str (dbc2gchar pf (c_str key) 2048)
      in case Segment pf dest of
           Inl e \<Rightarrow> Inl e
         | Inr (r, seg_parts) \<Rightarrow> Inr (0, normalize_loop hash_syn seg_parts [] []))"

definition Normalize_seg :: "platform \<Rightarrow> string \<Rightarrow> fault + (int \<times> string)" where
  "Normalize_seg pf line =
     (let key = StringTrim (c_str line);
          dest = c_str (dbc2gchar pf (c_str key) 2048)
      in case Normal_Segment pf dest of
           Inl e \<Rightarrow> Inl e
         | Inr (r, seg_parts) \<Rightarrow> Inr (0, foldl (\<lambda>oss p. oss @ p) [] seg_parts))"

section \<open>Properties\<close>

lemma normalize_loop_eq:
  "normalize_loop syn ws s t = (s @ concat ws, t @ concat (map (syn_word syn) ws))"
  by (induction ws arbitrary: s t) auto

text \<open>
  The longest query \<^verbatim>\<open>Segment_\<close> lets through does not fit its buffer: the check is off by one.
\<close>

lemma Segment_overflow:
  assumes "length query = MAXLEN" "no_nul query"
  shows "Segment pf query = Inl Out_of_bounds"
  using assms by (simp add: Segment_def segment_words_def MAXLEN_def)

lemma Segment_total:
  assumes "length query < MAXLEN"
  shows "\<exists>r parts. Segment pf query = Inr (r, parts)"
proof -
  have "length (c_str query) \<le> length query" unfolding c_str_def by (rule length_takeWhile_le)
  with assms show ?thesis
    by (auto simp: Segment_def segment_words_def Let_def)
qed

subsection \<open>The file of synonyms\<close>

text \<open>
  The first synonym of a word in the lines of the file: the fourth field of the first line that has four
  fields and the word as the first of them. Empty fields do not count.
\<close>

definition syn_fields :: "string \<Rightarrow> string list" where
  "syn_fields line = filter (\<lambda>p. p \<noteq> []) (split_ref [CHR 0x09] line)"

definition first_synonym :: "string list \<Rightarrow> string \<Rightarrow> string" where
  "first_synonym lines w =
     (case find (\<lambda>v. 4 \<le> length v \<and> v ! 0 = w) (map syn_fields lines) of
        None \<Rightarrow> w
      | Some v \<Rightarrow> v ! 3)"

definition synonyms :: "string list \<Rightarrow> string \<Rightarrow> string list" where
  "synonyms lines w = map (\<lambda>v. v ! 3) (filter (\<lambda>v. 4 \<le> length v \<and> v ! 0 = w) (map syn_fields lines))"

lemma syn_line_lookup:
  "syn_line m line w =
     (let v = syn_fields line
      in if 4 \<le> length v \<and> v ! 0 = w then Some ((case m w of None \<Rightarrow> [] | Some u \<Rightarrow> u) @ [v ! 3]) else m w)"
proof -
  have "StringSplit line [CHR 0x09] = Some (syn_fields line)" by (simp add: StringSplit_ref syn_fields_def)
  then show ?thesis by (auto simp: syn_line_def Let_def)
qed

lemma loaded_synonyms:
  "(case foldl syn_line m lines w of None \<Rightarrow> [] | Some u \<Rightarrow> u) = (case m w of None \<Rightarrow> [] | Some u \<Rightarrow> u) @ synonyms lines w"
proof (induction lines arbitrary: m)
  case Nil
  then show ?case by (simp add: synonyms_def)
next
  case (Cons line lines)
  show ?case
    by (simp only: foldl_Cons Cons.IH syn_line_lookup [of m line w]) (simp add: synonyms_def Let_def)
qed

lemma syn_word_alt:
  "syn_word m w = (case (case m w of None \<Rightarrow> [] | Some u \<Rightarrow> u) of [] \<Rightarrow> w | s # ss \<Rightarrow> s)"
  by (auto simp: syn_word_def split: option.splits list.splits)

lemma first_synonym_synonyms:
  "first_synonym lines w = (case synonyms lines w of [] \<Rightarrow> w | s # ss \<Rightarrow> s)"
  by (induction lines) (auto simp: first_synonym_def synonyms_def)

lemma syn_word_first:
  "loadSyn (Some f) Map.empty = (r, syn) \<Longrightarrow> syn_word syn w = first_synonym (getlines f) w"
  using loaded_synonyms [of Map.empty "getlines f" w]
  by (auto simp: loadSyn_def syn_word_alt first_synonym_synonyms)

text \<open>A concrete platform, whose segmentor makes one word of every byte.\<close>

definition byte_platform :: platform where
  "byte_platform =
     \<lparr>gbk_utf16le = \<lambda>s n. concat (map (\<lambda>c. [c, NUL]) s) @ [NUL, NUL],
      bcscspn = \<lambda>b. length b div 2 - 1,
      graphSegment = \<lambda>b n room. map (\<lambda>i. (i, 1)) [0..<min n room],
      utf16le_gbk = \<lambda>b. filter (\<lambda>c. c \<noteq> NUL) b,
      dbc2gchar = \<lambda>s n. s,
      t2sgchar = \<lambda>s n. (int (length s), s)\<rparr>"

lemma segment_words_two_bytes:
  assumes "x \<noteq> NUL" "y \<noteq> NUL" "3 \<le> n" "2 \<le> k"
  shows "segment_words byte_platform n k [x, y] = Inr [[x], [y]]"
proof -
  have "min 2 k = 2" "[0..<2] = [0, 1]" using assms(4) by (simp_all add: upt_rec numeral_2_eq_2)
  with assms show ?thesis
    by (simp add: segment_words_def byte_platform_def c_str_def substr_def)
qed

lemma segment_two_bytes:
  assumes "x \<noteq> NUL" "y \<noteq> NUL"
  shows "Segment byte_platform [x, y] = Inr (0, [[x], [y]])"
    "GraphSegment byte_platform {} [x, y] = Inr (0, [[x], [y]])"
  using segment_words_two_bytes [OF assms] by (simp_all add: Segment_def GraphSegment_def MAXLEN_def)

text \<open>
  A query of exactly \<^verbatim>\<open>MAXLEN\<close> bytes passes the length check of \<open>Segment_\<close> and then overruns the
  buffer it is copied to, whatever the segmentor does: the terminator has no room.
\<close>

theorem Segment_longest_overruns:
  assumes "length query = MAXLEN" "no_nul query"
  shows "Segment pf query = Inl Out_of_bounds"
  by (rule Segment_overflow [OF assms])

theorem Segment_longest_overruns_witness:
  "Segment byte_platform (replicate MAXLEN (CHR ''a'')) = Inl Out_of_bounds"
  by (rule Segment_longest_overruns) (simp_all add: no_nul_def)

text \<open>
  C36: \<open>Normalize\<close> with the file of synonyms: \<open>loadSyn\<close> reads the file, and from then on a line, trimmed, converted
  and segmented into words, is normalised to its words, each replaced by the fourth field of the
  first line of the file that has at least four fields and the word as its first; words without such a line stay.
  \<open>segment\<close> gets the words as they were. The result is always 0.
\<close>

theorem Normalize_words:
  assumes "Segment pf (c_str (dbc2gchar pf (StringTrim (c_str line)) 2048)) = Inr (r, ws)"
  shows "\<exists>syn. loadSyn (Some f) Map.empty = (0, syn) \<and>
    Normalize pf syn line = Inr (0, concat ws, concat (map (first_synonym (getlines f)) ws))"
proof -
  obtain syn where l: "loadSyn (Some f) Map.empty = (0, syn)" by (simp add: loadSyn_def)
  have "c_str (StringTrim (c_str line)) = StringTrim (c_str line)" by (simp add: no_nul_StringTrim)
  moreover have "syn_word syn = first_synonym (getlines f)" using syn_word_first [OF l] by (rule ext)
  ultimately show ?thesis
    using assms l by (simp add: Normalize_def normalize_loop_eq Let_def)
qed

text \<open>A line with too few fields, two synonyms of one word, and a word without any.\<close>

theorem Normalize_words_witness:
  "\<exists>syn. loadSyn (Some (unlines [''a'' @ [CHR 0x09] @ ''n'',
        ''a'' @ [CHR 0x09] @ ''1'' @ [CHR 0x09] @ ''2'' @ [CHR 0x09] @ ''x'',
        ''a'' @ [CHR 0x09] @ ''1'' @ [CHR 0x09] @ ''2'' @ [CHR 0x09] @ ''y''])) Map.empty = (0, syn) \<and>
    Normalize byte_platform syn ''ab '' = Inr (0, ''ab'', ''xb'')"
proof -
  let ?f = "unlines [''a'' @ [CHR 0x09] @ ''n'',
        ''a'' @ [CHR 0x09] @ ''1'' @ [CHR 0x09] @ ''2'' @ [CHR 0x09] @ ''x'',
        ''a'' @ [CHR 0x09] @ ''1'' @ [CHR 0x09] @ ''2'' @ [CHR 0x09] @ ''y'']"
  have "StringTrim (c_str ''ab '') = ''ab''" by code_simp
  then have "Segment byte_platform (c_str (dbc2gchar byte_platform (StringTrim (c_str ''ab '')) 2048)) =
      Inr (0, [''a'', ''b''])" by (simp only:) (simp add: byte_platform_def [THEN arg_cong [of _ _ dbc2gchar]] c_str_def segment_two_bytes)
  note w = Normalize_words [OF this, of ?f]
  have "first_synonym (getlines ?f) ''a'' = ''x''" "first_synonym (getlines ?f) ''b'' = ''b''" by code_simp+
  with w show ?thesis by (simp only: list.map concat.simps append_Nil2) simp
qed

end
