(* ===== verification/Doc_Index.thy ===== *)
theory Doc_Index
  imports Common_Index Segmenter
begin

text \<open>
  \<open>CDlgIndex\<close> of \<^verbatim>\<open>src/index/inv_index/doc_index.cpp\<close>: the word lists, building the inverted
  index of the questions from a text file, and answering a query with the stored questions that
  share its rarest word. Pointers to postings and documents are positions in the buffers of
  \<^theory_text>\<open>Common_Index\<close>; a file that cannot be opened is \<^const>\<open>None\<close>.
\<close>

record inv_result =
  ir_inv :: "int option"
  ir_num :: int

record inv_num_info =
  min_inv_size :: int
  max_inv_size :: int
  min_index :: int
  max_index :: int

definition InvNumInfo :: inv_num_info where
  "InvNumInfo = \<lparr>min_inv_size = 2147483647, max_inv_size = 0, min_index = 0, max_index = 0\<rparr>"

record dlg_result =
  dr_query :: string
  dr_data :: "string list"

record dlg_index =
  di_index :: common_index
  di_stopword :: "string set"
  di_postfix_word :: "string set"
  di_black :: "string set"
  di_syn :: syn_map

subsection \<open>The word lists\<close>

text \<open>Half-width to full-width conversion into a zeroed buffer of 1024 bytes.\<close>

definition to_full_width :: "platform \<Rightarrow> string \<Rightarrow> string" where
  "to_full_width pf line = c_str (dbc2gchar pf (c_str (StringTrim line)) 512)"

definition LoadStopword :: "platform \<Rightarrow> bytes option \<Rightarrow> dlg_index \<Rightarrow> int \<times> dlg_index" where
  "LoadStopword pf fp di =
     (case fp of
        None \<Rightarrow> (-1, di)
      | Some f \<Rightarrow>
          (0, foldl (\<lambda>di line. di\<lparr>di_stopword := insert (to_full_width pf line) (di_stopword di)\<rparr>)
                di (fgets_lines 1024 f)))"

definition LoadBlackword :: "platform \<Rightarrow> bytes option \<Rightarrow> dlg_index \<Rightarrow> int \<times> dlg_index" where
  "LoadBlackword pf fp di =
     (case fp of
        None \<Rightarrow> (-1, di)
      | Some f \<Rightarrow>
          (0, foldl (\<lambda>di line. di\<lparr>di_black := insert (to_full_width pf line) (di_black di)\<rparr>)
                di (fgets_lines 1024 f)))"

text \<open>\<^verbatim>\<open>parts[0]\<close> does not exist when nothing but separators is left of the line.\<close>

fun postfix_loop :: "string list \<Rightarrow> string set \<Rightarrow> fault + string set" where
  "postfix_loop [] s = Inr s"
| "postfix_loop (line # lines) s =
     (case StringSplit (StringTrim line) [CHR 0x09] of
        None \<Rightarrow> Inl Diverges
      | Some [] \<Rightarrow> Inl Out_of_bounds
      | Some (p # parts) \<Rightarrow> postfix_loop lines (insert p s))"

definition LoadPostfixWord :: "bytes option \<Rightarrow> dlg_index \<Rightarrow> fault + (int \<times> dlg_index)" where
  "LoadPostfixWord fp di =
     (case fp of
        None \<Rightarrow> Inr (-1, di)
      | Some f \<Rightarrow>
          (case postfix_loop (fgets_lines 1024 f) (di_postfix_word di) of
             Inl e \<Rightarrow> Inl e
           | Inr s \<Rightarrow> Inr (0, di\<lparr>di_postfix_word := s\<rparr>)))"

subsection \<open>MakeIndex and LoadIndex\<close>

definition word_node :: "string \<Rightarrow> inv_node" where
  "word_node w = \<lparr>occ = 0, occ_len = i32 (int (length w)), occ_filed = 0, inv_doc_id = 0\<rparr>"

text \<open>
  One line of the input: the text before \<^verbatim>\<open>##_##\<close> is segmented, and the words are added as the
  keys of a document whose text they form together.
\<close>

definition index_line :: "platform \<Rightarrow> common_index \<Rightarrow> string \<Rightarrow> fault + common_index" where
  "index_line pf ci line =
     (let line_str = StringTrim line
      in case StringSplit line_str ''##_##'' of
           None \<Rightarrow> Inl Diverges
         | Some parts \<Rightarrow>
             let destString = (if length parts > 1 then parts ! 0 else line_str)
             in if length destString < 2 then Inr ci
                else case Segment pf destString of
                       Inl e \<Rightarrow> Inl e
                     | Inr (r, seg_parts) \<Rightarrow>
                         let doc_name = foldl (\<lambda>s p. s @ p) [] seg_parts;
                             vec_inv = map word_node seg_parts;
                             doc = \<lparr>doc_word_offset = 0, doc_weight = 0\<rparr>
                         in if length seg_parts > 0
                            then (case Add_keys_invs ci seg_parts vec_inv doc (c_str doc_name) of
                                    Inl e \<Rightarrow> Inl e
                                  | Inr (ci', doc') \<Rightarrow> Inr ci')
                            else Inr ci)"

fun index_lines :: "platform \<Rightarrow> string list \<Rightarrow> common_index \<Rightarrow> fault + common_index" where
  "index_lines pf [] ci = Inr ci"
| "index_lines pf (line # lines) ci =
     (case index_line pf ci line of
        Inl e \<Rightarrow> Inl e
      | Inr ci' \<Rightarrow> index_lines pf lines ci')"

text \<open>\<open>fp_out\<close> is the number of bytes the output file accepts; the result has its contents.\<close>

definition MakeIndex ::
    "platform \<Rightarrow> bytes \<Rightarrow> bytes option \<Rightarrow> nat option \<Rightarrow> dlg_index
      \<Rightarrow> fault + (int \<times> dlg_index \<times> bytes)" where
  "MakeIndex pf pad fp_in fp_out di =
     (case fp_in of
        None \<Rightarrow> Inr (-1, di, [])
      | Some f \<Rightarrow>
          (case index_lines pf (fgets_lines 4096 f) (di_index di) of
             Inl e \<Rightarrow> Inl e
           | Inr ci \<Rightarrow>
               let di1 = di\<lparr>di_index := ci\<rparr>
               in case fp_out of
                    None \<Rightarrow> Inr (-1, di1, [])
                  | Some room \<Rightarrow>
                      (case Save room pad ci False of
                         Inl e \<Rightarrow> Inl e
                       | Inr (r, ci', out) \<Rightarrow>
                           Inr (if r < 0 then -1 else 0, di1\<lparr>di_index := ci'\<rparr>, out))))"

definition LoadIndex :: "bytes option \<Rightarrow> dlg_index \<Rightarrow> fault + (int \<times> dlg_index)" where
  "LoadIndex fp_index di =
     (case fp_index of
        None \<Rightarrow> Inr (-1, di)
      | Some f \<Rightarrow>
          (case Load (di_index di) f of
             Inl e \<Rightarrow> Inl e
           | Inr (r, ci, rest) \<Rightarrow> Inr (if r < 0 then -1 else 0, di\<lparr>di_index := ci\<rparr>)))"

subsection \<open>Looking up the words of a query\<close>

fun GetInvResults_loop ::
    "common_index \<Rightarrow> string list \<Rightarrow> inv_num_info \<Rightarrow> inv_result list
      \<Rightarrow> fault + (inv_num_info \<times> inv_result list)" where
  "GetInvResults_loop ci [] num_info inv_results = Inr (num_info, inv_results)"
| "GetInvResults_loop ci (p # parts) num_info inv_results =
     (case GetInv ci (c_str p) 0 of
        Inl e \<Rightarrow> Inl e
      | Inr (pos, num) \<Rightarrow>
          let n = int (length inv_results);
              info1 = (if max_inv_size num_info < num
                       then num_info\<lparr>max_inv_size := num, max_index := n\<rparr> else num_info);
              info2 = (if num < min_inv_size info1
                       then info1\<lparr>min_inv_size := num, min_index := n\<rparr> else info1)
          in GetInvResults_loop ci parts info2 (inv_results @ [\<lparr>ir_inv = pos, ir_num = num\<rparr>]))"

definition GetInvResults :: "common_index \<Rightarrow> string list \<Rightarrow> fault + (inv_num_info \<times> inv_result list)" where
  "GetInvResults ci parts = GetInvResults_loop ci parts InvNumInfo []"

text \<open>Dereferencing \<^verbatim>\<open>inv + i\<close>.\<close>

definition inv_at :: "common_index \<Rightarrow> int option \<Rightarrow> int \<Rightarrow> fault + inv_node" where
  "inv_at ci pos i =
     (case pos of None \<Rightarrow> Inl Null_deref | Some p \<Rightarrow> buf_at (ci_inv_buf ci) (p + i))"

function BinarySearch_loop ::
    "common_index \<Rightarrow> int \<Rightarrow> int option \<Rightarrow> int \<Rightarrow> int \<Rightarrow> fault + int" where
  "BinarySearch_loop ci doc_id pos left right =
     (if left \<le> right then
        (let mid = left + (right - left) div 2
         in case inv_at ci pos mid of
              Inl e \<Rightarrow> Inl e
            | Inr node \<Rightarrow>
                if inv_doc_id node = doc_id then Inr mid
                else if inv_doc_id node < doc_id then BinarySearch_loop ci doc_id pos (mid + 1) right
                else BinarySearch_loop ci doc_id pos left (mid - 1))
      else Inr (-1))"
  by pat_completeness auto
termination
  by (relation "measure (\<lambda>(c, d, p, l, r). nat (r - l + 1))") auto

declare BinarySearch_loop.simps [simp del]

definition BinarySearch :: "common_index \<Rightarrow> int \<Rightarrow> int option \<Rightarrow> int \<Rightarrow> int \<Rightarrow> fault + int" where
  "BinarySearch ci doc_id pos offset max_pos = BinarySearch_loop ci doc_id pos offset (max_pos - 1)"

text \<open>
  \<open>SearchDoc\<close> goes through all posting lists but the shortest; \<open>inv_vector\<close> gets the position of
  the posting found. A word that does not have the document is no reason to stop: the result is
  always 0.
\<close>

function SearchDoc_loop ::
    "common_index \<Rightarrow> int \<Rightarrow> inv_result list \<Rightarrow> int \<Rightarrow> nat \<Rightarrow> int list \<Rightarrow> int option list
      \<Rightarrow> fault + (int list \<times> int option list)" where
  "SearchDoc_loop ci doc_id inv_results min_idx i index_begins inv_vector =
     (if i < length inv_results then
        (if int i = min_idx
         then SearchDoc_loop ci doc_id inv_results min_idx (i + 1) index_begins inv_vector
         else case BinarySearch ci doc_id (ir_inv (inv_results ! i)) (index_begins ! i)
                     (ir_num (inv_results ! i)) of
                Inl e \<Rightarrow> Inl e
              | Inr doc_index \<Rightarrow>
                  if 0 \<le> doc_index
                  then SearchDoc_loop ci doc_id inv_results min_idx (i + 1)
                         (index_begins[i := doc_index + 1])
                         (inv_vector[i := map_option (\<lambda>p. p + doc_index) (ir_inv (inv_results ! i))])
                  else SearchDoc_loop ci doc_id inv_results min_idx (i + 1) index_begins inv_vector)
      else Inr (index_begins, inv_vector))"
  by pat_completeness auto
termination
  by (relation "measure (\<lambda>(c, d, r, m, i, b, v). length r - i)") auto

declare SearchDoc_loop.simps [simp del]

definition SearchDoc ::
    "common_index \<Rightarrow> int \<Rightarrow> inv_result list \<Rightarrow> int \<Rightarrow> int list \<Rightarrow> int option list
      \<Rightarrow> fault + (int \<times> int list \<times> int option list)" where
  "SearchDoc ci doc_id inv_results min_idx index_begins inv_vector =
     (case SearchDoc_loop ci doc_id inv_results min_idx 0 index_begins inv_vector of
        Inl e \<Rightarrow> Inl e
      | Inr (b, v) \<Rightarrow> Inr (0, b, v))"

function Union_loop ::
    "common_index \<Rightarrow> inv_result list \<Rightarrow> int \<Rightarrow> int \<Rightarrow> int list \<Rightarrow> int option list list \<Rightarrow> int list
      \<Rightarrow> fault + (int option list list \<times> int list)" where
  "Union_loop ci inv_results min_idx i index_begins doc_inv_vector docs =
     (if i < ir_num (inv_results ! nat min_idx) then
        (case inv_at ci (ir_inv (inv_results ! nat min_idx)) i of
           Inl e \<Rightarrow> Inl e
         | Inr node \<Rightarrow>
             (case SearchDoc ci (inv_doc_id node) inv_results min_idx index_begins
                     (replicate (length inv_results) None) of
                Inl e \<Rightarrow> Inl e
              | Inr (r, begins', inv_vector) \<Rightarrow>
                  if 0 \<le> r
                  then Union_loop ci inv_results min_idx (i + 1) begins'
                         (doc_inv_vector @
                            [inv_vector[nat min_idx :=
                               map_option (\<lambda>p. p + i) (ir_inv (inv_results ! nat min_idx))]])
                         (docs @ [GetDoc ci node])
                  else Union_loop ci inv_results min_idx (i + 1) begins' doc_inv_vector docs))
      else Inr (doc_inv_vector, docs))"
  by pat_completeness auto
termination
  by (relation "measure (\<lambda>(c, r, m, i, b, v, d). nat (ir_num (r ! nat m) - i))") auto

declare Union_loop.simps [simp del]

definition UnionInvResult ::
    "common_index \<Rightarrow> inv_result list \<Rightarrow> inv_num_info \<Rightarrow> int list \<Rightarrow> fault + (int \<times> int list)" where
  "UnionInvResult ci inv_results num_info docs =
     (if \<not> (0 \<le> min_index num_info \<and> nat (min_index num_info) < length inv_results)
      then Inl Out_of_bounds
      else case Union_loop ci inv_results (min_index num_info) 0
                  (replicate (length inv_results) 0) [] docs of
             Inl e \<Rightarrow> Inl e
           | Inr (v, docs') \<Rightarrow> Inr (int (length docs'), docs'))"

text \<open>
  The two overloads of \<open>GetUnionResults\<close>: the documents (positions), the words and the query put
  together from them; and the texts of the documents.
\<close>

definition GetUnionResults_docs ::
    "platform \<Rightarrow> dlg_index \<Rightarrow> string \<Rightarrow> int list \<Rightarrow> fault + (int list \<times> string list \<times> string)" where
  "GetUnionResults_docs pf di query docs =
     (case GraphSegment pf (di_stopword di) query of
        Inl e \<Rightarrow> Inl e
      | Inr (r, parts) \<Rightarrow>
          if length parts < 1 then Inr (docs, parts, [])
          else let query_reform = foldl (\<lambda>s p. s @ p) [] parts
               in case GetInvResults (di_index di) parts of
                    Inl e \<Rightarrow> Inl e
                  | Inr (num_info, inv_results) \<Rightarrow>
                      (case UnionInvResult (di_index di) inv_results num_info docs of
                         Inl e \<Rightarrow> Inl e
                       | Inr (n, docs') \<Rightarrow> Inr (docs', parts, query_reform)))"

fun doc_texts :: "common_index \<Rightarrow> int list \<Rightarrow> fault + string list" where
  "doc_texts ci [] = Inr []"
| "doc_texts ci (d # ds) =
     (case buf_at (ci_doc_buf ci) d of
        Inl e \<Rightarrow> Inl e
      | Inr doc \<Rightarrow>
          (case GetDocText ci doc of
             Inl e \<Rightarrow> Inl e
           | Inr t \<Rightarrow> (case doc_texts ci ds of Inl e \<Rightarrow> Inl e | Inr ts \<Rightarrow> Inr (t # ts))))"

definition GetUnionResults ::
    "platform \<Rightarrow> dlg_index \<Rightarrow> string \<Rightarrow> string list \<Rightarrow> fault + (int \<times> string list \<times> string list)" where
  "GetUnionResults pf di query docs_text =
     (case GetUnionResults_docs pf di query [] of
        Inl e \<Rightarrow> Inl e
      | Inr (docs, seg_parts, query_reform) \<Rightarrow>
          (case doc_texts (di_index di) docs of
             Inl e \<Rightarrow> Inl e
           | Inr ts \<Rightarrow> Inr (int (length (docs_text @ ts)), docs_text @ ts, seg_parts)))"

definition hits_black :: "string set \<Rightarrow> string \<Rightarrow> bool" where
  "hits_black black query \<longleftrightarrow> (\<exists>b \<in> black. str_find query b 0 \<noteq> None)"

definition GetDlgResult ::
    "platform \<Rightarrow> dlg_index \<Rightarrow> string \<Rightarrow> dlg_result \<Rightarrow> fault + (int \<times> dlg_result)" where
  "GetDlgResult pf di query doc_result =
     (if length query \<le> 1 \<or> 100 < length query then Inr (-1, doc_result)
      else if hits_black (di_black di) query then Inr (-1, doc_result)
      else case Normalize pf (di_syn di) query of
             Inl e \<Rightarrow> Inl e
           | Inr (r, seg_norm, query_norm) \<Rightarrow>
               (case GetUnionResults pf di seg_norm [] of
                  Inl e \<Rightarrow> Inl e
                | Inr (n, docs, seg_parts) \<Rightarrow>
                    if length docs < 1 then Inr (-1, doc_result)
                    else Inr (0, doc_result\<lparr>dr_data := docs, dr_query := seg_norm\<rparr>)))"

subsection \<open>The filters that are no longer called\<close>

text \<open>
  \<open>GetDlgResultLongQuery\<close> and \<open>GetDlgResultPostfix\<close> work on texts of the form
  question, tab, answer. \<^verbatim>\<open>find\<close> returns \<^verbatim>\<open>npos\<close>, the largest \<^verbatim>\<open>size_t\<close>, when the query does not occur,
  and the sum that tests for a suffix is taken modulo \<^verbatim>\<open>2^64\<close>.
\<close>

definition npos :: nat where
  "npos = 18446744073709551615"

definition find_npos :: "string \<Rightarrow> string \<Rightarrow> nat" where
  "find_npos s pat = (case str_find s pat 0 of None \<Rightarrow> npos | Some i \<Rightarrow> i)"

fun long_query_loop ::
    "string \<Rightarrow> string list \<Rightarrow> bool \<Rightarrow> dlg_result \<Rightarrow> fault + (bool \<times> dlg_result)" where
  "long_query_loop query [] has_result res = Inr (has_result, res)"
| "long_query_loop query (doc # docs) has_result res =
     (case StringSplit doc [CHR 0x09] of
        None \<Rightarrow> Inl Diverges
      | Some doc_parts \<Rightarrow>
          if length doc_parts \<noteq> 2 then long_query_loop query docs has_result res
          else let pos = find_npos (doc_parts ! 0) query
               in if pos = 0 then long_query_loop query docs has_result res
                  else if (pos + length query) mod 18446744073709551616 = length (doc_parts ! 0)
                       then let begin_str = substr (doc_parts ! 0) 0 pos
                            in if str_find (doc_parts ! 1) begin_str 0 \<noteq> None
                               then long_query_loop query docs True
                                      (res\<lparr>dr_query := query, dr_data := dr_data res @ [doc_parts ! 1]\<rparr>)
                               else long_query_loop query docs has_result res
                       else long_query_loop query docs has_result res)"

definition GetDlgResultLongQuery ::
    "string \<Rightarrow> string list \<Rightarrow> dlg_result \<Rightarrow> fault + (int \<times> dlg_result)" where
  "GetDlgResultLongQuery query docs res =
     (if length docs > 0 \<and> length docs < 10
      then (case long_query_loop query docs False res of
              Inl e \<Rightarrow> Inl e
            | Inr (has_result, res') \<Rightarrow> Inr (if has_result then 0 else -1, res'))
      else Inr (-1, res))"

fun map_incr :: "string \<Rightarrow> (string \<times> int) list \<Rightarrow> (string \<times> int) list" where
  "map_incr k [] = [(k, 1)]"
| "map_incr k ((k', n) # m) =
     (if str_less k k' then (k, 1) # (k', n) # m
      else if k = k' then (k', n + 1) # m
      else (k', n) # map_incr k m)"

fun postfix_dist ::
    "string \<Rightarrow> bool \<Rightarrow> string list \<Rightarrow> (string \<times> int) list \<Rightarrow> fault + (string \<times> int) list" where
  "postfix_dist query flag [] m = Inr m"
| "postfix_dist query flag (doc # docs) m =
     (case StringSplit doc [CHR 0x09] of
        None \<Rightarrow> Inl Diverges
      | Some doc_parts \<Rightarrow>
          if length doc_parts \<noteq> 2 then postfix_dist query flag docs m
          else if doc_parts ! 0 = query \<and> flag
               then postfix_dist query flag docs (map_incr (doc_parts ! 1) m)
               else postfix_dist query flag docs m)"

definition GetDlgResultPostfix ::
    "dlg_index \<Rightarrow> string \<Rightarrow> string list \<Rightarrow> string list \<Rightarrow> dlg_result \<Rightarrow> fault + (int \<times> dlg_result)" where
  "GetDlgResultPostfix di query docs seg_parts res =
     (let n = length seg_parts
      in if n < 1 then Inl Out_of_bounds
         else if seg_parts ! (n - 1) \<notin> di_postfix_word di \<and> n < 2 then Inl Out_of_bounds
         else let flag = seg_parts ! (n - 1) \<in> di_postfix_word di \<or>
                         seg_parts ! (n - 2) @ seg_parts ! (n - 1) \<in> di_postfix_word di
              in case postfix_dist query flag docs [] of
                   Inl e \<Rightarrow> Inl e
                 | Inr m \<Rightarrow>
                     if length m > 0 \<and> length m < 5
                     then Inr (0, res\<lparr>dr_query := query, dr_data := dr_data res @ map fst m\<rparr>)
                     else Inr (-1, res))"

section \<open>Properties\<close>

subsection \<open>Binary search in a posting list\<close>

definition chain_ok :: "common_index \<Rightarrow> inv_result \<Rightarrow> inv_node list \<Rightarrow> bool" where
  "chain_ok ci r v \<longleftrightarrow> ir_num r = int (length v) \<and>
     (\<forall>i < length v. inv_at ci (ir_inv r) (int i) = Inr (v ! i))"

lemma chain_okD: "chain_ok ci r v \<Longrightarrow> 0 \<le> i \<Longrightarrow> i < ir_num r \<Longrightarrow> inv_at ci (ir_inv r) i = Inr (v ! nat i)"
  by (auto simp: chain_ok_def) (metis int_nat_eq nat_less_iff)

lemma BinarySearch_loop_safe:
  assumes "chain_ok ci r v" "0 \<le> left" "right < ir_num r"
  shows "\<exists>x. BinarySearch_loop ci d (ir_inv r) left right = Inr x \<and>
    (x = -1 \<or> left \<le> x \<and> x \<le> right \<and> inv_doc_id (v ! nat x) = d)"
  using assms
proof (induction "nat (right - left + 1)" arbitrary: left right rule: less_induct)
  case less
  show ?case
  proof (cases "left \<le> right")
    case True
    define mid where "mid = left + (right - left) div 2"
    have m: "left \<le> mid" "mid \<le> right" using True by (auto simp: mid_def)
    have at: "inv_at ci (ir_inv r) mid = Inr (v ! nat mid)"
      using chain_okD [OF less.prems(1)] less.prems m by auto
    note IH1 = less.hyps [of right "mid + 1"] and IH2 = less.hyps [of "mid - 1" left]
    show ?thesis
      using True at m less.prems IH1 IH2
      by (subst BinarySearch_loop.simps) (fastforce simp: Let_def mid_def [symmetric])
  next
    case False
    then show ?thesis by (subst BinarySearch_loop.simps) simp
  qed
qed

lemma BinarySearch_loop_complete:
  assumes "chain_ok ci r v" "0 \<le> left" "right < ir_num r"
    and "sorted (map inv_doc_id v)" "left \<le> int i" "int i \<le> right" "inv_doc_id (v ! i) = d"
  shows "\<exists>x. BinarySearch_loop ci d (ir_inv r) left right = Inr x \<and> x \<noteq> -1"
  using assms
proof (induction "nat (right - left + 1)" arbitrary: left right rule: less_induct)
  case less
  have True: "left \<le> right" using less.prems by simp
  define mid where "mid = left + (right - left) div 2"
  have m: "left \<le> mid" "mid \<le> right" using True by (auto simp: mid_def)
  have at: "inv_at ci (ir_inv r) mid = Inr (v ! nat mid)"
    using chain_okD [OF less.prems(1)] less.prems m by auto
  have len: "i < length v" "nat mid < length v" using less.prems m by (auto simp: chain_ok_def)
  have mono: "inv_doc_id (v ! a) \<le> inv_doc_id (v ! b)" if "a \<le> b" "b < length v" for a b
    using sorted_nth_mono [OF less.prems(4), of a b] that by simp
  have lt: "mid < int i" if "inv_doc_id (v ! nat mid) < d"
    using mono [of i "nat mid"] that less.prems len m by (cases "i \<le> nat mid") auto
  have gt: "int i < mid" if "d < inv_doc_id (v ! nat mid)"
    using mono [of "nat mid" i] that less.prems len m by (cases "nat mid \<le> i") auto
  note IH1 = less.hyps [of right "mid + 1"] and IH2 = less.hyps [of "mid - 1" left]
  show ?case
    using True at m less.prems IH1 IH2 lt gt
    by (subst BinarySearch_loop.simps) (fastforce simp: Let_def mid_def [symmetric])
qed

lemma BinarySearch_spec:
  assumes "chain_ok ci r v" "0 \<le> offset"
  shows "\<exists>x. BinarySearch ci d (ir_inv r) offset (ir_num r) = Inr x \<and>
    (x = -1 \<or> offset \<le> x \<and> x < int (length v) \<and> inv_doc_id (v ! nat x) = d) \<and>
    (sorted (map inv_doc_id v) \<longrightarrow> x = -1 \<longrightarrow>
       (\<forall>i. offset \<le> int i \<longrightarrow> i < length v \<longrightarrow> inv_doc_id (v ! i) \<noteq> d))"
proof -
  have r: "ir_num r = int (length v)" using assms(1) by (simp add: chain_ok_def)
  from BinarySearch_loop_safe [OF assms, of "ir_num r - 1" d] obtain x where
    x: "BinarySearch_loop ci d (ir_inv r) offset (ir_num r - 1) = Inr x"
    "x = -1 \<or> offset \<le> x \<and> x \<le> ir_num r - 1 \<and> inv_doc_id (v ! nat x) = d" by auto
  have "inv_doc_id (v ! i) \<noteq> d" if "sorted (map inv_doc_id v)" "x = -1" "offset \<le> int i" "i < length v" for i
    using BinarySearch_loop_complete [OF assms _ that(1,3), of "ir_num r - 1" d] that x r by auto
  with x r show ?thesis by (auto simp: BinarySearch_def)
qed

subsection \<open>The union of the posting lists\<close>

lemma SearchDoc_loop_safe:
  assumes "list_all2 (chain_ok ci) rs vs" "length begins = length rs" "\<forall>k < length rs. 0 \<le> begins ! k"
  shows "\<exists>b' iv'. SearchDoc_loop ci d rs m i begins iv = Inr (b', iv') \<and> length b' = length rs \<and>
    (\<forall>k < length rs. 0 \<le> b' ! k)"
  using assms
proof (induction "length rs - i" arbitrary: i begins iv rule: less_induct)
  case less
  show ?case
  proof (cases "i < length rs")
    case False
    with less.prems show ?thesis by (subst SearchDoc_loop.simps) auto
  next
    case True
    then have ch: "chain_ok ci (rs ! i) (vs ! i)" using less.prems(1) by (simp add: list_all2_conv_all_nth)
    from BinarySearch_spec [OF ch, of "begins ! i" d] less.prems True obtain x where
      x: "BinarySearch ci d (ir_inv (rs ! i)) (begins ! i) (ir_num (rs ! i)) = Inr x"
        "x = -1 \<or> begins ! i \<le> x" by auto
    have dec: "length rs - (i + 1) < length rs - i" using True by simp
    have "\<forall>k < length rs. 0 \<le> begins[i := x + 1] ! k" if "0 \<le> x"
      using that less.prems True by (auto simp: nth_list_update)
    with True x less.hyps [OF dec less.prems(1)] less.prems show ?thesis
      by (subst SearchDoc_loop.simps) auto
  qed
qed

lemma SearchDoc_returns_0:
  assumes "list_all2 (chain_ok ci) rs vs" "length begins = length rs" "\<forall>k < length rs. 0 \<le> begins ! k"
  shows "\<exists>b' iv'. SearchDoc ci d rs m begins iv = Inr (0, b', iv') \<and> length b' = length rs \<and>
    (\<forall>k < length rs. 0 \<le> b' ! k)"
  using SearchDoc_loop_safe [OF assms, of d m 0 iv] by (auto simp: SearchDoc_def)

lemma Union_loop_docs:
  assumes "list_all2 (chain_ok ci) rs vs" "0 \<le> m" "nat m < length rs"
    and "length begins = length rs" "\<forall>k < length rs. 0 \<le> begins ! k" "j \<le> length (vs ! nat m)"
  shows "\<exists>iv'. Union_loop ci rs m (int j) begins iv docs =
    Inr (iv', docs @ map inv_doc_id (drop j (vs ! nat m)))"
  using assms
proof (induction "length (vs ! nat m) - j" arbitrary: j begins iv docs rule: less_induct)
  case less
  have ch: "chain_ok ci (rs ! nat m) (vs ! nat m)"
    using less.prems by (simp add: list_all2_conv_all_nth)
  show ?case
  proof (cases "j < length (vs ! nat m)")
    case True
    have at: "inv_at ci (ir_inv (rs ! nat m)) (int j) = Inr (vs ! nat m ! j)"
      using ch True by (simp add: chain_ok_def)
    from SearchDoc_returns_0 [OF less.prems(1,4,5), of "inv_doc_id (vs ! nat m ! j)" m
        "replicate (length rs) None"] obtain b' iv' where
      s: "SearchDoc ci (inv_doc_id (vs ! nat m ! j)) rs m begins (replicate (length rs) None) = Inr (0, b', iv')"
        "length b' = length rs" "\<forall>k < length rs. 0 \<le> b' ! k" by blast
    have dec: "length (vs ! nat m) - (j + 1) < length (vs ! nat m) - j" using True by simp
    from less.hyps [OF dec less.prems(1,2,3) s(2,3), of _ "docs @ [inv_doc_id (vs ! nat m ! j)]"] True
    obtain iv2 where "Union_loop ci rs m (int (j + 1)) b' (iv @ [iv'[nat m :=
        map_option (\<lambda>p. p + int j) (ir_inv (rs ! nat m))]]) (docs @ [inv_doc_id (vs ! nat m ! j)]) =
      Inr (iv2, (docs @ [inv_doc_id (vs ! nat m ! j)]) @ map inv_doc_id (drop (j + 1) (vs ! nat m)))"
      by fastforce
    moreover have "int j < ir_num (rs ! nat m)" using ch True by (simp add: chain_ok_def)
    moreover have "drop j (vs ! nat m) = vs ! nat m ! j # drop (Suc j) (vs ! nat m)"
      using True by (simp add: take_drop_Suc)
    ultimately show ?thesis
      by (subst Union_loop.simps) (simp add: at s(1) GetDoc_def add.commute)
  next
    case False
    with ch show ?thesis by (subst Union_loop.simps) (simp add: chain_ok_def)
  qed
qed

text \<open>The first of the smallest elements.\<close>

definition first_min :: "nat list \<Rightarrow> nat" where
  "first_min xs = hd (filter (\<lambda>k. \<forall>j < length xs. xs ! k \<le> xs ! j) [0..<length xs])"

lemma first_minI:
  assumes "k < length xs" "\<forall>j < length xs. xs ! k \<le> xs ! j" "\<forall>j < k. xs ! k < xs ! j"
  shows "first_min xs = k"
proof -
  let ?P = "\<lambda>k. \<forall>j < length xs. xs ! k \<le> xs ! j"
  have "[0..<length xs] = [0..<k] @ k # [Suc k..<length xs]"
    using assms(1) upt_add_eq_append [of 0 k "length xs - k"] by (simp add: upt_conv_Cons)
  moreover have "\<not> ?P i" if "i < k" for i
    using assms(1,3) that by (metis not_le)
  then have "filter ?P [0..<k] = []" by (auto simp: filter_empty_conv)
  ultimately have "filter ?P [0..<length xs] = k # filter ?P [Suc k..<length xs]"
    using assms(2) by simp
  then show ?thesis by (simp add: first_min_def)
qed

lemma ex_first_min:
  "xs \<noteq> [] \<Longrightarrow> \<exists>k < length xs. (\<forall>j < length xs. xs ! k \<le> xs ! j) \<and> (\<forall>j < k. xs ! k < (xs ! j :: nat))"
proof (induction xs rule: rev_induct)
  case (snoc x xs)
  show ?case
  proof (cases "xs = []")
    case False
    with snoc.IH obtain k where k: "k < length xs" "\<forall>j < length xs. xs ! k \<le> xs ! j"
        "\<forall>j < k. xs ! k < xs ! j" by auto
    show ?thesis
    proof (cases "x < xs ! k")
      case True
      with k show ?thesis by (intro exI [of _ "length xs"]) (auto simp: nth_append less_Suc_eq)
    next
      case False
      with k show ?thesis by (intro exI [of _ k]) (auto simp: nth_append less_Suc_eq)
    qed
  qed simp
qed simp

text \<open>An index that serves the postings \<open>m\<close>, as \<open>Load\<close> leaves it.\<close>

definition serves :: "common_index \<Rightarrow> (string \<times> inv_node list) list \<Rightarrow> bool" where
  "serves ci m \<longleftrightarrow> (\<forall>key num. case map_of m (c_str key) of
       None \<Rightarrow> GetInv ci key num = Inr (None, num)
     | Some v \<Rightarrow> \<exists>p. GetInv ci key num = Inr (Some (int p), int (length v)) \<and>
         (\<forall>i < length v. buf_at (ci_inv_buf ci) (int p + int i) = Inr (v ! i)))"

lemma serves_chain:
  assumes "serves ci m"
  shows "\<exists>pos. GetInv ci (c_str key) 0 = Inr (pos, int (length (posting_list m (c_str key)))) \<and>
    chain_ok ci \<lparr>ir_inv = pos, ir_num = int (length (posting_list m (c_str key)))\<rparr> (posting_list m (c_str key))"
  using assms [unfolded serves_def, rule_format, of "c_str key" 0]
  by (auto simp: posting_list_def chain_ok_def inv_at_def split: option.splits)

definition min_info_ok :: "nat list \<Rightarrow> inv_num_info \<Rightarrow> bool" where
  "min_info_ok xs info \<longleftrightarrow> 0 \<le> min_index info \<and> (\<forall>j < length xs. min_inv_size info \<le> int (xs ! j)) \<and>
     (if min_inv_size info = 2147483647 then min_index info = 0
      else nat (min_index info) < length xs \<and> int (xs ! nat (min_index info)) = min_inv_size info \<and>
        (\<forall>j < nat (min_index info). min_inv_size info < int (xs ! j)))
     \<and> min_inv_size info \<le> 2147483647"

lemma min_info_ok_first:
  assumes ok: "min_info_ok xs info" and xs: "xs \<noteq> []" "\<forall>x \<in> set xs. x < 2147483648"
  shows "nat (min_index info) = first_min xs \<and> first_min xs < length xs"
proof -
  let ?k = "nat (min_index info)"
  have "?k < length xs \<and> (\<forall>j < length xs. xs ! ?k \<le> xs ! j) \<and> (\<forall>j < ?k. xs ! ?k < xs ! j)"
  proof (cases "min_inv_size info = 2147483647")
    case True
    have "xs ! j = 2147483647" if "j < length xs" for j
    proof -
      have "xs ! j < 2147483648" using xs(2) that by simp
      moreover have "2147483647 \<le> int (xs ! j)" using ok that True by (auto simp: min_info_ok_def)
      ultimately show ?thesis by simp
    qed
    moreover have "?k = 0" using True ok by (simp add: min_info_ok_def)
    ultimately show ?thesis using xs(1) by simp
  next
    case False
    with ok have k: "?k < length xs" "int (xs ! ?k) = min_inv_size info"
        "\<forall>j < ?k. min_inv_size info < int (xs ! j)" "\<forall>j < length xs. min_inv_size info \<le> int (xs ! j)"
      using ok unfolding min_info_ok_def if_not_P [OF False] by blast+
    have "int (xs ! ?k) \<le> int (xs ! j)" if "j < length xs" for j
      unfolding k(2) using k(4) that by blast
    moreover have "int (xs ! ?k) < int (xs ! j)" if "j < ?k" for j
      unfolding k(2) using k(3) that by blast
    ultimately show ?thesis using k(1) by simp
  qed
  note k = this
  have "first_min xs = ?k"
    by (rule first_minI) (use k in blast)+
  with k show ?thesis by simp
qed

lemma GetInvResults_loop_spec:
  assumes sv: "serves ci m" and "min_info_ok xs info" "length rs = length xs"
    and "list_all2 (chain_ok ci) rs vs" "xs = map length vs"
  shows "\<exists>info' rs'. GetInvResults_loop ci parts info rs = Inr (info', rs') \<and>
    list_all2 (chain_ok ci) rs' (vs @ map (\<lambda>p. posting_list m (c_str p)) parts) \<and>
    min_info_ok (xs @ map (\<lambda>p. length (posting_list m (c_str p))) parts) info'"
  using assms(2-)
proof (induction parts arbitrary: xs info rs vs)
  case (Cons p parts)
  let ?v = "posting_list m (c_str p)"
  from serves_chain [OF sv, of p] obtain pos where
    g: "GetInv ci (c_str p) 0 = Inr (pos, int (length ?v))"
      "chain_ok ci \<lparr>ir_inv = pos, ir_num = int (length ?v)\<rparr> ?v" by blast
  let ?num = "int (length ?v)" and ?n = "int (length rs)"
  define info1 where "info1 = (if max_inv_size info < ?num
      then info\<lparr>max_inv_size := ?num, max_index := ?n\<rparr> else info)"
  define info2 where "info2 = (if ?num < min_inv_size info1
      then info1\<lparr>min_inv_size := ?num, min_index := ?n\<rparr> else info1)"
  have i1: "min_inv_size info1 = min_inv_size info" "min_index info1 = min_index info"
    by (simp_all add: info1_def)
  have ok: "min_info_ok (xs @ [length ?v]) info2"
    using Cons.prems(1,2) i1
    by (auto simp: min_info_ok_def info2_def nth_append less_Suc_eq split: if_splits)
  have rs: "list_all2 (chain_ok ci) (rs @ [\<lparr>ir_inv = pos, ir_num = ?num\<rparr>]) (vs @ [?v])"
    using Cons.prems(3) g(2) by (simp add: list_all2_appendI)
  have step: "GetInvResults_loop ci (p # parts) info rs =
      GetInvResults_loop ci parts info2 (rs @ [\<lparr>ir_inv = pos, ir_num = ?num\<rparr>])"
    unfolding info2_def info1_def by (simp only: GetInvResults_loop.simps g(1) sum.case prod.case Let_def)
  from Cons.IH [OF ok _ rs] Cons.prems(2,4) show ?case unfolding step by simp
qed simp

text \<open>The documents of a query are those of its rarest word, whatever the other words are.\<close>

definition rarest_postings :: "(string \<times> inv_node list) list \<Rightarrow> string list \<Rightarrow> inv_node list" where
  "rarest_postings m parts =
     (let vs = map (\<lambda>p. posting_list m (c_str p)) parts in vs ! first_min (map length vs))"

lemma UnionInvResult_rarest:
  assumes sv: "serves ci m" and ne: "parts \<noteq> []"
    and small: "\<And>p. p \<in> set parts \<Longrightarrow> length (posting_list m (c_str p)) < 2147483648"
  shows "\<exists>info rs n. GetInvResults ci parts = Inr (info, rs) \<and>
    UnionInvResult ci rs info docs = Inr (n, docs @ map inv_doc_id (rarest_postings m parts))"
proof -
  let ?vs = "map (\<lambda>p. posting_list m (c_str p)) parts"
  have "min_info_ok [] InvNumInfo" by (simp add: min_info_ok_def InvNumInfo_def)
  from GetInvResults_loop_spec [OF sv this, of "[]" "[]" parts] obtain info rs where
    r: "GetInvResults ci parts = Inr (info, rs)" "list_all2 (chain_ok ci) rs ?vs"
      "min_info_ok (map length ?vs) info"
    by (auto simp: GetInvResults_def comp_def)
  from min_info_ok_first [OF r(3)] ne small have
    k: "nat (min_index info) = first_min (map length ?vs)" "first_min (map length ?vs) < length parts"
    by (auto simp: comp_def)
  have lr: "length rs = length parts" using r(2) by (auto dest: list_all2_lengthD)
  have p: "0 \<le> min_index info" using r(3) by (simp add: min_info_ok_def)
  from Union_loop_docs [OF r(2) p _ _ _, of "replicate (length rs) 0" 0 "[]" docs] k lr obtain iv where
    "Union_loop ci rs (min_index info) 0 (replicate (length rs) 0) [] docs =
      Inr (iv, docs @ map inv_doc_id (?vs ! nat (min_index info)))" by auto
  with r(1) p k lr show ?thesis
    by (auto simp: UnionInvResult_def rarest_postings_def Let_def)
qed

subsection \<open>Properties of the searches\<close>

definition small_index :: common_index where
  "small_index = (ci_new 1)\<lparr>ci_inv_buf := Some (map (\<lambda>d. (word_node ''a'')\<lparr>inv_doc_id := d\<rparr>) [2, 5, 9])\<rparr>"

lemma small_index_chain:
  "chain_ok small_index \<lparr>ir_inv = Some 0, ir_num = 3\<rparr> (map (\<lambda>d. (word_node ''a'')\<lparr>inv_doc_id := d\<rparr>) [2, 5, 9])"
  by (auto simp: chain_ok_def inv_at_def buf_at_def small_index_def)

text \<open>
  C19: \<open>BinarySearch\<close> ends and stays inside the posting list. What it returns, if not -1, is a position
  from the offset on with the document looked for; and on a list that is sorted by document it returns
  -1 only if the document is not there.
\<close>

theorem posting_binary_search:
  assumes "chain_ok ci r v" "0 \<le> offset"
  shows "\<exists>x. BinarySearch ci d (ir_inv r) offset (ir_num r) = Inr x \<and>
    (x = -1 \<or> offset \<le> x \<and> x < int (length v) \<and> inv_doc_id (v ! nat x) = d) \<and>
    (sorted (map inv_doc_id v) \<longrightarrow> x = -1 \<longrightarrow>
       (\<forall>i. offset \<le> int i \<longrightarrow> i < length v \<longrightarrow> inv_doc_id (v ! i) \<noteq> d))"
  by (rule BinarySearch_spec [OF assms])

theorem posting_binary_search_witness:
  "BinarySearch small_index 5 (ir_inv \<lparr>ir_inv = Some 0, ir_num = 3\<rparr>) 1 (ir_num \<lparr>ir_inv = Some 0, ir_num = 3\<rparr>) = Inr 1"
proof -
  let ?v = "map (\<lambda>d. (word_node ''a'')\<lparr>inv_doc_id := d\<rparr>) [2, 5, 9]"
  from posting_binary_search [OF small_index_chain, of 1 5] obtain x where
    x: "BinarySearch small_index 5 (ir_inv \<lparr>ir_inv = Some 0, ir_num = 3\<rparr>) 1 (ir_num \<lparr>ir_inv = Some 0, ir_num = 3\<rparr>) = Inr x"
      "x = -1 \<or> 1 \<le> x \<and> x < int (length ?v) \<and> inv_doc_id (?v ! nat x) = 5"
      "sorted (map inv_doc_id ?v) \<longrightarrow> x = -1 \<longrightarrow>
         (\<forall>i. 1 \<le> int i \<longrightarrow> i < length ?v \<longrightarrow> inv_doc_id (?v ! i) \<noteq> 5)" by auto
  from x(3) [rule_format, of 1] have "x \<noteq> -1" by auto
  with x(2) have "(x = 1 \<or> x = 2) \<and> inv_doc_id (?v ! nat x) = 5" by auto
  then have "x = 1" by auto
  with x(1) show ?thesis by simp
qed

text \<open>
  C20: The documents of a query are those of its rarest word (the first one, of several), in the order of
  its postings, whatever the postings of the other words are: \<open>SearchDoc\<close> never rejects a document, so
  the result is not the intersection the comments speak of.
\<close>

theorem union_is_rarest_word:
  assumes "serves ci m" "parts \<noteq> []"
    and "\<And>p. p \<in> set parts \<Longrightarrow> length (posting_list m (c_str p)) < 2147483648"
  shows "\<exists>info rs n. GetInvResults ci parts = Inr (info, rs) \<and>
    UnionInvResult ci rs info docs = Inr (n, docs @ map inv_doc_id (rarest_postings m parts))"
  by (rule UnionInvResult_rarest [OF assms])

subsection \<open>Properties of the word lists and the filters\<close>

lemma LoadBlackword_black:
  "di_black (snd (LoadBlackword pf (Some f) di)) = di_black di \<union> to_full_width pf ` set (fgets_lines 1024 f)"
proof -
  have "di_black (foldl (\<lambda>di line. di\<lparr>di_black := insert (to_full_width pf line) (di_black di)\<rparr>) di ls) =
      di_black di \<union> to_full_width pf ` set ls" for ls
    by (induction ls arbitrary: di) auto
  then show ?thesis by (simp add: LoadBlackword_def)
qed

text \<open>
  A line of the blacklist that is converted to the empty string, as an empty line is, blocks every
  query: the empty string occurs in all of them.
\<close>

theorem blank_blacklist_line_blocks_all:
  assumes "line \<in> set (fgets_lines 1024 f)" "to_full_width pf line = []"
  shows "\<exists>di'. LoadBlackword pf (Some f) di = (0, di') \<and>
    (\<forall>query res. GetDlgResult pf di' query res = Inr (-1, res))"
proof -
  obtain di' where d: "LoadBlackword pf (Some f) di = (0, di')" by (simp add: LoadBlackword_def)
  then have "[] \<in> di_black di'" using LoadBlackword_black [of pf f di] assms by force
  then have "hits_black (di_black di') query" for query
    by (auto simp: hits_black_def str_find_def intro!: bexI [of _ "[]"])
  with d show ?thesis by (simp add: GetDlgResult_def)
qed

theorem blank_blacklist_line_blocks_all_witness:
  "\<forall>di. \<exists>di'. LoadBlackword byte_platform (Some (unlines [''ab'', []])) di = (0, di') \<and>
    (\<forall>query res. GetDlgResult byte_platform di' query res = Inr (-1, res))"
proof -
  have "fgets_lines 1024 (unlines [''ab'', []]) = [''ab'' @ [CHR 0x0A], [CHR 0x0A]]" by code_simp
  moreover have "StringTrim [CHR 0x0A] = []" by code_simp
  ultimately show ?thesis
    by (intro allI blank_blacklist_line_blocks_all [of "[CHR 0x0A]"])
      (simp_all add: to_full_width_def byte_platform_def c_str_def)
qed

lemma set_join_empties: "set ps \<subseteq> {[]} \<Longrightarrow> set (join_with [c] ps) \<subseteq> {c}"
  by (induction "[c]" ps rule: join_with.induct) auto

text \<open>
  A line of the postfix list with nothing but blanks and tabs makes \<open>LoadPostfixWord\<close> read the first
  element of an empty vector, after it has read the lines before.
\<close>

theorem blank_postfix_line_out_of_bounds:
  assumes "fgets_lines 1024 f = good @ line # rest" "StringTrim line = []"
    and "\<And>g. g \<in> set good \<Longrightarrow> StringTrim g \<noteq> []"
  shows "LoadPostfixWord (Some f) di = Inl Out_of_bounds"
proof -
  have tab: "is_blank (CHR 0x09)" by (simp add: is_blank_def)
  have first: "\<exists>p ps. StringSplit (StringTrim g) [CHR 0x09] = Some (p # ps)" if "StringTrim g \<noteq> []" for g
  proof (rule ccontr)
    assume "\<not> ?thesis"
    then have "filter (\<lambda>p. p \<noteq> []) (split_ref [CHR 0x09] (StringTrim g)) = []"
      using StringSplit_ref [of "[CHR 0x09]" "StringTrim g"] by (metis list.exhaust not_Cons_self2)
    then have "set (split_ref [CHR 0x09] (StringTrim g)) \<subseteq> {[]}" by (auto simp: filter_empty_conv)
    from set_join_empties [OF this, of "CHR 0x09"]
    have "set (StringTrim g) \<subseteq> {CHR 0x09}" by (simp add: join_split_ref)
    then have "hd (StringTrim g) = CHR 0x09" using that by (metis hd_in_set singletonD subsetD)
    with tab StringTrim_ends [OF that] show False by simp
  qed
  have "postfix_loop (good @ line # rest) s = Inl Out_of_bounds" for s
    using assms(3)
  proof (induction good arbitrary: s)
    case Nil
    then show ?case using assms(2) StringSplit_ref [of "[CHR 0x09]" "[]"]
      by (simp add: split_ref.simps)
  next
    case (Cons g good)
    with first [of g] show ?case by auto
  qed
  with assms(1) show ?thesis by (simp add: LoadPostfixWord_def)
qed

theorem blank_postfix_line_out_of_bounds_witness:
  "\<forall>di. LoadPostfixWord (Some (unlines [''ab'', '' ''])) di = Inl Out_of_bounds"
proof (rule allI, rule blank_postfix_line_out_of_bounds)
  show "fgets_lines 1024 (unlines [''ab'', '' '']) = [''ab'' @ [CHR 0x0A]] @ ('' '' @ [CHR 0x0A]) # []"
    by code_simp
  show "StringTrim ('' '' @ [CHR 0x0A]) = []" by code_simp
  have "StringTrim (''ab'' @ [CHR 0x0A]) = ''ab''" by code_simp
  then show "StringTrim g \<noteq> []" if "g \<in> set [''ab'' @ [CHR 0x0A]]" for g
    using that by simp
qed

text \<open>
  C38: The suffix test of \<open>GetDlgResultLongQuery\<close> is fooled by \<^verbatim>\<open>npos\<close>: a query that does not occur in the
  question at all, and is one byte longer than it, passes, because the sum wraps around to the length
  of the question; the answer is taken if it has the whole question in it.
\<close>

theorem long_query_wraps:
  assumes "StringSplit doc [CHR 0x09] = Some [question, answer]" "\<not> occurs query question"
    and "length query = Suc (length question)" "length query < 18446744073709551616" "occurs question answer"
  shows "GetDlgResultLongQuery query [doc] res =
    Inr (0, res\<lparr>dr_query := query, dr_data := dr_data res @ [answer]\<rparr>)"
proof -
  have f: "find_npos question query = npos" "str_find answer question 0 \<noteq> None"
    using assms(2,5) by (auto simp: find_npos_def str_find_def occurs_def split: option.splits)
  have t: "substr question 0 npos = question" using assms(3,4) by (simp add: substr_def npos_def)
  have "(npos + length query) mod 18446744073709551616 = length question"
    using assms(3,4) by (simp add: npos_def mod_if)
  with assms(1,3) f t show ?thesis
    by (simp add: GetDlgResultLongQuery_def npos_def Let_def)
qed

theorem long_query_wraps_witness:
  "\<forall>res. GetDlgResultLongQuery ''xyz'' [''ab'' @ CHR 0x09 # ''abc''] res =
    Inr (0, res\<lparr>dr_query := ''xyz'', dr_data := dr_data res @ [''abc'']\<rparr>)"
  by (rule allI, rule long_query_wraps [where question = "''ab''"]) (code_simp, code_simp, simp, simp, code_simp)

end
