(* ===== verification/Doc_Answers.thy ===== *)
theory Doc_Answers
  imports Doc_Index
begin

text \<open>
  What the whole chain \<open>MakeIndex\<close>, \<open>LoadIndex\<close>, \<open>GetUnionResults\<close> of
  \<^verbatim>\<open>src/index/inv_index/doc_index.cpp\<close> computes, against an abstract specification on lists of
  words: \<open>answers\<close>. The indexed file is a list of questions, each a list of words; the answer
  to a query is, for its rarest word, the text of every question with that word, once per
  occurrence, in the order of the file.
\<close>

definition occurrences :: "string list list \<Rightarrow> string \<Rightarrow> nat" where
  "occurrences D w = sum_list (map (\<lambda>d. count_list d w) D)"

definition rarest_word :: "string list list \<Rightarrow> string list \<Rightarrow> string" where
  "rarest_word D parts = parts ! first_min (map (occurrences D) parts)"

definition answers :: "string list list \<Rightarrow> string list \<Rightarrow> string list" where
  "answers D parts =
     concat (map (\<lambda>d. replicate (count_list d (rarest_word D parts)) (concat d)) D)"

text \<open>The words of a line of the input, as \<open>MakeIndex\<close> segments it.\<close>

definition line_question :: "string \<Rightarrow> string" where
  "line_question line =
     (let line_str = StringTrim line
      in case StringSplit line_str ''##_##'' of
           Some (p # q # parts) \<Rightarrow> p
         | _ \<Rightarrow> line_str)"

definition line_words :: "platform \<Rightarrow> string \<Rightarrow> string list" where
  "line_words pf line =
     (if length (line_question line) < 2 then []
      else case Segment pf (line_question line) of Inl e \<Rightarrow> [] | Inr (r, parts) \<Rightarrow> parts)"

definition questions :: "platform \<Rightarrow> string list \<Rightarrow> string list list" where
  "questions pf lines = filter (\<lambda>d. d \<noteq> []) (map (line_words pf) lines)"

subsection \<open>One line\<close>

lemma length_split_ref: "p \<in> set (split_ref w s) \<Longrightarrow> length p \<le> length s"
proof (induction w s rule: split_ref.induct)
  case (1 w s)
  show ?case
  proof (cases "w = [] \<or> find0 w s = None")
    case True
    then have "split_ref w s = [s]" by (subst split_ref.simps) auto
    with 1 show ?thesis by simp
  next
    case False
    then obtain i where i: "w \<noteq> []" "find0 w s = Some i" by auto
    with "1.prems" consider "p = take i s" | "p \<in> set (split_ref w (drop (i + length w) s))"
      by (auto simp: split_ref_Some)
    then show ?thesis
    proof cases
      case 2
      from "1.IH" [OF i this] show ?thesis by simp
    qed simp
  qed
qed

lemma line_question_length: "length (line_question line) \<le> length line"
proof -
  have sep: "(''##_##'' :: string) \<noteq> []" by simp
  have "length p \<le> length (StringTrim line)"
    if "StringSplit (StringTrim line) ''##_##'' = Some (p # parts)" for p parts
  proof -
    have "p \<in> set (split_ref ''##_##'' (StringTrim line))"
      using that StringSplit_ref [OF sep, of "StringTrim line"] by (auto dest: filter_eq_ConsD)
    then show ?thesis by (rule length_split_ref)
  qed
  with length_StringTrim [of line] show ?thesis
    by (fastforce simp: line_question_def Let_def split: option.splits list.splits)
qed

lemma Segment_words_no_nul: "Segment pf q = Inr (r, parts) \<Longrightarrow> list_all no_nul parts"
  by (auto simp: Segment_def segment_words_def Let_def list_all_iff split: if_splits sum.splits)

lemma line_words_no_nul: "list_all no_nul (line_words pf line)"
  using Segment_words_no_nul by (auto simp: line_words_def split: sum.splits)

lemma no_nul_concat: "list_all no_nul ps \<Longrightarrow> no_nul (concat ps)"
  by (auto simp: list_all_iff no_nul_def)

lemma index_line_words:
  assumes "length line < MAXLEN"
  shows "index_line pf ci line =
    (if line_words pf line = [] then Inr ci
     else case Add_keys_invs ci (line_words pf line) (map word_node (line_words pf line))
               \<lparr>doc_word_offset = 0, doc_weight = 0\<rparr> (concat (line_words pf line)) of
            Inl e \<Rightarrow> Inl e
          | Inr (ci', doc') \<Rightarrow> Inr ci')"
proof -
  obtain parts where s: "StringSplit (StringTrim line) ''##_##'' = Some parts"
    using StringSplit_ref [of "''##_##''" "StringTrim line"] by auto
  have q: "(if 1 < length parts then parts ! 0 else StringTrim line) = line_question line"
    by (auto simp: line_question_def s Let_def split: list.splits)
  show ?thesis
  proof (cases "length (line_question line) < 2")
    case True
    then show ?thesis
      by (simp only: index_line_def Let_def s option.case q if_True line_words_def) simp
  next
    case False
    have "length (line_question line) < MAXLEN" using line_question_length [of line] assms by simp
    from Segment_total [OF this, of pf] obtain r ps where
      seg: "Segment pf (line_question line) = Inr (r, ps)" by blast
    have w: "line_words pf line = ps" using False seg by (simp add: line_words_def)
    have "no_nul (concat ps)" using no_nul_concat line_words_no_nul [of pf line] w by metis
    then show ?thesis
      using False
      by (simp only: index_line_def Let_def s option.case q if_False seg w sum.case prod.case
          foldl_append_concat length_greater_0_conv append_Nil c_str_id) (simp split: sum.splits)
  qed
qed

subsection \<open>The index of a list of questions\<close>

definition word_postings :: "string list list \<Rightarrow> string \<Rightarrow> inv_node list" where
  "word_postings D key =
     concat (map (\<lambda>i. replicate (count_list (D ! i) key) ((word_node key)\<lparr>inv_doc_id := int i\<rparr>))
       [0..<length D])"

definition indexed :: "nat \<Rightarrow> string list list \<Rightarrow> common_index \<Rightarrow> bool" where
  "indexed N D ci \<longleftrightarrow> ci_wf N ci \<and> length (ci_doc_vect ci) = length D \<and>
     (\<forall>i < length D. doc_text ci i = concat (D ! i)) \<and>
     (\<forall>key. posting_list (ci_index_map ci) key = word_postings D key)"

lemma word_postings_snoc:
  "word_postings (D @ [d]) key =
     word_postings D key @ replicate (count_list d key) ((word_node key)\<lparr>inv_doc_id := int (length D)\<rparr>)"
proof -
  have "map (\<lambda>i. replicate (count_list ((D @ [d]) ! i) key) ((word_node key)\<lparr>inv_doc_id := int i\<rparr>)) [0..<length D] =
      map (\<lambda>i. replicate (count_list (D ! i) key) ((word_node key)\<lparr>inv_doc_id := int i\<rparr>)) [0..<length D]"
    by (intro map_cong) (auto simp: nth_append)
  note eq = arg_cong [OF this, of concat]
  show ?thesis
    unfolding word_postings_def length_append list.size upt_Suc_append [OF le0] One_nat_def add_Suc_right
      add_0_right map_append concat_append eq
    by simp
qed

lemma filter_zip_words:
  "list_all no_nul ws \<Longrightarrow>
     map (\<lambda>p. (snd p)\<lparr>inv_doc_id := d\<rparr>) (filter (\<lambda>p. c_str (fst p) = key) (zip ws (map word_node ws)))
       = replicate (count_list ws key) ((word_node key)\<lparr>inv_doc_id := d\<rparr>)"
  by (induction ws) auto

lemma Add_words_indexed:
  assumes ix: "indexed N D ci" and ws: "list_all no_nul ws"
    and size: "length (ci_doc_vect ci) < 2147483647" "length (ci_char_vect ci) < 9223372036854775808"
  shows "\<exists>ci' doc'. Add_keys_invs ci ws (map word_node ws) doc (concat ws) = Inr (ci', doc') \<and>
    indexed N (D @ [ws]) ci'"
proof -
  have ok: "list_all inv_ok (map word_node ws)"
    by (auto simp: list_all_iff inv_ok_def word_node_def in_i32_def [of 0])
  have wf: "ci_wf N ci" and len: "length (ci_doc_vect ci) = length D" using ix by (simp_all add: indexed_def)
  from Add_keys_invs_spec [OF wf _ ok size, of ws doc "concat ws"] obtain ci' doc' where
    a: "Add_keys_invs ci ws (map word_node ws) doc (concat ws) = Inr (ci', doc')" "ci_wf N ci'"
      "length (ci_doc_vect ci') = Suc (length D)"
      "\<forall>i < length D. doc_text ci' i = doc_text ci i" "doc_text ci' (length D) = concat ws"
      "\<forall>key. posting_list (ci_index_map ci') key = posting_list (ci_index_map ci) key @
         replicate (count_list ws key) ((word_node key)\<lparr>inv_doc_id := int (length D)\<rparr>)"
    using no_nul_concat [OF ws] by (auto simp: len filter_zip_words [OF ws])
  have "indexed N (D @ [ws]) ci'"
    using a ix by (auto simp: indexed_def word_postings_snoc nth_append less_Suc_eq)
  with a(1) show ?thesis by blast
qed

lemma index_line_mono:
  assumes "index_line pf ci line = Inr ci'"
  shows "length (ci_doc_vect ci) \<le> length (ci_doc_vect ci') \<and> length (ci_char_vect ci) \<le> length (ci_char_vect ci')"
  using assms
  by (auto simp: index_line_def Let_def Add_keys_invs_def add_doc_def
      split: option.splits if_splits sum.splits)

lemma index_lines_mono:
  "index_lines pf lines ci = Inr ci' \<Longrightarrow>
     length (ci_doc_vect ci) \<le> length (ci_doc_vect ci') \<and> length (ci_char_vect ci) \<le> length (ci_char_vect ci')"
proof (induction lines arbitrary: ci)
  case (Cons line lines)
  then obtain c where "index_line pf ci line = Inr c" "index_lines pf lines c = Inr ci'"
    by (auto split: sum.splits)
  with Cons.IH [of c] index_line_mono [of pf ci line c] show ?case by auto
qed simp

lemma index_lines_indexed:
  assumes "index_lines pf lines ci = Inr ci'" "indexed N D ci" "list_all (\<lambda>l. length l < MAXLEN) lines"
    and size: "length (ci_doc_vect ci') < 2147483648" "length (ci_char_vect ci') < 2147483648"
  shows "indexed N (D @ questions pf lines) ci'"
  using assms(1-3)
proof (induction lines arbitrary: ci D)
  case Nil
  then show ?case by (simp add: questions_def)
next
  case (Cons line lines)
  let ?ws = "line_words pf line"
  obtain c where c: "index_line pf ci line = Inr c" "index_lines pf lines c = Inr ci'"
    using Cons.prems(1) by (auto split: sum.splits)
  have lines: "length line < MAXLEN" "list_all (\<lambda>l. length l < MAXLEN) lines" using Cons.prems(3) by auto
  show ?case
  proof (cases "?ws = []")
    case True
    with c(1) index_line_words [OF lines(1), of pf ci] have "c = ci" by simp
    with Cons.IH [OF c(2) _ lines(2)] Cons.prems(2) True show ?thesis by (simp add: questions_def)
  next
    case False
    let ?doc = "\<lparr>doc_word_offset = 0, doc_weight = 0\<rparr>"
    obtain doc' where add: "Add_keys_invs ci ?ws (map word_node ?ws) ?doc (concat ?ws) = Inr (c, doc')"
      using c(1) index_line_words [OF lines(1), of pf ci] False by (auto split: sum.splits)
    have "length (ci_doc_vect c) = Suc (length (ci_doc_vect ci))"
        "length (ci_char_vect ci) \<le> length (ci_char_vect c)"
      using add by (auto simp: Add_keys_invs_def add_doc_def Let_def split: sum.splits)
    with index_lines_mono [OF c(2)] size
    have "length (ci_doc_vect ci) < 2147483647" "length (ci_char_vect ci) < 9223372036854775808" by auto
    from Add_words_indexed [OF Cons.prems(2) line_words_no_nul this, of pf line ?doc] add
    have "indexed N (D @ [?ws]) c" by auto
    from Cons.IH [OF c(2) this lines(2)] False show ?thesis by (simp add: questions_def)
  qed
qed

subsection \<open>The whole chain\<close>

lemma map_ordered_False: "map_ordered False docs m m' \<Longrightarrow> m' = m"
  unfolding map_ordered_def
  by (induction rule: list_all2_induct) (auto simp: order_rel_def prod_eq_iff)

lemma doc_texts_stored:
  assumes ok: "docs_ok chars docs" and buf: "ci_doc_buf ci = Some docs" "ci_char_buf ci = Some chars"
    and "list_all (\<lambda>i. i < length docs) is"
  shows "doc_texts ci (map int is) =
    Inr (map (\<lambda>i. c_str_at chars (nat (doc_word_offset (docs ! i)))) is)"
  using assms(4)
proof (induction "is")
  case (Cons i "is")
  then have "i < length docs" by simp
  with ok have "readable chars (doc_word_offset (docs ! i))"
    by (simp add: docs_ok_def list_all_length)
  with Cons show ?case by (simp add: buf_at_def buf GetDocText_def)
qed simp

lemma length_word_postings: "length (word_postings D key) = occurrences D key"
proof -
  have "map (\<lambda>d. count_list d key) D = map (\<lambda>i. count_list (D ! i) key) [0..<length D]"
    by (intro nth_equalityI) auto
  then show ?thesis
    by (simp only: word_postings_def occurrences_def length_concat map_map comp_def length_replicate)
qed

definition posting_ids :: "string list list \<Rightarrow> string \<Rightarrow> nat list" where
  "posting_ids D key = concat (map (\<lambda>i. replicate (count_list (D ! i) key) i) [0..<length D])"

lemma word_postings_ids: "map inv_doc_id (word_postings D key) = map int (posting_ids D key)"
  by (simp add: word_postings_def posting_ids_def map_concat comp_def map_replicate)

lemma posting_ids_bound: "list_all (\<lambda>i. i < length D) (posting_ids D key)"
  by (auto simp: posting_ids_def list_all_iff)

lemma posting_ids_texts:
  assumes "\<forall>i < length D. f i = concat (D ! i)"
  shows "map f (posting_ids D key) = concat (map (\<lambda>d. replicate (count_list d key) (concat d)) D)"
proof -
  have "map (\<lambda>d. replicate (count_list d key) (concat d)) D =
      map (\<lambda>i. replicate (count_list (D ! i) key) (f i)) [0..<length D]"
    using assms by (intro nth_equalityI) auto
  then show ?thesis by (simp only: posting_ids_def map_concat map_map comp_def map_replicate)
qed

definition stored :: "common_index \<Rightarrow> string list list \<Rightarrow> bool" where
  "stored ci D \<longleftrightarrow> (\<exists>m docs chars. serves ci m \<and> ci_doc_buf ci = Some docs \<and> ci_char_buf ci = Some chars \<and>
     docs_ok chars docs \<and> length docs = length D \<and>
     (\<forall>i < length D. c_str_at chars (nat (doc_word_offset (docs ! i))) = concat (D ! i)) \<and>
     (\<forall>key. posting_list m key = word_postings D key))"

lemma GetUnionResults_answers:
  assumes st: "stored (di_index di) D"
    and seg: "GraphSegment pf (di_stopword di) query = Inr (r, parts)" "parts \<noteq> []"
    and small: "\<And>p. p \<in> set parts \<Longrightarrow> occurrences D p < 2147483648"
  shows "GetUnionResults pf di query texts =
    Inr (int (length (texts @ answers D parts)), texts @ answers D parts, parts)"
proof -
  from st obtain m docs chars where
    sv: "serves (di_index di) m" and buf: "ci_doc_buf (di_index di) = Some docs"
      "ci_char_buf (di_index di) = Some chars"
    and ok: "docs_ok chars docs" and len: "length docs = length D"
    and tx: "\<forall>i < length D. c_str_at chars (nat (doc_word_offset (docs ! i))) = concat (D ! i)"
    and post: "\<And>key. posting_list m key = word_postings D key"
    unfolding stored_def by blast
  have nn: "c_str p = p" if "p \<in> set parts" for p
    using seg(1) that by (auto simp: GraphSegment_def segment_words_def Let_def split: if_splits)
  have "rarest_postings m parts = word_postings D (rarest_word D parts)"
  proof -
    have v: "map (\<lambda>p. posting_list m (c_str p)) parts = map (word_postings D) parts"
      using nn by (simp add: post)
    have l: "map length (map (word_postings D) parts) = map (occurrences D) parts"
      by (simp add: length_word_postings)
    have "first_min (map (occurrences D) parts) < length parts"
    proof -
      obtain k where k: "k < length parts" "\<forall>j < length parts.
          map (occurrences D) parts ! k \<le> map (occurrences D) parts ! j"
          "\<forall>j < k. map (occurrences D) parts ! k < map (occurrences D) parts ! j"
        using ex_first_min [of "map (occurrences D) parts"] seg(2) by auto
      then show ?thesis using first_minI [of k "map (occurrences D) parts"] by simp
    qed
    then show ?thesis unfolding rarest_postings_def rarest_word_def Let_def v l by simp
  qed
  moreover from UnionInvResult_rarest [OF sv seg(2), of "[]"] small nn obtain info rs n where
    "GetInvResults (di_index di) parts = Inr (info, rs)"
    "UnionInvResult (di_index di) rs info [] = Inr (n, map inv_doc_id (rarest_postings m parts))"
    by (auto simp: post length_word_postings)
  moreover have "doc_texts (di_index di) (map int (posting_ids D (rarest_word D parts))) =
      Inr (answers D parts)"
    using doc_texts_stored [OF ok buf, of "posting_ids D (rarest_word D parts)"]
      posting_ids_bound [of D "rarest_word D parts"] posting_ids_texts [OF tx]
    by (simp add: len answers_def)
  ultimately show ?thesis
    using seg by (simp add: GetUnionResults_def GetUnionResults_docs_def word_postings_ids Let_def)
qed

lemma index_lines_new:
  assumes "index_lines pf (fgets_lines 4096 f) (ci_new N) = Inr ci" "0 < N" "ci_fits N ci"
  shows "indexed N (questions pf (fgets_lines 4096 f)) ci"
proof -
  have short: "list_all (\<lambda>l. length l < MAXLEN) (fgets_lines 4096 f)"
    using fgets_lines_length [of 4096 f] by (auto simp: MAXLEN_def list_all_iff)
  have "indexed N [] (ci_new N)"
    using ci_new_wf [OF assms(2)] by (simp add: indexed_def ci_new_def posting_list_def word_postings_def)
  from index_lines_indexed [OF assms(1) this short] assms(3) show ?thesis
    by (simp add: ci_fits_def)
qed

lemma length_posting_list_le: "length (posting_list m k) \<le> length (all_postings m)"
  by (induction m) (auto simp: posting_list_def all_postings_def split: option.splits)

lemma index_lines_occurrences:
  assumes "index_lines pf (fgets_lines 4096 f) (ci_new N) = Inr ci" "0 < N" "ci_fits N ci"
  shows "occurrences (questions pf (fgets_lines 4096 f)) p < 2147483648"
proof -
  have "occurrences (questions pf (fgets_lines 4096 f)) p = length (posting_list (ci_index_map ci) p)"
    using index_lines_new [OF assms] by (simp add: indexed_def length_word_postings)
  with length_posting_list_le [of "ci_index_map ci" p] assms(3) show ?thesis by (simp add: ci_fits_def)
qed

text \<open>
  Building from the lines of a file, saving, and loading into any index object with the same
  number of buckets gives an index that answers as specified.
\<close>

theorem MakeIndex_LoadIndex_stored:
  assumes new: "di_index di = ci_new N" "0 < N" and N0: "hv_blank N (ci_index (di_index di0))"
    and lines: "index_lines pf (fgets_lines 4096 f) (ci_new N) = Inr ci" and fits: "ci_fits N ci"
  shows "\<exists>img di2. (\<forall>room. length img \<le> room \<longrightarrow>
      (\<exists>di1. MakeIndex pf pad (Some f) (Some room) di = Inr (0, di1, img))) \<and>
    LoadIndex (Some img) di0 = Inr (0, di2) \<and>
    stored (di_index di2) (questions pf (fgets_lines 4096 f)) \<and>
    di_stopword di2 = di_stopword di0 \<and> di_syn di2 = di_syn di0 \<and> di_black di2 = di_black di0"
proof -
  let ?D = "questions pf (fgets_lines 4096 f)"
  have ix: "indexed N ?D ci" using index_lines_new [OF lines new(2) fits] .
  then have wf: "ci_wf N ci" by (simp add: indexed_def)
  from Save_Load_query [OF wf fits _ N0, of False pad] obtain m' img ci2 where
    s: "map_ordered False (ci_doc_vect ci) (ci_index_map ci) m'"
      "\<And>room. length img \<le> room \<Longrightarrow> \<exists>ci1. Save room pad ci False = Inr (0, ci1, img)"
      "\<forall>rest. Load (di_index di0) (img @ rest) = Inr (0, ci2, rest)"
      "ci_char_buf ci2 = Some (ci_char_vect ci)" "ci_doc_buf ci2 = Some (ci_doc_vect ci)"
      "serves ci2 m'"
    unfolding serves_def by auto
  have m': "m' = ci_index_map ci" using map_ordered_False [OF s(1)] .
  have "stored ci2 ?D"
    using s(4,5,6) ix wf unfolding stored_def m'
    by (intro exI [of _ "ci_index_map ci"] exI [of _ "ci_doc_vect ci"] exI [of _ "ci_char_vect ci"])
       (simp add: indexed_def ci_wf_def doc_text_def)
  moreover have "LoadIndex (Some img) di0 = Inr (0, di0\<lparr>di_index := ci2\<rparr>)"
    using s(3) [rule_format, of "[]"] by (simp add: LoadIndex_def)
  moreover have "\<exists>di1. MakeIndex pf pad (Some f) (Some room) di = Inr (0, di1, img)"
    if "length img \<le> room" for room
    using s(2) [OF that] lines new(1) by (auto simp: MakeIndex_def Let_def)
  ultimately show ?thesis by force
qed

end
