(* ===== verification/Edit_Dist.thy ===== *)
theory Edit_Dist
  imports Segmenter
begin

text \<open>
  \<^verbatim>\<open>src/include/common/EditDist.cpp\<close>: the edit distance of two word sequences (\<open>edit\<close>), of two
  strings (\<open>Calculate\<close>) and the ranking of candidates by it (\<open>EditSort\<close>). The matrix of
  \<open>edit\<close> is a list of rows; \<^verbatim>\<open>new int[]\<close> leaves the cells indeterminate, which is \<open>0\<close> here
  and never read before it is written (\<open>edit_filled\<close> speaks of written cells only).
\<close>

definition min_int :: "int \<Rightarrow> int \<Rightarrow> int" where
  "min_int i j = (if j < i then j else i)"

definition cell :: "int list list \<Rightarrow> nat \<Rightarrow> nat \<Rightarrow> int" where
  "cell ptr i j = ptr ! i ! j"

definition set_cell :: "nat \<Rightarrow> nat \<Rightarrow> int \<Rightarrow> int list list \<Rightarrow> int list list" where
  "set_cell i j x ptr = ptr[i := (ptr ! i)[j := x]]"

definition edit_step :: "string list \<Rightarrow> string list \<Rightarrow> nat \<Rightarrow> nat \<Rightarrow> int list list \<Rightarrow> int list list" where
  "edit_step str1 str2 i j ptr =
     (let tmp = min_int (cell ptr i (j - 1) + 1) (cell ptr (i - 1) j + 1);
          d = (if str1 ! (i - 1) = str2 ! (j - 1) then 0 else 1)
      in set_cell i j (min_int tmp (cell ptr (i - 1) (j - 1) + d)) ptr)"

definition edit_init :: "nat \<Rightarrow> nat \<Rightarrow> int list list" where
  "edit_init max1 max2 =
     (let ptr0 = replicate (max1 + 1) (replicate (max2 + 1) 0);
          ptr1 = fold (\<lambda>i ptr. set_cell i 0 (int i) ptr) [0..<max1 + 1] ptr0
      in fold (\<lambda>j ptr. set_cell 0 j (int j) ptr) [0..<max2 + 1] ptr1)"

definition edit_fill :: "string list \<Rightarrow> string list \<Rightarrow> int list list \<Rightarrow> int list list" where
  "edit_fill str1 str2 ptr =
     fold (\<lambda>i ptr. fold (\<lambda>j ptr. edit_step str1 str2 i j ptr) [1..<length str2 + 1] ptr)
       [1..<length str1 + 1] ptr"

definition edit :: "string list \<Rightarrow> string list \<Rightarrow> int" where
  "edit str1 str2 =
     cell (edit_fill str1 str2 (edit_init (length str1) (length str2))) (length str1) (length str2)"

definition Calculate :: "platform \<Rightarrow> string \<Rightarrow> string \<Rightarrow> fault + int" where
  "Calculate pf str1 str2 =
     (case Segment pf str1 of
        Inl e \<Rightarrow> Inl e
      | Inr (r1, vec1) \<Rightarrow>
          if length vec1 < 1 then Inr 0
          else case Segment pf str2 of
                 Inl e \<Rightarrow> Inl e
               | Inr (r2, vec2) \<Rightarrow> if length vec2 < 1 then Inr 0 else Inr (edit vec1 vec2))"

subsection \<open>Ranking\<close>

type_synonym ranking = "(int \<Rightarrow> string option) \<times> int list \<times> (string \<Rightarrow> int option)"

definition rank_one :: "string \<Rightarrow> int \<Rightarrow> ranking \<Rightarrow> ranking" where
  "rank_one cadidate edis s =
     (case s of (cadidate_sort, sortED, uniq) \<Rightarrow>
        case cadidate_sort edis of
          Some old \<Rightarrow>
            (if uniq cadidate = None
             then (cadidate_sort(edis \<mapsto> old @ cadidate @ ''###''), sortED, uniq(cadidate \<mapsto> 1))
             else (cadidate_sort, sortED, uniq))
        | None \<Rightarrow>
            (cadidate_sort(edis \<mapsto> cadidate @ ''###''), sortED @ [edis],
             uniq(cadidate \<mapsto> (case uniq cadidate of None \<Rightarrow> 0 | Some n \<Rightarrow> n) + 1)))"

fun rank_loop :: "platform \<Rightarrow> string \<Rightarrow> string list \<Rightarrow> ranking \<Rightarrow> fault + ranking" where
  "rank_loop pf str1 [] s = Inr s"
| "rank_loop pf str1 (c # cs) s =
     (case Calculate pf str1 c of
        Inl e \<Rightarrow> Inl e
      | Inr edis \<Rightarrow> rank_loop pf str1 cs (rank_one c edis s))"

definition EditSort ::
    "platform \<Rightarrow> string \<Rightarrow> string list \<Rightarrow> (int \<Rightarrow> string option) \<Rightarrow> int list
      \<Rightarrow> fault + (int \<times> (int \<Rightarrow> string option) \<times> int list)" where
  "EditSort pf str1 cadidate cadidate_sort sortED =
     (case rank_loop pf str1 cadidate (cadidate_sort, sortED, Map.empty) of
        Inl e \<Rightarrow> Inl e
      | Inr (m, ds, u) \<Rightarrow> Inr (0, m, sort ds))"

section \<open>The matrix holds the recursive distance\<close>

fun lev :: "'a list \<Rightarrow> 'a list \<Rightarrow> int" where
  "lev [] ys = int (length ys)"
| "lev (x # xs) [] = int (length (x # xs))"
| "lev (x # xs) (y # ys) =
     min (min (lev (x # xs) ys + 1) (lev xs (y # ys) + 1)) (lev xs ys + (if x = y then 0 else 1))"

definition pre_dist :: "'a list \<Rightarrow> 'a list \<Rightarrow> nat \<Rightarrow> nat \<Rightarrow> int" where
  "pre_dist xs ys i j = lev (rev (take i xs)) (rev (take j ys))"

lemma lev_Nil2: "lev xs [] = int (length xs)"
  by (cases xs) auto

lemma pre_dist_0: "j \<le> length ys \<Longrightarrow> pre_dist xs ys 0 j = int j" "i \<le> length xs \<Longrightarrow> pre_dist xs ys i 0 = int i"
  by (simp_all add: pre_dist_def lev_Nil2)

lemma pre_dist_Suc:
  assumes "i < length xs" "j < length ys"
  shows "pre_dist xs ys (Suc i) (Suc j) =
    min (min (pre_dist xs ys (Suc i) j + 1) (pre_dist xs ys i (Suc j) + 1))
      (pre_dist xs ys i j + (if xs ! i = ys ! j then 0 else 1))"
  using assms by (simp add: pre_dist_def take_Suc_conv_app_nth)

definition shape :: "nat \<Rightarrow> nat \<Rightarrow> int list list \<Rightarrow> bool" where
  "shape m n ptr \<longleftrightarrow> length ptr = m + 1 \<and> (\<forall>i \<le> m. length (ptr ! i) = n + 1)"

lemma shape_set_cell: "shape m n ptr \<Longrightarrow> shape m n (set_cell i j x ptr)"
  by (cases "i < length ptr") (auto simp: shape_def set_cell_def nth_list_update list_update_beyond)

lemma cell_set_cell:
  "shape m n ptr \<Longrightarrow> i \<le> m \<Longrightarrow> j \<le> n \<Longrightarrow>
     cell (set_cell i j x ptr) a b = (if a = i \<and> b = j then x else cell ptr a b)"
  by (auto simp: shape_def cell_def set_cell_def nth_list_update)

lemma init_col:
  "shape m n ptr \<Longrightarrow> k \<le> m + 1 \<Longrightarrow>
     shape m n (fold (\<lambda>i ptr. set_cell i 0 (int i) ptr) [0..<k] ptr) \<and>
     (\<forall>a < k. cell (fold (\<lambda>i ptr. set_cell i 0 (int i) ptr) [0..<k] ptr) a 0 = int a)"
  by (induction k) (auto simp: shape_set_cell cell_set_cell less_Suc_eq)

lemma init_row:
  "shape m n ptr \<Longrightarrow> k \<le> n + 1 \<Longrightarrow> (\<forall>a \<le> m. cell ptr a 0 = int a) \<Longrightarrow>
     shape m n (fold (\<lambda>j ptr. set_cell 0 j (int j) ptr) [0..<k] ptr) \<and>
     (\<forall>a \<le> m. cell (fold (\<lambda>j ptr. set_cell 0 j (int j) ptr) [0..<k] ptr) a 0 = int a) \<and>
     (\<forall>b < k. cell (fold (\<lambda>j ptr. set_cell 0 j (int j) ptr) [0..<k] ptr) 0 b = int b)"
  by (induction k) (auto simp: shape_set_cell cell_set_cell less_Suc_eq)

lemma edit_init_spec:
  "shape m n (edit_init m n) \<and> (\<forall>a \<le> m. cell (edit_init m n) a 0 = int a) \<and>
   (\<forall>b \<le> n. cell (edit_init m n) 0 b = int b)"
proof -
  have s: "shape m n (replicate (m + 1) (replicate (n + 1) 0))"
    by (auto simp: shape_def simp del: replicate.simps)
  from init_col [OF s, of "m + 1"] init_row [of m n _ "n + 1"] show ?thesis
    by (auto simp: edit_init_def Let_def less_Suc_eq_le simp del: upt_Suc)
qed

text \<open>\<open>edit_filled xs ys ptr i j\<close>: the rows before \<open>i\<close>, and row \<open>i\<close> before \<open>j\<close>, are done.\<close>

definition edit_filled :: "string list \<Rightarrow> string list \<Rightarrow> int list list \<Rightarrow> nat \<Rightarrow> nat \<Rightarrow> bool" where
  "edit_filled xs ys ptr i j \<longleftrightarrow> shape (length xs) (length ys) ptr \<and>
     (\<forall>a b. a \<le> length xs \<and> b \<le> length ys \<and> (a = 0 \<or> b = 0 \<or> a < i \<or> a = i \<and> b < j)
        \<longrightarrow> cell ptr a b = pre_dist xs ys a b)"

lemma min_int_min: "min_int = min"
  by (intro ext) (simp add: min_int_def)

lemma edit_step_filled:
  assumes f: "edit_filled xs ys ptr i j" and b: "1 \<le> i" "i \<le> length xs" "1 \<le> j" "j \<le> length ys"
  shows "edit_filled xs ys (edit_step xs ys i j ptr) i (Suc j)"
proof -
  obtain i' j' where ij: "i = Suc i'" "j = Suc j'" using b by (cases i; cases j) auto
  have s: "shape (length xs) (length ys) ptr" using f by (simp add: edit_filled_def)
  have c: "cell ptr i j' = pre_dist xs ys i j'" "cell ptr i' j = pre_dist xs ys i' j"
      "cell ptr i' j' = pre_dist xs ys i' j'"
    using f b ij by (auto simp: edit_filled_def)
  have "edit_step xs ys i j ptr = set_cell i j (pre_dist xs ys i j) ptr"
    using c b by (simp add: edit_step_def ij pre_dist_Suc min_int_min Let_def)
  with f s b show ?thesis
    by (auto simp: edit_filled_def shape_set_cell cell_set_cell less_Suc_eq)
qed

lemma edit_row_filled:
  assumes "edit_filled xs ys ptr i 1" "1 \<le> i" "i \<le> length xs" "k \<le> length ys"
  shows "edit_filled xs ys (fold (\<lambda>j ptr. edit_step xs ys i j ptr) [1..<k + 1] ptr) i (k + 1)"
  using assms(4)
proof (induction k)
  case 0
  with assms(1) show ?case by simp
next
  case (Suc k)
  then show ?case
    using edit_step_filled [of xs ys _ i "Suc k"] assms by simp
qed

lemma edit_filled_next: "edit_filled xs ys ptr i (length ys + 1) \<Longrightarrow> edit_filled xs ys ptr (Suc i) 1"
  by (auto simp: edit_filled_def less_Suc_eq_le le_less)

lemma edit_fill_filled:
  assumes "edit_filled xs ys ptr 1 1" "k \<le> length xs"
  shows "edit_filled xs ys (fold (\<lambda>i ptr. fold (\<lambda>j ptr. edit_step xs ys i j ptr)
    [1..<length ys + 1] ptr) [1..<k + 1] ptr) (k + 1) 1"
  using assms(2)
proof (induction k)
  case (Suc k)
  then have "edit_filled xs ys (fold (\<lambda>i ptr. fold (\<lambda>j ptr. edit_step xs ys i j ptr)
    [1..<length ys + 1] ptr) [1..<k + 1] ptr) (Suc k) 1" by simp
  from edit_filled_next [OF edit_row_filled [OF this, of "length ys"]] Suc.prems
  show ?case by simp
qed (use assms(1) in simp)

lemma edit_lev: "edit xs ys = lev (rev xs) (rev ys)"
proof -
  have "edit_filled xs ys (edit_init (length xs) (length ys)) 1 1"
    using edit_init_spec [of "length xs" "length ys"] by (auto simp: edit_filled_def pre_dist_0)
  from edit_fill_filled [OF this, of "length xs"]
  have "edit xs ys = pre_dist xs ys (length xs) (length ys)"
    by (simp add: edit_def edit_fill_def edit_filled_def)
  then show ?thesis by (simp add: pre_dist_def)
qed

section \<open>The distance is the least number of edits\<close>

inductive one_edit :: "'a list \<Rightarrow> 'a list \<Rightarrow> bool" where
  insert_word: "one_edit (a @ b) (a @ x # b)"
| delete_word: "one_edit (a @ x # b) (a @ b)"
| replace_word: "one_edit (a @ x # b) (a @ y # b)"

fun edits :: "nat \<Rightarrow> 'a list \<Rightarrow> 'a list \<Rightarrow> bool" where
  "edits 0 xs ys \<longleftrightarrow> xs = ys"
| "edits (Suc n) xs ys \<longleftrightarrow> (\<exists>zs. one_edit xs zs \<and> edits n zs ys)"

lemma lev_ge_0: "0 \<le> lev xs ys"
  by (induction xs ys rule: lev.induct) auto

lemma lev_Cons_le: "lev (x # xs) zs \<le> lev xs zs + 1"
  by (cases zs) (auto simp: lev_Nil2)

lemma lev_tail_le: "lev xs zs \<le> lev (x # xs) zs + 1"
proof (induction zs)
  case Nil
  then show ?case by (simp add: lev_Nil2)
next
  case (Cons z zs)
  have "lev xs (z # zs) \<le> lev xs zs + 1" by (cases xs) auto
  with Cons show ?case by auto
qed

lemma lev_replace_le: "lev (x # xs) zs \<le> lev (y # xs) zs + 1"
proof (induction zs)
  case (Cons z zs)
  have "lev xs (z # zs) \<le> lev xs zs + 1" by (cases xs) auto
  with Cons show ?case by auto
qed simp

lemma lev_context:
  assumes "\<And>zs. lev u zs \<le> lev v zs + 1"
  shows "lev (c # u) zs \<le> lev (c # v) zs + 1"
proof (induction zs)
  case Nil
  then show ?case using assms [of "[]"] by (simp add: lev_Nil2)
next
  case (Cons z zs)
  show ?case using assms [of "z # zs"] assms [of zs] Cons by auto
qed

lemma lev_prefix:
  assumes "\<And>zs. lev u zs \<le> lev v zs + 1"
  shows "lev (a @ u) zs \<le> lev (a @ v) zs + 1"
  using assms by (induction a arbitrary: zs) (auto intro: lev_context)

lemma one_edit_lev: "one_edit xs ys \<Longrightarrow> lev xs zs \<le> lev ys zs + 1"
  by (induction rule: one_edit.induct)
     (auto intro!: lev_prefix lev_Cons_le lev_tail_le lev_replace_le)

lemma lev_refl: "lev xs xs = 0"
proof (induction xs)
  case (Cons x xs)
  have "lev (x # xs) (x # xs) \<le> 0" using Cons by simp
  with lev_ge_0 [of "x # xs" "x # xs"] show ?case by linarith
qed simp

lemma edits_lower: "edits n xs ys \<Longrightarrow> lev xs ys \<le> int n"
proof (induction n arbitrary: xs)
  case (Suc n)
  then obtain zs where "one_edit xs zs" "edits n zs ys" by auto
  with Suc.IH [of zs] one_edit_lev [of xs zs ys] show ?case by simp
qed (simp add: lev_refl)

lemma one_edit_Cons: "one_edit xs ys \<Longrightarrow> one_edit (c # xs) (c # ys)"
  by (induction rule: one_edit.induct) (metis append_Cons one_edit.intros)+

lemma edits_Cons: "edits n xs ys \<Longrightarrow> edits n (c # xs) (c # ys)"
  by (induction n arbitrary: xs) (auto intro: one_edit_Cons)

lemma edits_insert_all: "edits (length ys) [] ys"
proof (induction ys)
  case (Cons y ys)
  have "one_edit [] [y]" using insert_word [of "[]" "[]" y] by simp
  moreover have "edits (length ys) [y] (y # ys)" using Cons by (rule edits_Cons)
  ultimately show ?case by auto
qed simp

lemma edits_delete_all: "edits (length xs) xs []"
proof (induction xs)
  case (Cons x xs)
  have "one_edit (x # xs) xs" using delete_word [of "[]" x xs] by simp
  with Cons show ?case by auto
qed simp

lemma edits_upper: "edits (nat (lev xs ys)) xs ys"
proof (induction xs ys rule: lev.induct)
  case (3 x xs y ys)
  note ge = lev_ge_0 [of "x # xs" ys] lev_ge_0 [of xs "y # ys"] lev_ge_0 [of xs ys]
  have "lev (x # xs) (y # ys) = lev (x # xs) ys + 1 \<or> lev (x # xs) (y # ys) = lev xs (y # ys) + 1 \<or>
      lev (x # xs) (y # ys) = lev xs ys \<and> x = y \<or> lev (x # xs) (y # ys) = lev xs ys + 1"
    by (cases "x = y") (auto simp: min_def)
  then consider "lev (x # xs) (y # ys) = lev (x # xs) ys + 1" | "lev (x # xs) (y # ys) = lev xs (y # ys) + 1"
    | "lev (x # xs) (y # ys) = lev xs ys" "x = y" | "lev (x # xs) (y # ys) = lev xs ys + 1"
    by blast
  then show ?case
  proof cases
    case 1
    have "one_edit (x # xs) (y # x # xs)" using insert_word [of "[]" "x # xs" y] by simp
    moreover have "edits (nat (lev (x # xs) ys)) (y # x # xs) (y # ys)" using "3.IH"(1) by (rule edits_Cons)
    moreover have "nat (lev (x # xs) (y # ys)) = Suc (nat (lev (x # xs) ys))" unfolding 1 using ge by simp
    ultimately show ?thesis by (auto simp del: lev.simps)
  next
    case 2
    have "one_edit (x # xs) xs" using delete_word [of "[]" x xs] by simp
    moreover have "nat (lev (x # xs) (y # ys)) = Suc (nat (lev xs (y # ys)))" unfolding 2 using ge by simp
    ultimately show ?thesis using "3.IH"(2) by (auto simp del: lev.simps)
  next
    case 3
    with edits_Cons [OF "3.IH"(3)] show ?thesis by (simp del: lev.simps)
  next
    case 4
    have "one_edit (x # xs) (y # xs)" using replace_word [of "[]" x xs y] by simp
    moreover have "edits (nat (lev xs ys)) (y # xs) (y # ys)" using "3.IH"(3) by (rule edits_Cons)
    moreover have "nat (lev (x # xs) (y # ys)) = Suc (nat (lev xs ys))" unfolding 4 using ge by simp
    ultimately show ?thesis by (auto simp del: lev.simps)
  qed
qed (simp_all only: lev.simps nat_int edits_insert_all edits_delete_all)

lemma one_edit_rev: "one_edit xs ys \<Longrightarrow> one_edit (rev xs) (rev ys)"
proof (induction rule: one_edit.induct)
  case (insert_word a b x)
  then show ?case using one_edit.insert_word [of "rev b" "rev a" x] by simp
next
  case (delete_word a x b)
  then show ?case using one_edit.delete_word [of "rev b" x "rev a"] by simp
next
  case (replace_word a x b y)
  then show ?case using one_edit.replace_word [of "rev b" x "rev a" y] by simp
qed

lemma edits_rev: "edits n xs ys \<Longrightarrow> edits n (rev xs) (rev ys)"
  by (induction n arbitrary: xs) (auto intro: one_edit_rev)

lemma edit_least:
  "edits (nat (edit xs ys)) xs ys \<and> 0 \<le> edit xs ys \<and> (\<forall>n. edits n xs ys \<longrightarrow> edit xs ys \<le> int n)"
proof (intro conjI allI impI)
  show "edits (nat (edit xs ys)) xs ys"
    using edits_rev [OF edits_upper [of "rev xs" "rev ys"]] by (simp add: edit_lev)
  show "0 \<le> edit xs ys" by (simp add: edit_lev lev_ge_0)
  show "edit xs ys \<le> int n" if "edits n xs ys" for n
    using edits_lower [OF edits_rev [OF that]] by (simp add: edit_lev)
qed

section \<open>The ranking\<close>

text \<open>
  Started on empty results with distances \<open>d c\<close>: the list holds each distance once, and the
  entry of a distance is its candidates, each once, in the order of their first appearance.
\<close>

definition first_seen :: "'a list \<Rightarrow> 'a list" where
  "first_seen cs = rev (remdups (rev cs))"

definition entry_text :: "string list \<Rightarrow> string" where
  "entry_text cs = concat (map (\<lambda>c. c @ ''###'') cs)"

definition cand_group :: "(string \<Rightarrow> int) \<Rightarrow> string list \<Rightarrow> int \<Rightarrow> string option" where
  "cand_group d cs e =
     (if e \<in> d ` set cs then Some (entry_text (filter (\<lambda>c. d c = e) (first_seen cs))) else None)"

definition ranked :: "(string \<Rightarrow> int) \<Rightarrow> string list \<Rightarrow> ranking \<Rightarrow> bool" where
  "ranked d cs s \<longleftrightarrow> fst s = cand_group d cs \<and>
     distinct (fst (snd s)) \<and> set (fst (snd s)) = d ` set cs \<and>
     (\<forall>c. snd (snd s) c = None \<longleftrightarrow> c \<notin> set cs)"

lemma first_seen_snoc:
  "first_seen (cs @ [c]) = (if c \<in> set cs then first_seen cs else first_seen cs @ [c])"
  by (simp add: first_seen_def)

lemma set_first_seen [simp]: "set (first_seen cs) = set cs"
  by (simp add: first_seen_def)

lemma entry_text_snoc [simp]: "entry_text (cs @ [c]) = entry_text cs @ c @ ''###''" "entry_text [] = []" "entry_text [c] = c @ ''###''"
  by (simp_all add: entry_text_def)

lemma cand_group_snoc:
  "cand_group d (cs @ [c]) =
     (if c \<in> set cs then cand_group d cs
      else (cand_group d cs)(d c \<mapsto> (case cand_group d cs (d c) of None \<Rightarrow> [] | Some t \<Rightarrow> t) @ c @ ''###''))"
proof (cases "c \<in> set cs")
  case True
  then show ?thesis by (auto simp: cand_group_def first_seen_snoc)
next
  case False
  have "filter (\<lambda>x. d x = e) (first_seen cs) = []" if "e \<notin> d ` set cs" for e
    using that by (auto simp: filter_empty_conv)
  with False show ?thesis
    by (auto simp: cand_group_def first_seen_snoc fun_eq_iff)
qed

lemma rank_one_ranked:
  assumes "ranked d cs s"
  shows "ranked d (cs @ [c]) (rank_one c (d c) s)"
proof -
  obtain m ds u where s: "s = (m, ds, u)" by (metis prod_cases3)
  have m: "m = cand_group d cs" and ds: "distinct ds" "set ds = d ` set cs"
    and u: "\<And>c. u c = None \<longleftrightarrow> c \<notin> set cs"
    using assms unfolding ranked_def s by auto
  show ?thesis
  proof (cases "d c \<in> d ` set cs")
    case True
    then have "m (d c) = Some (entry_text (filter (\<lambda>x. d x = d c) (first_seen cs)))"
      by (simp add: m cand_group_def)
    with True m ds u show ?thesis
      by (cases "c \<in> set cs") (auto simp: ranked_def rank_one_def s cand_group_snoc)
  next
    case False
    then have "m (d c) = None" "c \<notin> set cs" by (auto simp: m cand_group_def)
    with False m ds u show ?thesis
      by (auto simp: ranked_def rank_one_def s cand_group_snoc)
  qed
qed

lemma rank_loop_ranked:
  assumes "\<And>c. c \<in> set cs \<Longrightarrow> Calculate pf str1 c = Inr (d c)" "ranked d cs0 s"
  shows "\<exists>s'. rank_loop pf str1 cs s = Inr s' \<and> ranked d (cs0 @ cs) s'"
  using assms
proof (induction cs arbitrary: cs0 s)
  case (Cons c cs)
  from Cons.IH [OF _ rank_one_ranked [OF Cons.prems(2), of c]] Cons.prems(1)
  show ?case by simp
qed simp

lemma EditSort_ranks:
  assumes "\<And>c. c \<in> set cs \<Longrightarrow> Calculate pf str1 c = Inr (d c)"
  shows "\<exists>m ds. EditSort pf str1 cs Map.empty [] = Inr (0, m, ds) \<and>
    m = cand_group d cs \<and> ds = sorted_list_of_set (d ` set cs)"
proof -
  have "ranked d [] (Map.empty, [], Map.empty)" by (auto simp: ranked_def cand_group_def)
  from rank_loop_ranked [OF assms this] obtain m ds u where
    r: "rank_loop pf str1 cs (Map.empty, [], Map.empty) = Inr (m, ds, u)" "ranked d cs (m, ds, u)"
    by (metis append_Nil prod_cases3)
  then have "sort ds = sorted_list_of_set (d ` set cs)"
    by (auto simp: ranked_def sorted_list_of_set_sort_remdups simp flip: distinct_remdups_id)
       (metis distinct_remdups_id sorted_list_of_set_sort_remdups)
  with r show ?thesis by (simp add: EditSort_def ranked_def)
qed

lemma Calculate_edit:
  assumes "Segment pf a = Inr (r1, v1)" "Segment pf b = Inr (r2, v2)"
  shows "Calculate pf a b = Inr (if v1 = [] \<or> v2 = [] then 0 else edit v1 v2)"
  using assms by (cases v1; cases v2) (auto simp: Calculate_def)

lemma one_edit_sym: "one_edit xs ys \<Longrightarrow> one_edit ys xs"
  by (auto elim!: one_edit.cases intro: one_edit.intros)

lemma edits_trans: "edits n xs ys \<Longrightarrow> edits m ys zs \<Longrightarrow> edits (n + m) xs zs"
  by (induction n arbitrary: xs) auto

lemma edits_sym: "edits n xs ys \<Longrightarrow> edits n ys xs"
proof (induction n arbitrary: xs)
  case (Suc n)
  then obtain zs where z: "one_edit xs zs" "edits n zs ys" by auto
  have "edits 1 zs xs" using one_edit_sym [OF z(1)] by simp
  from edits_trans [OF Suc.IH [OF z(2)] this] show ?case by simp
qed simp

subsection \<open>Properties\<close>

text \<open>
  C16: The table of \<open>edit\<close> computes the edit distance: the result is the least number of insertions,
  deletions and replacements of a word that turn one list of words into the other.
\<close>

theorem edit_is_least_number_of_edits:
  "edits (nat (edit xs ys)) xs ys \<and> 0 \<le> edit xs ys \<and> (\<forall>n < nat (edit xs ys). \<not> edits n xs ys)"
  using edit_least [of xs ys] by force

theorem edit_is_least_number_of_edits_witness:
  "edits 1 [''a'', ''b'', ''c''] [''a'', ''c''] \<and> \<not> edits 0 [''a'', ''b'', ''c''] [''a'', ''c'']"
proof -
  have "nat (edit [''a'', ''b'', ''c''] [''a'', ''c'']) = 1" by code_simp
  with edit_is_least_number_of_edits [of "[''a'', ''b'', ''c'']" "[''a'', ''c'']"] show ?thesis by simp
qed

text \<open>
  \<open>Calculate\<close> is a distance up to the words the texts are segmented into: symmetric, 0 on equal
  texts, and at most the sum over a text in between. (It is 0, too, where one text has no words, so
  that such a candidate ranks first; the third text has words here.)
\<close>

theorem Calculate_distance:
  assumes "Segment pf a = Inr (r1, u)" "Segment pf b = Inr (r2, v)" "Segment pf c = Inr (r3, w)" "v \<noteq> []"
    and "Calculate pf a b = Inr x" "Calculate pf b c = Inr y" "Calculate pf a c = Inr z"
  shows "0 \<le> x \<and> Calculate pf b a = Inr x \<and> Calculate pf a a = Inr 0 \<and> z \<le> x + y"
proof -
  have le: "edit p q \<le> int n" if "edits n p q" for n and p q :: "string list"
    using edit_least [of p q] that by blast
  have nn: "0 \<le> edit p q" and path: "edits (nat (edit p q)) p q" for p q :: "string list"
    using edit_least [of p q] by blast+
  have sym: "edit p q = edit q p" for p q
    using le [OF edits_sym [OF path [of p q]]] le [OF edits_sym [OF path [of q p]]] nn by simp
  have tri: "edit p r \<le> edit p q + edit q r" for p q r
    using le [OF edits_trans [OF path [of p q] path [of q r]]] nn [of p q] nn [of q r] by simp
  have "edit p p = 0" for p using le [of 0 p p] nn [of p p] by simp
  with assms have "x = (if u = [] then 0 else edit u v)" "y = (if w = [] then 0 else edit v w)"
    "z = (if u = [] \<or> w = [] then 0 else edit u w)"
    "Calculate pf b a = Inr (if u = [] then 0 else edit v u)" "Calculate pf a a = Inr 0"
    by (simp_all add: Calculate_edit)
  with sym [of u v] tri [of u w v] nn [of u v] nn [of v w] show ?thesis by simp
qed

theorem Calculate_distance_witness:
  "(0::int) \<le> 1 \<and> Calculate byte_platform ''cb'' ''ab'' = Inr 1 \<and>
     Calculate byte_platform ''ab'' ''ab'' = Inr 0 \<and> (2::int) \<le> 1 + 1"
proof -
  have e: "edit [''a'', ''b''] [''c'', ''b''] = 1" "edit [''c'', ''b''] [''c'', ''d''] = 1"
    "edit [''a'', ''b''] [''c'', ''d''] = 2" by code_simp+
  have c: "Calculate byte_platform ''ab'' ''cb'' = Inr 1" "Calculate byte_platform ''cb'' ''cd'' = Inr 1"
    "Calculate byte_platform ''ab'' ''cd'' = Inr 2"
    by (simp_all add: Calculate_def segment_two_bytes e)
  show ?thesis
    using Calculate_distance [OF segment_two_bytes(1) segment_two_bytes(1) segment_two_bytes(1) _ c]
    by simp
qed

text \<open>
  C29: \<open>EditSort\<close> groups the candidates by their distance to the text: the list holds each distance
  once, in ascending order, and the entry of a distance holds the candidates with it, each once, in the
  order of their first appearance.
\<close>

theorem EditSort_groups:
  assumes "\<And>c. c \<in> set cs \<Longrightarrow> Calculate pf str1 c = Inr (d c)"
  shows "\<exists>m ds. EditSort pf str1 cs Map.empty [] = Inr (0, m, ds) \<and>
    m = cand_group d cs \<and> ds = sorted_list_of_set (d ` set cs)"
  by (rule EditSort_ranks [OF assms])

theorem EditSort_groups_witness:
  "\<exists>m ds. EditSort byte_platform ''ab'' [''cd'', ''ab'', ''cd''] Map.empty [] = Inr (0, m, ds) \<and>
    m = cand_group (\<lambda>c. if c = ''ab'' then 0 else 2) [''cd'', ''ab'', ''cd''] \<and>
    ds = sorted_list_of_set ((\<lambda>c. if c = ''ab'' then 0 else 2) ` set [''cd'', ''ab'', ''cd''])"
proof (rule EditSort_groups)
  have e: "edit [''a'', ''b''] [''a'', ''b''] = 0" "edit [''a'', ''b''] [''c'', ''d''] = 2" by code_simp+
  fix c :: string
  assume "c \<in> set [''cd'', ''ab'', ''cd'']"
  then show "Calculate byte_platform ''ab'' c = Inr (if c = ''ab'' then 0 else 2)"
    by (auto simp: Calculate_def segment_two_bytes e)
qed

end
