(* ===== verification/Double_Array.thy ===== *)
theory Double_Array
  imports Dlg_Prelude Byte_Codec
begin

unbundle bit_operations_syntax

text \<open>
  The search side of the double-array dictionary \<^verbatim>\<open>src/index/index_da/darts.h\<close>
  (\<^verbatim>\<open>Darts_0_32::DoubleArrayImpl\<close>): the layout of a unit and the searches the sources call. An
  array is a list of 32-bit units; an access outside of it is undefined behaviour. Positions
  (\<^verbatim>\<open>std::size_t\<close>) are combined by XOR from 32-bit offsets only, and are 32-bit words here.
  \<open>da_contains\<close> is what a client expects of a dictionary; the builder is in \<open>Dawg_Builder\<close> and \<open>Da_Builder\<close>.
\<close>

type_synonym unit32 = "32 word"

definition has_leaf :: "unit32 \<Rightarrow> bool" where
  "has_leaf u \<longleftrightarrow> drop_bit 8 u AND 1 = 1"

definition unit_value :: "unit32 \<Rightarrow> int" where
  "unit_value u = uint (u AND 0x7FFFFFFF)"

definition unit_label :: "unit32 \<Rightarrow> unit32" where
  "unit_label u = u AND (0x80000000 OR 0xFF)"

definition unit_offset :: "unit32 \<Rightarrow> unit32" where
  "unit_offset u = push_bit (unat (drop_bit 6 (u AND 0x200))) (drop_bit 10 u)"

definition uchar :: "char \<Rightarrow> unit32" where
  "uchar c = of_char c"

definition unit_at :: "unit32 list \<Rightarrow> unit32 \<Rightarrow> fault + unit32" where
  "unit_at arr pos = (if unat pos < length arr then Inr (arr ! unat pos) else Inl Out_of_bounds)"

text \<open>
  The characters a search looks at: \<open>length\<close> of them, or, for \<open>length = 0\<close>, those of the C string.
\<close>

definition search_key :: "string \<Rightarrow> nat \<Rightarrow> string" where
  "search_key key len = (if len \<noteq> 0 then take len key else c_str key)"

subsection \<open>exactMatchSearch\<close>

fun exact_loop :: "unit32 list \<Rightarrow> string \<Rightarrow> unit32 \<Rightarrow> unit32 \<Rightarrow> fault + (unit32 \<times> unit32) option" where
  "exact_loop arr [] node_pos u = Inr (Some (node_pos, u))"
| "exact_loop arr (c # cs) node_pos u =
     (let node_pos' = node_pos XOR (unit_offset u XOR uchar c)
      in case unit_at arr node_pos' of
           Inl e \<Rightarrow> Inl e
         | Inr u' \<Rightarrow> if unit_label u' \<noteq> uchar c then Inr None else exact_loop arr cs node_pos' u')"

definition exactMatchSearch :: "unit32 list \<Rightarrow> string \<Rightarrow> nat \<Rightarrow> unit32 \<Rightarrow> fault + (int \<times> nat)" where
  "exactMatchSearch arr key len node_pos =
     (case unit_at arr node_pos of
        Inl e \<Rightarrow> Inl e
      | Inr u \<Rightarrow>
          (case exact_loop arr (search_key key len) node_pos u of
             Inl e \<Rightarrow> Inl e
           | Inr None \<Rightarrow> Inr (-1, 0)
           | Inr (Some (pos, u')) \<Rightarrow>
               if \<not> has_leaf u' then Inr (-1, 0)
               else case unit_at arr (pos XOR unit_offset u') of
                      Inl e \<Rightarrow> Inl e
                    | Inr leaf \<Rightarrow> Inr (unit_value leaf, length (search_key key len))))"

subsection \<open>commonPrefixSearch\<close>

text \<open>
  \<open>i\<close> characters have been read; \<open>node_pos\<close> already includes the offset of the current unit. At
  most \<open>max_num\<close> results are stored, all are counted.
\<close>

fun prefix_loop ::
    "unit32 list \<Rightarrow> string \<Rightarrow> nat \<Rightarrow> unit32 \<Rightarrow> nat \<Rightarrow> nat \<times> (int \<times> nat) list
      \<Rightarrow> fault + (nat \<times> (int \<times> nat) list)" where
  "prefix_loop arr [] i node_pos max_num res = Inr res"
| "prefix_loop arr (c # cs) i node_pos max_num res =
     (let node_pos1 = node_pos XOR uchar c
      in case unit_at arr node_pos1 of
           Inl e \<Rightarrow> Inl e
         | Inr u \<Rightarrow>
             if unit_label u \<noteq> uchar c then Inr res
             else let node_pos2 = node_pos1 XOR unit_offset u
                  in if has_leaf u
                     then if fst res < max_num
                          then case unit_at arr node_pos2 of
                                 Inl e \<Rightarrow> Inl e
                               | Inr leaf \<Rightarrow>
                                   prefix_loop arr cs (i + 1) node_pos2 max_num
                                     (fst res + 1, snd res @ [(unit_value leaf, i + 1)])
                          else prefix_loop arr cs (i + 1) node_pos2 max_num (fst res + 1, snd res)
                     else prefix_loop arr cs (i + 1) node_pos2 max_num res)"

definition commonPrefixSearch ::
    "unit32 list \<Rightarrow> string \<Rightarrow> nat \<Rightarrow> nat \<Rightarrow> unit32 \<Rightarrow> fault + (nat \<times> (int \<times> nat) list)" where
  "commonPrefixSearch arr key max_num_results len node_pos =
     (case unit_at arr node_pos of
        Inl e \<Rightarrow> Inl e
      | Inr u \<Rightarrow> prefix_loop arr (search_key key len) 0 (node_pos XOR unit_offset u) max_num_results (0, []))"

subsection \<open>traverse\<close>

text \<open>
  The results are the value, and \<open>node_pos\<close> and \<open>key_pos\<close> afterwards; \<open>-2\<close> when a transition is
  missing, \<open>-1\<close> when the state reached has no value.
\<close>

fun traverse_loop ::
    "unit32 list \<Rightarrow> string \<Rightarrow> unit32 \<Rightarrow> unit32 \<Rightarrow> nat
      \<Rightarrow> fault + (bool \<times> unit32 \<times> unit32 \<times> nat)" where
  "traverse_loop arr [] node_pos u key_pos = Inr (True, node_pos, u, key_pos)"
| "traverse_loop arr (c # cs) node_pos u key_pos =
     (let id1 = node_pos XOR (unit_offset u XOR uchar c)
      in case unit_at arr id1 of
           Inl e \<Rightarrow> Inl e
         | Inr u' \<Rightarrow>
             if unit_label u' \<noteq> uchar c then Inr (False, node_pos, u', key_pos)
             else traverse_loop arr cs id1 u' (key_pos + 1))"

definition traverse ::
    "unit32 list \<Rightarrow> string \<Rightarrow> unit32 \<Rightarrow> nat \<Rightarrow> nat \<Rightarrow> fault + (int \<times> unit32 \<times> nat)" where
  "traverse arr key node_pos key_pos len =
     (case unit_at arr node_pos of
        Inl e \<Rightarrow> Inl e
      | Inr u \<Rightarrow>
          (case traverse_loop arr (drop key_pos (search_key key len)) node_pos u key_pos of
             Inl e \<Rightarrow> Inl e
           | Inr (False, pos, u', kp) \<Rightarrow> Inr (-2, pos, kp)
           | Inr (True, pos, u', kp) \<Rightarrow>
               if \<not> has_leaf u' then Inr (-1, pos, kp)
               else case unit_at arr (pos XOR unit_offset u') of
                      Inl e \<Rightarrow> Inl e
                    | Inr leaf \<Rightarrow> Inr (unit_value leaf, pos, kp)))"

subsection \<open>save and open\<close>

definition da_bytes :: "unit32 list \<Rightarrow> bytes" where
  "da_bytes arr = fwrite_items (\<lambda>u. enc_u32 (uint u)) arr"

text \<open>
  \<open>save\<close> appends to the file, which is taken to accept all the bytes (a short \<^verbatim>\<open>fwrite\<close> returns -1, too); an
  empty array is an error.
\<close>

definition da_save :: "unit32 list \<Rightarrow> bytes \<Rightarrow> int \<times> bytes" where
  "da_save arr f = (if arr = [] then (-1, f) else (0, f @ da_bytes arr))"

text \<open>
  \<open>open\<close> reads \<open>sz\<close> bytes behind \<open>offset\<close>, for \<open>sz = 0\<close> the rest of the file, whose size is a difference
  modulo \<^verbatim>\<open>2^64\<close>; \<^const>\<open>None\<close> when they are not there, or cannot be allocated.
\<close>

definition da_open :: "bytes \<Rightarrow> nat \<Rightarrow> nat \<Rightarrow> unit32 list option" where
  "da_open f offset sz =
     (let n = (if sz = 0 then nat ((int (length f) - int offset) mod 18446744073709551616) else sz) div 4
      in map_option fst (fread_items 4 (\<lambda>bs. word_of_int (dec_u32 bs)) n (drop offset f)))"

section \<open>Properties\<close>

interpretation cunit: fixed_codec "\<lambda>u :: unit32. enc_u32 (uint u)" "\<lambda>bs. word_of_int (dec_u32 bs)" 4
    "\<lambda>_. True"
proof unfold_locales
  fix u :: unit32
  have "uint u < 4294967296" using uint_lt2p [of u] by simp
  then have "in_u32 (uint u)" by (simp add: in_u32_def)
  then show "word_of_int (dec_u32 (enc_u32 (uint u))) = u" by (simp add: dec_enc_u32)
qed (simp add: cu32.enc_length)

lemma da_open_save:
  assumes "arr \<noteq> []" "length pre = offset"
  shows "da_open (pre @ da_bytes arr @ rest) offset (4 * length arr) = Some arr"
  using assms cunit.fread_items_fwrite [of arr "length arr" rest]
  by (simp add: da_open_def da_bytes_def list_all_iff Let_def)

lemma search_key_zero [simp]: "search_key key 0 = c_str key"
  by (simp add: search_key_def)

text \<open>What a dictionary holds, read with \<open>exactMatchSearch\<close> on C strings.\<close>

definition da_contains :: "unit32 list \<Rightarrow> (string \<Rightarrow> int option) \<Rightarrow> bool" where
  "da_contains arr m \<longleftrightarrow>
     (\<forall>key. no_nul key \<longrightarrow> exactMatchSearch arr key 0 0 =
        Inr (case m key of None \<Rightarrow> (-1, 0) | Some v \<Rightarrow> (v, length key)))"

lemma exact_loop_append:
  "exact_loop arr (a @ b) pos u =
     (case exact_loop arr a pos u of
        Inl e \<Rightarrow> Inl e
      | Inr None \<Rightarrow> Inr None
      | Inr (Some (pos', u')) \<Rightarrow> exact_loop arr b pos' u')"
  by (induction a arbitrary: pos u) (auto simp: Let_def split: sum.splits)

lemma traverse_loop_exact:
  "(case traverse_loop arr cs pos u kp of
      Inl e \<Rightarrow> Inl e
    | Inr (False, p, u', k) \<Rightarrow> Inr None
    | Inr (True, p, u', k) \<Rightarrow> Inr (Some (p, u'))) = exact_loop arr cs pos u"
  by (induction cs arbitrary: pos u kp) (auto simp: Let_def split: sum.splits)

text \<open>\<open>traverse\<close> from the start of the key agrees with \<open>exactMatchSearch\<close>.\<close>

lemma traverse_exact:
  "(case traverse arr key pos 0 len of Inl e \<Rightarrow> Inl e | Inr (v, p, k) \<Rightarrow> Inr (if v = -2 then -1 else v)) =
   (case exactMatchSearch arr key len pos of Inl e \<Rightarrow> Inl e | Inr (v, n) \<Rightarrow> Inr v)"
proof (cases "unit_at arr pos")
  case (Inr u)
  have nonneg: "0 \<le> unit_value x" for x by (simp add: unit_value_def)
  have "unit_value x \<noteq> -2" for x using nonneg [of x] by linarith
  then show ?thesis
    using traverse_loop_exact [of arr "search_key key len" pos u 0, symmetric]
    by (auto simp: traverse_def exactMatchSearch_def Inr split: sum.splits bool.splits prod.splits option.splits)
qed (simp add: traverse_def exactMatchSearch_def)

subsection \<open>commonPrefixSearch finds the prefixes exactMatchSearch accepts\<close>

definition leaf_hit :: "unit32 list \<Rightarrow> unit32 \<Rightarrow> unit32 \<Rightarrow> string \<Rightarrow> nat \<Rightarrow> (int \<times> nat) list" where
  "leaf_hit arr pos u key n =
     (case exact_loop arr key pos u of
        Inr (Some (p, u')) \<Rightarrow>
          (if has_leaf u'
           then (case unit_at arr (p XOR unit_offset u') of Inr leaf \<Rightarrow> [(unit_value leaf, n)] | Inl e \<Rightarrow> [])
           else [])
      | _ \<Rightarrow> [])"

lemma prefix_loop_mono:
  "prefix_loop arr cs i pos max_num res = Inr (cnt, rs) \<Longrightarrow> fst res \<le> cnt"
proof (induction cs arbitrary: i pos res)
  case (Cons c cs)
  from Cons.prems show ?case
    by (auto simp: Let_def split: sum.splits if_splits dest!: Cons.IH)
qed simp

lemma concat_map_const_Nil: "concat (map (\<lambda>n. []) xs) = []"
  by (induction xs) auto

lemma upt_1_Suc: "[1..<Suc (Suc n)] = 1 # map Suc [1..<Suc n]"
  by (simp add: map_Suc_upt upt_conv_Cons del: upt_Suc)

lemma leaf_hit_Cons:
  assumes "unit_at arr (pos XOR (unit_offset u XOR uchar c)) = Inr u'" "unit_label u' = uchar c"
  shows "leaf_hit arr pos u (c # cs) n = leaf_hit arr (pos XOR (unit_offset u XOR uchar c)) u' cs n"
  using assms by (simp add: leaf_hit_def)

lemma leaf_hit_fail:
  assumes "unit_at arr (pos XOR (unit_offset u XOR uchar c)) = Inr u'" "unit_label u' \<noteq> uchar c"
  shows "leaf_hit arr pos u (c # cs) n = []"
  using assms by (simp add: leaf_hit_def)

lemma prefix_loop_hits:
  assumes "prefix_loop arr cs i (pos XOR unit_offset u) max_num res = Inr (cnt, rs)" "cnt \<le> max_num"
  shows "rs = snd res @ concat (map (\<lambda>n. leaf_hit arr pos u (take n cs) (i + n)) [1..<Suc (length cs)])"
  using assms(1)
proof (induction cs arbitrary: i pos u res)
  case (Cons c cs)
  let ?pos1 = "pos XOR (unit_offset u XOR uchar c)"
  have pos1: "(pos XOR unit_offset u) XOR uchar c = ?pos1" by (simp add: xor.assoc)
  obtain u' where u': "unit_at arr ?pos1 = Inr u'"
    using Cons.prems pos1 by (auto simp: Let_def split: sum.splits)
  let ?hits = "\<lambda>cs i pos u. concat (map (\<lambda>n. leaf_hit arr pos u (take n cs) (i + n)) [1..<Suc (length cs)])"
  show ?case
  proof (cases "unit_label u' = uchar c")
    case False
    with Cons.prems u' pos1 have "rs = snd res" by (auto simp: Let_def)
    moreover have "leaf_hit arr pos u (take n (c # cs)) (i + n) = []" if "1 \<le> n" for n
      using that leaf_hit_fail [OF u' False] by (cases n) auto
    then have "map (\<lambda>n. leaf_hit arr pos u (take n (c # cs)) (i + n)) [1..<Suc (length (c # cs))] =
        map (\<lambda>n. []) [1..<Suc (length (c # cs))]"
      by (intro map_cong) auto
    ultimately show ?thesis by (simp only: concat_map_const_Nil append_Nil2)
  next
    case True
    have split: "?hits (c # cs) i pos u = leaf_hit arr ?pos1 u' [] (i + 1) @ ?hits cs (i + 1) ?pos1 u'"
      by (simp only: length_Cons upt_1_Suc) (simp add: leaf_hit_Cons [OF u' True] comp_def del: upt_Suc)
    let ?next = "\<lambda>res. prefix_loop arr cs (i + 1) (?pos1 XOR unit_offset u') max_num res"
    have leaf: "leaf_hit arr ?pos1 u' [] (i + 1) = (if has_leaf u' then
        (case unit_at arr (?pos1 XOR unit_offset u') of Inr leaf \<Rightarrow> [(unit_value leaf, i + 1)] | Inl e \<Rightarrow> []) else [])"
      unfolding leaf_hit_def exact_loop.simps sum.case option.case prod.case ..
    consider "has_leaf u'" "fst res < max_num" | "has_leaf u'" "\<not> fst res < max_num" | "\<not> has_leaf u'" by blast
    then show ?thesis
    proof cases
      case 1
      then obtain lf where lf: "unit_at arr (?pos1 XOR unit_offset u') = Inr lf"
          "?next (fst res + 1, snd res @ [(unit_value lf, i + 1)]) = Inr (cnt, rs)"
        using Cons.prems u' pos1 True by (auto simp: Let_def split: sum.splits)
      from Cons.IH [OF lf(2)] lf(1) 1 show ?thesis unfolding split leaf by simp
    next
      case 2
      then have "?next (fst res + 1, snd res) = Inr (cnt, rs)"
        using Cons.prems u' pos1 True by (auto simp: Let_def)
      from prefix_loop_mono [OF this] 2 assms(2) show ?thesis by simp
    next
      case 3
      then have "?next res = Inr (cnt, rs)"
        using Cons.prems u' pos1 True by (auto simp: Let_def)
      from Cons.IH [OF this] 3 show ?thesis unfolding split leaf by simp
    qed
  qed
qed simp

lemma leaf_hit_exact:
  assumes "no_nul key" "unit_at arr pos = Inr u"
  shows "leaf_hit arr pos u key n =
    (case exactMatchSearch arr key 0 pos of Inr (v, l) \<Rightarrow> if v = -1 then [] else [(v, n)] | Inl e \<Rightarrow> [])"
proof -
  have nonneg: "0 \<le> unit_value x" for x by (simp add: unit_value_def)
  have "unit_value x \<noteq> -1" for x using nonneg [of x] by linarith
  with assms show ?thesis
    by (auto simp: leaf_hit_def exactMatchSearch_def split: sum.splits option.splits)
qed

lemma no_nul_take: "no_nul s \<Longrightarrow> no_nul (take n s)"
  by (auto simp: no_nul_def dest: in_set_takeD)

lemma commonPrefixSearch_exact:
  assumes "commonPrefixSearch arr key max_num 0 pos = Inr (cnt, rs)" "cnt \<le> max_num" "no_nul key"
  shows "rs = concat (map (\<lambda>n. case exactMatchSearch arr (take n key) 0 pos of
      Inr (v, l) \<Rightarrow> if v = -1 then [] else [(v, n)] | Inl e \<Rightarrow> []) [1..<Suc (length key)])"
proof -
  obtain u where u: "unit_at arr pos = Inr u"
    "prefix_loop arr key 0 (pos XOR unit_offset u) max_num (0, []) = Inr (cnt, rs)"
    using assms(1,3) by (auto simp: commonPrefixSearch_def split: sum.splits)
  from prefix_loop_hits [OF u(2) assms(2)] show ?thesis
    by (simp add: leaf_hit_exact [OF no_nul_take [OF assms(3)] u(1)] del: upt_Suc)
qed

lemma unat_uchar: "unat (uchar c) = of_char c"
proof -
  have "uchar c = word_of_nat (of_char c)" by (simp only: uchar_def of_nat_of_char)
  moreover have "take_bit 32 (of_char c :: nat) = of_char c"
    by (rule take_bit_nat_eq_self) (rule less_trans [OF nat_of_char_less_256], simp)
  ultimately show ?thesis by (simp add: unsigned_of_nat)
qed

subsection \<open>An array with one key\<close>

text \<open>
  The array for the key \<open>a\<close> with the value 0: the root has offset 0, so that the unit of \<open>a\<close> is
  the one with index 97; its offset is 1, and the unit with index 96 holds the value.
\<close>

definition array_a :: "unit32 list" where
  "array_a = (replicate 256 0)[97 := 0x561, 96 := 0x80000000]"

subsection \<open>Properties of the searches\<close>

text \<open>
  C24: \<open>save\<close> and \<open>open\<close> are inverse: a non-empty array saved behind anything in a file is what
  \<open>open\<close> finds there, with the offset and the size given, whatever follows.
\<close>

theorem save_open_round_trip:
  assumes "arr \<noteq> []"
  shows "fst (da_save arr pre) = 0 \<and>
    da_open (snd (da_save arr pre) @ rest) (length pre) (4 * length arr) = Some arr"
  using da_open_save [OF assms refl, of pre rest] assms by (simp add: da_save_def)

theorem save_open_round_trip_witness:
  "fst (da_save array_a [NUL]) = 0 \<and>
    da_open (snd (da_save array_a [NUL]) @ [NUL]) (length [NUL]) (4 * length array_a) = Some array_a"
  by (rule save_open_round_trip) (simp add: array_a_def flip: length_0_conv)

text \<open>
  C23: \<open>commonPrefixSearch\<close> with enough room for the results finds exactly the prefixes of the key, from the
  shortest to the longest, that \<open>exactMatchSearch\<close> finds, with their values and lengths.
\<close>

theorem common_prefixes_are_exact_matches:
  assumes "commonPrefixSearch arr key max_num 0 pos = Inr (cnt, rs)" "cnt \<le> max_num" "no_nul key"
  shows "rs = concat (map (\<lambda>n. case exactMatchSearch arr (take n key) 0 pos of
      Inr (v, l) \<Rightarrow> if v = -1 then [] else [(v, n)] | Inl e \<Rightarrow> []) [1..<Suc (length key)])"
  by (rule commonPrefixSearch_exact [OF assms])

theorem common_prefixes_are_exact_matches_witness:
  "[(0, 1)] = concat (map (\<lambda>n. case exactMatchSearch array_a (take n ''ab'') 0 0 of
      Inr (v, l) \<Rightarrow> if v = -1 then [] else [(v, n)] | Inl e \<Rightarrow> []) [1..<Suc (length ''ab'')])"
  by (rule common_prefixes_are_exact_matches [where max_num = 4 and cnt = 1]) code_simp+

end
