(* ===== verification/Index_Da.thy ===== *)
theory Index_Da
  imports Double_Array Segmenter
begin

text \<open>
  The answer dictionary of \<^verbatim>\<open>src/index/index_da/Index_da.cpp\<close>: lines question, separator, answer
  are turned into a double array that maps a question to the position of its answers in a
  character buffer. \<open>build\<close> is the builder of the double array: sorted keys with their values to
  the array (\<^const>\<open>None\<close>: it throws); \<open>Built_Index\<close> gives it the one of \<open>Da_Builder\<close>. \<open>srt\<close> is \<^verbatim>\<open>std::sort\<close> with the comparison of the questions,
  which does not fix the order of equal ones. A \<^verbatim>\<open>std::map\<close> is an association list in the order of
  its keys.
\<close>

record st =
  st_query :: string
  st_extend :: string

fun map_set :: "string \<Rightarrow> 'v \<Rightarrow> (string \<times> 'v) list \<Rightarrow> (string \<times> 'v) list" where
  "map_set k v [] = [(k, v)]"
| "map_set k v ((k', v') # m) =
     (if str_less k k' then (k, v) # (k', v') # m
      else if k = k' then (k', v) # m
      else (k', v') # map_set k v m)"

definition MAXSTRLEN :: nat where
  "MAXSTRLEN = 10240"

definition MAXQUERYLEN :: nat where
  "MAXQUERYLEN = 5120"

text \<open>
  \<open>change2qj\<close>: the return value, and the string in \<open>buffer\<close> (\<^const>\<open>None\<close> when it was not
  allocated or not terminated).
\<close>

definition change2qj :: "platform \<Rightarrow> string \<Rightarrow> int \<times> string option" where
  "change2qj pf query =
     (if length query < 1 \<or> MAXQUERYLEN < length query then (-1, None)
      else case t2sgchar pf (c_str query) (MAXSTRLEN div 2) of
             (len, buffer) \<Rightarrow>
               if int (MAXSTRLEN div 2) \<le> len \<or> len < 0 then (-1, None)
               else (0, Some (c_str (take (nat len * 2) buffer))))"

text \<open>
  \<open>char_vect_push_\<close> appends a C string with its NUL and counts in \<open>end\<close>. (The test \<^verbatim>\<open>p == ""\<close>
  compares addresses and never succeeds.)
\<close>

definition char_vect_push :: "string \<Rightarrow> bytes \<times> int \<Rightarrow> bytes \<times> int" where
  "char_vect_push content s =
     (fst s @ c_str content @ [NUL], u32 (snd s + int (length (c_str content)) + 1))"

subsection \<open>The dictionary file\<close>

text \<open>
  The part the three \<open>OutputIndexFile\<close> functions share: a zero word, the size of the array, the
  array, the size of the buffer, the buffer, the length of the file so far. \<open>fp\<close> says whether
  the file can be opened. The results are the return value and the contents of the file.
\<close>

definition write_extend_file ::
    "((string \<times> int) list \<Rightarrow> unit32 list option) \<Rightarrow> bool \<Rightarrow> (string \<times> int) list \<Rightarrow> bytes
      \<Rightarrow> fault + (int \<times> bytes)" where
  "write_extend_file build fp dic_map char_vect =
     (case build (map (\<lambda>(k, v). (c_str k, i32 v)) dic_map) of
        None \<Rightarrow> Inl Thrown
      | Some arr \<Rightarrow>
          if \<not> fp then Inr (-1, [])
          else let da_size = u32 (int (length arr) * 4)
               in case da_save arr (enc_u32 0 @ enc_u32 da_size) of
                    (r, f1) \<Rightarrow>
                      if r \<noteq> 0 then Inr (-1, f1)
                      else let f2 = f1 @ enc_u32 (int (length char_vect)) @ char_vect
                           in Inr (0, f2 @ enc_u32 (int (length f2))))"

subsection \<open>OutputIndexFile: answers of equal questions are joined\<close>

record merge_state =
  ms_dic :: "(string \<times> int) list"
  ms_extend :: string
  ms_start :: int
  ms_end :: int
  ms_prequery :: string
  ms_chars :: bytes

definition merge_flush :: "merge_state \<Rightarrow> merge_state" where
  "merge_flush s =
     (case char_vect_push (ms_extend s) (ms_chars s, ms_end s) of
        (chars, e) \<Rightarrow> s\<lparr>ms_chars := chars, ms_end := e\<rparr>)"

definition merge_step :: "bool \<Rightarrow> st \<Rightarrow> merge_state \<Rightarrow> merge_state" where
  "merge_step is_last x s =
     (let query = st_query x;
          s1 = (if map_of (ms_dic s) (c_str query) \<noteq> None
                then s\<lparr>ms_extend := ms_extend s @ ''|||'' @ StringTrim (st_extend x)\<rparr>
                else let s' = (if ms_prequery s \<noteq> [] then (merge_flush s)\<lparr>ms_start := ms_end (merge_flush s)\<rparr>
                               else s)
                     in s'\<lparr>ms_dic := map_set query (ms_start s') (ms_dic s'),
                           ms_extend := StringTrim (st_extend x)\<rparr>);
          s2 = (if is_last then merge_flush s1 else s1)
      in s2\<lparr>ms_prequery := query\<rparr>)"

fun merge_loop :: "st list \<Rightarrow> merge_state \<Rightarrow> merge_state" where
  "merge_loop [] s = s"
| "merge_loop (x # xs) s = merge_loop xs (merge_step (xs = []) x s)"

definition merge_init :: merge_state where
  "merge_init = \<lparr>ms_dic = [], ms_extend = [], ms_start = 0, ms_end = 0, ms_prequery = [], ms_chars = []\<rparr>"

definition OutputIndexFile ::
    "((string \<times> int) list \<Rightarrow> unit32 list option) \<Rightarrow> (st list \<Rightarrow> st list) \<Rightarrow> bool \<Rightarrow> st list
      \<Rightarrow> fault + (int \<times> bytes)" where
  "OutputIndexFile build srt fp vect =
     (let s = merge_loop (srt vect) merge_init in write_extend_file build fp (ms_dic s) (ms_chars s))"

subsection \<open>OutputIndexFile with isUniq: the last answer wins\<close>

fun uniq_loop ::
    "platform \<Rightarrow> st list \<Rightarrow> (string \<times> int) list \<Rightarrow> int \<Rightarrow> bytes \<times> int
      \<Rightarrow> fault + ((string \<times> int) list \<times> bytes \<times> int)" where
  "uniq_loop pf [] dic start s = Inr (dic, s)"
| "uniq_loop pf (x # xs) dic start s =
     (case Segment pf (st_query x) of
        Inl e \<Rightarrow> Inl e
      | Inr (r, parts) \<Rightarrow>
          if length parts < 1 then uniq_loop pf xs dic start s
          else let query = foldl (\<lambda>a p. a @ p) [] parts;
                   s' = char_vect_push (st_extend x) s
               in uniq_loop pf xs (map_set query start dic) (snd s') s')"

definition OutputIndexFile_uniq ::
    "platform \<Rightarrow> ((string \<times> int) list \<Rightarrow> unit32 list option) \<Rightarrow> (st list \<Rightarrow> st list) \<Rightarrow> bool \<Rightarrow> st list
      \<Rightarrow> fault + (int \<times> bytes)" where
  "OutputIndexFile_uniq pf build srt fp vect =
     (case uniq_loop pf (srt vect) [] 0 ([], 0) of
        Inl e \<Rightarrow> Inl e
      | Inr (dic, chars, e) \<Rightarrow> write_extend_file build fp dic chars)"

text \<open>
  \<open>OutputIndexFile_common\<close> differs in the next position: it is counted from the length of the
  answer, not from what was appended.
\<close>

fun common_loop ::
    "platform \<Rightarrow> st list \<Rightarrow> (string \<times> int) list \<Rightarrow> int \<Rightarrow> bytes \<times> int
      \<Rightarrow> fault + ((string \<times> int) list \<times> bytes \<times> int)" where
  "common_loop pf [] dic start s = Inr (dic, s)"
| "common_loop pf (x # xs) dic start s =
     (case Segment pf (st_query x) of
        Inl e \<Rightarrow> Inl e
      | Inr (r, parts) \<Rightarrow>
          if length parts < 1 then common_loop pf xs dic start s
          else common_loop pf xs (map_set (foldl (\<lambda>a p. a @ p) [] parts) start dic)
                 (u32 (start + int (length (st_extend x)) + 1)) (char_vect_push (st_extend x) s))"

definition OutputIndexFile_common ::
    "platform \<Rightarrow> ((string \<times> int) list \<Rightarrow> unit32 list option) \<Rightarrow> (st list \<Rightarrow> st list) \<Rightarrow> bool \<Rightarrow> st list
      \<Rightarrow> fault + (int \<times> bytes)" where
  "OutputIndexFile_common pf build srt fp vect =
     (case common_loop pf (srt vect) [] 0 ([], 0) of
        Inl e \<Rightarrow> Inl e
      | Inr (dic, chars, e) \<Rightarrow> write_extend_file build fp dic chars)"

subsection \<open>MakeIndex and LoadIndex\<close>

definition da_line :: "platform \<Rightarrow> string \<Rightarrow> fault + st option" where
  "da_line pf line =
     (case split_sam [] (StringTrim line) ''##_##'' of
        None \<Rightarrow> Inl Diverges
      | Some (r, parts) \<Rightarrow>
          if length parts < 2 then Inr None
          else let query = StringTrim (parts ! 0); extend = StringTrim (parts ! 1)
               in if length query < 1 \<or> MAXQUERYLEN < length query then Inr None
                  else case change2qj pf (c_str query) of
                         (r, None) \<Rightarrow> Inl Uninitialised
                       | (r, Some gQuery) \<Rightarrow> Inr (Some \<lparr>st_query = gQuery, st_extend = extend\<rparr>))"

fun da_lines :: "platform \<Rightarrow> string list \<Rightarrow> st list \<Rightarrow> fault + st list" where
  "da_lines pf [] vect = Inr vect"
| "da_lines pf (l # ls) vect =
     (case da_line pf l of
        Inl e \<Rightarrow> Inl e
      | Inr None \<Rightarrow> da_lines pf ls vect
      | Inr (Some v) \<Rightarrow> da_lines pf ls (vect @ [v]))"

text \<open>The return value of \<open>OutputIndexFile\<close> is not looked at.\<close>

definition MakeIndex_tag ::
    "platform \<Rightarrow> ((string \<times> int) list \<Rightarrow> unit32 list option) \<Rightarrow> (st list \<Rightarrow> st list) \<Rightarrow> bytes option
      \<Rightarrow> bool \<Rightarrow> string \<Rightarrow> fault + (int \<times> bytes)" where
  "MakeIndex_tag pf build srt fp_in fp_out tag =
     (case fp_in of
        None \<Rightarrow> Inr (-1, [])
      | Some f \<Rightarrow>
          (case da_lines pf (getlines f) [] of
             Inl e \<Rightarrow> Inl e
           | Inr vect \<Rightarrow>
               (case (if c_str tag = ''uniq'' then OutputIndexFile_uniq pf build srt fp_out vect
                      else OutputIndexFile build srt fp_out vect) of
                  Inl e \<Rightarrow> Inl e
                | Inr (r, out) \<Rightarrow> Inr (0, out))))"

text \<open>
  \<open>LoadIndex\<close> for this file: the return value, the array if it was read, the buffer (after a short
  read the bytes that were there) and its length if they were read. The first word is skipped
  unchecked. A size of 0 makes \<open>open\<close> read the whole rest of the file.
\<close>

definition LoadIndex_da ::
    "bytes option \<Rightarrow> int \<times> unit32 list option \<times> bytes option \<times> int option" where
  "LoadIndex_da fp =
     (case fp of
        None \<Rightarrow> (-1, None, None, None)
      | Some f \<Rightarrow>
          (case fread_item 4 dec_u32 (drop 4 f) of
             None \<Rightarrow> (-1, None, None, None)
           | Some (da_size, f1) \<Rightarrow>
               (case da_open f 8 (nat da_size) of
                  None \<Rightarrow> (-1, None, None, None)
                | Some arr \<Rightarrow>
                    (case fread_item 4 dec_u32 (drop (8 + nat da_size) f) of
                       None \<Rightarrow> (-1, Some arr, None, None)
                     | Some (n, f2) \<Rightarrow>
                         (case fread_items 1 dec_char (nat n) f2 of
                            None \<Rightarrow> (-1, Some arr, Some f2, Some n)
                          | Some (buf, f3) \<Rightarrow> (0, Some arr, Some buf, Some n))))))"

section \<open>Looking up\<close>

text \<open>\<^verbatim>\<open>DA_SEARCH\<close> of \<^verbatim>\<open>src/da_search/Da_Search.cpp\<close>.\<close>

record da_search =
  DaSearch :: "unit32 list option"
  Search_Buf :: "bytes option"
  Search_Buf_len :: int

definition LoadDAs :: "bytes option \<Rightarrow> da_search \<Rightarrow> int \<times> da_search" where
  "LoadDAs fp ds =
     (case LoadIndex_da fp of
        (r, arr, buf, n) \<Rightarrow>
          (if r = -1 then -1 else 0,
           ds\<lparr>DaSearch := Some (case arr of None \<Rightarrow> [] | Some a \<Rightarrow> a),
              Search_Buf := (case buf of None \<Rightarrow> Search_Buf ds | Some b \<Rightarrow> Some b),
              Search_Buf_len := (case n of None \<Rightarrow> Search_Buf_len ds | Some m \<Rightarrow> m)\<rparr>))"

definition DA_Search ::
    "da_search \<Rightarrow> string \<Rightarrow> (string \<Rightarrow> string option) \<Rightarrow> fault + (int \<times> (string \<Rightarrow> string option))" where
  "DA_Search ds dest_norm index_text =
     (case DaSearch ds of
        None \<Rightarrow> Inr (-1, index_text)
      | Some arr \<Rightarrow>
          (case exactMatchSearch arr (c_str dest_norm) 0 0 of
             Inl e \<Rightarrow> Inl e
           | Inr (ret, len) \<Rightarrow>
               if -1 < ret \<and> ret < Search_Buf_len ds
               then (case Search_Buf ds of
                       None \<Rightarrow> Inl Null_deref
                     | Some buf \<Rightarrow>
                         if readable buf ret
                         then Inr (0, index_text(''da'' \<mapsto> c_str_at buf (nat ret)))
                         else Inl Out_of_bounds)
               else Inr (0, index_text)))"

definition GetIndexResults_da ::
    "platform \<Rightarrow> da_search \<Rightarrow> string \<Rightarrow> fault + (int \<times> (string \<Rightarrow> string option))" where
  "GetIndexResults_da pf ds query =
     (case Segment pf query of
        Inl e \<Rightarrow> Inl e
      | Inr (r, parts) \<Rightarrow>
          if length parts < 1 then Inr (0, Map.empty)
          else (case DA_Search ds (foldl (\<lambda>a p. a @ p) [] parts) Map.empty of
                  Inl e \<Rightarrow> Inl e
                | Inr (r', m) \<Rightarrow> Inr (0, m)))"

text \<open>
  \<open>AbstractInfo\<close> cuts the values of three labels out of a text. \<^verbatim>\<open>find\<close> yields \<^verbatim>\<open>npos\<close>, \<open>-1\<close> as an
  \<^verbatim>\<open>int\<close>; the labels are looked for independently of one another.
\<close>

definition find_int :: "string \<Rightarrow> string \<Rightarrow> int" where
  "find_int s pat = (case str_find s pat 0 of None \<Rightarrow> -1 | Some i \<Rightarrow> i32 (int i))"

definition AbstractInfo :: "string \<Rightarrow> string \<Rightarrow> string \<Rightarrow> string \<Rightarrow> int \<times> string \<times> string \<times> string" where
  "AbstractInfo values singer song album =
     (let loc_song = find_int values ''song]:'';
          loc_album = find_int values ''[album]:'';
          loc_singer = find_int values ''[singer]:'';
          loc_lrc = find_int values ''[lrc]:'';
          song' = (if loc_song \<noteq> -1 \<and> loc_song + 6 < loc_album
                   then substr values (nat (loc_song + 6)) (nat (loc_album - loc_song - 6)) else song);
          album' = (if loc_album \<noteq> -1 \<and> loc_album + 8 < loc_singer
                    then substr values (nat (loc_album + 8)) (nat (loc_singer - loc_album - 8)) else album);
          singer' = (if loc_singer \<noteq> -1 \<and> loc_singer + 9 < loc_lrc
                     then substr values (nat (loc_singer + 9)) (nat (loc_lrc - loc_singer - 9)) else singer)
      in (if 20 < length singer' then -1 else 0, singer', song', album'))"

section \<open>Properties\<close>

lemma map_set_keys: "set (map fst (map_set k v m)) = insert k (set (map fst m))"
  by (induction k v m rule: map_set.induct) auto

lemma map_set_sorted:
  "sorted_wrt str_less (map fst m) \<Longrightarrow> sorted_wrt str_less (map fst (map_set k v m))"
proof (induction k v m rule: map_set.induct)
  case (2 k v k' v' m)
  show ?case
  proof (cases "str_less k k' \<or> k = k'")
    case True
    with 2 show ?thesis by (auto dest: str_less_trans)
  next
    case False
    then have "str_less k' k" using str_less_linear by blast
    with False 2 map_set_keys [of k v m] show ?thesis by auto
  qed
qed simp

lemma map_of_map_set: "map_of (map_set k v m) = (map_of m)(k \<mapsto> v)"
  by (induction k v m rule: map_set.induct) (auto simp: fun_eq_iff)

subsection \<open>The joined answers\<close>

definition texts :: "(string \<times> string) list \<Rightarrow> bytes" where
  "texts gs = concat (map (\<lambda>g. snd g @ [NUL]) gs)"

fun offsets :: "nat \<Rightarrow> (string \<times> string) list \<Rightarrow> (string \<times> int) list" where
  "offsets b [] = []"
| "offsets b ((q, t) # gs) = (q, int b) # offsets (b + length t + 1) gs"

fun merge_groups :: "string \<Rightarrow> string \<Rightarrow> st list \<Rightarrow> (string \<times> string) list" where
  "merge_groups q t [] = [(q, t)]"
| "merge_groups q t (x # xs) =
     (if st_query x = q then merge_groups q (t @ ''|||'' @ StringTrim (st_extend x)) xs
      else (q, t) # merge_groups (st_query x) (StringTrim (st_extend x)) xs)"

lemma texts_simps [simp]:
  "texts [] = []" "texts (g # gs) = snd g @ NUL # texts gs" "texts (gs @ hs) = texts gs @ texts hs"
  by (simp_all add: texts_def)

lemma offsets_append: "offsets b (gs @ hs) = offsets b gs @ offsets (b + length (texts gs)) hs"
  by (induction b gs rule: offsets.induct) (auto simp: algebra_simps)

lemma map_fst_offsets: "map fst (offsets b gs) = map fst gs"
  by (induction b gs rule: offsets.induct) auto

lemma offsets_text:
  assumes "map_of (offsets (length pre) gs) k = Some v" "list_all (\<lambda>g. no_nul (snd g)) gs"
  shows "\<exists>t. map_of gs k = Some t \<and> c_str_at (pre @ texts gs) (nat v) = t \<and>
    readable (pre @ texts gs) v \<and> v < int (length (pre @ texts gs))"
  using assms
proof (induction "length pre" gs arbitrary: pre rule: offsets.induct)
  case (2 q t gs)
  show ?case
  proof (cases "q = k")
    case True
    with 2 show ?thesis by (auto simp: c_str_at_def readable_def)
  next
    case False
    from "2.hyps" [of "pre @ t @ [NUL]"] False "2.prems" show ?thesis by simp
  qed
qed simp

definition query_le :: "st \<Rightarrow> st \<Rightarrow> bool" where
  "query_le a b \<longleftrightarrow> \<not> str_less (st_query b) (st_query a)"

definition st_ok :: "st \<Rightarrow> bool" where
  "st_ok x \<longleftrightarrow> st_query x \<noteq> [] \<and> no_nul (st_query x) \<and> no_nul (st_extend x)"

definition merging :: "(string \<times> string) list \<Rightarrow> string \<Rightarrow> string \<Rightarrow> merge_state \<Rightarrow> bool" where
  "merging gs q t s \<longleftrightarrow> ms_prequery s = q \<and> q \<noteq> [] \<and> ms_extend s = t \<and> no_nul t \<and>
     ms_chars s = texts gs \<and> ms_end s = int (length (texts gs)) \<and>
     sorted_wrt str_less (map fst (ms_dic s)) \<and>
     map_of (ms_dic s) = map_of (offsets 0 (gs @ [(q, t)])) \<and>
     (\<forall>g \<in> set gs. str_less (fst g) q)"

definition merged :: "(string \<times> string) list \<Rightarrow> merge_state \<Rightarrow> bool" where
  "merged gs s \<longleftrightarrow> ms_chars s = texts gs \<and> map_of (ms_dic s) = map_of (offsets 0 gs) \<and>
     sorted_wrt str_less (map fst (ms_dic s))"

lemma merge_flush_simps [simp]:
  "ms_dic (merge_flush s) = ms_dic s" "ms_extend (merge_flush s) = ms_extend s"
  "ms_prequery (merge_flush s) = ms_prequery s"
  "ms_chars (merge_flush s) = ms_chars s @ c_str (ms_extend s) @ [NUL]"
  "ms_end (merge_flush s) = u32 (ms_end s + int (length (c_str (ms_extend s))) + 1)"
  by (simp_all add: merge_flush_def char_vect_push_def)

lemma merge_flush_merged:
  "merging gs q t s \<Longrightarrow> merged (gs @ [(q, t)]) (merge_flush s\<lparr>ms_prequery := p\<rparr>)"
  by (simp add: merging_def merged_def)

lemma merge_step_same:
  assumes m: "merging gs q t s" and x: "st_query x = q" "st_ok x"
  shows "merging gs q (t @ ''|||'' @ StringTrim (st_extend x)) (merge_step False x s)"
    and "merged (gs @ [(q, t @ ''|||'' @ StringTrim (st_extend x))]) (merge_step True x s)"
proof -
  have q: "c_str q = q" using x by (auto simp: st_ok_def)
  have nt: "no_nul (StringTrim (st_extend x))" using x no_nul_StringTrim by (simp add: st_ok_def)
  have keys: "map_of (offsets 0 (gs @ [(q, t')])) = map_of (offsets 0 (gs @ [(q, t)]))" for t'
    by (simp add: offsets_append)
  have "map_of (ms_dic s) q \<noteq> None"
    using m by (simp add: merging_def map_of_eq_None_iff offsets_append)
  then have step: "merge_step l x s = (let s1 = s\<lparr>ms_extend := ms_extend s @ ''|||'' @ StringTrim (st_extend x)\<rparr>
      in (if l then merge_flush s1 else s1)\<lparr>ms_prequery := q\<rparr>)" for l
    using x q by (simp add: merge_step_def Let_def)
  let ?s1 = "s\<lparr>ms_extend := ms_extend s @ ''|||'' @ StringTrim (st_extend x)\<rparr>"
  have 1: "merging gs q (t @ ''|||'' @ StringTrim (st_extend x)) ?s1"
    using m nt keys [of "t @ ''|||'' @ StringTrim (st_extend x)", symmetric] unfolding merging_def
    by simp
  then show "merging gs q (t @ ''|||'' @ StringTrim (st_extend x)) (merge_step False x s)"
    by (simp add: step Let_def merging_def)
  show "merged (gs @ [(q, t @ ''|||'' @ StringTrim (st_extend x))]) (merge_step True x s)"
    using merge_flush_merged [OF 1, of q] by (simp add: step Let_def)
qed

lemma merge_step_new:
  assumes m: "merging gs q t s" and x: "str_less q (st_query x)" "st_ok x"
    and len: "length (texts (gs @ [(q, t)])) < 4294967296"
  shows "merging (gs @ [(q, t)]) (st_query x) (StringTrim (st_extend x)) (merge_step False x s)"
    and "merged (gs @ [(q, t), (st_query x, StringTrim (st_extend x))]) (merge_step True x s)"
proof -
  let ?q = "st_query x" and ?t = "StringTrim (st_extend x)"
  have q: "c_str ?q = ?q" "?q \<noteq> []" using x by (auto simp: st_ok_def)
  have nt: "no_nul ?t" using x no_nul_StringTrim by (simp add: st_ok_def)
  have less: "str_less (fst g) ?q" if "g \<in> set (gs @ [(q, t)])" for g
    using m x(1) that by (auto simp: merging_def intro: str_less_trans)
  have "?q \<notin> set (map fst (gs @ [(q, t)]))"
  proof
    assume "?q \<in> set (map fst (gs @ [(q, t)]))"
    then obtain g where "g \<in> set (gs @ [(q, t)])" "?q = fst g" unfolding set_map by blast
    with less [of g] show False by simp
  qed
  then have fresh: "map_of (offsets 0 (gs @ [(q, t)])) ?q = None"
    unfolding map_of_eq_None_iff set_map [symmetric] map_fst_offsets .
  then have none: "map_of (ms_dic s) (c_str ?q) = None" using m by (simp add: q merging_def)
  let ?f = "merge_flush s"
  have e: "ms_end ?f = int (length (texts (gs @ [(q, t)])))"
    using m len by (simp add: merging_def in_u32_def)
  let ?s1 = "?f\<lparr>ms_start := ms_end ?f, ms_dic := map_set ?q (ms_end ?f) (ms_dic s), ms_extend := ?t,
      ms_prequery := ?q\<rparr>"
  have step: "merge_step l x s = (if l then merge_flush ?s1 else ?s1)\<lparr>ms_prequery := ?q\<rparr>" for l
    using m none by (simp add: merge_step_def Let_def merging_def merge_flush_def split: prod.splits)
  have dic: "map_of (map_set ?q (ms_end ?f) (ms_dic s)) = map_of (offsets 0 ((gs @ [(q, t)]) @ [(?q, ?t)]))"
  proof
    fix k
    have "map_of (ms_dic s) = map_of (offsets 0 (gs @ [(q, t)]))" using m by (simp add: merging_def)
    moreover have "k \<noteq> ?q \<Longrightarrow> map_of (offsets 0 ((gs @ [(q, t)]) @ [(?q, ?t)])) k = map_of (offsets 0 (gs @ [(q, t)])) k"
      unfolding offsets_append [of 0 "gs @ [(q, t)]"] by (simp add: map_add_def split: option.splits)
    moreover have "map_of (offsets 0 ((gs @ [(q, t)]) @ [(?q, ?t)])) ?q = Some (int (length (texts (gs @ [(q, t)]))))"
      unfolding offsets_append [of 0 "gs @ [(q, t)]"] by (simp add: map_add_def fresh)
    ultimately show "map_of (map_set ?q (ms_end ?f) (ms_dic s)) k =
        map_of (offsets 0 ((gs @ [(q, t)]) @ [(?q, ?t)])) k"
      unfolding map_of_map_set e by (cases "k = ?q") simp_all
  qed
  have 1: "merging (gs @ [(q, t)]) ?q ?t ?s1"
    using m q nt dic e less by (simp add: merging_def map_set_sorted)
  then show "merging (gs @ [(q, t)]) ?q ?t (merge_step False x s)" by (simp add: step)
  show "merged (gs @ [(q, t), (?q, ?t)]) (merge_step True x s)"
    using merge_flush_merged [OF 1, of ?q] by (simp add: step)
qed

lemma length_texts_merge_groups: "length (texts [(q, t)]) \<le> length (texts (merge_groups q t xs))"
proof (induction q t xs rule: merge_groups.induct)
  case (2 q t x xs)
  then show ?case by (cases "st_query x = q") auto
qed simp

lemma merge_loop_groups:
  assumes "xs \<noteq> []" "merging gs q t s" "list_all st_ok xs" "sorted_wrt query_le xs"
    and "\<forall>x \<in> set xs. \<not> str_less (st_query x) q"
    and "length (texts (gs @ merge_groups q t xs)) < 4294967296"
  shows "merged (gs @ merge_groups q t xs) (merge_loop xs s)"
  using assms
proof (induction xs arbitrary: gs q t s)
  case (Cons x xs)
  have x: "st_ok x" "list_all st_ok xs" "sorted_wrt query_le xs" using Cons.prems by auto
  let ?t = "t @ ''|||'' @ StringTrim (st_extend x)"
  show ?case
  proof (cases "st_query x = q")
    case True
    note same = merge_step_same [OF Cons.prems(2) True x(1)]
    show ?thesis
    proof (cases "xs = []")
      case True
      with same \<open>st_query x = q\<close> show ?thesis by simp
    next
      case False
      with True Cons.prems Cons.IH [OF False same(1) x(2,3)] show ?thesis by simp
    qed
  next
    case False
    with Cons.prems have less: "str_less q (st_query x)" using str_less_linear by fastforce
    have "length (texts (gs @ [(q, t)])) < 4294967296"
      using Cons.prems(6) length_texts_merge_groups [of q t "x # xs"] by simp
    note new = merge_step_new [OF Cons.prems(2) less x(1) this]
    have later: "\<forall>y \<in> set xs. \<not> str_less (st_query y) (st_query x)"
      using Cons.prems(4) by (auto simp: query_le_def)
    show ?thesis
    proof (cases "xs = []")
      case True
      with new False show ?thesis by simp
    next
      case xs: False
      with False Cons.prems Cons.IH [OF xs new(1) x(2,3) later] show ?thesis by simp
    qed
  qed
qed simp

lemma merge_loop_merged:
  assumes "list_all st_ok (x # xs)" "sorted_wrt query_le (x # xs)"
    and len: "length (texts (merge_groups (st_query x) (StringTrim (st_extend x)) xs)) < 4294967296"
  shows "merged (merge_groups (st_query x) (StringTrim (st_extend x)) xs) (merge_loop (x # xs) merge_init)"
proof -
  let ?q = "st_query x" and ?t = "StringTrim (st_extend x)"
  have x: "?q \<noteq> []" "no_nul ?q" "no_nul ?t" using assms(1) no_nul_StringTrim by (auto simp: st_ok_def)
  let ?s = "merge_init\<lparr>ms_dic := [(?q, 0)], ms_extend := ?t, ms_prequery := ?q\<rparr>"
  have m: "merging [] ?q ?t ?s" using x by (simp add: merging_def merge_init_def)
  have step: "merge_step l x merge_init = (if l then merge_flush ?s else ?s)" for l
    using x by (simp add: merge_step_def merge_init_def Let_def merge_flush_def char_vect_push_def)
  show ?thesis
  proof (cases "xs = []")
    case True
    with merge_flush_merged [OF m, of ?q] show ?thesis by (simp add: step merge_flush_def char_vect_push_def merged_def)
  next
    case False
    with assms merge_loop_groups [OF False m] show ?thesis
      by (simp add: step query_le_def)
  qed
qed

text \<open>The answers of a question, and that the groups join exactly these.\<close>

definition answers_for :: "string \<Rightarrow> st list \<Rightarrow> string list" where
  "answers_for q xs = map (\<lambda>x. StringTrim (st_extend x)) (filter (\<lambda>x. st_query x = q) xs)"

lemma merge_groups_answers:
  assumes "sorted_wrt query_le xs" "\<forall>x \<in> set xs. \<not> str_less (st_query x) q" "ps \<noteq> []"
  shows "map_of (merge_groups q (join_with ''|||'' ps) xs) k =
    (if k = q then Some (join_with ''|||'' (ps @ answers_for q xs))
     else if answers_for k xs = [] then None else Some (join_with ''|||'' (answers_for k xs)))"
  using assms
proof (induction xs arbitrary: q ps)
  case (Cons x xs)
  have later: "\<forall>y \<in> set xs. \<not> str_less (st_query y) (st_query x)"
    using Cons.prems(1) by (auto simp: query_le_def)
  have s: "sorted_wrt query_le xs" using Cons.prems(1) by simp
  show ?case
  proof (cases "st_query x = q")
    case True
    have "join_with ''|||'' ps @ ''|||'' @ StringTrim (st_extend x) = join_with ''|||'' (ps @ [StringTrim (st_extend x)])"
      using Cons.prems(3) by (simp add: join_with_snoc)
    with True Cons.IH [OF s, of q "ps @ [StringTrim (st_extend x)]"] Cons.prems show ?thesis
      by (simp add: answers_for_def)
  next
    case False
    then have less: "str_less q (st_query x)" using Cons.prems(2) str_less_linear by fastforce
    have none: "answers_for q (x # xs) = []"
    proof -
      have "st_query y \<noteq> q" if "y \<in> set (x # xs)" for y
        using that later less str_less_linear [of q "st_query y"]
        by (auto dest: str_less_trans str_less_asym)
      then show ?thesis by (auto simp: answers_for_def filter_empty_conv)
    qed
    have eq: "merge_groups q t (x # xs) = (q, t) # merge_groups (st_query x) (join_with ''|||'' [StringTrim (st_extend x)]) xs" for t
      using False by simp
    show ?thesis
      unfolding eq using Cons.IH [OF s later, of "[StringTrim (st_extend x)]"] none False
      by (auto simp: answers_for_def)
  qed
qed (simp add: answers_for_def)

subsection \<open>Writing, loading and looking up\<close>

lemma write_load_extend_file:
  assumes b: "build (map (\<lambda>(k, v). (c_str k, i32 v)) dic) = Some arr" and arr: "arr \<noteq> []"
    and len: "length arr * 4 < 4294967296" "length chars < 4294967296"
  shows "\<exists>out. write_extend_file build True dic chars = Inr (0, out) \<and>
    LoadIndex_da (Some out) = (0, Some arr, Some chars, Some (int (length chars)))"
proof -
  let ?n = "int (length arr) * 4"
  have u: "u32 ?n = ?n" "in_u32 ?n" using len(1) by (simp_all add: in_u32_def)
  define pre where "pre = enc_u32 0 @ enc_u32 ?n"
  define body where "body = enc_u32 (int (length chars)) @ chars"
  define f2 where "f2 = (pre @ da_bytes arr) @ body"
  define out where "out = f2 @ enc_u32 (int (length f2))"
  have w: "write_extend_file build True dic chars = Inr (0, out)"
    using b arr by (simp add: write_extend_file_def u da_save_def pre_def out_def f2_def body_def Let_def add.assoc)
  have dl: "length (da_bytes arr) = 4 * length arr"
    by (simp add: da_bytes_def cunit.length_fwrite)
  have lp: "length pre = 8" by (simp add: pre_def cu32.enc_length)
  let ?tail = "enc_u32 (int (length f2))"
  have out: "out = pre @ da_bytes arr @ body @ ?tail" by (simp add: out_def f2_def)
  have r1: "fread_item 4 dec_u32 (drop 4 out) = Some (?n, da_bytes arr @ body @ ?tail)"
    using u by (simp add: out pre_def cu32.enc_length cu32.fread_item_enc)
  have r2: "da_open out 8 (nat ?n) = Some arr"
    using da_open_save [OF arr lp, of "body @ ?tail"] by (simp add: out nat_mult_distrib mult.commute)
  have r3: "fread_item 4 dec_u32 (drop (8 + nat ?n) out) = Some (int (length chars), chars @ ?tail)"
    using len(2) by (simp add: out lp dl nat_mult_distrib body_def cu32.fread_item_enc in_u32_nat)
  have r4: "fread_items 1 dec_char (length chars) (chars @ ?tail) = Some (chars, ?tail)"
    using cchar.fread_items_fwrite [of chars "length chars" ?tail] by (simp add: list_all_iff)
  show ?thesis
    using w r4 by (auto simp: LoadIndex_da_def r1 r2 r3 [simplified])
qed

lemma sorted_offsets_range:
  assumes "map_of dic k = Some v" "map_of dic = map_of (offsets 0 gs)" "list_all (\<lambda>g. no_nul (snd g)) gs"
    and "length (texts gs) < 2147483648"
  shows "0 \<le> v \<and> in_i32 v"
proof -
  from offsets_text [of "[]" gs k v] assms obtain t where
    "readable (texts gs) v" "v < int (length (texts gs))" by auto
  then show ?thesis using assms(4) by (auto simp: in_i32_def readable_def)
qed

lemma merge_groups_ok:
  assumes "list_all st_ok xs" "no_nul q" "no_nul t"
  shows "list_all (\<lambda>g. no_nul (fst g) \<and> no_nul (snd g)) (merge_groups q t xs)"
  using assms
  by (induction q t xs rule: merge_groups.induct) (auto simp: st_ok_def no_nul_StringTrim)

lemma length_merge_groups_le:
  "length (texts (merge_groups q t xs)) \<le> length t + 1 + (\<Sum>x \<leftarrow> xs. length (st_extend x) + 4)"
proof (induction q t xs rule: merge_groups.induct)
  case (2 q t x xs)
  then show ?case using length_StringTrim [of "st_extend x"] by (cases "st_query x = q") auto
qed simp

text \<open>
  With a builder whose array finds exactly the keys it was built from; \<open>Built_Index\<close> has the builder of the code.
\<close>

lemma OutputIndexFile_lookup:
  assumes ok: "list_all st_ok vect" "vect \<noteq> []"
    and srt: "mset (srt vect) = mset vect" "sorted_wrt query_le (srt vect)"
    and dic: "dic = ms_dic (merge_loop (srt vect) merge_init)"
    and b: "build dic = Some arr" and arr: "arr \<noteq> []" "length arr * 4 < 4294967296"
      "da_contains arr (map_of dic)"
    and len: "(\<Sum>x \<leftarrow> vect. length (st_extend x) + 4) < 2147483648"
  shows "\<exists>out. OutputIndexFile build srt True vect = Inr (0, out) \<and>
    (\<forall>ds. \<exists>ds'. LoadDAs (Some out) ds = (0, ds') \<and>
      (\<forall>q m. DA_Search ds' q m =
         Inr (0, if answers_for (c_str q) (srt vect) = [] then m
                 else m(''da'' \<mapsto> join_with ''|||'' (answers_for (c_str q) (srt vect))))))"
proof -
  obtain x xs where xs: "srt vect = x # xs" using srt(1) ok(2) by (cases "srt vect") auto
  let ?gs = "merge_groups (st_query x) (StringTrim (st_extend x)) xs"
  let ?s = "merge_loop (srt vect) merge_init"
  have "set (srt vect) = set vect" by (rule mset_eq_setD [OF srt(1)])
  then have ok': "list_all st_ok (x # xs)" using ok(1) xs by (simp add: list_all_iff)
  have "(\<Sum>y \<leftarrow> srt vect. length (st_extend y) + 4) = (\<Sum>y \<leftarrow> vect. length (st_extend y) + 4)"
    by (rule sum_list_mset [OF srt(1)])
  then have lt: "length (texts ?gs) < 2147483648"
    using length_merge_groups_le [of "st_query x" "StringTrim (st_extend x)" xs]
      length_StringTrim [of "st_extend x"] len by (simp add: xs)
  have m: "merged ?gs ?s"
    using merge_loop_merged [OF ok'] srt(2) lt by (simp add: xs)
  have nn: "list_all (\<lambda>g. no_nul (fst g) \<and> no_nul (snd g)) ?gs"
    using ok' by (intro merge_groups_ok) (auto simp: st_ok_def no_nul_StringTrim)
  then have nn2: "list_all (\<lambda>g. no_nul (snd g)) ?gs" by (auto simp: list_all_iff)
  have chars: "ms_chars ?s = texts ?gs" and dm: "map_of dic = map_of (offsets 0 ?gs)"
    and ds: "sorted_wrt str_less (map fst dic)" using m by (simp_all add: merged_def dic)
  have "(case e of (k, v) \<Rightarrow> (c_str k, i32 v)) = e" if "e \<in> set dic" for e
  proof -
    obtain k v where e: "e = (k, v)" by force
    have d: "distinct (map fst dic)"
      using ds by (induction dic) (auto dest: str_less_neq)
    then have kv: "map_of dic k = Some v" using that e by simp
    then have "k \<in> fst ` set (offsets 0 ?gs)" unfolding dm by (metis map_of_eq_None_iff option.distinct(1))
    then have "k \<in> set (map fst ?gs)" using map_fst_offsets [of 0 ?gs] by (metis set_map)
    with nn have "no_nul k" by (auto simp: list_all_iff)
    moreover have "in_i32 v" using sorted_offsets_range [OF kv dm nn2 lt] by simp
    ultimately show ?thesis by (simp add: e)
  qed
  then have keys: "map (\<lambda>(k, v). (c_str k, i32 v)) dic = dic" by (simp add: map_idI)
  from write_load_extend_file [of build dic arr "texts ?gs"] keys b arr lt obtain out where
    out: "write_extend_file build True dic (texts ?gs) = Inr (0, out)"
      "LoadIndex_da (Some out) = (0, Some arr, Some (texts ?gs), Some (int (length (texts ?gs))))" by auto
  have w: "OutputIndexFile build srt True vect = Inr (0, out)"
    using out(1) by (simp add: OutputIndexFile_def Let_def chars dic)
  have "\<exists>ds'. LoadDAs (Some out) ds = (0, ds') \<and>
      (\<forall>q m. DA_Search ds' q m =
         Inr (0, if answers_for (c_str q) (srt vect) = [] then m
                 else m(''da'' \<mapsto> join_with ''|||'' (answers_for (c_str q) (srt vect)))))" for ds
  proof (intro exI conjI allI)
    let ?ds = "ds\<lparr>DaSearch := Some arr, Search_Buf := Some (texts ?gs), Search_Buf_len := int (length (texts ?gs))\<rparr>"
    show "LoadDAs (Some out) ds = (0, ?ds)" by (simp add: LoadDAs_def out(2))
    fix q m
    let ?q = "c_str q"
    have g: "map_of ?gs ?q = (if answers_for ?q (srt vect) = [] then None
        else Some (join_with ''|||'' (answers_for ?q (srt vect))))"
    proof -
      have "\<forall>y \<in> set xs. \<not> str_less (st_query y) (st_query x)"
        using srt(2) by (auto simp: xs query_le_def)
      from merge_groups_answers [OF _ this, of "[StringTrim (st_extend x)]" ?q] srt(2)
      show ?thesis by (auto simp: xs answers_for_def)
    qed
    have e: "exactMatchSearch arr (c_str ?q) 0 0 = Inr (case map_of dic ?q of None \<Rightarrow> (-1, 0) | Some v \<Rightarrow> (v, length ?q))"
      using arr(3) by (simp add: da_contains_def)
    show "DA_Search ?ds q m = Inr (0, if answers_for ?q (srt vect) = [] then m
                 else m(''da'' \<mapsto> join_with ''|||'' (answers_for ?q (srt vect))))"
    proof (cases "map_of dic ?q")
      case None
      then have "?q \<notin> set (map fst ?gs)"
        unfolding dm map_of_eq_None_iff by (metis map_fst_offsets set_map)
      then have "map_of ?gs ?q = None" unfolding map_of_eq_None_iff by (metis set_map)
      with g None e show ?thesis by (simp add: DA_Search_def split: if_splits)
    next
      case (Some v)
      from offsets_text [of "[]" ?gs ?q v] Some dm nn2 obtain t where
        t: "map_of ?gs ?q = Some t" "c_str_at (texts ?gs) (nat v) = t" "readable (texts ?gs) v"
          "v < int (length (texts ?gs))" by auto
      then have "-1 < v" by (simp add: readable_def)
      with t g Some e show ?thesis by (auto simp: DA_Search_def split: if_splits)
    qed
  qed
  with w show ?thesis by blast
qed

end
