(* ===== verification/Uniq_Index.thy ===== *)
theory Uniq_Index
  imports Index_Da Doc_Answers
begin

text \<open>
  The dictionary made with the tag \<^verbatim>\<open>uniq\<close> (\<open>OutputIndexFile_uniq\<close> of
  \<^verbatim>\<open>src/index/index_da/Index_da.cpp\<close>): what is found in it after loading. The lines are sorted by their
  questions before they are stored, and of the lines whose questions have the same words
  the last one of the sorted vector wins (\<open>last_answer\<close>). In terms of the lines as they were read that is the
  answer to the greatest of these questions, whatever the order of the lines in the file;
  between lines with the same question the sort, which is not stable, decides. This is the
  specification \<open>greatest_answer\<close>.
\<close>

definition uniq_item :: "platform \<Rightarrow> st \<Rightarrow> (string \<times> string) list" where
  "uniq_item pf x =
     (case Segment pf (st_query x) of
        Inr (r, p # parts) \<Rightarrow> [(concat (p # parts), c_str (st_extend x))]
      | _ \<Rightarrow> [])"

definition uniq_items :: "platform \<Rightarrow> st list \<Rightarrow> (string \<times> string) list" where
  "uniq_items pf xs = concat (map (uniq_item pf) xs)"

definition last_answer :: "platform \<Rightarrow> st list \<Rightarrow> string \<Rightarrow> string option" where
  "last_answer pf xs = map_of (rev (uniq_items pf xs))"

text \<open>The words of the question of a line, put together; \<^const>\<open>None\<close> when it has none.\<close>

definition question_key :: "platform \<Rightarrow> st \<Rightarrow> string option" where
  "question_key pf x =
     (case Segment pf (st_query x) of
        Inl e \<Rightarrow> None
      | Inr (r, parts) \<Rightarrow> if parts = [] then None else Some (concat parts))"

text \<open>
  \<open>A\<close> answers for the lines \<open>xs\<close>: nothing for words no question has; otherwise the answer of a line
  with these words whose question no question with the same words exceeds.
\<close>

definition greatest_answer :: "platform \<Rightarrow> st list \<Rightarrow> (string \<Rightarrow> string option) \<Rightarrow> bool" where
  "greatest_answer pf xs A \<longleftrightarrow>
     (\<forall>k. case A k of
        None \<Rightarrow> \<forall>x \<in> set xs. question_key pf x \<noteq> Some k
      | Some t \<Rightarrow> \<exists>x \<in> set xs. question_key pf x = Some k \<and> t = c_str (st_extend x) \<and>
          (\<forall>y \<in> set xs. question_key pf y = Some k \<longrightarrow> query_le y x))"

lemma uniq_item_key:
  "uniq_item pf x = (case question_key pf x of None \<Rightarrow> [] | Some k \<Rightarrow> [(k, c_str (st_extend x))])"
  by (auto simp: uniq_item_def question_key_def split: sum.splits list.splits)

lemma uniq_items_snoc: "uniq_items pf (xs @ [x]) = uniq_items pf xs @ uniq_item pf x"
  by (simp add: uniq_items_def)

lemma last_answer_snoc:
  "last_answer pf (xs @ [x]) =
     (case question_key pf x of None \<Rightarrow> last_answer pf xs | Some k \<Rightarrow> (last_answer pf xs)(k \<mapsto> c_str (st_extend x)))"
  by (simp add: last_answer_def uniq_items_snoc uniq_item_key split: option.splits)

lemma last_answer_greatest:
  "sorted_wrt query_le xs \<Longrightarrow> greatest_answer pf xs (last_answer pf xs)"
proof (induction xs rule: rev_induct)
  case Nil
  then show ?case by (simp add: greatest_answer_def last_answer_def uniq_items_def)
next
  case (snoc x xs)
  then have le: "query_le y x" if "y \<in> set xs" for y using that by (simp add: sorted_wrt_append)
  have refl: "query_le x x" by (simp add: query_le_def)
  from snoc have g: "greatest_answer pf xs (last_answer pf xs)" by (simp add: sorted_wrt_append)
  show ?case
    unfolding greatest_answer_def
  proof
    fix k
    show "case last_answer pf (xs @ [x]) k of
        None \<Rightarrow> \<forall>y \<in> set (xs @ [x]). question_key pf y \<noteq> Some k
      | Some t \<Rightarrow> \<exists>y \<in> set (xs @ [x]). question_key pf y = Some k \<and> t = c_str (st_extend y) \<and>
          (\<forall>z \<in> set (xs @ [x]). question_key pf z = Some k \<longrightarrow> query_le z y)"
    proof (cases "question_key pf x = Some k")
      case True
      then show ?thesis using le refl by (auto simp: last_answer_snoc)
    next
      case False
      then have "last_answer pf (xs @ [x]) k = last_answer pf xs k"
        by (auto simp: last_answer_snoc split: option.splits)
      with False g [unfolded greatest_answer_def, rule_format, of k] show ?thesis
        by (auto split: option.splits)
    qed
  qed
qed

lemma greatest_answer_set: "set ys = set xs \<Longrightarrow> greatest_answer pf ys A = greatest_answer pf xs A"
  unfolding greatest_answer_def by (simp only:)

text \<open>What the dictionary answers after any sort in the order of the questions.\<close>

lemma sorted_answer_greatest:
  assumes "mset (srt vect) = mset vect" "sorted_wrt query_le (srt vect)"
  shows "greatest_answer pf vect (last_answer pf (srt vect))"
  using last_answer_greatest [OF assms(2), of pf] greatest_answer_set [OF mset_eq_setD [OF assms(1)]] by blast

lemma uniq_items_mset:
  assumes "mset xs = mset ys"
  shows "mset (uniq_items pf xs) = mset (uniq_items pf ys)"
proof -
  have "mset (uniq_items pf zs) = (\<Sum>x \<in># mset zs. mset (uniq_item pf x))" for zs
    by (induction zs) (simp_all add: uniq_items_def)
  with assms show ?thesis by simp
qed

subsection \<open>The positions of the last answers\<close>

lemma last_offset_text:
  assumes "map_of (rev (offsets 0 gs)) k = Some v" "list_all (\<lambda>g. no_nul (snd g)) gs"
  shows "\<exists>t. map_of (rev gs) k = Some t \<and> c_str_at (texts gs) (nat v) = t \<and>
    readable (texts gs) v \<and> v < int (length (texts gs))"
  using assms
proof (induction gs rule: rev_induct)
  case (snoc g gs)
  obtain q t where g: "g = (q, t)" by force
  show ?case
  proof (cases "q = k")
    case True
    with snoc.prems g have v: "v = int (length (texts gs))" and t: "no_nul t"
      by (auto simp: offsets_append)
    from c_str_at_append [OF t, of "texts gs" "[]"] True t show ?thesis
      by (simp add: g v readable_def)
  next
    case False
    with snoc g obtain t' where t': "map_of (rev gs) k = Some t'" "c_str_at (texts gs) (nat v) = t'"
      "readable (texts gs) v" "v < int (length (texts gs))" by (auto simp: offsets_append)
    with False g readable_append [OF t'(3), of "texts [g]"] show ?thesis by simp
  qed
qed simp

lemma last_offset_None: "map_of (rev (offsets b gs)) k = None \<longleftrightarrow> map_of (rev gs) k = None"
  unfolding map_of_eq_None_iff by (metis map_fst_offsets rev_map set_map set_rev)

definition uniq_inv :: "(string \<times> string) list \<Rightarrow> (string \<times> int) list \<Rightarrow> bool" where
  "uniq_inv gs dic \<longleftrightarrow> sorted_wrt str_less (map fst dic) \<and> map_of dic = map_of (rev (offsets 0 gs)) \<and>
     list_all (\<lambda>g. no_nul (fst g) \<and> no_nul (snd g)) gs"

lemma uniq_inv_step:
  assumes "uniq_inv gs dic" "no_nul q" "no_nul t"
  shows "uniq_inv (gs @ [(q, t)]) (map_set q (int (length (texts gs))) dic)"
  using assms by (simp add: uniq_inv_def map_of_map_set map_set_sorted offsets_append)

lemma uniq_loop_inv:
  assumes "list_all (\<lambda>x. \<exists>r parts. Segment pf (st_query x) = Inr (r, parts)) xs"
    and "uniq_inv gs dic" "length (texts (gs @ uniq_items pf xs)) < 4294967296"
  shows "\<exists>dic'. uniq_loop pf xs dic (int (length (texts gs))) (texts gs, int (length (texts gs))) =
      Inr (dic', texts (gs @ uniq_items pf xs), int (length (texts (gs @ uniq_items pf xs)))) \<and>
    uniq_inv (gs @ uniq_items pf xs) dic'"
  using assms
proof (induction xs arbitrary: gs dic)
  case (Cons x xs)
  obtain r parts where s: "Segment pf (st_query x) = Inr (r, parts)" using Cons.prems(1) by auto
  show ?case
  proof (cases parts)
    case Nil
    with Cons s show ?thesis by (simp add: uniq_items_def uniq_item_def)
  next
    case (Cons p ps)
    let ?q = "concat (p # ps)" and ?t = "c_str (st_extend x)"
    have it: "uniq_items pf (x # xs) = (?q, ?t) # uniq_items pf xs"
      by (simp add: uniq_items_def uniq_item_def s Cons)
    have q: "no_nul ?q" using Segment_words_no_nul [OF s] Cons no_nul_concat by blast
    have len: "length (texts ((gs @ [(?q, ?t)]) @ uniq_items pf xs)) < 4294967296"
      using Cons.prems(3) unfolding it by simp
    then have "in_u32 (int (length (texts gs)) + int (length ?t) + 1)" by (simp add: in_u32_def)
    then have push: "char_vect_push (st_extend x) (texts gs, int (length (texts gs))) =
        (texts (gs @ [(?q, ?t)]), int (length (texts (gs @ [(?q, ?t)]))))"
      by (simp add: char_vect_push_def)
    have f: "foldl (\<lambda>a p. a @ p) [] parts = ?q" by (simp add: Cons foldl_append_concat)
    have u: "uniq_inv (gs @ [(?q, ?t)]) (map_set ?q (int (length (texts gs))) dic)"
      by (rule uniq_inv_step [OF Cons.prems(2) q]) simp
    have "\<not> length parts < 1" by (simp add: Cons)
    from Cons.IH [OF _ u len] Cons.prems(1) show ?thesis
      unfolding uniq_loop.simps s it sum.case prod.case Let_def f push if_not_P [OF \<open>\<not> length parts < 1\<close>]
      by (simp del: texts_simps concat.simps)
  qed
qed (simp add: uniq_items_def)

subsection \<open>Saving, loading, looking up\<close>

text \<open>
  What a loaded dictionary answers: the answers \<open>A\<close> and nothing else.
\<close>

definition da_answers :: "da_search \<Rightarrow> (string \<Rightarrow> string option) \<Rightarrow> bool" where
  "da_answers ds A \<longleftrightarrow> (\<forall>q m. DA_Search ds q m =
     Inr (0, case A (c_str q) of None \<Rightarrow> m | Some t \<Rightarrow> m(''da'' \<mapsto> t)))"

lemma sorted_wrt_str_less_distinct: "sorted_wrt str_less xs \<Longrightarrow> distinct xs"
  by (induction xs) (auto dest: str_less_neq)

lemma uniq_inv_range:
  assumes "uniq_inv gs dic" "map_of dic k = Some v" "length (texts gs) < 2147483648"
  shows "no_nul k \<and> in_i32 v \<and> 0 \<le> v"
proof -
  have m: "map_of (rev (offsets 0 gs)) k = Some v" and nn: "list_all (\<lambda>g. no_nul (fst g) \<and> no_nul (snd g)) gs"
    using assms(1,2) by (simp_all add: uniq_inv_def)
  from nn have "list_all (\<lambda>g. no_nul (snd g)) gs" by (simp add: list_all_iff)
  from last_offset_text [OF m this] obtain t where t: "map_of (rev gs) k = Some t" "readable (texts gs) v"
    "v < int (length (texts gs))" by blast
  from t(1) have "k \<in> fst ` set gs" by (metis domI dom_map_of_conv_image_fst set_rev)
  with nn t assms(3) show ?thesis by (auto simp: list_all_iff in_i32_def readable_def)
qed

lemma DA_Search_last:
  assumes u: "uniq_inv gs dic" and arr: "da_contains arr (map_of dic)" and lt: "length (texts gs) < 2147483648"
  shows "da_answers (ds\<lparr>DaSearch := Some arr, Search_Buf := Some (texts gs),
    Search_Buf_len := int (length (texts gs))\<rparr>) (map_of (rev gs))"
  unfolding da_answers_def
proof (intro allI)
  fix q m
  have e: "exactMatchSearch arr (c_str q) 0 0 = Inr (case map_of dic (c_str q) of None \<Rightarrow> (-1, 0) | Some v \<Rightarrow> (v, length (c_str q)))"
    using arr by (simp add: da_contains_def)
  have dic: "map_of dic = map_of (rev (offsets 0 gs))" and nn: "list_all (\<lambda>g. no_nul (snd g)) gs"
    using u by (auto simp: uniq_inv_def list_all_iff)
  show "DA_Search (ds\<lparr>DaSearch := Some arr, Search_Buf := Some (texts gs), Search_Buf_len := int (length (texts gs))\<rparr>) q m =
     Inr (0, case map_of (rev gs) (c_str q) of None \<Rightarrow> m | Some t \<Rightarrow> m(''da'' \<mapsto> t))"
  proof (cases "map_of dic (c_str q)")
    case None
    then have "map_of (rev gs) (c_str q) = None" using last_offset_None [of 0 gs] by (simp add: dic)
    with e None show ?thesis by (simp add: DA_Search_def)
  next
    case (Some v)
    from last_offset_text [OF Some [unfolded dic] nn] obtain t where
      "map_of (rev gs) (c_str q) = Some t" "c_str_at (texts gs) (nat v) = t" "readable (texts gs) v"
      "v < int (length (texts gs))" by blast
    moreover have "0 \<le> v" using uniq_inv_range [OF u Some lt] by simp
    ultimately show ?thesis using e Some by (simp add: DA_Search_def)
  qed
qed

lemma length_uniq_items:
  "length (texts (uniq_items pf xs)) \<le> (\<Sum>x \<leftarrow> xs. length (st_extend x) + 1)"
proof (induction xs)
  case (Cons x xs)
  have "length (c_str (st_extend x)) \<le> length (st_extend x)" unfolding c_str_def by (rule length_takeWhile_le)
  with Cons show ?case
    by (auto simp: uniq_items_def uniq_item_def split: sum.splits list.splits)
qed (simp add: uniq_items_def)

lemma OutputIndexFile_uniq_answers:
  assumes seg: "list_all (\<lambda>x. \<exists>r parts. Segment pf (st_query x) = Inr (r, parts)) (srt vect)"
    and len: "(\<Sum>x \<leftarrow> srt vect. length (st_extend x) + 1) < 2147483648"
    and dic: "uniq_loop pf (srt vect) [] 0 ([], 0) = Inr (dic, s)"
    and b: "build dic = Some arr" and arr: "arr \<noteq> []" "length arr * 4 < 4294967296"
      "da_contains arr (map_of dic)"
  shows "\<exists>out. OutputIndexFile_uniq pf build srt True vect = Inr (0, out) \<and>
    (\<forall>ds. \<exists>ds'. LoadDAs (Some out) ds = (0, ds') \<and> da_answers ds' (last_answer pf (srt vect)))"
proof -
  let ?gs = "uniq_items pf (srt vect)"
  have lt: "length (texts ?gs) < 2147483648" using length_uniq_items [of pf "srt vect"] len by simp
  have u0: "uniq_inv [] []" by (simp add: uniq_inv_def)
  from uniq_loop_inv [OF seg u0] lt dic have s: "s = (texts ?gs, int (length (texts ?gs)))"
    and u: "uniq_inv ?gs dic" by auto
  have "(case e of (k, v) \<Rightarrow> (c_str k, i32 v)) = e" if "e \<in> set dic" for e
  proof -
    obtain k v where e: "e = (k, v)" by force
    have "distinct (map fst dic)"
      using u by (intro sorted_wrt_str_less_distinct) (simp add: uniq_inv_def)
    then have "map_of dic k = Some v" using that e by simp
    with uniq_inv_range [OF u _ lt] e show ?thesis by simp
  qed
  then have keys: "map (\<lambda>(k, v). (c_str k, i32 v)) dic = dic" by (simp add: map_idI)
  from write_load_extend_file [of build dic arr "texts ?gs"] keys b arr lt obtain out where
    out: "write_extend_file build True dic (texts ?gs) = Inr (0, out)"
      "LoadIndex_da (Some out) = (0, Some arr, Some (texts ?gs), Some (int (length (texts ?gs))))" by auto
  have "OutputIndexFile_uniq pf build srt True vect = Inr (0, out)"
    using out(1) by (simp add: OutputIndexFile_uniq_def dic s)
  moreover have "\<exists>ds'. LoadDAs (Some out) ds = (0, ds') \<and> da_answers ds' (last_answer pf (srt vect))" for ds
    using DA_Search_last [OF u arr(3) lt, of ds] by (simp add: LoadDAs_def out(2) last_answer_def)
  ultimately show ?thesis by blast
qed

text \<open>A platform whose segmentor returns the first byte of a text as its only word.\<close>

definition first_platform :: platform where
  "first_platform = byte_platform\<lparr>graphSegment := \<lambda>b n room. [(0, 1)]\<rparr>"

lemma segment_first:
  "x \<noteq> NUL \<Longrightarrow> y \<noteq> NUL \<Longrightarrow> Segment first_platform [x, y] = Inr (0, [[x]])"
  by (simp add: Segment_def segment_words_def first_platform_def byte_platform_def c_str_def substr_def MAXLEN_def)

end
