(* ===== verification/Dialogue.thy ===== *)
theory Dialogue
  imports Doc_Answers Edit_Dist Uniq_Index
begin

text \<open>
  The front end: \<open>DOC_SEARCH\<close> (\<^verbatim>\<open>src/doc_search/Doc_Search.cpp\<close>), which puts the words of a query
  together and asks the document index, and \<open>DIALOGUE\<close> (\<^verbatim>\<open>src/dialogue/dialogue.cpp\<close>), which orders the
  known questions it gets by their edit distance to the query, takes the one whose length is nearest
  to that of the query, looks up its answers in the dictionary and says one of them.

  The results of \<open>IndexOutcome\<close> and \<open>show_results\<close> are what they print: a list of \<open>utterance\<close>s, one for
  each line that depends on the query. The number \<^verbatim>\<open>rand()\<close> returns is an argument. A file
  system maps a path to the contents of the file, \<^const>\<open>None\<close> when it cannot be opened. The
  pointer \<open>da_index\<close> is \<^const>\<open>None\<close> as long as nothing has been assigned to it: neither the
  constructor nor any method does.
\<close>

subsection \<open>DOC_SEARCH\<close>

definition DOC_Init :: "bytes option \<Rightarrow> dlg_index \<Rightarrow> fault + (int \<times> dlg_index)" where
  "DOC_Init indexFile doc_index =
     (case LoadIndex indexFile doc_index of
        Inl e \<Rightarrow> Inl e
      | Inr (r, doc_index') \<Rightarrow> Inr (if r = -1 then -1 else 0, doc_index'))"

definition DOC_Search :: "platform \<Rightarrow> dlg_index \<Rightarrow> string \<Rightarrow> dlg_result \<Rightarrow> fault + (int \<times> dlg_result)" where
  "DOC_Search pf doc_index dest_norm doc_result =
     (case GetDlgResult pf doc_index dest_norm doc_result of
        Inl e \<Rightarrow> Inl e
      | Inr (r, doc_result') \<Rightarrow> Inr (0, doc_result'))"

definition GetIndexResults_doc ::
    "platform \<Rightarrow> dlg_index \<Rightarrow> string \<Rightarrow> dlg_result \<Rightarrow> fault + (int \<times> dlg_result)" where
  "GetIndexResults_doc pf doc_index query doc_result =
     (case Segment pf query of
        Inl e \<Rightarrow> Inl e
      | Inr (r, parts) \<Rightarrow>
          if length parts < 1 then Inr (0, doc_result)
          else (case DOC_Search pf doc_index (foldl (\<lambda>a p. a @ p) [] parts) doc_result of
                  Inl e \<Rightarrow> Inl e
                | Inr (r', doc_result') \<Rightarrow> Inr (0, doc_result')))"

subsection \<open>The state of DIALOGUE\<close>

record dialogue =
  dg_doc :: dlg_index
  dg_da :: "da_search option"
  dg_punc :: "(string \<times> int) list"

definition dialogue_new :: "dlg_index \<Rightarrow> dialogue" where
  "dialogue_new doc = \<lparr>dg_doc = doc, dg_da = None, dg_punc = []\<rparr>"

definition punc_line :: "(string \<times> int) list \<Rightarrow> string \<Rightarrow> (string \<times> int) list" where
  "punc_line m line =
     (let l = StringTrim line in if l \<noteq> [] \<and> l \<noteq> '' '' then map_incr l m else m)"

definition loadDic :: "(string \<Rightarrow> bytes option) \<Rightarrow> string \<Rightarrow> dialogue \<Rightarrow> int \<times> dialogue" where
  "loadDic fs dir_base dg =
     (case fs (c_str dir_base @ ''/data/'' @ ''punc/punc.txt'') of
        None \<Rightarrow> (-1, dg)
      | Some f \<Rightarrow> (0, dg\<lparr>dg_punc := foldl punc_line (dg_punc dg) (getlines f)\<rparr>))"

text \<open>\<open>da_index->Init\<close> is \<open>LoadDAs\<close>; the result of \<open>doc_search.Init\<close> is not looked at.\<close>

definition Dialogue_Init ::
    "(string \<Rightarrow> bytes option) \<Rightarrow> string \<Rightarrow> dialogue \<Rightarrow> fault + (int \<times> dialogue)" where
  "Dialogue_Init fs dir_base dg =
     (let data_path = c_str dir_base @ ''data/''
      in case DOC_Init (fs (data_path @ ''/'' @ ''index_dir/dlg.doc.index'')) (dg_doc dg) of
           Inl e \<Rightarrow> Inl e
         | Inr (r, doc) \<Rightarrow>
             (case dg_da dg of
                None \<Rightarrow> Inl Uninitialised
              | Some ds \<Rightarrow>
                  (case LoadDAs (fs (data_path @ ''/'' @ ''index_dir/dlg.da.index'')) ds of
                     (r', ds') \<Rightarrow>
                       let dg1 = dg\<lparr>dg_doc := doc, dg_da := Some ds'\<rparr>
                       in if r' = -1 then Inr (-1, dg1)
                          else case loadDic fs dir_base dg1 of
                                 (r'', dg2) \<Rightarrow> Inr (if r'' = -1 then -1 else 0, dg2))))"

definition DA_Release :: "da_search \<Rightarrow> int \<times> da_search" where
  "DA_Release ds = (0, ds\<lparr>DaSearch := None, Search_Buf := None\<rparr>)"

definition Dialogue_Release :: "dialogue \<Rightarrow> fault + dialogue" where
  "Dialogue_Release dg =
     (case dg_da dg of
        None \<Rightarrow> Inl Uninitialised
      | Some ds \<Rightarrow> Inr (dg\<lparr>dg_da := Some (snd (DA_Release ds))\<rparr>))"

subsection \<open>Answering\<close>

datatype utterance =
    Asking string          \<comment> \<open>a known question\<close>
  | Too_long               \<comment> \<open>a known question more than \<^verbatim>\<open>threshold\<close> times as long as the query\<close>
  | No_question            \<comment> \<open>the document index has no question\<close>
  | Not_similar            \<comment> \<open>the nearest questions are too far\<close>
  | Too_short
  | Searching string       \<comment> \<open>the question whose answers are looked up\<close>
  | Answers string         \<comment> \<open>the answers found\<close>
  | Says string            \<comment> \<open>the answer\<close>
  | Teach_me               \<comment> \<open>no answer is known\<close>

definition threshold :: nat where
  "threshold = 50"

text \<open>
  One step of the loop that looks for the piece whose length is nearest to that of the query. The
  difference is a \<^verbatim>\<open>size_t\<close> converted to \<^verbatim>\<open>int32_t\<close>.
\<close>

definition nearest_step :: "nat \<Rightarrow> string \<times> int \<Rightarrow> string \<Rightarrow> string \<times> int" where
  "nearest_step query_length s piece =
     (let dis = i32 (int (if length piece < query_length then query_length - length piece
                          else length piece - query_length))
      in if dis < snd s then (piece, dis) else s)"

definition say :: "nat \<Rightarrow> string list \<Rightarrow> utterance" where
  "say rnd anwser_vec =
     (let pos_anwser = (if length anwser_vec > 1 then rnd mod length anwser_vec else 0)
      in if pos_anwser < length anwser_vec then Says (anwser_vec ! pos_anwser) else Teach_me)"

text \<open>
  \<open>da_vec\<close> is a \<^verbatim>\<open>map\<close> in the order of its keys; every path through the body of the loop leaves it, so
  that only its first entry counts. \<open>anwser_hash\<close> has the key \<^verbatim>\<open>da\<close> at most.
\<close>

definition show_results ::
    "platform \<Rightarrow> da_search option \<Rightarrow> nat \<Rightarrow> nat \<Rightarrow> (int \<times> string) list \<Rightarrow> fault + (int \<times> utterance list)" where
  "show_results pf da_index rnd query_length da_vec =
     (case da_vec of
        [] \<Rightarrow> Inr (0, [])
      | (dist, joined) # rest \<Rightarrow>
          if 5 < dist then Inr (0, [Not_similar])
          else (case StringSplit joined ''###'' of
                  None \<Rightarrow> Inl Diverges
                | Some pieces \<Rightarrow>
                    if length joined < 1 then Inr (0, [Too_short])
                    else let anwser = fst (foldl (nearest_step query_length) (joined, 10000) pieces)
                         in case da_index of
                              None \<Rightarrow> Inl Uninitialised
                            | Some ds \<Rightarrow>
                                (case GetIndexResults_da pf ds anwser of
                                   Inl e \<Rightarrow> Inl e
                                 | Inr (r, anwser_hash) \<Rightarrow>
                                     (case anwser_hash ''da'' of
                                        None \<Rightarrow> Inr (0, [Searching anwser, say rnd []])
                                      | Some t \<Rightarrow>
                                          (case StringSplit t ''##-##'' of
                                             None \<Rightarrow> Inl Diverges
                                           | Some anwser_vec \<Rightarrow>
                                               Inr (0, [Searching anwser, Answers t, say rnd anwser_vec]))))))"

fun show_data :: "string \<Rightarrow> string list \<Rightarrow> fault + utterance list" where
  "show_data query [] = Inr []"
| "show_data query (d # ds) =
     (if length query = 0 then Inl Div_by_zero
      else case show_data query ds of
             Inl e \<Rightarrow> Inl e
           | Inr us \<Rightarrow> Inr ((if threshold < length d div length query then Too_long else Asking d) # us))"

definition IndexOutcome ::
    "platform \<Rightarrow> nat \<Rightarrow> dialogue \<Rightarrow> string \<Rightarrow> fault + (int \<times> utterance list)" where
  "IndexOutcome pf rnd dg query =
     (let q = c_str query
      in case GetIndexResults_doc pf (dg_doc dg) q \<lparr>dr_query = [], dr_data = []\<rparr> of
           Inl e \<Rightarrow> Inl e
         | Inr (r, doc_result) \<Rightarrow>
             let data = dr_data doc_result
             in case (if length data > 0 then show_data q data else Inr [No_question]) of
                  Inl e \<Rightarrow> Inl e
                | Inr us \<Rightarrow>
                    (case EditSort pf q data Map.empty [] of
                       Inl e \<Rightarrow> Inl e
                     | Inr (r', cadidate_sort, sortED) \<Rightarrow>
                         (case show_results pf (dg_da dg) rnd (length q)
                                 (map (\<lambda>e. (e, the (cadidate_sort e))) sortED) of
                            Inl e \<Rightarrow> Inl e
                          | Inr (r'', us') \<Rightarrow> Inr (0, us @ us'))))"

section \<open>Properties\<close>

subsection \<open>The nearest piece\<close>

definition len_diff :: "nat \<Rightarrow> string \<Rightarrow> nat" where
  "len_diff n s = (if length s < n then n - length s else length s - n)"

definition answer_pieces :: "string \<Rightarrow> string list" where
  "answer_pieces t = filter (\<lambda>p. p \<noteq> []) (split_ref ''##-##'' t)"

lemma nearest_step_eq:
  assumes "len_diff n p < 2147483648"
  shows "nearest_step n s p = (if int (len_diff n p) < snd s then (p, int (len_diff n p)) else s)"
proof -
  have "i32 (int (len_diff n p)) = int (len_diff n p)" using assms by (simp add: in_i32_nat)
  then show ?thesis by (simp add: nearest_step_def len_diff_def Let_def)
qed

lemma nearest_loop:
  assumes "\<forall>p \<in> set ps. len_diff n p < 2147483648"
  shows "case foldl (nearest_step n) (a, m) ps of (b, k) \<Rightarrow>
    k \<le> m \<and> (\<forall>p \<in> set ps. k \<le> int (len_diff n p)) \<and>
    (b = a \<and> k = m \<or> b \<in> set ps \<and> k = int (len_diff n b))"
  using assms
proof (induction ps rule: rev_induct)
  case (snoc p ps)
  obtain b k where f: "foldl (nearest_step n) (a, m) ps = (b, k)" by force
  from snoc have "k \<le> m \<and> (\<forall>p \<in> set ps. k \<le> int (len_diff n p)) \<and>
    (b = a \<and> k = m \<or> b \<in> set ps \<and> k = int (len_diff n b))" by (simp add: f)
  with snoc.prems show ?case by (auto simp: f nearest_step_eq)
qed simp

lemma nearest_piece:
  assumes "ps \<noteq> []" "\<forall>p \<in> set ps. len_diff n p < 10000"
  shows "\<exists>b \<in> set ps. (\<forall>p \<in> set ps. len_diff n b \<le> len_diff n p) \<and>
    fst (foldl (nearest_step n) (a, 10000) ps) = b"
proof -
  obtain b k where f: "foldl (nearest_step n) (a, 10000) ps = (b, k)" by force
  have "\<forall>p \<in> set ps. len_diff n p < 2147483648" using assms(2) by fastforce
  from nearest_loop [OF this, where a = a and m = 10000] have k: "\<forall>p \<in> set ps. k \<le> int (len_diff n p)"
    "b = a \<and> k = 10000 \<or> b \<in> set ps \<and> k = int (len_diff n b)" by (simp_all add: f)
  obtain p where "p \<in> set ps" using assms(1) by (cases ps) auto
  with k(1) assms(2) have "k < 10000" by force
  with k show ?thesis by (auto simp: f)
qed

lemma entry_text_join: "entry_text gs = join_with ''###'' (gs @ [[]])"
  by (induction gs) (auto simp: entry_text_def join_with_Cons)

lemma split_entry_text:
  assumes "list_all (\<lambda>g. CHR ''#'' \<notin> set g \<and> g \<noteq> []) gs"
  shows "StringSplit (entry_text gs) ''###'' = Some gs"
proof -
  have "split_ref ''###'' (entry_text gs) = gs @ [[]]"
    unfolding entry_text_join using assms by (intro split_ref_join) (auto simp: list_all_iff)
  moreover have "filter (\<lambda>p. p \<noteq> []) gs = gs" using assms by (simp add: filter_id_conv list_all_iff)
  ultimately show ?thesis by (simp add: StringSplit_ref)
qed

lemma pieces_of_joined:
  assumes "list_all (\<lambda>a. CHR ''#'' \<notin> set a \<and> a \<noteq> []) as" "as \<noteq> []"
  shows "answer_pieces (join_with ''##-##'' as) = as"
proof -
  have "split_ref ''##-##'' (join_with ''##-##'' as) = as"
    using assms by (intro split_ref_join) (auto simp: list_all_iff)
  then show ?thesis using assms(1) by (simp add: answer_pieces_def filter_id_conv list_all_iff)
qed

subsection \<open>What is said\<close>

definition words :: "platform \<Rightarrow> string \<Rightarrow> string list" where
  "words pf s = (case Segment pf s of Inl e \<Rightarrow> [] | Inr (r, parts) \<Rightarrow> parts)"

definition word_dist :: "platform \<Rightarrow> string \<Rightarrow> string \<Rightarrow> int" where
  "word_dist pf a b = (if words pf a = [] \<or> words pf b = [] then 0 else edit (words pf a) (words pf b))"

lemma Segment_words: "length s < MAXLEN \<Longrightarrow> \<exists>r. Segment pf s = Inr (r, words pf s)"
  using Segment_total [of s pf] by (auto simp: words_def)

lemma Calculate_word_dist:
  assumes "length a < MAXLEN" "length b < MAXLEN"
  shows "Calculate pf a b = Inr (word_dist pf a b)"
  using Segment_words [OF assms(1), of pf] Segment_words [OF assms(2), of pf]
  by (auto simp: Calculate_edit word_dist_def)

lemma no_nul_words: "length s < MAXLEN \<Longrightarrow> c_str (concat (words pf s)) = concat (words pf s)"
  using Segment_words [of s pf] Segment_words_no_nul no_nul_concat by (metis c_str_id)

text \<open>The answer to a question, from its words and the answers \<open>A\<close> of the dictionary.\<close>

definition reply :: "platform \<Rightarrow> (string \<Rightarrow> string option) \<Rightarrow> nat \<Rightarrow> string \<Rightarrow> utterance list" where
  "reply pf A rnd g =
     Searching g # (case (if words pf g = [] then None else A (concat (words pf g))) of
        None \<Rightarrow> [Teach_me]
      | Some t \<Rightarrow> [Answers t, say rnd (answer_pieces t)])"

lemma show_results_reply:
  assumes da: "da_answers ds A" and gs: "gs \<noteq> []" "list_all (\<lambda>g. CHR ''#'' \<notin> set g \<and> g \<noteq> []) gs"
    and len: "\<forall>g \<in> set gs. length g < MAXLEN \<and> len_diff n g < 10000" and near: "dist \<le> 5"
  shows "\<exists>g \<in> set gs. (\<forall>h \<in> set gs. len_diff n g \<le> len_diff n h) \<and>
    show_results pf (Some ds) rnd n ((dist, entry_text gs) # rest) = Inr (0, reply pf A rnd g)"
proof -
  have "\<forall>g \<in> set gs. len_diff n g < 10000" using len by blast
  from nearest_piece [OF gs(1) this, of "entry_text gs"] obtain g where
    g: "g \<in> set gs" "\<forall>h \<in> set gs. len_diff n g \<le> len_diff n h"
      "fst (foldl (nearest_step n) (entry_text gs, 10000) gs) = g" by blast
  have lg: "length g < MAXLEN" using g(1) len by blast
  obtain r where s: "Segment pf g = Inr (r, words pf g)" using Segment_words [OF lg] by blast
  have f: "foldl (\<lambda>a p. a @ p) [] (words pf g) = concat (words pf g)" by (simp add: foldl_append_concat)
  let ?A = "if words pf g = [] then None else A (concat (words pf g))"
  have da': "GetIndexResults_da pf ds g = Inr (0, case ?A of None \<Rightarrow> Map.empty | Some t \<Rightarrow> [''da'' \<mapsto> t])"
    using da no_nul_words [OF lg, of pf]
    by (cases "words pf g = []") (auto simp: GetIndexResults_da_def s f da_answers_def Suc_le_eq split: option.splits)
  have "entry_text gs \<noteq> []" using gs(1) by (cases gs) (auto simp: entry_text_def)
  then have l: "\<not> length (entry_text gs) < 1" by (cases "entry_text gs") auto
  have sp: "StringSplit t ''##-##'' = Some (answer_pieces t)" for t
    by (simp add: StringSplit_ref answer_pieces_def)
  have sn: "say rnd [] = Teach_me" by (simp add: say_def)
  have "show_results pf (Some ds) rnd n ((dist, entry_text gs) # rest) = Inr (0, reply pf A rnd g)"
    using near by (simp only: show_results_def list.case prod.case if_not_P [OF l] split_entry_text [OF gs(2)]
      option.case Let_def g(3) da' sum.case reply_def not_less [symmetric] if_False)
      (simp add: sp sn split: option.splits)
  with g show ?thesis by blast
qed

lemma show_data_lines:
  "q \<noteq> [] \<Longrightarrow> show_data q cs =
    Inr (map (\<lambda>c. if threshold < length c div length q then Too_long else Asking c) cs)"
  by (induction cs) auto

text \<open>The questions at the least distance, in the order in which they were first seen.\<close>

definition nearest_questions :: "(string \<Rightarrow> int) \<Rightarrow> string list \<Rightarrow> string list" where
  "nearest_questions d cs = filter (\<lambda>c. d c = Min (d ` set cs)) (first_seen cs)"

lemma set_nearest_questions: "set (nearest_questions d cs) = {c \<in> set cs. d c = Min (d ` set cs)}"
  by (auto simp: nearest_questions_def)

lemma EditSort_first:
  assumes "length q < MAXLEN" "\<forall>c \<in> set cs. length c < MAXLEN" "cs \<noteq> []"
  shows "\<exists>m ds rest. EditSort pf q cs Map.empty [] = Inr (0, m, ds) \<and>
    map (\<lambda>e. (e, the (m e))) ds =
      (Min (word_dist pf q ` set cs), entry_text (nearest_questions (word_dist pf q) cs)) # rest"
proof -
  let ?d = "word_dist pf q"
  have "Calculate pf q c = Inr (?d c)" if "c \<in> set cs" for c
    using assms that by (intro Calculate_word_dist) auto
  from EditSort_ranks [of cs pf q, OF this] obtain m ds where
    e: "EditSort pf q cs Map.empty [] = Inr (0, m, ds)" "m = cand_group ?d cs" "ds = sorted_list_of_set (?d ` set cs)"
    by blast
  have fin: "finite (?d ` set cs)" "?d ` set cs \<noteq> {}" using assms(3) by auto
  then have ds: "ds = Min (?d ` set cs) # sorted_list_of_set (?d ` set cs - {Min (?d ` set cs)})"
    by (simp add: e(3) sorted_list_of_set_nonempty)
  have "m (Min (?d ` set cs)) = Some (entry_text (nearest_questions ?d cs))"
    using Min_in [OF fin] by (simp add: e(2) cand_group_def nearest_questions_def)
  with e(1) ds show ?thesis by simp
qed

lemma GetIndexResults_doc_Nil:
  assumes "length q < 2"
  shows "GetIndexResults_doc pf doc q res = Inr (0, res)"
  using assms by (simp add: GetIndexResults_doc_def Segment_def)

subsection \<open>The questions found for a query\<close>

text \<open>
  The words of a query are put together, converted and segmented again; what is put together from
  these words is segmented for the index, without the stop words.
\<close>

definition full_width :: "platform \<Rightarrow> string \<Rightarrow> string" where
  "full_width pf t = c_str (dbc2gchar pf (StringTrim t) 2048)"

definition search_text :: "platform \<Rightarrow> string \<Rightarrow> string" where
  "search_text pf t = concat (words pf (full_width pf t))"

definition search_words :: "platform \<Rightarrow> string set \<Rightarrow> string \<Rightarrow> string list" where
  "search_words pf stop s =
     (case GraphSegment pf {} s of Inl e \<Rightarrow> [] | Inr (r, parts) \<Rightarrow> filter (\<lambda>w. w \<notin> stop) parts)"

text \<open>
  The questions found for a query when \<open>D\<close> are the questions of the index: none when the
  words of the query have less than two bytes or more than a hundred, contain a word of the
  blacklist, or are all stop words; otherwise those with the rarest of the words.
\<close>

definition found_questions :: "platform \<Rightarrow> dlg_index \<Rightarrow> string list list \<Rightarrow> string \<Rightarrow> string list" where
  "found_questions pf doc D q =
     (let t = concat (words pf q);
          parts = search_words pf (di_stopword doc) (search_text pf t)
      in if length t < 2 \<or> 100 < length t \<or> (\<exists>b \<in> di_black doc. sublist b t) \<or> parts = [] then []
         else answers D parts)"

text \<open>The texts a query goes through have room in the buffers they are copied to.\<close>

definition query_fits :: "platform \<Rightarrow> string \<Rightarrow> bool" where
  "query_fits pf q \<longleftrightarrow>
     length q < 10000 \<and>
     (let t = concat (words pf q)
      in length t \<le> 100 \<longrightarrow> length (full_width pf t) < MAXLEN \<and> length (search_text pf t) < 4096)"

lemma str_find_sublist: "str_find s b 0 \<noteq> None \<longleftrightarrow> sublist b s"
proof
  assume "str_find s b 0 \<noteq> None"
  then obtain i where "find0 b s = Some i" by (auto simp: str_find_def)
  from find0_split [OF this] show "sublist b s" by (auto simp: sublist_def)
next
  assume "sublist b s"
  then obtain u v where "s = u @ b @ v" by (auto simp: sublist_def)
  then have "length u \<le> length s \<and> prefix b (drop (length u) s)" by (auto simp: prefix_def)
  then have "find0 b s \<noteq> None" unfolding find0_None_iff by blast
  then show "str_find s b 0 \<noteq> None" by (simp add: str_find_def)
qed

lemma hits_black_sublist: "hits_black black s \<longleftrightarrow> (\<exists>b \<in> black. sublist b s)"
  unfolding hits_black_def str_find_sublist ..

lemma GraphSegment_search_words:
  assumes "length s < 4096"
  shows "\<exists>r. GraphSegment pf stop s = Inr (r, search_words pf stop s)"
proof -
  have "length (c_str s) \<le> length s" unfolding c_str_def by (rule length_takeWhile_le)
  with assms have "\<not> 4096 < length (c_str s) + 1" by simp
  then show ?thesis by (simp add: search_words_def GraphSegment_def segment_words_def Let_def)
qed

lemma Normalize_search_text:
  assumes "no_nul t" "length (full_width pf t) < MAXLEN"
  shows "\<exists>nm. Normalize pf syn t = Inr (0, search_text pf t, nm)"
proof -
  obtain r where r: "Segment pf (full_width pf t) = Inr (r, words pf (full_width pf t))"
    using Segment_words [OF assms(2)] by blast
  have "c_str (StringTrim (c_str t)) = StringTrim t" using assms(1) by (simp add: no_nul_StringTrim)
  with r show ?thesis
    by (simp add: Normalize_def normalize_loop_eq search_text_def full_width_def Let_def)
qed

lemma GetUnionResults_no_words:
  assumes "GraphSegment pf (di_stopword di) s = Inr (r, [])"
  shows "GetUnionResults pf di s [] = Inr (0, [], [])"
  using assms by (simp add: GetUnionResults_def GetUnionResults_docs_def)

lemma GetIndexResults_doc_found:
  assumes st: "stored (di_index doc) D" and fits: "query_fits pf q"
    and small: "\<And>p. occurrences D p < 2147483648"
  shows "\<exists>res. GetIndexResults_doc pf doc q \<lparr>dr_query = [], dr_data = []\<rparr> = Inr (0, res) \<and>
    dr_data res = found_questions pf doc D q"
proof -
  let ?t = "concat (words pf q)" and ?res = "\<lparr>dr_query = [], dr_data = []\<rparr>"
  let ?s = "search_text pf ?t"
  have lq: "length q < MAXLEN" using fits by (simp add: query_fits_def MAXLEN_def)
  obtain r where seg: "Segment pf q = Inr (r, words pf q)" using Segment_words [OF lq] by blast
  have f: "foldl (\<lambda>a p. a @ p) [] (words pf q) = ?t" by (simp add: foldl_append_concat)
  have g: "GetIndexResults_doc pf doc q ?res =
      (if words pf q = [] then Inr (0, ?res)
       else case GetDlgResult pf doc ?t ?res of Inl e \<Rightarrow> Inl e | Inr (x, res) \<Rightarrow> Inr (0, res))"
    by (simp add: GetIndexResults_doc_def seg f DOC_Search_def Suc_le_eq split: sum.splits)
  show ?thesis
  proof (cases "words pf q = [] \<or> length ?t < 2 \<or> 100 < length ?t \<or> hits_black (di_black doc) ?t")
    case True
    then have "found_questions pf doc D q = []"
      unfolding hits_black_sublist by (auto simp: found_questions_def Let_def)
    moreover have "GetIndexResults_doc pf doc q ?res = Inr (0, ?res)"
      using True unfolding g by (auto simp: GetDlgResult_def)
    ultimately show ?thesis by simp
  next
    case False
    then have t: "1 < length ?t" "length ?t \<le> 100" "\<not> hits_black (di_black doc) ?t" by auto
    then have room: "length (full_width pf ?t) < MAXLEN" "length ?s < 4096"
      using fits by (simp_all add: query_fits_def Let_def)
    have "no_nul ?t" by (rule no_nul_concat) (use Segment_words_no_nul [OF seg] in simp)
    from Normalize_search_text [OF this room(1)] obtain nm where
      n: "Normalize pf (di_syn doc) ?t = Inr (0, ?s, nm)" by blast
    let ?parts = "search_words pf (di_stopword doc) ?s"
    from GraphSegment_search_words [OF room(2)] obtain r' where
      p: "GraphSegment pf (di_stopword doc) ?s = Inr (r', ?parts)" by blast
    have found: "found_questions pf doc D q = (if ?parts = [] then [] else answers D ?parts)"
      using t by (auto simp: found_questions_def Let_def hits_black_sublist)
    have u: "\<exists>k ps. GetUnionResults pf doc ?s [] = Inr (k, found_questions pf doc D q, ps)"
    proof (cases "?parts = []")
      case True
      with p found GetUnionResults_no_words show ?thesis by force
    next
      case ne: False
      with found GetUnionResults_answers [OF st p ne small, of "[]"] show ?thesis by force
    qed
    have "\<not> (length ?t \<le> 1 \<or> 100 < length ?t)" using t by simp
    with u n t(3) have "\<exists>x res. GetDlgResult pf doc ?t ?res = Inr (x, res) \<and> dr_data res = found_questions pf doc D q"
      unfolding GetDlgResult_def by (cases "found_questions pf doc D q") auto
    with False show ?thesis unfolding g by auto
  qed
qed

text \<open>
  What is printed for a query \<open>q\<close> whose known questions are \<open>cs\<close>: the questions, and the reply to one
  of those at the least distance, one whose length is nearest to that of the query, unless they
  are all too far.
\<close>

definition spoken ::
    "platform \<Rightarrow> (string \<Rightarrow> string option) \<Rightarrow> nat \<Rightarrow> string \<Rightarrow> string list \<Rightarrow> utterance list \<Rightarrow> bool" where
  "spoken pf A rnd q cs us \<longleftrightarrow>
     (if cs = [] then us = [No_question]
      else \<exists>us'. us = map (\<lambda>c. if threshold < length c div length q then Too_long else Asking c) cs @ us' \<and>
        (if 5 < Min (word_dist pf q ` set cs) then us' = [Not_similar]
         else \<exists>g \<in> set cs. (\<forall>h \<in> set cs. word_dist pf q g < word_dist pf q h \<or>
             word_dist pf q g = word_dist pf q h \<and> len_diff (length q) g \<le> len_diff (length q) h) \<and>
           us' = reply pf A rnd g))"

text \<open>
  A question the replies are specified for: \<open>EditSort\<close> joins the questions at the same distance with
  \<^verbatim>\<open>###\<close>, and \<open>show_results\<close> splits them again.
\<close>

definition question_ok :: "string \<Rightarrow> bool" where
  "question_ok c \<longleftrightarrow> CHR ''#'' \<notin> set c \<and> c \<noteq> [] \<and> length c < 10000"

lemma question_ok_length:
  "question_ok c \<Longrightarrow> length q < 10000 \<Longrightarrow> length c < MAXLEN \<and> len_diff (length q) c < 10000"
  unfolding question_ok_def MAXLEN_def len_diff_def by auto

text \<open>
  The reply to a query. Let \<open>cs\<close> be the known questions the document index finds for it. When there
  are none the program says so. Otherwise, if the nearest of them are more than five word edits away it
  gives up; else it takes, among the nearest ones, one whose length is nearest to that of the query,
  looks up its words in the dictionary and says one of the answers found, the one
  \<^verbatim>\<open>rand()\<close> selects, or asks to be taught.
\<close>

lemma IndexOutcome_spoken:
  assumes doc: "GetIndexResults_doc pf (dg_doc dg) (c_str query) \<lparr>dr_query = [], dr_data = []\<rparr> = Inr (r, res)"
    and cs: "list_all question_ok (dr_data res)" and len10: "length (c_str query) < 10000"
    and da: "dg_da dg = Some ds" "da_answers ds A"
  shows "\<exists>us. IndexOutcome pf rnd dg query = Inr (0, us) \<and> spoken pf A rnd (c_str query) (dr_data res) us"
proof (cases "dr_data res = []")
  case True
  then show ?thesis
    using doc by (simp add: IndexOutcome_def EditSort_def show_results_def spoken_def)
next
  case False
  let ?q = "c_str query"
  define cs d where cs_def: "cs = dr_data res" and d: "d = word_dist pf ?q"
  let ?gs = "nearest_questions d cs"
  have q: "?q \<noteq> []"
    using GetIndexResults_doc_Nil [of ?q pf "dg_doc dg" "\<lparr>dr_query = [], dr_data = []\<rparr>"] doc False by force
  have len: "length ?q < MAXLEN" using len10 by (simp add: MAXLEN_def)
  have ml: "\<forall>c \<in> set cs. length c < MAXLEN" and ok: "\<forall>c \<in> set cs. question_ok c"
    using cs by (auto simp: cs_def list_all_iff question_ok_def MAXLEN_def)
  have ne: "cs \<noteq> []" using False by (simp add: cs_def)
  from EditSort_first [OF len ml ne, of pf, folded d] obtain m es rest where
    e: "EditSort pf ?q cs Map.empty [] = Inr (0, m, es)"
      "map (\<lambda>e. (e, the (m e))) es = (Min (d ` set cs), entry_text ?gs) # rest" by (elim exE conjE)
  let ?us = "map (\<lambda>c. if threshold < length c div length ?q then Too_long else Asking c) cs"
  have io: "IndexOutcome pf rnd dg query =
    (case show_results pf (Some ds) rnd (length ?q) ((Min (d ` set cs), entry_text ?gs) # rest) of
       Inl e \<Rightarrow> Inl e | Inr (r, us') \<Rightarrow> Inr (0, ?us @ us'))"
    using ne by (simp add: IndexOutcome_def Let_def doc cs_def [symmetric] show_data_lines [OF q] e da(1))
  show ?thesis
  proof (cases "5 < Min (d ` set cs)")
    case True
    with False ne io show ?thesis by (simp add: show_results_def spoken_def cs_def d)
  next
    case near: False
    have sub: "set ?gs \<subseteq> set cs" by (auto simp: set_nearest_questions)
    have "Min (d ` set cs) \<in> d ` set cs" using ne by (intro Min_in) auto
    then have gs: "?gs \<noteq> []" unfolding set_empty [symmetric] set_nearest_questions by force
    have "list_all (\<lambda>g. CHR ''#'' \<notin> set g \<and> g \<noteq> []) ?gs"
      "\<forall>g \<in> set ?gs. length g < MAXLEN \<and> len_diff (length ?q) g < 10000"
      using ok sub question_ok_length [OF _ len10] by (auto simp: list_all_iff question_ok_def)
    from show_results_reply [OF da(2) gs this, of "Min (d ` set cs)" pf rnd rest] near obtain g where
      g: "g \<in> set ?gs" "\<forall>h \<in> set ?gs. len_diff (length ?q) g \<le> len_diff (length ?q) h"
        "show_results pf (Some ds) rnd (length ?q) ((Min (d ` set cs), entry_text ?gs) # rest) = Inr (0, reply pf A rnd g)"
      by auto
    have "d g < d h \<or> d g = d h \<and> len_diff (length ?q) g \<le> len_diff (length ?q) h" if "h \<in> set cs" for h
    proof -
      have "d g \<le> d h" using g(1) that by (auto simp: set_nearest_questions intro: Min_le)
      with g(1,2) that show ?thesis by (cases "d h = d g") (auto simp: set_nearest_questions simp del: Min_le)
    qed
    with g(1) sub have "\<exists>g' \<in> set cs. (\<forall>h \<in> set cs. d g' < d h \<or>
        d g' = d h \<and> len_diff (length ?q) g' \<le> len_diff (length ?q) h) \<and> reply pf A rnd g = reply pf A rnd g'"
      by blast
    then show ?thesis
      using near ne io g(3) by (auto simp: spoken_def simp flip: cs_def d)
  qed
qed

lemma IndexOutcome_stored:
  assumes st: "stored (di_index (dg_doc dg)) D" and da: "dg_da dg = Some ds" "da_answers ds A"
    and q: "query_fits pf (c_str query)"
    and small: "\<And>p. occurrences D p < 2147483648"
    and cs: "list_all question_ok (found_questions pf (dg_doc dg) D (c_str query))"
  shows "\<exists>us. IndexOutcome pf rnd dg query = Inr (0, us) \<and>
    spoken pf A rnd (c_str query) (found_questions pf (dg_doc dg) D (c_str query)) us"
proof -
  from GetIndexResults_doc_found [OF st q small] obtain res where
    "GetIndexResults_doc pf (dg_doc dg) (c_str query) \<lparr>dr_query = [], dr_data = []\<rparr> = Inr (0, res)"
    "dr_data res = found_questions pf (dg_doc dg) D (c_str query)" by blast
  with IndexOutcome_spoken [OF _ _ _ da, of pf query 0 res] cs q show ?thesis
    by (simp add: query_fits_def)
qed

text \<open>
  With both files and the word list in place, and a \<open>da_index\<close> that points somewhere, \<open>Init\<close>
  succeeds.
\<close>

lemma Dialogue_Init_loads:
  assumes "fs (c_str dir @ ''data//index_dir/dlg.doc.index'') = Some img"
    and "LoadIndex (Some img) (dg_doc dg) = Inr (0, doc)"
    and "fs (c_str dir @ ''data//index_dir/dlg.da.index'') = Some out"
    and "dg_da dg = Some ds" "LoadDAs (Some out) ds = (0, ds')"
    and "fs (c_str dir @ ''/data/punc/punc.txt'') = Some p"
  shows "\<exists>dg'. Dialogue_Init fs dir dg = Inr (0, dg') \<and> dg_doc dg' = doc \<and> dg_da dg' = Some ds'"
  using assms by (simp add: Dialogue_Init_def DOC_Init_def loadDic_def Let_def)

end
