(* ===== verification/Examples.thy ===== *)
theory Examples
  imports Doc_Answers Dialogue
begin

unbundle bit_operations_syntax

text \<open>
  Concrete inputs on which the properties of the inverted index and of the dialogue are applied: a file
  with two questions, its index, and a dictionary with an answer to one of them.
\<close>

definition two_lines :: bytes where
  "two_lines = unlines [''ab'', ''ac'']"

definition two_questions :: "string list list" where
  "two_questions = [[''a'', ''b''], [''a'', ''c'']]"

definition index_a :: common_index where
  "index_a = (ci_new 3)\<lparr>
     ci_char_vect := [CHR ''a'', CHR ''b'', NUL],
     ci_doc_vect := [\<lparr>doc_word_offset = 0, doc_weight = 0\<rparr>],
     ci_index_map := [(''a'', [word_node ''a'']), (''b'', [word_node ''b''])]\<rparr>"

definition index_ab :: common_index where
  "index_ab = (ci_new 3)\<lparr>
     ci_char_vect := [CHR ''a'', CHR ''b'', NUL, CHR ''a'', CHR ''c'', NUL],
     ci_doc_vect := [\<lparr>doc_word_offset = 0, doc_weight = 0\<rparr>, \<lparr>doc_word_offset = 3, doc_weight = 0\<rparr>],
     ci_index_map :=
       [(''a'', [word_node ''a'', (word_node ''a'')\<lparr>inv_doc_id := 1\<rparr>]),
        (''b'', [word_node ''b'']),
        (''c'', [(word_node ''c'')\<lparr>inv_doc_id := 1\<rparr>])]\<rparr>"

definition empty_index :: dlg_index where
  "empty_index = \<lparr>di_index = ci_new 3, di_stopword = {}, di_postfix_word = {}, di_black = {},
     di_syn = Map.empty\<rparr>"

lemma lines_of_two: "fgets_lines 4096 two_lines = [''ab'' @ [CHR 0x0A], ''ac'' @ [CHR 0x0A]]"
  by code_simp

lemma line_of_two:
  "StringTrim (''ab'' @ [CHR 0x0A]) = ''ab''" "StringTrim (''ac'' @ [CHR 0x0A]) = ''ac''"
  "StringSplit ''ab'' ''##_##'' = Some [''ab'']" "StringSplit ''ac'' ''##_##'' = Some [''ac'']"
  by code_simp+

lemma index_line_ab: "index_line byte_platform (ci_new 3) (''ab'' @ [CHR 0x0A]) = Inr index_a"
proof -
  have "Add_keys_invs (ci_new 3) [''a'', ''b''] [word_node ''a'', word_node ''b'']
      \<lparr>doc_word_offset = 0, doc_weight = 0\<rparr> ''ab'' = Inr (index_a, \<lparr>doc_word_offset = 0, doc_weight = 0\<rparr>)"
    by code_simp
  then show ?thesis
    by (simp add: index_line_def Let_def line_of_two [simplified] segment_two_bytes c_str_def)
qed

lemma index_line_ac: "index_line byte_platform index_a (''ac'' @ [CHR 0x0A]) = Inr index_ab"
proof -
  have "Add_keys_invs index_a [''a'', ''c''] [word_node ''a'', word_node ''c'']
      \<lparr>doc_word_offset = 0, doc_weight = 0\<rparr> ''ac'' = Inr (index_ab, \<lparr>doc_word_offset = 3, doc_weight = 0\<rparr>)"
    by code_simp
  then show ?thesis
    by (simp add: index_line_def Let_def line_of_two [simplified] segment_two_bytes c_str_def)
qed

lemma index_lines_two: "index_lines byte_platform (fgets_lines 4096 two_lines) (ci_new 3) = Inr index_ab"
  unfolding lines_of_two by (simp only: index_lines.simps index_line_ab index_line_ac sum.case)

lemma index_ab_fits: "ci_fits 3 index_ab"
  by (simp add: index_ab_def ci_new_def ci_fits_def all_postings_def hv_fits_def entry_bytes_def)

lemma questions_two: "questions byte_platform (fgets_lines 4096 two_lines) = two_questions"
  unfolding lines_of_two
  by (simp add: questions_def line_words_def line_question_def line_of_two [simplified] segment_two_bytes
      two_questions_def)

lemma index_ab_wf: "ci_wf 3 index_ab"
  using index_lines_new [OF index_lines_two _ index_ab_fits] by (simp add: indexed_def)

lemma blank_new: "hv_blank 3 (ci_index (ci_new 3))"
  by (simp add: hv_blank_def ci_new_def hv_new_def)

text \<open>In the index of the two questions \<^verbatim>\<open>b\<close> is rarer than \<^verbatim>\<open>a\<close>, and only the first question has it.\<close>

theorem union_is_rarest_word_witness:
  "\<exists>ci info rs n. GetInvResults ci [''a'', ''b''] = Inr (info, rs) \<and> UnionInvResult ci rs info [7] = Inr (n, [7, 0])"
proof -
  obtain m ci where "map_ordered False (ci_doc_vect index_ab) (ci_index_map index_ab) m" "serves ci m"
    using Save_Load_query [OF index_ab_wf index_ab_fits _ blank_new, of False "[]"] unfolding serves_def by auto
  then have sv: "serves ci (ci_index_map index_ab)" by (auto dest: map_ordered_False)
  have l: "posting_list (ci_index_map index_ab) ''a'' = [word_node ''a'', (word_node ''a'')\<lparr>inv_doc_id := 1\<rparr>]"
    "posting_list (ci_index_map index_ab) ''b'' = [word_node ''b'']"
    by (simp_all add: index_ab_def posting_list_def)
  have c: "c_str ''a'' = ''a''" "c_str ''b'' = ''b''" by (simp_all add: c_str_def)
  have "first_min [2, 1] = 1" by code_simp
  then have "rarest_postings (ci_index_map index_ab) [''a'', ''b''] = [word_node ''b'']"
    by (simp add: rarest_postings_def c l numeral_2_eq_2)
  moreover have "length (posting_list (ci_index_map index_ab) (c_str p)) < 2147483648" if "p \<in> set [''a'', ''b'']" for p
    using that by (auto simp: c l)
  ultimately show ?thesis
    using union_is_rarest_word [OF sv, of "[''a'', ''b'']" "[7]"] by (auto simp: word_node_def)
qed

subsection \<open>A dialogue\<close>

definition some_dialogue :: dialogue where
  "some_dialogue = \<lparr>dg_doc = empty_index, dg_da = Some \<lparr>DaSearch = None, Search_Buf = None, Search_Buf_len = 0\<rparr>,
     dg_punc = []\<rparr>"

definition one_answer :: "st list" where
  "one_answer = [\<lparr>st_query = ''ab'', st_extend = ''x''\<rparr>]"

lemma greatest_answer_one:
  assumes "greatest_answer byte_platform one_answer A"
  shows "A ''ab'' = Some ''x''"
proof -
  have k: "question_key byte_platform \<lparr>st_query = ''ab'', st_extend = ''x''\<rparr> = Some ''ab''"
    by (simp add: question_key_def segment_two_bytes)
  from assms [unfolded greatest_answer_def one_answer_def, THEN spec, of "''ab''"] show ?thesis
    by (cases "A ''ab''") (auto simp: k [simplified] c_str_def)
qed

lemma words_ab: "words byte_platform ''ab'' = [''a'', ''b'']"
  by (simp add: words_def segment_two_bytes)

lemma answers_ab: "answers two_questions [''a'', ''b''] = [''ab'']"
  by code_simp

lemma full_width_ab: "full_width byte_platform ''ab'' = ''ab''"
proof -
  have "StringTrim ''ab'' = ''ab''" by code_simp
  then show ?thesis by (simp add: full_width_def byte_platform_def c_str_def)
qed

lemma found_ab: "found_questions byte_platform empty_index two_questions ''ab'' = [''ab'']"
  and fits_ab: "query_fits byte_platform ''ab''"
proof -
  have "search_text byte_platform ''ab'' = ''ab''"
    by (simp add: search_text_def full_width_ab [simplified] words_ab [simplified])
  moreover have "search_words byte_platform {} ''ab'' = [''a'', ''b'']"
    by (simp add: search_words_def segment_two_bytes)
  ultimately show "found_questions byte_platform empty_index two_questions ''ab'' = [''ab'']"
    by (simp add: found_questions_def words_ab [simplified] empty_index_def answers_ab [simplified])
  show "query_fits byte_platform ''ab''"
    using \<open>search_text byte_platform ''ab'' = ''ab''\<close>
    by (simp add: query_fits_def words_ab [simplified] full_width_ab [simplified] MAXLEN_def)
qed

lemma found_a: "found_questions byte_platform empty_index D ''a'' = []"
  and fits_a: "query_fits byte_platform ''a''"
proof -
  have w: "words byte_platform ''a'' = []" "words byte_platform [] = []" by (simp_all add: words_def Segment_def)
  then show "found_questions byte_platform empty_index D ''a'' = []" by (simp add: found_questions_def)
  have "full_width byte_platform [] = []" by code_simp
  with w show "query_fits byte_platform ''a''" by (simp add: query_fits_def search_text_def MAXLEN_def)
qed

lemma spoken_ab:
  assumes "greatest_answer byte_platform one_answer A" "spoken byte_platform A rnd ''ab'' [''ab''] us"
  shows "us = [Asking ''ab'', Searching ''ab'', Answers ''x'', Says ''x'']"
proof -
  have e: "edit [''a'', ''b''] [''a'', ''b''] = 0" by code_simp
  have "answer_pieces ''x'' = [''x'']" using pieces_of_joined [of "[''x'']"] by simp
  then have "reply byte_platform A rnd ''ab'' = [Searching ''ab'', Answers ''x'', Says ''x'']"
    using greatest_answer_one [OF assms(1)] by (simp add: reply_def words_ab say_def)
  with assms(2) show ?thesis by (simp add: spoken_def word_dist_def words_ab e threshold_def)
qed

end
