(* ===== verification/Gary_Words.thy ===== *)
theory Gary_Words
  imports Byte_Codec
begin

unbundle bit_operations_syntax

text \<open>
  Small integers of \<^verbatim>\<open>src/include/gary_common/\<close>: the three-byte integer \<open>TUINT24\<close> of
  \<^verbatim>\<open>twsetypedef.h\<close> with its comparison operators, the bit map of 64 bits of \<^verbatim>\<open>gary_bitmap.h\<close>, the
  test for GBK characters of \<^verbatim>\<open>gary_common.h\<close>, and \<^verbatim>\<open>gary_math.h\<close>.
\<close>

section \<open>Three-byte integers\<close>

datatype uint24 = UInt24 (u24_h: "8 word") (u24_l: "16 word")

definition GetVal :: "uint24 \<Rightarrow> 32 word" where
  "GetVal x = push_bit 16 (ucast (u24_h x)) OR ucast (u24_l x)"

definition u24_of_bytes :: "8 word list \<Rightarrow> uint24" where
  "u24_of_bytes a = UInt24 (a ! 0) (ucast (a ! 1) OR push_bit 8 (ucast (a ! 2)))"

definition u24_of_32 :: "32 word \<Rightarrow> uint24" where
  "u24_of_32 a = UInt24 (ucast (drop_bit 16 a)) (ucast a)"

definition u24_of_16 :: "16 word \<Rightarrow> uint24" where
  "u24_of_16 a = UInt24 0 a"

text \<open>The operators on two \<open>TUINT24\<close>.\<close>

definition u24_greater :: "uint24 \<Rightarrow> uint24 \<Rightarrow> bool" where
  "u24_greater x b =
     (if u24_h b < u24_h x then True else if u24_h x < u24_h b then False else u24_l b < u24_l x)"

definition u24_greater_eq :: "uint24 \<Rightarrow> uint24 \<Rightarrow> bool" where
  "u24_greater_eq x b =
     (if u24_h b < u24_h x then True else if u24_h x < u24_h b then False else u24_l b \<le> u24_l x)"

definition u24_less :: "uint24 \<Rightarrow> uint24 \<Rightarrow> bool" where
  "u24_less x b =
     (if u24_h x < u24_h b then True else if u24_h b < u24_h x then False else u24_l x < u24_l b)"

definition u24_less_eq :: "uint24 \<Rightarrow> uint24 \<Rightarrow> bool" where
  "u24_less_eq x b =
     (if u24_h x < u24_h b then True else if u24_h b < u24_h x then False else u24_l x \<le> u24_l b)"

definition u24_equal :: "uint24 \<Rightarrow> uint24 \<Rightarrow> bool" where
  "u24_equal x b \<longleftrightarrow> u24_h b = u24_h x \<and> u24_l b = u24_l x"

definition u24_differs :: "uint24 \<Rightarrow> uint24 \<Rightarrow> bool" where
  "u24_differs x b \<longleftrightarrow> u24_h b \<noteq> u24_h x \<or> u24_l b \<noteq> u24_l x"

text \<open>
  The operators with a \<open>TUINT32\<close>, the upper half of which is compared as an unsigned integer, and with
  a \<open>TINT32\<close>, which is shifted with its sign.
\<close>

definition u24_greater_32 :: "uint24 \<Rightarrow> 32 word \<Rightarrow> bool" where
  "u24_greater_32 x b =
     (if drop_bit 16 b < ucast (u24_h x) then True
      else if ucast (u24_h x) < drop_bit 16 b then False else b AND 0xffff < ucast (u24_l x))"

definition u24_greater_eq_32 :: "uint24 \<Rightarrow> 32 word \<Rightarrow> bool" where
  "u24_greater_eq_32 x b =
     (if drop_bit 16 b < ucast (u24_h x) then True
      else if ucast (u24_h x) < drop_bit 16 b then False else b AND 0xffff \<le> ucast (u24_l x))"

definition u24_less_int :: "uint24 \<Rightarrow> 32 word \<Rightarrow> bool" where
  "u24_less_int x b =
     (if uint (u24_h x) < drop_bit 16 (sint b) then True
      else if drop_bit 16 (sint b) < uint (u24_h x) then False else uint (u24_l x) < sint b AND 0xffff)"

definition u24_less_eq_int :: "uint24 \<Rightarrow> 32 word \<Rightarrow> bool" where
  "u24_less_eq_int x b =
     (if uint (u24_h x) < drop_bit 16 (sint b) then True
      else if drop_bit 16 (sint b) < uint (u24_h x) then False else uint (u24_l x) \<le> sint b AND 0xffff)"

definition u24_equal_32 :: "uint24 \<Rightarrow> 32 word \<Rightarrow> bool" where
  "u24_equal_32 x b \<longleftrightarrow> drop_bit 16 b = ucast (u24_h x) \<and> b AND 0xffff = ucast (u24_l x)"

definition u24_differs_32 :: "uint24 \<Rightarrow> 32 word \<Rightarrow> bool" where
  "u24_differs_32 x b \<longleftrightarrow> drop_bit 16 b \<noteq> ucast (u24_h x) \<or> b AND 0xffff \<noteq> ucast (u24_l x)"

definition u24_equal_16 :: "uint24 \<Rightarrow> 16 word \<Rightarrow> bool" where
  "u24_equal_16 x b \<longleftrightarrow> 0 = u24_h x \<and> b = u24_l x"

definition u24_differs_16 :: "uint24 \<Rightarrow> 16 word \<Rightarrow> bool" where
  "u24_differs_16 x b \<longleftrightarrow> 0 \<noteq> u24_h x \<or> b \<noteq> u24_l x"

subsection \<open>Values\<close>

definition u24_val :: "uint24 \<Rightarrow> nat" where
  "u24_val x = unat (u24_h x) * 65536 + unat (u24_l x)"

lemma unat_bounds:
  "unat (h :: 8 word) < 256" "unat (l :: 16 word) < 65536" "unat (b :: 32 word) < 4294967296"
  using unsigned_less [where w = h] unsigned_less [where w = l] unsigned_less [where w = b] by simp_all

lemma u24_val_less: "u24_val x < 16777216"
  using unat_bounds(1) [of "u24_h x"] unat_bounds(2) [of "u24_l x"] by (simp add: u24_val_def)

lemma or_push_bit_nat:
  assumes "l < 2 ^ n"
  shows "push_bit n h OR l = h * 2 ^ n + (l :: nat)"
proof -
  have l: "take_bit n l = l" using assms by (simp add: take_bit_nat_eq_self)
  have "push_bit n h AND take_bit n l = 0" by (rule bit_eqI) (simp add: bit_simps)
  then have "push_bit n h AND l = 0" unfolding l .
  then show ?thesis by (simp add: disjunctive_add_eq_or [symmetric] push_bit_eq_mult)
qed

lemma unat_GetVal: "unat (GetVal x) = u24_val x"
proof -
  have "unat (u24_h x) * 65536 < 4294967296" using unat_bounds(1) [of "u24_h x"] by simp
  then have h: "unat (push_bit 16 (ucast (u24_h x) :: 32 word)) = push_bit 16 (unat (u24_h x))"
    using unat_bounds(1) [of "u24_h x"]
    unfolding unsigned_push_bit_eq unsigned_ucast_eq by (simp add: take_bit_nat_eq_self push_bit_eq_mult)
  have l: "unat (ucast (u24_l x) :: 32 word) = unat (u24_l x)"
    using unat_bounds(2) [of "u24_l x"] by (simp add: unsigned_ucast_eq take_bit_nat_eq_self)
  show ?thesis
    using or_push_bit_nat [of "unat (u24_l x)" 16 "unat (u24_h x)"] unat_bounds(2) [of "u24_l x"]
    unfolding GetVal_def unsigned_or_eq h l by (simp add: u24_val_def)
qed

text \<open>The halves of a 32-bit integer.\<close>

lemma halves_32:
  "unat (drop_bit 16 b) = unat b div 65536" "unat (b AND 0xffff) = unat b mod 65536" for b :: "32 word"
proof -
  show "unat (drop_bit 16 b) = unat b div 65536"
    unfolding unsigned_drop_bit_eq by (simp add: drop_bit_eq_div take_bit_nat_eq_self unat_bounds)
  have "b AND 0xffff = take_bit 16 b" by (simp add: take_bit_eq_mask mask_eq_exp_minus_1)
  moreover have "unat (take_bit 16 b) = unat b mod 65536"
    unfolding unsigned_take_bit_eq by (simp add: take_bit_eq_mod)
  ultimately show "unat (b AND 0xffff) = unat b mod 65536" by (simp only:)
qed

lemma unat_ucast_32:
  "unat (ucast (h :: 8 word) :: 32 word) = unat h" "unat (ucast (l :: 16 word) :: 32 word) = unat l"
  using unat_bounds(1) [of h] unat_bounds(2) [of l] by (simp_all add: unsigned_ucast_eq take_bit_nat_eq_self)

lemma lex_digits:
  fixes a b c d :: int
  assumes "0 \<le> b" "b < 65536" "0 \<le> d" "d < 65536"
  shows "a * 65536 + b < c * 65536 + d \<longleftrightarrow> a < c \<or> a = c \<and> b < d"
    "a * 65536 + b \<le> c * 65536 + d \<longleftrightarrow> a < c \<or> a = c \<and> b \<le> d"
    "a * 65536 + b = c * 65536 + d \<longleftrightarrow> a = c \<and> b = d"
proof -
  have "a * 65536 + b < c * 65536 + d" if "a < c" using assms that by linarith
  moreover have "c * 65536 + d < a * 65536 + b" if "c < a" using assms that by linarith
  note lt = this calculation
  consider "a < c" | "c < a" | "a = c" by linarith
  then have "(a * 65536 + b < c * 65536 + d \<longleftrightarrow> a < c \<or> a = c \<and> b < d) \<and>
    (a * 65536 + b \<le> c * 65536 + d \<longleftrightarrow> a < c \<or> a = c \<and> b \<le> d) \<and>
    (a * 65536 + b = c * 65536 + d \<longleftrightarrow> a = c \<and> b = d)"
  proof cases
    case 1
    with lt(2) [OF 1] show ?thesis by simp
  next
    case 2
    with lt(1) [OF 2] show ?thesis by simp
  qed simp
  then show "a * 65536 + b < c * 65536 + d \<longleftrightarrow> a < c \<or> a = c \<and> b < d"
    "a * 65536 + b \<le> c * 65536 + d \<longleftrightarrow> a < c \<or> a = c \<and> b \<le> d"
    "a * 65536 + b = c * 65536 + d \<longleftrightarrow> a = c \<and> b = d" by blast+
qed

lemma lex_digits_nat:
  fixes a b c d :: nat
  assumes "b < 65536" "d < 65536"
  shows "a * 65536 + b < c * 65536 + d \<longleftrightarrow> a < c \<or> a = c \<and> b < d"
    "a * 65536 + b \<le> c * 65536 + d \<longleftrightarrow> a < c \<or> a = c \<and> b \<le> d"
    "a * 65536 + b = c * 65536 + d \<longleftrightarrow> a = c \<and> b = d"
proof -
  have r: "0 \<le> int b" "int b < 65536" "0 \<le> int d" "int d < 65536" using assms by simp_all
  have e: "int x * 65536 + int y = int (x * 65536 + y)" for x y by simp
  show "a * 65536 + b < c * 65536 + d \<longleftrightarrow> a < c \<or> a = c \<and> b < d"
    "a * 65536 + b \<le> c * 65536 + d \<longleftrightarrow> a < c \<or> a = c \<and> b \<le> d"
    "a * 65536 + b = c * 65536 + d \<longleftrightarrow> a = c \<and> b = d"
    using lex_digits [OF r, of "int a" "int c"] unfolding e of_nat_less_iff of_nat_le_iff of_nat_eq_iff by blast+
qed

text \<open>The digits of the values, as integers.\<close>

lemma u24_digits:
  "int (u24_val x) = uint (u24_h x) * 65536 + uint (u24_l x)" "0 \<le> uint (u24_l x)" "uint (u24_l x) < 65536"
  using unsigned_less [where w = "u24_l x" and ?'a = int] by (simp_all add: u24_val_def)

lemmas lex_u24 = lex_digits [OF u24_digits(2,3) u24_digits(2,3)]

lemma u24_less_val: "u24_less x b \<longleftrightarrow> u24_val x < u24_val b"
  unfolding of_nat_less_iff [where ?'a = int, symmetric] u24_digits(1) lex_u24
  by (auto simp: u24_less_def word_less_def word_uint_eq_iff)

lemma u24_less_eq_val: "u24_less_eq x b \<longleftrightarrow> u24_val x \<le> u24_val b"
  unfolding of_nat_le_iff [where ?'a = int, symmetric] u24_digits(1) lex_u24
  by (auto simp: u24_less_eq_def word_less_def word_le_def word_uint_eq_iff)

lemma u24_val_eq: "x = b \<longleftrightarrow> u24_val x = u24_val b"
  unfolding of_nat_eq_iff [where ?'a = int, symmetric] u24_digits(1) lex_u24
  by (cases x; cases b) (auto simp: word_uint_eq_iff)

text \<open>With the operators of the class the three-byte integers are a linear order.\<close>

instantiation uint24 :: linorder
begin

definition "less_uint24 = u24_less"

definition "less_eq_uint24 = u24_less_eq"

instance
  by standard (auto simp: less_uint24_def less_eq_uint24_def u24_less_val u24_less_eq_val u24_val_eq)

end

lemma u24_of_32_val: "u24_val (u24_of_32 a) = unat a mod 16777216"
proof -
  have "unat (ucast (drop_bit 16 a) :: 8 word) = unat a div 65536 mod 256"
    by (simp add: unsigned_ucast_eq halves_32 take_bit_eq_mod)
  moreover have "unat (ucast a :: 16 word) = unat a mod 65536"
    by (simp add: unsigned_ucast_eq take_bit_eq_mod)
  ultimately show ?thesis
    using mod_mult2_eq [of "unat a" 65536 256] by (simp add: u24_val_def u24_of_32_def)
qed

lemma u24_cmp_32:
  "u24_greater_32 x b \<longleftrightarrow> unat b < u24_val x" "u24_greater_eq_32 x b \<longleftrightarrow> unat b \<le> u24_val x"
  "u24_equal_32 x b \<longleftrightarrow> u24_val x = unat b" "u24_differs_32 x b \<longleftrightarrow> u24_val x \<noteq> unat b"
proof -
  have r: "unat b mod 65536 < 65536" by simp
  note lex = lex_digits_nat [OF r unat_bounds(2) [of "u24_l x"], of "unat b div 65536" "unat (u24_h x)"]
  have "unat b < u24_val x \<longleftrightarrow> unat b div 65536 * 65536 + unat b mod 65536 < u24_val x"
    "unat b \<le> u24_val x \<longleftrightarrow> unat b div 65536 * 65536 + unat b mod 65536 \<le> u24_val x"
    "unat b = u24_val x \<longleftrightarrow> unat b div 65536 * 65536 + unat b mod 65536 = u24_val x" by simp_all
  note lex = this [unfolded u24_val_def lex, folded u24_val_def]
  note words = word_less_nat_alt word_le_nat_alt halves_32 unat_ucast_32
  show "u24_greater_32 x b \<longleftrightarrow> unat b < u24_val x" "u24_greater_eq_32 x b \<longleftrightarrow> unat b \<le> u24_val x"
    unfolding lex by (auto simp: u24_greater_32_def u24_greater_eq_32_def words)
  have "u24_equal_32 x b \<longleftrightarrow> unat b = u24_val x"
    unfolding lex by (simp add: u24_equal_32_def word_unat_eq_iff words)
  then show "u24_equal_32 x b \<longleftrightarrow> u24_val x = unat b" "u24_differs_32 x b \<longleftrightarrow> u24_val x \<noteq> unat b"
    by (auto simp: u24_equal_32_def u24_differs_32_def)
qed

lemma u24_cmp_int:
  "u24_less_int x b \<longleftrightarrow> int (u24_val x) < sint b" "u24_less_eq_int x b \<longleftrightarrow> int (u24_val x) \<le> sint b"
proof -
  have m: "(0xffff :: int) = mask 16" by (simp add: mask_eq_exp_minus_1)
  have a: "sint b AND 0xffff = sint b mod 65536"
    unfolding m take_bit_eq_mask [symmetric] take_bit_eq_mod by simp
  have d: "drop_bit 16 (sint b) = sint b div 65536" by (simp add: drop_bit_eq_div)
  have v: "sint b = sint b div 65536 * 65536 + sint b mod 65536" by simp
  have r: "0 \<le> sint b mod 65536" "sint b mod 65536 < 65536" by simp_all
  note lex = lex_digits [OF u24_digits(2,3) [of x] r, of "uint (u24_h x)" "sint b div 65536"]
  have "int (u24_val x) < sint b \<longleftrightarrow> uint (u24_h x) * 65536 + uint (u24_l x) < sint b div 65536 * 65536 + sint b mod 65536"
    "int (u24_val x) \<le> sint b \<longleftrightarrow> uint (u24_h x) * 65536 + uint (u24_l x) \<le> sint b div 65536 * 65536 + sint b mod 65536"
    using u24_digits(1) [of x] by simp_all
  then show "u24_less_int x b \<longleftrightarrow> int (u24_val x) < sint b" "u24_less_eq_int x b \<longleftrightarrow> int (u24_val x) \<le> sint b"
    unfolding lex by (auto simp: u24_less_int_def u24_less_eq_int_def a d)
qed

section \<open>The bit map\<close>

text \<open>
  A \<open>TUINT64\<close> addressed as eight bytes, the lowest first. \<open>bit_byte w i\<close> reads byte \<open>i\<close>, \<open>put_byte\<close> writes
  it; the position of a bit is split into the byte and the bit in it. A position behind the eighth
  byte is an access outside of the integer.
\<close>

definition bit_byte :: "64 word \<Rightarrow> nat \<Rightarrow> 8 word" where
  "bit_byte w i = ucast (drop_bit (8 * i) w)"

definition put_byte :: "nat \<Rightarrow> 8 word \<Rightarrow> 64 word \<Rightarrow> 64 word" where
  "put_byte i b w = (w AND NOT (push_bit (8 * i) (mask 8))) OR push_bit (8 * i) (ucast b)"

definition SetBitMap :: "64 word \<Rightarrow> nat \<Rightarrow> fault + 64 word" where
  "SetBitMap bitMap udwPos =
     (if 8 \<le> drop_bit 3 udwPos then Inl Out_of_bounds
      else Inr (put_byte (drop_bit 3 udwPos)
             (bit_byte bitMap (drop_bit 3 udwPos) OR push_bit (udwPos AND 7) 1) bitMap))"

definition GetBitMap :: "64 word \<Rightarrow> nat \<Rightarrow> fault + bool" where
  "GetBitMap bitMap udwPos =
     (if 8 \<le> drop_bit 3 udwPos then Inl Out_of_bounds
      else Inr (bit_byte bitMap (drop_bit 3 udwPos) AND push_bit (udwPos AND 7) 1 \<noteq> 0))"

definition BYTE_COUNTS :: "nat list" where
  "BYTE_COUNTS =
    [0, 1, 1, 2, 1, 2, 2, 3, 1, 2, 2, 3, 2, 3, 3, 4, 1, 2, 2, 3, 2, 3, 3, 4, 2, 3, 3, 4, 3, 4, 4, 5,
     1, 2, 2, 3, 2, 3, 3, 4, 2, 3, 3, 4, 3, 4, 4, 5, 2, 3, 3, 4, 3, 4, 4, 5, 3, 4, 4, 5, 4, 5, 5, 6,
     1, 2, 2, 3, 2, 3, 3, 4, 2, 3, 3, 4, 3, 4, 4, 5, 2, 3, 3, 4, 3, 4, 4, 5, 3, 4, 4, 5, 4, 5, 5, 6,
     2, 3, 3, 4, 3, 4, 4, 5, 3, 4, 4, 5, 4, 5, 5, 6, 3, 4, 4, 5, 4, 5, 5, 6, 4, 5, 5, 6, 5, 6, 6, 7,
     1, 2, 2, 3, 2, 3, 3, 4, 2, 3, 3, 4, 3, 4, 4, 5, 2, 3, 3, 4, 3, 4, 4, 5, 3, 4, 4, 5, 4, 5, 5, 6,
     2, 3, 3, 4, 3, 4, 4, 5, 3, 4, 4, 5, 4, 5, 5, 6, 3, 4, 4, 5, 4, 5, 5, 6, 4, 5, 5, 6, 5, 6, 6, 7,
     2, 3, 3, 4, 3, 4, 4, 5, 3, 4, 4, 5, 4, 5, 5, 6, 3, 4, 4, 5, 4, 5, 5, 6, 4, 5, 5, 6, 5, 6, 6, 7,
     3, 4, 4, 5, 4, 5, 5, 6, 4, 5, 5, 6, 5, 6, 6, 7, 4, 5, 5, 6, 5, 6, 6, 7, 5, 6, 6, 7, 6, 7, 7, 8]"

definition GetBitMapCount :: "64 word \<Rightarrow> nat" where
  "GetBitMapCount bitMap = sum_list (map (\<lambda>i. BYTE_COUNTS ! unat (bit_byte bitMap i)) [0..<8])"

lemma pos_split: "drop_bit 3 p = p div 8" "p AND 7 = p mod 8" for p :: nat
proof -
  have "p AND mask 3 = p mod 2 ^ 3" by (simp add: take_bit_eq_mask [symmetric] take_bit_eq_mod)
  then show "p AND 7 = p mod 8" by (simp add: mask_eq_exp_minus_1)
qed (simp add: drop_bit_eq_div)

lemma bit_bit_byte: "bit (bit_byte w i) j \<longleftrightarrow> j < 8 \<and> bit w (8 * i + j)"
  by (simp add: bit_byte_def bit_simps add.commute numeral_eq_Suc)

lemma bit_put_byte:
  "n < 64 \<Longrightarrow> bit (put_byte i b w) n \<longleftrightarrow> (if 8 * i \<le> n \<and> n < 8 * i + 8 then bit b (n - 8 * i) else bit w n)"
  by (auto simp: put_byte_def bit_simps dest: bit_imp_le_length)

lemma GetBitMap_bit: "GetBitMap w p = (if p < 64 then Inr (bit w p) else Inl Out_of_bounds)"
proof -
  have "8 \<le> p div 8 \<longleftrightarrow> \<not> p < 64" by auto
  moreover have "bit_byte w (p div 8) AND push_bit (p mod 8) 1 \<noteq> 0 \<longleftrightarrow> bit w p"
    unfolding bit_iff_and_push_bit_not_eq_0 [symmetric] bit_bit_byte by simp
  ultimately show ?thesis unfolding GetBitMap_def pos_split by auto
qed

lemma SetBitMap_bit:
  "SetBitMap w p = (if p < 64 then Inr (w OR push_bit p 1) else Inl Out_of_bounds)"
proof (cases "p < 64")
  case True
  then have d: "\<not> 8 \<le> p div 8" "p = 8 * (p div 8) + p mod 8" by auto
  have "put_byte (p div 8) (bit_byte w (p div 8) OR push_bit (p mod 8) 1) w = w OR push_bit p 1"
  proof (rule bit_word_eqI)
    fix n assume n: "n < LENGTH(64)"
    define q r where "q = p div 8" and "r = p mod 8"
    have p: "p = 8 * q + r" "r < 8" by (simp_all add: q_def r_def)
    have "bit (put_byte q (bit_byte w q OR push_bit r 1) w) n \<longleftrightarrow> bit (w OR push_bit p 1) n"
      using n True p(2) unfolding p(1)
      by (auto simp: bit_put_byte bit_bit_byte bit_or_iff bit_exp_iff)
    then show "bit (put_byte (p div 8) (bit_byte w (p div 8) OR push_bit (p mod 8) 1) w) n \<longleftrightarrow> bit (w OR push_bit p 1) n"
      unfolding q_def r_def .
  qed
  with True d(1) show ?thesis by (simp add: SetBitMap_def pos_split)
next
  case False
  then have "8 \<le> p div 8" by auto
  with False show ?thesis by (simp add: SetBitMap_def pos_split)
qed

text \<open>The number of bits that are set.\<close>

definition bit_count :: "nat \<Rightarrow> 'a :: len word \<Rightarrow> nat" where
  "bit_count n w = card {i. i < n \<and> bit w i}"

lemma BYTE_COUNTS_correct: "BYTE_COUNTS ! unat b = bit_count 8 b" for b :: "8 word"
proof -
  have u: "[0..<8] = [0, 1, 2, 3, 4, 5, 6, 7]" by code_simp
  have "{i. i < 8 \<and> bit b i} = {i \<in> set [0..<8]. bit b i}" by auto
  then have "bit_count 8 b = card (set (filter (bit b) [0..<8]))"
    unfolding bit_count_def set_filter by (rule arg_cong)
  also have "\<dots> = length (filter (bit b) [0..<8])" by (rule distinct_card) simp
  finally have c: "bit_count 8 b = length (filter (bit b) [0, 1, 2, 3, 4, 5, 6, 7])" unfolding u .
  have t: "map int BYTE_COUNTS = map (\<lambda>k. int (length (filter (\<lambda>i. k div i mod 2 = 1) [1, 2, 4, 8, 16, 32, 64, 128]))) [0..255]"
    by code_simp
  have l: "length BYTE_COUNTS = 256" by code_simp
  have n: "unat b < length BYTE_COUNTS" unfolding l by (rule unat_bounds(1))
  have u: "uint b = int (unat b)" "nat (uint b) = unat b" by simp_all
  have b: "uint b \<le> 255" using unat_bounds(1) [of b] unfolding u(1) by linarith
  let ?f = "\<lambda>k. int (length (filter (\<lambda>i. k div i mod 2 = 1) [1, 2, 4, 8, 16, 32, 64, 128]))"
  have "int (BYTE_COUNTS ! unat b) = map int BYTE_COUNTS ! unat b" using n by (rule nth_map [symmetric])
  also have "\<dots> = ?f ([0..255] ! unat b)" unfolding t by (rule nth_map) (use n l in simp)
  also have "[0..255] ! unat b = uint b" using b by (subst nth_upto) simp_all
  also have "?f (uint b) = int (length (filter (bit b) [0, 1, 2, 3, 4, 5, 6, 7]))"
  proof -
    have bj: "uint b div 2 ^ j mod 2 = 1 \<longleftrightarrow> bit b j" for j
    proof -
      have "uint b div 2 ^ j mod 2 = 1 \<longleftrightarrow> bit (uint b) j" by (simp add: bit_iff_odd odd_iff_mod_2_eq_one)
      also have "\<dots> \<longleftrightarrow> bit b j" by (simp add: bit_uint_iff) (auto dest: bit_imp_le_length)
      finally show ?thesis .
    qed
    have p: "[1, 2, 4, 8, 16, 32, 64, 128] = map ((^) (2 :: int)) [0, 1, 2, 3, 4, 5, 6, 7]" by simp
    show ?thesis unfolding p filter_map length_map comp_def bj ..
  qed
  finally show ?thesis by (simp add: c)
qed

lemma bit_count_split: "bit_count (n + 8) w = bit_count n w + card {j. j < 8 \<and> bit w (n + j)}"
proof -
  have "{i. i < n + 8 \<and> bit w i} = {i. i < n \<and> bit w i} \<union> (+) n ` {j. j < 8 \<and> bit w (n + j)}"
  proof (intro set_eqI iffI)
    fix i assume i: "i \<in> {i. i < n + 8 \<and> bit w i}"
    show "i \<in> {i. i < n \<and> bit w i} \<union> (+) n ` {j. j < 8 \<and> bit w (n + j)}"
    proof (cases "i < n")
      case False
      with i have "i = n + (i - n)" "i - n < 8" "bit w (n + (i - n))" by auto
      then show ?thesis by blast
    qed (use i in simp)
  qed auto
  moreover have "card ((+) n ` {j. j < 8 \<and> bit w (n + j)}) = card {j. j < 8 \<and> bit w (n + j)}"
    by (rule card_image) simp
  moreover have "card ({i. i < n \<and> bit w i} \<union> (+) n ` {j. j < 8 \<and> bit w (n + j)}) =
      card {i. i < n \<and> bit w i} + card ((+) n ` {j. j < 8 \<and> bit w (n + j)})"
    by (rule card_Un_disjoint) auto
  ultimately show ?thesis by (simp add: bit_count_def)
qed

lemma GetBitMapCount_correct: "GetBitMapCount w = bit_count 64 w"
proof -
  have "sum_list (map (\<lambda>i. BYTE_COUNTS ! unat (bit_byte w i)) [0..<n]) = bit_count (8 * n) w" for n
  proof (induction n)
    case (Suc n)
    have "BYTE_COUNTS ! unat (bit_byte w n) = card {j. j < 8 \<and> bit w (8 * n + j)}"
      by (simp add: BYTE_COUNTS_correct bit_count_def bit_bit_byte)
    with Suc bit_count_split [of "8 * n" w] show ?case by (simp add: add.commute)
  qed (simp add: bit_count_def)
  from this [of 8] show ?thesis by (simp add: GetBitMapCount_def)
qed

section \<open>GBK characters\<close>

definition IsStrictGBKChar :: "string \<Rightarrow> bool" where
  "IsStrictGBKChar szWord =
     (let c1 = of_char (szWord ! 0) :: nat; c2 = of_char (szWord ! 1) :: nat
      in (0xA1 \<le> c1 \<and> c1 \<le> 0xA9) \<and> (0xA0 \<le> c2 \<and> c2 \<le> 0xFF) \<or>
         (0xA8 \<le> c1 \<and> c1 \<le> 0xA9) \<and> (0x40 \<le> c2 \<and> c2 \<le> 0xFF) \<or>
         (0xB0 \<le> c1 \<and> c1 \<le> 0xF7) \<and> (0xA0 \<le> c2 \<and> c2 \<le> 0xFF) \<or>
         (0x81 \<le> c1 \<and> c1 \<le> 0xA0) \<and> (0x40 \<le> c2 \<and> c2 \<le> 0xFF) \<or>
         (0xAA \<le> c1 \<and> c1 \<le> 0xFE) \<and> (0x40 \<le> c2 \<and> c2 \<le> 0xAF))"

fun IsIncludeChnGBK :: "string \<Rightarrow> bool" where
  "IsIncludeChnGBK [] = False"
| "IsIncludeChnGBK (c # cs) =
     (if char_neg c \<and> cs \<noteq> [] then IsStrictGBKChar (c # cs) else IsIncludeChnGBK cs)"

text \<open>A text has a Chinese character in the sense of this test when its first two-byte character is one.\<close>

lemma IsIncludeChnGBK_first:
  "IsIncludeChnGBK s \<longleftrightarrow> 2 \<le> length (dropWhile (\<lambda>c. \<not> char_neg c) s) \<and>
     IsStrictGBKChar (dropWhile (\<lambda>c. \<not> char_neg c) s)"
proof (induction s)
  case (Cons c s)
  then show ?case by (cases s) auto
qed simp

section \<open>gary_math.h\<close>

definition GMax :: "'a :: linorder \<Rightarrow> 'a \<Rightarrow> 'a" where
  "GMax t1 t2 = (if t2 \<le> t1 then t1 else t2)"

definition GMin :: "'a :: linorder \<Rightarrow> 'a \<Rightarrow> 'a" where
  "GMin t1 t2 = (if t1 \<le> t2 then t1 else t2)"

lemma GMax_GMin: "GMax a b = max a b" "GMin a b = min a b"
  by (auto simp: GMax_def GMin_def)

section \<open>Properties\<close>

text \<open>
  C34: A three-byte integer is its value: storing 32 bits keeps the lowest 24, \<open>GetVal\<close> gives the value
  back, and each of the comparison operators, with another three-byte integer or with an unsigned, a
  signed or a short integer, compares the values.
\<close>

theorem three_byte_integers:
  "u24_val (u24_of_32 a) = unat a mod 2 ^ 24 \<and> u24_val (u24_of_16 s) = unat s \<and> unat (GetVal x) = u24_val x \<and>
   (u24_less x y \<longleftrightarrow> u24_val x < u24_val y) \<and> (u24_less_eq x y \<longleftrightarrow> u24_val x \<le> u24_val y) \<and>
   (u24_greater x y \<longleftrightarrow> u24_val y < u24_val x) \<and> (u24_greater_eq x y \<longleftrightarrow> u24_val y \<le> u24_val x) \<and>
   (u24_equal x y \<longleftrightarrow> u24_val x = u24_val y) \<and> (u24_differs x y \<longleftrightarrow> u24_val x \<noteq> u24_val y) \<and>
   (u24_greater_32 x b \<longleftrightarrow> unat b < u24_val x) \<and> (u24_greater_eq_32 x b \<longleftrightarrow> unat b \<le> u24_val x) \<and>
   (u24_equal_32 x b \<longleftrightarrow> u24_val x = unat b) \<and> (u24_differs_32 x b \<longleftrightarrow> u24_val x \<noteq> unat b) \<and>
   (u24_less_int x b \<longleftrightarrow> int (u24_val x) < sint b) \<and> (u24_less_eq_int x b \<longleftrightarrow> int (u24_val x) \<le> sint b) \<and>
   (u24_equal_16 x s \<longleftrightarrow> u24_val x = unat s) \<and> (u24_differs_16 x s \<longleftrightarrow> u24_val x \<noteq> unat s)"
proof -
  have g: "u24_greater x y = u24_less y x" "u24_greater_eq x y = u24_less_eq y x"
    by (simp_all add: u24_greater_def u24_less_def u24_greater_eq_def u24_less_eq_def)
  have e: "u24_equal x y \<longleftrightarrow> x = y" "u24_differs x y \<longleftrightarrow> x \<noteq> y"
    by (cases x; cases y; auto simp: u24_equal_def u24_differs_def)+
  have s: "u24_val (u24_of_16 s) = unat s" by (simp add: u24_of_16_def u24_val_def)
  have s': "u24_equal_16 x s \<longleftrightarrow> x = u24_of_16 s" "u24_differs_16 x s \<longleftrightarrow> x \<noteq> u24_of_16 s"
    by (cases x; auto simp: u24_equal_16_def u24_differs_16_def u24_of_16_def)+
  show ?thesis
    unfolding g e s' u24_less_val u24_less_eq_val u24_val_eq s u24_cmp_32 u24_cmp_int unat_GetVal u24_of_32_val
    by simp
qed

text \<open>
  C33: The bit map is a set of the positions below 64: \<open>SetBitMap\<close> adds a position and nothing else, \<open>GetBitMap\<close>
  asks for one, \<open>GetBitMapCount\<close> is the number of positions in the set, and a position from 64 on is an
  access outside of the integer.
\<close>

theorem bit_map_is_set:
  "(\<forall>p < 64. \<exists>w'. SetBitMap w p = Inr w' \<and> (\<forall>q < 64. GetBitMap w' q = Inr (q = p \<or> GetBitMap w q = Inr True))) \<and>
   GetBitMapCount w = card {q. GetBitMap w q = Inr True} \<and>
   (\<forall>p \<ge> 64. SetBitMap w p = Inl Out_of_bounds \<and> GetBitMap w p = Inl Out_of_bounds)"
proof (intro conjI allI impI)
  fix p :: nat assume "p < 64"
  then show "\<exists>w'. SetBitMap w p = Inr w' \<and> (\<forall>q < 64. GetBitMap w' q = Inr (q = p \<or> GetBitMap w q = Inr True))"
    by (auto simp: SetBitMap_bit GetBitMap_bit bit_or_iff bit_exp_iff)
next
  have "{q. GetBitMap w q = Inr True} = {q. q < 64 \<and> bit w q}" by (auto simp: GetBitMap_bit)
  then show "GetBitMapCount w = card {q. GetBitMap w q = Inr True}"
    by (simp add: GetBitMapCount_correct bit_count_def)
qed (simp_all add: SetBitMap_bit GetBitMap_bit)

theorem bit_map_is_set_witness: "SetBitMap 0 64 = Inl Out_of_bounds \<and> GetBitMapCount 0x8001 = 2"
proof -
  have "GetBitMapCount 0x8001 = 2" by code_simp
  with bit_map_is_set [of 0] show ?thesis by simp
qed

end
