(* ===== verification/Bit_Vector.thy ===== *)
theory Bit_Vector
  imports Gary_Words
begin

unbundle bit_operations_syntax

text \<open>
  \<^verbatim>\<open>BitVector\<close> of \<^verbatim>\<open>src/index/index_da/darts.h\<close>: a growing vector of bits in 32-bit units with a
  rank index. \<open>rank_counts\<close> is its contract: \<^verbatim>\<open>rank\<close> counts the bits that are set up to a position,
  so that the bits that are set are numbered from 1 in the order of their positions. The pools
  (\<^verbatim>\<open>AutoPool\<close>, \<^verbatim>\<open>AutoArray\<close>) are lists; an access behind their end is a fault.
\<close>

type_synonym id_type = "32 word"

definition bind_ok :: "'e + 'a \<Rightarrow> ('a \<Rightarrow> 'e + 'b) \<Rightarrow> 'e + 'b" where
  "bind_ok m f = (case m of Inl e \<Rightarrow> Inl e | Inr x \<Rightarrow> f x)"

lemma bind_ok_simps [simp]:
  "bind_ok (Inl e) f = Inl e" "bind_ok (Inr x) f = f x"
  by (simp_all add: bind_ok_def)

lemma bind_ok_eq_Inr: "bind_ok m f = Inr y \<longleftrightarrow> (\<exists>x. m = Inr x \<and> f x = Inr y)"
  by (cases m) auto

definition pool_at :: "'a list \<Rightarrow> nat \<Rightarrow> fault + 'a" where
  "pool_at xs i = (if i < length xs then Inr (xs ! i) else Inl Out_of_bounds)"

definition pool_set :: "'a list \<Rightarrow> nat \<Rightarrow> 'a \<Rightarrow> fault + 'a list" where
  "pool_set xs i x = (if i < length xs then Inr (xs[i := x]) else Inl Out_of_bounds)"

lemma pool_at_ok [simp]: "i < length xs \<Longrightarrow> pool_at xs i = Inr (xs ! i)"
  by (simp add: pool_at_def)

lemma pool_set_ok [simp]: "i < length xs \<Longrightarrow> pool_set xs i x = Inr (xs[i := x])"
  by (simp add: pool_set_def)

record BitVector =
  bv_units :: "id_type list"
  bv_ranks :: "id_type list"
  bv_num_ones :: nat
  bv_size :: nat

definition bv_new :: BitVector where
  "bv_new = \<lparr>bv_units = [], bv_ranks = [], bv_num_ones = 0, bv_size = 0\<rparr>"

definition pop_count :: "id_type \<Rightarrow> id_type" where
  "pop_count u0 =
     (let u1 = drop_bit 1 (u0 AND 0xAAAAAAAA) + (u0 AND 0x55555555);
          u2 = drop_bit 2 (u1 AND 0xCCCCCCCC) + (u1 AND 0x33333333);
          u3 = (drop_bit 4 u2 + u2) AND 0x0F0F0F0F;
          u4 = u3 + drop_bit 8 u3;
          u5 = u4 + drop_bit 16 u4
      in u5 AND 0xFF)"

definition bv_get :: "BitVector \<Rightarrow> nat \<Rightarrow> fault + bool" where
  "bv_get v i = bind_ok (pool_at (bv_units v) (i div 32)) (\<lambda>u. Inr (drop_bit (i mod 32) u AND 1 = 1))"

definition bv_rank :: "BitVector \<Rightarrow> nat \<Rightarrow> fault + id_type" where
  "bv_rank v i =
     bind_ok (pool_at (bv_ranks v) (i div 32)) (\<lambda>r.
     bind_ok (pool_at (bv_units v) (i div 32)) (\<lambda>u.
       Inr (r + pop_count (u AND drop_bit (32 - i mod 32 - 1) (NOT 0)))))"

definition bv_set :: "BitVector \<Rightarrow> nat \<Rightarrow> bool \<Rightarrow> fault + BitVector" where
  "bv_set v i b =
     bind_ok (pool_at (bv_units v) (i div 32)) (\<lambda>u.
       let u' = (if b then u OR push_bit (i mod 32) 1 else u AND NOT (push_bit (i mod 32) 1))
       in Inr (v\<lparr>bv_units := (bv_units v)[i div 32 := u']\<rparr>))"

definition bv_append :: "BitVector \<Rightarrow> BitVector" where
  "bv_append v =
     v\<lparr>bv_units := (if bv_size v mod 32 = 0 then bv_units v @ [0] else bv_units v),
       bv_size := bv_size v + 1\<rparr>"

fun build_ranks :: "id_type list \<Rightarrow> nat \<Rightarrow> id_type list \<times> nat" where
  "build_ranks [] num_ones = ([], num_ones)"
| "build_ranks (u # us) num_ones =
     (let (rs, n) = build_ranks us (num_ones + unat (pop_count u)) in (of_nat num_ones # rs, n))"

definition bv_build :: "BitVector \<Rightarrow> BitVector" where
  "bv_build v = (let (rs, n) = build_ranks (bv_units v) 0 in v\<lparr>bv_ranks := rs, bv_num_ones := n\<rparr>)"

definition bv_clear :: "BitVector \<Rightarrow> BitVector" where
  "bv_clear v = v\<lparr>bv_units := [], bv_ranks := []\<rparr>"

section \<open>The number of ones in a unit\<close>

definition pop_pairs :: "id_type \<Rightarrow> id_type" where
  "pop_pairs u = drop_bit 1 (u AND 0xAAAAAAAA) + (u AND 0x55555555)"

definition pop_nibbles :: "id_type \<Rightarrow> id_type" where
  "pop_nibbles u = drop_bit 2 (u AND 0xCCCCCCCC) + (u AND 0x33333333)"

definition pop_bytes :: "id_type \<Rightarrow> id_type" where
  "pop_bytes u = (drop_bit 4 u + u) AND 0x0F0F0F0F"

lemma drop_bit_or: "drop_bit n (a OR b) = drop_bit n a OR drop_bit n (b :: 'a :: len word)"
  by (rule bit_word_eqI) (simp add: bit_simps)

lemma plus_disjoint: "(a :: 'a :: len word) AND b = 0 \<Longrightarrow> a OR b = a + b"
  by (simp add: disjunctive_add_eq_or)

lemma and_disjoint:
  "a AND b = 0 \<Longrightarrow> (a AND m) AND (b AND m) = (0 :: 'a :: len word)"
  by (metis and.assoc and.commute and_zero_eq)

lemma drop_bit_disjoint:
  "a AND b = 0 \<Longrightarrow> drop_bit n a AND drop_bit n b = (0 :: 'a :: len word)"
  by (metis drop_bit_and drop_bit_of_0)

lemma masked_sum:
  assumes "a AND b = (0 :: 'a :: len word)"
  shows "drop_bit n ((a OR b) AND m) + ((a OR b) AND k) =
    (drop_bit n (a AND m) + (a AND k)) + (drop_bit n (b AND m) + (b AND k))"
proof -
  have "drop_bit n ((a OR b) AND m) = drop_bit n (a AND m) + drop_bit n (b AND m)"
    unfolding bit.conj_disj_distrib2 drop_bit_or
    by (intro plus_disjoint drop_bit_disjoint and_disjoint assms)
  moreover have "(a OR b) AND k = (a AND k) + (b AND k)"
    unfolding bit.conj_disj_distrib2 by (intro plus_disjoint and_disjoint assms)
  ultimately show ?thesis by simp
qed

lemma pop_pairs_or: "a AND b = 0 \<Longrightarrow> pop_pairs (a OR b) = pop_pairs a + pop_pairs b"
  unfolding pop_pairs_def by (rule masked_sum)

lemma pop_nibbles_or: "a AND b = 0 \<Longrightarrow> pop_nibbles (a OR b) = pop_nibbles a + pop_nibbles b"
  unfolding pop_nibbles_def by (rule masked_sum)

text \<open>The pairs and the ones of a nibble that stands alone at one of the eight places.\<close>

definition nibble_pairs :: "id_type \<Rightarrow> id_type" where
  "nibble_pairs n = drop_bit 1 (n AND 10) + (n AND 5)"

definition nibble_ones :: "id_type \<Rightarrow> id_type" where
  "nibble_ones n = drop_bit 2 (nibble_pairs n AND 12) + (nibble_pairs n AND 3)"

lemma nibbles_counted:
  "list_all (\<lambda>s. list_all (\<lambda>n. pop_pairs (s * n) = s * nibble_pairs n \<and> nibble_pairs n < 16 \<and>
      pop_nibbles (s * nibble_pairs n) = s * nibble_ones n)
      [0, 1, 2, 3, 4, 5, 6, 7, 8, 9, 10, 11, 12, 13, 14, 15])
    [0x1, 0x10, 0x100, 0x1000, 0x10000, 0x100000, 0x1000000, 0x10000000]"
  by code_simp

definition nibble_at :: "id_type \<Rightarrow> nat \<Rightarrow> id_type" where
  "nibble_at u k = take_bit 4 (drop_bit (4 * k) u)"

lemma word_nibbles:
  "(n :: id_type) < 16 \<Longrightarrow> n \<in> set [0, 1, 2, 3, 4, 5, 6, 7, 8, 9, 10, 11, 12, 13, 14, 15]"
proof -
  assume "n < 16"
  then have "unat n < 16" by (simp add: word_less_nat_alt)
  then have "unat n \<in> set [0..<16]" by simp
  also have "[0..<16] = [0, 1, 2, 3, 4, 5, 6, 7, 8, 9, 10, 11, 12, 13, 14, 15]" by code_simp
  finally show ?thesis by (auto simp: word_unat_eq_iff)
qed

lemma nibble_at_less: "nibble_at u k < 16"
proof -
  have "unat (nibble_at u k) = take_bit 4 (unat (drop_bit (4 * k) u))"
    unfolding nibble_at_def by (rule unsigned_take_bit_eq)
  also have "\<dots> < 2 ^ 4" by (rule take_bit_nat_less_exp)
  finally show ?thesis by (simp add: word_less_nat_alt)
qed

lemma nibble_counted:
  assumes "k < 8" "n < 16"
  shows "pop_pairs (16 ^ k * n) = 16 ^ k * nibble_pairs n" "nibble_pairs n < 16"
    "pop_nibbles (16 ^ k * nibble_pairs n) = 16 ^ k * nibble_ones n"
proof -
  have "k \<in> set [0..<8]" using assms(1) by simp
  also have "[0..<8] = [0, 1, 2, 3, 4, 5, 6, 7]" by code_simp
  finally have k: "(16 :: id_type) ^ k \<in> set [0x1, 0x10, 0x100, 0x1000, 0x10000, 0x100000, 0x1000000, 0x10000000]"
    by auto
  from nibbles_counted k word_nibbles [OF assms(2)]
  show "pop_pairs (16 ^ k * n) = 16 ^ k * nibble_pairs n" "nibble_pairs n < 16"
    "pop_nibbles (16 ^ k * nibble_pairs n) = 16 ^ k * nibble_ones n"
    unfolding list_all_iff by blast+
qed

lemma sixteen_power: "(16 :: 'a :: comm_semiring_1) ^ k = 2 ^ (4 * k)"
proof -
  have "(16 :: 'a) = 2 ^ 4" by simp
  then show ?thesis by (simp add: power_mult)
qed

lemma shifted_nibble: "16 ^ k * n = push_bit (4 * k) (n :: id_type)"
  by (simp add: push_bit_eq_mult sixteen_power mult.commute)

lemma take_bit_nibble: "take_bit (4 * Suc k) u = take_bit (4 * k) u OR 16 ^ k * nibble_at u k" for u :: id_type
  unfolding shifted_nibble nibble_at_def by (rule bit_word_eqI) (auto simp: bit_simps)

lemma nibble_disjoint:
  "take_bit (4 * k) a AND 16 ^ k * n = (0 :: id_type)"
  unfolding shifted_nibble by (rule bit_word_eqI) (auto simp: bit_simps)

lemma take_bit_shifted:
  assumes "n < 16"
  shows "take_bit (4 * Suc k) (16 ^ k * n) = 16 ^ k * (n :: id_type)"
proof -
  have "unat n < 2 ^ 4" using assms by (simp add: word_less_nat_alt)
  then have n: "take_bit 4 n = n" by (simp add: word_unat_eq_iff unsigned_take_bit_eq take_bit_nat_eq_self)
  have "take_bit (4 * Suc k) (push_bit (4 * k) (take_bit 4 n)) = push_bit (4 * k) (take_bit 4 n)"
    by (rule bit_word_eqI) (auto simp: bit_simps)
  then show ?thesis unfolding shifted_nibble n .
qed

lemma pop_nibbles_sum:
  assumes "k \<le> 8"
  shows "take_bit (4 * k) (pop_pairs (take_bit (4 * k) u)) = pop_pairs (take_bit (4 * k) u) \<and>
    pop_nibbles (pop_pairs (take_bit (4 * k) u)) = (\<Sum>j<k. 16 ^ j * nibble_ones (nibble_at u j))"
  using assms
proof (induction k)
  case (Suc k)
  let ?p = "pop_pairs (take_bit (4 * k) u)" and ?n = "nibble_at u k"
  note c = nibble_counted [OF _ nibble_at_less, of k u]
  have k: "k < 8" using Suc.prems by simp
  have p: "pop_pairs (take_bit (4 * Suc k) u) = ?p + 16 ^ k * nibble_pairs ?n"
    unfolding take_bit_nibble pop_pairs_or [OF nibble_disjoint] c(1) [OF k] ..
  have d: "?p AND 16 ^ k * nibble_pairs ?n = 0" using Suc nibble_disjoint [of k ?p] by simp
  have p': "pop_pairs (take_bit (4 * Suc k) u) = ?p OR 16 ^ k * nibble_pairs ?n"
    unfolding p plus_disjoint [OF d] ..
  have "take_bit (4 * Suc k) ?p = ?p"
  proof -
    have "take_bit (4 * Suc k) (take_bit (4 * k) ?p) = take_bit (4 * k) ?p" by (simp add: take_bit_take_bit)
    with Suc show ?thesis by simp
  qed
  then have "take_bit (4 * Suc k) (?p OR 16 ^ k * nibble_pairs ?n) = ?p OR 16 ^ k * nibble_pairs ?n"
    unfolding take_bit_or using take_bit_shifted [OF c(2) [OF k]] by simp
  moreover have "pop_nibbles (?p OR 16 ^ k * nibble_pairs ?n) = pop_nibbles ?p + 16 ^ k * nibble_ones ?n"
    using pop_nibbles_or [OF d] c(3) [OF k] by simp
  ultimately show ?case unfolding p' using Suc by simp
qed (simp add: pop_pairs_def pop_nibbles_def)

lemma less_8_cases: "(j :: nat) < 8 \<Longrightarrow> j \<in> {0, 1, 2, 3, 4, 5, 6, 7}"
  by auto

lemma nibble_ones_card: "n < 16 \<Longrightarrow> nibble_ones n = of_nat (card {i. i < 4 \<and> bit n i})"
proof -
  assume n: "n < 16"
  have "{i. i < 4 \<and> bit n i} = {i \<in> set [0..<4]. bit n i}" by auto
  then have "card {i. i < 4 \<and> bit n i} = card (set (filter (bit n) [0..<4]))" by (simp add: set_filter)
  also have "\<dots> = length (filter (bit n) [0..<4])" by (rule distinct_card) simp
  also have "[0..<4] = [0, 1, 2, 3]" by code_simp
  finally have c: "card {i. i < 4 \<and> bit n i} = length (filter (bit n) [0, 1, 2, 3])" .
  have "list_all (\<lambda>n. nibble_ones n = of_nat (length (filter (bit n) [0, 1, 2, 3])))
      [0, 1, 2, 3, 4, 5, 6, 7, 8, 9, 10, 11, 12, 13, 14, 15]" by code_simp
  with word_nibbles [OF n] show ?thesis unfolding c list_all_iff by blast
qed

lemma bit_nibble_at: "bit (nibble_at u k) i \<longleftrightarrow> i < 4 \<and> bit u (4 * k + i)"
  unfolding nibble_at_def by (auto simp: bit_simps dest: bit_imp_le_length)

lemma bit_count_plus: "bit_count (n + m) w = bit_count n w + card {j. j < m \<and> bit w (n + j)}"
proof -
  have "{i. i < n + m \<and> bit w i} = {i. i < n \<and> bit w i} \<union> (+) n ` {j. j < m \<and> bit w (n + j)}"
  proof (intro set_eqI iffI)
    fix i assume i: "i \<in> {i. i < n + m \<and> bit w i}"
    show "i \<in> {i. i < n \<and> bit w i} \<union> (+) n ` {j. j < m \<and> bit w (n + j)}"
    proof (cases "i < n")
      case False
      with i have "i = n + (i - n)" "i - n < m" "bit w (n + (i - n))" by auto
      then show ?thesis by blast
    qed (use i in simp)
  qed auto
  moreover have "card ((+) n ` {j. j < m \<and> bit w (n + j)}) = card {j. j < m \<and> bit w (n + j)}"
    by (rule card_image) simp
  moreover have "card ({i. i < n \<and> bit w i} \<union> (+) n ` {j. j < m \<and> bit w (n + j)}) =
      card {i. i < n \<and> bit w i} + card ((+) n ` {j. j < m \<and> bit w (n + j)})"
    by (rule card_Un_disjoint) auto
  ultimately show ?thesis by (simp add: bit_count_def)
qed

definition ones_at :: "id_type \<Rightarrow> nat \<Rightarrow> nat" where
  "ones_at u k = card {i. i < 4 \<and> bit u (4 * k + i)}"

lemma ones_at_le: "ones_at u k \<le> 4"
  unfolding ones_at_def using card_mono [of "{..<4}" "{i. i < 4 \<and> bit u (4 * k + i)}"] by auto

lemma ones_at_sum: "(\<Sum>j<k. ones_at u j) = bit_count (4 * k) u"
proof (induction k)
  case (Suc k)
  then show ?case using bit_count_plus [of "4 * k" 4 u] by (simp add: ones_at_def add.commute)
qed (simp add: bit_count_def)

lemma nibble_ones_at: "nibble_ones (nibble_at u k) = of_nat (ones_at u k)"
proof -
  have "{i. i < 4 \<and> bit (nibble_at u k) i} = {i. i < 4 \<and> bit u (4 * k + i)}" by (auto simp: bit_nibble_at)
  then show ?thesis using nibble_ones_card [OF nibble_at_less, of u k] by (simp add: ones_at_def)
qed

lemma sum_lessThan_8: "(\<Sum>j<8. f j) = f 0 + f 1 + f 2 + f 3 + f 4 + f 5 + f 6 + f (7 :: nat)"
  by (simp add: eval_nat_numeral)

lemma pop_nibbles_digits:
  "pop_nibbles (pop_pairs u) = of_nat (\<Sum>j<8. 16 ^ j * ones_at u j)"
proof -
  have u: "take_bit (4 * 8) u = u" by (simp add: take_bit_word_eq_self)
  show ?thesis using pop_nibbles_sum [of 8 u] unfolding u by (simp add: nibble_ones_at)
qed

lemma and_bytes: "(a + 256 * b) AND (c + 256 * d) = (a AND c) + 256 * (b AND d)"
  if "a < 256" "c < 256" for a b c d :: nat
proof -
  have x: "x + 256 * y = take_bit 8 x OR push_bit 8 y" if "x < 256" for x y :: nat
  proof -
    have "take_bit 8 x = x" using that by (intro take_bit_nat_eq_self) simp
    moreover have "take_bit 8 x OR push_bit 8 y = take_bit 8 x + push_bit 8 y"
      by (rule disjunctive_add_eq_or [symmetric]) (auto simp: bit_eq_iff bit_simps)
    ultimately show ?thesis by (simp add: push_bit_eq_mult)
  qed
  have ac: "a AND c < 256"
  proof -
    have "take_bit 8 a = a" "take_bit 8 c = c" using that by (auto intro!: take_bit_nat_eq_self)
    then have "take_bit 8 (a AND c) = a AND c" by simp
    then show ?thesis using take_bit_nat_less_exp [of 8 "a AND c"] by simp
  qed
  show ?thesis unfolding x [OF that(1)] x [OF that(2)] x [OF ac]
    by (rule bit_eqI) (auto simp: bit_simps)
qed

lemma and_bytes_mask:
  assumes "y0 < 256" "y1 < 256" "y2 < 256" "y3 < (256 :: nat)"
  shows "(y0 + 256 * (y1 + 256 * (y2 + 256 * y3))) AND 0x0F0F0F0F =
    y0 mod 16 + 256 * (y1 mod 16 + 256 * (y2 mod 16 + 256 * (y3 mod 16)))"
proof -
  have m: "(0x0F0F0F0F :: nat) = 15 + 256 * (15 + 256 * (15 + 256 * 15))" by simp
  have 15: "(y :: nat) AND 15 = y mod 16" for y
    using take_bit_eq_mask [of 4 y] by (simp add: take_bit_eq_mod mask_eq_exp_minus_1)
  have b: "(a + 256 * b) AND (15 + 256 * d) = a mod 16 + 256 * (b AND d)" if "a < 256" for a b d :: nat
    using and_bytes [OF that, of 15 b d] 15 [of a] by simp
  show ?thesis unfolding m b [OF assms(1)] b [OF assms(2)] b [OF assms(3)] 15 ..
qed

lemma unat_of_nat_less: "n < 4294967296 \<Longrightarrow> unat (of_nat n :: id_type) = n"
  by (simp add: unat_of_nat take_bit_nat_eq_self)

lemma drop_bit_of_nat: "n < 4294967296 \<Longrightarrow> drop_bit k (of_nat n :: id_type) = of_nat (n div 2 ^ k)"
proof -
  assume n: "n < 4294967296"
  have "n div 2 ^ k \<le> n" by (rule div_le_dividend)
  with n have "n div 2 ^ k < 4294967296" by linarith
  moreover have "unat (drop_bit k (of_nat n :: id_type)) = n div 2 ^ k"
    by (simp only: unsigned_drop_bit_eq unat_of_nat_less [OF n])
      (use n in \<open>simp add: take_bit_nat_eq_self drop_bit_eq_div\<close>)
  ultimately show ?thesis by (simp add: word_unat_eq_iff unat_of_nat_less)
qed

lemma and_of_nat: "(of_nat n :: id_type) AND of_nat m = of_nat (n AND m)"
  by (rule bit_word_eqI) (simp add: bit_simps)

lemma and_of_nat_eq: "y AND m = z \<Longrightarrow> (of_nat y :: id_type) AND of_nat m = of_nat z"
  unfolding and_of_nat by (rule arg_cong)

definition pop_final :: "id_type \<Rightarrow> id_type" where
  "pop_final u2 =
     (let u3 = (drop_bit 4 u2 + u2) AND 0x0F0F0F0F;
          u4 = u3 + drop_bit 8 u3;
          u5 = u4 + drop_bit 16 u4
      in u5 AND 0xFF)"

lemma pop_final_digits:
  assumes c: "c0 \<le> 4" "c1 \<le> 4" "c2 \<le> 4" "c3 \<le> 4" "c4 \<le> 4" "c5 \<le> 4" "c6 \<le> 4" "c7 \<le> (4 :: nat)"
  shows "pop_final (of_nat (c0 + 16 * c1 + 256 * c2 + 4096 * c3 + 65536 * c4 + 1048576 * c5 + 16777216 * c6 +
    268435456 * c7)) = of_nat (c0 + c1 + c2 + c3 + c4 + c5 + c6 + c7)"
proof -
  let ?x = "c0 + 16 * c1 + 256 * c2 + 4096 * c3 + 65536 * c4 + 1048576 * c5 + 16777216 * c6 + 268435456 * c7"
  let ?d0 = "c0 + c1" and ?d2 = "c2 + c3" and ?d4 = "c4 + c5" and ?d6 = "c6 + c7"
  have x: "?x < 4294967296" using c by linarith
  have "?x div 16 = c1 + 16 * c2 + 256 * c3 + 4096 * c4 + 65536 * c5 + 1048576 * c6 + 16777216 * c7"
    using c by linarith
  then have s: "drop_bit 4 (of_nat ?x) + of_nat ?x = (of_nat (?d0 + 16 * (c1 + c2) + 256 * (?d2 + 16 * (c3 + c4) +
      256 * (?d4 + 16 * (c5 + c6) + 256 * (?d6 + 16 * c7)))) :: id_type)"
    unfolding drop_bit_of_nat [OF x] by simp
  let ?y = "?d0 + 256 * (?d2 + 256 * (?d4 + 256 * ?d6))"
  have "(?d0 + 16 * (c1 + c2) + 256 * (?d2 + 16 * (c3 + c4) +
      256 * (?d4 + 16 * (c5 + c6) + 256 * (?d6 + 16 * c7)))) AND 0x0F0F0F0F = ?y"
  (is "?s AND _ = _")
  proof -
    have m: "(a + 16 * b) mod 16 = a" if "a < 16" for a b :: nat using that by simp
    have "?d0 < 16" "?d2 < 16" "?d4 < 16" "?d6 < 16" using c by simp_all
    note m = this [THEN m]
    have b: "?d0 + 16 * (c1 + c2) < 256" "?d2 + 16 * (c3 + c4) < 256" "?d4 + 16 * (c5 + c6) < 256"
      "?d6 + 16 * c7 < 256" using c by simp_all
    show ?thesis unfolding and_bytes_mask [OF b] m ..
  qed
  then have u3: "(drop_bit 4 (of_nat ?x) + of_nat ?x) AND 0x0F0F0F0F = (of_nat ?y :: id_type)"
    unfolding s by (rule and_of_nat_eq [of ?s "0x0F0F0F0F", unfolded of_nat_numeral])
  have y: "?y < 4294967296" "?y div 2 ^ 8 = ?d2 + 256 * (?d4 + 256 * ?d6)" using c by (simp_all; linarith)+
  let ?z = "(?d0 + ?d2) + 256 * (?d2 + ?d4) + 65536 * (?d4 + ?d6) + 16777216 * ?d6"
  have u4: "of_nat ?y + drop_bit 8 (of_nat ?y) = (of_nat ?z :: id_type)"
    unfolding drop_bit_of_nat [OF y(1)] y(2) by simp
  have z: "?z < 4294967296" "?z div 2 ^ 16 = ?d4 + ?d6 + 256 * ?d6" using c by (simp_all; linarith)+
  let ?w = "(?d0 + ?d2 + ?d4 + ?d6) + 256 * (?d2 + ?d4 + ?d6 + 256 * (?d4 + ?d6) + 65536 * ?d6)"
  have u5: "of_nat ?z + drop_bit 16 (of_nat ?z) = (of_nat ?w :: id_type)"
    unfolding drop_bit_of_nat [OF z(1)] z(2) by simp
  have "?w AND 0xFF = ?d0 + ?d2 + ?d4 + ?d6"
  proof -
    have "?w AND 0xFF = take_bit 8 ?w" by (simp add: take_bit_eq_mask mask_eq_exp_minus_1)
    also have "\<dots> = ?w mod 256" by (simp add: take_bit_eq_mod)
    also have "\<dots> = (?d0 + ?d2 + ?d4 + ?d6) mod 256" by (rule mod_mult_self2)
    also have "\<dots> = ?d0 + ?d2 + ?d4 + ?d6" by (rule mod_less) (use c in simp)
    finally show ?thesis .
  qed
  then have "of_nat ?w AND 0xFF = (of_nat (?d0 + ?d2 + ?d4 + ?d6) :: id_type)"
    by (rule and_of_nat_eq [of _ "0xFF", unfolded of_nat_numeral])
  then show ?thesis unfolding pop_final_def Let_def u3 u4 u5 by (simp add: ac_simps)
qed

lemma pop_count_correct: "pop_count u = of_nat (bit_count 32 u)"
proof -
  have "pop_count u = pop_final (pop_nibbles (pop_pairs u))"
    by (simp add: pop_count_def pop_final_def pop_nibbles_def pop_pairs_def Let_def)
  also have "\<dots> = of_nat (\<Sum>j<8. ones_at u j)"
    unfolding pop_nibbles_digits sum_lessThan_8
    using pop_final_digits [OF ones_at_le ones_at_le ones_at_le ones_at_le ones_at_le ones_at_le ones_at_le ones_at_le,
      of u 0 u 1 u 2 u 3 u 4 u 5 u 6 u 7] by simp
  finally show ?thesis by (simp add: ones_at_sum)
qed

section \<open>The rank index\<close>

definition bv_bit :: "BitVector \<Rightarrow> nat \<Rightarrow> bool" where
  "bv_bit v i \<longleftrightarrow> i div 32 < length (bv_units v) \<and> bit (bv_units v ! (i div 32)) (i mod 32)"

definition bv_ones :: "BitVector \<Rightarrow> nat \<Rightarrow> nat" where
  "bv_ones v n = card {i. i < n \<and> bv_bit v i}"

lemma bv_ones_split:
  assumes "q < length (bv_units v)" "m \<le> 32"
  shows "bv_ones v (32 * q + m) = bv_ones v (32 * q) + card {j. j < m \<and> bit (bv_units v ! q) j}"
proof -
  have b: "bv_bit v (32 * q + j) \<longleftrightarrow> bit (bv_units v ! q) j" if "j < 32" for j
    using that assms(1) by (simp add: bv_bit_def)
  have "{i. i < 32 * q + m \<and> bv_bit v i} =
      {i. i < 32 * q \<and> bv_bit v i} \<union> (+) (32 * q) ` {j. j < m \<and> bit (bv_units v ! q) j}"
  proof (intro set_eqI iffI)
    fix i assume i: "i \<in> {i. i < 32 * q + m \<and> bv_bit v i}"
    show "i \<in> {i. i < 32 * q \<and> bv_bit v i} \<union> (+) (32 * q) ` {j. j < m \<and> bit (bv_units v ! q) j}"
    proof (cases "i < 32 * q")
      case False
      then obtain j where j: "i = 32 * q + j" using le_iff_add [of "32 * q" i] by auto
      with i assms(2) have "j < m" "j < 32" by auto
      with i j b show ?thesis by auto
    qed (use i in simp)
  next
    fix i assume "i \<in> {i. i < 32 * q \<and> bv_bit v i} \<union> (+) (32 * q) ` {j. j < m \<and> bit (bv_units v ! q) j}"
    then show "i \<in> {i. i < 32 * q + m \<and> bv_bit v i}" using b assms(2) by auto
  qed
  moreover have "card ((+) (32 * q) ` {j. j < m \<and> bit (bv_units v ! q) j}) =
      card {j. j < m \<and> bit (bv_units v ! q) j}" by (rule card_image) simp
  moreover have "card ({i. i < 32 * q \<and> bv_bit v i} \<union> (+) (32 * q) ` {j. j < m \<and> bit (bv_units v ! q) j}) =
      card {i. i < 32 * q \<and> bv_bit v i} + card ((+) (32 * q) ` {j. j < m \<and> bit (bv_units v ! q) j})"
    by (rule card_Un_disjoint) auto
  ultimately show ?thesis by (simp add: bv_ones_def)
qed

lemma bit_count_le: "bit_count n w \<le> n"
  using card_mono [of "{..<n}" "{i. i < n \<and> bit w i}"] by (auto simp: bit_count_def)

lemma unat_pop_count: "unat (pop_count u) = bit_count 32 u"
  using bit_count_le [of 32 u] by (simp add: pop_count_correct unat_of_nat_less)

lemma build_ranks_spec:
  "length (bv_units v) = q + length us \<Longrightarrow> drop q (bv_units v) = us \<Longrightarrow>
   build_ranks us (bv_ones v (32 * q)) =
     (map (\<lambda>k. of_nat (bv_ones v (32 * k))) [q..<length (bv_units v)], bv_ones v (32 * length (bv_units v)))"
proof (induction us arbitrary: q)
  case (Cons u us)
  have q: "q < length (bv_units v)" and d: "drop (Suc q) (bv_units v) = us"
    and u: "bv_units v ! q = u" using Cons.prems
    by (auto simp: drop_Suc drop_tl nth_via_drop)
  have "bv_ones v (32 * Suc q) = bv_ones v (32 * q) + bit_count 32 u"
    using bv_ones_split [OF q, of 32] by (simp add: u bit_count_def add.commute)
  moreover have l: "length (bv_units v) = Suc q + length us" using Cons.prems(1) by simp
  note Cons.IH [OF l d]
  ultimately show ?case
    by (simp add: unat_pop_count upt_conv_Cons [OF q] del: upt_Suc mult_Suc_right)
qed simp

lemma bv_build_units: "bv_units (bv_build v) = bv_units v"
  "bv_num_ones (bv_build v) = bv_ones v (32 * length (bv_units v))"
  "bv_ranks (bv_build v) = map (\<lambda>k. of_nat (bv_ones v (32 * k))) [0..<length (bv_units v)]"
  using build_ranks_spec [of v 0 "bv_units v"] by (simp_all add: bv_build_def bv_ones_def)

lemma masked_count:
  assumes "r < 32"
  shows "bit_count 32 (u AND drop_bit (32 - r - 1) (NOT 0) :: id_type) = card {j. j < Suc r \<and> bit u j}"
proof -
  have "{j. j < 32 \<and> bit (u AND drop_bit (32 - r - 1) (NOT 0)) j} = {j. j < Suc r \<and> bit u j}"
    using assms by (auto simp: bit_simps)
  then show ?thesis by (simp add: bit_count_def)
qed

lemma bv_rank_counts:
  assumes "i < 32 * length (bv_units v)"
  shows "bv_rank (bv_build v) i = Inr (of_nat (bv_ones v (Suc i)))"
proof -
  have q: "i div 32 < length (bv_units v)" using assms by auto
  have "bv_ones v (32 * (i div 32) + Suc (i mod 32)) =
      bv_ones v (32 * (i div 32)) + card {j. j < Suc (i mod 32) \<and> bit (bv_units v ! (i div 32)) j}"
    by (rule bv_ones_split [OF q]) simp
  moreover have "32 * (i div 32) + Suc (i mod 32) = Suc i" by simp
  ultimately show ?thesis using q masked_count [of "i mod 32" "bv_units v ! (i div 32)"]
    by (simp add: bv_rank_def bv_build_units pop_count_correct)
qed

lemma bv_ones_mono: "i \<le> j \<Longrightarrow> bv_ones v i \<le> bv_ones v j"
  unfolding bv_ones_def by (rule card_mono) auto

lemma bv_ones_strict:
  assumes "bv_bit v i" "i < j"
  shows "bv_ones v i < bv_ones v j"
  unfolding bv_ones_def by (rule psubset_card_mono) (use assms in auto)

lemma bv_ones_le: "bv_ones v n \<le> n"
  using card_mono [of "{..<n}" "{i. i < n \<and> bv_bit v i}"] by (auto simp: bv_ones_def)

lemma bv_bit_bound: "bv_bit v i \<Longrightarrow> i < 32 * length (bv_units v)"
  by (auto simp: bv_bit_def)

subsection \<open>The operations on bits\<close>

definition bv_wf :: "BitVector \<Rightarrow> bool" where
  "bv_wf v \<longleftrightarrow> length (bv_units v) = (bv_size v + 31) div 32 \<and> (\<forall>i. bv_bit v i \<longrightarrow> i < bv_size v)"

lemma bv_wf_new [simp]: "bv_wf bv_new" "\<not> bv_bit bv_new i" "bv_size bv_new = 0"
  by (simp_all add: bv_wf_def bv_new_def bv_bit_def)

lemma bv_unit_bound: "bv_wf v \<Longrightarrow> i < bv_size v \<Longrightarrow> i div 32 < length (bv_units v)"
  using div_le_mono [of "i + 32" "bv_size v + 31" 32] by (simp add: bv_wf_def)

lemma bv_get_bit: "bv_wf v \<Longrightarrow> i < bv_size v \<Longrightarrow> bv_get v i = Inr (bv_bit v i)"
  using bv_unit_bound [of v i]
  by (simp add: bv_get_def bv_bit_def and_one_eq bit_iff_odd_drop_bit odd_iff_mod_2_eq_one)

lemma bv_append_wf:
  assumes "bv_wf v"
  shows "bv_wf (bv_append v)" "bv_bit (bv_append v) i \<longleftrightarrow> bv_bit v i" "bv_size (bv_append v) = bv_size v + 1"
proof -
  have l: "length (bv_units v) = (bv_size v + 31) div 32" using assms by (simp add: bv_wf_def)
  show b: "bv_bit (bv_append v) i \<longleftrightarrow> bv_bit v i" for i
    by (auto simp: bv_bit_def bv_append_def nth_append not_less_eq less_Suc_eq)
  have "length (bv_units (bv_append v)) = (bv_size v + 1 + 31) div 32"
  proof -
    obtain q r where n: "bv_size v = 32 * q + r" "r < 32"
      by (metis div_mult_mod_eq mod_less_divisor mult.commute zero_less_numeral)
    then have "(32 * q + r + 1 + 31) div 32 = q + 1" "(32 * q + r + 31) div 32 = (if r = 0 then q else q + 1)"
      by auto
    with n show ?thesis by (simp add: bv_append_def l)
  qed
  with assms b show "bv_wf (bv_append v)" "bv_size (bv_append v) = bv_size v + 1"
    by (auto simp: bv_wf_def bv_append_def less_SucI)
qed

lemma bv_set_ok:
  assumes "bv_wf v" "i < bv_size v"
  shows "\<exists>v'. bv_set v i b = Inr v' \<and> bv_wf v' \<and> bv_size v' = bv_size v \<and>
    (\<forall>j. bv_bit v' j \<longleftrightarrow> (if j = i then b else bv_bit v j))"
proof -
  let ?u = "bv_units v ! (i div 32)"
  let ?w = "if b then ?u OR push_bit (i mod 32) 1 else ?u AND NOT (push_bit (i mod 32) 1)"
  let ?v = "v\<lparr>bv_units := (bv_units v)[i div 32 := ?w]\<rparr>"
  have q: "i div 32 < length (bv_units v)" by (rule bv_unit_bound [OF assms])
  have w: "bit ?w n \<longleftrightarrow> (if n = i mod 32 then b else bit ?u n)" for n
    by (auto simp: bit_simps dest: bit_imp_le_length)
  have "j = i" if "j div 32 = i div 32" "j mod 32 = i mod 32" for j
    using that by (metis div_mult_mod_eq)
  then have b: "bv_bit ?v j \<longleftrightarrow> (if j = i then b else bv_bit v j)" for j
    using q by (auto simp: bv_bit_def nth_list_update w)
  then have "bv_wf ?v" using assms by (auto simp: bv_wf_def)
  moreover have "bv_set v i b = Inr ?v" using q by (simp add: bv_set_def Let_def)
  ultimately show ?thesis using b by auto
qed

text \<open>
  C32: The rank index of a bit vector. After \<^verbatim>\<open>build\<close> the rank of a position is the number of bits
  that are set up to and including it, and \<^verbatim>\<open>num_ones\<close> is the number of all of them; the bit
  tricks of \<^verbatim>\<open>pop_count\<close> count the ones of every 32-bit unit.
\<close>

theorem rank_counts:
  assumes "bv_wf v" "i < bv_size v"
  shows "bv_rank (bv_build v) i = Inr (of_nat (card {j. j \<le> i \<and> bv_bit v j})) \<and>
    bv_num_ones (bv_build v) = card {j. bv_bit v j} \<and> unat (pop_count u) = card {n. bit u n}"
proof (intro conjI)
  have "i < 32 * length (bv_units v)" using bv_unit_bound [OF assms] by auto
  moreover have "bv_ones v (Suc i) = card {j. j \<le> i \<and> bv_bit v j}" by (simp add: bv_ones_def less_Suc_eq_le)
  ultimately show "bv_rank (bv_build v) i = Inr (of_nat (card {j. j \<le> i \<and> bv_bit v j}))"
    using bv_rank_counts by simp
  have "{j. j < 32 * length (bv_units v) \<and> bv_bit v j} = {j. bv_bit v j}" by (auto dest: bv_bit_bound)
  then show "bv_num_ones (bv_build v) = card {j. bv_bit v j}" by (simp add: bv_build_units bv_ones_def)
  have "{n. n < 32 \<and> bit u n} = {n. bit u n}" by (auto dest: bit_imp_le_length)
  then show "unat (pop_count u) = card {n. bit u n}" by (simp add: unat_pop_count bit_count_def)
qed

theorem rank_counts_witness:
  "bv_rank (bv_build \<lparr>bv_units = [1], bv_ranks = [], bv_num_ones = 0, bv_size = 3\<rparr>) 2 = Inr 1"
proof -
  let ?v = "\<lparr>bv_units = [1], bv_ranks = [], bv_num_ones = 0, bv_size = 3\<rparr>"
  have b: "bv_bit ?v i \<longleftrightarrow> i = 0" for i by (auto simp: bv_bit_def bit_1_iff)
  then have "bv_wf ?v" by (simp add: bv_wf_def)
  moreover have "{j. j \<le> (2 :: nat) \<and> bv_bit ?v j} = {0}" by (auto simp: b)
  ultimately show ?thesis using rank_counts [of ?v 2] by simp
qed

end
