(* ===== verification/Dawg_Builder.thy ===== *)
theory Dawg_Builder
  imports Bit_Vector
begin

unbundle bit_operations_syntax

text \<open>
  The first half of \<^verbatim>\<open>DoubleArrayImpl::build\<close> in \<^verbatim>\<open>src/index/index_da/darts.h\<close>: \<^verbatim>\<open>DawgNode\<close>,
  \<^verbatim>\<open>DawgUnit\<close> and \<^verbatim>\<open>DawgBuilder\<close>, which make a word graph of the sorted keys. The path of the key
  inserted last is kept as nodes on a stack; when a key leaves the path the nodes behind are
  flushed, that is looked up in a hash table of the groups of units stored before, and stored as a
  new group only when there is no equal one. Pools are lists, a stack is a list with its top
  first, a loop over the siblings of a node has as much fuel as there are nodes (a longer chain
  is a cycle). \<^verbatim>\<open>DARTS_THROW\<close> is the fault \<^const>\<open>Thrown\<close>. The keys are C strings: the sources pass no
  lengths to \<^verbatim>\<open>build\<close>.
\<close>

type_synonym uchar_type = "8 word"

section \<open>Nodes and units\<close>

record DawgNode =
  n_child :: id_type
  n_sibling :: id_type
  n_label :: uchar_type
  n_is_state :: bool
  n_has_sibling :: bool

definition node_new :: DawgNode where
  "node_new = \<lparr>n_child = 0, n_sibling = 0, n_label = 0, n_is_state = False, n_has_sibling = False\<rparr>"

definition node_unit :: "DawgNode \<Rightarrow> id_type" where
  "node_unit n =
     (if n_label n = 0 then push_bit 1 (n_child n) OR (if n_has_sibling n then 1 else 0)
      else push_bit 2 (n_child n) OR (if n_is_state n then 2 else 0) OR (if n_has_sibling n then 1 else 0))"

definition du_child :: "id_type \<Rightarrow> id_type" where
  "du_child u = drop_bit 2 u"

definition du_has_sibling :: "id_type \<Rightarrow> bool" where
  "du_has_sibling u \<longleftrightarrow> u AND 1 = 1"

definition du_value :: "id_type \<Rightarrow> int" where
  "du_value u = sint (drop_bit 1 u)"

definition du_is_state :: "id_type \<Rightarrow> bool" where
  "du_is_state u \<longleftrightarrow> u AND 2 = 2"

section \<open>The builder\<close>

record DawgBuilder =
  d_nodes :: "DawgNode list"
  d_units :: "id_type list"
  d_labels :: "uchar_type list"
  d_is_intersections :: BitVector
  d_table :: "id_type list"
  d_node_stack :: "id_type list"
  d_recycle_bin :: "id_type list"
  d_num_states :: nat

definition INITIAL_TABLE_SIZE :: nat where
  "INITIAL_TABLE_SIZE = 2 ^ 10"

definition dawg_hash :: "id_type \<Rightarrow> id_type" where
  "dawg_hash k0 =
     (let k1 = NOT k0 + push_bit 15 k0;
          k2 = k1 XOR drop_bit 12 k1;
          k3 = k2 + push_bit 2 k2;
          k4 = k3 XOR drop_bit 4 k3;
          k5 = k4 * 2057
      in k5 XOR drop_bit 16 k5)"

definition append_node :: "DawgBuilder \<Rightarrow> id_type \<times> DawgBuilder" where
  "append_node d =
     (case d_recycle_bin d of
        [] \<Rightarrow> (of_nat (length (d_nodes d)), d\<lparr>d_nodes := d_nodes d @ [node_new]\<rparr>)
      | nid # ids \<Rightarrow> (nid, d\<lparr>d_nodes := (d_nodes d)[unat nid := node_new], d_recycle_bin := ids\<rparr>))"

definition append_unit :: "DawgBuilder \<Rightarrow> id_type \<times> DawgBuilder" where
  "append_unit d =
     (let is = bv_append (d_is_intersections d)
      in (of_nat (bv_size is - 1),
          d\<lparr>d_is_intersections := is, d_units := d_units d @ [0], d_labels := d_labels d @ [0]\<rparr>))"

definition dawg_new :: DawgBuilder where
  "dawg_new = \<lparr>d_nodes = [], d_units = [], d_labels = [], d_is_intersections = bv_new, d_table = [],
     d_node_stack = [], d_recycle_bin = [], d_num_states = 0\<rparr>"

definition dawg_init :: "DawgBuilder \<Rightarrow> fault + DawgBuilder" where
  "dawg_init d =
     (let d1 = d\<lparr>d_table := take INITIAL_TABLE_SIZE (d_table d) @
                   replicate (INITIAL_TABLE_SIZE - length (d_table d)) 0\<rparr>;
          d2 = snd (append_unit (snd (append_node d1)))
      in bind_ok (pool_at (d_nodes d2) 0) (\<lambda>n.
           Inr (d2\<lparr>d_num_states := 1, d_nodes := (d_nodes d2)[0 := n\<lparr>n_label := 0xFF\<rparr>],
                    d_node_stack := 0 # d_node_stack d2\<rparr>)))"

subsection \<open>The hash table\<close>

fun sibling_chain :: "nat \<Rightarrow> DawgNode list \<Rightarrow> id_type \<Rightarrow> fault + id_type list" where
  "sibling_chain fuel nodes i =
     (if i = 0 then Inr []
      else case fuel of
             0 \<Rightarrow> Inl Diverges
           | Suc f \<Rightarrow> bind_ok (pool_at nodes (unat i)) (\<lambda>n.
                      bind_ok (sibling_chain f nodes (n_sibling n)) (\<lambda>is. Inr (i # is))))"

declare sibling_chain.simps [simp del]

definition label_unit :: "uchar_type \<Rightarrow> id_type \<Rightarrow> id_type" where
  "label_unit label unit = push_bit 24 (ucast label) XOR unit"

definition hash_node :: "DawgNode list \<Rightarrow> id_type list \<Rightarrow> fault + id_type" where
  "hash_node nodes is =
     fold (\<lambda>i m. bind_ok m (\<lambda>h. bind_ok (pool_at nodes (unat i)) (\<lambda>n.
       Inr (h XOR dawg_hash (label_unit (n_label n) (node_unit n)))))) is (Inr 0)"

function hash_unit :: "id_type list \<Rightarrow> uchar_type list \<Rightarrow> nat \<Rightarrow> id_type \<Rightarrow> fault + id_type" where
  "hash_unit us ls i h =
     (if i = 0 then Inr h
      else if length us \<le> i \<or> length ls \<le> i then Inl Out_of_bounds
      else let h' = h XOR dawg_hash (label_unit (ls ! i) (us ! i))
           in if \<not> du_has_sibling (us ! i) then Inr h' else hash_unit us ls (i + 1) h')"
  by pat_completeness auto
termination by (relation "measure (\<lambda>(us, ls, i, h). length us - i)") auto

declare hash_unit.simps [simp del]

fun units_last :: "id_type list \<Rightarrow> id_type list \<Rightarrow> id_type \<Rightarrow> fault + id_type option" where
  "units_last us [] u = Inr (Some u)"
| "units_last us (i # is) u =
     bind_ok (pool_at us (unat u)) (\<lambda>w. if \<not> du_has_sibling w then Inr None else units_last us is (u + 1))"

fun units_match ::
    "DawgNode list \<Rightarrow> id_type list \<Rightarrow> uchar_type list \<Rightarrow> id_type list \<Rightarrow> id_type \<Rightarrow> fault + bool" where
  "units_match nodes us ls [] u = Inr True"
| "units_match nodes us ls (i # is) u =
     bind_ok (pool_at nodes (unat i)) (\<lambda>n.
     bind_ok (pool_at us (unat u)) (\<lambda>w.
     bind_ok (pool_at ls (unat u)) (\<lambda>l.
       if node_unit n \<noteq> w \<or> n_label n \<noteq> l then Inr False
       else units_match nodes us ls is (u - 1))))"

definition are_equal :: "DawgBuilder \<Rightarrow> id_type list \<Rightarrow> id_type \<Rightarrow> fault + bool" where
  "are_equal d is unit_id =
     bind_ok (units_last (d_units d) (tl is) unit_id) (\<lambda>r.
       case r of
         None \<Rightarrow> Inr False
       | Some u \<Rightarrow>
           bind_ok (pool_at (d_units d) (unat u)) (\<lambda>w.
             if du_has_sibling w then Inr False
             else units_match (d_nodes d) (d_units d) (d_labels d) is u))"

text \<open>
  Linear probing: every slot is visited once; when all are taken and none matches the loop
  does not end.
\<close>

fun find_node_loop :: "nat \<Rightarrow> DawgBuilder \<Rightarrow> id_type list \<Rightarrow> nat \<Rightarrow> fault + (id_type \<times> nat)" where
  "find_node_loop 0 d is h = Inl Diverges"
| "find_node_loop (Suc fuel) d is h =
     bind_ok (pool_at (d_table d) h) (\<lambda>unit_id.
       if unit_id = 0 then Inr (0, h)
       else bind_ok (are_equal d is unit_id) (\<lambda>eq.
         if eq then Inr (unit_id, h)
         else find_node_loop fuel d is ((h + 1) mod length (d_table d))))"

definition find_node :: "DawgBuilder \<Rightarrow> id_type list \<Rightarrow> fault + (id_type \<times> nat)" where
  "find_node d is =
     bind_ok (hash_node (d_nodes d) is) (\<lambda>h.
       if d_table d = [] then Inl Div_by_zero
       else find_node_loop (length (d_table d)) d is (unat h mod length (d_table d)))"

fun find_free :: "nat \<Rightarrow> id_type list \<Rightarrow> nat \<Rightarrow> fault + nat" where
  "find_free 0 table h = Inl Diverges"
| "find_free (Suc fuel) table h =
     bind_ok (pool_at table h) (\<lambda>unit_id.
       if unit_id = 0 then Inr h else find_free fuel table ((h + 1) mod length table))"

definition find_unit :: "DawgBuilder \<Rightarrow> id_type list \<Rightarrow> nat \<Rightarrow> fault + nat" where
  "find_unit d table nid =
     bind_ok (hash_unit (d_units d) (d_labels d) nid 0) (\<lambda>h.
       if table = [] then Inl Div_by_zero
       else find_free (length table) table (unat h mod length table))"

fun expand_loop :: "DawgBuilder \<Rightarrow> nat list \<Rightarrow> id_type list \<Rightarrow> fault + id_type list" where
  "expand_loop d [] table = Inr table"
| "expand_loop d (i # is) table =
     bind_ok (pool_at (d_labels d) i) (\<lambda>l.
       if l = 0 \<or> du_is_state (d_units d ! i)
       then bind_ok (find_unit d table i) (\<lambda>h. expand_loop d is (table[h := of_nat i]))
       else expand_loop d is table)"

definition expand_table :: "DawgBuilder \<Rightarrow> fault + DawgBuilder" where
  "expand_table d =
     bind_ok (expand_loop d [1..<length (d_units d)] (replicate (2 * length (d_table d)) 0)) (\<lambda>table.
       Inr (d\<lparr>d_table := table\<rparr>))"

subsection \<open>Flushing\<close>

fun append_units :: "id_type list \<Rightarrow> DawgBuilder \<Rightarrow> id_type \<Rightarrow> id_type \<times> DawgBuilder" where
  "append_units [] d unit_id = (unit_id, d)"
| "append_units (i # is) d unit_id = (let (unit_id', d') = append_unit d in append_units is d' unit_id')"

fun store_units :: "id_type list \<Rightarrow> DawgBuilder \<Rightarrow> id_type \<Rightarrow> fault + (id_type \<times> DawgBuilder)" where
  "store_units [] d unit_id = Inr (unit_id, d)"
| "store_units (i # is) d unit_id =
     bind_ok (pool_at (d_nodes d) (unat i)) (\<lambda>n.
     bind_ok (pool_set (d_units d) (unat unit_id) (node_unit n)) (\<lambda>us.
     bind_ok (pool_set (d_labels d) (unat unit_id) (n_label n)) (\<lambda>ls.
       store_units is (d\<lparr>d_units := us, d_labels := ls\<rparr>) (unit_id - 1))))"

definition flush_node :: "DawgBuilder \<Rightarrow> id_type \<Rightarrow> fault + (id_type \<times> DawgBuilder)" where
  "flush_node d0 node_id =
     bind_ok (if length (d_table d0) - length (d_table d0) div 4 \<le> d_num_states d0
              then expand_table d0 else Inr d0) (\<lambda>d.
     bind_ok (sibling_chain (length (d_nodes d)) (d_nodes d) node_id) (\<lambda>is.
     bind_ok (find_node d is) (\<lambda>(match_id, hash_id).
     bind_ok
       (if match_id \<noteq> 0
        then bind_ok (bv_set (d_is_intersections d) (unat match_id) True) (\<lambda>v.
               Inr (match_id, d\<lparr>d_is_intersections := v\<rparr>))
        else let (unit_id, d1) = append_units is d 0
             in bind_ok (store_units is d1 unit_id) (\<lambda>(unit_id', d2).
                bind_ok (pool_set (d_table d2) hash_id (unit_id' + 1)) (\<lambda>table.
                  Inr (unit_id' + 1, d2\<lparr>d_table := table, d_num_states := d_num_states d2 + 1\<rparr>))))
       (\<lambda>(match_id', d3). Inr (match_id', d3\<lparr>d_recycle_bin := rev is @ d_recycle_bin d3\<rparr>)))))"

fun flush_loop :: "id_type list \<Rightarrow> DawgBuilder \<Rightarrow> id_type \<Rightarrow> fault + DawgBuilder" where
  "flush_loop [] d nid = Inl Out_of_bounds"
| "flush_loop (node_id # stack) d nid =
     (if node_id = nid then Inr (d\<lparr>d_node_stack := stack\<rparr>)
      else bind_ok (flush_node d node_id) (\<lambda>(match_id, d').
             case stack of
               [] \<Rightarrow> Inl Out_of_bounds
             | parent # rest \<Rightarrow>
                 bind_ok (pool_at (d_nodes d') (unat parent)) (\<lambda>n.
                   flush_loop stack
                     (d'\<lparr>d_nodes := (d_nodes d')[unat parent := n\<lparr>n_child := match_id\<rparr>]\<rparr>) nid)))"

definition flush :: "DawgBuilder \<Rightarrow> id_type \<Rightarrow> fault + DawgBuilder" where
  "flush d nid = flush_loop (d_node_stack d) d nid"

subsection \<open>Inserting a key\<close>

text \<open>
  The labels of a key are its characters and the terminator. The first loop follows the path of the last key;
  it leaves the labels that are not on it.
\<close>

definition key_labels :: "string \<Rightarrow> uchar_type list" where
  "key_labels key = map of_char key @ [0]"

fun insert_walk ::
    "uchar_type list \<Rightarrow> DawgBuilder \<Rightarrow> id_type \<Rightarrow> fault + (DawgBuilder \<times> id_type \<times> uchar_type list)" where
  "insert_walk [] d nid = Inr (d, nid, [])"
| "insert_walk (l # ls) d nid =
     bind_ok (pool_at (d_nodes d) (unat nid)) (\<lambda>n.
       let child_id = n_child n
       in if child_id = 0 then Inr (d, nid, l # ls)
          else if ls \<noteq> [] \<and> l = 0 then Inl Thrown
          else bind_ok (pool_at (d_nodes d) (unat child_id)) (\<lambda>c.
                 if l < n_label c then Inl Thrown
                 else if n_label c < l
                 then bind_ok
                        (flush (d\<lparr>d_nodes := (d_nodes d)[unat child_id := c\<lparr>n_has_sibling := True\<rparr>]\<rparr>) child_id)
                        (\<lambda>d'. Inr (d', nid, l # ls))
                 else insert_walk ls d child_id))"

fun insert_nodes :: "uchar_type list \<Rightarrow> DawgBuilder \<Rightarrow> id_type \<Rightarrow> fault + (DawgBuilder \<times> id_type)" where
  "insert_nodes [] d nid = Inr (d, nid)"
| "insert_nodes (l # ls) d nid =
     (let (child_id, d1) = append_node d
      in bind_ok (pool_at (d_nodes d1) (unat nid)) (\<lambda>p.
         bind_ok (pool_at (d_nodes d1) (unat child_id)) (\<lambda>c.
           let c' = c\<lparr>n_is_state := (n_child p = 0) \<or> n_is_state c, n_sibling := n_child p, n_label := l\<rparr>;
               nodes = (d_nodes d1)[unat child_id := c']
           in insert_nodes ls
                (d1\<lparr>d_nodes := nodes[unat nid := (nodes ! unat nid)\<lparr>n_child := child_id\<rparr>],
                    d_node_stack := child_id # d_node_stack d1\<rparr>) child_id)))"

definition dawg_insert :: "DawgBuilder \<Rightarrow> string \<Rightarrow> int \<Rightarrow> fault + DawgBuilder" where
  "dawg_insert d key v =
     (if v < 0 then Inl Thrown
      else if key = [] then Inl Thrown
      else bind_ok (insert_walk (key_labels key) d 0) (\<lambda>(d1, nid, ls).
             if ls = [] then Inr d1
             else bind_ok (insert_nodes ls d1 nid) (\<lambda>(d2, nid').
                  bind_ok (pool_at (d_nodes d2) (unat nid')) (\<lambda>n.
                    Inr (d2\<lparr>d_nodes := (d_nodes d2)[unat nid' := n\<lparr>n_child := word_of_int v\<rparr>]\<rparr>)))))"

definition dawg_finish :: "DawgBuilder \<Rightarrow> fault + DawgBuilder" where
  "dawg_finish d0 =
     bind_ok (flush d0 0) (\<lambda>d.
     bind_ok (pool_at (d_nodes d) 0) (\<lambda>n.
     bind_ok (pool_set (d_units d) 0 (node_unit n)) (\<lambda>us.
     bind_ok (pool_set (d_labels d) 0 (n_label n)) (\<lambda>ls.
       Inr (d\<lparr>d_units := us, d_labels := ls, d_nodes := [], d_table := [], d_node_stack := [],
              d_recycle_bin := [], d_is_intersections := bv_build (d_is_intersections d)\<rparr>)))))"

fun insert_keys :: "(string \<times> int) list \<Rightarrow> DawgBuilder \<Rightarrow> fault + DawgBuilder" where
  "insert_keys [] d = Inr d"
| "insert_keys ((key, v) # ks) d = bind_ok (dawg_insert d (c_str key) v) (insert_keys ks)"

definition build_dawg :: "(string \<times> int) list \<Rightarrow> fault + DawgBuilder" where
  "build_dawg keyset = bind_ok (dawg_init dawg_new) (\<lambda>d. bind_ok (insert_keys keyset d) dawg_finish)"

end
