(* ===== verification/Dawg_Store.thy ===== *)
theory Dawg_Store
  imports Dawg_Builder
begin

unbundle bit_operations_syntax

text \<open>
  The stored units of the word graph of \<open>Dawg_Builder\<close>. \<open>dfind\<close> looks a sequence of labels up in the
  units, \<open>cfind\<close> in a chain of nodes whose children are stored. The hash table finds a group only when it is
  equal to the chain, and always ends; \<open>flush_node_spec\<close> is the contract of a flush: the group it returns,
  new or found, finds what the chain found, and nothing stored before changes.
\<close>

section \<open>Finding labels in the stored units\<close>

function group_ids :: "id_type list \<Rightarrow> nat \<Rightarrow> nat list" where
  "group_ids us c =
     (if c < length us then c # (if du_has_sibling (us ! c) then group_ids us (Suc c) else []) else [])"
  by pat_completeness auto
termination by (relation "measure (\<lambda>(us, c). length us - c)") auto

declare group_ids.simps [simp del]

fun dfind :: "id_type list \<Rightarrow> uchar_type list \<Rightarrow> nat \<Rightarrow> uchar_type list \<Rightarrow> int option" where
  "dfind us ls c [] = None"
| "dfind us ls c (l # w) =
     (case find (\<lambda>u. ls ! u = l) (group_ids us c) of
        None \<Rightarrow> None
      | Some u \<Rightarrow> if l = 0 then Some (du_value (us ! u)) else dfind us ls (unat (du_child (us ! u))) w)"

abbreviation nd :: "DawgNode list \<Rightarrow> id_type \<Rightarrow> DawgNode" where
  "nd nodes i \<equiv> nodes ! unat i"

fun cfind :: "DawgNode list \<Rightarrow> id_type list \<Rightarrow> uchar_type list \<Rightarrow> id_type list \<Rightarrow> uchar_type list \<Rightarrow> int option" where
  "cfind nodes us ls is [] = None"
| "cfind nodes us ls is (l # w) =
     (case find (\<lambda>i. n_label (nd nodes i) = l) is of
        None \<Rightarrow> None
      | Some i \<Rightarrow> if l = 0 then Some (uint (n_child (nd nodes i))) else dfind us ls (unat (n_child (nd nodes i))) w)"

subsection \<open>Units hold what the nodes held\<close>

lemma du_node_unit:
  shows "du_has_sibling (node_unit n) \<longleftrightarrow> n_has_sibling n"
    and "n_label n \<noteq> 0 \<Longrightarrow> unat (n_child n) < 2 ^ 30 \<Longrightarrow> du_child (node_unit n) = n_child n"
    and "n_label n \<noteq> 0 \<Longrightarrow> du_is_state (node_unit n) \<longleftrightarrow> n_is_state n"
    and "n_label n = 0 \<Longrightarrow> unat (n_child n) < 2 ^ 31 \<Longrightarrow> du_value (node_unit n) = uint (n_child n)"
proof -
  have one: "w AND 1 = (1 :: id_type) \<longleftrightarrow> bit w 0" for w
    by (simp add: and_one_eq bit_0 odd_iff_mod_2_eq_one)
  have two: "w AND 2 = (2 :: id_type) \<longleftrightarrow> bit w 1" for w :: id_type
  proof
    assume "w AND 2 = 2"
    then have "bit (w AND 2) 1" by (simp add: bit_simps)
    then show "bit w 1" by (simp add: bit_simps)
  next
    assume "bit w 1"
    then show "w AND 2 = 2"
      by (intro bit_word_eqI) (auto simp: bit_simps bit_2_iff)
  qed
  have b: "bit (if c then 1 else 0 :: id_type) k \<longleftrightarrow> c \<and> k = 0" for c k by (auto simp: bit_1_iff)
  have b2: "bit (if c then 2 else 0 :: id_type) k \<longleftrightarrow> c \<and> k = 1" for c k by (auto simp: bit_2_iff)
  show "du_has_sibling (node_unit n) \<longleftrightarrow> n_has_sibling n"
    unfolding du_has_sibling_def one by (simp add: node_unit_def bit_simps b b2) (simp add: bit_0)
  show "n_label n \<noteq> 0 \<Longrightarrow> du_is_state (node_unit n) \<longleftrightarrow> n_is_state n"
    unfolding du_is_state_def two by (simp add: node_unit_def bit_simps b b2)
  have small: "\<not> bit w k" if "unat w < 2 ^ m" "m \<le> k" for w :: id_type and k m
  proof
    assume "bit w k"
    then have "bit (unat w) k" by (simp add: bit_simps bit_imp_le_length)
    moreover have "take_bit m (unat w) = unat w" using that by (simp add: take_bit_nat_eq_self)
    then have "\<not> bit (unat w) k" using that(2) by (metis bit_take_bit_iff not_le)
    ultimately show False by simp
  qed
  show "du_child (node_unit n) = n_child n" if l: "n_label n \<noteq> 0" and c: "unat (n_child n) < 2 ^ 30"
  proof (rule bit_word_eqI)
    fix k assume "k < LENGTH(32)"
    moreover have "bit (n_child n) k \<Longrightarrow> k < 30" using small [OF c, of k] not_le by blast
    ultimately show "bit (du_child (node_unit n)) k \<longleftrightarrow> bit (n_child n) k" using l
      by (auto simp: du_child_def node_unit_def bit_simps b b2)
  qed
  show "du_value (node_unit n) = uint (n_child n)" if l: "n_label n = 0" and c: "unat (n_child n) < 2 ^ 31"
  proof -
    have e: "drop_bit 1 (node_unit n) = n_child n"
    proof (rule bit_word_eqI)
      fix k assume "k < LENGTH(32)"
      moreover have "bit (n_child n) k \<Longrightarrow> k < 31" using small [OF c, of k] not_le by blast
      moreover have "bit (push_bit 1 (n_child n)) (Suc k) \<longleftrightarrow> k < 31 \<and> bit (n_child n) k"
        by (simp only: bit_push_bit_iff bit_simps) auto
      moreover have "bit (drop_bit 1 (node_unit n)) k \<longleftrightarrow> bit (push_bit 1 (n_child n)) (Suc k)"
      proof -
        have "node_unit n = push_bit 1 (n_child n) OR (if n_has_sibling n then 1 else 0)"
          unfolding node_unit_def l by (simp only: simp_thms if_True)
        then show ?thesis by (simp only: bit_drop_bit_eq comp_def bit_or_iff b plus_1_eq_Suc nat.distinct simp_thms)
      qed
      ultimately show "bit (drop_bit 1 (node_unit n)) k \<longleftrightarrow> bit (n_child n) k" by blast
    qed
    have d: "\<not> bit (n_child n) 31" using small [OF c, of 31] by simp
    have "uint (n_child n) = int (unat (n_child n))" by simp
    moreover have "unat (n_child n) < 2147483648" using c by simp
    ultimately have "uint (n_child n) < 2147483648" by linarith
    then have "take_bit 31 (uint (n_child n)) = uint (n_child n)"
      by (intro take_bit_int_eq_self) simp_all
    with e d show ?thesis unfolding du_value_def
      by (simp add: sint_uint signed_take_bit_eq_if_positive bit_simps)
  qed
qed

subsection \<open>Groups of units\<close>

text \<open>
  A store of units: every group ends, the labels in a group increase, a leaf has a value, and the
  children of a unit are a group that begins before the unit's own group. The root, unit 0, is written at the end.
\<close>

definition store_wf :: "id_type list \<Rightarrow> uchar_type list \<Rightarrow> bool" where
  "store_wf us ls \<longleftrightarrow>
     length ls = length us \<and> 0 < length us \<and> length us < 2 ^ 30 \<and>
     (1 < length us \<longrightarrow> \<not> du_has_sibling (us ! (length us - 1))) \<and>
     (\<forall>u. 0 < u \<longrightarrow> Suc u < length us \<longrightarrow> du_has_sibling (us ! u) \<longrightarrow> ls ! u < ls ! Suc u) \<and>
     (\<forall>c u. 0 < c \<longrightarrow> u \<in> set (group_ids us c) \<longrightarrow> ls ! u \<noteq> 0 \<longrightarrow>
        0 < unat (du_child (us ! u)) \<and> unat (du_child (us ! u)) < c) \<and>
     (\<forall>u. 0 < u \<longrightarrow> u < length us \<longrightarrow> ls ! u = 0 \<longrightarrow> 0 \<le> du_value (us ! u))"

lemma group_ids_bounds: "u \<in> set (group_ids us c) \<Longrightarrow> c \<le> u \<and> u < length us"
  by (induction us c rule: group_ids.induct) (subst (asm) (2) group_ids.simps, auto split: if_splits)

lemma group_ids_append:
  assumes "c < length us" "\<not> du_has_sibling (us ! (length us - 1))"
  shows "group_ids (us @ vs) c = group_ids us c"
  using assms
proof (induction us c rule: group_ids.induct)
  case (1 us c)
  show ?case
  proof (cases "du_has_sibling (us ! c)")
    case True
    with 1(3) 1(2) have "Suc c < length us" by (metis Suc_lessI diff_Suc_1)
    with 1 True show ?thesis
      by (subst (1 2) group_ids.simps) (simp add: nth_append)
  next
    case False
    with 1 show ?thesis by (subst (1 2) group_ids.simps) (simp add: nth_append)
  qed
qed

lemma dfind_append:
  assumes wf: "store_wf us ls" and len: "length vs = length ms"
  shows "0 < c \<Longrightarrow> c < length us \<Longrightarrow> dfind (us @ vs) (ls @ ms) c w = dfind us ls c w"
proof (induction w arbitrary: c)
  case (Cons l w)
  have l: "length ls = length us" using wf by (simp add: store_wf_def)
  have g: "group_ids (us @ vs) c = group_ids us c"
    using wf Cons.prems by (intro group_ids_append) (auto simp: store_wf_def)
  have f: "find (\<lambda>u. (ls @ ms) ! u = l) (group_ids us c) = find (\<lambda>u. ls ! u = l) (group_ids us c)"
    by (rule find_cong) (auto simp: nth_append l dest: group_ids_bounds)
  show ?case
  proof (cases "find (\<lambda>u. ls ! u = l) (group_ids us c)")
    case (Some u)
    then have u: "u \<in> set (group_ids us c)" "ls ! u = l" by (auto simp: find_Some_iff)
    then have lt: "u < length us" by (auto dest: group_ids_bounds)
    have "0 < unat (du_child (us ! u)) \<and> unat (du_child (us ! u)) < c" if "l \<noteq> 0"
      using wf Cons.prems(1) u that by (simp add: store_wf_def)
    then have "l \<noteq> 0 \<Longrightarrow> dfind (us @ vs) (ls @ ms) (unat (du_child (us ! u))) w =
        dfind us ls (unat (du_child (us ! u))) w"
      using Cons.IH [of "unat (du_child (us ! u))"] Cons.prems by simp
    moreover have "(us @ vs) ! u = us ! u" using lt by (simp add: nth_append)
    ultimately show ?thesis using Some unfolding dfind.simps g f by simp
  qed (simp only: dfind.simps g f option.case)
qed simp

text \<open>A chain of nodes whose images are the units behind \<open>g\<close>, in the opposite order.\<close>

definition group_stored :: "DawgNode list \<Rightarrow> id_type list \<Rightarrow> uchar_type list \<Rightarrow> id_type list \<Rightarrow> nat \<Rightarrow> bool" where
  "group_stored nodes us ls is g \<longleftrightarrow>
     g + length is \<le> length us \<and> length ls = length us \<and>
     (\<forall>j < length is. us ! (g + j) = node_unit (nd nodes (rev is ! j)) \<and> ls ! (g + j) = n_label (nd nodes (rev is ! j)))"

lemma group_ids_stored:
  assumes "group_stored nodes us ls is g" "is \<noteq> []"
    and f: "\<not> n_has_sibling (nd nodes (hd is))" "\<forall>i \<in> set (tl is). n_has_sibling (nd nodes i)"
  shows "group_ids us g = [g..<g + length is]"
proof -
  let ?n = "length is"
  have s: "du_has_sibling (us ! (g + j)) \<longleftrightarrow> j < ?n - 1" if "j < ?n" for j
  proof -
    have "rev is ! j = is ! (?n - 1 - j)" using that by (simp add: rev_nth)
    moreover have "n_has_sibling (nd nodes (is ! k)) \<longleftrightarrow> 0 < k" if "k < ?n" for k
    proof (cases k)
      case 0
      with f assms(2) show ?thesis by (simp add: hd_conv_nth)
    next
      case (Suc m)
      with that have "is ! k \<in> set (tl is)" by (metis Suc_less_eq length_Cons length_tl list.exhaust_sel nth_Cons_Suc nth_mem assms(2))
      with f Suc show ?thesis by simp
    qed
    ultimately show ?thesis using assms(1) that by (auto simp: group_stored_def du_node_unit(1))
  qed
  have "group_ids us (g + j) = [g + j..<g + ?n]" if "j < ?n" for j
    using that
  proof (induction "?n - j" arbitrary: j)
    case (Suc k)
    then have lt: "g + j < length us" using assms(1) by (simp add: group_stored_def)
    have "group_ids us (g + j) = (g + j) # (if j < ?n - 1 then group_ids us (g + Suc j) else [])"
      using lt s [OF Suc.prems] by (subst group_ids.simps) simp
    moreover have "[g + j..<g + ?n] = (g + j) # [g + Suc j..<g + ?n]"
      using Suc.prems by (simp add: upt_conv_Cons)
    moreover have "j < ?n - 1 \<Longrightarrow> group_ids us (g + Suc j) = [g + Suc j..<g + ?n]"
      using Suc.hyps(2) by (intro Suc.hyps(1)) auto
    ultimately show ?case using Suc.prems by (cases "j < ?n - 1") auto
  qed simp
  from this [of 0] assms(2) show ?thesis by simp
qed

definition entry_ok :: "nat \<Rightarrow> DawgNode \<Rightarrow> bool" where
  "entry_ok m n \<longleftrightarrow>
     (if n_label n = 0 then unat (n_child n) < 2 ^ 31 else 0 < unat (n_child n) \<and> unat (n_child n) < m)"

lemma find_map_Some: "find P (map f xs) = map_option f (find (\<lambda>x. P (f x)) xs)"
  by (induction xs) auto

lemma find_rev_unique:
  assumes "\<And>x y. x \<in> set xs \<Longrightarrow> y \<in> set xs \<Longrightarrow> P x \<Longrightarrow> P y \<Longrightarrow> x = y"
  shows "find P (rev xs) = find P xs"
proof (cases "find P xs")
  case None
  then have "find P (rev xs) = None" by (simp add: find_None_iff)
  with None show ?thesis by simp
next
  case (Some x)
  then have x: "x \<in> set xs" "P x" by (auto simp: find_Some_iff)
  then obtain y where y: "find P (rev xs) = Some y" by (cases "find P (rev xs)") (auto simp: find_None_iff)
  then have "y \<in> set xs" "P y" by (auto simp: find_Some_iff) (metis length_rev nth_mem set_rev)
  with assms x have "y = x" by blast
  with y Some show ?thesis by simp
qed

lemma dfind_stored:
  assumes st: "group_stored nodes us ls is g" and ne: "is \<noteq> []" and m: "length us < 2 ^ 30"
    and f: "\<not> n_has_sibling (nd nodes (hd is))" "\<forall>i \<in> set (tl is). n_has_sibling (nd nodes i)"
    and d: "distinct (map (n_label \<circ> nd nodes) is)" and ok: "\<forall>i \<in> set is. entry_ok (length us) (nd nodes i)"
  shows "dfind us ls g w = cfind nodes us ls is w"
proof (cases w)
  case (Cons l v)
  let ?n = "length is" and ?P = "\<lambda>i. n_label (nd nodes i) = l"
  have g: "group_ids us g = map ((+) g) [0..<?n]"
    unfolding group_ids_stored [OF st ne f] by (rule nth_equalityI) auto
  have u: "find (\<lambda>u. ls ! u = l) (group_ids us g) = map_option ((+) g) (find (\<lambda>j. ls ! (g + j) = l) [0..<?n])"
    unfolding g find_map_Some comp_def ..
  have "find (\<lambda>j. ls ! (g + j) = l) [0..<?n] = find (\<lambda>j. ?P (rev is ! j)) [0..<?n]"
    by (rule find_cong) (use st in \<open>auto simp: group_stored_def\<close>)
  moreover have "map_option ((!) (rev is)) (find (\<lambda>j. ?P (rev is ! j)) [0..<?n]) = find ?P (rev is)"
  proof -
    have "rev is = map ((!) (rev is)) [0..<?n]" by (rule nth_equalityI) auto
    then have "find ?P (rev is) = find ?P (map ((!) (rev is)) [0..<?n])" by (rule arg_cong)
    then show ?thesis by (simp add: find_map_Some)
  qed
  moreover have "find ?P (rev is) = find ?P is"
    by (rule find_rev_unique) (use d in \<open>auto simp: distinct_map inj_on_def\<close>)
  ultimately have fi: "find ?P is = map_option ((!) (rev is)) (find (\<lambda>j. ls ! (g + j) = l) [0..<?n])" by simp
  show ?thesis
  proof (cases "find (\<lambda>j. ls ! (g + j) = l) [0..<?n]")
    case None
    with u fi show ?thesis by (simp add: Cons)
  next
    case (Some j)
    then have j: "j < ?n" by (auto simp: find_Some_iff)
    let ?i = "rev is ! j"
    have i: "?i \<in> set is" using j by (metis length_rev nth_mem set_rev)
    have fi': "find ?P is = Some ?i" using fi Some by simp
    then have l: "n_label (nd nodes ?i) = l" by (auto simp: find_Some_iff)
    have us: "us ! (g + j) = node_unit (nd nodes ?i)" using st j by (simp add: group_stored_def)
    have e: "entry_ok (length us) (nd nodes ?i)" using ok i by blast
    show ?thesis
    proof (cases "l = 0")
      case True
      with e l have "du_value (us ! (g + j)) = uint (n_child (nd nodes ?i))"
        unfolding us by (intro du_node_unit(4)) (auto simp: entry_ok_def)
      with True Cons u Some fi' show ?thesis by simp
    next
      case False
      with e l m have "du_child (us ! (g + j)) = n_child (nd nodes ?i)"
        unfolding us by (intro du_node_unit(2)) (auto simp: entry_ok_def)
      with False Cons u Some fi' show ?thesis by simp
    qed
  qed
qed (cases "is"; simp)

section \<open>The hash table of the groups\<close>

lemma hash_node_total:
  "\<forall>i \<in> set is. unat i < length nodes \<Longrightarrow> \<exists>h. hash_node nodes is = Inr h"
proof -
  have "\<forall>i \<in> set is. unat i < length nodes \<Longrightarrow>
    \<exists>h'. fold (\<lambda>i m. bind_ok m (\<lambda>h. bind_ok (pool_at nodes (unat i)) (\<lambda>n.
       Inr (h XOR dawg_hash (label_unit (n_label n) (node_unit n)))))) is (Inr h) = (Inr h' :: fault + _)" for h
    by (induction "is" arbitrary: h) auto
  then show "\<forall>i \<in> set is. unat i < length nodes \<Longrightarrow> \<exists>h. hash_node nodes is = Inr h"
    by (simp add: hash_node_def)
qed

lemma unat_plus_1: "unat (u :: id_type) < m \<Longrightarrow> m < 4294967296 \<Longrightarrow> unat (u + 1) = unat u + 1"
  by (simp add: unat_word_ariths)

lemma unat_minus_1: "0 < unat (u :: id_type) \<Longrightarrow> unat (u - 1) = unat u - 1"
  by (intro unat_minus_one) auto

lemma units_last_spec:
  assumes "length us < 4294967296" "\<not> du_has_sibling (us ! (length us - 1))"
  shows "unat u < length us \<Longrightarrow>
    \<exists>r. units_last us is u = Inr r \<and> (\<forall>v. r = Some v \<longrightarrow> unat v = unat u + length is \<and> unat v < length us)"
proof (induction "is" arbitrary: u)
  case (Cons i "is")
  show ?case
  proof (cases "du_has_sibling (us ! unat u)")
    case True
    with assms(2) Cons.prems have "Suc (unat u) < length us" by (metis Suc_lessI diff_Suc_1)
    moreover have u: "unat (u + 1) = Suc (unat u)" using unat_plus_1 [OF Cons.prems assms(1)] by simp
    ultimately have "unat (u + 1) < length us" by simp
    from Cons.IH [OF this] True Cons.prems u show ?thesis by auto
  qed (use Cons.prems in auto)
qed simp

lemma units_match_spec:
  assumes l: "length ls = length us"
  shows "\<forall>i \<in> set is. unat i < length nodes \<Longrightarrow> unat u < length us \<Longrightarrow> length is \<le> unat u + 1 \<Longrightarrow>
    \<exists>b. units_match nodes us ls is u = Inr b \<and>
      (b \<longrightarrow> (\<forall>j < length is. us ! (unat u - j) = node_unit (nd nodes (is ! j)) \<and>
        ls ! (unat u - j) = n_label (nd nodes (is ! j))))"
proof (induction "is" arbitrary: u)
  case (Cons i "is")
  show ?case
  proof (cases "node_unit (nd nodes i) = us ! unat u \<and> n_label (nd nodes i) = ls ! unat u")
    case True
    show ?thesis
    proof (cases "is")
      case Nil
      with True Cons.prems l show ?thesis by auto
    next
      case (Cons k ks)
      with Cons.prems have pos: "0 < unat u" by auto
      note u = unat_minus_1 [OF pos]
      have "unat (u - 1) < length us" "length is \<le> unat (u - 1) + 1" using pos Cons.prems u by auto
      from Cons.IH [OF _ this] Cons.prems(1) u obtain b where b: "units_match nodes us ls is (u - 1) = Inr b"
        "b \<longrightarrow> (\<forall>j < length is. us ! (unat u - 1 - j) = node_unit (nd nodes (is ! j)) \<and>
          ls ! (unat u - 1 - j) = n_label (nd nodes (is ! j)))"
        by auto
      have "us ! (unat u - j) = node_unit (nd nodes ((i # is) ! j)) \<and>
          ls ! (unat u - j) = n_label (nd nodes ((i # is) ! j))" if "b" "j < length (i # is)" for j
        using that b(2) True by (cases j) auto
      with b(1) Cons.prems True l show ?thesis by auto
    qed
  qed (use Cons.prems l in auto)
qed (rule exI [of _ True], simp)

lemma are_equal_spec:
  assumes wf: "store_wf (d_units d) (d_labels d)" and n: "\<forall>i \<in> set is. unat i < length (d_nodes d)"
    and ne: "is \<noteq> []" and u: "0 < unat u" "unat u < length (d_units d)"
  shows "\<exists>b. are_equal d is u = Inr b \<and> (b \<longrightarrow> group_stored (d_nodes d) (d_units d) (d_labels d) is (unat u))"
proof -
  let ?us = "d_units d" and ?ls = "d_labels d"
  have us: "length ?us < 4294967296" "\<not> du_has_sibling (?us ! (length ?us - 1))" "length ?ls = length ?us"
    using wf u by (auto simp: store_wf_def)
  obtain r where r: "units_last ?us (tl is) u = Inr r"
    "\<And>v. r = Some v \<Longrightarrow> unat v = unat u + length (tl is) \<and> unat v < length ?us"
    using units_last_spec [OF us(1,2) u(2), of "tl is"] by auto
  show ?thesis
  proof (cases r)
    case None
    with r(1) show ?thesis by (intro exI [of _ False]) (simp add: are_equal_def)
  next
    case (Some v)
    with r(2) ne have v: "unat v = unat u + (length is - 1)" "unat v < length ?us" by auto
    then have "length is \<le> unat v + 1" by simp
    from units_match_spec [OF us(3) n v(2) this] obtain b where
      b: "units_match (d_nodes d) ?us ?ls is v = Inr b"
        "b \<Longrightarrow> \<forall>j < length is. ?us ! (unat v - j) = node_unit (nd (d_nodes d) (is ! j)) \<and>
          ?ls ! (unat v - j) = n_label (nd (d_nodes d) (is ! j))" by auto
    have "group_stored (d_nodes d) ?us ?ls is (unat u)" if "b"
      unfolding group_stored_def
    proof (intro conjI allI impI)
      show "unat u + length is \<le> length ?us" using v ne by (cases "is") auto
      fix j assume j: "j < length is"
      then have k: "length is - 1 - j < length is" "unat v - (length is - 1 - j) = unat u + j"
        "rev is ! j = is ! (length is - 1 - j)" using v by (auto simp: rev_nth)
      with b(2) [OF that, rule_format, OF k(1)]
      show "?us ! (unat u + j) = node_unit (nd (d_nodes d) (rev is ! j))"
        "?ls ! (unat u + j) = n_label (nd (d_nodes d) (rev is ! j))" by simp_all
    qed (rule us(3))
    with Some r(1) b(1) v show ?thesis
      by (cases "du_has_sibling (?us ! unat v)") (auto simp: are_equal_def)
  qed
qed

text \<open>
  Less than all of the slots are taken: as many as there are states without the root, and the
  table is expanded when three quarters are taken.
\<close>

definition taken :: "id_type list \<Rightarrow> nat" where
  "taken table = length (filter (\<lambda>t. t \<noteq> 0) table)"

definition first_unit :: "DawgBuilder \<Rightarrow> nat \<Rightarrow> bool" where
  "first_unit d i \<longleftrightarrow> 0 < i \<and> i < length (d_units d) \<and> (d_labels d ! i = 0 \<or> du_is_state (d_units d ! i))"

definition table_ok :: "DawgBuilder \<Rightarrow> bool" where
  "table_ok d \<longleftrightarrow>
     4 \<le> length (d_table d) \<and> taken (d_table d) < d_num_states d \<and>
     card {i. first_unit d i} < d_num_states d \<and>
     d_num_states d \<le> length (d_table d) - length (d_table d) div 4 \<and>
     (\<forall>t \<in> set (d_table d). unat t < length (d_units d))"

lemma taken_free: "taken table < length table \<Longrightarrow> \<exists>e < length table. table ! e = 0"
proof (rule ccontr)
  assume t: "taken table < length table" and "\<not> (\<exists>e < length table. table ! e = 0)"
  then have "filter (\<lambda>t. t \<noteq> 0) table = table" by (auto simp: filter_id_conv in_set_conv_nth)
  with t show False by (simp add: taken_def)
qed

lemma taken_update:
  assumes "h < length table" "table ! h = 0"
  shows "taken (table[h := t]) \<le> taken table + 1"
proof -
  obtain a b where ab: "table = a @ 0 # b" "length a = h"
    using assms id_take_nth_drop [OF assms(1)] by (metis length_take min.absorb4)
  then have "table[h := t] = a @ t # b" by auto
  with ab(1) show ?thesis by (simp add: taken_def)
qed

text \<open>The number of steps from the slot \<open>h\<close> to the slot \<open>e\<close>, around the end of the table.\<close>

definition steps_to :: "nat \<Rightarrow> nat \<Rightarrow> nat \<Rightarrow> nat" where
  "steps_to n e h = (if h \<le> e then e - h else e + n - h)"

lemma steps_to_next:
  assumes "e < n" "h < n" "h \<noteq> e"
  shows "steps_to n e ((h + 1) mod n) < steps_to n e h"
proof (cases "h + 1 = n")
  case False
  with assms have "(h + 1) mod n = h + 1" by auto
  with assms show ?thesis by (auto simp: steps_to_def)
qed (use assms in \<open>auto simp: steps_to_def\<close>)

lemma find_node_loop_spec:
  assumes wf: "store_wf (d_units d) (d_labels d)" and n: "\<forall>i \<in> set is. unat i < length (d_nodes d)"
    and ne: "is \<noteq> []" and t: "\<forall>t \<in> set (d_table d). unat t < length (d_units d)"
    and e: "e < length (d_table d)" "d_table d ! e = 0"
  shows "h < length (d_table d) \<Longrightarrow> steps_to (length (d_table d)) e h < fuel \<Longrightarrow>
    \<exists>m h'. find_node_loop fuel d is h = Inr (m, h') \<and> h' < length (d_table d) \<and>
      (if m = 0 then d_table d ! h' = 0
       else 0 < unat m \<and> unat m < length (d_units d) \<and> group_stored (d_nodes d) (d_units d) (d_labels d) is (unat m))"
proof (induction fuel arbitrary: h)
  case (Suc fuel)
  let ?n = "length (d_table d)" and ?t = "d_table d ! h"
  show ?case
  proof (cases "?t = 0")
    case True
    with Suc.prems(1) show ?thesis by auto
  next
    case False
    have u: "0 < unat ?t" "unat ?t < length (d_units d)"
      using False t Suc.prems(1) by (auto simp: unat_gt_0)
    obtain b where b: "are_equal d is ?t = Inr b" "b \<longrightarrow> group_stored (d_nodes d) (d_units d) (d_labels d) is (unat ?t)"
      using are_equal_spec [OF wf n ne u] by blast
    show ?thesis
    proof (cases b)
      case True
      with b u False Suc.prems(1) show ?thesis by auto
    next
      case neq: False
      have "h \<noteq> e" using False e(2) by auto
      from steps_to_next [OF e(1) Suc.prems(1) this] Suc.prems(2)
      have "steps_to ?n e ((h + 1) mod ?n) < fuel" by simp
      moreover have "(h + 1) mod ?n < ?n" using Suc.prems(1) by (intro mod_less_divisor) auto
      ultimately obtain m h' where "find_node_loop fuel d is ((h + 1) mod ?n) = Inr (m, h')" "h' < ?n"
        "if m = 0 then d_table d ! h' = 0
         else 0 < unat m \<and> unat m < length (d_units d) \<and> group_stored (d_nodes d) (d_units d) (d_labels d) is (unat m)"
        using Suc.IH by blast
      with False neq b(1) Suc.prems(1) show ?thesis by auto
    qed
  qed
qed simp

lemma steps_to_less: "e < n \<Longrightarrow> h < n \<Longrightarrow> steps_to n e h < n"
  by (auto simp: steps_to_def)

lemma find_node_spec:
  assumes wf: "store_wf (d_units d) (d_labels d)" and n: "\<forall>i \<in> set is. unat i < length (d_nodes d)"
    and ne: "is \<noteq> []" and t: "table_ok d"
  shows "\<exists>m h. find_node d is = Inr (m, h) \<and> h < length (d_table d) \<and>
      (if m = 0 then d_table d ! h = 0
       else 0 < unat m \<and> unat m < length (d_units d) \<and> group_stored (d_nodes d) (d_units d) (d_labels d) is (unat m))"
proof -
  have "taken (d_table d) < length (d_table d)" using t unfolding table_ok_def by linarith
  then obtain e where e: "e < length (d_table d)" "d_table d ! e = 0" using taken_free by blast
  obtain h where h: "hash_node (d_nodes d) is = Inr h" using hash_node_total [OF n] by auto
  have h0: "unat h mod length (d_table d) < length (d_table d)" using e(1) by (intro mod_less_divisor) auto
  have "\<forall>t \<in> set (d_table d). unat t < length (d_units d)" using t by (simp add: table_ok_def)
  from find_node_loop_spec [OF wf n ne this e h0 steps_to_less [OF e(1) h0]] h e(1) show ?thesis
    by (auto simp: find_node_def)
qed

lemma find_free_spec:
  assumes e: "e < length table" "table ! e = 0"
  shows "h < length table \<Longrightarrow> steps_to (length table) e h < fuel \<Longrightarrow>
    \<exists>h'. find_free fuel table h = Inr h' \<and> h' < length table \<and> table ! h' = 0"
proof (induction fuel arbitrary: h)
  case (Suc fuel)
  show ?case
  proof (cases "table ! h = 0")
    case False
    then have "h \<noteq> e" using e by auto
    from steps_to_next [OF e(1) Suc.prems(1) this] Suc.prems(2)
    have "steps_to (length table) e ((h + 1) mod length table) < fuel" by simp
    moreover have "(h + 1) mod length table < length table" using Suc.prems(1) by (intro mod_less_divisor) auto
    ultimately show ?thesis using Suc.IH [of "(h + 1) mod length table"] False Suc.prems(1) by auto
  qed (use Suc.prems in auto)
qed simp

lemma hash_unit_total:
  assumes "length ls = length us" "\<not> du_has_sibling (us ! (length us - 1))"
  shows "i < length us \<Longrightarrow> \<exists>h'. hash_unit us ls i h = Inr h'"
proof (induction "length us - i" arbitrary: i h)
  case (Suc k)
  show ?case
  proof (cases "i = 0 \<or> \<not> du_has_sibling (us ! i)")
    case True
    with Suc.prems assms(1) show ?thesis by (subst hash_unit.simps) (auto simp: Let_def)
  next
    case False
    with assms(2) Suc.prems have lt: "Suc i < length us" by (metis Suc_lessI diff_Suc_1)
    have "\<exists>h'. hash_unit us ls (Suc i) h'' = Inr h'" for h''
      using Suc.hyps(2) lt by (intro Suc.hyps(1)) auto
    with False Suc.prems assms(1) show ?thesis by (subst hash_unit.simps) (simp add: Let_def)
  qed
qed simp

lemma expand_loop_spec:
  assumes wf: "store_wf (d_units d) (d_labels d)"
  shows "distinct is \<Longrightarrow> \<forall>i \<in> set is. 0 < i \<and> i < length (d_units d) \<Longrightarrow>
    \<forall>t \<in> set table. unat t < length (d_units d) \<Longrightarrow>
    taken table + card {i \<in> set is. first_unit d i} \<le> length table \<Longrightarrow>
    \<exists>table'. expand_loop d is table = Inr table' \<and> length table' = length table \<and>
      taken table' \<le> taken table + card {i \<in> set is. first_unit d i} \<and>
      (\<forall>t \<in> set table'. unat t < length (d_units d))"
proof (induction "is" arbitrary: table)
  case (Cons i "is")
  let ?us = "d_units d" and ?ls = "d_labels d"
  have l: "length ?ls = length ?us" and i: "0 < i" "i < length ?us"
    and nolast: "\<not> du_has_sibling (?us ! (length ?us - 1))" and lt: "length ?us < 4294967296"
    using wf Cons.prems(2) by (auto simp: store_wf_def)
  show ?case
  proof (cases "first_unit d i")
    case False
    then have "{j \<in> set (i # is). first_unit d j} = {j \<in> set is. first_unit d j}" by auto
    with Cons False i l show ?thesis by (simp add: first_unit_def)
  next
    case True
    have "{j \<in> set (i # is). first_unit d j} = insert i {j \<in> set is. first_unit d j}" using True by auto
    then have c: "card {j \<in> set (i # is). first_unit d j} = Suc (card {j \<in> set is. first_unit d j})"
      using Cons.prems(1) by simp
    obtain h where h: "hash_unit ?us ?ls i 0 = Inr h" using hash_unit_total [OF l nolast i(2)] by blast
    obtain e where e: "e < length table" "table ! e = 0" using taken_free [of table] Cons.prems(4) c by auto
    have h0: "unat h mod length table < length table" using e(1) by (intro mod_less_divisor) auto
    obtain h' where h': "find_free (length table) table (unat h mod length table) = Inr h'" "h' < length table" "table ! h' = 0"
      using find_free_spec [OF e h0 steps_to_less [OF e(1) h0]] by blast
    let ?t = "table[h' := of_nat i]"
    have t: "taken ?t \<le> taken table + 1" by (rule taken_update [OF h'(2,3)])
    have "unat (of_nat i :: id_type) = i" using i lt by (intro unat_of_nat_less) simp
    then have "\<forall>t \<in> set ?t. unat t < length ?us" using Cons.prems(3) i by (auto dest!: set_update_subset_insert [THEN subsetD])
    moreover have "taken ?t + card {j \<in> set is. first_unit d j} \<le> length ?t" using t c Cons.prems(4) by simp
    ultimately obtain table' where "expand_loop d is ?t = Inr table'" "length table' = length table"
      "taken table' \<le> taken ?t + card {j \<in> set is. first_unit d j}" "\<forall>t \<in> set table'. unat t < length ?us"
      using Cons.IH [of ?t] Cons.prems(1,2) by auto
    moreover have "find_unit d table i = Inr h'" using h h'(1) e(1) by (auto simp: find_unit_def)
    moreover have "?ls ! i = 0 \<or> du_is_state (?us ! i)" using True by (simp add: first_unit_def)
    ultimately show ?thesis using i l c t by auto
  qed
qed (simp add: taken_def)

lemma expand_table_spec:
  assumes wf: "store_wf (d_units d) (d_labels d)" and t: "table_ok d"
  shows "\<exists>table. expand_table d = Inr (d\<lparr>d_table := table\<rparr>) \<and> table_ok (d\<lparr>d_table := table\<rparr>) \<and>
    d_num_states d < length table - length table div 4"
proof -
  let ?n = "length (d_table d)" and ?is = "[1..<length (d_units d)]"
  have n: "4 \<le> ?n" "d_num_states d \<le> ?n - ?n div 4" using t by (auto simp: table_ok_def)
  have "{i \<in> set ?is. first_unit d i} = {i. first_unit d i}" by (auto simp: first_unit_def)
  then have c: "card {i \<in> set ?is. first_unit d i} < d_num_states d" using t by (simp add: table_ok_def)
  have z: "taken (replicate (2 * ?n) 0) = 0" by (simp add: taken_def)
  have "d_num_states d \<le> 2 * ?n" using n by simp
  with c z expand_loop_spec [OF wf, of ?is "replicate (2 * ?n) 0"] wf obtain table where
    e: "expand_loop d ?is (replicate (2 * ?n) 0) = Inr table" "length table = 2 * ?n"
      "taken table \<le> card {i \<in> set ?is. first_unit d i}" "\<forall>t \<in> set table. unat t < length (d_units d)"
    by (auto simp: store_wf_def)
  have q: "?n - ?n div 4 < 2 * ?n - (2 * ?n) div 4" using n(1) by linarith
  moreover have "first_unit (d\<lparr>d_table := table\<rparr>) = first_unit d" by (rule ext) (simp add: first_unit_def)
  ultimately have "table_ok (d\<lparr>d_table := table\<rparr>)" using e c n t by (simp add: table_ok_def)
  with e(1,2) q n(2) show ?thesis by (auto simp: expand_table_def)
qed

section \<open>The open path of nodes\<close>

text \<open>
  The siblings of a node form a chain from the last one inserted to the first. Above the open
  path the levels are the node on the path with its older siblings; behind the last level is the chain of its
  children. \<open>F\<close> holds the nodes that are about to get another sibling.
\<close>

definition hd0 :: "id_type list \<Rightarrow> id_type" where
  "hd0 is = (case is of [] \<Rightarrow> 0 | i # _ \<Rightarrow> i)"

fun sib_linked :: "DawgNode list \<Rightarrow> id_type list \<Rightarrow> bool" where
  "sib_linked nodes [] \<longleftrightarrow> True"
| "sib_linked nodes (i # is) \<longleftrightarrow> n_sibling (nd nodes i) = hd0 is \<and> sib_linked nodes is"

definition chain_ok :: "DawgNode list \<Rightarrow> id_type set \<Rightarrow> id_type list \<Rightarrow> bool" where
  "chain_ok nodes F is \<longleftrightarrow>
     sib_linked nodes is \<and>
     (is \<noteq> [] \<longrightarrow> (n_has_sibling (nd nodes (hd is)) \<longleftrightarrow> hd is \<in> F)) \<and>
     (\<forall>i \<in> set (tl is). n_has_sibling (nd nodes i)) \<and>
     sorted_wrt (>) (map (n_label \<circ> nd nodes) is) \<and>
     (\<forall>i \<in> set (butlast is). \<not> n_is_state (nd nodes i))"

fun levels_ok ::
    "DawgNode list \<Rightarrow> nat \<Rightarrow> id_type set \<Rightarrow> id_type \<Rightarrow> (id_type \<times> id_type list) list \<Rightarrow> id_type list \<Rightarrow> bool" where
  "levels_ok nodes m F p [] S \<longleftrightarrow>
     n_child (nd nodes p) = hd0 S \<and> chain_ok nodes F S \<and> (\<forall>i \<in> set S. entry_ok m (nd nodes i))"
| "levels_ok nodes m F p ((n, T) # L) S \<longleftrightarrow>
     n_child (nd nodes p) = n \<and> n_label (nd nodes n) \<noteq> 0 \<and> chain_ok nodes F (n # T) \<and>
     (\<forall>i \<in> set T. entry_ok m (nd nodes i)) \<and> levels_ok nodes m F n L S"

definition used :: "(id_type \<times> id_type list) list \<Rightarrow> id_type list \<Rightarrow> id_type list" where
  "used L S = concat (map (\<lambda>(n, T). n # T) L) @ S"

definition ids_ok :: "DawgBuilder \<Rightarrow> id_type list \<Rightarrow> bool" where
  "ids_ok d is \<longleftrightarrow>
     distinct (0 # is @ d_recycle_bin d) \<and> (\<forall>i \<in> set (is @ d_recycle_bin d). unat i < length (d_nodes d)) \<and>
     0 < length (d_nodes d)"

definition core_ok :: "DawgBuilder \<Rightarrow> bool" where
  "core_ok d \<longleftrightarrow>
     store_wf (d_units d) (d_labels d) \<and> bv_wf (d_is_intersections d) \<and>
     bv_size (d_is_intersections d) = length (d_units d) \<and> table_ok d"

lemma sibling_chain_eq:
  "sib_linked nodes is \<Longrightarrow> 0 \<notin> set is \<Longrightarrow> \<forall>i \<in> set is. unat i < length nodes \<Longrightarrow> length is \<le> fuel \<Longrightarrow>
   sibling_chain fuel nodes (hd0 is) = Inr is"
proof (induction "is" arbitrary: fuel)
  case (Cons i "is")
  then obtain f where "fuel = Suc f" by (cases fuel) auto
  with Cons show ?case by (subst sibling_chain.simps) (simp add: hd0_def)
qed (subst sibling_chain.simps; simp add: hd0_def)

lemma distinct_ids_length:
  assumes "distinct is" "\<forall>i \<in> set is. unat (i :: id_type) < n"
  shows "length is \<le> n"
proof -
  have "distinct (map unat is)" using assms(1) by (simp add: distinct_map inj_on_def word_unat_eq_iff)
  moreover have "set (map unat is) \<subseteq> {..<n}" using assms(2) by auto
  ultimately have "length (map unat is) \<le> card {..<n}"
    by (metis card_mono distinct_card finite_lessThan)
  then show ?thesis by simp
qed

lemma cfind_append:
  assumes "store_wf us ls" "length vs = length ms" "\<forall>i \<in> set is. entry_ok (length us) (nd nodes i)"
  shows "cfind nodes (us @ vs) (ls @ ms) is w = cfind nodes us ls is w"
proof (cases w)
  case (Cons l v)
  show ?thesis
  proof (cases "find (\<lambda>i. n_label (nd nodes i) = l) is")
    case (Some i)
    then have "i \<in> set is" "n_label (nd nodes i) = l" by (auto simp: find_Some_iff)
    with assms(3) have "l \<noteq> 0 \<Longrightarrow> 0 < unat (n_child (nd nodes i)) \<and> unat (n_child (nd nodes i)) < length us"
      by (auto simp: entry_ok_def)
    with Some Cons dfind_append [OF assms(1,2)] show ?thesis by simp
  qed (simp add: Cons)
qed (cases "is"; simp)

lemma append_units_spec:
  "is \<noteq> [] \<Longrightarrow> bv_wf (d_is_intersections d) \<Longrightarrow> bv_size (d_is_intersections d) = length (d_units d) \<Longrightarrow>
   \<exists>v. append_units is d u = (of_nat (length (d_units d) + length is - 1),
       d\<lparr>d_is_intersections := v, d_units := d_units d @ replicate (length is) 0,
         d_labels := d_labels d @ replicate (length is) 0\<rparr>) \<and>
     bv_wf v \<and> bv_size v = length (d_units d) + length is \<and> (\<forall>i. bv_bit v i \<longleftrightarrow> bv_bit (d_is_intersections d) i)"
proof (induction "is" arbitrary: d u)
  case (Cons i "is")
  let ?v = "bv_append (d_is_intersections d)"
  let ?d = "d\<lparr>d_is_intersections := ?v, d_units := d_units d @ [0], d_labels := d_labels d @ [0]\<rparr>"
  note v = bv_append_wf [OF Cons.prems(2)]
  have a: "append_units (i # is) d u = append_units is ?d (of_nat (length (d_units d)))"
    using v(3) Cons.prems(3) by (simp add: append_unit_def Let_def)
  show ?case
  proof (cases "is = []")
    case True
    with a v Cons.prems(3) show ?thesis by auto
  next
    case False
    have "bv_wf (d_is_intersections ?d)" "bv_size (d_is_intersections ?d) = length (d_units ?d)"
      using v Cons.prems(3) by auto
    from Cons.IH [OF False this, of "of_nat (length (d_units d))"] a v show ?thesis
      by (auto simp: add.commute add.left_commute)
  qed
qed simp

lemma store_units_spec:
  assumes nodes: "\<forall>i \<in> set is. unat i < length (d_nodes d)" and ne: "is \<noteq> []"
    and us: "d_units d = us @ replicate (length is) 0" and ls: "d_labels d = ls @ replicate (length is) 0"
    and l: "length ls = length us" "0 < length us" "length us + length is < 2 ^ 30"
  shows "store_units is d (of_nat (length us + length is - 1)) =
    Inr (of_nat (length us - 1), d\<lparr>d_units := us @ rev (map (node_unit \<circ> nd (d_nodes d)) is),
      d_labels := ls @ rev (map (n_label \<circ> nd (d_nodes d)) is)\<rparr>)"
proof -
  have "d_units e = us @ replicate (length js) 0 @ vs \<Longrightarrow> d_labels e = ls @ replicate (length js) 0 @ ms \<Longrightarrow>
      d_nodes e = d_nodes d \<Longrightarrow> set js \<subseteq> set is \<Longrightarrow> length js \<le> length is \<Longrightarrow>
      store_units js e (of_nat (length us + length js - 1)) =
      Inr (of_nat (length us - 1), e\<lparr>d_units := us @ rev (map (node_unit \<circ> nd (d_nodes d)) js) @ vs,
        d_labels := ls @ rev (map (n_label \<circ> nd (d_nodes d)) js) @ ms\<rparr>)" for e js vs ms
  proof (induction js arbitrary: e vs ms)
    case (Cons j js)
    let ?k = "length us + length js"
    obtain x :: id_type where x: "x = of_nat ?k" by blast
    have k: "unat x = ?k" unfolding x using l(3) Cons.prems(5) by (intro unat_of_nat_less) simp
    have j: "unat j < length (d_nodes d)" using nodes Cons.prems(4) by auto
    have k1: "x - 1 = of_nat (?k - 1)"
    proof -
      obtain m where "?k = Suc m" using l(2) by (cases "length us") auto
      then show ?thesis unfolding x by simp
    qed
    have r: "replicate (length (j # js)) (0 :: 'x :: zero) = replicate (length js) 0 @ [0]" for js :: "id_type list" and j :: id_type
      by (simp add: replicate_append_same)
    let ?u = "node_unit (nd (d_nodes d) j)" and ?l = "n_label (nd (d_nodes d) j)"
    let ?us = "us @ replicate (length js) 0 @ ?u # vs" and ?ls = "ls @ replicate (length js) 0 @ ?l # ms"
    have u: "pool_set (d_units e) ?k ?u = Inr ?us"
      unfolding Cons.prems(1) r by (simp add: pool_set_def list_update_append)
    have m: "pool_set (d_labels e) ?k ?l = Inr ?ls"
      unfolding Cons.prems(2) r by (simp add: pool_set_def list_update_append l(1))
    have "store_units js (e\<lparr>d_units := ?us, d_labels := ?ls\<rparr>) (of_nat (?k - 1)) =
      Inr (of_nat (length us - 1), e\<lparr>d_units := us @ rev (map (node_unit \<circ> nd (d_nodes d)) js) @ ?u # vs,
        d_labels := ls @ rev (map (n_label \<circ> nd (d_nodes d)) js) @ ?l # ms\<rparr>)"
      using Cons.IH [of "e\<lparr>d_units := ?us, d_labels := ?ls\<rparr>" "?u # vs" "?l # ms"] Cons.prems by simp
    then have "store_units (j # js) e x = Inr (of_nat (length us - 1),
        e\<lparr>d_units := us @ rev (map (node_unit \<circ> nd (d_nodes d)) js) @ ?u # vs,
          d_labels := ls @ rev (map (n_label \<circ> nd (d_nodes d)) js) @ ?l # ms\<rparr>)"
      using Cons.prems(3) j by (simp only: store_units.simps k pool_at_ok u m bind_ok_simps k1)
    moreover have "of_nat (length us + length (j # js) - 1) = x" by (simp add: x)
    ultimately show ?case by simp
  qed simp
  from this [of d "is" "[]" "[]"] us ls show ?thesis by simp
qed

subsection \<open>Flushing a chain of nodes\<close>

lemma sorted_wrt_rev_nth:
  fixes xs :: "'a :: linorder list"
  assumes "sorted_wrt (>) xs" "Suc j < length xs"
  shows "rev xs ! j < rev xs ! Suc j"
  using assms sorted_wrt_nth_less [of "(<)" "rev xs" j "Suc j"] by (simp add: sorted_wrt_rev)

lemma sorted_wrt_distinct: "sorted_wrt (>) (xs :: 'a :: linorder list) \<Longrightarrow> distinct xs"
  by (induction xs) auto

definition node_units :: "DawgNode list \<Rightarrow> id_type list \<Rightarrow> id_type list" where
  "node_units nodes is = rev (map (node_unit \<circ> nd nodes) is)"

definition node_labels :: "DawgNode list \<Rightarrow> id_type list \<Rightarrow> uchar_type list" where
  "node_labels nodes is = rev (map (n_label \<circ> nd nodes) is)"

lemma length_node_units [simp]: "length (node_units nodes is) = length is" "length (node_labels nodes is) = length is"
  by (simp_all add: node_units_def node_labels_def)

lemma node_units_nth:
  "j < length is \<Longrightarrow> node_units nodes is ! j = node_unit (nd nodes (rev is ! j))"
  "j < length is \<Longrightarrow> node_labels nodes is ! j = n_label (nd nodes (rev is ! j))"
  by (simp_all add: node_units_def node_labels_def rev_map)

lemma store_wf_new_group:
  assumes wf: "store_wf us ls" and S: "S \<noteq> []" and ch: "chain_ok nodes F S" and hd: "hd S \<notin> F"
    and en: "\<forall>i \<in> set S. entry_ok (length us) (nd nodes i)" and room: "length us + length S < 2 ^ 30"
  shows "store_wf (us @ node_units nodes S) (ls @ node_labels nodes S)"
proof -
  let ?us = "us @ node_units nodes S" and ?ls = "ls @ node_labels nodes S" and ?n = "length us"
  note w = wf [unfolded store_wf_def]
  have l: "length ls = ?n" using w by simp
  have e: "entry_ok ?n (nd nodes (rev S ! j))" if "j < length S" for j
    using en that by (metis length_rev nth_mem set_rev)
  have new: "?us ! u = node_unit (nd nodes (rev S ! (u - ?n)))" "?ls ! u = n_label (nd nodes (rev S ! (u - ?n)))"
      "u - ?n < length S" if "?n \<le> u" "u < length ?us" for u
    using that by (auto simp: nth_append l node_units_nth)
  have old: "?us ! u = us ! u" "?ls ! u = ls ! u" if "u < ?n" for u using that by (auto simp: nth_append l)
  have nolast: "\<not> du_has_sibling (us ! (?n - 1))" if "1 < ?n" using w that by simp
  have "\<not> du_has_sibling (?us ! (length ?us - 1))"
  proof -
    have "?us ! (length ?us - 1) = node_unit (nd nodes (rev S ! (length S - 1)))" using new(1) [of "length ?us - 1"] S
      by (cases S) auto
    also have "rev S ! (length S - 1) = hd S" using S by (simp add: rev_nth hd_conv_nth)
    finally show ?thesis using ch hd S by (simp add: du_node_unit(1) chain_ok_def)
  qed
  moreover have "?ls ! u < ?ls ! Suc u" if u: "0 < u" "Suc u < length ?us" "du_has_sibling (?us ! u)" for u
  proof (cases "Suc u < ?n")
    case True
    with u old [of u] old [of "Suc u"] w show ?thesis by simp
  next
    case False
    have "?n \<le> u"
    proof (rule ccontr)
      assume "\<not> ?n \<le> u"
      with False have "u = ?n - 1" by simp
      with u nolast old [of u] False show False by auto
    qed
    then have "?ls ! u = rev (map (n_label \<circ> nd nodes) S) ! (u - ?n)"
      "?ls ! Suc u = rev (map (n_label \<circ> nd nodes) S) ! Suc (u - ?n)" "Suc (u - ?n) < length S"
      using u by (auto simp: nth_append l node_labels_def Suc_diff_le)
    with ch show ?thesis using sorted_wrt_rev_nth [of "map (n_label \<circ> nd nodes) S" "u - ?n"]
      by (simp add: chain_ok_def)
  qed
  moreover have "0 < unat (du_child (?us ! u)) \<and> unat (du_child (?us ! u)) < c"
    if c: "0 < c" and u: "u \<in> set (group_ids ?us c)" and lu: "?ls ! u \<noteq> 0" for c u
  proof (cases "c < ?n")
    case True
    have "group_ids ?us c = group_ids us c" by (rule group_ids_append [OF True nolast]) (use True c in simp)
    with u have g: "u \<in> set (group_ids us c)" by simp
    then have "u < ?n" by (auto dest: group_ids_bounds)
    with w c g lu old show ?thesis by simp
  next
    case False
    from group_ids_bounds [OF u] False have b: "?n \<le> u" "u < length ?us" by auto
    let ?x = "nd nodes (rev S ! (u - ?n))"
    have x: "n_label ?x \<noteq> 0" using lu new(2) [OF b] by simp
    with e [OF new(3) [OF b]] have "0 < unat (n_child ?x)" "unat (n_child ?x) < ?n" by (auto simp: entry_ok_def)
    moreover from this room x have "du_child (?us ! u) = n_child ?x" unfolding new(1) [OF b]
      by (intro du_node_unit(2)) auto
    ultimately show ?thesis using False by simp
  qed
  moreover have "0 \<le> du_value (?us ! u)" if u: "0 < u" "u < length ?us" "?ls ! u = 0" for u
  proof (cases "u < ?n")
    case True
    with u old w show ?thesis by simp
  next
    case False
    then have b: "?n \<le> u" by simp
    let ?x = "nd nodes (rev S ! (u - ?n))"
    have x: "n_label ?x = 0" using u(3) new(2) [OF b u(2)] by simp
    with e [OF new(3) [OF b u(2)]] have "unat (n_child ?x) < 2 ^ 31" by (simp add: entry_ok_def)
    with x show ?thesis unfolding new(1) [OF b u(2)] by (simp add: du_node_unit(4))
  qed
  ultimately show ?thesis using w room unfolding store_wf_def by simp
qed

lemma stored_new_group:
  "length ls = length us \<Longrightarrow> group_stored nodes (us @ node_units nodes S) (ls @ node_labels nodes S) S (length us)"
  by (simp add: group_stored_def nth_append node_units_nth)

lemma entry_ok_mono: "entry_ok m n \<Longrightarrow> m \<le> k \<Longrightarrow> entry_ok k n"
  by (auto simp: entry_ok_def split: if_splits)

lemma chain_ok_labels: "chain_ok nodes F S \<Longrightarrow> distinct (map (n_label \<circ> nd nodes) S)"
  by (auto simp: chain_ok_def intro: sorted_wrt_distinct)

lemma dfind_chain:
  assumes st: "group_stored nodes (us @ vs) (ls @ ms) S g" and wf: "store_wf us ls" and S: "S \<noteq> []"
    and ch: "chain_ok nodes F S" and hd: "hd S \<notin> F" and len: "length vs = length ms"
    and en: "\<forall>i \<in> set S. entry_ok (length us) (nd nodes i)" and room: "length us + length vs < 2 ^ 30"
  shows "dfind (us @ vs) (ls @ ms) g w = cfind nodes us ls S w"
proof -
  have "\<forall>i \<in> set S. entry_ok (length (us @ vs)) (nd nodes i)" using en by (auto intro: entry_ok_mono)
  then have "dfind (us @ vs) (ls @ ms) g w = cfind nodes (us @ vs) (ls @ ms) S w"
    using dfind_stored [OF st S _ _ _ chain_ok_labels [OF ch]] ch hd S room by (simp add: chain_ok_def)
  also have "\<dots> = cfind nodes us ls S w" by (rule cfind_append [OF wf len en])
  finally show ?thesis .
qed

lemma first_unit_new_group:
  assumes us: "d_units d' = d_units d @ node_units nodes S" "d_labels d' = d_labels d @ node_labels nodes S"
    and l: "length (d_labels d) = length (d_units d)" and ch: "chain_ok nodes F S"
  shows "{i. first_unit d' i} \<subseteq> insert (length (d_units d)) {i. first_unit d i}"
proof
  let ?n = "length (d_units d)"
  fix i assume "i \<in> {i. first_unit d' i}"
  then have i: "0 < i" "i < ?n + length S" "d_labels d' ! i = 0 \<or> du_is_state (d_units d' ! i)"
    by (auto simp: first_unit_def us)
  show "i \<in> insert ?n {i. first_unit d i}"
  proof (cases "?n < i")
    case True
    then obtain j where j: "i = ?n + Suc j" using less_iff_Suc_add by auto
    with i(2) have lt: "Suc j < length S" by simp
    let ?x = "rev S ! Suc j"
    have lab: "d_labels d' ! i = n_label (nd nodes ?x)" and un: "d_units d' ! i = node_unit (nd nodes ?x)"
      unfolding us j using lt l by (simp_all add: nth_append node_units_nth)
    have "n_label (nd nodes (rev S ! j)) < n_label (nd nodes ?x)"
      using sorted_wrt_rev_nth [of "map (n_label \<circ> nd nodes) S" j] ch lt by (simp add: chain_ok_def rev_map)
    then have nz: "n_label (nd nodes ?x) \<noteq> 0" using word_gt_0_no by (metis not_less word_zero_le)
    have "?x = S ! (length S - Suc (Suc j))" using lt by (simp add: rev_nth)
    also have "\<dots> = butlast S ! (length S - Suc (Suc j))" using lt by (simp add: nth_butlast)
    finally have "?x \<in> set (butlast S)" using lt by simp
    with ch have "\<not> n_is_state (nd nodes ?x)" by (simp add: chain_ok_def)
    with i(3) nz show ?thesis unfolding lab un by (simp add: du_node_unit(3))
  next
    case False
    with i l show ?thesis by (auto simp: first_unit_def us nth_append)
  qed
qed

lemma finite_first_unit: "finite {i. first_unit d i}"
  by (rule finite_subset [of _ "{..<length (d_units d)}"]) (auto simp: first_unit_def)

lemma table_ok_new_group:
  assumes t: "table_ok d" and lt: "d_num_states d < length (d_table d) - length (d_table d) div 4"
    and h: "h < length (d_table d)" "d_table d ! h = 0" and S: "S \<noteq> []"
    and us: "d_units d' = d_units d @ node_units nodes S" "d_labels d' = d_labels d @ node_labels nodes S"
    and l: "length (d_labels d) = length (d_units d)" and ch: "chain_ok nodes F S"
    and d': "d_table d' = (d_table d)[h := of_nat (length (d_units d))]" "d_num_states d' = d_num_states d + 1"
    and room: "length (d_units d) + length S < 2 ^ 30"
  shows "table_ok d'"
proof -
  let ?n = "length (d_units d)"
  have "card {i. first_unit d' i} \<le> card (insert ?n {i. first_unit d i})"
    using finite_first_unit by (intro card_mono first_unit_new_group [OF us l ch]) simp
  also have "\<dots> \<le> card {i. first_unit d i} + 1" by (simp add: card_insert_if finite_first_unit)
  finally have "card {i. first_unit d' i} < d_num_states d'" using t d' by (simp add: table_ok_def)
  moreover have "taken (d_table d') < d_num_states d'"
    using taken_update [OF h, of "of_nat ?n"] t d' by (simp add: table_ok_def)
  moreover have "unat (of_nat ?n :: id_type) = ?n" using room by (intro unat_of_nat_less) simp
  then have "\<forall>x \<in> set (d_table d'). unat x < length (d_units d')"
    using t S unfolding d' us by (auto simp: table_ok_def dest!: set_update_subset_insert [THEN subsetD])
  ultimately show ?thesis using t lt d' by (simp add: table_ok_def)
qed

definition flushed ::
    "DawgBuilder \<Rightarrow> id_type list \<Rightarrow> DawgBuilder \<Rightarrow> id_type \<Rightarrow> bool" where
  "flushed d S d' g \<longleftrightarrow>
     core_ok d' \<and> 0 < unat g \<and> unat g < length (d_units d') \<and>
     (\<forall>w. dfind (d_units d') (d_labels d') (unat g) w = cfind (d_nodes d) (d_units d) (d_labels d) S w) \<and>
     (\<exists>vs ms. d_units d' = d_units d @ vs \<and> d_labels d' = d_labels d @ ms \<and> length vs = length ms \<and>
       length vs \<le> length S) \<and>
     d_nodes d' = d_nodes d \<and> d_node_stack d' = d_node_stack d \<and> d_recycle_bin d' = rev S @ d_recycle_bin d"

lemma flush_node_expanded:
  assumes core: "core_ok d"
  obtains d1 where
    "(if length (d_table d) - length (d_table d) div 4 \<le> d_num_states d then expand_table d else Inr d) = Inr d1"
    "core_ok d1" "d_num_states d1 < length (d_table d1) - length (d_table d1) div 4"
    "\<exists>table. d1 = d\<lparr>d_table := table\<rparr>"
proof (cases "length (d_table d) - length (d_table d) div 4 \<le> d_num_states d")
  case True
  from core have "store_wf (d_units d) (d_labels d)" "table_ok d" by (simp_all add: core_ok_def)
  from expand_table_spec [OF this] obtain table where "expand_table d = Inr (d\<lparr>d_table := table\<rparr>)"
    "table_ok (d\<lparr>d_table := table\<rparr>)" "d_num_states d < length table - length table div 4" by blast
  with True core that [of "d\<lparr>d_table := table\<rparr>"] show ?thesis by (auto simp: core_ok_def)
next
  case False
  have "d = d\<lparr>d_table := d_table d\<rparr>" by simp
  with False core that [of d] show ?thesis by (metis not_le)
qed

lemma flush_node_spec:
  assumes core: "core_ok d" and S: "S \<noteq> []" and ch: "chain_ok (d_nodes d) F S" and hd: "hd S \<notin> F"
    and en: "\<forall>i \<in> set S. entry_ok (length (d_units d)) (nd (d_nodes d) i)"
    and ids: "ids_ok d (pre @ S)" and room: "length (d_units d) + length S < 2 ^ 30"
  shows "\<exists>g d'. flush_node d (hd S) = Inr (g, d') \<and> flushed d S d' g"
proof -
  obtain d1 where e: "(if length (d_table d) - length (d_table d) div 4 \<le> d_num_states d then expand_table d else Inr d) = Inr d1"
    and core1: "core_ok d1" and states: "d_num_states d1 < length (d_table d1) - length (d_table d1) div 4"
    and tab: "\<exists>table. d1 = d\<lparr>d_table := table\<rparr>"
    by (rule flush_node_expanded [OF core])
  then have d1: "d_nodes d1 = d_nodes d" "d_units d1 = d_units d" "d_labels d1 = d_labels d"
    "d_is_intersections d1 = d_is_intersections d" "d_node_stack d1 = d_node_stack d" "d_recycle_bin d1 = d_recycle_bin d"
    by auto
  let ?nodes = "d_nodes d" and ?us = "d_units d" and ?ls = "d_labels d"
  have wf: "store_wf ?us ?ls" and t1: "table_ok d1" and bw: "bv_wf (d_is_intersections d)"
    "bv_size (d_is_intersections d) = length ?us" using core core1 d1 by (simp_all add: core_ok_def)
  have l: "length ?ls = length ?us" "0 < length ?us" using wf by (simp_all add: store_wf_def)
  have S0: "0 \<notin> set S" "distinct S" "\<forall>i \<in> set S. unat i < length ?nodes" using ids by (auto simp: ids_ok_def)
  have chain: "sibling_chain (length ?nodes) ?nodes (hd S) = Inr S"
    using sibling_chain_eq [of ?nodes S "length ?nodes"] ch S S0 distinct_ids_length [OF S0(2,3)]
    by (cases S) (auto simp: chain_ok_def hd0_def)
  have nodes1: "\<forall>i \<in> set S. unat i < length (d_nodes d1)" using S0(3) d1 by simp
  have wf1: "store_wf (d_units d1) (d_labels d1)" using wf d1 by simp
  from find_node_spec [OF wf1 nodes1 S t1] obtain m h where f: "find_node d1 S = Inr (m, h)" "h < length (d_table d1)"
    and mh: "if m = 0 then d_table d1 ! h = 0
       else 0 < unat m \<and> unat m < length ?us \<and> group_stored ?nodes ?us ?ls S (unat m)" unfolding d1 by blast
  show ?thesis
  proof (cases "m = 0")
    case False
    then have m: "0 < unat m" "unat m < length ?us" "group_stored ?nodes ?us ?ls S (unat m)" using mh by auto
    from bv_set_ok [of "d_is_intersections d" "unat m" True] bw m(2) obtain v where
      v: "bv_set (d_is_intersections d) (unat m) True = Inr v" "bv_wf v" "bv_size v = length ?us" by auto
    let ?d = "d1\<lparr>d_is_intersections := v, d_recycle_bin := rev S @ d_recycle_bin d1\<rparr>"
    have "flush_node d (hd S) = Inr (m, ?d)"
      using chain f(1) v(1) False by (simp add: flush_node_def e d1 del: rev_append)
    moreover have "dfind ?us ?ls (unat m) w = cfind ?nodes ?us ?ls S w" for w
      using dfind_chain [of ?nodes ?us "[]" ?ls "[]" S "unat m" F w] m(3) wf S ch hd en room by simp
    moreover have "table_ok ?d"
    proof -
      have "first_unit ?d = first_unit d1" by (rule ext) (simp add: first_unit_def)
      with t1 show ?thesis by (simp add: table_ok_def)
    qed
    ultimately show ?thesis using m v wf d1 by (auto simp: flushed_def core_ok_def)
  next
    case True
    let ?n = "length ?us"
    obtain x y :: id_type where xy: "x = of_nat (?n + length S - 1)" "y = of_nat (?n - 1)" by blast
    let ?d1 = "\<lambda>v. d1\<lparr>d_is_intersections := v, d_units := ?us @ replicate (length S) 0, d_labels := ?ls @ replicate (length S) 0\<rparr>"
    obtain v where a: "append_units S d1 0 = (x, ?d1 v)" and v: "bv_wf v" "bv_size v = ?n + length S"
      unfolding xy using append_units_spec [OF S, of d1 0] bw d1 by auto
    let ?d2 = "d1\<lparr>d_is_intersections := v, d_units := ?us @ node_units ?nodes S, d_labels := ?ls @ node_labels ?nodes S\<rparr>"
    have "store_units S (?d1 v) x = Inr (y, (?d1 v)\<lparr>d_units := ?us @ rev (map (node_unit \<circ> nd (d_nodes (?d1 v))) S),
        d_labels := ?ls @ rev (map (n_label \<circ> nd (d_nodes (?d1 v))) S)\<rparr>)"
      unfolding xy by (rule store_units_spec) (use S0(3) S l room d1 in simp_all)
    then have st: "store_units S (?d1 v) x = Inr (y, ?d2)" using d1 by (simp add: node_units_def node_labels_def)
    have n1: "y + 1 = (of_nat ?n :: id_type)" unfolding xy using l(2) by (cases ?n) auto
    have un: "unat (of_nat ?n :: id_type) = ?n" using room by (intro unat_of_nat_less) simp
    let ?d3 = "?d2\<lparr>d_table := (d_table d1)[h := of_nat ?n], d_num_states := d_num_states d1 + 1\<rparr>"
    let ?d4 = "?d3\<lparr>d_recycle_bin := rev S @ d_recycle_bin d1\<rparr>"
    have "flush_node d (hd S) = Inr (of_nat ?n, ?d4)"
      using chain f st True by (simp add: flush_node_def e d1 a n1 pool_set_def)
    moreover have "dfind (?us @ node_units ?nodes S) (?ls @ node_labels ?nodes S) ?n w = cfind ?nodes ?us ?ls S w" for w
      using dfind_chain [OF stored_new_group [OF l(1)] wf S ch hd _ en] room by simp
    moreover have "store_wf (?us @ node_units ?nodes S) (?ls @ node_labels ?nodes S)"
      by (rule store_wf_new_group [OF wf S ch hd en room])
    moreover have "table_ok ?d4"
      using mh True f(2) S l ch d1 room by (intro table_ok_new_group [OF t1 states, where h = h and S = S and nodes = ?nodes and F = F]) auto
    ultimately show ?thesis using S l v un d1 by (auto simp: flushed_def core_ok_def)
  qed
qed

end
