(* ===== verification/Dawg_Path.thy ===== *)
theory Dawg_Path
  imports Dawg_Store
begin

unbundle bit_operations_syntax

text \<open>
  The open path of the word graph of \<open>Dawg_Builder\<close>: \<open>pend\<close> is the invariant of the builder between
  its steps, with the levels \<open>L\<close> of the path and the chain \<open>S\<close> of children of its last node, and
  \<open>lfind\<close> looks labels up in the path and in what is stored. Flushing keeps what is found, inserting adds the new
  key; \<open>build_dawg_finds\<close>: the finished graph finds the keys with the value of their first occurrence.
\<close>

declare cfind.simps [simp del] dfind.simps [simp del]

fun lfind ::
    "DawgNode list \<Rightarrow> id_type list \<Rightarrow> uchar_type list \<Rightarrow> (id_type \<times> id_type list) list \<Rightarrow> id_type list
      \<Rightarrow> uchar_type list \<Rightarrow> int option" where
  "lfind nodes us ls [] S w = cfind nodes us ls S w"
| "lfind nodes us ls ((n, T) # L) S [] = None"
| "lfind nodes us ls ((n, T) # L) S (l # w) =
     (if l = n_label (nd nodes n) then lfind nodes us ls L S w else cfind nodes us ls T (l # w))"

fun lev_ok :: "DawgNode list \<Rightarrow> nat \<Rightarrow> id_type set \<Rightarrow> id_type \<Rightarrow> (id_type \<times> id_type list) list \<Rightarrow> bool" where
  "lev_ok nodes m F p [] \<longleftrightarrow> True"
| "lev_ok nodes m F p ((n, T) # L) \<longleftrightarrow>
     n_child (nd nodes p) = n \<and> n_label (nd nodes n) \<noteq> 0 \<and> chain_ok nodes F (n # T) \<and>
     (\<forall>i \<in> set T. entry_ok m (nd nodes i)) \<and> lev_ok nodes m F n L"

abbreviation path_end :: "id_type \<Rightarrow> (id_type \<times> id_type list) list \<Rightarrow> id_type" where
  "path_end p L \<equiv> last (p # map fst L)"

lemma levels_ok_append:
  "levels_ok nodes m F p (L @ M) S \<longleftrightarrow> lev_ok nodes m F p L \<and> levels_ok nodes m F (path_end p L) M S"
  by (induction L arbitrary: p) auto

lemma path_ok_Nil: "levels_ok nodes m F p L S \<longleftrightarrow> lev_ok nodes m F p L \<and> levels_ok nodes m F (path_end p L) [] S"
  using levels_ok_append [of nodes m F p L "[]" S] by simp

lemma used_simps [simp]:
  "used [] S = S" "used ((n, T) # L) S = n # T @ used L S"
  by (simp_all add: used_def)

lemma used_append: "used (L @ M) S = used L [] @ used M S"
  by (induction L) auto

lemma heads_used: "n \<in> set (map fst L) \<Longrightarrow> n \<in> set (used L S)"
proof (induction L)
  case (Cons x L)
  then show ?case by (cases x) auto
qed simp

lemma tails_used: "set (concat (map snd L) @ tl S) \<subseteq> set (used L S)"
proof (induction L)
  case Nil
  then show ?case by (cases S) auto
next
  case (Cons x L)
  then show ?case by (cases x) auto
qed

subsection \<open>What does not change\<close>

definition alike :: "DawgNode list \<Rightarrow> DawgNode list \<Rightarrow> id_type list \<Rightarrow> bool" where
  "alike nodes nodes' is \<longleftrightarrow> (\<forall>i \<in> set is. nd nodes' i = nd nodes i)"

lemma alike_simps [simp]:
  "alike nodes nodes' []" "alike nodes nodes' (i # is) \<longleftrightarrow> nd nodes' i = nd nodes i \<and> alike nodes nodes' is"
  "alike nodes nodes' (is @ js) \<longleftrightarrow> alike nodes nodes' is \<and> alike nodes nodes' js"
  by (auto simp: alike_def)

lemma sib_linked_alike: "alike nodes nodes' is \<Longrightarrow> sib_linked nodes' is \<longleftrightarrow> sib_linked nodes is"
  by (induction "is") auto

text \<open>A chain does not depend on the children of its nodes.\<close>

definition same_but_child :: "DawgNode list \<Rightarrow> DawgNode list \<Rightarrow> id_type list \<Rightarrow> bool" where
  "same_but_child nodes nodes' is \<longleftrightarrow>
     (\<forall>i \<in> set is. n_sibling (nd nodes' i) = n_sibling (nd nodes i) \<and> n_label (nd nodes' i) = n_label (nd nodes i) \<and>
       n_is_state (nd nodes' i) = n_is_state (nd nodes i) \<and> n_has_sibling (nd nodes' i) = n_has_sibling (nd nodes i))"

lemma alike_but_child: "alike nodes nodes' is \<Longrightarrow> same_but_child nodes nodes' is"
  by (simp add: alike_def same_but_child_def)

lemma chain_ok_but_child:
  assumes "same_but_child nodes nodes' is"
  shows "chain_ok nodes' F is \<longleftrightarrow> chain_ok nodes F is"
proof -
  have "sib_linked nodes' js \<longleftrightarrow> sib_linked nodes js" if "set js \<subseteq> set is" for js
    using that assms by (induction js) (auto simp: same_but_child_def)
  moreover have "map (n_label \<circ> nd nodes') is = map (n_label \<circ> nd nodes) is" using assms by (simp add: same_but_child_def)
  moreover have "is \<noteq> [] \<Longrightarrow> hd is \<in> set is" "set (tl is) \<subseteq> set is" "set (butlast is) \<subseteq> set is"
    by (auto dest: in_set_butlastD list.set_sel(2)) (cases "is"; auto)
  ultimately show ?thesis using assms unfolding chain_ok_def same_but_child_def by (smt (verit, best) subset_refl subsetD)
qed

lemma lev_ok_alike: "alike nodes nodes' (p # used L []) \<Longrightarrow> lev_ok nodes' m F p L \<longleftrightarrow> lev_ok nodes m F p L"
proof (induction L arbitrary: p)
  case (Cons x L)
  obtain n T where x: "x = (n, T)" by force
  from Cons.prems have a: "alike nodes nodes' (n # T)" "alike nodes nodes' (n # used L [])" by (auto simp: x)
  from chain_ok_but_child [OF alike_but_child [OF a(1)], of F] Cons.IH [OF a(2)] Cons.prems show ?case
    by (auto simp: x alike_def)
qed simp

lemma lev_ok_mono: "lev_ok nodes m F p L \<Longrightarrow> m \<le> k \<Longrightarrow> lev_ok nodes k F p L"
proof (induction L arbitrary: p)
  case (Cons x L)
  then show ?case by (cases x) (auto dest: entry_ok_mono)
qed simp

lemma cfind_alike: "alike nodes nodes' is \<Longrightarrow> cfind nodes' us ls is w = cfind nodes us ls is w"
proof (cases w)
  case (Cons l v)
  assume a: "alike nodes nodes' is"
  then have f: "find (\<lambda>i. n_label (nd nodes' i) = l) is = find (\<lambda>i. n_label (nd nodes i) = l) is"
    by (intro find_cong) (auto simp: alike_def)
  show ?thesis
  proof (cases "find (\<lambda>i. n_label (nd nodes i) = l) is")
    case (Some i)
    then have "nd nodes' i = nd nodes i" using a by (auto simp: alike_def find_Some_iff)
    with Some Cons f show ?thesis by (simp add: cfind.simps)
  qed (use Cons f in \<open>simp add: cfind.simps\<close>)
qed (cases "is"; simp add: cfind.simps)

text \<open>Two paths with the same levels find the same when their ends do.\<close>

lemma lfind_cong:
  assumes "store_wf us ls" "length vs = length ms" "lev_ok nodes (length us) F p L"
    "alike nodes nodes' (concat (map snd L))" "same_but_child nodes nodes' (map fst L)"
    and e: "\<And>v. lfind nodes' (us @ vs) (ls @ ms) M' S' v = lfind nodes us ls M S v"
  shows "lfind nodes' (us @ vs) (ls @ ms) (L @ M') S' w = lfind nodes us ls (L @ M) S w"
  using assms(3-5)
proof (induction L arbitrary: p w)
  case (Cons x L)
  obtain n T where x: "x = (n, T)" by force
  from Cons.prems have a: "alike nodes nodes' T" "alike nodes nodes' (concat (map snd L))"
    "n_label (nd nodes' n) = n_label (nd nodes n)" "same_but_child nodes nodes' (map fst L)"
    "lev_ok nodes (length us) F n L" "\<forall>i \<in> set T. entry_ok (length us) (nd nodes i)"
    by (auto simp: x same_but_child_def)
  have "cfind nodes' (us @ vs) (ls @ ms) T v = cfind nodes us ls T v" for v
    using cfind_alike [OF a(1)] cfind_append [OF assms(1,2) a(6)] by simp
  with Cons.IH [OF a(5,2,4)] a(3) show ?case by (cases w) (auto simp: x)
qed (simp add: e)

section \<open>Flushing the path\<close>

definition pend ::
    "nat \<Rightarrow> id_type set \<Rightarrow> DawgBuilder \<Rightarrow> (id_type \<times> id_type list) list \<Rightarrow> id_type list \<Rightarrow> bool" where
  "pend B F d L S \<longleftrightarrow>
     core_ok d \<and> levels_ok (d_nodes d) (length (d_units d)) F 0 L S \<and> ids_ok d (used L S) \<and>
     length (d_units d) + length (used L S) \<le> B \<and> length (d_nodes d) \<le> B \<and> B < 2 ^ 30"

definition found :: "DawgBuilder \<Rightarrow> (id_type \<times> id_type list) list \<Rightarrow> id_type list \<Rightarrow> uchar_type list \<Rightarrow> int option" where
  "found d L S w = lfind (d_nodes d) (d_units d) (d_labels d) L S w"

definition set_child :: "id_type \<Rightarrow> id_type \<Rightarrow> DawgBuilder \<Rightarrow> DawgBuilder" where
  "set_child p g d = d\<lparr>d_nodes := (d_nodes d)[unat p := (nd (d_nodes d) p)\<lparr>n_child := g\<rparr>]\<rparr>"

lemma core_ok_set_child [simp]: "core_ok (set_child n g d) = core_ok d"
proof -
  have "first_unit (set_child n g d) = first_unit d" by (rule ext) (simp add: first_unit_def set_child_def)
  then show ?thesis by (simp add: core_ok_def table_ok_def) (simp add: set_child_def)
qed

lemma nd_update:
  "nd (nodes[unat p := x]) i = (if i = p \<and> unat p < length nodes then x else nd nodes i)"
  by (cases "unat p < length nodes") (auto simp: nth_list_update word_unat_eq_iff not_less list_update_beyond)

lemma path_end_mem: "path_end p L \<in> set (p # used L S)"
proof -
  have "path_end p L \<in> set (p # map fst L)" by (rule last_in_set) simp
  then have "path_end p L = p \<or> path_end p L \<in> set (map fst L)" by (rule set_ConsD)
  then show ?thesis using heads_used by (metis list.set_intros)
qed

lemma pend_flush_node:
  assumes "pend B F d L S" "S \<noteq> []" "hd S \<notin> F"
  shows "\<exists>g d'. flush_node d (hd S) = Inr (g, d') \<and> flushed d S d' g"
proof -
  note p = assms(1) [unfolded pend_def]
  have "levels_ok (d_nodes d) (length (d_units d)) F (path_end 0 L) [] S" using p path_ok_Nil by blast
  then have s: "chain_ok (d_nodes d) F S" "\<forall>i \<in> set S. entry_ok (length (d_units d)) (nd (d_nodes d) i)" by simp_all
  have "length (d_units d) + length S < 2 ^ 30" using p used_append [of L "[]" S] by simp
  moreover have "ids_ok d (used L [] @ S)" using p used_append [of L "[]" S] by simp
  ultimately show ?thesis using flush_node_spec [OF _ assms(2) s(1) assms(3) s(2)] p by blast
qed

text \<open>One step of a flush: the last chain becomes a group and the child of the last node of the path.\<close>

lemma flush_step:
  assumes p: "pend B F d (L @ [(n, T)]) S" and S: "S \<noteq> []" and f: "flushed d S d' g"
  shows "pend B F (set_child n g d') L (n # T) \<and> found (set_child n g d') L (n # T) w = found d (L @ [(n, T)]) S w"
proof -
  let ?nodes = "d_nodes d" and ?m = "length (d_units d)" and ?d = "set_child n g d'"
  note pp = p [unfolded pend_def] and ff = f [unfolded flushed_def]
  obtain vs ms where grow: "d_units d' = d_units d @ vs" "d_labels d' = d_labels d @ ms" "length vs = length ms"
    "length vs \<le> length S" using ff by blast
  let ?nodes' = "d_nodes ?d"
  have n': "?nodes' = ?nodes[unat n := (nd ?nodes n)\<lparr>n_child := g\<rparr>]" using ff by (simp add: set_child_def)
  have path: "lev_ok ?nodes ?m F 0 L" "n_child (nd ?nodes (path_end 0 L)) = n" "n_label (nd ?nodes n) \<noteq> 0"
    "chain_ok ?nodes F (n # T)" "\<forall>i \<in> set T. entry_ok ?m (nd ?nodes i)" "\<forall>i \<in> set S. entry_ok ?m (nd ?nodes i)"
    using pp by (auto simp: levels_ok_append)
  have u: "used (L @ [(n, T)]) S = used L [] @ n # T @ S" by (simp add: used_append)
  have ids: "distinct (0 # used L [] @ n # T @ S @ d_recycle_bin d)"
    "\<forall>i \<in> set (used L [] @ n # T @ S @ d_recycle_bin d). unat i < length ?nodes" "0 < length ?nodes"
    using pp by (auto simp: ids_ok_def u)
  have nlt: "unat n < length ?nodes" using ids(2) by auto
  have child: "n_child (nd ?nodes' n) = g" "n_label (nd ?nodes' n) = n_label (nd ?nodes n)" using nlt by (simp_all add: n' nd_update)
  have same: "nd ?nodes' i = nd ?nodes i" if "i \<noteq> n" for i using that by (simp add: n' nd_update)
  have alike: "alike ?nodes ?nodes' is" if "n \<notin> set is" for "is"
    unfolding alike_def using that same by metis
  have le: "path_end 0 L \<noteq> n"
    using path_end_mem [of 0 L "[]"] ids(1) by auto
  have mg: "?m \<le> length (d_units ?d)" using grow by (simp add: set_child_def)
  have "alike ?nodes ?nodes' (0 # used L [])" using ids(1) by (intro alike) auto
  then have "lev_ok ?nodes' (length (d_units ?d)) F 0 L" using lev_ok_alike path(1) lev_ok_mono [OF _ mg] by blast
  moreover have "chain_ok ?nodes' F (n # T)"
    using path(4) chain_ok_but_child [of ?nodes ?nodes' "n # T" F] by (simp add: same_but_child_def n' nd_update)
  moreover have "entry_ok (length (d_units ?d)) (nd ?nodes' n)"
  proof -
    have "d_units ?d = d_units d'" by (simp add: set_child_def)
    with ff path(3) child show ?thesis by (simp add: entry_ok_def)
  qed
  moreover have "\<forall>i \<in> set T. entry_ok (length (d_units ?d)) (nd ?nodes' i)"
  proof
    fix i assume i: "i \<in> set T"
    then have "i \<noteq> n" using ids(1) by auto
    with i path(5) same entry_ok_mono [OF _ mg] show "entry_ok (length (d_units ?d)) (nd ?nodes' i)" by simp
  qed
  ultimately have "levels_ok ?nodes' (length (d_units ?d)) F 0 L (n # T)"
    using path(2) le same unfolding path_ok_Nil [of _ _ _ _ L] by (simp add: hd0_def)
  moreover have "core_ok ?d" using ff by simp
  moreover have "ids_ok ?d (used L (n # T))"
    using ids ff used_append [of L "[]" "n # T"] by (auto simp: ids_ok_def set_child_def n')
  moreover have "length (d_units ?d) + length (used L (n # T)) \<le> B" "length (d_nodes ?d) \<le> B"
    using pp grow used_append [of L "[]" "n # T"] by (auto simp: u n') (simp add: set_child_def)
  ultimately have "pend B F ?d L (n # T)" using pp by (simp add: pend_def)
  moreover have "found ?d L (n # T) w = found d (L @ [(n, T)]) S w"
  proof -
    have wf: "store_wf (d_units d) (d_labels d)" using pp by (simp add: core_ok_def)

    have at_end: "lfind ?nodes' (d_units d') (d_labels d') [] (n # T) v =
        lfind ?nodes (d_units d) (d_labels d) [(n, T)] S v" for v
    proof (cases v)
      case (Cons l x)
      show ?thesis
      proof (cases "l = n_label (nd ?nodes n)")
        case True
        with ff path(3) child Cons show ?thesis by (simp add: cfind.simps)
      next
        case False
        have "cfind ?nodes' (d_units d') (d_labels d') (n # T) v = cfind ?nodes' (d_units d') (d_labels d') T v"
          using False child by (simp add: cfind.simps Cons)
        also have "\<dots> = cfind ?nodes (d_units d') (d_labels d') T v"
          using ids(1) by (intro cfind_alike alike) auto
        also have "\<dots> = cfind ?nodes (d_units d) (d_labels d) T v"
          unfolding grow using cfind_append [OF wf grow(3) path(5)] by simp
        finally show ?thesis using False by (simp add: Cons)
      qed
    qed (simp add: cfind.simps)
    have "lfind ?nodes' (d_units d @ vs) (d_labels d @ ms) (L @ []) (n # T) w =
        lfind ?nodes (d_units d) (d_labels d) (L @ [(n, T)]) S w"
    proof -
      have "set (concat (map snd L)) \<subseteq> set (used L [])" "set (map fst L) \<subseteq> set (used L [])"
        using tails_used [of L "[]"] heads_used [of _ L "[]"] by auto
      then have "n \<notin> set (concat (map snd L))" "n \<notin> set (map fst L)" using ids(1) by auto
      then show ?thesis using at_end unfolding grow
        by (intro lfind_cong [OF wf grow(3) path(1)] alike alike_but_child)
    qed
    then show ?thesis by (simp add: found_def set_child_def grow)
  qed
  ultimately show ?thesis by blast
qed

definition same_labels :: "DawgBuilder \<Rightarrow> DawgBuilder \<Rightarrow> bool" where
  "same_labels d d' \<longleftrightarrow> (\<forall>i. n_label (nd (d_nodes d') i) = n_label (nd (d_nodes d) i))"

lemma same_labels_refl [simp]: "same_labels d d" "same_labels d (d'\<lparr>d_node_stack := s\<rparr>) \<longleftrightarrow> same_labels d d'"
  by (simp_all add: same_labels_def)

lemma same_labels_trans: "same_labels d d' \<Longrightarrow> same_labels d' d'' \<Longrightarrow> same_labels d d''"
  by (simp add: same_labels_def)

lemma core_ok_stack [simp]: "core_ok (d\<lparr>d_node_stack := s\<rparr>) = core_ok d"
proof -
  have "first_unit (d\<lparr>d_node_stack := s\<rparr>) = first_unit d" by (rule ext) (simp add: first_unit_def)
  then show ?thesis by (simp add: core_ok_def table_ok_def)
qed

lemma pend_stack [simp]:
  "pend B F (d\<lparr>d_node_stack := s\<rparr>) L S = pend B F d L S" "found (d\<lparr>d_node_stack := s\<rparr>) L S w = found d L S w"
  by (simp_all add: pend_def ids_ok_def found_def)

definition top_chain :: "(id_type \<times> id_type list) list \<Rightarrow> id_type list \<Rightarrow> id_type list" where
  "top_chain M S = (case M of [] \<Rightarrow> S | (n, T) # _ \<Rightarrow> n # T)"

declare flush_loop.simps(2) [simp del]

lemma flush_levels:
  "pend B F d (L @ M) S \<Longrightarrow> S \<noteq> [] \<Longrightarrow>
   M \<noteq> [] \<Longrightarrow> i \<notin> set (hd S # map fst (tl M)) \<Longrightarrow> F \<inter> set (hd S # map fst (tl M)) = {} \<Longrightarrow>
   \<exists>d'. flush_loop (hd S # rev (map fst M) @ stack) d i = flush_loop (hd (top_chain M S) # stack) d' i \<and>
     pend B F d' L (top_chain M S) \<and> (\<forall>w. found d' L (top_chain M S) w = found d (L @ M) S w) \<and> same_labels d d'"
proof (induction M arbitrary: d S rule: rev_induct)
  case (snoc x M)
  obtain n T where x: "x = (n, T)" by force
  have p: "pend B F d ((L @ M) @ [(n, T)]) S" using snoc.prems(1) by (simp add: x)
  have hd: "hd S \<notin> F" "i \<noteq> hd S" using snoc.prems(4,5) by auto
  from pend_flush_node [OF p snoc.prems(2) hd(1)] obtain g d1 where
    f: "flush_node d (hd S) = Inr (g, d1)" "flushed d S d1 g" by blast
  let ?d = "set_child n g d1"
  note step = flush_step [OF p snoc.prems(2) f(2)]
  have "unat n < length (d_nodes d1)"
    using p f(2) used_append [of "L @ M" "[(n, T)]" S] by (auto simp: pend_def ids_ok_def flushed_def)
  then have l: "flush_loop (hd S # rev (map fst (M @ [x])) @ stack) d i =
      flush_loop (n # rev (map fst M) @ stack) ?d i"
    using f(1) hd(2) by (simp add: x set_child_def flush_loop.simps(2))
  have same: "same_labels d ?d"
    using f(2) by (auto simp: same_labels_def set_child_def flushed_def nd_update)
  show ?case
  proof (cases "M = []")
    case True
    with l step same show ?thesis by (auto simp: x top_chain_def)
  next
    case False
    then have tl: "tl (M @ [x]) = tl M @ [x]" "top_chain (M @ [x]) S = top_chain M (n # T)"
      by (cases M; simp add: top_chain_def)+
    with snoc.prems(4,5) have "i \<notin> set (hd (n # T) # map fst (tl M))" "F \<inter> set (hd (n # T) # map fst (tl M)) = {}"
      by (auto simp: x)
    moreover have "pend B F ?d (L @ M) (n # T)" "n # T \<noteq> []" using step by simp_all
    ultimately obtain d' where
      "flush_loop (hd (n # T) # rev (map fst M) @ stack) ?d i = flush_loop (hd (top_chain M (n # T)) # stack) d' i"
      "pend B F d' L (top_chain M (n # T))" "\<forall>w. found d' L (top_chain M (n # T)) w = found ?d (L @ M) (n # T) w"
      "same_labels ?d d'" using snoc.IH [OF _ _ False] by blast
    with l step same tl x show ?thesis by (intro exI [of _ d']) (auto intro: same_labels_trans)
  qed
qed simp

subsection \<open>Following the path of a key\<close>

definition flag_sibling :: "id_type \<Rightarrow> DawgBuilder \<Rightarrow> DawgBuilder" where
  "flag_sibling n d = d\<lparr>d_nodes := (d_nodes d)[unat n := (nd (d_nodes d) n)\<lparr>n_has_sibling := True\<rparr>]\<rparr>"

lemma flag_fields:
  "n_child (nd (d_nodes (flag_sibling n d)) i) = n_child (nd (d_nodes d) i)"
  "n_label (nd (d_nodes (flag_sibling n d)) i) = n_label (nd (d_nodes d) i)"
  "n_sibling (nd (d_nodes (flag_sibling n d)) i) = n_sibling (nd (d_nodes d) i)"
  "n_is_state (nd (d_nodes (flag_sibling n d)) i) = n_is_state (nd (d_nodes d) i)"
  "unat n < length (d_nodes d) \<Longrightarrow>
     n_has_sibling (nd (d_nodes (flag_sibling n d)) i) \<longleftrightarrow> i = n \<or> n_has_sibling (nd (d_nodes d) i)"
  by (auto simp: flag_sibling_def nd_update)

lemma flag_chain:
  assumes "chain_ok (d_nodes d) {} is" "n \<notin> set (tl is)" "unat n < length (d_nodes d)"
  shows "chain_ok (d_nodes (flag_sibling n d)) {n} is"
proof -
  have "sib_linked (d_nodes (flag_sibling n d)) js = sib_linked (d_nodes d) js" for js
    by (induction js) (auto simp: flag_fields)
  moreover have "n_label \<circ> nd (d_nodes (flag_sibling n d)) = n_label \<circ> nd (d_nodes d)"
    by (rule ext) (simp add: flag_fields)
  ultimately show ?thesis using assms(1,2) by (auto simp: chain_ok_def flag_fields(4) flag_fields(5) [OF assms(3)])
qed

lemma flag_entry: "entry_ok m (nd (d_nodes (flag_sibling n d)) i) = entry_ok m (nd (d_nodes d) i)"
  by (simp add: entry_ok_def flag_fields)

lemma flag_path:
  assumes "unat n < length (d_nodes d)"
  shows "levels_ok (d_nodes d) m {} p L S \<Longrightarrow> n \<notin> set (concat (map snd L) @ tl S) \<Longrightarrow>
    levels_ok (d_nodes (flag_sibling n d)) m {n} p L S"
proof (induction L arbitrary: p)
  case Nil
  then show ?case using flag_chain [OF _ _ assms, of S] by (simp add: flag_entry flag_fields)
next
  case (Cons x L)
  obtain k T where x: "x = (k, T)" by force
  from Cons.prems have "chain_ok (d_nodes (flag_sibling n d)) {n} (k # T)" "levels_ok (d_nodes (flag_sibling n d)) m {n} k L S"
    using flag_chain [OF _ _ assms, of "k # T"] Cons.IH [of k] by (auto simp: x)
  with Cons.prems show ?case by (simp add: x flag_entry flag_fields)
qed

lemma cfind_fields:
  assumes "\<And>i. n_label (nd nodes' i) = n_label (nd nodes i)" "\<And>i. n_child (nd nodes' i) = n_child (nd nodes i)"
  shows "cfind nodes' us ls is w = cfind nodes us ls is w"
  by (cases w) (simp_all add: cfind.simps assms split: option.splits)

lemma lfind_fields:
  assumes "\<And>i. n_label (nd nodes' i) = n_label (nd nodes i)" "\<And>i. n_child (nd nodes' i) = n_child (nd nodes i)"
  shows "lfind nodes' us ls L S w = lfind nodes us ls L S w"
proof (induction L arbitrary: w)
  case (Cons x L)
  then show ?case by (cases x; cases w) (auto simp: assms cfind_fields [of nodes' nodes, OF assms])
qed (simp add: cfind_fields [of nodes' nodes, OF assms])

lemma heads_tails: "distinct (p # used L S) \<Longrightarrow> set (p # map fst L) \<inter> set (concat (map snd L)) = {}"
proof (induction L arbitrary: p)
  case (Cons x L)
  obtain n T where x: "x = (n, T)" by force
  have "set (concat (map snd L)) \<subseteq> set (used L S)" "set (map fst L) \<subseteq> set (used L S)"
    using tails_used [of L S] heads_used by auto
  moreover have "set (n # map fst L) \<inter> set (concat (map snd L)) = {}"
    using Cons.prems by (intro Cons.IH) (simp add: x)
  ultimately show ?case using Cons.prems by (auto simp: x)
qed simp

lemma flag_pend:
  assumes "pend B {} d L S" "n \<in> set (map fst L) \<or> S \<noteq> [] \<and> n = hd S"
  shows "pend B {n} (flag_sibling n d) L S" "found (flag_sibling n d) L S w = found d L S w"
    "same_labels d (flag_sibling n d)"
proof -
  have u: "distinct (used L S)" "\<forall>i \<in> set (used L S). unat i < length (d_nodes d)"
    using assms(1) by (auto simp: pend_def ids_ok_def)
  have "n \<in> set (used L S)" using assms(2) heads_used [of n L S] hd_in_set [of S] by (auto simp: used_def)
  with u have n: "unat n < length (d_nodes d)" by blast
  have "n \<notin> set (concat (map snd L) @ tl S)"
  proof -
    have "\<lbrakk>distinct (used L S); n \<in> set (map fst L) \<or> S \<noteq> [] \<and> n = hd S\<rbrakk> \<Longrightarrow> n \<notin> set (concat (map snd L) @ tl S)"
    proof (induction L)
      case Nil
      then show ?case by (cases S) auto
    next
      case (Cons x L)
      obtain k T where x: "x = (k, T)" by force
      have sub: "set (concat (map snd L) @ tl S) \<subseteq> set (used L S)" "set (map fst L) \<subseteq> set (used L S)"
        "S \<noteq> [] \<Longrightarrow> hd S \<in> set (used L S)"
        using tails_used heads_used by (blast, blast) (simp add: used_def)
      show ?case
      proof (cases "n = k")
        case True
        with Cons.prems sub show ?thesis by (auto simp: x)
      next
        case False
        with Cons.prems Cons.IH have "n \<notin> set (concat (map snd L) @ tl S)" by (auto simp: x)
        moreover have "n \<in> set (used L S)" using Cons.prems(2) False sub by (auto simp: x)
        ultimately show ?thesis using Cons.prems(1) by (auto simp: x)
      qed
    qed
    with u(1) assms(2) show ?thesis by blast
  qed
  from flag_path [OF n _ this] assms(1) have "levels_ok (d_nodes (flag_sibling n d)) (length (d_units d)) {n} 0 L S"
    by (simp add: pend_def)
  moreover have "first_unit (flag_sibling n d) = first_unit d" by (rule ext) (simp add: first_unit_def flag_sibling_def)
  then have "core_ok (flag_sibling n d) = core_ok d" by (simp add: core_ok_def table_ok_def flag_sibling_def)
  ultimately show "pend B {n} (flag_sibling n d) L S"
    using assms(1) by (simp add: pend_def ids_ok_def) (simp add: flag_sibling_def)
  show "found (flag_sibling n d) L S w = found d L S w"
    unfolding found_def using lfind_fields [of "d_nodes (flag_sibling n d)" "d_nodes d"] flag_fields
    by (simp add: flag_sibling_def)
  show "same_labels d (flag_sibling n d)" by (simp add: same_labels_def flag_fields)
qed

definition kword :: "uchar_type list \<Rightarrow> bool" where
  "kword w \<longleftrightarrow> (\<exists>v. w = v @ [0] \<and> 0 \<notin> set v)"

lemma kword_simps [simp]:
  "\<not> kword []" "kword (l # w) \<longleftrightarrow> (if l = 0 then w = [] else kword w)"
  by (auto simp: kword_def Cons_eq_append_conv)

definition labels :: "DawgBuilder \<Rightarrow> (id_type \<times> id_type list) list \<Rightarrow> uchar_type list" where
  "labels d L = map (\<lambda>(n, T). n_label (nd (d_nodes d) n)) L"

lemma labels_simps [simp]:
  "labels d [] = []" "labels d ((n, T) # L) = n_label (nd (d_nodes d) n) # labels d L"
  "labels d (L @ M) = labels d L @ labels d M"
  by (simp_all add: labels_def)

lemma labels_same: "same_labels d d' \<Longrightarrow> labels d' L = labels d L"
  by (auto simp: labels_def same_labels_def)

text \<open>The order of the keys, on their labels.\<close>

definition label_less :: "uchar_type list \<Rightarrow> uchar_type list \<Rightarrow> bool" where
  "label_less v w \<longleftrightarrow> (v, w) \<in> lexord {(a, b). a < b}"

lemma label_less_Cons [simp]: "label_less (a # v) (b # w) \<longleftrightarrow> a < b \<or> a = b \<and> label_less v w"
  by (simp add: label_less_def)

lemma pend_ids:
  assumes "pend B F d L S"
  shows "i \<in> set (0 # used L S) \<Longrightarrow> unat i < length (d_nodes d)" "0 \<notin> set (used L S)" "distinct (used L S)"
  using assms by (auto simp: pend_def ids_ok_def)

lemma pend_path_end: "pend B F d (L0 @ L) S \<Longrightarrow> unat (path_end 0 L0) < length (d_nodes d)"
  using path_end_mem [of 0 L0 "used L S"] used_append [of L0 L S] used_append [of L0 "[]" "used L S"]
  by (intro pend_ids(1)) auto

lemma insert_walk_step:
  assumes "unat p < length (d_nodes d)" "n_child (nd (d_nodes d) p) = n" "n \<noteq> 0" "unat n < length (d_nodes d)"
    "ls = [] \<or> l \<noteq> 0" "n_label (nd (d_nodes d) n) \<le> l"
  shows "insert_walk (l # ls) d p =
      (if n_label (nd (d_nodes d) n) < l
       then bind_ok (flush (flag_sibling n d) n) (\<lambda>d'. Inr (d', p, l # ls))
       else insert_walk ls d n)"
  using assms by (auto simp: flag_sibling_def Let_def)

lemma insert_walk_spec:
  "pend B {} d (L0 @ L) S \<Longrightarrow> S \<noteq> [] \<Longrightarrow> n_label (nd (d_nodes d) (hd S)) = 0 \<Longrightarrow>
   d_node_stack d = hd S # rev (map fst L) @ rev (map fst L0) @ [0] \<Longrightarrow> kword ls \<Longrightarrow>
   label_less (labels d L @ [0]) ls \<or> ls = labels d L @ [0] \<Longrightarrow>
   (if ls = labels d L @ [0] then insert_walk ls d (path_end 0 L0) = Inr (d, hd S, [])
    else \<exists>L1 n T l rest d' M. insert_walk ls d (path_end 0 L0) = Inr (d', path_end 0 (L0 @ L1), l # rest) \<and>
      ls = labels d L1 @ l # rest \<and> L = L1 @ M \<and> n_label (nd (d_nodes d') n) < l \<and>
      d_node_stack d' = rev (map fst (L0 @ L1)) @ [0] \<and> pend B {n} d' (L0 @ L1) (n # T) \<and> same_labels d d' \<and>
      (\<forall>w. found d' (L0 @ L1) (n # T) w = found d (L0 @ L) S w))"
proof (induction L arbitrary: L0 ls)
  case Nil
  note p = Nil.prems(1) [unfolded pend_def]
  have path: "n_child (nd (d_nodes d) (path_end 0 L0)) = hd S"
  proof -
    have "levels_ok (d_nodes d) (length (d_units d)) {} (path_end 0 L0) [] S"
      using p levels_ok_append [of "d_nodes d" "length (d_units d)" "{}" 0 L0 "[]" S] by simp
    with Nil.prems(2) show ?thesis by (cases S) (simp_all add: hd0_def)
  qed
  have "hd S \<in> set (used (L0 @ []) S)" using Nil.prems(2) used_append [of L0 "[]" S] by simp
  then have lt: "unat (path_end 0 L0) < length (d_nodes d)" "hd S \<noteq> 0" "unat (hd S) < length (d_nodes d)"
    using pend_ids(1,2) [OF Nil.prems(1)] pend_path_end [OF Nil.prems(1)] by auto
  show ?case
  proof (cases "ls = [0]")
    case True
    with path lt Nil.prems show ?thesis by simp
  next
    case False
    with Nil.prems(5,6) obtain l rest where ls: "ls = l # rest" "0 < l" "l \<noteq> 0"
      by (cases ls) (auto simp: word_gt_0)
    let ?d = "flag_sibling (hd S) d"
    note f = flag_pend [OF Nil.prems(1), of "hd S", unfolded append_Nil2]
    have "d_node_stack ?d = hd S # rev (map fst L0) @ [0]" using Nil.prems(4) by (simp add: flag_sibling_def)
    then have "flush ?d (hd S) = Inr (?d\<lparr>d_node_stack := rev (map fst L0) @ [0]\<rparr>)"
      by (simp add: flush_def flush_loop.simps)
    then have "insert_walk ls d (path_end 0 L0) = Inr (?d\<lparr>d_node_stack := rev (map fst L0) @ [0]\<rparr>, path_end 0 L0, l # rest)"
      using insert_walk_step [OF lt(1) path lt(2,3), of rest l] ls Nil.prems(3) by (simp only: if_True) simp
    moreover have "n_label (nd (d_nodes ?d) (hd S)) < l" using Nil.prems(3) ls by (simp add: flag_fields)
    moreover have "S = hd S # tl S" using Nil.prems(2) by simp
    ultimately show ?thesis using f Nil.prems(2) ls False
      by (intro if_not_P [THEN iffD2] exI [of _ "[]"] exI [of _ "hd S"] exI [of _ "tl S"]) auto
  qed
next
  case (Cons x L)
  obtain n T where x: "x = (n, T)" by force
  note p = Cons.prems(1) [unfolded pend_def]
  have path: "n_child (nd (d_nodes d) (path_end 0 L0)) = n" "n_label (nd (d_nodes d) n) \<noteq> 0"
    using p unfolding x levels_ok_append by auto
  have "n \<in> set (used (L0 @ x # L) S)" by (simp add: used_append [of L0] x)
  then have lt: "unat (path_end 0 L0) < length (d_nodes d)" "n \<noteq> 0" "unat n < length (d_nodes d)"
    using pend_ids(1,2) [OF Cons.prems(1)] pend_path_end [OF Cons.prems(1)] by auto
  obtain l rest where ls: "ls = l # rest" using Cons.prems(5) by (cases ls) auto
  have le: "n_label (nd (d_nodes d) n) \<le> l" using Cons.prems(6) by (auto simp: x ls)
  have nz: "l \<noteq> 0" using le path(2) by (metis word_le_0_iff)
  have step: "insert_walk ls d (path_end 0 L0) =
      (if n_label (nd (d_nodes d) n) < l
       then bind_ok (flush (flag_sibling n d) n) (\<lambda>d'. Inr (d', path_end 0 L0, l # rest))
       else insert_walk rest d n)"
    unfolding ls by (rule insert_walk_step [OF lt(1) path(1) lt(2,3) _ le]) (simp add: nz)
  show ?case
  proof (cases "n_label (nd (d_nodes d) n) = l")
    case True
    have "pend B {} d ((L0 @ [x]) @ L) S" "d_node_stack d = hd S # rev (map fst L) @ rev (map fst (L0 @ [x])) @ [0]"
      using Cons.prems(1,4) by simp_all
    moreover have "kword rest" using Cons.prems(5) nz by (simp add: ls)
    moreover have "label_less (labels d L @ [0]) rest \<or> rest = labels d L @ [0]"
      using Cons.prems(6) True by (auto simp: x ls)
    ultimately have IH: "if rest = labels d L @ [0] then insert_walk rest d (path_end 0 (L0 @ [x])) = Inr (d, hd S, [])
      else \<exists>L1 n T l r d' M. insert_walk rest d (path_end 0 (L0 @ [x])) = Inr (d', path_end 0 ((L0 @ [x]) @ L1), l # r) \<and>
      rest = labels d L1 @ l # r \<and> L = L1 @ M \<and> n_label (nd (d_nodes d') n) < l \<and>
      d_node_stack d' = rev (map fst ((L0 @ [x]) @ L1)) @ [0] \<and> pend B {n} d' ((L0 @ [x]) @ L1) (n # T) \<and> same_labels d d' \<and>
      (\<forall>w. found d' ((L0 @ [x]) @ L1) (n # T) w = found d ((L0 @ [x]) @ L) S w)"
      using Cons.prems(2,3) by (intro Cons.IH) auto
    have e: "insert_walk ls d (path_end 0 L0) = insert_walk rest d (path_end 0 (L0 @ [x]))"
      using step True by (simp add: x)
    show ?thesis
    proof (cases "rest = labels d L @ [0]")
      case True
      with IH e \<open>n_label (nd (d_nodes d) n) = l\<close> show ?thesis by (simp add: x ls)
    next
      case False
      with IH obtain L1 k U m r d' M where "insert_walk rest d (path_end 0 (L0 @ [x])) = Inr (d', path_end 0 ((L0 @ [x]) @ L1), m # r)"
        "rest = labels d L1 @ m # r" "L = L1 @ M" "n_label (nd (d_nodes d') k) < m"
        "d_node_stack d' = rev (map fst ((L0 @ [x]) @ L1)) @ [0]" "pend B {k} d' ((L0 @ [x]) @ L1) (k # U)" "same_labels d d'"
        "\<forall>w. found d' ((L0 @ [x]) @ L1) (k # U) w = found d ((L0 @ [x]) @ L) S w" by auto
      with e False True x ls have "insert_walk ls d (path_end 0 L0) = Inr (d', path_end 0 (L0 @ x # L1), m # r) \<and>
        ls = labels d (x # L1) @ m # r \<and> x # L = (x # L1) @ M \<and> n_label (nd (d_nodes d') k) < m \<and>
        d_node_stack d' = rev (map fst (L0 @ x # L1)) @ [0] \<and> pend B {k} d' (L0 @ x # L1) (k # U) \<and> same_labels d d' \<and>
        (\<forall>w. found d' (L0 @ x # L1) (k # U) w = found d (L0 @ x # L) S w)" by simp
      moreover have "ls \<noteq> labels d (x # L) @ [0]" using False by (simp add: x ls)
      ultimately show ?thesis by (metis (no_types, lifting))
    qed
  next
    case False
    then have less: "n_label (nd (d_nodes d) n) < l" using le by simp
    let ?d = "flag_sibling n d"
    note f = flag_pend [OF Cons.prems(1), of n]
    have st: "d_node_stack ?d = hd S # rev (map fst (x # L)) @ rev (map fst L0) @ [0]"
      using Cons.prems(4) by (simp add: flag_sibling_def)
    have ids: "distinct (n # T @ used L S)" using p by (auto simp: ids_ok_def used_append [of L0] x)
    then have n: "n \<notin> set (hd S # map fst (tl (x # L)))"
      using heads_used [of n L S] Cons.prems(2) by (auto simp: used_def)
    have pf: "pend B {n} ?d (L0 @ x # L) S" using f(1) x by simp
    from flush_levels [OF pf Cons.prems(2) _ n, of "rev (map fst L0) @ [0]"] n obtain d' where
      d': "flush_loop (hd S # rev (map fst (x # L)) @ rev (map fst L0) @ [0]) ?d n =
        flush_loop (n # rev (map fst L0) @ [0]) d' n"
        "pend B {n} d' L0 (n # T)" "\<forall>w. found d' L0 (n # T) w = found ?d (L0 @ x # L) S w" "same_labels ?d d'"
      by (auto simp: x top_chain_def)
    let ?e = "d'\<lparr>d_node_stack := rev (map fst L0) @ [0]\<rparr>"
    have "flush ?d n = Inr ?e" unfolding flush_def st d'(1) by (simp add: flush_loop.simps)
    then have w: "insert_walk ls d (path_end 0 L0) = Inr (?e, path_end 0 (L0 @ []), l # rest)" using step less by simp
    have same: "same_labels d ?e" using f(3) d'(4) x by (auto intro: same_labels_trans)
    then have "n_label (nd (d_nodes ?e) n) < l" using less by (simp add: same_labels_def)
    moreover have "\<forall>w. found ?e L0 (n # T) w = found d (L0 @ x # L) S w" using d'(3) f(2) x by simp
    ultimately have res: "insert_walk ls d (path_end 0 L0) = Inr (?e, path_end 0 (L0 @ []), l # rest) \<and>
      ls = labels d [] @ l # rest \<and> x # L = [] @ x # L \<and> n_label (nd (d_nodes ?e) n) < l \<and>
      d_node_stack ?e = rev (map fst (L0 @ [])) @ [0] \<and> pend B {n} ?e (L0 @ []) (n # T) \<and> same_labels d ?e \<and>
      (\<forall>w. found ?e (L0 @ []) (n # T) w = found d (L0 @ x # L) S w)"
      using w same d'(2) ls by (intro conjI) simp_all
    have "ls \<noteq> labels d (x # L) @ [0]" using False by (simp add: x ls)
    then show ?thesis unfolding if_not_P [OF \<open>ls \<noteq> labels d (x # L) @ [0]\<close>]
      by (intro exI) (rule res)
  qed
qed

section \<open>Inserting a key\<close>

lemma append_node_spec:
  assumes p: "pend B F d L S"
  shows "\<exists>c nodes ids. append_node d = (c, d\<lparr>d_nodes := nodes, d_recycle_bin := ids\<rparr>) \<and>
    c \<notin> set (0 # used L S) \<and> unat c < length nodes \<and> nd nodes c = node_new \<and>
    (\<forall>i \<in> set (0 # used L S). nd nodes i = nd (d_nodes d) i) \<and>
    length (d_nodes d) \<le> length nodes \<and> length nodes \<le> length (d_nodes d) + 1 \<and>
    distinct (c # ids) \<and> set ids \<subseteq> set (d_recycle_bin d)"
proof -
  have ids: "distinct (0 # used L S @ d_recycle_bin d)" "\<forall>i \<in> set (used L S @ d_recycle_bin d). unat i < length (d_nodes d)"
    "0 < length (d_nodes d)" "length (d_nodes d) < 4294967296" using p by (auto simp: pend_def ids_ok_def)
  show ?thesis
  proof (cases "d_recycle_bin d")
    case Nil
    let ?c = "of_nat (length (d_nodes d)) :: id_type"
    have c: "unat ?c = length (d_nodes d)" using ids(4) by (rule unat_of_nat_less)
    have "i \<noteq> ?c" if "i \<in> set (0 # used L S)" for i
    proof
      assume "i = ?c"
      with c pend_ids(1) [OF p that] show False by simp
    qed
    moreover have "nd (d_nodes d @ [node_new]) i = nd (d_nodes d) i" if "i \<in> set (0 # used L S)" for i
      using pend_ids(1) [OF p that] by (simp add: nth_append)
    moreover have "append_node d = (?c, d\<lparr>d_nodes := d_nodes d @ [node_new], d_recycle_bin := []\<rparr>)"
      using Nil by (simp add: append_node_def)
    ultimately show ?thesis using c by (intro exI [of _ ?c] exI [of _ "d_nodes d @ [node_new]"] exI [of _ "[]"]) auto
  next
    case (Cons c cs)
    have c: "c \<notin> set (0 # used L S)" "unat c < length (d_nodes d)" "distinct (c # cs)" using ids Cons by auto
    moreover have "nd ((d_nodes d)[unat c := node_new]) i = nd (d_nodes d) i" if "i \<in> set (0 # used L S)" for i
      using c(1) that by (auto simp: nd_update)
    moreover have "append_node d = (c, d\<lparr>d_nodes := (d_nodes d)[unat c := node_new], d_recycle_bin := cs\<rparr>)"
      using Cons by (simp add: append_node_def)
    ultimately show ?thesis using Cons
      by (intro exI [of _ c] exI [of _ "(d_nodes d)[unat c := node_new]"] exI [of _ cs]) auto
  qed
qed

lemma cfind_none [simp]: "cfind nodes us ls [] w = None"
  by (cases w) (simp_all add: cfind.simps)

lemma entry_ok_cong: "n_label n = n_label n' \<Longrightarrow> n_child n = n_child n' \<Longrightarrow> entry_ok k n = entry_ok k n'"
  by (simp only: entry_ok_def)

text \<open>Nothing but the child of the last node of a path changes.\<close>

lemma lev_ok_end:
  assumes "same_but_child nodes nodes' (used L [])"
  shows "distinct (p # used L []) \<Longrightarrow> \<forall>i \<in> set (p # used L []). i \<noteq> path_end p L \<longrightarrow> n_child (nd nodes' i) = n_child (nd nodes i) \<Longrightarrow>
    F \<inter> set (map fst L) = {} \<Longrightarrow> lev_ok nodes m F p L \<Longrightarrow> lev_ok nodes' m {} p L"
  using assms
proof (induction L arbitrary: p)
  case (Cons x L)
  obtain n T where x: "x = (n, T)" by force
  have end_in: "path_end n L \<in> set (n # used L [])" by (rule path_end_mem)
  have sub: "same_but_child nodes nodes' (n # T)" "same_but_child nodes nodes' (used L [])"
    using Cons.prems(5) by (auto simp: x same_but_child_def)
  have "path_end p (x # L) = path_end n L" by (simp add: x)
  then have "p \<noteq> path_end p (x # L)" using Cons.prems(1) end_in by (auto simp: x)
  then have pc: "n_child (nd nodes' p) = n" using Cons.prems(2,4) by (auto simp: x)
  have "chain_ok nodes F (n # T)" using Cons.prems(4) by (simp add: x)
  then have ch: "chain_ok nodes' {} (n # T)" unfolding chain_ok_but_child [OF sub(1)]
    using Cons.prems(3) by (auto simp: chain_ok_def x)
  have "entry_ok m (nd nodes' i)" if i: "i \<in> set T" for i
  proof -
    have "i \<noteq> path_end n L" using i end_in Cons.prems(1) by (auto simp: x)
    then have "n_child (nd nodes' i) = n_child (nd nodes i)" using Cons.prems(2) i by (auto simp: x)
    moreover have "n_label (nd nodes' i) = n_label (nd nodes i)" using sub(1) i by (simp add: same_but_child_def)
    moreover have "entry_ok m (nd nodes i)" using Cons.prems(4) i by (simp add: x)
    ultimately show ?thesis using entry_ok_cong by blast
  qed
  moreover have "lev_ok nodes' m {} n L"
    using Cons.prems sub(2) by (intro Cons.IH) (auto simp: x)
  moreover have "n_label (nd nodes' n) \<noteq> 0" using Cons.prems(4) sub(1) by (auto simp: x same_but_child_def)
  ultimately show ?case using pc ch by (simp add: x)
qed simp

definition new_node :: "id_type \<Rightarrow> uchar_type \<Rightarrow> DawgNode" where
  "new_node s l = \<lparr>n_child = 0, n_sibling = s, n_label = l, n_is_state = (s = 0), n_has_sibling = False\<rparr>"

definition link_node :: "DawgNode list \<Rightarrow> id_type \<Rightarrow> id_type \<Rightarrow> uchar_type \<Rightarrow> DawgNode list" where
  "link_node nodes p c l =
     (let nodes' = nodes[unat c := new_node (n_child (nd nodes p)) l]
      in nodes'[unat p := (nd nodes' p)\<lparr>n_child := c\<rparr>])"

lemma insert_nodes_step:
  assumes "append_node d = (c, d\<lparr>d_nodes := nodes, d_recycle_bin := ids\<rparr>)" "unat c < length nodes"
    "unat p < length nodes" "nd nodes c = node_new"
  shows "insert_nodes (l # ls) d p =
    insert_nodes ls (d\<lparr>d_recycle_bin := ids, d_nodes := link_node nodes p c l, d_node_stack := c # d_node_stack d\<rparr>) c"
  using assms by (simp add: Let_def link_node_def new_node_def node_new_def)

lemma core_ok_nodes [simp]:
  "core_ok (d\<lparr>d_recycle_bin := ids, d_nodes := nodes\<rparr>) = core_ok d"
proof -
  have "first_unit (d\<lparr>d_recycle_bin := ids, d_nodes := nodes\<rparr>) = first_unit d"
    by (rule ext) (simp add: first_unit_def)
  then show ?thesis by (simp add: core_ok_def table_ok_def)
qed

lemma add_node:
  assumes p: "pend B F d L S" and F: "F = (if S = [] then {} else {hd S})"
    and l: "S \<noteq> [] \<Longrightarrow> n_label (nd (d_nodes d) (hd S)) < l" and B: "B + 1 < 2 ^ 30"
    and st: "d_node_stack d = rev (map fst L) @ [0]"
  obtains c d' where "insert_nodes (l # ls) d (path_end 0 L) = insert_nodes ls d' c"
    "d_node_stack d' = c # rev (map fst L) @ [0]" "n_label (nd (d_nodes d') c) = l" "labels d' L = labels d L"
    "n_label (nd (d_nodes d') 0) = n_label (nd (d_nodes d) 0)"
    "if l = 0 then S = [] \<and> pend (B + 1) {} d' L [c] \<and> (\<forall>w. found d' L [] w = found d L S w)
     else pend (B + 1) {} d' (L @ [(c, S)]) [] \<and> (\<forall>w. found d' (L @ [(c, S)]) [] w = found d L S w)"
proof -
  obtain c nodes ids where a: "append_node d = (c, d\<lparr>d_nodes := nodes, d_recycle_bin := ids\<rparr>)"
    and c: "c \<notin> set (0 # used L S)" "unat c < length nodes" "nd nodes c = node_new"
    and old: "\<forall>i \<in> set (0 # used L S). nd nodes i = nd (d_nodes d) i"
    and len: "length (d_nodes d) \<le> length nodes" "length nodes \<le> length (d_nodes d) + 1"
    and ids: "distinct (c # ids)" "set ids \<subseteq> set (d_recycle_bin d)"
    using append_node_spec [OF p] by blast
  note pp = p [unfolded pend_def]
  obtain q where q: "q = path_end 0 L" by blast
  let ?m = "length (d_units d)"
  have u: "used L S = used L [] @ S" by (simp add: used_append [of L "[]" S, simplified])
  have e: "q \<in> set (0 # used L [])" unfolding q by (rule path_end_mem)
  then have e': "q \<in> set (0 # used L S)" by (auto simp: u)
  have elt: "unat q < length nodes" using pend_ids(1) [OF p e'] len by simp
  have ec: "q \<noteq> c" using e' c(1) by auto
  have path: "lev_ok (d_nodes d) ?m F 0 L" "n_child (nd (d_nodes d) q) = hd0 S" "chain_ok (d_nodes d) F S"
    "\<forall>i \<in> set S. entry_ok ?m (nd (d_nodes d) i)" using pp path_ok_Nil [of "d_nodes d" ?m F 0 L S] unfolding q by simp_all
  let ?nodes = "link_node nodes q c l"
  have nd: "nd ?nodes i = (if i = q then (nd (d_nodes d) q)\<lparr>n_child := c\<rparr> else nd (d_nodes d) i)"
    if "i \<in> set (0 # used L S)" for i
    using that c(1,2) elt ec old e' by (auto simp: link_node_def Let_def nd_update)
  have nc: "nd ?nodes c = new_node (hd0 S) l"
    using ec c(2) elt old e' path(2) by (auto simp: link_node_def Let_def nd_update)
  let ?d = "d\<lparr>d_recycle_bin := ids, d_nodes := ?nodes, d_node_stack := c # d_node_stack d\<rparr>"
  have idsd: "distinct (0 # used L S @ d_recycle_bin d)" "\<forall>i \<in> set (used L S @ d_recycle_bin d). unat i < length (d_nodes d)"
    using pp by (auto simp: ids_ok_def)
  have eS: "q \<notin> set S" using e idsd(1) by (auto simp: u)
  have aS: "alike (d_nodes d) ?nodes S" unfolding alike_def
  proof
    fix i assume i: "i \<in> set S"
    then have "i \<noteq> q" using eS by blast
    with i show "nd ?nodes i = nd (d_nodes d) i" by (simp add: nd u)
  qed
  have sbc: "same_but_child (d_nodes d) ?nodes (used L S)" by (auto simp: same_but_child_def nd)
  have lev: "lev_ok ?nodes ?m {} 0 L"
  proof (rule lev_ok_end [OF _ _ _ _ path(1), folded q])
    show "same_but_child (d_nodes d) ?nodes (used L [])" using sbc by (simp add: u same_but_child_def)
    show "distinct (0 # used L [])" using idsd(1) by (simp add: u)
    have "F \<subseteq> set S" using F by auto
    moreover have "set (used L []) \<inter> set S = {}" using idsd(1) by (auto simp: u)
    ultimately show "F \<inter> set (map fst L) = {}" using heads_used [of _ L "[]"] by blast
    show "\<forall>i \<in> set (0 # used L []). i \<noteq> q \<longrightarrow> n_child (nd ?nodes i) = n_child (nd (d_nodes d) i)"
    proof (intro ballI impI)
      fix i assume "i \<in> set (0 # used L [])" and i: "i \<noteq> q"
      then have "i \<in> set (0 # used L S)" by (auto simp: u)
      from nd [OF this] i show "n_child (nd ?nodes i) = n_child (nd (d_nodes d) i)" by simp
    qed
  qed
  have ech: "n_child (nd ?nodes q) = c" using nd [OF e'] by simp
  have chS: "chain_ok ?nodes F S" using path(3) chain_ok_but_child [OF alike_but_child [OF aS]] by simp
  have z: "0 \<notin> set S" using idsd(1) by (auto simp: u)
  have chain: "chain_ok ?nodes {} (c # S)"
  proof (cases S)
    case Nil
    then show ?thesis using nc by (simp add: chain_ok_def new_node_def)
  next
    case (Cons s T)
    have ls: "n_label (nd ?nodes s) < l" using l aS Cons by simp
    have srt: "sorted_wrt (>) (map (n_label \<circ> nd ?nodes) S)" using chS by (simp add: chain_ok_def)
    then have "\<forall>i \<in> set S. n_label (nd ?nodes i) < l" using ls by (auto simp: Cons)
    moreover have "n_has_sibling (nd ?nodes s)" using chS F by (simp add: chain_ok_def Cons)
    moreover have "s \<noteq> 0" using z Cons by auto
    ultimately show ?thesis using chS nc by (auto simp: chain_ok_def Cons new_node_def hd0_def)
  qed
  have ent: "\<forall>i \<in> set S. entry_ok ?m (nd ?nodes i)" using path(4) aS by (simp add: alike_def)
  have idsn: "ids_ok ?d (used L (c # S))" "used L (c # S) = used L [] @ c # S"
  proof -
    show e: "used L (c # S) = used L [] @ c # S" by (simp add: used_append [of L "[]" "c # S", simplified])
    have "length ?nodes = length nodes" by (simp add: link_node_def Let_def)
    moreover have "unat i < length nodes" if "i \<in> set (used L S @ ids)" for i
    proof -
      have "i \<in> set (used L S @ d_recycle_bin d)" using that ids(2) by auto
      with idsd(2) have "unat i < length (d_nodes d)" by blast
      with len(1) show ?thesis by simp
    qed
    ultimately show "ids_ok ?d (used L (c # S))" using idsd(1) ids c(1,2) unfolding ids_ok_def e
      by (auto simp: u)
  qed
  have sizes: "?m + length (used L (c # S)) \<le> B + 1" "length ?nodes \<le> B + 1"
    using pp len by (auto simp: idsn(2) u link_node_def Let_def)
  have lab: "n_label (nd (d_nodes ?d) c) = l" using nc by (simp add: new_node_def)
  have wf: "store_wf (d_units d) (d_labels d)" using pp by (simp add: core_ok_def)
  have tails: "alike (d_nodes d) ?nodes (concat (map snd L))" unfolding alike_def
  proof
    fix i assume i: "i \<in> set (concat (map snd L))"
    have "distinct (0 # used L S)" using idsd(1) by simp
    from heads_tails [OF this] have "q \<notin> set (concat (map snd L))"
      using last_in_set [of "0 # map fst L"] unfolding q by blast
    then have "i \<noteq> q" using i by blast
    moreover have "i \<in> set (used L S)" using i tails_used [of L S] by auto
    ultimately show "nd ?nodes i = nd (d_nodes d) i" by (simp add: nd)
  qed
  have heads: "same_but_child (d_nodes d) ?nodes (map fst L)"
    using sbc heads_used [of _ L S] unfolding same_but_child_def by blast
  have find: "lfind ?nodes (d_units d) (d_labels d) (L @ M) S' w = found d L S w"
    if "\<And>v. lfind ?nodes (d_units d) (d_labels d) M S' v = cfind (d_nodes d) (d_units d) (d_labels d) S v" for M S' w
    using lfind_cong [OF wf _ path(1) tails heads, of "[]" "[]" M S' "[]" S w] that by (simp add: found_def)
  show thesis
  proof (rule that [of ?d c])
    show "insert_nodes (l # ls) d (path_end 0 L) = insert_nodes ls ?d c" unfolding q [symmetric] by (rule insert_nodes_step [OF a c(2) elt c(3)])
    show "d_node_stack ?d = c # rev (map fst L) @ [0]" using st by simp
    show "n_label (nd (d_nodes ?d) c) = l" by (rule lab)
    show "labels ?d L = labels d L" using heads by (auto simp: labels_def same_but_child_def)
    show "n_label (nd (d_nodes ?d) 0) = n_label (nd (d_nodes d) 0)" using nd [of 0] by (simp split: if_splits)
    show "if l = 0 then S = [] \<and> pend (B + 1) {} ?d L [c] \<and> (\<forall>w. found ?d L [] w = found d L S w)
     else pend (B + 1) {} ?d (L @ [(c, S)]) [] \<and> (\<forall>w. found ?d (L @ [(c, S)]) [] w = found d L S w)"
    proof (cases "l = 0")
      case True
      with l have S: "S = []" by (metis word_not_simps(1))
      have "levels_ok ?nodes ?m {} 0 L [c]"
        using lev ech chain nc True unfolding path_ok_Nil [of _ _ _ _ L] q
        by (simp add: hd0_def S entry_ok_def new_node_def)
      then have "pend (B + 1) {} ?d L [c]" using pp idsn sizes B by (simp add: pend_def S)
      moreover have "found ?d L [] w = found d L S w" for w using find [of "[]" "[]" w] by (simp add: found_def S)
      ultimately show ?thesis using True S by simp
    next
      case False
      have "levels_ok ?nodes ?m {} 0 (L @ [(c, S)]) []"
        using lev ech chain nc ent False unfolding levels_ok_append q
        by (simp add: hd0_def new_node_def chain_ok_def)
      moreover have u': "used (L @ [(c, S)]) [] = used L (c # S)" by (simp add: idsn(2) used_append [of L])
      ultimately have "pend (B + 1) {} ?d (L @ [(c, S)]) []" using pp idsn(1) sizes B by (simp add: pend_def)
      moreover have "found ?d (L @ [(c, S)]) [] w = found d L S w" for w
      proof -
        have "lfind ?nodes (d_units d) (d_labels d) [(c, S)] [] v = cfind (d_nodes d) (d_units d) (d_labels d) S v" for v
        proof (cases v)
          case (Cons k x)
          have "cfind (d_nodes d) (d_units d) (d_labels d) S (l # x) = None"
          proof -
            have "n_label (nd (d_nodes d) i) \<noteq> l" if i: "i \<in> set S" for i
            proof -
              have "sorted_wrt (>) (map (n_label \<circ> nd ?nodes) (c # S))" using chain by (simp add: chain_ok_def)
              with i lab aS show ?thesis by (auto simp: alike_def)
            qed
            then have "find (\<lambda>i. n_label (nd (d_nodes d) i) = l) S = None" by (simp add: find_None_iff)
            then show ?thesis by (simp add: cfind.simps)
          qed
          with lab cfind_alike [OF aS] show ?thesis by (auto simp: Cons)
        qed (simp add: cfind.simps)
        from find [OF this] show ?thesis by (simp add: found_def)
      qed
      ultimately show ?thesis using False by simp
    qed
  qed
qed

lemma insert_nodes_spec:
  "pend B F d L S \<Longrightarrow> F = (if S = [] then {} else {hd S}) \<Longrightarrow>
   (S \<noteq> [] \<Longrightarrow> n_label (nd (d_nodes d) (hd S)) < hd ls) \<Longrightarrow> B + length ls < 2 ^ 30 \<Longrightarrow>
   d_node_stack d = rev (map fst L) @ [0] \<Longrightarrow> kword ls \<Longrightarrow>
   \<exists>d' c M. insert_nodes ls d (path_end 0 L) = Inr (d', c) \<and> pend (B + length ls) {} d' M [c] \<and>
     n_label (nd (d_nodes d') c) = 0 \<and> labels d' M @ [0] = labels d L @ ls \<and>
     n_label (nd (d_nodes d') 0) = n_label (nd (d_nodes d) 0) \<and>
     d_node_stack d' = c # rev (map fst M) @ [0] \<and> (\<forall>w. found d' M [] w = found d L S w)"
proof (induction ls arbitrary: d L S B F)
  case (Cons l ls)
  have B: "B + 1 < 2 ^ 30" using Cons.prems(4) by simp
  have l: "S \<noteq> [] \<Longrightarrow> n_label (nd (d_nodes d) (hd S)) < l" using Cons.prems(3) by simp
  from add_node [OF Cons.prems(1,2) l B Cons.prems(5), where ls = ls] obtain c d' where
    step: "insert_nodes (l # ls) d (path_end 0 L) = insert_nodes ls d' c"
    and st: "d_node_stack d' = c # rev (map fst L) @ [0]" and lab: "n_label (nd (d_nodes d') c) = l" "labels d' L = labels d L"
      "n_label (nd (d_nodes d') 0) = n_label (nd (d_nodes d) 0)"
    and res: "if l = 0 then S = [] \<and> pend (B + 1) {} d' L [c] \<and> (\<forall>w. found d' L [] w = found d L S w)
     else pend (B + 1) {} d' (L @ [(c, S)]) [] \<and> (\<forall>w. found d' (L @ [(c, S)]) [] w = found d L S w)"
    by blast
  show ?case
  proof (cases "l = 0")
    case True
    then have "ls = []" using Cons.prems(6) by simp
    with True step st lab res show ?thesis by (intro exI [of _ d'] exI [of _ c] exI [of _ L]) simp
  next
    case False
    then have p: "pend (B + 1) {} d' (L @ [(c, S)]) []" and f: "\<forall>w. found d' (L @ [(c, S)]) [] w = found d L S w"
      using res by auto
    have "d_node_stack d' = rev (map fst (L @ [(c, S)])) @ [0]" "B + 1 + length ls < 2 ^ 30" "kword ls"
      using st Cons.prems(4,6) False by simp_all
    from Cons.IH [OF p _ _ this(2,1,3)] obtain d2 k M where
      "insert_nodes ls d' (path_end 0 (L @ [(c, S)])) = Inr (d2, k)" "pend (B + 1 + length ls) {} d2 M [k]"
      "n_label (nd (d_nodes d2) k) = 0" "labels d2 M @ [0] = labels d' (L @ [(c, S)]) @ ls"
      "n_label (nd (d_nodes d2) 0) = n_label (nd (d_nodes d') 0)"
      "d_node_stack d2 = k # rev (map fst M) @ [0]" "\<forall>w. found d2 M [] w = found d' (L @ [(c, S)]) [] w" by auto
    with step lab f show ?thesis by (intro exI [of _ d2] exI [of _ k] exI [of _ M]) simp
  qed
qed simp

text \<open>The leaf at the end of the path holds the value of the key.\<close>

lemma found_leaf:
  assumes "n_label (nd (d_nodes d) c) = 0"
  shows "kword w \<Longrightarrow> lev_ok (d_nodes d) m F p L \<Longrightarrow>
    found d L [c] w = (if w = labels d L @ [0] then Some (uint (n_child (nd (d_nodes d) c))) else found d L [] w)"
proof (induction L arbitrary: w p)
  case Nil
  then obtain l v where "w = l # v" by (cases w) auto
  with Nil.prems(1) assms show ?case by (auto simp: found_def cfind.simps split: if_splits)
next
  case (Cons x L)
  obtain n T where x: "x = (n, T)" by force
  obtain l v where w: "w = l # v" using Cons.prems(1) by (cases w) auto
  have nz: "n_label (nd (d_nodes d) n) \<noteq> 0" "lev_ok (d_nodes d) m F n L" using Cons.prems(2) by (auto simp: x)
  show ?case
  proof (cases "l = n_label (nd (d_nodes d) n)")
    case True
    with nz Cons.prems(1) have "kword v" by (simp add: w)
    from Cons.IH [OF this nz(2)] True show ?thesis by (simp add: found_def w x)
  qed (simp add: found_def w x)
qed

lemma pend_set_leaf:
  assumes p: "pend B {} d L [c]" and l: "n_label (nd (d_nodes d) c) = 0" and v: "unat v < 2 ^ 31"
  shows "pend B {} (set_child c v d) L [c]" "labels (set_child c v d) L = labels d L"
    "n_label (nd (d_nodes (set_child c v d)) c) = 0" "n_label (nd (d_nodes (set_child c v d)) 0) = n_label (nd (d_nodes d) 0)"
    "kword w \<Longrightarrow> found (set_child c v d) L [c] w = (if w = labels d L @ [0] then Some (uint v) else found d L [] w)"
proof -
  let ?d = "set_child c v d" and ?m = "length (d_units d)"
  note pp = p [unfolded pend_def]
  have u: "used L [c] = used L [] @ [c]" by (simp add: used_append [of L "[]" "[c]", simplified])
  have ids: "distinct (0 # used L [] @ [c])" "unat c < length (d_nodes d)" using pp by (auto simp: ids_ok_def u)
  have nd: "nd (d_nodes ?d) i = (if i = c then (nd (d_nodes d) c)\<lparr>n_child := v\<rparr> else nd (d_nodes d) i)" for i
    using ids(2) by (simp add: set_child_def nd_update)
  have alike: "alike (d_nodes d) (d_nodes ?d) is" if "c \<notin> set is" for "is"
    unfolding alike_def nd using that by (metis (mono_tags))
  have a: "alike (d_nodes d) (d_nodes ?d) (0 # used L [])" using ids(1) by (intro alike) auto
  have path: "lev_ok (d_nodes d) ?m {} 0 L" "n_child (nd (d_nodes d) (path_end 0 L)) = c" "chain_ok (d_nodes d) {} [c]"
    using pp path_ok_Nil [of "d_nodes d" ?m "{}" 0 L "[c]"] by (simp_all add: hd0_def)
  have "path_end 0 L \<noteq> c" using path_end_mem [of 0 L "[]"] ids(1) by auto
  then have "levels_ok (d_nodes ?d) ?m {} 0 L [c]"
    using path lev_ok_alike [OF a] chain_ok_but_child [of "d_nodes d" "d_nodes ?d" "[c]"] l v
    unfolding path_ok_Nil [of _ _ _ _ L] by (simp add: hd0_def entry_ok_def nd same_but_child_def)
  moreover have "d_units ?d = d_units d" "d_recycle_bin ?d = d_recycle_bin d" "length (d_nodes ?d) = length (d_nodes d)"
    by (simp_all add: set_child_def)
  ultimately show "pend B {} ?d L [c]" using pp by (auto simp: pend_def ids_ok_def)
  show "labels ?d L = labels d L" by (auto simp: labels_def nd)
  show l': "n_label (nd (d_nodes ?d) c) = 0" using l by (simp add: nd)
  show "n_label (nd (d_nodes ?d) 0) = n_label (nd (d_nodes d) 0)" using nd [of 0] by (simp split: if_splits)
  show "found ?d L [c] w = (if w = labels d L @ [0] then Some (uint v) else found d L [] w)" if w: "kword w"
  proof -
    have "lev_ok (d_nodes ?d) ?m {} 0 L" using path(1) lev_ok_alike [OF a] by blast
    note found_leaf [OF l' w this]
    moreover have "found ?d L [] w = found d L [] w"
    proof -
      have "c \<notin> set (concat (map snd L))" "c \<notin> set (map fst L)"
        using ids(1) tails_used [of L "[]"] heads_used [of c L "[]"] by auto
      then have "lfind (d_nodes ?d) (d_units d @ []) (d_labels d @ []) (L @ []) [] w =
          lfind (d_nodes d) (d_units d) (d_labels d) (L @ []) [] w"
        using pp path(1) by (intro lfind_cong alike alike_but_child) (auto simp: core_ok_def)
      then show ?thesis by (simp add: found_def set_child_def)
    qed
    moreover have "labels ?d L = labels d L" by (auto simp: labels_def nd)
    ultimately show ?thesis by (simp add: nd)
  qed
qed

definition keyed :: "(string \<times> int) list \<Rightarrow> uchar_type list \<Rightarrow> int option" where
  "keyed ks = map_of (map (\<lambda>(k, v). (key_labels k, v)) ks)"

definition key_ok :: "string \<times> int \<Rightarrow> bool" where
  "key_ok e \<longleftrightarrow> fst e \<noteq> [] \<and> no_nul (fst e) \<and> 0 \<le> snd e \<and> snd e < 2 ^ 31"

definition holds :: "nat \<Rightarrow> DawgBuilder \<Rightarrow> (string \<times> int) list \<Rightarrow> bool" where
  "holds B d ks \<longleftrightarrow>
     (\<exists>L S. pend B {} d L S \<and> n_label (nd (d_nodes d) 0) = 0xFF \<and>
        (\<forall>w. kword w \<longrightarrow> found d L S w = keyed ks w) \<and>
        (if ks = [] then L = [] \<and> S = [] \<and> d_node_stack d = [0]
         else S \<noteq> [] \<and> n_label (nd (d_nodes d) (hd S)) = 0 \<and>
           d_node_stack d = hd S # rev (map fst L) @ [0] \<and> labels d L @ [0] = key_labels (fst (last ks))))"

lemma unat_of_char: "unat (of_char c :: uchar_type) = of_char c"
proof -
  have "(of_char c :: uchar_type) = word_of_nat (of_char c)" by (simp only: of_nat_of_char)
  moreover have "take_bit 8 (of_char c :: nat) = of_char c"
    by (rule take_bit_nat_eq_self) (rule less_le_trans [OF nat_of_char_less_256], simp)
  ultimately show ?thesis by (simp add: unsigned_of_nat)
qed

lemma of_char_0: "(of_char c :: uchar_type) = 0 \<longleftrightarrow> c = NUL"
proof -
  have "(of_char c :: nat) = 0 \<longleftrightarrow> c = NUL"
    using of_char_eq_iff [of c NUL, where 'a = nat] by simp
  then show ?thesis by (simp only: word_unat_eq_iff unat_of_char unsigned_0)
qed

lemma kword_key_labels: "no_nul k \<Longrightarrow> kword (key_labels k)"
  by (induction k) (auto simp: key_labels_def of_char_0)

lemma keyed_snoc:
  "keyed (ks @ [(k, v)]) w = (case keyed ks w of None \<Rightarrow> if w = key_labels k then Some v else None | Some x \<Rightarrow> Some x)"
  by (auto simp: keyed_def map_add_def split: option.splits)

lemma keyed_last: "ks \<noteq> [] \<Longrightarrow> keyed ks (key_labels (fst (last ks))) \<noteq> None"
  unfolding keyed_def map_of_eq_None_iff using last_in_set [of ks] by (force simp: image_iff split_beta)

lemma pend_mono: "pend B F d L S \<Longrightarrow> B \<le> C \<Longrightarrow> C < 2 ^ 30 \<Longrightarrow> pend C F d L S"
  by (simp add: pend_def)

lemma found_labels: "found d L S (labels d L @ w) = cfind (d_nodes d) (d_units d) (d_labels d) S w"
proof (induction L)
  case (Cons x L)
  then show ?case by (cases x) (simp add: found_def)
qed (simp add: found_def)

lemma found_beyond:
  assumes "pend B F d L (n # T)" "n_label (nd (d_nodes d) n) < l"
  shows "found d L (n # T) (labels d L @ l # rest) = None"
proof -
  have "levels_ok (d_nodes d) (length (d_units d)) F (path_end 0 L) [] (n # T)"
    using assms(1) levels_ok_append [of "d_nodes d" _ F 0 L "[]" "n # T"] by (auto simp: pend_def)
  then have "sorted_wrt (>) (map (n_label \<circ> nd (d_nodes d)) (n # T))" by (simp add: chain_ok_def)
  with assms(2) have "\<forall>i \<in> set (n # T). n_label (nd (d_nodes d) i) \<noteq> l" by auto
  then have "find (\<lambda>i. n_label (nd (d_nodes d) i) = l) (n # T) = None" unfolding find_None_iff by blast
  then show ?thesis unfolding found_labels cfind.simps by simp
qed

lemma insert_rest:
  assumes p: "pend B F d L S" and F: "F = (if S = [] then {} else {hd S})"
    and l: "S \<noteq> [] \<Longrightarrow> n_label (nd (d_nodes d) (hd S)) < hd ls" and B: "B + length ls < 2 ^ 30"
    and st: "d_node_stack d = rev (map fst L) @ [0]" and k: "kword ls" and root: "n_label (nd (d_nodes d) 0) = 0xFF"
    and f: "\<forall>w. kword w \<longrightarrow> found d L S w = keyed ks w" and new: "keyed ks (key_labels key) = None"
    and v: "0 \<le> v" "v < 2 ^ 31" and key: "labels d L @ ls = key_labels key"
  shows "\<exists>d'. bind_ok (insert_nodes ls d (path_end 0 L)) (\<lambda>(d2, i).
      bind_ok (pool_at (d_nodes d2) (unat i)) (\<lambda>n.
        Inr (d2\<lparr>d_nodes := (d_nodes d2)[unat i := n\<lparr>n_child := word_of_int v\<rparr>]\<rparr>))) = Inr d' \<and>
    holds (B + length ls) d' (ks @ [(key, v)])"
proof -
  from insert_nodes_spec [OF p F l B st k] obtain d' c M where
    i: "insert_nodes ls d (path_end 0 L) = Inr (d', c)" and p': "pend (B + length ls) {} d' M [c]"
    and lab: "n_label (nd (d_nodes d') c) = 0" "labels d' M @ [0] = labels d L @ ls"
      "n_label (nd (d_nodes d') 0) = n_label (nd (d_nodes d) 0)"
    and st': "d_node_stack d' = c # rev (map fst M) @ [0]" and f': "\<forall>w. found d' M [] w = found d L S w" by blast
  have val: "uint (word_of_int v :: id_type) = v"
    using v by (simp add: unsigned_of_int take_bit_int_eq_self)
  have "v < 2147483648" using v(2) by simp
  with val uint_nat [of "word_of_int v :: id_type"] have "unat (word_of_int v :: id_type) < 2147483648" by linarith
  then have v': "unat (word_of_int v :: id_type) < 2 ^ 31" by simp
  let ?d = "set_child c (word_of_int v) d'"
  note set = pend_set_leaf [OF p' lab(1) v']
  have "unat c < length (d_nodes d')" using pend_ids(1) [OF p', of c] used_append [of M "[]" "[c]"] by simp
  then have "bind_ok (insert_nodes ls d (path_end 0 L)) (\<lambda>(d2, i). bind_ok (pool_at (d_nodes d2) (unat i)) (\<lambda>n.
        Inr (d2\<lparr>d_nodes := (d_nodes d2)[unat i := n\<lparr>n_child := word_of_int v\<rparr>]\<rparr>))) = Inr ?d"
    unfolding i by (simp add: set_child_def)
  moreover have "found ?d M [c] w = keyed (ks @ [(key, v)]) w" if w: "kword w" for w
  proof -
    have "found ?d M [c] w = (if w = key_labels key then Some v else keyed ks w)"
      using set(5) [OF w] f' f w by (simp add: val lab(2) key)
    then show ?thesis using new by (auto simp: keyed_snoc split: option.splits)
  qed
  ultimately show ?thesis unfolding holds_def
    using set(1-4) lab root st' key
    by (intro exI [of _ ?d] conjI, simp, intro exI [of _ M] exI [of _ "[c]"]) (simp add: set_child_def)
qed

lemma dawg_insert_holds:
  assumes h: "holds B d ks" and k: "key_ok (key, v)"
    and le: "ks \<noteq> [] \<Longrightarrow> label_less (key_labels (fst (last ks))) (key_labels key) \<or> key = fst (last ks)"
    and B: "B + length key + 1 < 2 ^ 30"
  shows "\<exists>d'. dawg_insert d key v = Inr d' \<and> holds (B + length key + 1) d' (ks @ [(key, v)])"
proof -
  from h obtain L S where p: "pend B {} d L S" and root: "n_label (nd (d_nodes d) 0) = 0xFF"
    and f: "\<forall>w. kword w \<longrightarrow> found d L S w = keyed ks w"
    and r: "if ks = [] then L = [] \<and> S = [] \<and> d_node_stack d = [0]
         else S \<noteq> [] \<and> n_label (nd (d_nodes d) (hd S)) = 0 \<and>
           d_node_stack d = hd S # rev (map fst L) @ [0] \<and> labels d L @ [0] = key_labels (fst (last ks))"
    unfolding holds_def by blast
  have kw: "kword (key_labels key)" and v: "0 \<le> v" "v < 2 ^ 31" and ne: "key \<noteq> []"
    using k by (auto simp: key_ok_def kword_key_labels)
  have len: "length (key_labels key) = length key + 1" by (simp add: key_labels_def)
  show ?thesis
  proof (cases "ks = []")
    case True
    with r have r': "L = []" "S = []" "d_node_stack d = [0]" by auto
    obtain l ls where ls: "key_labels key = l # ls" using kw by (cases "key_labels key") auto
    have "n_child (nd (d_nodes d) 0) = 0" "0 < length (d_nodes d)"
      using p r' by (auto simp: pend_def hd0_def ids_ok_def)
    then have w: "insert_walk (key_labels key) d 0 = Inr (d, 0, key_labels key)" by (simp add: ls)
    have "\<exists>d'. bind_ok (insert_nodes (key_labels key) d (path_end 0 [])) (\<lambda>(d2, i).
      bind_ok (pool_at (d_nodes d2) (unat i)) (\<lambda>n.
        Inr (d2\<lparr>d_nodes := (d_nodes d2)[unat i := n\<lparr>n_child := word_of_int v\<rparr>]\<rparr>))) = Inr d' \<and>
      holds (B + length (key_labels key)) d' (ks @ [(key, v)])"
      using p r' B kw root f v True
      by (intro insert_rest [where L = "[]" and S = "[]" and F = "{}"]) (auto simp: len keyed_def)
    then obtain d' where "bind_ok (insert_nodes (key_labels key) d 0) (\<lambda>(d2, i).
      bind_ok (pool_at (d_nodes d2) (unat i)) (\<lambda>n.
        Inr (d2\<lparr>d_nodes := (d_nodes d2)[unat i := n\<lparr>n_child := word_of_int v\<rparr>]\<rparr>))) = Inr d'"
      "holds (B + length (key_labels key)) d' (ks @ [(key, v)])" by auto
    moreover have "\<not> v < 0" "key_labels key \<noteq> []" using v ls by simp_all
    ultimately show ?thesis using ne by (intro exI [of _ d'])
      (simp only: dawg_insert_def w bind_ok_simps prod.case if_False len add.assoc simp_thms)
  next
    case False
    with r have S: "S \<noteq> []" and r': "n_label (nd (d_nodes d) (hd S)) = 0" "d_node_stack d = hd S # rev (map fst L) @ [0]"
      "labels d L @ [0] = key_labels (fst (last ks))" by auto
    have le': "label_less (labels d L @ [0]) (key_labels key) \<or> key_labels key = labels d L @ [0]"
      using le [OF False] r'(3) by auto
    have p': "pend B {} d ([] @ L) S" and st: "d_node_stack d = hd S # rev (map fst L) @ rev (map fst []) @ [0]"
      using p r'(2) by simp_all
    note walk = insert_walk_spec [OF p' S r'(1) st kw le']
    show ?thesis
    proof (cases "key_labels key = labels d L @ [0]")
      case True
      with walk have "dawg_insert d key v = Inr d" using v ne by (simp add: dawg_insert_def)
      moreover have e: "key_labels key = key_labels (fst (last ks))" using True r'(3) by simp
      moreover have "keyed (ks @ [(key, v)]) = keyed ks"
      proof (rule ext)
        fix w
        show "keyed (ks @ [(key, v)]) w = keyed ks w"
          using keyed_last [OF False] e by (auto simp: keyed_snoc split: option.splits)
      qed
      moreover have "pend (B + length key + 1) {} d L S" by (rule pend_mono [OF p]) (use B in auto)
      ultimately show ?thesis using S r' f root unfolding holds_def
        by (intro exI [of _ d] conjI, simp, intro exI [of _ L] exI [of _ S]) simp
    next
      case neq: False
      with walk obtain L1 n T l rest d' M where
        w: "insert_walk (key_labels key) d 0 = Inr (d', path_end 0 L1, l # rest)"
        and ls: "key_labels key = labels d L1 @ l # rest" and less: "n_label (nd (d_nodes d') n) < l"
        and st': "d_node_stack d' = rev (map fst L1) @ [0]" and pd: "pend B {n} d' L1 (n # T)" and same: "same_labels d d'"
        and fd: "\<forall>w. found d' L1 (n # T) w = found d L S w" by auto
      have f2: "\<forall>w. kword w \<longrightarrow> found d' L1 (n # T) w = keyed ks w" using fd f by simp
      have key: "labels d' L1 @ l # rest = key_labels key" using ls labels_same [OF same] by simp
      have new: "keyed ks (key_labels key) = None"
        using f2 kw found_beyond [OF pd less, of rest] key by simp
      have kr: "kword (l # rest)"
      proof -
        have "kword (xs @ ys) \<Longrightarrow> ys \<noteq> [] \<Longrightarrow> kword ys" for xs ys :: "uchar_type list"
          by (induction xs) (auto split: if_splits)
        from this [of "labels d' L1" "l # rest"] kw key show ?thesis by simp
      qed
      have le: "length (l # rest) \<le> length key + 1" using key len by (metis le_add2 length_append)
      have root': "n_label (nd (d_nodes d') 0) = 0xFF" using same [unfolded same_labels_def, rule_format, of 0] root by simp
      have B2: "B + length (l # rest) < 2 ^ 30" using B le by simp
      have lt: "n # T \<noteq> [] \<Longrightarrow> n_label (nd (d_nodes d') (hd (n # T))) < hd (l # rest)" using less by simp
      have F: "{n} = (if n # T = [] then {} else {hd (n # T)})" by simp
      from insert_rest [OF pd F lt B2 st' kr root' f2 new v key] obtain d3 where
        d3: "bind_ok (insert_nodes (l # rest) d' (path_end 0 L1)) (\<lambda>(d2, i).
      bind_ok (pool_at (d_nodes d2) (unat i)) (\<lambda>n.
        Inr (d2\<lparr>d_nodes := (d_nodes d2)[unat i := n\<lparr>n_child := word_of_int v\<rparr>]\<rparr>))) = Inr d3"
        "holds (B + length (l # rest)) d3 (ks @ [(key, v)])" by blast
      have "holds (B + length key + 1) d3 (ks @ [(key, v)])"
        using d3(2) le B pend_mono unfolding holds_def by (metis (no_types, lifting) add.assoc add_le_cancel_left)
      moreover have "dawg_insert d key v = Inr d3"
        unfolding dawg_insert_def w using d3(1) v ne by (simp only: bind_ok_simps prod.case) simp
      ultimately show ?thesis by blast
    qed
  qed
qed

lemma dawg_init_holds: "\<exists>d. dawg_init dawg_new = Inr d \<and> holds 2 d []"
proof -
  let ?v = "bv_append bv_new"
  let ?d = "\<lparr>d_nodes = [node_new\<lparr>n_label := 0xFF\<rparr>], d_units = [0], d_labels = [0], d_is_intersections = ?v,
    d_table = replicate 1024 0, d_node_stack = [0], d_recycle_bin = [], d_num_states = 1\<rparr>"
  have i: "dawg_init dawg_new = Inr ?d"
    by (simp add: dawg_init_def dawg_new_def append_node_def append_unit_def INITIAL_TABLE_SIZE_def Let_def)
  have f: "{i. first_unit ?d i} = {}" by (auto simp: first_unit_def)
  have g: "u \<notin> set (group_ids [0] c)" if "0 < c" for u c
    using group_ids_bounds [of u "[0]" c] that by auto
  have "taken (replicate 1024 (0 :: id_type)) = 0" by (simp add: taken_def)
  then have t: "table_ok ?d" unfolding table_ok_def f by simp
  have "store_wf [0] [0]" using g by (auto simp: store_wf_def)
  then have "core_ok ?d" using t bv_append_wf [OF bv_wf_new(1)] by (simp add: core_ok_def)
  then have "pend 2 {} ?d [] []"
    by (simp add: pend_def ids_ok_def hd0_def chain_ok_def node_new_def)
  moreover have "found ?d [] [] w = keyed [] w" for w by (simp add: found_def keyed_def)
  ultimately have "holds 2 ?d []" unfolding holds_def by (intro exI [of _ "[]"]) simp
  with i show ?thesis by blast
qed

fun key_sorted :: "(string \<times> int) list \<Rightarrow> bool" where
  "key_sorted [] \<longleftrightarrow> True"
| "key_sorted [e] \<longleftrightarrow> True"
| "key_sorted (e # f # ks) \<longleftrightarrow>
     (label_less (key_labels (fst e)) (key_labels (fst f)) \<or> fst e = fst f) \<and> key_sorted (f # ks)"

definition labels_total :: "(string \<times> int) list \<Rightarrow> nat" where
  "labels_total ks = (\<Sum>e \<leftarrow> ks. length (fst e) + 1)"

lemma insert_keys_holds:
  "holds B d js \<Longrightarrow> \<forall>e \<in> set ks. key_ok e \<Longrightarrow> key_sorted ks \<Longrightarrow>
   (js \<noteq> [] \<Longrightarrow> ks \<noteq> [] \<Longrightarrow> label_less (key_labels (fst (last js))) (key_labels (fst (hd ks))) \<or> fst (hd ks) = fst (last js)) \<Longrightarrow>
   B + labels_total ks < 2 ^ 30 \<Longrightarrow>
   \<exists>d'. insert_keys ks d = Inr d' \<and> holds (B + labels_total ks) d' (js @ ks)"
proof (induction ks arbitrary: B d js)
  case Nil
  then show ?case by (auto simp: labels_total_def)
next
  case (Cons e ks)
  obtain k v where e: "e = (k, v)" by force
  have k: "key_ok (k, v)" "c_str k = k" using Cons.prems(2) by (auto simp: e key_ok_def)
  have lt: "labels_total (e # ks) = length k + 1 + labels_total ks" by (simp add: labels_total_def e)
  have B: "B + length k + 1 < 2 ^ 30" using Cons.prems(5) lt by simp
  have "js \<noteq> [] \<Longrightarrow> label_less (key_labels (fst (last js))) (key_labels k) \<or> k = fst (last js)"
    using Cons.prems(4) by (simp add: e)
  from dawg_insert_holds [OF Cons.prems(1) k(1) this B] obtain d1 where
    d1: "dawg_insert d k v = Inr d1" "holds (B + length k + 1) d1 (js @ [(k, v)])" by blast
  have "\<exists>d'. insert_keys ks d1 = Inr d' \<and> holds (B + length k + 1 + labels_total ks) d' ((js @ [(k, v)]) @ ks)"
  proof (rule Cons.IH [OF d1(2)])
    show "\<forall>e \<in> set ks. key_ok e" using Cons.prems(2) by simp
    show "key_sorted ks" using Cons.prems(3) by (cases ks) auto
    show "ks \<noteq> [] \<Longrightarrow> label_less (key_labels (fst (last (js @ [(k, v)])))) (key_labels (fst (hd ks))) \<or>
        fst (hd ks) = fst (last (js @ [(k, v)]))" using Cons.prems(3) by (cases ks) (auto simp: e)
    show "B + length k + 1 + labels_total ks < 2 ^ 30" using Cons.prems(5) lt by simp
  qed
  with d1(1) k(2) show ?case by (simp add: e labels_total_def add.assoc)
qed

lemma store_wf_root:
  assumes "store_wf us ls"
  shows "store_wf (us[0 := x]) (ls[0 := y])"
proof -
  have g: "group_ids (us[0 := x]) c = group_ids us c" if "0 < c" for c
    using that
  proof (induction us c rule: group_ids.induct)
    case (1 us c)
    then show ?case by (subst (1 2) group_ids.simps) simp
  qed
  have u: "0 < u" if "u \<in> set (group_ids us c)" "0 < c" for u c using group_ids_bounds [OF that(1)] that(2) by simp
  show ?thesis using assms u unfolding store_wf_def by (auto simp: g)
qed

lemma dfind_root:
  assumes "store_wf us ls"
  shows "0 < c \<Longrightarrow> dfind (us[0 := x]) (ls[0 := y]) c w = dfind us ls c w"
proof (induction w arbitrary: c)
  case (Cons l w)
  have g: "group_ids (us[0 := x]) c = group_ids us c" if "0 < c" for c
    using that
  proof (induction us c rule: group_ids.induct)
    case (1 us c)
    then show ?case by (subst (1 2) group_ids.simps) simp
  qed
  have pos: "0 < u" if "u \<in> set (group_ids us c)" for u using group_ids_bounds [OF that] Cons.prems by simp
  have f: "find (\<lambda>u. ls[0 := y] ! u = l) (group_ids us c) = find (\<lambda>u. ls ! u = l) (group_ids us c)"
    by (rule find_cong) (auto dest: pos)
  show ?case
  proof (cases "find (\<lambda>u. ls ! u = l) (group_ids us c)")
    case (Some u)
    then have u: "u \<in> set (group_ids us c)" "ls ! u = l" by (auto simp: find_Some_iff)
    have "l \<noteq> 0 \<Longrightarrow> 0 < unat (du_child (us ! u))" using assms Cons.prems u by (simp add: store_wf_def)
    with Some Cons pos [OF u(1)] show ?thesis by (simp add: dfind.simps f g)
  qed (use Cons.prems in \<open>simp add: dfind.simps f g\<close>)
qed (simp add: dfind.simps)

section \<open>The finished graph\<close>

definition root_child :: "DawgBuilder \<Rightarrow> nat" where
  "root_child d = unat (du_child (d_units d ! 0))"

definition graph_ok :: "DawgBuilder \<Rightarrow> (uchar_type list \<Rightarrow> int option) \<Rightarrow> bool" where
  "graph_ok d m \<longleftrightarrow>
     store_wf (d_units d) (d_labels d) \<and>
     (\<exists>v. bv_wf v \<and> bv_size v = length (d_units d) \<and> d_is_intersections d = bv_build v) \<and>
     root_child d < length (d_units d) \<and>
     (\<forall>w. kword w \<longrightarrow> (if root_child d = 0 then None else dfind (d_units d) (d_labels d) (root_child d) w) = m w)"

lemma flush_root:
  assumes h: "holds B d ks"
  shows "\<exists>d'. flush d 0 = Inr d' \<and> core_ok d' \<and> d_nodes d' \<noteq> [] \<and> n_label (d_nodes d' ! 0) = 0xFF \<and>
    (let g = unat (n_child (d_nodes d' ! 0))
     in g < length (d_units d') \<and>
       (\<forall>w. kword w \<longrightarrow> (if g = 0 then None else dfind (d_units d') (d_labels d') g w) = keyed ks w))"
proof -
  from h obtain L S where p: "pend B {} d L S" and root: "n_label (nd (d_nodes d) 0) = 0xFF"
    and f: "\<forall>w. kword w \<longrightarrow> found d L S w = keyed ks w"
    and r: "if ks = [] then L = [] \<and> S = [] \<and> d_node_stack d = [0]
         else S \<noteq> [] \<and> n_label (nd (d_nodes d) (hd S)) = 0 \<and>
           d_node_stack d = hd S # rev (map fst L) @ [0] \<and> labels d L @ [0] = key_labels (fst (last ks))"
    unfolding holds_def by blast
  show ?thesis
  proof (cases "ks = []")
    case True
    with r have r': "L = []" "S = []" "d_node_stack d = [0]" by auto
    have "flush d 0 = Inr (d\<lparr>d_node_stack := []\<rparr>)" by (simp add: flush_def r' flush_loop.simps)
    moreover have "n_child (d_nodes d ! 0) = 0" "d_nodes d \<noteq> []" "core_ok d" using p r' by (auto simp: pend_def hd0_def ids_ok_def)
    moreover have "0 < length (d_units d)" using p by (simp add: pend_def core_ok_def store_wf_def)
    ultimately show ?thesis using root by (simp add: True keyed_def)
  next
    case False
    with r have S: "S \<noteq> []" and st: "d_node_stack d = hd S # rev (map fst L) @ [0]" by auto
    have z: "0 \<notin> set (used L S)" by (rule pend_ids(2) [OF p])
    have "\<exists>d1 T. flush_loop (hd S # rev (map fst L) @ [0]) d 0 = flush_loop (hd T # [0]) d1 0 \<and> T \<noteq> [] \<and>
      pend B {} d1 [] T \<and> (\<forall>w. found d1 [] T w = found d L S w) \<and> same_labels d d1"
    proof (cases "L = []")
      case True
      with p S show ?thesis by (intro exI [of _ d] exI [of _ S]) simp
    next
      case False
      have "0 \<notin> set (hd S # map fst (tl L))"
      proof -
        have "hd S \<in> set (used L S)" using S by (simp add: used_def)
        moreover have "set (map fst (tl L)) \<subseteq> set (map fst L)" by (cases L) auto
        then have "set (map fst (tl L)) \<subseteq> set (used L S)" using heads_used by blast
        ultimately show ?thesis using z by auto
      qed
      from flush_levels [of B "{}" d "[]" L S 0 "[0]", simplified, OF p S False] this obtain d1 where
        "flush_loop (hd S # rev (map fst L) @ [0]) d 0 = flush_loop [hd (top_chain L S), 0] d1 0"
        "pend B {} d1 [] (top_chain L S)" "\<forall>w. found d1 [] (top_chain L S) w = found d L S w" "same_labels d d1" by auto
      moreover have "top_chain L S \<noteq> []" using False by (cases L) (auto simp: top_chain_def)
      ultimately show ?thesis by (intro exI [of _ d1] exI [of _ "top_chain L S"]) simp
    qed
    then obtain d1 T where l: "flush_loop (hd S # rev (map fst L) @ [0]) d 0 = flush_loop (hd T # [0]) d1 0"
      and T: "T \<noteq> []" and p1: "pend B {} d1 [] T" and f1: "\<forall>w. found d1 [] T w = found d L S w" and same: "same_labels d d1" by blast
    from pend_flush_node [OF p1 T] obtain g d2 where g: "flush_node d1 (hd T) = Inr (g, d2)" "flushed d1 T d2 g" by auto
    have hd0: "hd T \<noteq> 0" using pend_ids(2) [OF p1] T by (metis hd_in_set used_simps(1))
    have len: "0 < length (d_nodes d1)" using p1 by (simp add: pend_def ids_ok_def)
    have n2: "d_nodes d2 = d_nodes d1" using g(2) by (simp add: flushed_def)
    let ?d = "(set_child 0 g d2)\<lparr>d_node_stack := []\<rparr>"
    have "flush_loop (hd T # [0]) d1 0 = Inr ?d"
      using hd0 g(1) len n2 by (simp add: flush_loop.simps set_child_def)
    then have fl: "flush d 0 = Inr ?d" unfolding flush_def st l .
    have nd: "d_nodes ?d ! 0 = (d_nodes d1 ! 0)\<lparr>n_child := g\<rparr>" using len n2 by (simp add: set_child_def)
    have "core_ok ?d" using g(2) by (simp add: flushed_def)
    moreover have "n_label (d_nodes ?d ! 0) = 0xFF"
      using same [unfolded same_labels_def, rule_format, of 0] root unfolding nd by simp
    moreover have "unat g \<noteq> 0" "unat g < length (d_units ?d)" using g(2) by (auto simp: flushed_def set_child_def)
    moreover have "dfind (d_units ?d) (d_labels ?d) (unat g) w = keyed ks w" if "kword w" for w
      using g(2) f1 f that by (simp add: flushed_def set_child_def found_def)
    moreover have "d_nodes ?d \<noteq> []" using len n2 by (simp add: set_child_def)
    moreover have "n_child (d_nodes (set_child 0 g d2) ! 0) = g" using nd by simp
    ultimately show ?thesis using fl by (intro exI [of _ ?d]) (simp add: Let_def)
  qed
qed

lemma dawg_finish_graph:
  assumes "holds B d ks"
  shows "\<exists>d'. dawg_finish d = Inr d' \<and> graph_ok d' (keyed ks)"
proof -
  from flush_root [OF assms] obtain d1 where fl: "flush d 0 = Inr d1" and core: "core_ok d1" and ne: "d_nodes d1 \<noteq> []"
    and lab: "n_label (d_nodes d1 ! 0) = 0xFF" and g: "unat (n_child (d_nodes d1 ! 0)) < length (d_units d1)"
    and f: "\<And>w. kword w \<Longrightarrow> (if unat (n_child (d_nodes d1 ! 0)) = 0 then None
        else dfind (d_units d1) (d_labels d1) (unat (n_child (d_nodes d1 ! 0))) w) = keyed ks w"
    by (auto simp: Let_def)
  let ?n = "d_nodes d1 ! 0"
  have wf: "store_wf (d_units d1) (d_labels d1)" using core by (simp add: core_ok_def)
  then have len: "0 < length (d_units d1)" "length (d_labels d1) = length (d_units d1)" "length (d_units d1) < 2 ^ 30"
    by (simp_all add: store_wf_def)
  let ?d = "d1\<lparr>d_units := (d_units d1)[0 := node_unit ?n], d_labels := (d_labels d1)[0 := n_label ?n], d_nodes := [],
    d_table := [], d_node_stack := [], d_recycle_bin := [], d_is_intersections := bv_build (d_is_intersections d1)\<rparr>"
  have "0 < length (d_labels d1)" using len by simp
  then have fin: "dawg_finish d = Inr ?d" using fl ne len(1) by (simp add: dawg_finish_def)
  have "du_child (node_unit ?n) = n_child ?n" by (rule du_node_unit(2)) (use lab g len(3) in auto)
  then have rc: "root_child ?d = unat (n_child ?n)" using len(1) by (simp add: root_child_def)
  have "graph_ok ?d (keyed ks)" unfolding graph_ok_def rc
  proof (intro conjI allI impI)
    show "store_wf (d_units ?d) (d_labels ?d)" using store_wf_root [OF wf] by simp
    show "\<exists>v. bv_wf v \<and> bv_size v = length (d_units ?d) \<and> d_is_intersections ?d = bv_build v"
      using core by (intro exI [of _ "d_is_intersections d1"]) (simp add: core_ok_def)
    show "unat (n_child ?n) < length (d_units ?d)" using g by simp
    show "(if unat (n_child ?n) = 0 then None else dfind (d_units ?d) (d_labels ?d) (unat (n_child ?n)) w) = keyed ks w"
      if "kword w" for w using f [OF that] dfind_root [OF wf] by auto
  qed
  with fin show ?thesis by blast
qed

text \<open>
  C7: The word graph of a dictionary. For sorted keys, none of them empty, with values that are not
  negative, and fewer than \<open>2 ^ 30 - 2\<close> labels in all, \<^verbatim>\<open>build_dawg\<close> succeeds, without an exception
  and without an access out of bounds, and in the finished graph the labels of a key lead from the root to the value of its first
  occurrence, and those of any other key lead nowhere. Neither sharing nor the hash table is visible.
\<close>

theorem build_dawg_finds:
  assumes "list_all key_ok ks" "key_sorted ks" "2 + labels_total ks < 2 ^ 30"
  shows "\<exists>d. build_dawg ks = Inr d \<and> graph_ok d (keyed ks)"
proof -
  obtain d0 where d0: "dawg_init dawg_new = Inr d0" "holds 2 d0 []" using dawg_init_holds by blast
  from insert_keys_holds [OF d0(2), of ks] assms obtain d1 where
    d1: "insert_keys ks d0 = Inr d1" "holds (2 + labels_total ks) d1 ks" by (auto simp: list_all_iff)
  from dawg_finish_graph [OF d1(2)] d0(1) d1(1) show ?thesis by (auto simp: build_dawg_def)
qed

theorem build_dawg_finds_witness:
  "\<exists>d. build_dawg [(''ab'', 1), (''b'', 2)] = Inr d \<and> graph_ok d (keyed [(''ab'', 1), (''b'', 2)])"
proof (rule build_dawg_finds)
  have "(of_char CHR ''a'' :: uchar_type) < of_char CHR ''b''" by code_simp
  then show "key_sorted [(''ab'', 1), (''b'', 2)]" by (simp add: key_labels_def)
qed (simp_all add: key_ok_def labels_total_def)

end
