(* ===== verification/Da_Builder.thy ===== *)
theory Da_Builder
  imports Dawg_Path Double_Array
begin

unbundle bit_operations_syntax

text \<open>
  The second half of \<^verbatim>\<open>DoubleArrayImpl::build\<close> in \<^verbatim>\<open>src/index/index_da/darts.h\<close>:
  \<^verbatim>\<open>DoubleArrayBuilderUnit\<close>, \<^verbatim>\<open>DoubleArrayBuilderExtraUnit\<close> and \<^verbatim>\<open>DoubleArrayBuilder\<close>, which lays the word
  graph of \<open>Dawg_Builder\<close> out in an array of units. The units that are not placed yet form a circular list
  through the extra units of the last 16 blocks of 256; a block that leaves this window gets labels that
  match no transition. The sources always pass values to \<^verbatim>\<open>build\<close>, so that the graph is used; progress
  functions are not passed.
\<close>

section \<open>Units\<close>

definition bu_set_has_leaf :: "bool \<Rightarrow> unit32 \<Rightarrow> unit32" where
  "bu_set_has_leaf b u = (if b then u OR push_bit 8 1 else u AND NOT (push_bit 8 1))"

definition bu_set_value :: "int \<Rightarrow> unit32 \<Rightarrow> unit32" where
  "bu_set_value v u = word_of_int v OR push_bit 31 1"

definition bu_set_label :: "uchar_type \<Rightarrow> unit32 \<Rightarrow> unit32" where
  "bu_set_label l u = (u AND NOT 0xFF) OR ucast l"

definition bu_set_offset :: "id_type \<Rightarrow> unit32 \<Rightarrow> fault + unit32" where
  "bu_set_offset off u =
     (if push_bit 29 1 \<le> off then Inl Thrown
      else let u' = u AND (push_bit 31 1 OR push_bit 8 1 OR 0xFF)
           in if off < push_bit 21 1 then Inr (u' OR push_bit 10 off)
              else Inr (u' OR (push_bit 2 off OR push_bit 9 1)))"

record extra_unit =
  e_prev :: id_type
  e_next :: id_type
  e_fixed :: bool
  e_used :: bool

definition extra_new :: extra_unit where
  "extra_new = \<lparr>e_prev = 0, e_next = 0, e_fixed = False, e_used = False\<rparr>"

section \<open>The builder\<close>

record DaBuilder =
  b_units :: "unit32 list"
  b_extras :: "extra_unit list"
  b_labels :: "uchar_type list"
  b_table :: "id_type list"
  b_head :: id_type

definition UPPER_MASK :: id_type where
  "UPPER_MASK = push_bit 21 0xFF"

definition LOWER_MASK :: id_type where
  "LOWER_MASK = 0xFF"

definition num_blocks :: "DaBuilder \<Rightarrow> nat" where
  "num_blocks b = length (b_units b) div 256"

text \<open>\<^verbatim>\<open>extras_\<close> has \<^verbatim>\<open>NUM_EXTRAS\<close> = 4096 elements; it is a ring.\<close>

definition extras :: "DaBuilder \<Rightarrow> id_type \<Rightarrow> extra_unit" where
  "extras b i = b_extras b ! (unat i mod 4096)"

definition upd_extra :: "id_type \<Rightarrow> (extra_unit \<Rightarrow> extra_unit) \<Rightarrow> DaBuilder \<Rightarrow> DaBuilder" where
  "upd_extra i f b = b\<lparr>b_extras := (b_extras b)[unat i mod 4096 := f (extras b i)]\<rparr>"

definition set_next :: "id_type \<Rightarrow> id_type \<Rightarrow> DaBuilder \<Rightarrow> DaBuilder" where
  "set_next i n = upd_extra i (\<lambda>e. e\<lparr>e_next := n\<rparr>)"

definition set_prev :: "id_type \<Rightarrow> id_type \<Rightarrow> DaBuilder \<Rightarrow> DaBuilder" where
  "set_prev i p = upd_extra i (\<lambda>e. e\<lparr>e_prev := p\<rparr>)"

definition set_is_fixed :: "id_type \<Rightarrow> bool \<Rightarrow> DaBuilder \<Rightarrow> DaBuilder" where
  "set_is_fixed i v = upd_extra i (\<lambda>e. e\<lparr>e_fixed := v\<rparr>)"

definition set_is_used :: "id_type \<Rightarrow> bool \<Rightarrow> DaBuilder \<Rightarrow> DaBuilder" where
  "set_is_used i v = upd_extra i (\<lambda>e. e\<lparr>e_used := v\<rparr>)"

definition upd_unit :: "id_type \<Rightarrow> (unit32 \<Rightarrow> unit32) \<Rightarrow> DaBuilder \<Rightarrow> fault + DaBuilder" where
  "upd_unit i f b =
     (if unat i < length (b_units b)
      then Inr (b\<lparr>b_units := (b_units b)[unat i := f (b_units b ! unat i)]\<rparr>) else Inl Out_of_bounds)"

definition upd_offset :: "id_type \<Rightarrow> id_type \<Rightarrow> DaBuilder \<Rightarrow> fault + DaBuilder" where
  "upd_offset i off b =
     bind_ok (pool_at (b_units b) (unat i)) (\<lambda>u. bind_ok (bu_set_offset off u) (\<lambda>u'. upd_unit i (\<lambda>_. u') b))"

subsection \<open>The list of the units that are not placed\<close>

text \<open>\<^verbatim>\<open>reserve_id\<close> behind its first statement.\<close>

definition unlink_id :: "id_type \<Rightarrow> DaBuilder \<Rightarrow> DaBuilder" where
  "unlink_id i b0 =
     (let b1 = (if i = b_head b0
                then let h = e_next (extras b0 i)
                     in b0\<lparr>b_head := (if h = i then of_nat (length (b_units b0)) else h)\<rparr>
                else b0);
          b2 = set_next (e_prev (extras b1 i)) (e_next (extras b1 i)) b1;
          b3 = set_prev (e_next (extras b2 i)) (e_prev (extras b2 i)) b2
      in set_is_fixed i True b3)"

definition first_unused :: "DaBuilder \<Rightarrow> id_type list \<Rightarrow> id_type" where
  "first_unused b offs = (case find (\<lambda>off. \<not> e_used (extras b off)) offs of None \<Rightarrow> 0 | Some off \<Rightarrow> off)"

text \<open>
  The units of a block that is fixed exist, so that \<^verbatim>\<open>reserve_id\<close> does not expand the array here.
\<close>

fun fix_units :: "id_type \<Rightarrow> id_type list \<Rightarrow> DaBuilder \<Rightarrow> fault + DaBuilder" where
  "fix_units unused_offset [] b = Inr b"
| "fix_units unused_offset (i # is) b =
     (if e_fixed (extras b i) then fix_units unused_offset is b
      else bind_ok (upd_unit i (bu_set_label (ucast (i XOR unused_offset))) (unlink_id i b))
             (fix_units unused_offset is))"

definition block_ids :: "nat \<Rightarrow> id_type list" where
  "block_ids block_id = map of_nat [256 * block_id..<256 * block_id + 256]"

definition fix_block :: "nat \<Rightarrow> DaBuilder \<Rightarrow> fault + DaBuilder" where
  "fix_block block_id b = fix_units (first_unused b (block_ids block_id)) (block_ids block_id) b"

fun fix_blocks :: "nat list \<Rightarrow> DaBuilder \<Rightarrow> fault + DaBuilder" where
  "fix_blocks [] b = Inr b"
| "fix_blocks (k # ks) b = bind_ok (fix_block k b) (fix_blocks ks)"

definition fix_all_blocks :: "DaBuilder \<Rightarrow> fault + DaBuilder" where
  "fix_all_blocks b = fix_blocks [num_blocks b - 16..<num_blocks b] b"

definition link_new :: "nat \<Rightarrow> DaBuilder \<Rightarrow> DaBuilder" where
  "link_new src b = fold (\<lambda>i b. set_prev (of_nat i) (of_nat (i - 1)) (set_next (of_nat (i - 1)) (of_nat i) b))
     [src + 1..<src + 256] b"

text \<open>The second half of \<^verbatim>\<open>expand_units\<close>: \<open>src\<close> is the number of units before.\<close>

definition add_block :: "bool \<Rightarrow> nat \<Rightarrow> DaBuilder \<Rightarrow> DaBuilder" where
  "add_block full src b1 =
     (let dest = src + 256;
          b2 = b1\<lparr>b_units := b_units b1 @ replicate 256 0\<rparr>;
          b3 = (if full
                then fold (\<lambda>i b. set_is_fixed i False (set_is_used i False b)) (map of_nat [src..<dest]) b2
                else b2);
          b4 = link_new src b3;
          b5 = set_prev (of_nat src) (of_nat (dest - 1)) b4;
          b6 = set_next (of_nat (dest - 1)) (of_nat src) b5;
          b7 = set_prev (of_nat src) (e_prev (extras b6 (b_head b6))) b6;
          b8 = set_next (of_nat (dest - 1)) (b_head b7) b7;
          b9 = set_next (e_prev (extras b8 (b_head b8))) (of_nat src) b8
      in set_prev (b_head b9) (of_nat (dest - 1)) b9)"

definition expand_units :: "DaBuilder \<Rightarrow> fault + DaBuilder" where
  "expand_units b =
     (let src = length (b_units b); full = 16 < num_blocks b + 1
      in bind_ok (if full then fix_block (num_blocks b - 16) b else Inr b) (\<lambda>b1.
           Inr (add_block full src b1)))"

definition reserve_id :: "id_type \<Rightarrow> DaBuilder \<Rightarrow> fault + DaBuilder" where
  "reserve_id i b =
     bind_ok (if length (b_units b) \<le> unat i then expand_units b else Inr b) (\<lambda>b'. Inr (unlink_id i b'))"

subsection \<open>The offset of a group\<close>

definition is_valid_offset :: "DaBuilder \<Rightarrow> id_type \<Rightarrow> id_type \<Rightarrow> bool" where
  "is_valid_offset b i off \<longleftrightarrow>
     \<not> e_used (extras b off) \<and>
     \<not> ((i XOR off) AND LOWER_MASK \<noteq> 0 \<and> (i XOR off) AND UPPER_MASK \<noteq> 0) \<and>
     list_all (\<lambda>l. \<not> e_fixed (extras b (off XOR ucast l))) (tl (b_labels b))"

definition new_offset :: "DaBuilder \<Rightarrow> id_type \<Rightarrow> id_type" where
  "new_offset b i = of_nat (length (b_units b)) OR (i AND LOWER_MASK)"

text \<open>The list has at most 4096 elements; a longer walk is a cycle that does not meet the head.\<close>

fun find_offset :: "nat \<Rightarrow> DaBuilder \<Rightarrow> id_type \<Rightarrow> uchar_type \<Rightarrow> id_type \<Rightarrow> fault + id_type" where
  "find_offset 0 b i l unfixed_id = Inl Diverges"
| "find_offset (Suc fuel) b i l unfixed_id =
     (let off = unfixed_id XOR ucast l
      in if is_valid_offset b i off then Inr off
         else let n = e_next (extras b unfixed_id)
              in if n = b_head b then Inr (new_offset b i) else find_offset fuel b i l n)"

definition find_valid_offset :: "DaBuilder \<Rightarrow> id_type \<Rightarrow> fault + id_type" where
  "find_valid_offset b i =
     (if length (b_units b) \<le> unat (b_head b) then Inr (new_offset b i)
      else bind_ok (pool_at (b_labels b) 0) (\<lambda>l. find_offset 4096 b i l (b_head b)))"

subsection \<open>Placing the groups of the word graph\<close>

text \<open>The units of a graph are numbered with \<open>nat\<close>; unit 0 ends a list of siblings.\<close>

function dawg_siblings :: "id_type list \<Rightarrow> nat \<Rightarrow> fault + nat list" where
  "dawg_siblings us c =
     (if c = 0 then Inr []
      else if length us \<le> c then Inl Out_of_bounds
      else bind_ok (if du_has_sibling (us ! c) then dawg_siblings us (c + 1) else Inr []) (\<lambda>is. Inr (c # is)))"
  by pat_completeness auto
termination by (relation "measure (\<lambda>(us, c). length us - c)") auto

declare dawg_siblings.simps [simp del]

definition dawg_child :: "DawgBuilder \<Rightarrow> nat \<Rightarrow> fault + nat" where
  "dawg_child g i = bind_ok (pool_at (d_units g) i) (\<lambda>u. Inr (unat (du_child u)))"

fun place_children :: "DawgBuilder \<Rightarrow> id_type \<Rightarrow> id_type \<Rightarrow> nat list \<Rightarrow> DaBuilder \<Rightarrow> fault + DaBuilder" where
  "place_children g dic_id off [] b = Inr b"
| "place_children g dic_id off (c # cs) b =
     bind_ok (pool_at (d_labels g) c) (\<lambda>l.
     let dic_child_id = off XOR ucast l
     in bind_ok (reserve_id dic_child_id b) (\<lambda>b1.
        bind_ok
          (if l = 0
           then bind_ok (upd_unit dic_id (bu_set_has_leaf True) b1)
                  (upd_unit dic_child_id (bu_set_value (du_value (d_units g ! c))))
           else upd_unit dic_child_id (bu_set_label l) b1)
          (place_children g dic_id off cs)))"

definition arrange_from_dawg ::
    "DawgBuilder \<Rightarrow> nat \<Rightarrow> id_type \<Rightarrow> DaBuilder \<Rightarrow> fault + (id_type \<times> DaBuilder)" where
  "arrange_from_dawg g dawg_id dic_id b =
     bind_ok (dawg_child g dawg_id) (\<lambda>c.
     bind_ok (dawg_siblings (d_units g) c) (\<lambda>cs.
       let b1 = b\<lparr>b_labels := map (\<lambda>c. d_labels g ! c) cs\<rparr>
       in bind_ok (find_valid_offset b1 dic_id) (\<lambda>off.
          bind_ok (upd_offset dic_id (dic_id XOR off) b1) (\<lambda>b2.
          bind_ok (place_children g dic_id off cs b2) (\<lambda>b3.
            Inr (off, set_is_used off True b3))))))"

text \<open>
  A group with several parents is shared when the offset from this parent can be encoded.
\<close>

definition reuse_offset ::
    "DawgBuilder \<Rightarrow> nat \<Rightarrow> id_type \<Rightarrow> DaBuilder \<Rightarrow> fault + DaBuilder option" where
  "reuse_offset g c dic_id b =
     bind_ok (bv_get (d_is_intersections g) c) (\<lambda>shared.
       if \<not> shared then Inr None
       else bind_ok (bv_rank (d_is_intersections g) c) (\<lambda>r.
            bind_ok (pool_at (b_table b) (unat (r - 1))) (\<lambda>t.
              let off = t XOR dic_id
              in if t \<noteq> 0 \<and> (off AND UPPER_MASK = 0 \<or> off AND LOWER_MASK = 0)
                 then bind_ok (pool_at (d_labels g) c) (\<lambda>l.
                      bind_ok (if l = 0 then upd_unit dic_id (bu_set_has_leaf True) b else Inr b) (\<lambda>b1.
                      bind_ok (upd_offset dic_id off b1) (\<lambda>b2. Inr (Some b2))))
                 else Inr None)))"

definition record_offset :: "DawgBuilder \<Rightarrow> nat \<Rightarrow> id_type \<Rightarrow> DaBuilder \<Rightarrow> fault + DaBuilder" where
  "record_offset g c off b =
     bind_ok (bv_get (d_is_intersections g) c) (\<lambda>shared.
       if \<not> shared then Inr b
       else bind_ok (bv_rank (d_is_intersections g) c) (\<lambda>r.
            bind_ok (pool_set (b_table b) (unat (r - 1)) off) (\<lambda>t. Inr (b\<lparr>b_table := t\<rparr>))))"

text \<open>
  The recursion follows the graph; it is as deep as the longest key. A recursion deeper than the
  number of units would be a cycle.
\<close>

function build_node :: "DawgBuilder \<Rightarrow> nat \<Rightarrow> nat \<Rightarrow> id_type \<Rightarrow> DaBuilder \<Rightarrow> fault + DaBuilder"
  and build_children :: "DawgBuilder \<Rightarrow> nat \<Rightarrow> nat list \<Rightarrow> id_type \<Rightarrow> DaBuilder \<Rightarrow> fault + DaBuilder" where
  "build_node g 0 dawg_id dic_id b = Inl Diverges"
| "build_node g (Suc fuel) dawg_id dic_id b =
     bind_ok (dawg_child g dawg_id) (\<lambda>c.
     bind_ok (reuse_offset g c dic_id b) (\<lambda>r.
       case r of
         Some b' \<Rightarrow> Inr b'
       | None \<Rightarrow>
           bind_ok (arrange_from_dawg g dawg_id dic_id b) (\<lambda>(off, b1).
           bind_ok (record_offset g c off b1) (\<lambda>b2.
           bind_ok (dawg_siblings (d_units g) c) (\<lambda>cs. build_children g fuel cs off b2)))))"
| "build_children g fuel [] off b = Inr b"
| "build_children g fuel (c # cs) off b =
     bind_ok (pool_at (d_labels g) c) (\<lambda>l.
     bind_ok (if l \<noteq> 0 then build_node g fuel c (off XOR ucast l) b else Inr b)
       (build_children g fuel cs off))"
  by pat_completeness auto
termination
  by (relation "measures [\<lambda>x. case x of Inl (g, fuel, c, i, b) \<Rightarrow> fuel | Inr (g, fuel, cs, off, b) \<Rightarrow> fuel,
      \<lambda>x. case x of Inl (g, fuel, c, i, b) \<Rightarrow> 0 | Inr (g, fuel, cs, off, b) \<Rightarrow> length cs + 1]") auto

definition da_new :: DaBuilder where
  "da_new = \<lparr>b_units = [], b_extras = [], b_labels = [], b_table = [], b_head = 0\<rparr>"

definition build_from_dawg :: "DawgBuilder \<Rightarrow> DaBuilder \<Rightarrow> fault + DaBuilder" where
  "build_from_dawg g b0 =
     bind_ok (reserve_id 0 (b0\<lparr>b_table := replicate (bv_num_ones (d_is_intersections g)) 0,
                              b_extras := replicate 4096 extra_new\<rparr>)) (\<lambda>b1.
     bind_ok (upd_offset 0 1 (set_is_used 0 True b1)) (\<lambda>b2.
     bind_ok (upd_unit 0 (bu_set_label 0) b2) (\<lambda>b3.
     bind_ok (dawg_child g 0) (\<lambda>c.
     bind_ok (if c \<noteq> 0 then build_node g (length (d_units g)) 0 0 b3 else Inr b3) (\<lambda>b4.
     bind_ok (fix_all_blocks b4) (\<lambda>b5.
       Inr (b5\<lparr>b_extras := [], b_labels := [], b_table := []\<rparr>)))))))"

text \<open>\<^verbatim>\<open>DoubleArrayImpl::build\<close>: the units that \<^verbatim>\<open>copy\<close> takes from the builder.\<close>

definition da_build :: "(string \<times> int) list \<Rightarrow> fault + unit32 list" where
  "da_build keyset = bind_ok (build_dawg keyset) (\<lambda>g. bind_ok (build_from_dawg g da_new) (\<lambda>b. Inr (b_units b)))"

end
