(* ===== verification/Linked_List.thy ===== *)
theory Linked_List
  imports Dlg_Prelude
begin

text \<open>
  The intrusive doubly linked list \<open>linked_list_t\<close> (\<^verbatim>\<open>src/http_server/linked_list.hpp\<close>). The
  store is two maps from node addresses to node addresses, the \<open>next\<close> and \<open>prev\<close> fields; the list
  object is the address of its \<open>_head\<close>. An element is identified with the address of the node it
  embeds, since \<open>_node_offset\<close> is the same for all of them. Every assignment of the sources is one
  update of the store, in their order. \<open>ll_rep\<close> relates the store to the list of its elements;
  the locale is the part of the interface the wait list uses.
\<close>

type_synonym addr = nat

record 'a links =
  nxt :: "'a \<Rightarrow> 'a"
  prv :: "'a \<Rightarrow> 'a"

definition set_next :: "'a \<Rightarrow> 'a \<Rightarrow> 'a links \<Rightarrow> 'a links" where
  "set_next a b L = L\<lparr>nxt := (nxt L)(a := b)\<rparr>"

definition set_prev :: "'a \<Rightarrow> 'a \<Rightarrow> 'a links \<Rightarrow> 'a links" where
  "set_prev a b L = L\<lparr>prv := (prv L)(a := b)\<rparr>"

definition ll_reset :: "'a \<Rightarrow> 'a links \<Rightarrow> 'a links" where
  "ll_reset h L = set_next h h (set_prev h h L)"

definition ll_is_empty :: "'a \<Rightarrow> 'a links \<Rightarrow> bool" where
  "ll_is_empty h L \<longleftrightarrow> nxt L h = h"

text \<open>The element a node address stands for; the head stands for none (\<^verbatim>\<open>NULL\<close>).\<close>

definition ll_entry :: "'a \<Rightarrow> 'a \<Rightarrow> 'a option" where
  "ll_entry h a = (if a = h then None else Some a)"

definition ll_next :: "'a \<Rightarrow> 'a \<Rightarrow> 'a links \<Rightarrow> 'a option" where
  "ll_next h a L = ll_entry h (nxt L a)"

definition ll_prev :: "'a \<Rightarrow> 'a \<Rightarrow> 'a links \<Rightarrow> 'a option" where
  "ll_prev h a L = ll_entry h (prv L a)"

definition ll_add :: "'a \<Rightarrow> 'a \<Rightarrow> 'a links \<Rightarrow> 'a links" where
  "ll_add h n L =
     (let L1 = set_prev (nxt L h) n L;
          L2 = set_next n (nxt L1 h) L1;
          L3 = set_prev n h L2
      in set_next h n L3)"

definition ll_add_prev :: "'a \<Rightarrow> 'a \<Rightarrow> 'a links \<Rightarrow> 'a links" where
  "ll_add_prev n cur L =
     (let L1 = set_next (prv L cur) n L;
          L2 = set_prev n (prv L1 cur) L1;
          L3 = set_next n cur L2
      in set_prev cur n L3)"

definition ll_add_next :: "'a \<Rightarrow> 'a \<Rightarrow> 'a links \<Rightarrow> 'a links" where
  "ll_add_next n cur L =
     (let L1 = set_prev (nxt L cur) n L;
          L2 = set_next n (nxt L1 cur) L1;
          L3 = set_prev n cur L2
      in set_next cur n L3)"

definition ll_del :: "'a \<Rightarrow> 'a links \<Rightarrow> 'a links" where
  "ll_del n L =
     (let L1 = set_prev (nxt L n) (prv L n) L
      in set_next (prv L1 n) (nxt L1 n) L1)"

lemmas link_defs = set_next_def set_prev_def ll_reset_def ll_is_empty_def ll_entry_def
  ll_next_def ll_prev_def ll_add_def ll_add_prev_def ll_add_next_def ll_del_def Let_def

section \<open>The list behind the links\<close>

text \<open>From \<open>a\<close>, the links run forth through \<open>xs\<close> to \<open>b\<close>, and back.\<close>

primrec linked :: "'a links \<Rightarrow> 'a \<Rightarrow> 'a list \<Rightarrow> 'a \<Rightarrow> bool" where
  "linked L a [] b \<longleftrightarrow> nxt L a = b \<and> prv L b = a"
| "linked L a (x # xs) b \<longleftrightarrow> nxt L a = x \<and> prv L x = a \<and> linked L x xs b"

definition ll_rep :: "'a \<Rightarrow> 'a links \<Rightarrow> 'a list \<Rightarrow> bool" where
  "ll_rep h L xs \<longleftrightarrow> distinct (h # xs) \<and> linked L h xs h"

lemma linked_append [simp]:
  "linked L a (xs @ y # ys) b \<longleftrightarrow> linked L a xs y \<and> linked L y ys b"
  by (induction xs arbitrary: a) auto

lemma linked_ends:
  "linked L a xs b \<Longrightarrow> nxt L a = hd (xs @ [b])" "linked L a xs b \<Longrightarrow> prv L b = last (a # xs)"
  by (induction xs arbitrary: a) auto

text \<open>A walk depends on the \<open>next\<close> fields of all but its end and the \<open>prev\<close> fields of all but its start.\<close>

lemma linked_cong:
  assumes "linked L a xs b" "\<And>x. x \<in> set (a # xs) \<Longrightarrow> nxt L' x = nxt L x"
    "\<And>x. x \<in> set (b # xs) \<Longrightarrow> prv L' x = prv L x"
  shows "linked L' a xs b"
  using assms by (induction xs arbitrary: a) auto

lemma linked_unique:
  "linked L a xs h \<Longrightarrow> linked L a ys h \<Longrightarrow> h \<notin> set xs \<Longrightarrow> h \<notin> set ys \<Longrightarrow> xs = ys"
proof (induction xs arbitrary: a ys)
  case Nil
  then show ?case by (cases ys) auto
next
  case (Cons x xs)
  then show ?case by (cases ys) auto
qed

lemma ll_rep_unique: "ll_rep h L xs \<Longrightarrow> ll_rep h L ys \<Longrightarrow> xs = ys"
  by (auto simp: ll_rep_def intro: linked_unique)

lemma ll_rep_reset [simp]: "ll_rep h (ll_reset h L) []"
  by (simp add: ll_rep_def link_defs)

lemma ll_rep_is_empty: "ll_rep h L xs \<Longrightarrow> ll_is_empty h L \<longleftrightarrow> xs = []"
  by (cases xs) (auto simp: ll_rep_def ll_is_empty_def)

text \<open>
  Every insertion puts \<open>n\<close> between two neighbours \<open>a\<close> and \<open>b\<close>, and the deletion joins the two
  neighbours of a node.
\<close>

definition splice :: "'a \<Rightarrow> 'a \<Rightarrow> 'a \<Rightarrow> 'a links \<Rightarrow> 'a links" where
  "splice a n b L = \<lparr>nxt = (nxt L)(a := n, n := b), prv = (prv L)(b := n, n := a)\<rparr>"

definition unsplice :: "'a \<Rightarrow> 'a \<Rightarrow> 'a links \<Rightarrow> 'a links" where
  "unsplice a b L = \<lparr>nxt = (nxt L)(a := b), prv = (prv L)(b := a)\<rparr>"

lemma last_neq: "a \<notin> set (x # xs) \<Longrightarrow> a \<noteq> last (x # xs)"
  using last_in_set [of "x # xs"] by blast

lemma hd_neq: "x \<notin> set (ys @ [b]) \<Longrightarrow> x \<noteq> hd (ys @ [b])"
  using hd_in_set [of "ys @ [b]"] by blast

lemma linked_splice:
  assumes "linked L a (xs @ ys) b" "distinct (a # xs @ ys)" "distinct (xs @ ys @ [b])"
    "n \<notin> {a, b} \<union> set (xs @ ys)"
  shows "linked (splice (last (a # xs)) n (hd (ys @ [b])) L) a (xs @ n # ys) b"
  using assms
proof (induction xs arbitrary: a)
  case Nil
  show ?case
  proof (cases ys)
    case (Cons y zs)
    with Nil have "linked L y zs b" by simp
    then have "linked (splice a n y L) y zs b"
      by (rule linked_cong) (use Nil Cons in \<open>auto simp: splice_def\<close>)
    with Nil Cons show ?thesis by (auto simp: splice_def)
  qed (use Nil in \<open>auto simp: splice_def\<close>)
next
  case (Cons x xs)
  have "linked (splice (last (x # xs)) n (hd (ys @ [b])) L) x (xs @ n # ys) b"
    by (rule Cons.IH) (use Cons.prems in auto)
  moreover have "a \<noteq> last (x # xs)" by (rule last_neq) (use Cons.prems in auto)
  moreover have "x \<noteq> hd (ys @ [b])" by (rule hd_neq) (use Cons.prems in auto)
  ultimately show ?case using Cons.prems by (auto simp: splice_def)
qed

lemma linked_unsplice:
  assumes "linked L a (xs @ n # ys) b" "distinct (a # xs @ n # ys)" "distinct (xs @ n # ys @ [b])"
  shows "linked (unsplice (last (a # xs)) (hd (ys @ [b])) L) a (xs @ ys) b"
  using assms
proof (induction xs arbitrary: a)
  case Nil
  show ?case
  proof (cases ys)
    case (Cons y zs)
    with Nil have "linked L y zs b" by simp
    then have "linked (unsplice a y L) y zs b"
      by (rule linked_cong) (use Nil Cons in \<open>auto simp: unsplice_def\<close>)
    with Nil Cons show ?thesis by (auto simp: unsplice_def)
  qed (use Nil in \<open>auto simp: unsplice_def\<close>)
next
  case (Cons x xs)
  have "linked (unsplice (last (x # xs)) (hd (ys @ [b])) L) x (xs @ ys) b"
    by (rule Cons.IH) (use Cons.prems in auto)
  moreover have "a \<noteq> last (x # xs)" by (rule last_neq) (use Cons.prems in auto)
  moreover have "x \<noteq> hd (ys @ [b])" by (rule hd_neq) (use Cons.prems in auto)
  ultimately show ?case using Cons.prems by (auto simp: unsplice_def)
qed

lemma ll_rep_splice:
  assumes "ll_rep h L (xs @ ys)" "n \<notin> set (h # xs @ ys)"
  shows "ll_rep h (splice (last (h # xs)) n (hd (ys @ [h])) L) (xs @ n # ys)"
proof -
  have "linked (splice (last (h # xs)) n (hd (ys @ [h])) L) h (xs @ n # ys) h"
    by (rule linked_splice) (use assms in \<open>auto simp: ll_rep_def\<close>)
  with assms show ?thesis by (auto simp: ll_rep_def)
qed

lemma ll_rep_unsplice:
  assumes "ll_rep h L (xs @ n # ys)"
  shows "ll_rep h (unsplice (last (h # xs)) (hd (ys @ [h])) L) (xs @ ys)"
proof -
  have "linked (unsplice (last (h # xs)) (hd (ys @ [h])) L) h (xs @ ys) h"
    by (rule linked_unsplice) (use assms in \<open>auto simp: ll_rep_def\<close>)
  with assms show ?thesis by (auto simp: ll_rep_def)
qed

lemma ll_ops_splice:
  "n \<noteq> h \<Longrightarrow> ll_add h n L = splice h n (nxt L h) L"
  "n \<noteq> cur \<Longrightarrow> n \<noteq> prv L cur \<Longrightarrow> ll_add_prev n cur L = splice (prv L cur) n cur L"
  "n \<noteq> cur \<Longrightarrow> n \<noteq> nxt L cur \<Longrightarrow> ll_add_next n cur L = splice cur n (nxt L cur) L"
  "ll_del n L = unsplice (prv L n) (nxt L n) L"
  by (auto simp: link_defs splice_def unsplice_def fun_eq_iff intro!: links.equality)

lemma ll_rep_links:
  assumes "ll_rep h L (xs @ ys)"
  shows "nxt L (last (h # xs)) = hd (ys @ [h])" "prv L (hd (ys @ [h])) = last (h # xs)"
proof -
  have "linked L (last (h # xs)) ys h \<and> linked L h xs (hd (ys @ [h]))"
  proof (cases ys)
    case Nil
    with assms show ?thesis
      by (cases xs rule: rev_cases) (auto simp: ll_rep_def)
  next
    case (Cons y zs)
    with assms show ?thesis
      by (cases xs rule: rev_cases) (auto simp: ll_rep_def)
  qed
  then have l: "linked L (last (h # xs)) ys h" "linked L h xs (hd (ys @ [h]))" by (rule conjunct1, rule conjunct2)
  show "nxt L (last (h # xs)) = hd (ys @ [h])" by (rule linked_ends(1) [OF l(1)])
  show "prv L (hd (ys @ [h])) = last (h # xs)" by (rule linked_ends(2) [OF l(2)])
qed

lemma ll_rep_add: "ll_rep h L xs \<Longrightarrow> n \<notin> set (h # xs) \<Longrightarrow> ll_rep h (ll_add h n L) (n # xs)"
  using ll_rep_splice [of h L "[]" xs n] ll_rep_links [of h L "[]" xs] by (simp add: ll_ops_splice)

lemma ll_rep_add_prev:
  assumes "ll_rep h L (xs @ cur # ys)" "n \<notin> set (h # xs @ cur # ys)"
  shows "ll_rep h (ll_add_prev n cur L) (xs @ n # cur # ys)"
proof -
  have "prv L cur = last (h # xs)" using ll_rep_links(2) [OF assms(1)] by simp
  moreover have "n \<noteq> last (h # xs)" by (rule last_neq) (use assms(2) in auto)
  ultimately show ?thesis using ll_rep_splice [OF assms] assms(2) by (simp add: ll_ops_splice)
qed

lemma ll_rep_add_next:
  assumes "ll_rep h L (xs @ cur # ys)" "n \<notin> set (h # xs @ cur # ys)"
  shows "ll_rep h (ll_add_next n cur L) (xs @ cur # n # ys)"
proof -
  have r: "ll_rep h L ((xs @ [cur]) @ ys)" "n \<notin> set (h # (xs @ [cur]) @ ys)" using assms by auto
  have "nxt L cur = hd (ys @ [h])" using ll_rep_links(1) [OF r(1)] by simp
  moreover have "n \<noteq> hd (ys @ [h])" by (rule hd_neq) (use r(2) in auto)
  ultimately show ?thesis using ll_rep_splice [OF r] r(2) by (simp add: ll_ops_splice)
qed

lemma ll_rep_del:
  assumes "ll_rep h L (xs @ n # ys)"
  shows "ll_rep h (ll_del n L) (xs @ ys)"
proof -
  have "prv L n = last (h # xs)" using ll_rep_links(2) [OF assms] by simp
  moreover have "nxt L n = hd (ys @ [h])" using ll_rep_links(1) [of h L "xs @ [n]" ys] assms by simp
  ultimately show ?thesis using ll_rep_unsplice [OF assms] by (simp add: ll_ops_splice)
qed

lemma ll_rep_ends:
  assumes "ll_rep h L xs" "xs \<noteq> []"
  shows "ll_prev h h L = Some (last xs)" "ll_next h h L = Some (hd xs)"
proof -
  have "h \<notin> set xs" using assms(1) by (simp add: ll_rep_def)
  moreover from this have "hd xs \<noteq> h" "last xs \<noteq> h" using assms(2) by auto
  ultimately show "ll_prev h h L = Some (last xs)" "ll_next h h L = Some (hd xs)"
    using assms linked_ends [of L h xs h]
    by (auto simp: ll_rep_def ll_prev_def ll_next_def ll_entry_def)
qed

section \<open>The interface of a double-ended list\<close>

text \<open>
  What a client that adds at the front and takes from either end relies on: \<open>rep s xs\<close> says that
  the state \<open>s\<close> holds the elements \<open>xs\<close>, front first.
\<close>

locale intrusive_list =
  fixes rep :: "'s \<Rightarrow> 'a list \<Rightarrow> bool"
    and ok :: "'a \<Rightarrow> bool"
    and empty :: "'s \<Rightarrow> bool"
    and add :: "'a \<Rightarrow> 's \<Rightarrow> 's"
    and del :: "'a \<Rightarrow> 's \<Rightarrow> 's"
    and first :: "'s \<Rightarrow> 'a option"
    and final :: "'s \<Rightarrow> 'a option"
  assumes unique: "rep s xs \<Longrightarrow> rep s ys \<Longrightarrow> xs = ys"
    and distinct: "rep s xs \<Longrightarrow> distinct xs"
    and empty: "rep s xs \<Longrightarrow> empty s \<longleftrightarrow> xs = []"
    and add: "rep s xs \<Longrightarrow> ok n \<Longrightarrow> n \<notin> set xs \<Longrightarrow> rep (add n s) (n # xs)"
    and del: "rep s (xs @ n # ys) \<Longrightarrow> rep (del n s) (xs @ ys)"
    and first: "rep s xs \<Longrightarrow> xs \<noteq> [] \<Longrightarrow> first s = Some (hd xs)"
    and final: "rep s xs \<Longrightarrow> xs \<noteq> [] \<Longrightarrow> final s = Some (last xs)"
begin

lemma take_first:
  assumes "rep s xs" "\<not> empty s"
  obtains n where "first s = Some n" "xs = n # tl xs" "rep (del n s) (tl xs)"
proof -
  from assms empty have ne: "xs \<noteq> []" by blast
  with assms(1) have "rep (del (hd xs) s) (tl xs)" using del [of s "[]" "hd xs" "tl xs"] by simp
  with ne assms(1) that show ?thesis by (metis first list.collapse)
qed

lemma take_final:
  assumes "rep s xs" "\<not> empty s"
  obtains n where "final s = Some n" "xs = butlast xs @ [n]" "rep (del n s) (butlast xs)"
proof -
  from assms empty have ne: "xs \<noteq> []" by blast
  with assms(1) have "rep (del (last xs) s) (butlast xs)"
    using del [of s "butlast xs" "last xs" "[]"] by simp
  with ne assms(1) that show ?thesis by (metis append_butlast_last_id final)
qed

end

interpretation ll: intrusive_list "ll_rep h" "\<lambda>n. n \<noteq> h" "ll_is_empty h" "ll_add h" ll_del
    "ll_next h h" "ll_prev h h" for h
proof unfold_locales
  fix L xs n ys
  show "ll_rep h L xs \<Longrightarrow> ll_rep h L ys \<Longrightarrow> xs = ys" by (rule ll_rep_unique)
  show "ll_rep h L xs \<Longrightarrow> distinct xs" by (simp add: ll_rep_def)
  show "ll_rep h L xs \<Longrightarrow> ll_is_empty h L \<longleftrightarrow> xs = []" by (rule ll_rep_is_empty)
  show "ll_rep h L xs \<Longrightarrow> n \<noteq> h \<Longrightarrow> n \<notin> set xs \<Longrightarrow> ll_rep h (ll_add h n L) (n # xs)"
    by (rule ll_rep_add) auto
  show "ll_rep h L (xs @ n # ys) \<Longrightarrow> ll_rep h (ll_del n L) (xs @ ys)" by (rule ll_rep_del)
  show "ll_rep h L xs \<Longrightarrow> xs \<noteq> [] \<Longrightarrow> ll_next h h L = Some (hd xs)" by (rule ll_rep_ends)
  show "ll_rep h L xs \<Longrightarrow> xs \<noteq> [] \<Longrightarrow> ll_prev h h L = Some (last xs)" by (rule ll_rep_ends)
qed

end
