(* ===== verification/Da_Ring.thy ===== *)
theory Da_Ring
  imports Da_Builder Linked_List
begin

unbundle bit_operations_syntax

text \<open>
  The ring of the units that are not placed yet, of \<open>Da_Builder\<close>. The links of the extra units are
  seen as a store of links (\<open>Linked_List\<close>); a ring is a circular list whose first element is the head.
  \<open>unlink_ring\<close> and \<open>expand_ring\<close> say what \<^verbatim>\<open>reserve_id\<close> and \<^verbatim>\<open>expand_units\<close> do to
  it: the one takes an element out, the other adds a block of 256 at the end. Since the extra units are a window
  of 4096 that moves over the array, two identifiers in the window never share an extra unit.
\<close>

section \<open>Rings\<close>

definition ring :: "'a links \<Rightarrow> 'a list \<Rightarrow> bool" where
  "ring L xs \<longleftrightarrow> (case xs of [] \<Rightarrow> True | x # ys \<Rightarrow> ll_rep x L ys)"

lemma ring_simps [simp]: "ring L []" "ring L (x # ys) \<longleftrightarrow> ll_rep x L ys"
  by (simp_all add: ring_def)

lemma ring_distinct: "ring L xs \<Longrightarrow> distinct xs"
  by (cases xs) (auto simp: ll_rep_def)

lemma ring_cong:
  assumes "ring L xs" "\<And>x. x \<in> set xs \<Longrightarrow> nxt L' x = nxt L x \<and> prv L' x = prv L x"
  shows "ring L' xs"
proof (cases xs)
  case (Cons x ys)
  with assms(1) have l: "linked L x ys x" "distinct (x # ys)" by (auto simp: ll_rep_def)
  have "linked L' x ys x" by (rule linked_cong [OF l(1)]) (use assms(2) Cons in auto)
  with l(2) Cons show ?thesis by (simp add: ll_rep_def)
qed simp

lemma ring_del:
  assumes "ring L (xs @ i # ys)"
  shows "ring (ll_del i L) (xs @ ys)"
proof (cases xs)
  case Nil
  show ?thesis
  proof (cases ys)
    case (Cons y zs)
    with Nil assms have "ll_rep y L (zs @ [i])" by (auto simp: ll_rep_def)
    from ll_rep_del [OF this] show ?thesis using Nil Cons by simp
  qed (use Nil in simp)
next
  case (Cons x as)
  with assms have "ll_rep x L (as @ i # ys)" by simp
  from ll_rep_del [OF this] show ?thesis using Cons by simp
qed

lemma ring_neighbours:
  assumes "ring L xs" "i \<in> set xs"
  shows "nxt L i \<in> set xs" "prv L i \<in> set xs"
proof -
  have l: "linked L a ys b \<Longrightarrow> (\<forall>i \<in> set (a # ys). nxt L i \<in> set (b # ys)) \<and> (\<forall>i \<in> set (b # ys). prv L i \<in> set (a # ys))"
    for a ys b
    by (induction ys arbitrary: a) auto
  obtain x ys where xs: "xs = x # ys" using assms(2) by (cases xs) auto
  with assms(1) have "linked L x ys x" by (simp add: ll_rep_def)
  from l [OF this] assms(2) show "nxt L i \<in> set xs" "prv L i \<in> set xs" unfolding xs by auto
qed

lemma ring_next_head: "ring L (x # ys) \<Longrightarrow> nxt L x = hd (ys @ [x])" "ring L (x # ys) \<Longrightarrow> prv L x = last (x # ys)"
  by (auto simp: ll_rep_def dest: linked_ends)

lemma linked_nth:
  "linked L a xs b \<longleftrightarrow>
     (\<forall>j \<le> length xs. nxt L ((a # xs) ! j) = (xs @ [b]) ! j \<and> prv L ((xs @ [b]) ! j) = (a # xs) ! j)"
proof (induction xs arbitrary: a)
  case (Cons x xs)
  show ?case by (simp add: Cons.IH all_le_Suc conj_assoc)
qed simp

text \<open>The end of a chain is led elsewhere.\<close>

lemma linked_retarget:
  assumes "linked L a xs b" "distinct (a # xs)" "c \<notin> set xs" "nxt L' (last (a # xs)) = c" "prv L' c = last (a # xs)"
    "\<And>x. x \<in> set (a # xs) \<Longrightarrow> x \<noteq> last (a # xs) \<Longrightarrow> nxt L' x = nxt L x" "\<And>x. x \<in> set xs \<Longrightarrow> prv L' x = prv L x"
  shows "linked L' a xs c"
  using assms
proof (induction xs arbitrary: a)
  case (Cons x xs)
  have "a \<noteq> last (x # xs)" by (rule last_neq) (use Cons.prems in auto)
  moreover have "linked L' x xs c" by (rule Cons.IH) (use Cons.prems in auto)
  ultimately show ?case using Cons.prems by auto
qed simp

section \<open>The window of extra units\<close>

definition slot :: "id_type \<Rightarrow> nat" where
  "slot i = unat i mod 4096"

lemma slot_eq:
  assumes "w \<le> unat i" "unat i < w + 4096" "w \<le> unat j" "unat j < w + 4096"
  shows "slot i = slot j \<longleftrightarrow> i = j"
proof -
  have "m = n" if "m mod 4096 = n mod 4096" "m \<le> n" "n < m + 4096" for m n :: nat
  proof -
    from that(1,2) obtain s where "n = m + 4096 * s" by (rule mod_eq_nat2E)
    with that(3) show ?thesis by (cases s) auto
  qed
  from this [of "unat i" "unat j"] this [of "unat j" "unat i"] assms show ?thesis
    by (cases "unat i \<le> unat j") (auto simp: slot_def intro: word_unat_eq_iff [THEN iffD2])
qed

lemma extras_upd:
  assumes "length (b_extras b) = 4096"
  shows "extras (upd_extra i f b) j = (if slot j = slot i then f (extras b j) else extras b j)"
  using assms by (auto simp: extras_def upd_extra_def slot_def)

lemma upd_extra_fields [simp]:
  "b_units (upd_extra i f b) = b_units b" "b_labels (upd_extra i f b) = b_labels b"
  "b_table (upd_extra i f b) = b_table b" "b_head (upd_extra i f b) = b_head b"
  "length (b_extras (upd_extra i f b)) = length (b_extras b)"
  by (simp_all add: upd_extra_def)

lemma extras_fields [simp]:
  "extras (b\<lparr>b_units := us\<rparr>) = extras b" "extras (b\<lparr>b_labels := ls\<rparr>) = extras b"
  "extras (b\<lparr>b_table := t\<rparr>) = extras b" "extras (b\<lparr>b_head := h\<rparr>) = extras b"
  by (simp_all add: extras_def fun_eq_iff)

lemmas set_extra_defs = Da_Builder.set_next_def Da_Builder.set_prev_def set_is_fixed_def set_is_used_def

definition ring_links :: "DaBuilder \<Rightarrow> id_type links" where
  "ring_links b = \<lparr>nxt = \<lambda>i. e_next (extras b i), prv = \<lambda>i. e_prev (extras b i)\<rparr>"

lemma ring_links_simps [simp]:
  "nxt (ring_links b) i = e_next (extras b i)" "prv (ring_links b) i = e_prev (extras b i)"
  by (simp_all add: ring_links_def)

definition ring_ok :: "nat \<Rightarrow> DaBuilder \<Rightarrow> id_type list \<Rightarrow> bool" where
  "ring_ok w b xs \<longleftrightarrow>
     length (b_extras b) = 4096 \<and> length (b_units b) \<le> w + 4096 \<and> length (b_units b) \<le> 2 ^ 29 \<and>
     ring (ring_links b) xs \<and>
     set xs = {i. w \<le> unat i \<and> unat i < length (b_units b) \<and> \<not> e_fixed (extras b i)} \<and>
     b_head b = (case xs of [] \<Rightarrow> of_nat (length (b_units b)) | x # _ \<Rightarrow> x)"

section \<open>Taking a unit out\<close>

lemma unlink_extras:
  assumes "length (b_extras b) = 4096"
  shows "extras (unlink_id i b) j =
    \<lparr>e_prev = if slot j = slot (e_next (extras b i)) then e_prev (extras b i) else e_prev (extras b j),
     e_next = if slot j = slot (e_prev (extras b i)) then e_next (extras b i) else e_next (extras b j),
     e_fixed = (slot j = slot i \<or> e_fixed (extras b j)), e_used = e_used (extras b j)\<rparr>"
proof -
  obtain b1 where b1: "b1 = (if i = b_head b
      then b\<lparr>b_head := (if e_next (extras b i) = i then of_nat (length (b_units b)) else e_next (extras b i))\<rparr>
      else b)" by blast
  have e: "extras b1 = extras b" "length (b_extras b1) = 4096" using assms by (auto simp: b1 Let_def)
  have u: "unlink_id i b = (let b2 = Da_Builder.set_next (e_prev (extras b i)) (e_next (extras b i)) b1;
      b3 = Da_Builder.set_prev (e_next (extras b2 i)) (e_prev (extras b2 i)) b2 in set_is_fixed i True b3)"
    by (simp only: unlink_id_def Let_def b1 [symmetric] e)
  show ?thesis unfolding u Let_def
    by (rule extra_unit.equality) (simp_all add: set_extra_defs extras_upd e)
qed

lemma unlink_fields [simp]:
  "b_units (unlink_id i b) = b_units b" "b_labels (unlink_id i b) = b_labels b" "b_table (unlink_id i b) = b_table b"
  "length (b_extras (unlink_id i b)) = length (b_extras b)"
  by (simp_all add: unlink_id_def Let_def set_extra_defs)

lemma unlink_head:
  "b_head (unlink_id i b) = (if i \<noteq> b_head b then b_head b
     else if e_next (extras b i) = i then of_nat (length (b_units b)) else e_next (extras b i))"
  by (simp add: unlink_id_def Let_def set_extra_defs)

lemma ring_ok_slot:
  assumes "ring_ok w b xs" "i \<in> set xs" "j \<in> set xs"
  shows "slot i = slot j \<longleftrightarrow> i = j"
  using assms by (intro slot_eq [of w]) (auto simp: ring_ok_def)

lemma unlink_ring:
  assumes ok: "ring_ok w b xs" and i: "i \<in> set xs"
  shows "ring_ok w (unlink_id i b) (remove1 i xs)"
proof -
  have len: "length (b_extras b) = 4096" and r: "ring (ring_links b) xs"
    and s: "set xs = {i. w \<le> unat i \<and> unat i < length (b_units b) \<and> \<not> e_fixed (extras b i)}"
    and h: "b_head b = (case xs of [] \<Rightarrow> of_nat (length (b_units b)) | x # _ \<Rightarrow> x)"
    using ok by (auto simp: ring_ok_def)
  have d: "distinct xs" using r by (rule ring_distinct)
  obtain as bs where xs: "xs = as @ i # bs" using i by (auto simp: in_set_conv_decomp)
  have rem: "remove1 i xs = as @ bs" using d xs by (auto simp: remove1_append)
  let ?L = "ring_links b" and ?b = "unlink_id i b"
  note nb = ring_neighbours [OF r i]
  have "ring (ll_del i ?L) (as @ bs)" using ring_del [of ?L as i bs] r xs by simp
  then have ring': "ring (ring_links ?b) (as @ bs)"
  proof (rule ring_cong)
    fix x assume "x \<in> set (as @ bs)"
    then have x: "x \<in> set xs" unfolding xs by auto
    have "slot x = slot (prv ?L i) \<longleftrightarrow> x = prv ?L i" "slot x = slot (nxt ?L i) \<longleftrightarrow> x = nxt ?L i"
      using ring_ok_slot [OF ok x] nb by blast+
    then show "nxt (ring_links ?b) x = nxt (ll_del i ?L) x \<and> prv (ring_links ?b) x = prv (ll_del i ?L) x"
      by (simp add: unlink_extras [OF len] ll_ops_splice(4) unsplice_def)
  qed
  have set': "set (as @ bs) = {j. w \<le> unat j \<and> unat j < length (b_units ?b) \<and> \<not> e_fixed (extras ?b j)}"
  proof -
    have "set (as @ bs) = set xs - {i}" using d xs by auto
    moreover have "slot j = slot i \<longleftrightarrow> j = i" if "w \<le> unat j" "unat j < length (b_units b)" for j
      using ok i that by (intro slot_eq [of w]) (auto simp: ring_ok_def)
    ultimately show ?thesis unfolding s by (auto simp: unlink_extras [OF len])
  qed
  have head': "b_head ?b = (case as @ bs of [] \<Rightarrow> of_nat (length (b_units ?b)) | x # _ \<Rightarrow> x)"
  proof (cases as)
    case Nil
    then have "b_head b = i" "nxt ?L i = hd (bs @ [i])" using h xs ring_next_head(1) [of ?L i bs] r by simp_all
    then show ?thesis using Nil d xs by (cases bs) (auto simp: unlink_head)
  next
    case (Cons x zs)
    then have "b_head b = x" "x \<noteq> i" using h d xs by auto
    with Cons show ?thesis by (simp add: unlink_head)
  qed
  show ?thesis unfolding ring_ok_def rem using ok ring' set' head' by (simp add: ring_ok_def)
qed

section \<open>Adding a block\<close>

abbreviation new_id :: "nat \<Rightarrow> nat \<Rightarrow> id_type" where
  "new_id src t \<equiv> of_nat (src + t)"

lemma unat_new_id: "src + t < 4294967296 \<Longrightarrow> unat (new_id src t) = src + t"
  by (rule unat_of_nat_less)

lemma distinct_new_ids:
  assumes "src + 256 < 4294967296"
  shows "distinct (map (new_id src) [0..<256])"
proof -
  have "t = u" if "t < 256" "u < 256" "new_id src t = new_id src u" for t u
  proof -
    have "unat (new_id src t) = src + t" "unat (new_id src u) = src + u"
      by (rule unat_new_id, use assms that in linarith)+
    with that(3) show ?thesis by simp
  qed
  then show ?thesis unfolding distinct_map by (simp add: inj_on_def del: of_nat_add)
qed

lemma slot_new_id:
  assumes "src + 256 < 4294967296" "t < 256" "u < 256"
  shows "slot (new_id src t) = slot (new_id src u) \<longleftrightarrow> t = u"
proof -
  have u: "unat (new_id src t) = src + t" "unat (new_id src u) = src + u"
    by (rule unat_new_id, use assms in linarith)+
  have "slot (new_id src t) = slot (new_id src u) \<longleftrightarrow> new_id src t = new_id src u"
    by (rule slot_eq [of src]) (use u assms in auto)
  also have "\<dots> \<longleftrightarrow> unat (new_id src t) = unat (new_id src u)" by (rule word_unat_eq_iff)
  also have "\<dots> \<longleftrightarrow> t = u" unfolding u by simp
  finally show ?thesis .
qed

lemma reset_extras:
  assumes "length (b_extras b) = 4096"
  shows "length (b_extras (fold (\<lambda>i b. set_is_fixed i False (set_is_used i False b)) is b)) = 4096 \<and>
    extras (fold (\<lambda>i b. set_is_fixed i False (set_is_used i False b)) is b) j =
      (if slot j \<in> slot ` set is then (extras b j)\<lparr>e_fixed := False, e_used := False\<rparr> else extras b j)"
  using assms
proof (induction "is" arbitrary: b)
  case (Cons i "is")
  have "length (b_extras (set_is_fixed i False (set_is_used i False b))) = 4096"
    using Cons.prems by (simp add: set_extra_defs)
  from Cons.IH [OF this] show ?case using Cons.prems by (auto simp: set_extra_defs extras_upd)
qed simp

lemma reset_fields [simp]:
  "b_units (fold (\<lambda>i b. set_is_fixed i False (set_is_used i False b)) is b) = b_units b"
  "b_labels (fold (\<lambda>i b. set_is_fixed i False (set_is_used i False b)) is b) = b_labels b"
  "b_table (fold (\<lambda>i b. set_is_fixed i False (set_is_used i False b)) is b) = b_table b"
  "b_head (fold (\<lambda>i b. set_is_fixed i False (set_is_used i False b)) is b) = b_head b"
  by (induction "is" arbitrary: b) (simp_all add: set_extra_defs)

lemma link_new_fields [simp]:
  "b_units (link_new src b) = b_units b" "b_labels (link_new src b) = b_labels b"
  "b_table (link_new src b) = b_table b" "b_head (link_new src b) = b_head b"
  "length (b_extras (link_new src b)) = length (b_extras b)"
proof -
  have "b_units (fold (\<lambda>i b. Da_Builder.set_prev (of_nat i) (of_nat (i - 1)) (Da_Builder.set_next (of_nat (i - 1)) (of_nat i) b)) is b) = b_units b \<and>
    b_labels (fold (\<lambda>i b. Da_Builder.set_prev (of_nat i) (of_nat (i - 1)) (Da_Builder.set_next (of_nat (i - 1)) (of_nat i) b)) is b) = b_labels b \<and>
    b_table (fold (\<lambda>i b. Da_Builder.set_prev (of_nat i) (of_nat (i - 1)) (Da_Builder.set_next (of_nat (i - 1)) (of_nat i) b)) is b) = b_table b \<and>
    b_head (fold (\<lambda>i b. Da_Builder.set_prev (of_nat i) (of_nat (i - 1)) (Da_Builder.set_next (of_nat (i - 1)) (of_nat i) b)) is b) = b_head b \<and>
    length (b_extras (fold (\<lambda>i b. Da_Builder.set_prev (of_nat i) (of_nat (i - 1)) (Da_Builder.set_next (of_nat (i - 1)) (of_nat i) b)) is b)) = length (b_extras b)"
    for "is"
    by (induction "is" arbitrary: b) (simp_all add: set_extra_defs)
  then show "b_units (link_new src b) = b_units b" "b_labels (link_new src b) = b_labels b"
    "b_table (link_new src b) = b_table b" "b_head (link_new src b) = b_head b"
    "length (b_extras (link_new src b)) = length (b_extras b)"
    by (simp_all add: link_new_def)
qed

lemma link_new_extras:
  assumes len: "length (b_extras b) = 4096" and src: "src + 256 < 4294967296"
  shows "t < 255 \<Longrightarrow> e_next (extras (link_new src b) (new_id src t)) = new_id src (Suc t)"
    and "t < 255 \<Longrightarrow> e_prev (extras (link_new src b) (new_id src (Suc t))) = new_id src t"
    and "e_fixed (extras (link_new src b) j) = e_fixed (extras b j)"
    and "e_used (extras (link_new src b) j) = e_used (extras b j)"
    and "slot j \<notin> (\<lambda>t. slot (new_id src t)) ` {..<256} \<Longrightarrow> extras (link_new src b) j = extras b j"
proof -
  let ?f = "\<lambda>i b. Da_Builder.set_prev (of_nat i) (of_nat (i - 1)) (Da_Builder.set_next (of_nat (i - 1)) (of_nat i) b)"
  let ?b = "\<lambda>m. fold ?f [src + 1..<src + 1 + m] b"
  have main: "length (b_extras (?b m)) = 4096 \<and>
      (\<forall>t < m. e_next (extras (?b m) (new_id src t)) = new_id src (Suc t) \<and>
        e_prev (extras (?b m) (new_id src (Suc t))) = new_id src t) \<and>
      (\<forall>j. e_fixed (extras (?b m) j) = e_fixed (extras b j) \<and> e_used (extras (?b m) j) = e_used (extras b j) \<and>
        (slot j \<notin> (\<lambda>t. slot (new_id src t)) ` {..<256} \<longrightarrow> extras (?b m) j = extras b j))"
    if "m \<le> 255" for m
    using that
  proof (induction m)
    case (Suc m)
    obtain c where c: "c = ?b m" by blast
    have IH: "length (b_extras c) = 4096"
      "\<And>t. t < m \<Longrightarrow> e_next (extras c (new_id src t)) = new_id src (Suc t) \<and> e_prev (extras c (new_id src (Suc t))) = new_id src t"
      "\<And>j. e_fixed (extras c j) = e_fixed (extras b j) \<and> e_used (extras c j) = e_used (extras b j) \<and>
        (slot j \<notin> (\<lambda>t. slot (new_id src t)) ` {..<256} \<longrightarrow> extras c j = extras b j)"
      using Suc unfolding c by auto
    have "?b (Suc m) = ?f (src + Suc m) c" unfolding c by simp
    then have b: "?b (Suc m) = Da_Builder.set_prev (new_id src (Suc m)) (new_id src m)
        (Da_Builder.set_next (new_id src m) (new_id src (Suc m)) c)" by simp
    have sl: "slot (new_id src t) = slot (new_id src u) \<longleftrightarrow> t = u" if "t < 256" "u < 256" for t u
      using slot_new_id [OF src that] .
    have mem: "slot (new_id src t) \<in> (\<lambda>t. slot (new_id src t)) ` {..<256}" if "t < 256" for t using that by blast
    show ?case unfolding b
    proof (intro conjI allI impI)
      fix t assume "t < Suc m"
      then have t: "t < m \<or> t = m" by auto
      show "e_next (extras (Da_Builder.set_prev (new_id src (Suc m)) (new_id src m)
          (Da_Builder.set_next (new_id src m) (new_id src (Suc m)) c)) (new_id src t)) = new_id src (Suc t)"
        using t sl [of t m] Suc.prems IH(2) by (auto simp: set_extra_defs extras_upd IH(1) simp del: of_nat_add of_nat_Suc)
      show "e_prev (extras (Da_Builder.set_prev (new_id src (Suc m)) (new_id src m)
          (Da_Builder.set_next (new_id src m) (new_id src (Suc m)) c)) (new_id src (Suc t))) = new_id src t"
        using t sl [of "Suc t" "Suc m"] Suc.prems IH(2) by (auto simp: set_extra_defs extras_upd IH(1) simp del: of_nat_add of_nat_Suc)
    next
      fix j
      assume "slot j \<notin> (\<lambda>t. slot (new_id src t)) ` {..<256}"
      moreover from this have "slot j \<noteq> slot (new_id src m)" "slot j \<noteq> slot (new_id src (Suc m))"
        using mem [of m] mem [of "Suc m"] Suc.prems by auto
      ultimately show "extras (Da_Builder.set_prev (new_id src (Suc m)) (new_id src m)
          (Da_Builder.set_next (new_id src m) (new_id src (Suc m)) c)) j = extras b j"
        using IH(3) by (simp add: set_extra_defs extras_upd IH(1) del: of_nat_add of_nat_Suc)
    qed (use IH(1,3) in \<open>simp_all add: set_extra_defs extras_upd IH(1) del: of_nat_add of_nat_Suc\<close>)
  qed (simp add: len)
  have "src + 256 = src + 1 + 255" by simp
  then have "link_new src b = ?b 255" unfolding link_new_def by (rule arg_cong)
  with main [of 255] show "t < 255 \<Longrightarrow> e_next (extras (link_new src b) (new_id src t)) = new_id src (Suc t)"
    "t < 255 \<Longrightarrow> e_prev (extras (link_new src b) (new_id src (Suc t))) = new_id src t"
    "e_fixed (extras (link_new src b) j) = e_fixed (extras b j)" "e_used (extras (link_new src b) j) = e_used (extras b j)"
    "slot j \<notin> (\<lambda>t. slot (new_id src t)) ` {..<256} \<Longrightarrow> extras (link_new src b) j = extras b j"
    by (auto simp del: of_nat_add of_nat_Suc)
qed

lemma close_ring_extras:
  fixes b4 :: DaBuilder and s e :: id_type
  assumes len: "length (b_extras b4) = 4096" and se: "slot s \<noteq> slot e"
  defines "b6 \<equiv> Da_Builder.set_next e s (Da_Builder.set_prev s e b4)"
  defines "b8 \<equiv> Da_Builder.set_next e (b_head b6) (Da_Builder.set_prev s (e_prev (extras b6 (b_head b6))) b6)"
  defines "b' \<equiv> Da_Builder.set_prev (b_head b8) e (Da_Builder.set_next (e_prev (extras b8 (b_head b8))) s b8)"
  defines "h \<equiv> b_head b4"
  defines "p \<equiv> (if slot h = slot s then e else e_prev (extras b4 h))"
  shows "e_next (extras b' j) = (if slot j = slot p then s else if slot j = slot e then h else e_next (extras b4 j))"
    and "e_prev (extras b' j) = (if slot j = slot h then e else if slot j = slot s then p else e_prev (extras b4 j))"
    and "e_fixed (extras b' j) = e_fixed (extras b4 j)" and "e_used (extras b' j) = e_used (extras b4 j)"
    and "length (b_extras b') = 4096" and "b_head b' = b_head b4" and "b_units b' = b_units b4"
    and "b_labels b' = b_labels b4" and "b_table b' = b_table b4"
proof -
  have b6: "b_head b6 = h" "length (b_extras b6) = 4096"
    using len by (simp_all add: b6_def h_def set_extra_defs)
  have p6: "e_prev (extras b6 h) = p" using len by (simp add: b6_def p_def h_def set_extra_defs extras_upd)
  have b8: "b8 = Da_Builder.set_next e h (Da_Builder.set_prev s p b6)" unfolding b8_def b6 p6 ..
  have h8: "b_head b8 = h" "length (b_extras b8) = 4096" using b6 by (simp_all add: b8 set_extra_defs)
  have p8: "e_prev (extras b8 h) = p" using b6 p6 by (simp add: b8 set_extra_defs extras_upd)
  have b': "b' = Da_Builder.set_prev h e (Da_Builder.set_next p s b8)" unfolding b'_def h8 p8 ..
  show "e_next (extras b' j) = (if slot j = slot p then s else if slot j = slot e then h else e_next (extras b4 j))"
    "e_prev (extras b' j) = (if slot j = slot h then e else if slot j = slot s then p else e_prev (extras b4 j))"
    "e_fixed (extras b' j) = e_fixed (extras b4 j)" "e_used (extras b' j) = e_used (extras b4 j)"
    "length (b_extras b') = 4096" "b_head b' = b_head b4" "b_units b' = b_units b4"
    "b_labels b' = b_labels b4" "b_table b' = b_table b4"
    unfolding b' b8 b6_def by (simp_all add: set_extra_defs extras_upd len)
qed

lemma head_set_links: "b_head (Da_Builder.set_next i n b) = b_head b" "b_head (Da_Builder.set_prev i n b) = b_head b"
  by (simp_all add: set_extra_defs)

lemma add_block_ring:
  assumes ok: "ring_ok w b xs" and src: "src = length (b_units b)" and room: "src + 256 \<le> w + 4096" "src + 256 \<le> 2 ^ 29"
    and w: "w \<le> src"
    and fresh: "full \<or> (\<forall>t < 256. \<not> e_fixed (extras b (new_id src t)) \<and> \<not> e_used (extras b (new_id src t)))"
  shows "ring_ok w (add_block full src b) (xs @ map (new_id src) [0..<256])"
    and "b_units (add_block full src b) = b_units b @ replicate 256 0"
    and "b_labels (add_block full src b) = b_labels b" and "b_table (add_block full src b) = b_table b"
    and "\<And>t. t < 256 \<Longrightarrow> \<not> e_used (extras (add_block full src b) (new_id src t))"
    and "\<And>j. slot j \<notin> (\<lambda>t. slot (new_id src t)) ` {..<256} \<Longrightarrow>
      e_used (extras (add_block full src b) j) = e_used (extras b j) \<and>
      e_fixed (extras (add_block full src b) j) = e_fixed (extras b j)"
proof -
  let ?ns = "map (new_id src) [0..<256]" and ?S = "(\<lambda>t. slot (new_id src t)) ` {..<256}"
  let ?s = "of_nat src :: id_type" and ?e = "of_nat (src + 256 - 1) :: id_type"
  have small: "src + 256 < 4294967296" using room(2) by simp
  have len: "length (b_extras b) = 4096" using ok by (simp add: ring_ok_def)
  have se: "?s = new_id src 0" "?e = new_id src 255" by simp_all
  have sl: "slot (new_id src t) = slot (new_id src u) \<longleftrightarrow> t = u" if "t < 256" "u < 256" for t u
    using slot_new_id [OF small that] .
  have un: "unat (new_id src t) = src + t" if "t < 256" for t by (rule unat_new_id) (use small that in linarith)
  have ns: "map of_nat [src..<src + 256] = ?ns" by (rule nth_equalityI) simp_all
  have slots: "slot ` set ?ns = ?S" by (simp add: image_image atLeast0LessThan)
  let ?b2 = "b\<lparr>b_units := b_units b @ replicate 256 0\<rparr>"
  obtain b3 where b3: "b3 = (if full then fold (\<lambda>i b. set_is_fixed i False (set_is_used i False b)) ?ns ?b2 else ?b2)" by blast
  have l2: "length (b_extras ?b2) = 4096" using len by simp
  have f3: "b_units b3 = b_units b @ replicate 256 0" "b_labels b3 = b_labels b" "b_table b3 = b_table b"
    "b_head b3 = b_head b" "length (b_extras b3) = 4096"
    using reset_extras [OF l2] len by (auto simp: b3)
  have e3: "slot j \<notin> ?S \<Longrightarrow> extras b3 j = extras b j" for j
    using conjunct2 [OF reset_extras [OF l2, of ?ns j]] unfolding b3 slots by (simp del: set_map)
  have n3: "\<not> e_fixed (extras b3 (new_id src t)) \<and> \<not> e_used (extras b3 (new_id src t))" if "t < 256" for t
    using conjunct2 [OF reset_extras [OF l2, of ?ns "new_id src t"]] fresh that unfolding b3 slots
    by (auto simp del: set_map of_nat_add)
  obtain b4 where b4: "b4 = link_new src b3" by blast
  have f4: "b_units b4 = b_units b @ replicate 256 0" "b_labels b4 = b_labels b" "b_table b4 = b_table b"
    "b_head b4 = b_head b" "length (b_extras b4) = 4096" using f3 by (simp_all add: b4)
  note e4 = link_new_extras [OF f3(5) small, folded b4]
  have se': "slot ?s \<noteq> slot ?e" unfolding se by (subst sl) simp_all
  note close = close_ring_extras [OF f4(5) se', unfolded f4(4)]
  let ?b = "add_block full src b"
  have eq: "?b = (let b6 = Da_Builder.set_next ?e ?s (Da_Builder.set_prev ?s ?e b4);
        b8 = Da_Builder.set_next ?e (b_head b6) (Da_Builder.set_prev ?s (e_prev (extras b6 (b_head b6))) b6)
      in Da_Builder.set_prev (b_head b8) ?e (Da_Builder.set_next (e_prev (extras b8 (b_head b8))) ?s b8))"
    unfolding add_block_def b4 b3 by (simp only: Let_def ns head_set_links)
  show "b_units ?b = b_units b @ replicate 256 0" "b_labels ?b = b_labels b" "b_table ?b = b_table b"
    unfolding eq Let_def using close f4 by simp_all
  note nxt_b = close(1) [folded eq [unfolded Let_def]] and prv_b = close(2) [folded eq [unfolded Let_def]]
    and flags = close(3,4) [folded eq [unfolded Let_def]] and rest = close(5,6) [folded eq [unfolded Let_def]]
  show "\<not> e_used (extras ?b (new_id src t))" if "t < 256" for t
    using n3 [OF that] by (simp add: flags e4(4) del: of_nat_add)
  show "e_used (extras ?b j) = e_used (extras b j) \<and> e_fixed (extras ?b j) = e_fixed (extras b j)" if "slot j \<notin> ?S" for j
    using e3 [OF that] by (simp add: flags e4(3,4))
  let ?L = "ring_links ?b" and ?h = "b_head b" and ?tl = "map (new_id src) [1..<256]"
  obtain p where p: "p = (if slot ?h = slot ?s then ?e else e_prev (extras b4 ?h))" by blast
  note nxt_b = nxt_b [folded p] and prv_b = prv_b [folded p]
  have nl: "?ns = ?s # ?tl" by (subst upt_conv_Cons) simp_all
  have old: "slot j \<notin> ?S" if "w \<le> unat j" "unat j < src" for j
  proof
    assume "slot j \<in> ?S"
    then obtain t where t: "t < 256" "slot j = slot (new_id src t)" by auto
    then have "j = new_id src t" using slot_eq [of w j "new_id src t"] un [OF t(1)] that room(1) by simp
    with un [OF t(1)] that(2) show False by simp
  qed
  have xs: "set xs = {i. w \<le> unat i \<and> unat i < src \<and> \<not> e_fixed (extras b i)}" and r: "ring (ring_links b) xs"
    and h: "?h = (case xs of [] \<Rightarrow> ?s | x # _ \<Rightarrow> x)" using ok unfolding ring_ok_def src [symmetric] by blast+
  have inS: "slot (new_id src t) \<in> ?S" if "t < 256" for t using that by blast
  have tl: "linked ?L ?s ?tl ?h" if n: "\<And>t. 0 < t \<Longrightarrow> t < 256 \<Longrightarrow> slot (new_id src t) \<noteq> slot ?h"
    "\<And>t. t < 255 \<Longrightarrow> slot (new_id src t) \<noteq> slot p" "slot ?e = slot p \<Longrightarrow> ?s = ?h"
    unfolding linked_nth
  proof (intro allI impI)
    fix j assume j: "j \<le> length ?tl"
    have a: "(?s # ?tl) ! j = new_id src j" using j unfolding nl [symmetric] by simp
    have c: "(?tl @ [?h]) ! j = (if j < 255 then new_id src (Suc j) else ?h)" using j by (auto simp: nth_append)
    show "nxt ?L ((?s # ?tl) ! j) = (?tl @ [?h]) ! j \<and> prv ?L ((?tl @ [?h]) ! j) = (?s # ?tl) ! j"
    proof (cases "j < 255")
      case True
      then have "slot (new_id src j) \<noteq> slot ?e" "slot (new_id src (Suc j)) \<noteq> slot ?s"
        unfolding se by (subst sl; simp)+
      with True n(1) [of "Suc j"] n(2) [OF True] e4(1,2) [OF True] show ?thesis unfolding a c
        by (simp add: nxt_b prv_b del: of_nat_add of_nat_Suc)
    next
      case False
      then have "j = 255" using j by simp
      then have a: "(?s # ?tl) ! j = ?e" and c: "(?tl @ [?h]) ! j = ?h" unfolding a c se(2) by simp_all
      show ?thesis unfolding a c using n(3) by (simp add: nxt_b prv_b del: of_nat_add)
    qed
  qed
  have "ring ?L (xs @ ?ns)"
  proof (cases xs)
    case Nil
    then have hs: "?h = ?s" "p = ?e" using h by (simp_all add: p)
    have "linked ?L ?s ?tl ?h"
    proof (rule tl)
      show "slot (new_id src t) \<noteq> slot ?h" if "0 < t" "t < 256" for t
        using sl [of t 0] that unfolding hs se by simp
      show "slot (new_id src t) \<noteq> slot p" if "t < 255" for t
        using sl [of t 255] that unfolding hs se by simp
    qed (rule hs(1) [symmetric])
    moreover have "distinct ?ns" by (rule distinct_new_ids [OF small])
    ultimately show ?thesis using Nil hs unfolding nl by (simp add: ll_rep_def)
  next
    case (Cons x ys)
    then have hx: "?h = x" using h by simp
    have l: "linked (ring_links b) x ys x" "distinct (x # ys)" using r Cons by (auto simp: ll_rep_def)
    have xo: "slot z \<notin> ?S" if "z \<in> set (x # ys)" for z
      by (rule old) (use that xs Cons in auto)
    have sx: "slot ?s \<noteq> slot z" "slot ?e \<noteq> slot z" if "z \<in> set (x # ys)" for z
      using xo [OF that] inS [of 0] inS [of 255] unfolding se by auto
    have "e_prev (extras b4 x) = last (x # ys)"
      using linked_ends(2) [OF l(1)] e4(5) [OF xo [of x]] e3 [OF xo [of x]] by simp
    then have pl: "p = last (x # ys)" using sx(1) [of x] by (simp add: p hx)
    have pm: "p \<in> set (x # ys)" unfolding pl by (rule last_in_set) simp
    have same: "slot z = slot y \<longleftrightarrow> z = y" if "z \<in> set (x # ys)" "y \<in> set (x # ys)" for z y
      using ring_ok_slot [OF ok] that Cons by simp
    have b4: "extras b4 z = extras b z" if "z \<in> set (x # ys)" for z
      using e4(5) [OF xo [OF that]] e3 [OF xo [OF that]] by simp
    have "linked ?L x ys ?s"
    proof (rule linked_retarget [OF l])
      show "?s \<notin> set ys" using sx(1) by auto
      show "nxt ?L (last (x # ys)) = ?s" unfolding pl [symmetric] by (simp add: nxt_b)
      show "prv ?L ?s = last (x # ys)" unfolding pl [symmetric] using sx(1) [of x] by (simp add: prv_b hx)
      show "nxt ?L z = nxt (ring_links b) z" if "z \<in> set (x # ys)" "z \<noteq> last (x # ys)" for z
        using that same [OF that(1) pm] sx(2) [OF that(1)] b4 [OF that(1)] unfolding pl [symmetric] by (simp add: nxt_b)
      show "prv ?L z = prv (ring_links b) z" if z: "z \<in> set ys" for z
        using same [of z x] sx(1) [of z] b4 [of z] l(2) z by (auto simp: prv_b hx)
    qed
    moreover have "linked ?L ?s ?tl ?h"
    proof (rule tl)
      show "slot (new_id src t) \<noteq> slot ?h" if "0 < t" "t < 256" for t
        using xo [of x] inS [OF that(2)] hx by (auto simp del: of_nat_add)
      show "slot (new_id src t) \<noteq> slot p" if "t < 255" for t
        proof -
        have "slot (new_id src t) \<in> ?S" by (rule inS) (use that in simp)
        with xo [OF pm] show ?thesis by (auto simp del: of_nat_add)
      qed
      show "slot ?e = slot p \<Longrightarrow> ?s = ?h" using sx(2) [OF pm] by simp
    qed
    moreover have "distinct (xs @ ?ns)"
    proof -
      have "distinct ?ns" by (rule distinct_new_ids [OF small])
      moreover have "set xs \<inter> set ?ns = {}"
      proof (rule equals0I)
        fix z assume z: "z \<in> set xs \<inter> set ?ns"
        then have "slot z \<in> slot ` set ?ns" by blast
        with xo [of z] z Cons show False unfolding slots by blast
      qed
      ultimately show ?thesis using l(2) Cons by simp
    qed
    ultimately show ?thesis using Cons hx unfolding nl by (simp add: ll_rep_def)
  qed
  moreover have "set (xs @ ?ns) = {i. w \<le> unat i \<and> unat i < length (b_units ?b) \<and> \<not> e_fixed (extras ?b i)}"
  proof -
    have u: "length (b_units ?b) = src + 256" using \<open>b_units ?b = _\<close> src by simp
    have "e_fixed (extras ?b i) = e_fixed (extras b i)" if "w \<le> unat i" "unat i < src" for i
      using e3 [OF old [OF that]] by (simp add: flags e4(3))
    moreover have "i \<in> set ?ns \<longleftrightarrow> src \<le> unat i \<and> unat i < src + 256" for i
    proof
      assume "src \<le> unat i \<and> unat i < src + 256"
      then have "i = new_id src (unat i - src)" "unat i - src < 256" by auto
      then show "i \<in> set ?ns" by auto
    qed (use un in \<open>auto simp del: of_nat_add\<close>)
    moreover have "\<not> e_fixed (extras ?b i)" if "i \<in> set ?ns" for i
      using n3 that by (auto simp: flags e4(3) simp del: of_nat_add)
    ultimately show ?thesis using w unfolding u set_append xs by (auto simp del: set_map)
  qed
  moreover have "b_head ?b = (case xs @ ?ns of [] \<Rightarrow> of_nat (length (b_units ?b)) | x # _ \<Rightarrow> x)"
    using rest(2) h unfolding nl by (cases xs) simp_all
  moreover have "length (b_units ?b) = src + 256" using \<open>b_units ?b = _\<close> src by simp
  then have "length (b_units ?b) \<le> w + 4096" "length (b_units ?b) \<le> 2 ^ 29" using room by simp_all
  ultimately show "ring_ok w ?b (xs @ ?ns)" unfolding ring_ok_def using rest(1) by blast
qed

end
