(* ===== verification/Da_Units.thy ===== *)
theory Da_Units
  imports Da_Builder
begin

unbundle bit_operations_syntax

text \<open>
  The units of the double array as \<open>Da_Builder\<close> writes them and \<open>Double_Array\<close> reads them: setting a
  part of a unit keeps the other parts, and an offset that can be encoded is read back. An offset has 29 bits
  when its lowest 8 bits are 0 and 21 bits otherwise.
\<close>

section \<open>Bits of the masks\<close>

lemma bit_small_word:
  assumes "unat (w :: 'a :: len word) < 2 ^ m" "m \<le> k"
  shows "\<not> bit w k"
proof
  assume "bit w k"
  then have "bit (unat w) k" by (simp add: bit_simps bit_imp_le_length)
  moreover have "take_bit m (unat w) = unat w" using assms by (simp add: take_bit_nat_eq_self)
  then have "\<not> bit (unat w) k" using assms(2) by (metis bit_take_bit_iff not_le)
  ultimately show False by simp
qed

lemma bit_flag: "bit (push_bit m 1 :: id_type) n \<longleftrightarrow> n = m \<and> m < 32"
  by (simp only: bit_push_bit_iff bit_1_iff) (auto dest: bit_imp_le_length)

lemma bit_byte_mask: "bit (0xFF :: id_type) n \<longleftrightarrow> n < 8"
proof -
  have "(0xFF :: id_type) = mask 8" by (simp add: mask_eq_exp_minus_1)
  then show ?thesis by (simp only: bit_mask_iff) auto
qed

lemma bit_flags:
  "bit (0x100 :: id_type) n \<longleftrightarrow> n = 8" "bit (0x200 :: id_type) n \<longleftrightarrow> n = 9" "bit (0x80000000 :: id_type) n \<longleftrightarrow> n = 31"
proof -
  have "(0x100 :: id_type) = push_bit 8 1" "(0x200 :: id_type) = push_bit 9 1" "(0x80000000 :: id_type) = push_bit 31 1"
    by simp_all
  then show "bit (0x100 :: id_type) n \<longleftrightarrow> n = 8" "bit (0x200 :: id_type) n \<longleftrightarrow> n = 9"
    "bit (0x80000000 :: id_type) n \<longleftrightarrow> n = 31" by (simp_all only: bit_flag) auto
qed

lemma bit_masks:
  "bit (0x7FFFFFFF :: id_type) n \<longleftrightarrow> n < 31" "bit (0x1FE00000 :: id_type) n \<longleftrightarrow> 21 \<le> n \<and> n < 29"
  "bit (0x800000FF :: id_type) n \<longleftrightarrow> n < 8 \<or> n = 31" "bit (0x800001FF :: id_type) n \<longleftrightarrow> n \<le> 8 \<or> n = 31"
proof -
  have "(0x7FFFFFFF :: id_type) = mask 31" "(0x1FE00000 :: id_type) = push_bit 21 0xFF"
    "(0x800000FF :: id_type) = 0x80000000 OR 0xFF" "(0x800001FF :: id_type) = 0x80000000 OR (0x100 OR 0xFF)"
    by (simp_all add: mask_eq_exp_minus_1)
  note e = this
  show "bit (0x7FFFFFFF :: id_type) n \<longleftrightarrow> n < 31" unfolding e(1) by (simp only: bit_mask_iff) auto
  show "bit (0x1FE00000 :: id_type) n \<longleftrightarrow> 21 \<le> n \<and> n < 29"
    unfolding e(2) by (simp only: bit_push_bit_iff bit_byte_mask) auto
  show "bit (0x800000FF :: id_type) n \<longleftrightarrow> n < 8 \<or> n = 31"
    unfolding e(3) by (simp only: bit_or_iff bit_byte_mask bit_flags) auto
  show "bit (0x800001FF :: id_type) n \<longleftrightarrow> n \<le> 8 \<or> n = 31"
    unfolding e(4) by (simp only: bit_or_iff bit_byte_mask bit_flags) auto
qed

declare bit_numeral_word_iff [simp del]

lemmas bit_consts = bit_byte_mask bit_flags bit_masks

lemma bit_LOWER: "bit LOWER_MASK n \<longleftrightarrow> n < 8"
  unfolding LOWER_MASK_def by (rule bit_byte_mask)

lemma bit_UPPER: "bit UPPER_MASK n \<longleftrightarrow> 21 \<le> n \<and> n < 29"
  unfolding UPPER_MASK_def by (simp add: bit_consts)

lemma has_leaf_bit: "has_leaf u \<longleftrightarrow> bit u 8"
proof -
  have "w AND 1 = (1 :: id_type) \<longleftrightarrow> bit w 0" for w
    by (simp add: and_one_eq bit_0 odd_iff_mod_2_eq_one)
  then show ?thesis by (simp add: has_leaf_def bit_simps)
qed

lemma bit_unit_label: "bit (unit_label u) n \<longleftrightarrow> bit u n \<and> (n < 8 \<or> n = 31)"
  by (auto simp: unit_label_def bit_and_iff bit_consts)

lemma bit_byte: "bit (ucast (l :: uchar_type) :: id_type) n \<longleftrightarrow> n < 8 \<and> bit l n"
  by (auto simp: bit_ucast_iff dest: bit_imp_le_length)

definition is_node :: "unit32 \<Rightarrow> bool" where
  "is_node u \<longleftrightarrow> \<not> bit u 31"

definition encodable :: "id_type \<Rightarrow> bool" where
  "encodable off \<longleftrightarrow> off AND UPPER_MASK = 0 \<or> off AND LOWER_MASK = 0"

lemma and_eq_0_bits: "w AND m = 0 \<longleftrightarrow> (\<forall>n. bit m n \<longrightarrow> \<not> bit w n)" for w :: "'a :: len word"
  unfolding bit_eq_iff by (auto simp: bit_and_iff dest: bit_imp_le_length)

lemma encodable_bits:
  "encodable off \<longleftrightarrow> (\<forall>n. 21 \<le> n \<longrightarrow> n < 29 \<longrightarrow> \<not> bit off n) \<or> (\<forall>n < 8. \<not> bit off n)"
  unfolding encodable_def and_eq_0_bits bit_LOWER bit_UPPER by auto

section \<open>Setting the parts of a unit\<close>

lemma set_label_unit:
  assumes "is_node u"
  shows "unit_label (bu_set_label l u) = ucast l" "is_node (bu_set_label l u)" "has_leaf (bu_set_label l u) = has_leaf u"
proof -
  have b: "bit (bu_set_label l u) n \<longleftrightarrow> (if n < 8 then bit l n else bit u n)" for n
    by (auto simp: bu_set_label_def bit_simps bit_consts bit_byte dest: bit_imp_le_length)
  show "unit_label (bu_set_label l u) = ucast l"
    using assms by (intro bit_word_eqI) (auto simp: bit_unit_label bit_byte b is_node_def)
  show "is_node (bu_set_label l u)" using assms by (simp add: is_node_def b)
  show "has_leaf (bu_set_label l u) = has_leaf u" by (simp add: has_leaf_bit b)
qed

lemma set_leaf_unit:
  "unit_label (bu_set_has_leaf True u) = unit_label u" "unit_offset (bu_set_has_leaf True u) = unit_offset u"
  "has_leaf (bu_set_has_leaf True u)" "is_node (bu_set_has_leaf True u) = is_node u"
proof -
  have b: "bit (bu_set_has_leaf True u) n \<longleftrightarrow> n = 8 \<or> bit u n" for n
    by (auto simp: bu_set_has_leaf_def bit_or_iff bit_consts)
  show "unit_label (bu_set_has_leaf True u) = unit_label u"
    by (intro bit_word_eqI) (auto simp: bit_unit_label b)
  have "bu_set_has_leaf True u AND 0x200 = u AND 0x200"
    by (rule bit_word_eqI) (auto simp: bit_and_iff b bit_consts)
  moreover have "drop_bit 10 (bu_set_has_leaf True u) = drop_bit 10 u"
    by (rule bit_word_eqI) (simp add: bit_drop_bit_eq b)
  ultimately show "unit_offset (bu_set_has_leaf True u) = unit_offset u" by (simp add: unit_offset_def)
  show "has_leaf (bu_set_has_leaf True u)" by (simp add: has_leaf_bit b)
  show "is_node (bu_set_has_leaf True u) = is_node u" by (simp add: is_node_def b)
qed

lemma set_value_unit:
  assumes "0 \<le> v" "v < 2 ^ 31"
  shows "unit_value (bu_set_value v u) = v" "unit_label (bu_set_value v u) \<noteq> ucast (l :: uchar_type)"
proof -
  have "unat (word_of_int v :: id_type) = nat v" using assms by (simp add: unat_eq_nat_uint uint_word_of_int)
  then have s: "\<not> bit (word_of_int v :: id_type) k" if "31 \<le> k" for k
    using that assms by (intro bit_small_word [of _ 31]) auto
  have b: "bit (bu_set_value v u) n \<longleftrightarrow> n = 31 \<or> bit (word_of_int v :: id_type) n" for n
    by (auto simp: bu_set_value_def bit_or_iff bit_consts)
  have "bu_set_value v u AND 0x7FFFFFFF = word_of_int v"
    using s not_less by (intro bit_word_eqI) (auto simp: bit_and_iff b bit_consts)
  then show "unit_value (bu_set_value v u) = v" using assms by (simp add: unit_value_def uint_word_of_int)
  show "unit_label (bu_set_value v u) \<noteq> ucast l"
  proof
    assume "unit_label (bu_set_value v u) = ucast l"
    then have "bit (unit_label (bu_set_value v u)) 31 = bit (ucast l :: id_type) 31" by simp
    then show False by (simp add: bit_unit_label b bit_byte)
  qed
qed

lemma set_offset_unit:
  assumes ok: "encodable off" and u: "is_node u"
  shows "bu_set_offset off u = Inl Thrown \<and> 2 ^ 29 \<le> unat off \<or>
    (\<exists>u'. bu_set_offset off u = Inr u' \<and> unit_label u' = unit_label u \<and> has_leaf u' = has_leaf u \<and>
      is_node u' \<and> unit_offset u' = off \<and> unat off < 2 ^ 29)"
proof (cases "push_bit 29 1 \<le> off")
  case True
  then have "2 ^ 29 \<le> unat off" by (simp add: word_le_nat_alt)
  with True show ?thesis by (simp add: bu_set_offset_def)
next
  case False
  then have lt: "unat off < 2 ^ 29" by (simp add: word_le_nat_alt not_le)
  obtain x where x: "x = u AND (push_bit 31 1 OR push_bit 8 1 OR 0xFF)" by blast
  have w: "bit x n \<longleftrightarrow> bit u n \<and> n \<le> 8" for n
    using u by (auto simp: x bit_and_iff bit_consts is_node_def)
  have b200: "w AND 0x200 = (if bit w 9 then push_bit 9 1 else 0)" for w :: id_type
  proof (rule bit_word_eqI)
    show "bit (w AND 0x200) n \<longleftrightarrow> bit (if bit w 9 then push_bit 9 1 else 0 :: id_type) n" for n
      by (auto simp: bit_and_iff bit_consts)
  qed
  have shift: "unat (drop_bit 6 (w AND 0x200)) = (if bit w 9 then 8 else 0)" for w :: id_type
    unfolding b200 by simp
  show ?thesis
  proof (cases "off < push_bit 21 1")
    case True
    then have "unat off < 2 ^ 21" by (simp add: word_less_nat_alt)
    then have s: "\<not> bit off n" if "21 \<le> n" for n using bit_small_word that by blast
    let ?u = "x OR push_bit 10 off"
    have b: "bit ?u n \<longleftrightarrow> bit u n \<and> n \<le> 8 \<or> 10 \<le> n \<and> n < 32 \<and> bit off (n - 10)" for n
      by (auto simp: bit_or_iff w bit_push_bit_iff)
    have "bu_set_offset off u = Inr ?u" using False True by (simp add: bu_set_offset_def x)
    moreover have "unit_label ?u = unit_label u"
      using u s [of 21] by (intro bit_word_eqI) (auto simp: bit_unit_label b is_node_def)
    moreover have "has_leaf ?u = has_leaf u" by (simp add: has_leaf_bit b)
    moreover have "is_node ?u" using s [of 21] by (simp add: is_node_def b)
    moreover have "unit_offset ?u = off"
    proof -
      have "\<not> bit ?u 9" by (simp add: b)
      then have "unit_offset ?u = drop_bit 10 ?u" unfolding unit_offset_def shift by simp
      also have "\<dots> = off"
      proof (rule bit_word_eqI)
        fix n assume "n < LENGTH(32)"
        then show "bit (drop_bit 10 ?u) n \<longleftrightarrow> bit off n"
          unfolding bit_drop_bit_eq comp_def b using s [of n] by (cases "n < 21") auto
      qed
      finally show ?thesis .
    qed
    ultimately show ?thesis using lt by blast
  next
    case big: False
    have "\<not> unat off < 2 ^ 21" using big by (simp add: word_less_nat_alt)
    have low: "\<not> bit off n" if "n < 8" for n
    proof -
      have "\<not> (\<forall>n. 21 \<le> n \<longrightarrow> n < 29 \<longrightarrow> \<not> bit off n)"
      proof
        assume a: "\<forall>n. 21 \<le> n \<longrightarrow> n < 29 \<longrightarrow> \<not> bit off n"
        have "take_bit 21 off = off"
        proof (rule bit_word_eqI)
          fix n
          show "bit (take_bit 21 off) n \<longleftrightarrow> bit off n"
            using a bit_small_word [OF lt, of n] by (cases "n < 21"; cases "n < 29") (auto simp: bit_take_bit_iff not_less)
        qed
        then have "unat (take_bit 21 off) = unat off" by simp
        moreover have "unat (take_bit 21 off) < 2 ^ 21" unfolding unsigned_take_bit_eq by (rule take_bit_nat_less_exp)
        ultimately show False using \<open>\<not> unat off < 2 ^ 21\<close> by simp
      qed
      with ok that show ?thesis unfolding encodable_bits by blast
    qed
    have s: "\<not> bit off n" if "29 \<le> n" for n using bit_small_word [OF lt that] .
    obtain y where y: "y = x OR (push_bit 2 off OR push_bit 9 1)" by blast
    have b: "bit y n \<longleftrightarrow> bit u n \<and> n \<le> 8 \<or> n = 9 \<or> 10 \<le> n \<and> n < 32 \<and> bit off (n - 2)" for n
      using low [of "n - 2"] by (cases "n < 10") (auto simp: y bit_or_iff w bit_push_bit_iff bit_consts)
    have "bu_set_offset off u = Inr y" using False big by (simp add: bu_set_offset_def x y)
    moreover have "unit_label y = unit_label u"
      using u s [of 29] by (intro bit_word_eqI) (auto simp: bit_unit_label b is_node_def)
    moreover have "has_leaf y = has_leaf u" by (simp add: has_leaf_bit b)
    moreover have "is_node y" using s [of 29] by (simp add: is_node_def b)
    moreover have "unit_offset y = off"
    proof -
      have "bit y 9" by (simp add: b)
      then have "unit_offset y = push_bit 8 (drop_bit 10 y)" unfolding unit_offset_def shift by simp
      also have "\<dots> = off"
      proof (rule bit_word_eqI)
        fix n assume "n < LENGTH(32)"
        then show "bit (push_bit 8 (drop_bit 10 y)) n \<longleftrightarrow> bit off n"
          using s [of n] low [of n] unfolding bit_push_bit_iff bit_drop_bit_eq comp_def b
          by (cases "n < 8"; cases "n < 29") auto
      qed
      finally show ?thesis .
    qed
    ultimately show ?thesis using lt by blast
  qed
qed

end
