(* ===== verification/Da_Layout.thy ===== *)
theory Da_Layout
  imports Da_Ring Da_Units
begin

unbundle bit_operations_syntax

text \<open>
  The invariant of \<open>Da_Builder\<close> and the contracts of its operations. Two ghost maps describe a state: \<open>G\<close>
  says which group of the word graph has been placed at an offset, \<open>H\<close> for which offset and unit of the graph an
  identifier has been taken. A unit that belongs to no group and has left the window carries a label that
  leads to an offset that is not used.
\<close>

section \<open>Blocks\<close>

lemma xor_cancel [simp]: "(a XOR b) XOR b = (a :: 'a :: len word)" "b XOR (b XOR a) = (a :: 'a :: len word)"
  by (simp_all add: xor.assoc xor.assoc [symmetric])

lemma xor_label_inj: "(o1 :: id_type) XOR ucast (a :: uchar_type) = o1 XOR ucast b \<longleftrightarrow> a = b"
proof
  assume "o1 XOR ucast a = o1 XOR ucast b"
  then have "(ucast a :: id_type) = ucast b" by (metis xor_cancel(2))
  then have "bit (ucast a :: id_type) n = bit (ucast b :: id_type) n" for n by simp
  then show "a = b" by (intro bit_word_eqI) (auto simp: bit_byte)
qed simp

lemma unat_block: "unat (drop_bit 8 (i :: id_type)) = unat i div 256"
  by (simp only: unat_drop_bit_eq) (simp add: drop_bit_eq_div)

lemma block_xor: "unat (i XOR ucast (l :: uchar_type)) div 256 = unat (i :: id_type) div 256"
proof -
  have "drop_bit 8 (i XOR ucast l) = drop_bit 8 i"
    by (rule bit_word_eqI) (auto simp: bit_drop_bit_eq bit_xor_iff bit_byte)
  then have "unat (drop_bit 8 (i XOR ucast l)) = unat (drop_bit 8 i)" by (rule arg_cong)
  then show ?thesis unfolding unat_block .
qed

lemma block_bounds:
  assumes "m div 256 = n div 256" "256 dvd (k :: nat)"
  shows "m < k \<longleftrightarrow> n < k" "k \<le> m \<longleftrightarrow> k \<le> n"
proof -
  obtain q where "k = 256 * q" using assms(2) by auto
  then show "m < k \<longleftrightarrow> n < k" "k \<le> m \<longleftrightarrow> k \<le> n" using assms(1)
    div_less_iff_less_mult [of 256 m q] div_less_iff_less_mult [of 256 n q] by (auto simp: mult.commute not_less [symmetric])
qed

lemma block_xor_bounds:
  assumes "256 dvd (k :: nat)"
  shows "unat (i XOR ucast (l :: uchar_type)) < k \<longleftrightarrow> unat (i :: id_type) < k"
    "k \<le> unat (i XOR ucast (l :: uchar_type)) \<longleftrightarrow> k \<le> unat (i :: id_type)"
  using block_bounds [OF block_xor assms] by blast+

text \<open>Two identifiers of a block differ by a label.\<close>

lemma same_block_label:
  assumes "unat i div 256 = unat j div 256"
  shows "(ucast (ucast (i XOR j :: id_type) :: uchar_type) :: id_type) = i XOR j"
proof (rule bit_word_eqI)
  fix n assume "n < LENGTH(32)"
  have "unat (drop_bit 8 i) = unat (drop_bit 8 j)" unfolding unat_block by (rule assms)
  then have e: "drop_bit 8 i = drop_bit 8 j" by (rule word_unat_eq_iff [THEN iffD2])
  have "bit i (8 + m) = bit j (8 + m)" for m
    using arg_cong [OF e, of "\<lambda>w. bit w m"] by (simp add: bit_drop_bit_eq)
  then have "bit (i XOR j) n \<Longrightarrow> n < 8"
    by (metis bit_xor_iff le_add_diff_inverse not_le)
  then show "bit (ucast (ucast (i XOR j) :: uchar_type) :: id_type) n \<longleftrightarrow> bit (i XOR j) n"
    by (auto simp: bit_ucast_iff bit_xor_iff dest: bit_imp_le_length)
qed

section \<open>Groups of the word graph\<close>

lemma sibling_in: "store_wf us ls \<Longrightarrow> 0 < c \<Longrightarrow> c < length us \<Longrightarrow> du_has_sibling (us ! c) \<Longrightarrow> Suc c < length us"
proof (rule ccontr)
  assume a: "store_wf us ls" "0 < c" "c < length us" "du_has_sibling (us ! c)" "\<not> Suc c < length us"
  then have "c = length us - 1" "1 < length us" by simp_all
  with a(1,4) show False by (simp add: store_wf_def)
qed

lemma dawg_siblings_group:
  "store_wf us ls \<Longrightarrow> 0 < c \<Longrightarrow> c < length us \<Longrightarrow> dawg_siblings us c = Inr (group_ids us c)"
proof (induction us c rule: group_ids.induct)
  case (1 us c)
  show ?case
  proof (cases "du_has_sibling (us ! c)")
    case True
    then have "Suc c < length us" using sibling_in [OF 1(2-4)] by simp
    with 1 True show ?thesis by (subst dawg_siblings.simps, subst group_ids.simps) simp
  next
    case False
    with 1 show ?thesis by (subst dawg_siblings.simps, subst group_ids.simps) simp
  qed
qed

lemma group_ids_first: "c < length us \<Longrightarrow> c \<in> set (group_ids us c)"
  by (subst group_ids.simps) simp

lemma group_labels_sorted:
  "store_wf us ls \<Longrightarrow> 0 < c \<Longrightarrow> c < length us \<Longrightarrow> sorted_wrt (<) (map ((!) ls) (group_ids us c)) \<and> (\<forall>u \<in> set (group_ids us c). ls ! c \<le> ls ! u)"
proof (induction us c rule: group_ids.induct)
  case (1 us c)
  show ?case
  proof (cases "du_has_sibling (us ! c)")
    case True
    then have lt: "Suc c < length us" using sibling_in [OF 1(2-4)] by simp
    have l: "ls ! c < ls ! Suc c" using 1(2,3) True lt by (simp add: store_wf_def)
    from 1(1) [OF 1(4) True 1(2)] lt have IH: "sorted_wrt (<) (map ((!) ls) (group_ids us (Suc c)))"
      "\<forall>u \<in> set (group_ids us (Suc c)). ls ! Suc c \<le> ls ! u" by auto
    then have "ls ! c < ls ! u" if "u \<in> set (group_ids us (Suc c))" for u using l that by (meson less_le_trans)
    with IH(1) show ?thesis using 1(4) True by (subst (1 2) group_ids.simps) (auto intro: less_imp_le)
  next
    case False
    then show ?thesis using 1(4) by (subst (1 2) group_ids.simps) auto
  qed
qed

lemma group_labels_inj:
  assumes "store_wf us ls" "0 < c" "c < length us" "u \<in> set (group_ids us c)" "t \<in> set (group_ids us c)" "ls ! u = ls ! t"
  shows "u = t"
proof -
  have "distinct (map ((!) ls) (group_ids us c))"
    using group_labels_sorted [OF assms(1-3)] strict_sorted_iff by blast
  with assms(4-6) show ?thesis by (simp add: distinct_map inj_on_def)
qed

lemma group_distinct: "distinct (group_ids us c)"
proof (induction us c rule: group_ids.induct)
  case (1 us c)
  have "c \<notin> set (group_ids us (Suc c))" using group_ids_bounds [of c us "Suc c"] by auto
  with 1 show ?case by (subst group_ids.simps) auto
qed

section \<open>Retiring a block\<close>

lemma ring_ok_slot_window:
  assumes "ring_ok w b xs" "w \<le> unat i" "unat i < length (b_units b)" "w \<le> unat j" "unat j < length (b_units b)"
  shows "slot i = slot j \<longleftrightarrow> i = j"
  using assms by (intro slot_eq [of w]) (auto simp: ring_ok_def)

lemma ring_ok_units [simp]: "length us = length (b_units b) \<Longrightarrow> ring_ok w (b\<lparr>b_units := us\<rparr>) xs = ring_ok w b xs"
  by (simp add: ring_ok_def ring_links_def cong: list.case_cong)

lemma ring_ok_other [simp]:
  "ring_ok w (b\<lparr>b_labels := ls\<rparr>) xs = ring_ok w b xs" "ring_ok w (b\<lparr>b_table := t\<rparr>) xs = ring_ok w b xs"
  by (simp_all add: ring_ok_def ring_links_def cong: list.case_cong)

lemma upd_unit_ok: "unat i < length (b_units b) \<Longrightarrow>
    upd_unit i f b = Inr (b\<lparr>b_units := (b_units b)[unat i := f (b_units b ! unat i)]\<rparr>)"
  by (simp add: upd_unit_def)

lemma fix_units_spec:
  assumes "ring_ok w b xs" "\<forall>i \<in> set is. w \<le> unat i \<and> unat i < length (b_units b)"
  shows "\<exists>b'. fix_units uo is b = Inr b' \<and> ring_ok w b' (filter (\<lambda>i. i \<notin> set is) xs) \<and>
    length (b_units b') = length (b_units b) \<and> b_labels b' = b_labels b \<and> b_table b' = b_table b \<and>
    (\<forall>j. e_used (extras b' j) = e_used (extras b j)) \<and>
    (\<forall>j. slot j \<notin> slot ` set is \<longrightarrow> e_fixed (extras b' j) = e_fixed (extras b j)) \<and>
    (\<forall>j. w \<le> unat j \<longrightarrow> unat j < length (b_units b) \<longrightarrow> e_fixed (extras b' j) = (j \<in> set is \<or> e_fixed (extras b j))) \<and>
    (\<forall>j. b_units b' ! unat j = (if j \<in> set is \<and> \<not> e_fixed (extras b j)
       then bu_set_label (ucast (j XOR uo)) (b_units b ! unat j) else b_units b ! unat j))"
  using assms
proof (induction "is" arbitrary: b xs)
  case (Cons i "is")
  note ok = Cons.prems(1)
  have i: "w \<le> unat i" "unat i < length (b_units b)" using Cons.prems(2) by auto
  show ?case
  proof (cases "e_fixed (extras b i)")
    case True
    then have "i \<notin> set xs" using ok by (simp add: ring_ok_def)
    then have "filter (\<lambda>j. j \<notin> set (i # is)) xs = filter (\<lambda>j. j \<notin> set is) xs" by (intro filter_cong) auto
    moreover note Cons.IH [OF ok] Cons.prems(2)
    ultimately show ?thesis using True by auto
  next
    case False
    then have mem: "i \<in> set xs" using ok i by (simp add: ring_ok_def)
    have len: "length (b_extras b) = 4096" and d: "distinct xs" using ok ring_distinct by (auto simp: ring_ok_def)
    let ?u = "bu_set_label (ucast (i XOR uo)) (b_units b ! unat i)"
    let ?b = "(unlink_id i b)\<lparr>b_units := (b_units b)[unat i := ?u]\<rparr>"
    have r: "ring_ok w ?b (remove1 i xs)" using unlink_ring [OF ok mem] by simp
    have step: "fix_units uo (i # is) b = fix_units uo is ?b" using False i(2) by (simp add: upd_unit_ok)
    have fx: "e_fixed (extras ?b j) = (j = i \<or> e_fixed (extras b j))" if "w \<le> unat j" "unat j < length (b_units b)" for j
      using ring_ok_slot_window [OF ok that i] by (simp add: unlink_extras [OF len])
    have fs: "e_fixed (extras ?b j) = e_fixed (extras b j)" if "slot j \<noteq> slot i" for j
      using that by (simp add: unlink_extras [OF len])
    have us: "e_used (extras ?b j) = e_used (extras b j)" for j by (simp add: unlink_extras [OF len])
    have fl: "filter (\<lambda>j. j \<notin> set is) (remove1 i xs) = filter (\<lambda>j. j \<notin> set (i # is)) xs"
      unfolding distinct_remove1_removeAll [OF d] removeAll_filter_not_eq filter_filter by (rule filter_cong) auto
    have "\<exists>b'. fix_units uo is ?b = Inr b' \<and> ring_ok w b' (filter (\<lambda>i. i \<notin> set is) (remove1 i xs)) \<and>
      length (b_units b') = length (b_units ?b) \<and> b_labels b' = b_labels ?b \<and> b_table b' = b_table ?b \<and>
      (\<forall>j. e_used (extras b' j) = e_used (extras ?b j)) \<and>
      (\<forall>j. slot j \<notin> slot ` set is \<longrightarrow> e_fixed (extras b' j) = e_fixed (extras ?b j)) \<and>
      (\<forall>j. w \<le> unat j \<longrightarrow> unat j < length (b_units ?b) \<longrightarrow> e_fixed (extras b' j) = (j \<in> set is \<or> e_fixed (extras ?b j))) \<and>
      (\<forall>j. b_units b' ! unat j = (if j \<in> set is \<and> \<not> e_fixed (extras ?b j)
         then bu_set_label (ucast (j XOR uo)) (b_units ?b ! unat j) else b_units ?b ! unat j))"
      by (rule Cons.IH [OF r]) (use Cons.prems(2) in simp)
    then obtain b' where b': "fix_units uo is ?b = Inr b'"
      "ring_ok w b' (filter (\<lambda>i. i \<notin> set is) (remove1 i xs))" "length (b_units b') = length (b_units b)"
      "b_labels b' = b_labels b" "b_table b' = b_table b" "\<And>j. e_used (extras b' j) = e_used (extras ?b j)"
      "\<And>j. slot j \<notin> slot ` set is \<Longrightarrow> e_fixed (extras b' j) = e_fixed (extras ?b j)"
      "\<And>j. w \<le> unat j \<Longrightarrow> unat j < length (b_units b) \<Longrightarrow> e_fixed (extras b' j) = (j \<in> set is \<or> e_fixed (extras ?b j))"
      "\<And>j. b_units b' ! unat j = (if j \<in> set is \<and> \<not> e_fixed (extras ?b j)
         then bu_set_label (ucast (j XOR uo)) (b_units ?b ! unat j) else b_units ?b ! unat j)"
      by auto
    have un: "b_units b' ! unat j = (if j \<in> set (i # is) \<and> \<not> e_fixed (extras b j)
       then bu_set_label (ucast (j XOR uo)) (b_units b ! unat j) else b_units b ! unat j)" for j
    proof (cases "j = i")
      case True
      have "e_fixed (extras ?b i)" using fx [OF i] by simp
      with True False i(2) show ?thesis using b'(9) [of j] by simp
    next
      case ne: False
      then have n: "unat i \<noteq> unat j" by (simp add: word_unat_eq_iff)
      show ?thesis
      proof (cases "j \<in> set is")
        case True
        then have "w \<le> unat j" "unat j < length (b_units b)" using Cons.prems(2) by auto
        from fx [OF this] ne n True show ?thesis using b'(9) [of j] by simp
      qed (use b'(9) [of j] ne n in simp)
    qed
    show ?thesis unfolding step
      using b'(1-5) b'(2) [unfolded fl] b'(6-8) us fs fx un by (intro exI [of _ b']) auto
  qed
qed (auto cong: filter_cong)

section \<open>The invariant\<close>

text \<open>
  \<open>w\<close> is the start of the window. \<open>Cur\<close> holds the offset whose group is being placed, \<open>A\<close> the
  identifier of its parent, \<open>P\<close> the identifiers whose groups are still to be placed.
\<close>

type_synonym groups = "id_type \<Rightarrow> nat option"
type_synonym owners = "id_type \<Rightarrow> (id_type \<times> nat) option"

definition own_ok :: "DawgBuilder \<Rightarrow> nat \<Rightarrow> id_type set \<Rightarrow> owners \<Rightarrow> groups \<Rightarrow> DaBuilder \<Rightarrow> bool" where
  "own_ok g w Cur H G b \<longleftrightarrow>
     H 0 = None \<and>
     (\<forall>i o' u. H i = Some (o', u) \<longrightarrow>
        i = o' XOR ucast (d_labels g ! u) \<and> u < length (d_units g) \<and> unat i < length (b_units b) \<and>
        (o' \<in> Cur \<or> (\<exists>c. G o' = Some c \<and> u \<in> set (group_ids (d_units g) c)))) \<and>
     (\<forall>o' c. G o' = Some c \<longrightarrow> 0 < c \<and> c < length (d_units g) \<and> o' \<noteq> 0 \<and> o' \<notin> Cur \<and>
        (\<forall>u \<in> set (group_ids (d_units g) c). H (o' XOR ucast (d_labels g ! u)) = Some (o', u))) \<and>
     (\<forall>i. w \<le> unat i \<longrightarrow> unat i < length (b_units b) \<longrightarrow>
        (e_fixed (extras b i) \<longleftrightarrow> i = 0 \<or> H i \<noteq> None) \<and>
        (e_used (extras b i) \<longleftrightarrow> i = 0 \<or> G i \<noteq> None))"

definition leafy :: "DawgBuilder \<Rightarrow> nat \<Rightarrow> bool" where
  "leafy g c \<longleftrightarrow> (\<exists>u \<in> set (group_ids (d_units g) c). d_labels g ! u = 0)"

definition node_state ::
    "DawgBuilder \<Rightarrow> id_type set \<Rightarrow> id_type set \<Rightarrow> groups \<Rightarrow> id_type \<Rightarrow> unit32 \<Rightarrow> nat \<Rightarrow> bool" where
  "node_state g A P G i x c \<longleftrightarrow>
     is_node x \<and> (i \<in> P \<longrightarrow> \<not> has_leaf x) \<and>
     (i \<notin> P \<longrightarrow> i \<notin> A \<longrightarrow> G (i XOR unit_offset x) = Some c \<and> (has_leaf x \<longleftrightarrow> leafy g c))"

definition entry_state ::
    "DawgBuilder \<Rightarrow> id_type set \<Rightarrow> id_type set \<Rightarrow> groups \<Rightarrow> id_type \<Rightarrow> nat \<Rightarrow> unit32 \<Rightarrow> bool" where
  "entry_state g A P G i u x \<longleftrightarrow>
     (if d_labels g ! u = 0
      then unit_value x = du_value (d_units g ! u) \<and> (\<forall>l :: uchar_type. unit_label x \<noteq> ucast l)
      else unit_label x = ucast (d_labels g ! u) \<and> node_state g A P G i x (unat (du_child (d_units g ! u))))"

definition unit_ok :: "DawgBuilder \<Rightarrow> id_type set \<Rightarrow> id_type set \<Rightarrow> owners \<Rightarrow> groups \<Rightarrow> unit32 list \<Rightarrow> bool" where
  "unit_ok g A P H G us \<longleftrightarrow>
     (\<forall>i o' u. H i = Some (o', u) \<longrightarrow> entry_state g A P G i u (us ! unat i)) \<and>
     unit_label (us ! 0) = 0 \<and> node_state g A P G 0 (us ! 0) (root_child g)"

definition fill_ok :: "nat \<Rightarrow> owners \<Rightarrow> groups \<Rightarrow> unit32 list \<Rightarrow> bool" where
  "fill_ok w H G us \<longleftrightarrow>
     (\<forall>i. unat i < w \<longrightarrow> i \<noteq> 0 \<longrightarrow> H i = None \<longrightarrow>
        (\<exists>uo. unat uo div 256 = unat i div 256 \<and> G uo = None \<and> unit_label (us ! unat i) = i XOR uo))"

definition table_ok :: "DawgBuilder \<Rightarrow> BitVector \<Rightarrow> groups \<Rightarrow> id_type list \<Rightarrow> bool" where
  "table_ok g v G t \<longleftrightarrow>
     length t = bv_num_ones (d_is_intersections g) \<and>
     (\<forall>c < length (d_units g). bv_bit v c \<longrightarrow> t ! (bv_ones v (Suc c) - 1) \<noteq> 0 \<longrightarrow> G (t ! (bv_ones v (Suc c) - 1)) = Some c)"

definition pending_ok :: "DawgBuilder \<Rightarrow> id_type set \<Rightarrow> owners \<Rightarrow> bool" where
  "pending_ok g P H \<longleftrightarrow> (\<forall>i \<in> P. i = 0 \<or> (\<exists>o' u. H i = Some (o', u) \<and> d_labels g ! u \<noteq> 0))"

definition window_ok :: "nat \<Rightarrow> DaBuilder \<Rightarrow> bool" where
  "window_ok w b \<longleftrightarrow>
     256 dvd w \<and> 256 dvd length (b_units b) \<and> 256 \<le> length (b_units b) \<and> w \<le> length (b_units b) \<and>
     (\<forall>i. length (b_units b) \<le> unat i \<longrightarrow> unat i < 4096 \<longrightarrow> \<not> e_fixed (extras b i) \<and> \<not> e_used (extras b i)) \<and>
     (\<forall>i. w \<le> unat i \<longrightarrow> unat i < length (b_units b) \<longrightarrow> \<not> e_fixed (extras b i) \<longrightarrow> b_units b ! unat i = 0)"

definition core ::
    "DawgBuilder \<Rightarrow> BitVector \<Rightarrow> id_type set \<Rightarrow> id_type set \<Rightarrow> id_type set \<Rightarrow> nat \<Rightarrow> owners \<Rightarrow> groups
      \<Rightarrow> DaBuilder \<Rightarrow> id_type list \<Rightarrow> bool" where
  "core g v A P Cur w H G b xs \<longleftrightarrow>
     ring_ok w b xs \<and> window_ok w b \<and> own_ok g w Cur H G b \<and> unit_ok g A P H G (b_units b) \<and>
     fill_ok w H G (b_units b) \<and> table_ok g v G (b_table b) \<and> pending_ok g P H"

text \<open>What is fixed about the graph while the array is built.\<close>

definition dawg_ok :: "DawgBuilder \<Rightarrow> BitVector \<Rightarrow> bool" where
  "dawg_ok g v \<longleftrightarrow>
     store_wf (d_units g) (d_labels g) \<and> bv_wf v \<and> bv_size v = length (d_units g) \<and>
     d_is_intersections g = bv_build v \<and> root_child g < length (d_units g)"

subsection \<open>Taking an identifier for a child\<close>

lemma own_okD:
  assumes "own_ok g w Cur H G b"
  shows "H 0 = None"
    and "H i = Some (o', u) \<Longrightarrow> i = o' XOR ucast (d_labels g ! u)" "H i = Some (o', u) \<Longrightarrow> u < length (d_units g)"
    and "H i = Some (o', u) \<Longrightarrow> unat i < length (b_units b)"
    and "H i = Some (o', u) \<Longrightarrow> o' \<in> Cur \<or> (\<exists>c. G o' = Some c \<and> u \<in> set (group_ids (d_units g) c))"
    and "G o' = Some c \<Longrightarrow> 0 < c \<and> c < length (d_units g) \<and> o' \<noteq> 0 \<and> o' \<notin> Cur"
    and "G o' = Some c \<Longrightarrow> u \<in> set (group_ids (d_units g) c) \<Longrightarrow> H (o' XOR ucast (d_labels g ! u)) = Some (o', u)"
    and "w \<le> unat i \<Longrightarrow> unat i < length (b_units b) \<Longrightarrow> e_fixed (extras b i) \<longleftrightarrow> i = 0 \<or> H i \<noteq> None"
    and "w \<le> unat i \<Longrightarrow> unat i < length (b_units b) \<Longrightarrow> e_used (extras b i) \<longleftrightarrow> i = 0 \<or> G i \<noteq> None"
  using assms unfolding own_ok_def by blast+

lemma own_place:
  assumes own: "own_ok g w {off} H G b" and ring: "ring_ok w b xs" and i: "i \<in> set xs"
    and io: "i = off XOR ucast (d_labels g ! u)" and u: "u < length (d_units g)" and us: "length us = length (b_units b)"
  shows "own_ok g w {off} (H(i \<mapsto> (off, u))) G ((unlink_id i b)\<lparr>b_units := us\<rparr>)"
proof -
  have len: "length (b_extras b) = 4096" and win: "w \<le> unat i" "unat i < length (b_units b)" and nf: "\<not> e_fixed (extras b i)"
    using ring i by (auto simp: ring_ok_def)
  have Hi: "H i = None" "i \<noteq> 0" using own_okD(8) [OF own win] nf by blast+
  have fx: "e_fixed (extras (unlink_id i b) j) = (j = i \<or> e_fixed (extras b j))"
    if "w \<le> unat j" "unat j < length (b_units b)" for j
    using ring_ok_slot_window [OF ring that win] by (simp add: unlink_extras [OF len])
  show ?thesis unfolding own_ok_def
  proof (intro conjI allI impI ballI)
    show "(H(i \<mapsto> (off, u))) 0 = None" using Hi own_okD(1) [OF own] by simp
  next
    fix j o' t assume H: "(H(i \<mapsto> (off, u))) j = Some (o', t)"
    show "j = o' XOR ucast (d_labels g ! t)" "t < length (d_units g)"
      "unat j < length (b_units ((unlink_id i b)\<lparr>b_units := us\<rparr>))"
      "o' \<in> {off} \<or> (\<exists>c. G o' = Some c \<and> t \<in> set (group_ids (d_units g) c))"
      using H io u us win(2) own_okD(2,3,4,5) [OF own, of j o' t] by (auto split: if_splits)
  next
    fix o' c assume G: "G o' = Some c"
    show "0 < c" "c < length (d_units g)" "o' \<noteq> 0" "o' \<notin> {off}" using own_okD(6) [OF own G] by auto
    fix t assume "t \<in> set (group_ids (d_units g) c)"
    with own_okD(7) [OF own G this] Hi(1)
    show "(H(i \<mapsto> (off, u))) (o' XOR ucast (d_labels g ! t)) = Some (o', t)" by auto
  next
    fix j :: id_type assume j: "w \<le> unat j" "unat j < length (b_units ((unlink_id i b)\<lparr>b_units := us\<rparr>))"
    then have j': "unat j < length (b_units b)" using us by simp
    show "e_fixed (extras ((unlink_id i b)\<lparr>b_units := us\<rparr>) j) \<longleftrightarrow> j = 0 \<or> (H(i \<mapsto> (off, u))) j \<noteq> None"
      using fx [OF j(1) j'] own_okD(8) [OF own j(1) j'] by auto
    show "e_used (extras ((unlink_id i b)\<lparr>b_units := us\<rparr>) j) \<longleftrightarrow> j = 0 \<or> G j \<noteq> None"
      using own_okD(9) [OF own j(1) j'] by (simp add: unlink_extras [OF len])
  qed
qed

lemma window_place:
  assumes win: "window_ok w b" and ring: "ring_ok w b xs" and i: "i \<in> set xs"
  shows "window_ok w ((unlink_id i b)\<lparr>b_units := (b_units b)[unat i := x]\<rparr>)"
proof -
  have len: "length (b_extras b) = 4096" and iw: "w \<le> unat i" "unat i < length (b_units b)"
    using ring i by (auto simp: ring_ok_def)
  have fx: "e_fixed (extras (unlink_id i b) j) = (j = i \<or> e_fixed (extras b j))"
    if "w \<le> unat j" "unat j < length (b_units b)" for j
    using ring_ok_slot_window [OF ring that iw] by (simp add: unlink_extras [OF len])
  show ?thesis unfolding window_ok_def
  proof (intro conjI allI impI)
    fix j :: id_type assume j: "length (b_units ((unlink_id i b)\<lparr>b_units := (b_units b)[unat i := x]\<rparr>)) \<le> unat j" "unat j < 4096"
    then have "slot j \<noteq> slot i" using iw(2) by (simp add: slot_def)
    with j win show "\<not> e_fixed (extras ((unlink_id i b)\<lparr>b_units := (b_units b)[unat i := x]\<rparr>) j)"
      "\<not> e_used (extras ((unlink_id i b)\<lparr>b_units := (b_units b)[unat i := x]\<rparr>) j)"
      by (auto simp: unlink_extras [OF len] window_ok_def)
  next
    fix j :: id_type assume j: "w \<le> unat j" "unat j < length (b_units ((unlink_id i b)\<lparr>b_units := (b_units b)[unat i := x]\<rparr>))"
      "\<not> e_fixed (extras ((unlink_id i b)\<lparr>b_units := (b_units b)[unat i := x]\<rparr>) j)"
    then have "j \<noteq> i" "\<not> e_fixed (extras b j)" using fx [of j] by auto
    moreover from this have "unat j \<noteq> unat i" by (simp add: word_unat_eq_iff)
    ultimately show "b_units ((unlink_id i b)\<lparr>b_units := (b_units b)[unat i := x]\<rparr>) ! unat j = 0"
      using win j(1,2) by (simp add: window_ok_def)
  qed (use win in \<open>simp_all add: window_ok_def\<close>)
qed

lemma unat_neq: "i \<noteq> j \<Longrightarrow> unat (i :: id_type) \<noteq> unat j"
  by (simp add: word_unat_eq_iff)

lemma node_state_cong:
  assumes "node_state g A P G i x c" "i \<in> P' \<longleftrightarrow> i \<in> P" "i \<in> A' \<longleftrightarrow> i \<in> A" "\<And>o' c. G o' = Some c \<Longrightarrow> G' o' = Some c"
  shows "node_state g A' P' G' i x c"
  using assms unfolding node_state_def by blast

lemma entry_state_cong:
  assumes "entry_state g A P G i u x" "i \<in> P' \<longleftrightarrow> i \<in> P" "i \<in> A' \<longleftrightarrow> i \<in> A" "\<And>o' c. G o' = Some c \<Longrightarrow> G' o' = Some c"
  shows "entry_state g A' P' G' i u x"
  using assms node_state_cong [OF _ assms(2-4)] unfolding entry_state_def by (auto split: if_splits)

definition fresh_entry :: "DawgBuilder \<Rightarrow> nat \<Rightarrow> unit32 \<Rightarrow> bool" where
  "fresh_entry g u x \<longleftrightarrow>
     (if d_labels g ! u = 0
      then unit_value x = du_value (d_units g ! u) \<and> (\<forall>l :: uchar_type. unit_label x \<noteq> ucast l)
      else unit_label x = ucast (d_labels g ! u) \<and> is_node x \<and> \<not> has_leaf x)"

lemma core_place:
  assumes core: "core g v A P {off} w H G b xs" and i: "i \<in> set xs" and io: "i = off XOR ucast (d_labels g ! u)"
    and u: "u < length (d_units g)" and x: "fresh_entry g u x"
  shows "core g v A (if d_labels g ! u = 0 then P else insert i P) {off} w (H(i \<mapsto> (off, u))) G
    ((unlink_id i b)\<lparr>b_units := (b_units b)[unat i := x]\<rparr>) (remove1 i xs)"
proof -
  let ?P = "if d_labels g ! u = 0 then P else insert i P" and ?H = "H(i \<mapsto> (off, u))"
  have ring: "ring_ok w b xs" and win: "window_ok w b" and own: "own_ok g w {off} H G b"
    and un: "unit_ok g A P H G (b_units b)" and fl: "fill_ok w H G (b_units b)"
    and tb: "table_ok g v G (b_table b)" and pn: "pending_ok g P H" using core by (simp_all add: core_def)
  have iw: "w \<le> unat i" "unat i < length (b_units b)" "\<not> e_fixed (extras b i)" using ring i by (auto simp: ring_ok_def)
  have Hi: "H i = None" "i \<noteq> 0" using own_okD(8) [OF own iw(1,2)] iw(3) by blast+
  have iP: "i \<notin> P" using pn Hi by (auto simp: pending_ok_def)
  have "unit_ok g A ?P ?H G ((b_units b)[unat i := x])" unfolding unit_ok_def
  proof (intro conjI allI impI)
    fix j o' t assume H: "?H j = Some (o', t)"
    show "entry_state g A ?P G j t ((b_units b)[unat i := x] ! unat j)"
    proof (cases "j = i")
      case True
      with H x iw(2) show ?thesis by (auto simp: entry_state_def fresh_entry_def node_state_def)
    next
      case False
      then have "entry_state g A P G j t (b_units b ! unat j)" using H un by (simp add: unit_ok_def)
      then show ?thesis using False unat_neq [OF False] by (auto intro: entry_state_cong)
    qed
  next
    have n: "unat i \<noteq> 0" using Hi(2) by (simp add: unat_eq_zero)
    then show "unit_label ((b_units b)[unat i := x] ! 0) = 0" using un by (simp add: unit_ok_def)
    have "node_state g A P G 0 (b_units b ! 0) (root_child g)" using un by (simp add: unit_ok_def)
    then show "node_state g A ?P G 0 ((b_units b)[unat i := x] ! 0) (root_child g)"
      using n Hi(2) by (auto intro: node_state_cong)
  qed
  moreover have "fill_ok w ?H G ((b_units b)[unat i := x])" unfolding fill_ok_def
  proof (intro allI impI)
    fix j assume j: "unat j < w" "j \<noteq> 0" "?H j = None"
    then have "unat j \<noteq> unat i" "H j = None" using iw(1) by (auto split: if_splits)
    with j fl show "\<exists>uo. unat uo div 256 = unat j div 256 \<and> G uo = None \<and>
        unit_label ((b_units b)[unat i := x] ! unat j) = j XOR uo" by (auto simp: fill_ok_def)
  qed
  moreover have "pending_ok g ?P ?H" unfolding pending_ok_def
  proof
    fix j assume "j \<in> ?P"
    then have "j \<in> P \<and> j \<noteq> i \<or> j = i \<and> d_labels g ! u \<noteq> 0" using iP by (auto split: if_splits)
    with pn show "j = 0 \<or> (\<exists>o' t. ?H j = Some (o', t) \<and> d_labels g ! t \<noteq> 0)" by (auto simp: pending_ok_def)
  qed
  ultimately show ?thesis unfolding core_def
    using unlink_ring [OF ring i] window_place [OF win ring i, of x]
      own_place [OF own ring i io u, of "(b_units b)[unat i := x]"] tb by simp
qed

subsection \<open>Changing the unit of a node\<close>

definition node_target :: "DawgBuilder \<Rightarrow> owners \<Rightarrow> id_type \<Rightarrow> nat \<Rightarrow> bool" where
  "node_target g H i c \<longleftrightarrow>
     i = 0 \<and> c = root_child g \<or>
     (\<exists>o' u. H i = Some (o', u) \<and> d_labels g ! u \<noteq> 0 \<and> c = unat (du_child (d_units g ! u)))"

lemma node_in_range:
  assumes "core g v A P Cur w H G b xs" "node_target g H i c"
  shows "unat i < length (b_units b)" "w \<le> unat i \<Longrightarrow> e_fixed (extras b i)"
proof -
  have own: "own_ok g w Cur H G b" and win: "256 \<le> length (b_units b)" using assms(1) by (auto simp: core_def window_ok_def)
  show r: "unat i < length (b_units b)" using assms(2) own_okD(4) [OF own] win by (auto simp: node_target_def)
  show "w \<le> unat i \<Longrightarrow> e_fixed (extras b i)" using own_okD(8) [OF own _ r] assms(2) by (auto simp: node_target_def)
qed

lemma node_unit_state:
  assumes "core g v A P Cur w H G b xs" "node_target g H i c"
  shows "node_state g A P G i (b_units b ! unat i) c"
  using assms unfolding core_def unit_ok_def node_target_def entry_state_def by (auto split: if_splits)

lemma core_node:
  assumes core: "core g v A P Cur w H G b xs" and tgt: "node_target g H i c"
    and lab: "unit_label x = unit_label (b_units b ! unat i)" and st: "node_state g A' P' G i x c"
    and j: "\<And>j. j \<noteq> i \<Longrightarrow> (j \<in> P' \<longleftrightarrow> j \<in> P) \<and> (j \<in> A' \<longleftrightarrow> j \<in> A)" and P: "P' \<subseteq> P"
  shows "core g v A' P' Cur w H G (b\<lparr>b_units := (b_units b)[unat i := x]\<rparr>) xs"
proof -
  let ?us = "(b_units b)[unat i := x]"
  have ring: "ring_ok w b xs" and win: "window_ok w b" and own: "own_ok g w Cur H G b"
    and un: "unit_ok g A P H G (b_units b)" and fl: "fill_ok w H G (b_units b)"
    and tb: "table_ok g v G (b_table b)" and pn: "pending_ok g P H" using core by (simp_all add: core_def)
  note ir = node_in_range [OF core tgt]
  have "unit_ok g A' P' H G ?us" unfolding unit_ok_def
  proof (intro conjI allI impI)
    fix k o' u assume H: "H k = Some (o', u)"
    have e: "entry_state g A P G k u (b_units b ! unat k)" using un H by (simp add: unit_ok_def)
    show "entry_state g A' P' G k u (?us ! unat k)"
    proof (cases "k = i")
      case True
      then have "d_labels g ! u \<noteq> 0" "c = unat (du_child (d_units g ! u))"
        using tgt H own_okD(1) [OF own] by (auto simp: node_target_def)
      with e lab st ir(1) True show ?thesis by (simp add: entry_state_def)
    next
      case False
      then show ?thesis using entry_state_cong [OF e, of P' A' G] j [OF False] unat_neq [OF False] by simp
    qed
  next
    have n: "node_state g A P G 0 (b_units b ! 0) (root_child g)" and l: "unit_label (b_units b ! 0) = 0"
      using un by (simp_all add: unit_ok_def)
    show "unit_label (?us ! 0) = 0" using l lab ir(1) by (cases "i = 0") (auto simp: unat_eq_zero [symmetric])
    show "node_state g A' P' G 0 (?us ! 0) (root_child g)"
    proof (cases "i = 0")
      case True
      then have "c = root_child g" using tgt own_okD(1) [OF own] by (auto simp: node_target_def)
      with True st ir(1) show ?thesis by simp
    next
      case False
      then have "unat i \<noteq> 0" "0 \<noteq> i" by (auto simp: unat_eq_zero)
      then show ?thesis using node_state_cong [OF n, of P' A' G] j [of 0] by simp
    qed
  qed
  moreover have "fill_ok w H G ?us" unfolding fill_ok_def
  proof (intro allI impI)
    fix k assume k: "unat k < w" "k \<noteq> 0" "H k = None"
    then have "k \<noteq> i" using tgt by (auto simp: node_target_def)
    with k fl show "\<exists>uo. unat uo div 256 = unat k div 256 \<and> G uo = None \<and> unit_label (?us ! unat k) = k XOR uo"
      using unat_neq [of i k] by (auto simp: fill_ok_def)
  qed
  moreover have "window_ok w (b\<lparr>b_units := ?us\<rparr>)"
  proof -
    have "?us ! unat k = 0" if "w \<le> unat k" "unat k < length (b_units b)" "\<not> e_fixed (extras b k)" for k
    proof -
      have "k \<noteq> i" using ir(2) that by auto
      then show ?thesis using win that unat_neq [of i k] by (auto simp: window_ok_def)
    qed
    then show ?thesis using win by (simp add: window_ok_def)
  qed
  moreover have "own_ok g w Cur H G (b\<lparr>b_units := ?us\<rparr>)" using own by (simp add: own_ok_def)
  moreover have "pending_ok g P' H" using pn P by (auto simp: pending_ok_def)
  ultimately show ?thesis using ring tb by (simp add: core_def)
qed

subsection \<open>Retiring the oldest block\<close>

lemma mem_block_ids:
  assumes "256 dvd w" "w + 256 < 4294967296"
  shows "i \<in> set (block_ids (w div 256)) \<longleftrightarrow> w \<le> unat i \<and> unat i < w + 256"
proof -
  have w: "256 * (w div 256) = w" using assms(1) by simp
  show ?thesis
  proof
    assume "i \<in> set (block_ids (w div 256))"
    then obtain n where "w \<le> n" "n < w + 256" "i = of_nat n" by (auto simp: block_ids_def w)
    moreover from this have "unat i = n" using assms(2) by (simp add: unat_of_nat_less)
    ultimately show "w \<le> unat i \<and> unat i < w + 256" by simp
  next
    assume i: "w \<le> unat i \<and> unat i < w + 256"
    have "i = of_nat (unat i)" by simp
    with i show "i \<in> set (block_ids (w div 256))" unfolding block_ids_def w set_map by (intro image_eqI [of _ _ "unat i"]) auto
  qed
qed

lemma block_id_div:
  assumes "256 dvd w" "w \<le> n" "n < w + 256"
  shows "n div 256 = w div (256 :: nat)"
proof -
  obtain q where "w = 256 * q" using assms(1) by auto
  with assms(2,3) show ?thesis by (intro div_nat_eqI) auto
qed

text \<open>When all offsets of a block are used, all its identifiers are taken: there is one of each group.\<close>

lemma unused_offset:
  assumes own: "own_ok g w Cur H G b" and w: "256 dvd w" "w + 256 < 4294967296" "w + 256 \<le> length (b_units b)"
    and i: "w \<le> unat i" "unat i < w + 256" "i \<noteq> 0" "H i = None"
  shows "\<exists>uo. first_unused b (block_ids (w div 256)) = uo \<and> w \<le> unat uo \<and> unat uo < w + 256 \<and> G uo = None"
proof -
  let ?B = "set (block_ids (w div 256))"
  note B = mem_block_ids [OF w(1,2)]
  have "\<exists>uo \<in> ?B. \<not> e_used (extras b uo)"
  proof (rule ccontr)
    assume "\<not> ?thesis"
    then have used: "e_used (extras b j)" if "j \<in> ?B" for j using that by blast
    have all: "j = 0 \<or> G j \<noteq> None" if "j \<in> ?B" for j
    proof -
      have "w \<le> unat j" "unat j < length (b_units b)" using that w(3) unfolding B by simp_all
      from own_okD(9) [OF own this] used [OF that] show ?thesis by blast
    qed
    obtain f where f0: "f 0 = 0" and f1: "\<And>j. j \<noteq> 0 \<Longrightarrow> f j = j XOR ucast (d_labels g ! the (G j))"
      using that [of "\<lambda>j. if j = 0 then 0 else j XOR ucast (d_labels g ! the (G j))"] by simp
    have H: "H (f j) = Some (j, the (G j))" if j: "j \<in> ?B" "j \<noteq> 0" for j
    proof -
      from all [OF j(1)] j(2) obtain c where c: "G j = Some c" by auto
      have "c \<in> set (group_ids (d_units g) c)" using own_okD(6) [OF own c] by (intro group_ids_first) simp
      with own_okD(7) [OF own c this] c f1 [OF j(2)] show ?thesis by simp
    qed
    have H0: "H 0 = None" by (rule own_okD(1) [OF own])
    have "inj_on f ?B"
    proof (rule inj_onI)
      fix j k assume jk: "j \<in> ?B" "k \<in> ?B" "f j = f k"
      have n: "f k \<noteq> 0" if "k \<noteq> 0" "k \<in> ?B" for k
      proof
        assume "f k = 0"
        with H [OF that(2,1)] H0 show False by simp
      qed
      have z: "j = 0 \<longleftrightarrow> k = 0" using n [of j] n [of k] f0 jk by (cases "j = 0"; cases "k = 0") simp_all
      show "j = k"
      proof (cases "j = 0")
        case False
        with z have "H (f j) = Some (j, the (G j))" "H (f k) = Some (k, the (G k))" using H jk(1,2) by blast+
        then show ?thesis unfolding jk(3) by simp
      qed (use z in simp)
    qed
    moreover have "f ` ?B \<subseteq> ?B"
    proof
      fix j assume "j \<in> f ` ?B"
      then obtain k where k: "k \<in> ?B" "j = f k" by blast
      have "256 dvd w + 256" using w(1) by simp
      note b = block_xor_bounds(2) [OF w(1), of k] block_xor_bounds(1) [OF \<open>256 dvd w + 256\<close>, of k]
      show "j \<in> ?B"
      proof (cases "k = 0")
        case True
        with k f0 show ?thesis by simp
      next
        case False
        with k show ?thesis unfolding B by (simp add: f1 b)
      qed
    qed
    ultimately have "f ` ?B = ?B" by (intro endo_inj_surj) auto
    moreover have "i \<in> ?B" using i(1,2) by (simp add: B)
    ultimately obtain j where "j \<in> ?B" "i = f j" by blast
    with H [of j] i(3,4) f0 show False by (cases "j = 0") simp_all
  qed
  then obtain uo where uo: "find (\<lambda>off. \<not> e_used (extras b off)) (block_ids (w div 256)) = Some uo"
    by (cases "find (\<lambda>off. \<not> e_used (extras b off)) (block_ids (w div 256))") (auto simp: find_None_iff)
  then have "uo \<in> ?B" "\<not> e_used (extras b uo)" by (auto simp: find_Some_iff)
  moreover from this have "G uo = None" using own_okD(9) [OF own, of uo] w(3) by (auto simp: B)
  ultimately show ?thesis using uo by (auto simp: first_unused_def B)
qed

lemma core_fix:
  assumes core: "core g v A P Cur w H G b xs" and lt: "w < length (b_units b)"
  shows "\<exists>b' xs'. fix_block (w div 256) b = Inr b' \<and> core g v A P Cur (w + 256) H G b' xs' \<and>
    length (b_units b') = length (b_units b) \<and> b_labels b' = b_labels b \<and>
    (\<forall>i. i = 0 \<or> H i \<noteq> None \<longrightarrow> b_units b' ! unat i = b_units b ! unat i)"
proof -
  let ?ids = "block_ids (w div 256)" and ?uo = "first_unused b (block_ids (w div 256))"
  have ring: "ring_ok w b xs" and win: "window_ok w b" and own: "own_ok g w Cur H G b"
    and un: "unit_ok g A P H G (b_units b)" and fl: "fill_ok w H G (b_units b)"
    and tb: "table_ok g v G (b_table b)" and pn: "pending_ok g P H" using core by (simp_all add: core_def)
  have d: "256 dvd w" "256 dvd length (b_units b)" "length (b_units b) \<le> 2 ^ 29" using win ring by (auto simp: window_ok_def ring_ok_def)
  then have le: "w + 256 \<le> length (b_units b)" using lt by (auto elim!: dvdE)
  then have small: "w + 256 < 4294967296" using d(3) by simp
  note B = mem_block_ids [OF d(1) small]
  have "\<forall>i \<in> set ?ids. w \<le> unat i \<and> unat i < length (b_units b)" using le by (auto simp: B)
  from fix_units_spec [OF ring this, of ?uo] obtain b' where b': "fix_block (w div 256) b = Inr b'"
    and r': "ring_ok w b' (filter (\<lambda>i. i \<notin> set ?ids) xs)" and len: "length (b_units b') = length (b_units b)"
    and lab: "b_labels b' = b_labels b" and tab: "b_table b' = b_table b"
    and used: "\<And>j. e_used (extras b' j) = e_used (extras b j)"
    and out: "\<And>j. slot j \<notin> slot ` set ?ids \<Longrightarrow> e_fixed (extras b' j) = e_fixed (extras b j)"
    and fx: "\<And>j. w \<le> unat j \<Longrightarrow> unat j < length (b_units b) \<Longrightarrow> e_fixed (extras b' j) = (j \<in> set ?ids \<or> e_fixed (extras b j))"
    and us: "\<And>j. b_units b' ! unat j = (if j \<in> set ?ids \<and> \<not> e_fixed (extras b j)
       then bu_set_label (ucast (j XOR ?uo)) (b_units b ! unat j) else b_units b ! unat j)"
    by (auto simp: fix_block_def)
  have same: "b_units b' ! unat i = b_units b ! unat i" if "i = 0 \<or> H i \<noteq> None" for i
  proof (cases "i \<in> set ?ids")
    case True
    then have "e_fixed (extras b i)" using own_okD(8) [OF own, of i] that le by (auto simp: B)
    then show ?thesis using us by simp
  qed (use us in simp)
  have "ring_ok (w + 256) b' (filter (\<lambda>i. i \<notin> set ?ids) xs)"
  proof -
    have "set (filter (\<lambda>i. i \<notin> set ?ids) xs) = {i. w + 256 \<le> unat i \<and> unat i < length (b_units b') \<and> \<not> e_fixed (extras b' i)}"
    proof -
      have "set (filter (\<lambda>i. i \<notin> set ?ids) xs) = {i. w \<le> unat i \<and> unat i < length (b_units b') \<and> \<not> e_fixed (extras b' i)}"
        using r' unfolding ring_ok_def by blast
      moreover have "e_fixed (extras b' i)" if "w \<le> unat i" "unat i < w + 256" for i using fx [of i] that le by (auto simp: B)
      ultimately show ?thesis by force
    qed
    then show ?thesis using r' unfolding ring_ok_def by simp
  qed
  moreover have "window_ok (w + 256) b'"
  proof -
    have "\<not> e_fixed (extras b' j) \<and> \<not> e_used (extras b' j)" if j: "length (b_units b) \<le> unat j" "unat j < 4096" for j
    proof -
      have "slot j \<noteq> slot i" if "i \<in> set ?ids" for i using that j le by (auto simp: slot_def B)
      then have "slot j \<notin> slot ` set ?ids" by blast
      from out [OF this] used win j show ?thesis by (simp add: window_ok_def)
    qed
    moreover have "b_units b' ! unat j = 0"
      if "w + 256 \<le> unat j" "unat j < length (b_units b)" "\<not> e_fixed (extras b' j)" for j
    proof -
      have "\<not> e_fixed (extras b j)" "j \<notin> set ?ids" using that fx [of j] by (auto simp: B)
      with us [of j] win that show ?thesis by (simp add: window_ok_def)
    qed
    ultimately show ?thesis using win le len by (auto simp: window_ok_def)
  qed
  moreover have "own_ok g (w + 256) Cur H G b'"
  proof -
    have "e_fixed (extras b' i) \<longleftrightarrow> i = 0 \<or> H i \<noteq> None" if "w + 256 \<le> unat i" "unat i < length (b_units b)" for i
      using fx [of i] own_okD(8) [OF own, of i] that by (auto simp: B)
    moreover have "e_used (extras b' i) \<longleftrightarrow> i = 0 \<or> G i \<noteq> None" if "w + 256 \<le> unat i" "unat i < length (b_units b)" for i
      using used [of i] own_okD(9) [OF own, of i] that by auto
    ultimately show ?thesis using own unfolding own_ok_def len by simp
  qed
  moreover have "unit_ok g A P H G (b_units b')"
    using un same [of 0] same unfolding unit_ok_def by simp
  moreover have "fill_ok (w + 256) H G (b_units b')" unfolding fill_ok_def
  proof (intro allI impI)
    fix i assume i: "unat i < w + 256" "i \<noteq> 0" "H i = None"
    show "\<exists>uo. unat uo div 256 = unat i div 256 \<and> G uo = None \<and> unit_label (b_units b' ! unat i) = i XOR uo"
    proof (cases "unat i < w")
      case True
      then have "b_units b' ! unat i = b_units b ! unat i" using us [of i] by (simp add: B)
      with fl True i(2,3) show ?thesis by (simp add: fill_ok_def)
    next
      case False
      then have w: "w \<le> unat i" by simp
      have nf: "\<not> e_fixed (extras b i)" using own_okD(8) [OF own w] i le by simp
      from unused_offset [OF own d(1) small le w i] obtain uo where
        uo: "?uo = uo" "w \<le> unat uo" "unat uo < w + 256" "G uo = None" by blast
      have blk: "unat i div 256 = unat uo div 256"
        using block_id_div [OF d(1) w i(1)] block_id_div [OF d(1) uo(2,3)] by simp
      have "b_units b ! unat i = 0" using win w nf i(1) le by (simp add: window_ok_def)
      then have "b_units b' ! unat i = bu_set_label (ucast (i XOR uo)) 0" using us [of i] w i(1) nf uo(1) by (simp add: B)
      moreover have "is_node 0" by (simp add: is_node_def)
      ultimately have "unit_label (b_units b' ! unat i) = ucast (ucast (i XOR uo) :: uchar_type)"
        using set_label_unit(1) [of 0 "ucast (i XOR uo)"] by (simp only:)
      with blk uo(4) show ?thesis using same_block_label [OF blk] by (intro exI [of _ uo]) simp
    qed
  qed
  ultimately have "core g v A P Cur (w + 256) H G b' (filter (\<lambda>i. i \<notin> set ?ids) xs)"
    using tab tb pn by (simp add: core_def)
  with b' len lab same show ?thesis by blast
qed

subsection \<open>Adding a block\<close>

lemma core_add_block:
  assumes core: "core g v A P Cur w H G b xs" and src: "src = length (b_units b)"
    and room: "src + 256 \<le> w + 4096" "src + 256 \<le> 2 ^ 29" and full: "full \<or> src + 256 \<le> 4096"
  shows "\<exists>xs'. core g v A P Cur w H G (add_block full src b) xs'"
    and "length (b_units (add_block full src b)) = src + 256" "b_labels (add_block full src b) = b_labels b"
    and "i = 0 \<or> H i \<noteq> None \<Longrightarrow> b_units (add_block full src b) ! unat i = b_units b ! unat i"
proof -
  let ?b = "add_block full src b" and ?S = "(\<lambda>t. slot (new_id src t)) ` {..<256}"
  have ring: "ring_ok w b xs" and win: "window_ok w b" and own: "own_ok g w Cur H G b"
    and un: "unit_ok g A P H G (b_units b)" and fl: "fill_ok w H G (b_units b)"
    and tb: "table_ok g v G (b_table b)" and pn: "pending_ok g P H" using core by (simp_all add: core_def)
  have w: "w \<le> src" "256 dvd w" "256 dvd src" "256 \<le> src" using win src by (auto simp: window_ok_def)
  have small: "src + 256 < 4294967296" using room(2) by simp
  have uid: "unat (new_id src t) = src + t" if "t < 256" for t by (rule unat_new_id) (use small that in linarith)
  have "full \<or> (\<forall>t < 256. \<not> e_fixed (extras b (new_id src t)) \<and> \<not> e_used (extras b (new_id src t)))"
  proof (cases full)
    case False
    then have "src \<le> unat (new_id src t)" "unat (new_id src t) < 4096" if "t < 256" for t
      using full that unfolding uid [OF that] by simp_all
    with win src show ?thesis unfolding window_ok_def by blast
  qed simp
  note add = add_block_ring [OF ring src room w(1) this]
  have old: "slot j \<notin> ?S" if j: "unat j < src" "w \<le> unat j \<or> src + 256 \<le> 4096" for j
  proof
    assume "slot j \<in> ?S"
    then obtain t where t: "t < 256" "slot j = slot (new_id src t)" by blast
    have "unat j \<noteq> unat (new_id src t)" using j(1) unfolding uid [OF t(1)] by simp
    moreover have "slot j = slot (new_id src t) \<longleftrightarrow> j = new_id src t"
    proof (cases "w \<le> unat j")
      case True
      then show ?thesis using j(1) room(1) w(1) t(1) uid [OF t(1)] by (intro slot_eq [of w]) linarith+
    next
      case False
      then have "src + 256 \<le> 4096" using j(2) by simp
      then show ?thesis using j(1) t(1) uid [OF t(1)] by (intro slot_eq [of 0]) linarith+
    qed
    ultimately show False using t(2) by simp
  qed
  have new: "\<exists>t < 256. j = new_id src t" if "src \<le> unat j" "unat j < src + 256" for j
    using that by (intro exI [of _ "unat j - src"]) simp
  have len: "length (b_units ?b) = src + 256" using add(2) src by simp
  then show "length (b_units ?b) = src + 256" "b_labels ?b = b_labels b" using add(3) by simp_all
  have unit: "b_units ?b ! k = b_units b ! k" if "k < src" for k unfolding add(2) using that src by (simp add: nth_append)
  have unit0: "b_units ?b ! k = 0" if "src \<le> k" "k < src + 256" for k unfolding add(2) using that src by (simp add: nth_append)
  have nfix: "\<not> e_fixed (extras ?b j) \<and> \<not> e_used (extras ?b j)" if "src \<le> unat j" "unat j < src + 256" for j
  proof -
    from new [OF that] obtain t where t: "t < 256" "j = new_id src t" by blast
    have "j \<in> set (xs @ map (new_id src) [0..<256])" using t by auto
    then have "\<not> e_fixed (extras ?b j)" using add(1) unfolding ring_ok_def by blast
    with add(5) [OF t(1)] t(2) show ?thesis by simp
  qed
  have Hr: "unat i < src" if "H i \<noteq> None" for i using that own_okD(4) [OF own, of i] src by auto
  have Gr: "unat i < src" if G: "G i = Some c" for i c
  proof -
    have "c \<in> set (group_ids (d_units g) c)" using own_okD(6) [OF own G] by (intro group_ids_first) simp
    from own_okD(7) [OF own G this] Hr have "unat (i XOR ucast (d_labels g ! c)) < src" by blast
    then show ?thesis using block_xor_bounds(1) [OF w(3)] by simp
  qed
  have z: "0 < src" "unat (0 :: id_type) < src" using w(4) by simp_all
  show "i = 0 \<or> H i \<noteq> None \<Longrightarrow> b_units ?b ! unat i = b_units b ! unat i" using Hr [of i] z by (intro unit) auto
  have "window_ok w ?b" unfolding window_ok_def len
  proof (intro conjI allI impI)
    fix j :: id_type assume j: "src + 256 \<le> unat j" "unat j < 4096"
    have "slot j \<notin> ?S"
    proof
      assume "slot j \<in> ?S"
      then obtain t where t: "t < 256" "slot j = slot (new_id src t)" by blast
      then show False using slot_eq [of 0 j "new_id src t"] j uid [OF t(1)] by auto
    qed
    from add(6) [OF this] j win src show "\<not> e_fixed (extras ?b j)" "\<not> e_used (extras ?b j)" by (auto simp: window_ok_def)
  next
    fix j :: id_type assume j: "w \<le> unat j" "unat j < src + 256" "\<not> e_fixed (extras ?b j)"
    show "b_units ?b ! unat j = 0"
    proof (cases "unat j < src")
      case True
      then have "\<not> e_fixed (extras b j)" using j add(6) [OF old] by simp
      then show ?thesis unfolding unit [OF True] using win True j(1) unfolding window_ok_def src by blast
    qed (use unit0 j in simp)
  qed (use w in simp_all)
  moreover have "own_ok g w Cur H G ?b"
  proof -
    have "(e_fixed (extras ?b i) \<longleftrightarrow> i = 0 \<or> H i \<noteq> None) \<and> (e_used (extras ?b i) \<longleftrightarrow> i = 0 \<or> G i \<noteq> None)"
      if i: "w \<le> unat i" "unat i < src + 256" for i
    proof (cases "unat i < src")
      case True
      then show ?thesis using add(6) [OF old [OF True]] i(1) own_okD(8,9) [OF own, of i] src by simp
    next
      case False
      then have "H i = None" "G i = None" "i \<noteq> 0"
        using Hr [of i] Gr [of i] z(2) by (blast, cases "G i", simp_all, blast)
      with nfix [of i] False i(2) show ?thesis by simp
    qed
    then show ?thesis using own src unfolding own_ok_def len by (auto intro: less_trans [of _ src])
  qed
  moreover have "unit_ok g A P H G (b_units ?b)"
    using un unit [OF z(1)] Hr unfolding unit_ok_def by (simp add: unit)
  moreover have "fill_ok w H G (b_units ?b)" using fl w(1) unfolding fill_ok_def by (simp add: unit)
  ultimately show "\<exists>xs'. core g v A P Cur w H G ?b xs'" using add(1) tb pn by (auto simp: core_def add(4))
qed

text \<open>Between two steps the window is the last 16 blocks.\<close>

definition main_core ::
    "DawgBuilder \<Rightarrow> BitVector \<Rightarrow> id_type set \<Rightarrow> id_type set \<Rightarrow> id_type set \<Rightarrow> owners \<Rightarrow> groups \<Rightarrow> DaBuilder \<Rightarrow> bool" where
  "main_core g v A P Cur H G b \<longleftrightarrow> (\<exists>xs. core g v A P Cur (length (b_units b) - 4096) H G b xs)"

lemma core_expand:
  assumes core: "main_core g v A P Cur H G b" and small: "length (b_units b) + 256 \<le> 2 ^ 29"
  shows "\<exists>b'. expand_units b = Inr b' \<and> main_core g v A P Cur H G b' \<and>
    length (b_units b') = length (b_units b) + 256 \<and>
    (\<forall>i. i = 0 \<or> H i \<noteq> None \<longrightarrow> b_units b' ! unat i = b_units b ! unat i)"
proof -
  let ?n = "length (b_units b)"
  from core obtain xs where c: "core g v A P Cur (?n - 4096) H G b xs" by (auto simp: main_core_def)
  have d: "256 dvd ?n" "256 \<le> ?n" using c by (auto simp: core_def window_ok_def)
  then obtain q where q: "?n = 256 * q" by auto
  have nb: "num_blocks b = q" using q by (simp add: num_blocks_def)
  show ?thesis
  proof (cases "16 < num_blocks b + 1")
    case True
    then have n: "4096 \<le> ?n" using q nb by simp
    then have e: "(?n - 4096) div 256 = num_blocks b - 16" and lt: "?n - 4096 < ?n" unfolding nb q by simp_all
    from core_fix [OF c lt, unfolded e] obtain b1 xs1 where b1: "fix_block (num_blocks b - 16) b = Inr b1"
      "core g v A P Cur (?n - 4096 + 256) H G b1 xs1" "length (b_units b1) = ?n"
      "\<And>i. i = 0 \<or> H i \<noteq> None \<Longrightarrow> b_units b1 ! unat i = b_units b ! unat i"
      by blast
    have "?n + 256 \<le> ?n - 4096 + 256 + 4096" using n by simp
    note add = core_add_block [OF b1(2) b1(3) [symmetric] this small, of True]
    have "?n - 4096 + 256 = ?n + 256 - 4096" using n by simp
    moreover have "expand_units b = Inr (add_block True ?n b1)" using True b1(1) by (simp add: expand_units_def)
    ultimately show ?thesis using b1(3,4) add unfolding main_core_def by (intro exI [of _ "add_block True ?n b1"]) auto
  next
    case False
    then have lt: "?n + 256 \<le> 4096" using q nb by simp
    then have "?n + 256 \<le> ?n - 4096 + 4096" by simp
    note add = core_add_block [OF c refl this small, of False]
    have "?n - 4096 = ?n + 256 - 4096" using lt by simp
    moreover have "expand_units b = Inr (add_block False ?n b)" using False by (simp add: expand_units_def)
    ultimately show ?thesis using add unfolding main_core_def by (intro exI [of _ "add_block False ?n b"]) auto
  qed
qed

end
