(* ===== verification/Da_Place.thy ===== *)
theory Da_Place
  imports Da_Layout
begin

unbundle bit_operations_syntax

text \<open>
  Placing the groups of the word graph (\<^verbatim>\<open>find_valid_offset\<close>, \<^verbatim>\<open>arrange_from_dawg\<close> and the two
  \<^verbatim>\<open>build_from_dawg\<close> of \<open>Da_Builder\<close>) keeps the invariant of \<open>Da_Layout\<close>; the only failure is the
  exception for an offset of 30 bits, which an array of fewer than \<open>2 ^ 29\<close> units never raises.
\<close>

section \<open>The offset of a group\<close>

lemma ring_length:
  assumes "ring_ok w b xs"
  shows "length xs \<le> 4096"
proof -
  have "inj_on slot (set xs)" using ring_ok_slot [OF assms] by (auto simp: inj_on_def)
  moreover have "distinct xs" using assms ring_distinct unfolding ring_ok_def by blast
  ultimately have "card (slot ` set xs) = length xs" by (simp only: card_image distinct_card)
  moreover have "card (slot ` set xs) \<le> card {..<4096 :: nat}" by (rule card_mono) (auto simp: slot_def)
  ultimately show ?thesis by simp
qed

lemma find_offset_walk:
  assumes "linked (ring_links b) x ys (b_head b)" "b_head b \<notin> set ys" "length ys < fuel"
  shows "\<exists>off. find_offset fuel b i l x = Inr off \<and>
    (off = new_offset b i \<or> (\<exists>y \<in> set (x # ys). off = y XOR ucast l \<and> is_valid_offset b i off))"
  using assms
proof (induction fuel arbitrary: x ys)
  case (Suc fuel)
  show ?case
  proof (cases "is_valid_offset b i (x XOR ucast l)")
    case False
    show ?thesis
    proof (cases ys)
      case Nil
      with Suc.prems False show ?thesis by simp
    next
      case (Cons y zs)
      with Suc.prems have "linked (ring_links b) y zs (b_head b)" "b_head b \<notin> set zs" "length zs < fuel"
        and n: "e_next (extras b x) = y" "y \<noteq> b_head b" by auto
      from Suc.IH [OF this(1-3)] False n Cons show ?thesis by auto
    qed
  qed simp
qed simp

lemma new_offset_block:
  assumes "256 dvd length (b_units b)" "length (b_units b) \<le> 2 ^ 29"
  shows "unat (new_offset b i) div 256 = length (b_units b) div 256" "encodable (i XOR new_offset b i)"
proof -
  let ?n = "of_nat (length (b_units b)) :: id_type"
  have un: "unat ?n = length (b_units b)" using assms(2) by (simp add: unat_of_nat_less)
  have b: "bit (new_offset b i) k \<longleftrightarrow> bit ?n k \<or> k < 8 \<and> bit i k" for k
    by (auto simp: new_offset_def bit_or_iff bit_and_iff bit_LOWER)
  have "drop_bit 8 (new_offset b i) = drop_bit 8 ?n" by (rule bit_word_eqI) (simp add: bit_drop_bit_eq b)
  then have "unat (drop_bit 8 (new_offset b i)) = unat (drop_bit 8 ?n)" by (rule arg_cong)
  then show "unat (new_offset b i) div 256 = length (b_units b) div 256" unfolding unat_block un .
  have low: "\<not> bit ?n k" if "k < 8" for k
  proof -
    have "take_bit 8 (length (b_units b)) = 0" using assms(1) by (auto simp: take_bit_eq_mod)
    then have "\<not> bit (take_bit 8 (length (b_units b))) k" by simp
    then have "\<not> bit (length (b_units b)) k" using that by (simp add: bit_take_bit_iff)
    then show ?thesis by (simp add: bit_simps)
  qed
  have "\<not> bit (i XOR new_offset b i) k" if "k < 8" for k using low [OF that] that by (simp add: bit_xor_iff b)
  then show "encodable (i XOR new_offset b i)" unfolding encodable_bits by blast
qed

text \<open>What \<^verbatim>\<open>find_valid_offset\<close> promises: an offset in the window at which all children are free, or one in a new block.\<close>

lemma find_valid_offset_spec:
  assumes core: "core g v A P Cur w H G b xs" and lab: "b_labels b = map ((!) (d_labels g)) cs" and ne: "cs \<noteq> []"
  shows "\<exists>off. find_valid_offset b i = Inr off \<and> off \<noteq> 0 \<and> G off = None \<and> encodable (i XOR off) \<and>
    (w \<le> unat off \<and> unat off < length (b_units b) \<and> (\<forall>u \<in> set cs. off XOR ucast (d_labels g ! u) \<in> set xs) \<or>
     unat off div 256 = length (b_units b) div 256)"
proof -
  let ?n = "length (b_units b)"
  have ring: "ring_ok w b xs" and own: "own_ok g w Cur H G b" and n: "256 dvd ?n" "256 \<le> ?n" "256 dvd w"
    using core by (auto simp: core_def window_ok_def)
  have small: "?n \<le> 2 ^ 29" using ring by (simp add: ring_ok_def)
  have head: "b_head b = (case xs of [] \<Rightarrow> of_nat ?n | x # _ \<Rightarrow> x)" using ring by (simp add: ring_ok_def)
  have new: "new_offset b i \<noteq> 0 \<and> G (new_offset b i) = None"
  proof -
    note nb = new_offset_block(1) [OF n(1) small, of i]
    have ge: "?n \<le> unat (new_offset b i)" using block_bounds(2) [OF nb n(1)] by simp
    have "unat (new_offset b i) < ?n" if G: "G (new_offset b i) = Some c" for c
    proof -
      have "c \<in> set (group_ids (d_units g) c)" using own_okD(6) [OF own G] by (intro group_ids_first) simp
      from own_okD(7) [OF own G this] have "unat (new_offset b i XOR ucast (d_labels g ! c)) < ?n" by (rule own_okD(4) [OF own])
      then show ?thesis using block_xor_bounds(1) [OF n(1)] by simp
    qed
    then have "G (new_offset b i) = None" using ge by (cases "G (new_offset b i)") auto
    moreover have "new_offset b i \<noteq> 0" using ge n(2) by auto
    ultimately show ?thesis by simp
  qed
  show ?thesis
  proof (cases xs)
    case Nil
    then have "unat (b_head b) = ?n" using head small by (simp add: unat_of_nat_less)
    then have "find_valid_offset b i = Inr (new_offset b i)" by (simp add: find_valid_offset_def)
    with new new_offset_block [OF n(1) small] show ?thesis by blast
  next
    case (Cons x ys)
    then have h: "b_head b = x" using head by simp
    have x: "unat x < ?n" using ring Cons by (auto simp: ring_ok_def)
    obtain c cs' where cs: "cs = c # cs'" using ne by (cases cs) auto
    let ?l = "d_labels g ! c"
    have "linked (ring_links b) x ys (b_head b)" "b_head b \<notin> set ys" using ring Cons h by (auto simp: ring_ok_def ll_rep_def)
    moreover have "length ys < 4096" using ring_length [OF ring] Cons by simp
    ultimately obtain off where off: "find_offset 4096 b i ?l x = Inr off"
      "off = new_offset b i \<or> (\<exists>y \<in> set xs. off = y XOR ucast ?l \<and> is_valid_offset b i off)"
      using find_offset_walk [of b x ys 4096 i ?l] Cons by auto
    have f: "find_valid_offset b i = Inr off" using off(1) x h lab cs by (simp add: find_valid_offset_def)
    from off(2) show ?thesis
    proof
      assume "off = new_offset b i"
      with f new new_offset_block [OF n(1) small] show ?thesis by blast
    next
      assume "\<exists>y \<in> set xs. off = y XOR ucast ?l \<and> is_valid_offset b i off"
      then obtain y where y: "y \<in> set xs" "off = y XOR ucast ?l" and val: "is_valid_offset b i off" by blast
      have yw: "w \<le> unat y" "unat y < ?n" using y(1) ring by (auto simp: ring_ok_def)
      then have ow: "w \<le> unat off" "unat off < ?n"
        using block_xor_bounds(2) [OF n(3), of y] block_xor_bounds(1) [OF n(1), of y] y(2) by simp_all
      have "\<not> e_used (extras b off)" using val by (simp add: is_valid_offset_def)
      then have "off \<noteq> 0" "G off = None" using own_okD(9) [OF own ow] by blast+
      moreover have "encodable (i XOR off)" using val by (auto simp: is_valid_offset_def encodable_def)
      moreover have "off XOR ucast (d_labels g ! u) \<in> set xs" if u: "u \<in> set cs" for u
      proof (cases "u = c")
        case True
        with y show ?thesis by simp
      next
        case False
        then have "d_labels g ! u \<in> set (tl (b_labels b))" using u lab cs by auto
        then have "\<not> e_fixed (extras b (off XOR ucast (d_labels g ! u)))"
          using val by (auto simp: is_valid_offset_def list_all_iff)
        moreover have "w \<le> unat (off XOR ucast (d_labels g ! u))" "unat (off XOR ucast (d_labels g ! u)) < ?n"
          using block_xor_bounds(2) [OF n(3), of off] block_xor_bounds(1) [OF n(1), of off] ow by simp_all
        ultimately show ?thesis using ring by (simp add: ring_ok_def)
      qed
      ultimately show ?thesis using f ow by blast
    qed
  qed
qed

section \<open>Placing the children of a group\<close>

lemma unlink_units: "length us = length (b_units b) \<Longrightarrow>
    unlink_id i (b\<lparr>b_units := us\<rparr>) = (unlink_id i b)\<lparr>b_units := us\<rparr>"
  by (rule DaBuilder.equality) (simp_all add: unlink_id_def Let_def set_extra_defs upd_extra_def extras_def)

definition child_ids :: "DawgBuilder \<Rightarrow> id_type \<Rightarrow> nat list \<Rightarrow> id_type set" where
  "child_ids g off cs = {off XOR ucast (d_labels g ! u) | u. u \<in> set cs \<and> d_labels g ! u \<noteq> 0}"

lemma du_value_bound: "du_value u < 2 ^ 31"
  using sint_lt [of "drop_bit 1 u"] by (simp add: du_value_def)

lemma fresh_entry_new:
  assumes wf: "store_wf (d_units g) (d_labels g)" and u: "0 < u" "u < length (d_units g)"
  shows "fresh_entry g u (if d_labels g ! u = 0 then bu_set_value (du_value (d_units g ! u)) 0 else bu_set_label (d_labels g ! u) 0)"
proof (cases "d_labels g ! u = 0")
  case True
  then have "0 \<le> du_value (d_units g ! u)" using wf u by (simp add: store_wf_def)
  with True show ?thesis using set_value_unit du_value_bound by (simp add: fresh_entry_def)
next
  case False
  have "is_node 0" "\<not> has_leaf 0" by (simp_all add: is_node_def has_leaf_bit)
  with False show ?thesis using set_label_unit [of 0] by (simp add: fresh_entry_def)
qed

lemma place_child_step:
  assumes core: "core g v {dic} P {off} w H G b xs" and tgt: "node_target g H dic cd" and dP: "dic \<notin> P"
    and wf: "store_wf (d_units g) (d_labels g)" and u: "0 < u" "u < length (d_units g)"
    and i: "i = off XOR ucast (d_labels g ! u)" "i \<in> set xs"
  shows "\<exists>b'. place_children g dic off (u # cs) b = place_children g dic off cs b' \<and>
    core g v {dic} (if d_labels g ! u = 0 then P else insert i P) {off} w (H(i \<mapsto> (off, u))) G b' (remove1 i xs) \<and>
    length (b_units b') = length (b_units b) \<and> b_labels b' = b_labels b \<and>
    unit_offset (b_units b' ! unat dic) = unit_offset (b_units b ! unat dic) \<and>
    (has_leaf (b_units b' ! unat dic) \<longleftrightarrow> has_leaf (b_units b ! unat dic) \<or> d_labels g ! u = 0)"
proof -
  let ?l = "d_labels g ! u" and ?us = "b_units b" and ?x = "b_units b ! unat dic"
  have ring: "ring_ok w b xs" and win: "window_ok w b" using core by (simp_all add: core_def)
  have iw: "w \<le> unat i" "unat i < length ?us" "\<not> e_fixed (extras b i)" using ring i(2) by (auto simp: ring_ok_def)
  have dr: "unat dic < length ?us" "w \<le> unat dic \<Longrightarrow> e_fixed (extras b dic)" using node_in_range [OF core tgt] by blast+
  have ne: "unat i \<noteq> unat dic" using iw dr(2) by (intro unat_neq) auto
  have zero: "?us ! unat i = 0" using win iw by (simp add: window_ok_def)
  have lu: "u < length (d_labels g)" using wf u(2) by (simp add: store_wf_def)
  note x = fresh_entry_new [OF wf u]
  show ?thesis
  proof (cases "?l = 0")
    case False
    let ?b = "(unlink_id i b)\<lparr>b_units := ?us[unat i := bu_set_label ?l 0]\<rparr>"
    have "place_children g dic off (u # cs) b = place_children g dic off cs ?b"
      using False lu iw(2) zero by (simp add: i(1) [symmetric] reserve_id_def upd_unit_ok Let_def)
    moreover have "core g v {dic} (insert i P) {off} w (H(i \<mapsto> (off, u))) G ?b (remove1 i xs)"
      using core_place [OF core i(2,1) u(2), of "bu_set_label ?l 0"] x False by simp
    ultimately show ?thesis using False ne by (intro exI [of _ ?b]) simp
  next
    case True
    let ?v = "bu_set_value (du_value (d_units g ! u)) 0"
    let ?b1 = "b\<lparr>b_units := ?us[unat dic := bu_set_has_leaf True ?x]\<rparr>"
    have ns: "is_node ?x" using node_unit_state [OF core tgt] by (simp add: node_state_def)
    have "node_state g {dic} P G dic (bu_set_has_leaf True ?x) cd"
      using dP ns by (simp add: node_state_def set_leaf_unit)
    then have c1: "core g v {dic} P {off} w H G ?b1 xs"
      by (intro core_node [OF core tgt]) (simp_all add: set_leaf_unit)
    let ?b = "(unlink_id i ?b1)\<lparr>b_units := (b_units ?b1)[unat i := ?v]\<rparr>"
    have "core g v {dic} P {off} w (H(i \<mapsto> (off, u))) G ?b (remove1 i xs)"
      using core_place [OF c1 i(2,1) u(2), of ?v] x True by simp
    moreover have "place_children g dic off (u # cs) b = place_children g dic off cs ?b"
    proof -
      have io: "off = i" using i(1) True by simp
      show ?thesis unfolding io using True lu iw(2) dr(1) zero ne
        by (simp add: reserve_id_def upd_unit_ok Let_def unlink_units)
    qed
    ultimately show ?thesis using True ne dr(1) by (intro exI [of _ ?b]) (simp add: set_leaf_unit)
  qed
qed

lemma node_target_mono: "node_target g H i c \<Longrightarrow> H \<subseteq>\<^sub>m H' \<Longrightarrow> node_target g H' i c"
  unfolding node_target_def map_le_def by (metis domI)

lemma place_children_spec:
  assumes "core g v {dic} P {off} w H G b xs" "node_target g H dic cd" "dic \<notin> P"
    and wf: "store_wf (d_units g) (d_labels g)"
    and "\<forall>u \<in> set cs. 0 < u \<and> u < length (d_units g) \<and> off XOR ucast (d_labels g ! u) \<in> set xs"
    and "distinct (map ((!) (d_labels g)) cs)"
  shows "\<exists>b' H' xs'. place_children g dic off cs b = Inr b' \<and>
    core g v {dic} (P \<union> child_ids g off cs) {off} w H' G b' xs' \<and> H \<subseteq>\<^sub>m H' \<and>
    (\<forall>u \<in> set cs. H' (off XOR ucast (d_labels g ! u)) = Some (off, u)) \<and>
    (\<forall>j u. H' j = Some (off, u) \<longrightarrow> H j = Some (off, u) \<or> u \<in> set cs) \<and>
    length (b_units b') = length (b_units b) \<and> b_labels b' = b_labels b \<and>
    unit_offset (b_units b' ! unat dic) = unit_offset (b_units b ! unat dic) \<and>
    (has_leaf (b_units b' ! unat dic) \<longleftrightarrow> has_leaf (b_units b ! unat dic) \<or> (\<exists>u \<in> set cs. d_labels g ! u = 0))"
  using assms(1-3,5,6)
proof (induction cs arbitrary: b H P xs)
  case Nil
  then show ?case by (auto simp: child_ids_def)
next
  case (Cons u cs)
  let ?i = "off XOR ucast (d_labels g ! u)"
  let ?P = "if d_labels g ! u = 0 then P else insert ?i P" and ?H = "H(?i \<mapsto> (off, u))"
  have u: "0 < u" "u < length (d_units g)" "?i \<in> set xs" using Cons.prems(4) by auto
  from place_child_step [OF Cons.prems(1-3) wf u(1,2) refl u(3), of cs] obtain b1 where
    b1: "place_children g dic off (u # cs) b = place_children g dic off cs b1"
      "core g v {dic} ?P {off} w ?H G b1 (remove1 ?i xs)"
      "length (b_units b1) = length (b_units b)" "b_labels b1 = b_labels b"
      "unit_offset (b_units b1 ! unat dic) = unit_offset (b_units b ! unat dic)"
      "has_leaf (b_units b1 ! unat dic) \<longleftrightarrow> has_leaf (b_units b ! unat dic) \<or> d_labels g ! u = 0" by blast
  have ring: "ring_ok w b xs" and own: "own_ok g w {off} H G b" using Cons.prems(1) by (simp_all add: core_def)
  have iw: "w \<le> unat ?i" "unat ?i < length (b_units b)" "\<not> e_fixed (extras b ?i)" using ring u(3) by (auto simp: ring_ok_def)
  have Hi: "H ?i = None" "?i \<noteq> 0" using own_okD(8) [OF own iw(1,2)] iw(3) by blast+
  have le: "H \<subseteq>\<^sub>m ?H" using Hi(1) by (simp add: map_le_def dom_def)
  have tgt: "node_target g ?H dic cd" by (rule node_target_mono [OF Cons.prems(2) le])
  have "dic \<noteq> ?i" using Cons.prems(2) Hi by (auto simp: node_target_def)
  then have dP: "dic \<notin> ?P" using Cons.prems(3) by simp
  have dist: "d_labels g ! u \<noteq> d_labels g ! t" if "t \<in> set cs" for t using Cons.prems(5) that by auto
  then have "off XOR ucast (d_labels g ! t) \<noteq> ?i" if "t \<in> set cs" for t using that xor_label_inj by metis
  then have "\<forall>t \<in> set cs. 0 < t \<and> t < length (d_units g) \<and> off XOR ucast (d_labels g ! t) \<in> set (remove1 ?i xs)"
    using Cons.prems(4) by (auto simp: in_set_remove1)
  moreover have "distinct (map ((!) (d_labels g)) cs)" using Cons.prems(5) by simp
  ultimately obtain b' H' xs' where IH: "place_children g dic off cs b1 = Inr b'"
    "core g v {dic} (?P \<union> child_ids g off cs) {off} w H' G b' xs'" "?H \<subseteq>\<^sub>m H'"
    "\<And>u. u \<in> set cs \<Longrightarrow> H' (off XOR ucast (d_labels g ! u)) = Some (off, u)"
    "\<And>j t. H' j = Some (off, t) \<Longrightarrow> ?H j = Some (off, t) \<or> t \<in> set cs"
    "length (b_units b') = length (b_units b1)" "b_labels b' = b_labels b1"
    "unit_offset (b_units b' ! unat dic) = unit_offset (b_units b1 ! unat dic)"
    "has_leaf (b_units b' ! unat dic) \<longleftrightarrow> has_leaf (b_units b1 ! unat dic) \<or> (\<exists>u \<in> set cs. d_labels g ! u = 0)"
    using Cons.IH [OF b1(2) tgt dP] by blast
  have "?P \<union> child_ids g off cs = P \<union> child_ids g off (u # cs)" by (auto simp: child_ids_def)
  moreover have "H \<subseteq>\<^sub>m H'" using le IH(3) by (rule map_le_trans)
  moreover have "H' ?i = Some (off, u)" using IH(3) by (simp add: map_le_def)
  moreover have "H j = Some (off, t) \<or> t \<in> set (u # cs)" if "H' j = Some (off, t)" for j t
    using IH(5) [OF that] by (auto split: if_splits)
  ultimately show ?case using b1 IH by (intro exI [of _ b'] exI [of _ H'] exI [of _ xs']) auto
qed

section \<open>A whole group\<close>

lemma core_open: "core g v A P {} w H G b xs \<Longrightarrow> G off = None \<Longrightarrow> core g v A P {off} w H G b xs"
  unfolding core_def own_ok_def by (elim conjE, intro conjI, assumption+) auto

lemma core_labels [simp]: "core g v A P Cur w H G (b\<lparr>b_labels := ls\<rparr>) xs = core g v A P Cur w H G b xs"
  by (simp add: core_def own_ok_def window_ok_def)

lemma used_fields:
  "b_units (set_is_used i x b) = b_units b" "b_labels (set_is_used i x b) = b_labels b"
  "b_table (set_is_used i x b) = b_table b" "b_head (set_is_used i x b) = b_head b"
  "length (b_extras (set_is_used i x b)) = length (b_extras b)"
  by (simp_all add: set_extra_defs)

lemma used_extras:
  assumes "length (b_extras b) = 4096"
  shows "e_used (extras (set_is_used i x b) j) = (if slot j = slot i then x else e_used (extras b j))"
    "e_fixed (extras (set_is_used i x b) j) = e_fixed (extras b j)"
    "ring_links (set_is_used i x b) = ring_links b"
  using assms by (auto simp: set_extra_defs extras_upd ring_links_def)

lemma core_finish:
  assumes core: "core g v {dic} P {off} w H G b xs" and tgt: "node_target g H dic c" and dP: "dic \<notin> P"
    and off: "off \<noteq> 0" "G off = None" "w \<le> unat off" "unat off < length (b_units b)"
    and c: "0 < c" "c < length (d_units g)"
    and H: "\<And>u. u \<in> set (group_ids (d_units g) c) \<Longrightarrow> H (off XOR ucast (d_labels g ! u)) = Some (off, u)"
    and H': "\<And>j u. H j = Some (off, u) \<Longrightarrow> u \<in> set (group_ids (d_units g) c)"
    and x: "dic XOR unit_offset (b_units b ! unat dic) = off" "has_leaf (b_units b ! unat dic) \<longleftrightarrow> leafy g c"
  shows "core g v {} P {} w H (G(off \<mapsto> c)) (set_is_used off True b) xs"
proof -
  let ?G = "G(off \<mapsto> c)" and ?b = "set_is_used off True b"
  have ring: "ring_ok w b xs" and win: "window_ok w b" and own: "own_ok g w {off} H G b"
    and un: "unit_ok g {dic} P H G (b_units b)" and fl: "fill_ok w H G (b_units b)"
    and tb: "table_ok g v G (b_table b)" and pn: "pending_ok g P H" using core by (simp_all add: core_def)
  have len: "length (b_extras b) = 4096" using ring by (simp add: ring_ok_def)
  note ue = used_extras [OF len, of off True]
  have mono: "\<And>o' d. G o' = Some d \<Longrightarrow> ?G o' = Some d" using off(2) by auto
  have nd: "node_state g {} P ?G dic (b_units b ! unat dic) c"
    using node_unit_state [OF core tgt] dP x by (simp add: node_state_def)
  have "unit_ok g {} P H ?G (b_units b)" unfolding unit_ok_def
  proof (intro conjI allI impI)
    fix i o' u assume Hi: "H i = Some (o', u)"
    have e: "entry_state g {dic} P G i u (b_units b ! unat i)" using un Hi by (simp add: unit_ok_def)
    show "entry_state g {} P ?G i u (b_units b ! unat i)"
    proof (cases "i = dic")
      case True
      then have "d_labels g ! u \<noteq> 0" "c = unat (du_child (d_units g ! u))"
        using tgt Hi own_okD(1) [OF own] by (auto simp: node_target_def)
      with e nd True show ?thesis by (simp add: entry_state_def)
    next
      case False
      then show ?thesis by (intro entry_state_cong [OF e] mono) simp_all
    qed
  next
    have n: "node_state g {dic} P G 0 (b_units b ! 0) (root_child g)" using un by (simp add: unit_ok_def)
    show "unit_label (b_units b ! 0) = 0" using un by (simp add: unit_ok_def)
    show "node_state g {} P ?G 0 (b_units b ! 0) (root_child g)"
    proof (cases "dic = 0")
      case True
      then have "c = root_child g" using tgt own_okD(1) [OF own] by (auto simp: node_target_def)
      with nd True show ?thesis by simp
    next
      case False
      then show ?thesis by (intro node_state_cong [OF n] mono) simp_all
    qed
  qed
  moreover have "own_ok g w {} H ?G ?b" unfolding own_ok_def
  proof (intro conjI allI impI ballI)
    show "H 0 = None" by (rule own_okD(1) [OF own])
    fix i o' u assume Hi: "H i = Some (o', u)"
    show "i = o' XOR ucast (d_labels g ! u)" "u < length (d_units g)" "unat i < length (b_units ?b)"
      using own_okD(2-4) [OF own Hi] by (simp_all add: used_fields)
    show "o' \<in> {} \<or> (\<exists>c. ?G o' = Some c \<and> u \<in> set (group_ids (d_units g) c))"
      using own_okD(5) [OF own Hi] H' Hi off(2) by auto
  next
    fix o' d assume G: "?G o' = Some d"
    show "0 < d" "d < length (d_units g)" "o' \<noteq> 0" "o' \<notin> {}"
      using G c off(1) own_okD(6) [OF own, of o' d] by (auto split: if_splits)
    fix u assume "u \<in> set (group_ids (d_units g) d)"
    then show "H (o' XOR ucast (d_labels g ! u)) = Some (o', u)"
      using G H own_okD(7) [OF own, of o' d u] by (auto split: if_splits)
  next
    fix i :: id_type assume i: "w \<le> unat i" "unat i < length (b_units ?b)"
    then have ib: "unat i < length (b_units b)" by (simp add: used_fields)
    have "slot i = slot off \<longleftrightarrow> i = off" by (rule ring_ok_slot_window [OF ring i(1) ib off(3,4)])
    then show "e_used (extras ?b i) \<longleftrightarrow> i = 0 \<or> ?G i \<noteq> None"
      using own_okD(9) [OF own i(1) ib] by (simp add: ue)
    show "e_fixed (extras ?b i) \<longleftrightarrow> i = 0 \<or> H i \<noteq> None"
      using own_okD(8) [OF own i(1) ib] by (simp add: ue)
  qed
  moreover have "fill_ok w H ?G (b_units b)" unfolding fill_ok_def
  proof (intro allI impI)
    fix i assume i: "unat i < w" "i \<noteq> 0" "H i = None"
    with fl obtain uo where uo: "unat uo div 256 = unat i div 256" "G uo = None" "unit_label (b_units b ! unat i) = i XOR uo"
      by (auto simp: fill_ok_def)
    have "256 dvd w" using win by (simp add: window_ok_def)
    then have "unat uo < w" using block_bounds(1) [OF uo(1)] i(1) by simp
    then have "uo \<noteq> off" using off(3) by auto
    with uo show "\<exists>uo. unat uo div 256 = unat i div 256 \<and> ?G uo = None \<and> unit_label (b_units b ! unat i) = i XOR uo"
      by auto
  qed
  moreover have "window_ok w ?b"
  proof -
    have "slot j \<noteq> slot off" if "length (b_units b) \<le> unat j" "unat j < 4096" for j
      using that off(4) by (simp add: slot_def)
    with win show ?thesis by (simp add: window_ok_def ue used_fields)
  qed
  moreover have "table_ok g v ?G (b_table b)" using tb mono unfolding table_ok_def by blast
  moreover have "ring_ok w ?b xs" using ring by (simp add: ring_ok_def ue used_fields cong: list.case_cong)
  ultimately show ?thesis using pn by (simp add: core_def used_fields)
qed

lemma place_children_expand:
  assumes e: "expand_units b = Inr b'" "length (b_units b') = length (b_units b) + 256"
    and off: "unat off div 256 = length (b_units b) div 256" "256 dvd length (b_units b)"
  shows "place_children g dic off (u # cs) b = place_children g dic off (u # cs) b'"
proof -
  have "256 dvd length (b_units b) + 256" using off(2) by simp
  have "reserve_id (off XOR ucast l) b = reserve_id (off XOR ucast l) b'" for l :: uchar_type
  proof -
    have b: "unat (off XOR ucast l) div 256 = length (b_units b) div 256" unfolding block_xor by (rule off(1))
    have "length (b_units b) \<le> unat (off XOR ucast l)" using block_bounds(2) [OF b off(2)] by simp
    moreover have "unat (off XOR ucast l) < length (b_units b) + 256"
      using block_bounds(1) [OF b \<open>256 dvd length (b_units b) + 256\<close>] by simp
    ultimately show ?thesis using e by (simp add: reserve_id_def)
  qed
  then show ?thesis by simp
qed

lemma xor_small:
  assumes "unat (a :: id_type) < 2 ^ m" "unat (b :: id_type) < 2 ^ m" "m \<le> 32"
  shows "unat (a XOR b) < 2 ^ m"
proof -
  have "take_bit m (a XOR b) = a XOR b"
  proof (rule bit_word_eqI)
    fix n
    show "bit (take_bit m (a XOR b)) n \<longleftrightarrow> bit (a XOR b) n"
      using bit_small_word [OF assms(1), of n] bit_small_word [OF assms(2), of n]
      by (cases "n < m") (auto simp: bit_take_bit_iff bit_xor_iff)
  qed
  then have "unat (a XOR b) = unat (take_bit m (a XOR b))" by simp
  also have "\<dots> < 2 ^ m" unfolding unsigned_take_bit_eq by (rule take_bit_nat_less_exp)
  finally show ?thesis .
qed

lemma upd_offset_spec:
  assumes "unat i < length (b_units b)" "encodable off" "is_node (b_units b ! unat i)"
  shows "upd_offset i off b = Inl Thrown \<and> 2 ^ 29 \<le> unat off \<or>
    (\<exists>x. upd_offset i off b = Inr (b\<lparr>b_units := (b_units b)[unat i := x]\<rparr>) \<and>
      unit_label x = unit_label (b_units b ! unat i) \<and> has_leaf x = has_leaf (b_units b ! unat i) \<and>
      is_node x \<and> unit_offset x = off \<and> unat off < 2 ^ 29)"
  using set_offset_unit [OF assms(2,3)] assms(1) by (auto simp: upd_offset_def upd_unit_def)

text \<open>The choice of an offset and the unit of the parent, up to the placing of the children.\<close>

lemma offset_chosen:
  assumes core: "main_core g v {} P {} H G b" and iP: "i \<in> P" and tgt: "node_target g H i c"
    and lab: "b_labels b = map ((!) (d_labels g)) cs" and ne: "cs \<noteq> []"
  shows "(\<exists>off. find_valid_offset b i = Inr off \<and> upd_offset i (i XOR off) b = Inl Thrown) \<and> 2 ^ 29 < length (b_units b) + 256 \<or>
    (\<exists>off b' xs. find_valid_offset b i = Inr off \<and> upd_offset i (i XOR off) b = Inr b' \<and>
      core g v {i} (P - {i}) {off} (length (b_units b') - 4096) H G b' xs \<and>
      length (b_units b') = length (b_units b) \<and> unit_offset (b_units b' ! unat i) = i XOR off \<and>
      \<not> has_leaf (b_units b' ! unat i) \<and> off \<noteq> 0 \<and> G off = None \<and>
      (length (b_units b) - 4096 \<le> unat off \<and> unat off < length (b_units b) \<and>
         (\<forall>u \<in> set cs. off XOR ucast (d_labels g ! u) \<in> set xs) \<or>
       unat off div 256 = length (b_units b) div 256 \<and> length (b_units b) + 256 \<le> 2 ^ 29))"
proof -
  let ?n = "length (b_units b)" and ?x = "b_units b ! unat i"
  from core obtain xs where c: "core g v {} P {} (?n - 4096) H G b xs" by (auto simp: main_core_def)
  have d: "256 dvd ?n" "?n \<le> 2 ^ 29" using c by (auto simp: core_def window_ok_def ring_ok_def)
  from find_valid_offset_spec [OF c lab ne, of i] obtain off where
    off: "find_valid_offset b i = Inr off" "off \<noteq> 0" "G off = None" "encodable (i XOR off)"
      "?n - 4096 \<le> unat off \<and> unat off < ?n \<and> (\<forall>u \<in> set cs. off XOR ucast (d_labels g ! u) \<in> set xs) \<or>
       unat off div 256 = ?n div 256" by blast
  have st: "node_state g {} P G i ?x c" by (rule node_unit_state [OF c tgt])
  then have nd: "is_node ?x" "\<not> has_leaf ?x" using iP by (simp_all add: node_state_def)
  have r: "unat i < ?n" by (rule node_in_range [OF c tgt])
  from upd_offset_spec [OF r off(4) nd(1)] show ?thesis
  proof (elim disjE conjE exE)
    assume t: "upd_offset i (i XOR off) b = Inl Thrown" "2 ^ 29 \<le> unat (i XOR off)"
    have "2 ^ 29 < ?n + 256"
    proof (rule ccontr)
      assume "\<not> ?thesis"
      moreover have "256 dvd ?n + 256" using d(1) by simp
      then have "unat off < ?n + 256" using off(5) block_bounds(1) [of "unat off" ?n "?n + 256"] by auto
      ultimately have "unat i < 2 ^ 29" "unat off < 2 ^ 29" using r by simp_all
      from xor_small [OF this] t(2) show False by simp
    qed
    with t off(1) show ?thesis by blast
  next
    fix x assume x: "upd_offset i (i XOR off) b = Inr (b\<lparr>b_units := (b_units b)[unat i := x]\<rparr>)"
      "unit_label x = unit_label ?x" "has_leaf x = has_leaf ?x" "is_node x" "unit_offset x = i XOR off"
      "unat (i XOR off) < 2 ^ 29"
    let ?b = "b\<lparr>b_units := (b_units b)[unat i := x]\<rparr>"
    have "node_state g {i} (P - {i}) G i x c" using x(4) by (simp add: node_state_def)
    then have "core g v {i} (P - {i}) {} (?n - 4096) H G ?b xs"
      by (intro core_node [OF c tgt x(2)]) auto
    then have c': "core g v {i} (P - {i}) {off} (length (b_units ?b) - 4096) H G ?b xs"
      using core_open [of g v "{i}" "P - {i}" _ H G _ xs off] off(3) by simp
    have room: "?n + 256 \<le> 2 ^ 29" if "unat off div 256 = ?n div 256"
    proof -
      have "unat i < 2 ^ 29" using r d(2) by simp
      from xor_small [OF x(6) this] have "unat off < 2 ^ 29" by (simp add: xor.commute)
      moreover have "?n \<le> unat off" using block_bounds(2) [OF that d(1)] by simp
      ultimately have "?n < 2 ^ 29" by simp
      with d(1) show ?thesis by (auto elim!: dvdE)
    qed
    have fields: "length (b_units ?b) = ?n" "unit_offset (b_units ?b ! unat i) = i XOR off" "\<not> has_leaf (b_units ?b ! unat i)"
      using r x(3,5) nd(2) by simp_all
    show ?thesis
    proof (rule disjI2, intro exI conjI)
      show "find_valid_offset b i = Inr off" by (rule off(1))
      show "upd_offset i (i XOR off) b = Inr ?b" by (rule x(1))
      show "core g v {i} (P - {i}) {off} (length (b_units ?b) - 4096) H G ?b xs" by (rule c')
      show "?n - 4096 \<le> unat off \<and> unat off < ?n \<and> (\<forall>u \<in> set cs. off XOR ucast (d_labels g ! u) \<in> set xs) \<or>
          unat off div 256 = ?n div 256 \<and> ?n + 256 \<le> 2 ^ 29" using off(5) room by blast
    qed (use off(2,3) fields in blast)+
  qed
qed

text \<open>A chosen offset in a new block is in the window once the array has been expanded.\<close>

lemma room_for_group:
  assumes core: "core g v {i} P {off} (length (b_units b) - 4096) H G b xs"
    and off: "length (b_units b) - 4096 \<le> unat off \<and> unat off < length (b_units b) \<and>
         (\<forall>u \<in> set (u0 # cs). off XOR ucast (d_labels g ! u) \<in> set xs) \<or>
       unat off div 256 = length (b_units b) div 256 \<and> length (b_units b) + 256 \<le> 2 ^ 29"
    and tgt: "node_target g H i c"
  shows "\<exists>b' xs'. place_children g i off (u0 # cs) b = place_children g i off (u0 # cs) b' \<and>
    core g v {i} P {off} (length (b_units b') - 4096) H G b' xs' \<and> b_units b' ! unat i = b_units b ! unat i \<and>
    length (b_units b') \<le> length (b_units b) + 256 \<and> length (b_units b) \<le> length (b_units b') \<and>
    length (b_units b') - 4096 \<le> unat off \<and> unat off < length (b_units b') \<and>
    (\<forall>u \<in> set (u0 # cs). off XOR ucast (d_labels g ! u) \<in> set xs')"
  using off
proof (elim disjE conjE)
  assume "length (b_units b) - 4096 \<le> unat off" "unat off < length (b_units b)"
    "\<forall>u \<in> set (u0 # cs). off XOR ucast (d_labels g ! u) \<in> set xs"
  then show ?thesis using core by (intro exI [of _ b] exI [of _ xs]) simp
next
  let ?n = "length (b_units b)"
  assume blk: "unat off div 256 = ?n div 256" and small: "?n + 256 \<le> 2 ^ 29"
  have d: "256 dvd ?n" "256 dvd ?n + 256" "256 \<le> ?n" using core by (auto simp: core_def window_ok_def)
  have own: "own_ok g (?n - 4096) {off} H G b" using core by (simp add: core_def)
  from core_expand [of g v "{i}" P "{off}" H G b] core small obtain b' xs' where
    e: "expand_units b = Inr b'" and c: "core g v {i} P {off} (length (b_units b') - 4096) H G b' xs'"
    and n: "length (b_units b') = ?n + 256"
    and same: "\<And>i. i = 0 \<or> H i \<noteq> None \<Longrightarrow> b_units b' ! unat i = b_units b ! unat i"
    unfolding main_core_def by blast
  have own': "own_ok g (length (b_units b') - 4096) {off} H G b'" and ring': "ring_ok (length (b_units b') - 4096) b' xs'"
    using c by (simp_all add: core_def)
  have r: "?n \<le> unat (off XOR ucast l)" "unat (off XOR ucast l) < ?n + 256" for l :: uchar_type
  proof -
    have "unat (off XOR ucast l) div 256 = ?n div 256" unfolding block_xor by (rule blk)
    then show "?n \<le> unat (off XOR ucast l)" "unat (off XOR ucast l) < ?n + 256"
      using block_bounds(2) [OF _ d(1)] block_bounds(1) [OF _ d(2)] by simp_all
  qed
  have ro: "?n \<le> unat off" "unat off < ?n + 256" using block_bounds(2) [OF blk d(1)] block_bounds(1) [OF blk d(2)] by simp_all
  have mem: "off XOR ucast l \<in> set xs'" for l :: uchar_type
  proof -
    let ?j = "off XOR ucast l"
    have "?j \<noteq> 0" using r(1) [of l] d(3) by auto
    moreover have "H ?j = None" using own_okD(4) [OF own, of ?j] r(1) [of l] by (cases "H ?j") auto
    moreover have j: "length (b_units b') - 4096 \<le> unat ?j" "unat ?j < length (b_units b')" using r [of l] n by simp_all
    ultimately have "\<not> e_fixed (extras b' ?j)" using own_okD(8) [OF own' j] by simp
    with j ring' show ?thesis by (simp add: ring_ok_def)
  qed
  have "b_units b' ! unat i = b_units b ! unat i" using tgt by (intro same) (auto simp: node_target_def)
  moreover have "place_children g i off (u0 # cs) b = place_children g i off (u0 # cs) b'"
    by (rule place_children_expand [OF e n blk d(1)])
  ultimately show ?thesis using c n ro mem by (intro exI [of _ b'] exI [of _ xs']) simp
qed

end
