(* ===== verification/Da_Build.thy ===== *)
theory Da_Build
  imports Da_Place
begin

unbundle bit_operations_syntax

text \<open>
  The recursion of \<^verbatim>\<open>build_from_dawg\<close> over the groups of the word graph, from \<open>Da_Builder\<close>. \<open>build_node_spec\<close>
  is its contract: it keeps the invariant of \<open>Da_Layout\<close> and takes one identifier off the pending ones; \<open>tsize\<close> is
  the number of groups it may place, one for every node of the tree the graph stands for.
\<close>

section \<open>One group\<close>

lemma arrange_spec:
  assumes core: "main_core g v {} P {} H G b" and iP: "i \<in> P" and tgt: "node_target g H i c"
    and ch: "dawg_child g d = Inr c" and c: "0 < c" "c < length (d_units g)"
    and wf: "store_wf (d_units g) (d_labels g)"
  shows "arrange_from_dawg g d i b = Inl Thrown \<and> 2 ^ 29 < length (b_units b) + 256 \<or>
    (\<exists>off b' H'. arrange_from_dawg g d i b = Inr (off, b') \<and>
      main_core g v {} (P - {i} \<union> child_ids g off (group_ids (d_units g) c)) {} H' (G(off \<mapsto> c)) b' \<and>
      H \<subseteq>\<^sub>m H' \<and> G off = None \<and> length (b_units b) \<le> length (b_units b') \<and>
      length (b_units b') \<le> length (b_units b) + 256)"
proof -
  let ?cs = "group_ids (d_units g) c" and ?n = "length (b_units b)"
  let ?b = "b\<lparr>b_labels := map ((!) (d_labels g)) ?cs\<rparr>"
  have sib: "dawg_siblings (d_units g) c = Inr ?cs" by (rule dawg_siblings_group [OF wf c])
  have core': "main_core g v {} P {} H G ?b" using core by (simp add: main_core_def)
  have cc: "c \<in> set ?cs" by (rule group_ids_first [OF c(2)])
  then have ne: "?cs \<noteq> []" by auto
  then obtain u0 us where cs: "?cs = u0 # us" by (cases ?cs) auto
  have arr: "arrange_from_dawg g d i b = bind_ok (find_valid_offset ?b i) (\<lambda>off.
      bind_ok (upd_offset i (i XOR off) ?b) (\<lambda>b2. bind_ok (place_children g i off ?cs b2) (\<lambda>b3.
        Inr (off, set_is_used off True b3))))" using ch sib by (simp add: arrange_from_dawg_def Let_def)
  have lab: "b_labels ?b = map ((!) (d_labels g)) ?cs" by simp
  from offset_chosen [OF core' iP tgt lab ne] show ?thesis
  proof (rule disjE)
    assume "(\<exists>off. find_valid_offset ?b i = Inr off \<and> upd_offset i (i XOR off) ?b = Inl Thrown) \<and>
      2 ^ 29 < length (b_units ?b) + 256"
    then show ?thesis by (auto simp: arr)
  next
    assume "\<exists>off b' xs. find_valid_offset ?b i = Inr off \<and> upd_offset i (i XOR off) ?b = Inr b' \<and>
      core g v {i} (P - {i}) {off} (length (b_units b') - 4096) H G b' xs \<and>
      length (b_units b') = length (b_units ?b) \<and> unit_offset (b_units b' ! unat i) = i XOR off \<and>
      \<not> has_leaf (b_units b' ! unat i) \<and> off \<noteq> 0 \<and> G off = None \<and>
      (length (b_units ?b) - 4096 \<le> unat off \<and> unat off < length (b_units ?b) \<and>
         (\<forall>u \<in> set ?cs. off XOR ucast (d_labels g ! u) \<in> set xs) \<or>
       unat off div 256 = length (b_units ?b) div 256 \<and> length (b_units ?b) + 256 \<le> 2 ^ 29)"
    then obtain off b2 xs where f: "find_valid_offset ?b i = Inr off" "upd_offset i (i XOR off) ?b = Inr b2"
      and c2: "core g v {i} (P - {i}) {off} (length (b_units b2) - 4096) H G b2 xs"
      and n2: "length (b_units b2) = length (b_units ?b)" and x2: "unit_offset (b_units b2 ! unat i) = i XOR off"
        "\<not> has_leaf (b_units b2 ! unat i)" and off: "off \<noteq> 0" "G off = None"
      and room: "length (b_units ?b) - 4096 \<le> unat off \<and> unat off < length (b_units ?b) \<and>
         (\<forall>u \<in> set ?cs. off XOR ucast (d_labels g ! u) \<in> set xs) \<or>
         unat off div 256 = length (b_units ?b) div 256 \<and> length (b_units ?b) + 256 \<le> 2 ^ 29" by blast
    obtain b3 xs3 where b3: "place_children g i off ?cs b2 = place_children g i off ?cs b3"
      "core g v {i} (P - {i}) {off} (length (b_units b3) - 4096) H G b3 xs3" "b_units b3 ! unat i = b_units b2 ! unat i"
      "length (b_units b3) \<le> ?n + 256" "?n \<le> length (b_units b3)" "length (b_units b3) - 4096 \<le> unat off"
      "unat off < length (b_units b3)" "\<forall>u \<in> set ?cs. off XOR ucast (d_labels g ! u) \<in> set xs3"
      using room_for_group [OF c2 room [folded n2, unfolded cs] tgt] n2 unfolding cs by auto
    have cs_ok: "\<forall>u \<in> set ?cs. 0 < u \<and> u < length (d_units g) \<and> off XOR ucast (d_labels g ! u) \<in> set xs3"
      using b3(8) c(1) group_ids_bounds by fastforce
    have dist: "distinct (map ((!) (d_labels g)) ?cs)"
      using group_labels_sorted [OF wf c] strict_sorted_iff by blast
    have "i \<notin> P - {i}" by simp
    from place_children_spec [OF b3(2) tgt this wf cs_ok dist] obtain b4 H' xs4 where
      b4: "place_children g i off ?cs b3 = Inr b4"
        "core g v {i} (P - {i} \<union> child_ids g off ?cs) {off} (length (b_units b3) - 4096) H' G b4 xs4" "H \<subseteq>\<^sub>m H'"
        "\<And>u. u \<in> set ?cs \<Longrightarrow> H' (off XOR ucast (d_labels g ! u)) = Some (off, u)"
        "\<And>j u. H' j = Some (off, u) \<Longrightarrow> H j = Some (off, u) \<or> u \<in> set ?cs"
        "length (b_units b4) = length (b_units b3)"
        "unit_offset (b_units b4 ! unat i) = unit_offset (b_units b3 ! unat i)"
        "has_leaf (b_units b4 ! unat i) \<longleftrightarrow> has_leaf (b_units b3 ! unat i) \<or> (\<exists>u \<in> set ?cs. d_labels g ! u = 0)"
      by blast
    have own: "own_ok g (?n - 4096) {} H G b"
      using core by (auto simp: main_core_def core_def)
    have noH: "H j \<noteq> Some (off, u)" for j u using own_okD(5) [OF own, of j off u] off(2) by auto
    have tgt': "node_target g H' i c" by (rule node_target_mono [OF tgt b4(3)])
    have "i \<notin> child_ids g off ?cs"
    proof
      assume "i \<in> child_ids g off ?cs"
      then obtain u where u: "u \<in> set ?cs" "i = off XOR ucast (d_labels g ! u)" by (auto simp: child_ids_def)
      then have Hi: "H' i = Some (off, u)" using b4(4) by simp
      from tgt show False unfolding node_target_def
      proof (elim disjE conjE exE)
        assume "i = 0"
        then show False using Hi b4(2) own_okD(1) [of g _ _ H'] by (auto simp: core_def)
      next
        fix o' t assume "H i = Some (o', t)"
        moreover from this have "H' i = Some (o', t)" using b4(3) by (metis domI map_le_def)
        ultimately show False using Hi noH [of i u] by simp
      qed
    qed
    then have iP': "i \<notin> P - {i} \<union> child_ids g off ?cs" by simp
    have w4: "length (b_units b3) - 4096 \<le> unat off" "unat off < length (b_units b4)" using b3(6,7) b4(6) by simp_all
    have "core g v {} (P - {i} \<union> child_ids g off ?cs) {} (length (b_units b3) - 4096) H' (G(off \<mapsto> c))
        (set_is_used off True b4) xs4"
    proof (rule core_finish [OF b4(2) tgt' iP' off w4 c b4(4)])
      show "u \<in> set ?cs" if "H' j = Some (off, u)" for j u using b4(5) [OF that] noH by blast
      show "i XOR unit_offset (b_units b4 ! unat i) = off" using b4(7) b3(3) x2(1) by simp
      show "has_leaf (b_units b4 ! unat i) \<longleftrightarrow> leafy g c" using b4(8) b3(3) x2(2) by (simp add: leafy_def)
    qed
    then have "main_core g v {} (P - {i} \<union> child_ids g off ?cs) {} H' (G(off \<mapsto> c)) (set_is_used off True b4)"
      using b4(6) by (auto simp: main_core_def used_fields)
    moreover have "arrange_from_dawg g d i b = Inr (off, set_is_used off True b4)"
      using f b3(1) b4(1) by (simp add: arr)
    ultimately show ?thesis using b4(3,6) off(2) b3(4,5)
      by (intro disjI2 exI [of _ off] exI [of _ "set_is_used off True b4"] exI [of _ H'] conjI) (simp_all add: used_fields)
  qed
qed

section \<open>Groups with several parents\<close>

lemma rank_index:
  assumes ok: "dawg_ok g v" and c: "c < length (d_units g)"
  shows "bv_get (d_is_intersections g) c = Inr (bv_bit v c)"
    and "bv_bit v c \<Longrightarrow> bv_rank (d_is_intersections g) c = Inr (of_nat (bv_ones v (Suc c)))"
    and "bv_bit v c \<Longrightarrow> unat (of_nat (bv_ones v (Suc c)) - 1 :: id_type) = bv_ones v (Suc c) - 1"
    and "bv_bit v c \<Longrightarrow> bv_ones v (Suc c) - 1 < bv_num_ones (d_is_intersections g)"
    and "bv_bit v c \<Longrightarrow> bv_bit v e \<Longrightarrow> bv_ones v (Suc c) - 1 = bv_ones v (Suc e) - 1 \<Longrightarrow> c = e"
proof -
  have v: "bv_wf v" "bv_size v = length (d_units g)" "d_is_intersections g = bv_build v"
    and wf: "store_wf (d_units g) (d_labels g)" using ok by (simp_all add: dawg_ok_def)
  have "bv_get (bv_build v) c = bv_get v c" by (simp add: bv_get_def bv_build_units)
  then show "bv_get (d_is_intersections g) c = Inr (bv_bit v c)" using bv_get_bit [OF v(1)] c v(2,3) by simp
  have "c div 32 < length (bv_units v)" using bv_unit_bound [OF v(1)] c v(2) by simp
  then have "c < 32 * length (bv_units v)" by auto
  then show "bv_rank (d_is_intersections g) c = Inr (of_nat (bv_ones v (Suc c)))" unfolding v(3) by (rule bv_rank_counts)
  have pos: "0 < bv_ones v (Suc e)" if "bv_bit v e" for e using bv_ones_strict [OF that, of "Suc e"] by simp
  have "bv_ones v (Suc c) < 4294967296" using bv_ones_le [of v "Suc c"] c wf by (simp add: store_wf_def)
  then have u: "unat (of_nat (bv_ones v (Suc c)) :: id_type) = bv_ones v (Suc c)" by (rule unat_of_nat_less)
  show "unat (of_nat (bv_ones v (Suc c)) - 1 :: id_type) = bv_ones v (Suc c) - 1" if b: "bv_bit v c"
    using unat_minus_1 [of "of_nat (bv_ones v (Suc c))"] pos [OF b] unfolding u by simp
  show "bv_ones v (Suc c) - 1 < bv_num_ones (d_is_intersections g)" if b: "bv_bit v c"
    using bv_ones_mono [of "Suc c" "32 * length (bv_units v)" v] \<open>c < 32 * length (bv_units v)\<close> pos [OF b]
    by (simp add: v(3) bv_build_units)
  show "c = e" if b: "bv_bit v c" "bv_bit v e" "bv_ones v (Suc c) - 1 = bv_ones v (Suc e) - 1"
  proof (rule ccontr)
    have less: "bv_ones v (Suc m) < bv_ones v (Suc n)" if "m < n" "bv_bit v n" for m n
      using bv_ones_mono [of "Suc m" n v] bv_ones_strict [OF that(2), of "Suc n"] that(1) by simp
    assume "c \<noteq> e"
    then have "bv_ones v (Suc c) \<noteq> bv_ones v (Suc e)"
      using less [of c e] less [of e c] b(1,2) by (cases "c < e") simp_all
    with b(3) pos [OF b(1)] pos [OF b(2)] show False by simp
  qed
qed

lemma core_table:
  assumes "core g v A P Cur w H G b xs" "table_ok g v G t"
  shows "core g v A P Cur w H G (b\<lparr>b_table := t\<rparr>) xs"
  using assms by (simp add: core_def own_ok_def window_ok_def)

lemma record_spec:
  assumes core: "main_core g v A P {} H G b" and G: "G off = Some c" and ok: "dawg_ok g v" and c: "c < length (d_units g)"
  shows "\<exists>b'. record_offset g c off b = Inr b' \<and> main_core g v A P {} H G b' \<and> length (b_units b') = length (b_units b)"
proof (cases "bv_bit v c")
  case False
  then show ?thesis using core rank_index(1) [OF ok c] by (simp add: record_offset_def)
next
  case True
  let ?r = "bv_ones v (Suc c) - 1"
  note r = rank_index [OF ok c]
  from core obtain xs where cr: "core g v A P {} (length (b_units b) - 4096) H G b xs" by (auto simp: main_core_def)
  then have tb: "table_ok g v G (b_table b)" by (simp add: core_def)
  then have l: "?r < length (b_table b)" using r(4) [OF True] by (simp add: table_ok_def)
  have "table_ok g v G ((b_table b)[?r := off])" unfolding table_ok_def
  proof (intro conjI allI impI)
    show "length ((b_table b)[?r := off]) = bv_num_ones (d_is_intersections g)" using tb by (simp add: table_ok_def)
    fix e assume e: "e < length (d_units g)" "bv_bit v e" "(b_table b)[?r := off] ! (bv_ones v (Suc e) - 1) \<noteq> 0"
    show "G ((b_table b)[?r := off] ! (bv_ones v (Suc e) - 1)) = Some e"
    proof (cases "e = c")
      case True
      with G l show ?thesis by simp
    next
      case False
      then have "bv_ones v (Suc e) - 1 \<noteq> ?r" using r(5) [OF True e(2)] by auto
      with e tb show ?thesis by (simp add: table_ok_def)
    qed
  qed
  from core_table [OF cr this] have "main_core g v A P {} H G (b\<lparr>b_table := (b_table b)[?r := off]\<rparr>)"
    by (auto simp: main_core_def)
  moreover have "record_offset g c off b = Inr (b\<lparr>b_table := (b_table b)[?r := off]\<rparr>)"
    using True r(1,2,3) l by (simp add: record_offset_def)
  ultimately show ?thesis by simp
qed

lemma leafy_first:
  assumes "store_wf (d_units g) (d_labels g)" "0 < c" "c < length (d_units g)"
  shows "leafy g c \<longleftrightarrow> d_labels g ! c = 0"
proof
  assume "leafy g c"
  then obtain u where "u \<in> set (group_ids (d_units g) c)" "d_labels g ! u = 0" by (auto simp: leafy_def)
  with group_labels_sorted [OF assms] have "d_labels g ! c \<le> 0" by force
  then show "d_labels g ! c = 0" by simp
qed (use group_ids_first [OF assms(3)] in \<open>auto simp: leafy_def\<close>)

lemma reuse_spec:
  assumes core: "main_core g v {} P {} H G b" and iP: "i \<in> P" and tgt: "node_target g H i c"
    and ok: "dawg_ok g v" and c: "0 < c" "c < length (d_units g)"
  shows "reuse_offset g c i b = Inr None \<or>
    (\<exists>b'. reuse_offset g c i b = Inr (Some b') \<and> main_core g v {} (P - {i}) {} H G b' \<and>
      length (b_units b') = length (b_units b))"
proof (cases "bv_bit v c")
  case False
  then show ?thesis using rank_index(1) [OF ok c(2)] by (simp add: reuse_offset_def)
next
  case True
  let ?r = "bv_ones v (Suc c) - 1" and ?n = "length (b_units b)" and ?x = "b_units b ! unat i"
  note r = rank_index [OF ok c(2)]
  have wf: "store_wf (d_units g) (d_labels g)" using ok by (simp add: dawg_ok_def)
  then have lc: "c < length (d_labels g)" using c by (simp add: store_wf_def)
  from core obtain xs where cr: "core g v {} P {} (?n - 4096) H G b xs" by (auto simp: main_core_def)
  then have tb: "table_ok g v G (b_table b)" and own: "own_ok g (?n - 4096) {} H G b"
    and d: "256 dvd ?n" "?n \<le> 2 ^ 29" by (auto simp: core_def window_ok_def ring_ok_def)
  have l: "?r < length (b_table b)" using r(4) [OF True] tb by (simp add: table_ok_def)
  let ?t = "b_table b ! ?r"
  let ?off = "?t XOR i"
  have n: "is_node ?x" "\<not> has_leaf ?x" using node_unit_state [OF cr tgt] iP by (simp_all add: node_state_def)
  have ir: "unat i < ?n" by (rule node_in_range [OF cr tgt])
  have eq: "reuse_offset g c i b =
      (if ?t \<noteq> 0 \<and> encodable ?off
       then bind_ok (if d_labels g ! c = 0 then upd_unit i (bu_set_has_leaf True) b else Inr b) (\<lambda>b1.
            bind_ok (upd_offset i ?off b1) (\<lambda>b2. Inr (Some b2)))
       else Inr None)"
    using True r(1-3) l lc by (auto simp: reuse_offset_def encodable_def Let_def)
  show ?thesis
  proof (cases "?t \<noteq> 0 \<and> encodable ?off")
    case yes: True
    let ?y = "if d_labels g ! c = 0 then bu_set_has_leaf True ?x else ?x"
    let ?b1 = "b\<lparr>b_units := (b_units b)[unat i := ?y]\<rparr>"
    have b1: "(if d_labels g ! c = 0 then upd_unit i (bu_set_has_leaf True) b else Inr b) = Inr ?b1"
      using ir by (simp add: upd_unit_ok)
    have y: "is_node ?y" "unit_label ?y = unit_label ?x" "has_leaf ?y \<longleftrightarrow> leafy g c"
      using n leafy_first [OF wf c] by (simp_all add: set_leaf_unit)
    have G: "G ?t = Some c" using tb True yes c(2) by (auto simp: table_ok_def)
    have "unat ?t < ?n"
    proof -
      have "H (?t XOR ucast (d_labels g ! c)) = Some (?t, c)"
        by (rule own_okD(7) [OF own G group_ids_first [OF c(2)]])
      from own_okD(4) [OF own this] show ?thesis using block_xor_bounds(1) [OF d(1)] by simp
    qed
    then have "unat ?t < 2 ^ 29" "unat i < 2 ^ 29" using ir d(2) by simp_all
    from xor_small [OF this] have small: "unat ?off < 2 ^ 29" by simp
    have i1: "unat i < length (b_units ?b1)" "is_node (b_units ?b1 ! unat i)" using ir y(1) by simp_all
    from upd_offset_spec [OF i1(1) conjunct2 [OF yes] i1(2)] small ir obtain x where
      x: "upd_offset i ?off ?b1 = Inr (?b1\<lparr>b_units := (b_units ?b1)[unat i := x]\<rparr>)"
        "unit_label x = unit_label ?x" "has_leaf x \<longleftrightarrow> leafy g c" "is_node x" "unit_offset x = ?off"
      using y(2,3) by auto
    have "i XOR ?off = ?t" by (simp add: xor.commute)
    then have ns: "node_state g {} (P - {i}) G i x c" using x(3-5) G by (simp add: node_state_def)
    have "core g v {} (P - {i}) {} (?n - 4096) H G (b\<lparr>b_units := (b_units b)[unat i := x]\<rparr>) xs"
      by (rule core_node [OF cr tgt x(2) ns]) auto
    then have "main_core g v {} (P - {i}) {} H G (b\<lparr>b_units := (b_units b)[unat i := x]\<rparr>)"
      by (auto simp: main_core_def)
    moreover have "reuse_offset g c i b = Inr (Some (b\<lparr>b_units := (b_units b)[unat i := x]\<rparr>))"
      unfolding eq b1 using yes x(1) by simp
    ultimately show ?thesis by auto
  qed (simp only: eq if_False simp_thms)
qed

section \<open>The recursion\<close>

fun tsize :: "DawgBuilder \<Rightarrow> nat \<Rightarrow> nat \<Rightarrow> nat" where
  "tsize g 0 c = 0"
| "tsize g (Suc fuel) c =
     1 + (\<Sum>u \<leftarrow> group_ids (d_units g) c. if d_labels g ! u = 0 then 0 else tsize g fuel (unat (du_child (d_units g ! u))))"

text \<open>The outcome of building the groups below: an exception, or the identifiers \<open>Q\<close> are no longer pending.\<close>

definition built ::
    "DawgBuilder \<Rightarrow> BitVector \<Rightarrow> id_type set \<Rightarrow> owners \<Rightarrow> groups \<Rightarrow> nat \<Rightarrow> fault + DaBuilder \<Rightarrow> bool" where
  "built g v P H G m r \<longleftrightarrow>
     r = Inl Thrown \<and> 2 ^ 29 < m \<or>
     (\<exists>b' H' G'. r = Inr b' \<and> main_core g v {} P {} H' G' b' \<and> H \<subseteq>\<^sub>m H' \<and> G \<subseteq>\<^sub>m G' \<and> length (b_units b') \<le> m)"

lemma built_mono:
  assumes "built g v P H' G' m' r" "H \<subseteq>\<^sub>m H'" "G \<subseteq>\<^sub>m G'" "m' \<le> m"
  shows "built g v P H G m r"
  using assms(1) unfolding built_def [of g v P H' G' m' r]
proof (elim disjE conjE exE)
  assume "r = Inl Thrown" "2 ^ 29 < m'"
  with assms(4) show ?thesis by (simp add: built_def)
next
  fix b' H'' G''
  assume "r = Inr b'" "main_core g v {} P {} H'' G'' b'" "H' \<subseteq>\<^sub>m H''" "G' \<subseteq>\<^sub>m G''" "length (b_units b') \<le> m'"
  with assms(2-4) show ?thesis unfolding built_def
    by (intro disjI2 exI [of _ b'] exI [of _ H''] exI [of _ G'']) (auto intro: map_le_trans)
qed

definition child_ok :: "DawgBuilder \<Rightarrow> nat \<Rightarrow> id_type set \<Rightarrow> owners \<Rightarrow> id_type \<Rightarrow> nat \<Rightarrow> bool" where
  "child_ok g fuel P H off u \<longleftrightarrow>
     u < length (d_units g) \<and>
     (d_labels g ! u \<noteq> 0 \<longrightarrow>
        off XOR ucast (d_labels g ! u) \<in> P \<and> H (off XOR ucast (d_labels g ! u)) = Some (off, u) \<and>
        0 < unat (du_child (d_units g ! u)) \<and> unat (du_child (d_units g ! u)) < length (d_units g) \<and>
        unat (du_child (d_units g ! u)) < fuel)"

lemma dawg_child_ok: "u < length (d_units g) \<Longrightarrow> dawg_child g u = Inr (unat (du_child (d_units g ! u)))"
  by (simp add: dawg_child_def)

lemma build_children_spec:
  assumes IH: "\<And>d c i b P H G. main_core g v {} P {} H G b \<Longrightarrow> i \<in> P \<Longrightarrow> node_target g H i c \<Longrightarrow>
      dawg_child g d = Inr c \<Longrightarrow> 0 < c \<Longrightarrow> c < length (d_units g) \<Longrightarrow> c < fuel \<Longrightarrow>
      built g v (P - {i}) H G (length (b_units b) + 256 * tsize g fuel c) (build_node g fuel d i b)"
    and wf: "store_wf (d_units g) (d_labels g)"
  shows "main_core g v {} P {} H G b \<Longrightarrow> \<forall>u \<in> set cs. child_ok g fuel P H off u \<Longrightarrow> distinct (map ((!) (d_labels g)) cs) \<Longrightarrow>
    built g v (P - child_ids g off cs) H G
      (length (b_units b) + 256 * (\<Sum>u \<leftarrow> cs. if d_labels g ! u = 0 then 0 else tsize g fuel (unat (du_child (d_units g ! u)))))
      (build_children g fuel cs off b)"
proof (induction cs arbitrary: b P H G)
  case Nil
  then show ?case unfolding built_def
    by (intro disjI2 exI [of _ b] exI [of _ H] exI [of _ G]) (simp add: child_ids_def)
next
  case (Cons u cs)
  let ?i = "off XOR ucast (d_labels g ! u)" and ?c = "unat (du_child (d_units g ! u))"
  have u: "child_ok g fuel P H off u" using Cons.prems(2) by simp
  then have lu: "u < length (d_labels g)" using wf by (simp add: child_ok_def store_wf_def)
  have dist: "distinct (map ((!) (d_labels g)) cs)" using Cons.prems(3) by simp
  show ?case
  proof (cases "d_labels g ! u = 0")
    case True
    then have "child_ids g off (u # cs) = child_ids g off cs" by (auto simp: child_ids_def)
    moreover have "\<forall>u \<in> set cs. child_ok g fuel P H off u" using Cons.prems(2) by simp
    moreover note Cons.IH [OF Cons.prems(1) this dist]
    ultimately show ?thesis using True lu by simp
  next
    case False
    have i: "?i \<in> P" "node_target g H ?i ?c" "0 < ?c" "?c < length (d_units g)" "?c < fuel"
      using u False by (auto simp: child_ok_def node_target_def)
    have ch: "dawg_child g u = Inr ?c" using u by (intro dawg_child_ok) (simp add: child_ok_def)
    have step: "build_children g fuel (u # cs) off b =
        bind_ok (build_node g fuel u ?i b) (build_children g fuel cs off)" using False lu by simp
    let ?m = "length (b_units b) + 256 * tsize g fuel ?c"
    let ?s = "\<Sum>u \<leftarrow> cs. if d_labels g ! u = 0 then 0 else tsize g fuel (unat (du_child (d_units g ! u)))"
    have "built g v (P - {?i}) H G ?m (build_node g fuel u ?i b)" by (rule IH [OF Cons.prems(1) i(1,2) ch i(3-5)])
    then show ?thesis unfolding built_def [of g v "P - {?i}"]
    proof (elim disjE conjE exE)
      assume "build_node g fuel u ?i b = Inl Thrown" "2 ^ 29 < ?m"
      with False show ?thesis unfolding step built_def by (intro disjI1) (simp del: build_children.simps)
    next
      fix b1 H1 G1
      assume b1: "build_node g fuel u ?i b = Inr b1" "main_core g v {} (P - {?i}) {} H1 G1 b1" "H \<subseteq>\<^sub>m H1" "G \<subseteq>\<^sub>m G1"
        "length (b_units b1) \<le> ?m"
      have "\<forall>t \<in> set cs. child_ok g fuel (P - {?i}) H1 off t"
      proof
        fix t assume t: "t \<in> set cs"
        then have "d_labels g ! t \<noteq> d_labels g ! u" using Cons.prems(3) by (metis distinct.simps(2) image_eqI list.set_map list.simps(9))
        then have "off XOR ucast (d_labels g ! t) \<noteq> ?i" using xor_label_inj by metis
        moreover have "H1 j = Some (off, t)" if "H j = Some (off, t)" for j using that b1(3) by (metis domI map_le_def)
        moreover have "child_ok g fuel P H off t" using Cons.prems(2) t by simp
        ultimately show "child_ok g fuel (P - {?i}) H1 off t" by (auto simp: child_ok_def)
      qed
      from Cons.IH [OF b1(2) this dist] have
        "built g v (P - {?i} - child_ids g off cs) H1 G1 (length (b_units b1) + 256 * ?s) (build_children g fuel cs off b1)" .
      then have "built g v (P - {?i} - child_ids g off cs) H G (?m + 256 * ?s) (build_children g fuel cs off b1)"
        by (rule built_mono) (use b1 in simp_all)
      moreover have "P - {?i} - child_ids g off cs = P - child_ids g off (u # cs)" using False by (auto simp: child_ids_def)
      ultimately show ?thesis unfolding step using b1(1) False by (simp del: build_children.simps add: algebra_simps)
    qed
  qed
qed

lemma build_node_spec:
  assumes ok: "dawg_ok g v"
  shows "main_core g v {} P {} H G b \<Longrightarrow> i \<in> P \<Longrightarrow> node_target g H i c \<Longrightarrow>
      dawg_child g d = Inr c \<Longrightarrow> 0 < c \<Longrightarrow> c < length (d_units g) \<Longrightarrow> c < fuel \<Longrightarrow>
      built g v (P - {i}) H G (length (b_units b) + 256 * tsize g fuel c) (build_node g fuel d i b)"
proof (induction fuel arbitrary: P H G b i c d)
  case (Suc fuel)
  have wf: "store_wf (d_units g) (d_labels g)" using ok by (simp add: dawg_ok_def)
  note core = Suc.prems(1) and c = Suc.prems(5,6)
  let ?cs = "group_ids (d_units g) c" and ?n = "length (b_units b)"
  let ?s = "\<Sum>u \<leftarrow> ?cs. if d_labels g ! u = 0 then 0 else tsize g fuel (unat (du_child (d_units g ! u)))"
  have m: "?n + 256 * tsize g (Suc fuel) c = ?n + 256 + 256 * ?s" by simp
  have sib: "dawg_siblings (d_units g) c = Inr ?cs" by (rule dawg_siblings_group [OF wf c])
  from reuse_spec [OF core Suc.prems(2,3) ok c] show ?case
  proof (elim disjE exE conjE)
    fix b' assume "reuse_offset g c i b = Inr (Some b')" "main_core g v {} (P - {i}) {} H G b'" "length (b_units b') = ?n"
    then show ?thesis using Suc.prems(4) unfolding m built_def
      by (intro disjI2 exI [of _ b'] exI [of _ H] exI [of _ G]) simp
  next
    assume none: "reuse_offset g c i b = Inr None"
    have step: "build_node g (Suc fuel) d i b = bind_ok (arrange_from_dawg g d i b) (\<lambda>(off, b1).
        bind_ok (record_offset g c off b1) (\<lambda>b2. build_children g fuel ?cs off b2))"
      using Suc.prems(4) none sib by (simp add: split_beta)
    from arrange_spec [OF core Suc.prems(2,3,4) c wf] show ?thesis
    proof (elim disjE exE conjE)
      assume "arrange_from_dawg g d i b = Inl Thrown" "2 ^ 29 < ?n + 256"
      then show ?thesis unfolding m step by (simp add: built_def)
    next
      fix off b1 H1
      let ?K = "child_ids g off ?cs" and ?G = "G(off \<mapsto> c)"
      assume b1: "arrange_from_dawg g d i b = Inr (off, b1)" "main_core g v {} (P - {i} \<union> ?K) {} H1 ?G b1"
        "H \<subseteq>\<^sub>m H1" "G off = None" "?n \<le> length (b_units b1)" "length (b_units b1) \<le> ?n + 256"
      from record_spec [OF b1(2) _ ok c(2), of off] obtain b2 where
        b2: "record_offset g c off b1 = Inr b2" "main_core g v {} (P - {i} \<union> ?K) {} H1 ?G b2"
          "length (b_units b2) = length (b_units b1)" by auto
      have own: "own_ok g (?n - 4096) {} H G b" and pn: "pending_ok g P H"
        using core by (auto simp: main_core_def core_def)
      have own2: "own_ok g (length (b_units b2) - 4096) {} H1 ?G b2" using b2(2) by (auto simp: main_core_def core_def)
      have H1: "H1 (off XOR ucast (d_labels g ! u)) = Some (off, u)" if "u \<in> set ?cs" for u
        using own_okD(7) [OF own2, of off c u] that by simp
      have "child_ok g fuel (P - {i} \<union> ?K) H1 off u" if u: "u \<in> set ?cs" for u
      proof -
        have "u < length (d_units g)" using group_ids_bounds [OF u] by simp
        moreover have "off XOR ucast (d_labels g ! u) \<in> ?K" if "d_labels g ! u \<noteq> 0" using that u by (auto simp: child_ids_def)
        moreover have "0 < unat (du_child (d_units g ! u)) \<and> unat (du_child (d_units g ! u)) < c" if "d_labels g ! u \<noteq> 0"
          using wf c(1) u that by (simp add: store_wf_def)
        ultimately show ?thesis using H1 [OF u] c(2) Suc.prems(7) by (auto simp: child_ok_def)
      qed
      moreover have "distinct (map ((!) (d_labels g)) ?cs)"
        using group_labels_sorted [OF wf c] strict_sorted_iff by blast
      moreover note build_children_spec [OF Suc.IH wf b2(2), of ?cs off]
      ultimately have "built g v (P - {i} \<union> ?K - ?K) H1 ?G (length (b_units b2) + 256 * ?s) (build_children g fuel ?cs off b2)"
        by blast
      moreover have "P - {i} \<union> ?K - ?K = P - {i}"
      proof -
        have "j \<notin> ?K" if j: "j \<in> P" for j
        proof
          assume "j \<in> ?K"
          then obtain u where "u \<in> set ?cs" "j = off XOR ucast (d_labels g ! u)" by (auto simp: child_ids_def)
          then have Hj: "H1 j = Some (off, u)" using H1 by simp
          then have "j \<noteq> 0" using own_okD(1) [OF own2] by auto
          then obtain o' t where "H j = Some (o', t)" using pn j by (auto simp: pending_ok_def)
          moreover from this have "H1 j = Some (o', t)" using b1(3) by (metis domI map_le_def)
          ultimately have "H j = Some (off, t)" using Hj by simp
          from own_okD(5) [OF own this] b1(4) show False by simp
        qed
        then show ?thesis by blast
      qed
      ultimately have "built g v (P - {i}) H1 ?G (length (b_units b2) + 256 * ?s) (build_children g fuel ?cs off b2)" by simp
      then have "built g v (P - {i}) H G (?n + 256 + 256 * ?s) (build_children g fuel ?cs off b2)"
        by (rule built_mono) (use b1(3,4,6) b2(3) in \<open>auto simp: map_le_def dom_def\<close>)
      then show ?thesis unfolding m step using b1(1) b2(1) by simp
    qed
  qed
qed simp

end
