(* ===== verification/Da_Finish.thy ===== *)
theory Da_Finish
  imports Da_Build
begin

unbundle bit_operations_syntax

text \<open>
  \<^verbatim>\<open>build_from_dawg\<close> and \<^verbatim>\<open>DoubleArrayImpl::build\<close> of \<open>Da_Builder\<close> as a whole: the state before the first
  group, the blocks that are fixed at the end, and the searches of \<open>Double_Array\<close> in the finished array, which
  follow the word graph. \<open>da_build_contains\<close>: the array built from a sorted list of keys contains
  exactly these keys, each with the value of its first occurrence.
\<close>

section \<open>The state before the first group\<close>

definition da_start :: "DawgBuilder \<Rightarrow> DaBuilder" where
  "da_start g = da_new\<lparr>b_table := replicate (bv_num_ones (d_is_intersections g)) 0, b_extras := replicate 4096 extra_new\<rparr>"

lemma start_fields:
  "b_units (da_start g) = []" "b_labels (da_start g) = []" "b_head (da_start g) = 0" "length (b_extras (da_start g)) = 4096"
  "b_table (da_start g) = replicate (bv_num_ones (d_is_intersections g)) 0" "extras (da_start g) j = extra_new"
  by (simp_all add: da_start_def da_new_def extras_def)

lemma start_ring: "ring_ok 0 (da_start g) []"
  by (simp add: ring_ok_def start_fields)

lemma first_block:
  fixes g :: DawgBuilder
  defines "b \<equiv> unlink_id 0 (add_block False 0 (da_start g))"
  shows "reserve_id 0 (da_start g) = Inr b"
    and "ring_ok 0 b (remove1 0 (map (new_id 0) [0..<256]))"
    and "b_units b = replicate 256 0" "b_table b = b_table (da_start g)"
    and "\<And>j. unat j < 4096 \<Longrightarrow> \<not> e_used (extras b j)" "\<And>j. unat j < 4096 \<Longrightarrow> e_fixed (extras b j) \<longleftrightarrow> j = 0"
proof -
  let ?a = "add_block False 0 (da_start g)" and ?ns = "map (new_id 0) [0..<256]"
  have new: "\<not> e_fixed (extras (da_start g) j) \<and> \<not> e_used (extras (da_start g) j)" for j
    by (simp add: start_fields extra_new_def)
  have "(0 :: nat) = length (b_units (da_start g))" by (simp add: start_fields)
  moreover have "(0 :: nat) + 256 \<le> 0 + 4096" "(0 :: nat) + 256 \<le> 2 ^ 29" by simp_all
  moreover have "False \<or> (\<forall>t < 256. \<not> e_fixed (extras (da_start g) (new_id 0 t)) \<and> \<not> e_used (extras (da_start g) (new_id 0 t)))"
    using new by blast
  ultimately have add: "ring_ok 0 ?a ([] @ ?ns)" "b_units ?a = b_units (da_start g) @ replicate 256 0"
    "b_table ?a = b_table (da_start g)"
    "\<And>t. t < 256 \<Longrightarrow> \<not> e_used (extras ?a (new_id 0 t))"
    "\<And>j. slot j \<notin> (\<lambda>t. slot (new_id 0 t)) ` {..<256} \<Longrightarrow> e_used (extras ?a j) = e_used (extras (da_start g) j) \<and>
      e_fixed (extras ?a j) = e_fixed (extras (da_start g) j)"
    using add_block_ring [OF start_ring [of g], where src = 0 and full = False] by blast+
  then have ring: "ring_ok 0 ?a ?ns" by simp
  have "new_id 0 0 \<in> set ?ns" unfolding set_map by (rule imageI) simp
  then have z: "0 \<in> set ?ns" by simp
  show "reserve_id 0 (da_start g) = Inr b"
    by (simp add: reserve_id_def expand_units_def num_blocks_def start_fields b_def)
  show "ring_ok 0 b (remove1 0 ?ns)" unfolding b_def by (rule unlink_ring [OF ring z])
  show "b_units b = replicate 256 0" "b_table b = b_table (da_start g)" using add(2,3) by (simp_all add: b_def start_fields)
  have len: "length (b_extras ?a) = 4096" using ring by (simp add: ring_ok_def)
  have old: "\<not> e_used (extras ?a j) \<and> \<not> e_fixed (extras ?a j)" if j: "unat j < 4096" for j
  proof (cases "unat j < 256")
    case True
    obtain t where t: "t < 256" "j = new_id 0 t" using that [of "unat j"] True by simp
    then have "j \<in> set ?ns" unfolding set_map t(2) by (intro imageI) simp
    with ring have "\<not> e_fixed (extras ?a j)" unfolding ring_ok_def by blast
    with add(4) [OF t(1)] t(2) show ?thesis by simp
  next
    case False
    have "slot j \<notin> (\<lambda>t. slot (new_id 0 t)) ` {..<256}"
    proof
      assume "slot j \<in> (\<lambda>t. slot (new_id 0 t)) ` {..<256}"
      then obtain t where t: "t < 256" "slot j = slot (new_id 0 t)" by blast
      have "unat (new_id 0 t) = 0 + t" by (rule unat_new_id) (use t(1) in simp)
      with t j False slot_eq [of 0 j "new_id 0 t"] show False by simp
    qed
    from add(5) [OF this] new [of j] show ?thesis by simp
  qed
  show "\<not> e_used (extras b j)" if "unat j < 4096" for j using old [OF that] by (simp add: b_def unlink_extras [OF len])
  show "e_fixed (extras b j) \<longleftrightarrow> j = 0" if "unat j < 4096" for j
    using old [OF that] slot_eq [of 0 j 0] that by (simp add: b_def unlink_extras [OF len])
qed

lemma initial_core:
  assumes ok: "dawg_ok g v"
  obtains b where "\<And>k. bind_ok (reserve_id 0 (da_start g)) (\<lambda>b1. bind_ok (upd_offset 0 1 (set_is_used 0 True b1)) (\<lambda>b2.
      bind_ok (upd_unit 0 (bu_set_label 0) b2) k)) = k b"
    and "main_core g v {} {0} {} Map.empty Map.empty b" "length (b_units b) = 256"
proof -
  let ?b = "unlink_id 0 (add_block False 0 (da_start g))"
  let ?u = "set_is_used 0 True ?b" and ?xs = "remove1 0 (map (new_id 0) [0..<256])"
  note b = first_block [where g = g]
  have len: "length (b_extras ?b) = 4096" using b(2) by (simp add: ring_ok_def)
  have units: "b_units ?u = replicate 256 0" using b(3) by (simp add: used_fields)
  have "encodable 1" unfolding encodable_bits by (auto simp: bit_1_iff)
  moreover have "is_node 0" by (simp add: is_node_def)
  moreover have "unat (1 :: id_type) < 2 ^ 29" by simp
  ultimately obtain x where x: "upd_offset 0 1 ?u = Inr (?u\<lparr>b_units := (b_units ?u)[unat 0 := x]\<rparr>)"
    "unit_label x = unit_label 0" "has_leaf x = has_leaf 0" "is_node x"
    using upd_offset_spec [of 0 ?u 1] unfolding units by auto
  let ?y = "bu_set_label 0 x"
  let ?c = "?u\<lparr>b_units := (replicate 256 0)[0 := ?y]\<rparr>"
  have y: "unit_label ?y = 0" "is_node ?y" "\<not> has_leaf ?y" using set_label_unit [OF x(4), of 0] x(3) by (simp_all add: has_leaf_def)
  have fx: "e_fixed (extras ?c j) \<longleftrightarrow> j = 0" if "unat j < 4096" for j using b(6) [OF that] used_extras(2) [OF len] by simp
  have us: "e_used (extras ?c j) \<longleftrightarrow> j = 0" if "unat j < 4096" for j
    using b(5) [OF that] used_extras(1) [OF len] slot_eq [of 0 j 0] that by simp
  have "ring_ok 0 ?c ?xs"
  proof -
    have "length (b_units ?b) = 256" using b(3) by simp
    then have "ring_ok 0 ?u ?xs"
      using b(2) used_extras(2,3) [OF len] unfolding ring_ok_def by (simp add: used_fields cong: list.case_cong)
    then show ?thesis using units by simp
  qed
  moreover have "window_ok 0 ?c" unfolding window_ok_def
  proof (intro conjI allI impI)
    show "\<not> e_fixed (extras ?c i)" "\<not> e_used (extras ?c i)" if "length (b_units ?c) \<le> unat i" "unat i < 4096" for i
      using that fx [of i] us [of i] by auto
    show "b_units ?c ! unat i = 0" if "0 \<le> unat i" "unat i < length (b_units ?c)" "\<not> e_fixed (extras ?c i)" for i
      using that fx [of i] by (auto simp: nth_list_update unat_eq_zero)
  qed simp_all
  moreover have "own_ok g 0 {} Map.empty Map.empty ?c" using fx us by (simp add: own_ok_def)
  moreover have "unit_ok g {} {0} Map.empty Map.empty (b_units ?c)" using y by (simp add: unit_ok_def node_state_def)
  moreover have "fill_ok 0 Map.empty Map.empty (b_units ?c)" by (simp add: fill_ok_def)
  moreover have "b_table ?c = replicate (bv_num_ones (d_is_intersections g)) 0" using b(4) by (simp add: used_fields start_fields)
  then have "table_ok g v Map.empty (b_table ?c)" using rank_index(4) [OF ok] by (simp add: table_ok_def)
  moreover have "pending_ok g {0} Map.empty" by (simp add: pending_ok_def)
  ultimately have "core g v {} {0} {} 0 Map.empty Map.empty ?c ?xs" by (simp add: core_def)
  then have "main_core g v {} {0} {} Map.empty Map.empty ?c" by (auto simp: main_core_def)
  moreover have "bind_ok (reserve_id 0 (da_start g)) (\<lambda>b1. bind_ok (upd_offset 0 1 (set_is_used 0 True b1)) (\<lambda>b2.
      bind_ok (upd_unit 0 (bu_set_label 0) b2) k)) = k ?c" for k
    using b(1) x(1) units by (simp add: upd_unit_ok)
  ultimately show ?thesis by (intro that [of ?c]) simp_all
qed

section \<open>Fixing the blocks that are left\<close>

lemma fix_blocks_spec:
  "core g v A P Cur (256 * k) H G b xs \<Longrightarrow> length (b_units b) = 256 * n \<Longrightarrow> k \<le> n \<Longrightarrow>
   \<exists>b' xs'. fix_blocks [k..<n] b = Inr b' \<and> core g v A P Cur (256 * n) H G b' xs' \<and> length (b_units b') = 256 * n"
proof (induction "n - k" arbitrary: k b xs)
  case 0
  then show ?case by auto
next
  case (Suc m)
  then have lt: "k < n" by simp
  then have "256 * k < length (b_units b)" using Suc.prems(2) by simp
  from core_fix [OF Suc.prems(1) this] Suc.prems(2) obtain b1 xs1 where
    b1: "fix_block k b = Inr b1" "core g v A P Cur (256 * k + 256) H G b1 xs1" "length (b_units b1) = 256 * n"
    by (auto simp: add.commute)
  have "256 * k + 256 = 256 * Suc k" by simp
  note b2 = b1(2) [unfolded this]
  have "m = n - Suc k" "Suc k \<le> n" using Suc.hyps(2) lt by simp_all
  from Suc.hyps(1) [OF this(1) b2 b1(3) this(2)] b1(1) show ?case by (simp add: upt_conv_Cons [OF lt])
qed

lemma fix_all_spec:
  assumes "main_core g v A P Cur H G b"
  shows "\<exists>b' xs. fix_all_blocks b = Inr b' \<and> core g v A P Cur (length (b_units b)) H G b' xs \<and>
    length (b_units b') = length (b_units b)"
proof -
  from assms obtain xs where c: "core g v A P Cur (length (b_units b) - 4096) H G b xs" by (auto simp: main_core_def)
  then have "256 dvd length (b_units b)" by (simp add: core_def window_ok_def)
  then obtain n where n: "length (b_units b) = 256 * n" by (rule dvdE)
  then have "length (b_units b) - 4096 = 256 * (n - 16)" "num_blocks b = n" by (simp_all add: num_blocks_def)
  with fix_blocks_spec [of g v A P Cur "n - 16" H G b xs n] c n show ?thesis by (auto simp: fix_all_blocks_def)
qed

section \<open>Searching the finished array\<close>

lemma uchar_label: "uchar c = ucast (of_char c :: uchar_type)"
proof (rule word_unat_eq_iff [THEN iffD2])
  have "unat (of_char c :: uchar_type) < 2 ^ LENGTH(32)" by (rule less_le_trans [OF unsigned_less]) simp
  then have "unat (ucast (of_char c :: uchar_type) :: unit32) = unat (of_char c :: uchar_type)"
    unfolding unsigned_ucast_eq by (rule take_bit_nat_eq_self)
  then show "unat (uchar c) = unat (ucast (of_char c :: uchar_type) :: unit32)" by (simp add: unat_of_char unat_uchar)
qed

lemma find_label:
  assumes "store_wf us ls" "0 < c" "c < length us"
  shows "find (\<lambda>u. ls ! u = l) (group_ids us c) = Some u \<longleftrightarrow> u \<in> set (group_ids us c) \<and> ls ! u = l"
    and "find (\<lambda>u. ls ! u = l) (group_ids us c) = None \<longleftrightarrow> (\<forall>u \<in> set (group_ids us c). ls ! u \<noteq> l)"
proof -
  show "find (\<lambda>u. ls ! u = l) (group_ids us c) = Some u \<longleftrightarrow> u \<in> set (group_ids us c) \<and> ls ! u = l"
    using group_labels_inj [OF assms]
    by (cases "find (\<lambda>u. ls ! u = l) (group_ids us c)") (auto simp: find_None_iff find_Some_iff)
  show "find (\<lambda>u. ls ! u = l) (group_ids us c) = None \<longleftrightarrow> (\<forall>u \<in> set (group_ids us c). ls ! u \<noteq> l)"
    by (auto simp: find_None_iff)
qed

definition at_group :: "DawgBuilder \<Rightarrow> groups \<Rightarrow> nat \<Rightarrow> id_type \<Rightarrow> unit32 \<Rightarrow> nat \<Rightarrow> bool" where
  "at_group g G n pos x c \<longleftrightarrow>
     unat pos < n \<and> G (pos XOR unit_offset x) = Some c \<and> (has_leaf x \<longleftrightarrow> leafy g c)"

lemma step_spec:
  fixes l :: uchar_type
  assumes core: "core g v {} {} {} (length (b_units b)) H G b xs" and wf: "store_wf (d_units g) (d_labels g)"
    and at: "G off = Some c" and l: "l \<noteq> 0"
  defines "pos \<equiv> off XOR ucast l"
  shows "unat pos < length (b_units b)"
    and "case find (\<lambda>u. d_labels g ! u = l) (group_ids (d_units g) c) of
      None \<Rightarrow> unit_label (b_units b ! unat pos) \<noteq> ucast l
    | Some u \<Rightarrow> unit_label (b_units b ! unat pos) = ucast l \<and>
        at_group g G (length (b_units b)) pos (b_units b ! unat pos) (unat (du_child (d_units g ! u)))"
proof -
  let ?n = "length (b_units b)" and ?x = "b_units b ! unat pos"
  have own: "own_ok g ?n {} H G b" and un: "unit_ok g {} {} H G (b_units b)" and fl: "fill_ok ?n H G (b_units b)"
    and dv: "256 dvd ?n" using core by (simp_all add: core_def window_ok_def)
  have c: "0 < c" "c < length (d_units g)" using own_okD(6) [OF own at] by simp_all
  note fd = find_label [OF wf c]
  have H: "H (off XOR ucast (d_labels g ! u)) = Some (off, u)" if "u \<in> set (group_ids (d_units g) c)" for u
    by (rule own_okD(7) [OF own at that])
  have "unat off < ?n" using own_okD(4) [OF own H [OF group_ids_first [OF c(2)]]] block_xor_bounds(1) [OF dv] by simp
  then show pn: "unat pos < ?n" using block_xor_bounds(1) [OF dv] by (simp add: pos_def)
  show "case find (\<lambda>u. d_labels g ! u = l) (group_ids (d_units g) c) of
      None \<Rightarrow> unit_label ?x \<noteq> ucast l
    | Some u \<Rightarrow> unit_label ?x = ucast l \<and> at_group g G ?n pos ?x (unat (du_child (d_units g ! u)))"
  proof (cases "find (\<lambda>u. d_labels g ! u = l) (group_ids (d_units g) c)")
    case (Some u)
    then have u: "u \<in> set (group_ids (d_units g) c)" "d_labels g ! u = l" using fd(1) by simp_all
    then have "H pos = Some (off, u)" using H [OF u(1)] by (simp add: pos_def)
    then have "entry_state g {} {} G pos u ?x" using un by (simp add: unit_ok_def)
    then show ?thesis using Some u(2) l pn by (simp add: entry_state_def node_state_def at_group_def)
  next
    case None
    then have no: "d_labels g ! u \<noteq> l" if "u \<in> set (group_ids (d_units g) c)" for u using that fd(2) by simp
    have "unit_label ?x \<noteq> ucast l"
    proof
      assume lab: "unit_label ?x = ucast l"
      show False
      proof (cases "H pos")
        case None
        show False
        proof (cases "pos = 0")
          case True
          then have "unit_label ?x = ucast (0 :: uchar_type)" using un by (simp add: unit_ok_def)
          with lab have "(ucast l :: id_type) = ucast (0 :: uchar_type)" by simp
          then show False using l xor_label_inj [of 0 l 0] by simp
        next
          case False
          with fl None pn obtain uo where uo: "G uo = None" "unit_label ?x = pos XOR uo" by (auto simp: fill_ok_def)
          then have "pos XOR (pos XOR uo) = pos XOR ucast l" using lab by simp
          then have "uo = off" by (simp add: pos_def xor.assoc [symmetric])
          with uo(1) at show False by simp
        qed
      next
        case (Some e)
        then obtain o' u where e: "H pos = Some (o', u)" by (cases e) auto
        then have st: "entry_state g {} {} G pos u ?x" using un by (simp add: unit_ok_def)
        with lab have "d_labels g ! u \<noteq> 0" by (auto simp: entry_state_def)
        with st lab have "(ucast (d_labels g ! u) :: id_type) = ucast l" by (simp add: entry_state_def)
        then have ul: "d_labels g ! u = l" using xor_label_inj [of 0 "d_labels g ! u" l] by simp
        have "pos = o' XOR ucast l" using own_okD(2) [OF own e] ul by simp
        then have "o' = off" by (metis pos_def xor_cancel(1))
        with own_okD(5) [OF own e] at have "u \<in> set (group_ids (d_units g) c)" by auto
        with no ul show False by blast
      qed
    qed
    with None show ?thesis by simp
  qed
qed

lemma exact_loop_spec:
  assumes core: "core g v {} {} {} (length (b_units b)) H G b xs" and wf: "store_wf (d_units g) (d_labels g)"
  shows "at_group g G (length (b_units b)) pos x c \<Longrightarrow> no_nul key \<Longrightarrow>
    exact_loop (b_units b) key pos x = Inr None \<and> (\<forall>w. dfind (d_units g) (d_labels g) c (map of_char key @ w) = None) \<or>
    (\<exists>pos' x' c'. exact_loop (b_units b) key pos x = Inr (Some (pos', x')) \<and> at_group g G (length (b_units b)) pos' x' c' \<and>
      (\<forall>w. dfind (d_units g) (d_labels g) c (map of_char key @ w) = dfind (d_units g) (d_labels g) c' w))"
proof (induction key arbitrary: pos x c)
  case (Cons a key)
  let ?l = "of_char a :: uchar_type" and ?off = "pos XOR unit_offset x"
  have at: "G ?off = Some c" using Cons.prems(1) by (simp add: at_group_def)
  have l: "?l \<noteq> 0" using Cons.prems(2) by (simp add: of_char_0)
  obtain p where p: "p = ?off XOR ucast ?l" by blast
  note st = step_spec [OF core wf at l, folded p]
  have pos: "pos XOR (unit_offset x XOR uchar a) = p" by (simp add: p uchar_label xor.assoc)
  have loop: "exact_loop (b_units b) (a # key) pos x =
      (if unit_label (b_units b ! unat p) = ucast ?l then exact_loop (b_units b) key p (b_units b ! unat p) else Inr None)"
    using st(1) by (simp only: exact_loop.simps Let_def pos unit_at_def) (simp add: uchar_label)
  show ?case
  proof (cases "find (\<lambda>u. d_labels g ! u = ?l) (group_ids (d_units g) c)")
    case None
    then show ?thesis using st(2) unfolding loop by (simp add: dfind.simps)
  next
    case (Some u)
    with st have n: "unit_label (b_units b ! unat p) = ucast ?l"
      "at_group g G (length (b_units b)) p (b_units b ! unat p) (unat (du_child (d_units g ! u)))" by simp_all
    have "dfind (d_units g) (d_labels g) c (map of_char (a # key) @ w) =
        dfind (d_units g) (d_labels g) (unat (du_child (d_units g ! u))) (map of_char key @ w)" for w
      using Some l by (simp add: dfind.simps)
    then show ?thesis using Cons.IH [OF n(2)] Cons.prems(2) n(1) unfolding loop by simp
  qed
qed auto

lemma dfind_leaf:
  assumes "store_wf (d_units g) (d_labels g)" "0 < c" "c < length (d_units g)"
  shows "\<not> leafy g c \<Longrightarrow> dfind (d_units g) (d_labels g) c [0] = None"
    and "u \<in> set (group_ids (d_units g) c) \<Longrightarrow> d_labels g ! u = 0 \<Longrightarrow>
      dfind (d_units g) (d_labels g) c [0] = Some (du_value (d_units g ! u))"
proof -
  show "dfind (d_units g) (d_labels g) c [0] = None" if "\<not> leafy g c"
    using that find_label(2) [OF assms, of 0] unfolding leafy_def dfind.simps by simp
  show "dfind (d_units g) (d_labels g) c [0] = Some (du_value (d_units g ! u))"
    if "u \<in> set (group_ids (d_units g) c)" "d_labels g ! u = 0"
    using that find_label(1) [OF assms, of 0 u] unfolding dfind.simps by simp
qed

lemma exact_search_spec:
  assumes core: "core g v {} {} {} (length (b_units b)) H G b xs" and wf: "store_wf (d_units g) (d_labels g)"
    and key: "no_nul key"
  shows "exactMatchSearch (b_units b) key 0 0 =
    Inr (case dfind (d_units g) (d_labels g) (root_child g) (key_labels key) of None \<Rightarrow> (-1, 0) | Some x \<Rightarrow> (x, length key))"
proof -
  let ?us = "b_units b"
  have own: "own_ok g (length ?us) {} H G b" and un: "unit_ok g {} {} H G ?us" and n: "256 \<le> length ?us"
    using core by (simp_all add: core_def window_ok_def)
  from n have "?us \<noteq> []" by auto
  then have z: "unit_at ?us 0 = Inr (?us ! 0)" by (simp add: unit_at_def)
  have "at_group g G (length ?us) 0 (?us ! 0) (root_child g)"
    using un \<open>?us \<noteq> []\<close> by (simp add: unit_ok_def node_state_def at_group_def)
  from exact_loop_spec [OF core wf this key] show ?thesis
  proof (elim disjE exE conjE)
    assume "exact_loop ?us key 0 (?us ! 0) = Inr None"
      "\<forall>w. dfind (d_units g) (d_labels g) (root_child g) (map of_char key @ w) = None"
    then show ?thesis using key z by (simp add: exactMatchSearch_def key_labels_def)
  next
    fix pos x c
    assume loop: "exact_loop ?us key 0 (?us ! 0) = Inr (Some (pos, x))" and at: "at_group g G (length ?us) pos x c"
      and df: "\<forall>w. dfind (d_units g) (d_labels g) (root_child g) (map of_char key @ w) = dfind (d_units g) (d_labels g) c w"
    let ?off = "pos XOR unit_offset x"
    have G: "G ?off = Some c" and leaf: "has_leaf x \<longleftrightarrow> leafy g c" using at by (simp_all add: at_group_def)
    have c: "0 < c" "c < length (d_units g)" using own_okD(6) [OF own G] by simp_all
    show ?thesis
    proof (cases "leafy g c")
      case False
      then show ?thesis using key z loop leaf df dfind_leaf(1) [OF wf c]
        by (simp add: exactMatchSearch_def key_labels_def)
    next
      case True
      then obtain u where u: "u \<in> set (group_ids (d_units g) c)" "d_labels g ! u = 0" by (auto simp: leafy_def)
      have H: "H ?off = Some (?off, u)" using own_okD(7) [OF own G u(1)] u(2) by simp
      have "entry_state g {} {} G ?off u (?us ! unat ?off)" using un H by (simp add: unit_ok_def)
      then have "unit_value (?us ! unat ?off) = du_value (d_units g ! u)" using u(2) by (simp add: entry_state_def)
      moreover have "unit_at ?us ?off = Inr (?us ! unat ?off)" using own_okD(4) [OF own H] by (simp add: unit_at_def)
      ultimately show ?thesis using key z loop True leaf df dfind_leaf(2) [OF wf c u]
        by (simp add: exactMatchSearch_def key_labels_def)
    qed
  qed
qed

section \<open>The number of groups\<close>

text \<open>The keys of the graph below a group.\<close>

fun graph_words :: "DawgBuilder \<Rightarrow> nat \<Rightarrow> nat \<Rightarrow> uchar_type list list" where
  "graph_words g 0 c = []"
| "graph_words g (Suc fuel) c =
     concat (map (\<lambda>u. if d_labels g ! u = 0 then [[0]]
       else map ((#) (d_labels g ! u)) (graph_words g fuel (unat (du_child (d_units g ! u))))) (group_ids (d_units g) c))"

lemma store_child:
  assumes "store_wf (d_units g) (d_labels g)" "0 < c" "c < length (d_units g)" "u \<in> set (group_ids (d_units g) c)" "d_labels g ! u \<noteq> 0"
  shows "0 < unat (du_child (d_units g ! u))" "unat (du_child (d_units g ! u)) < c"
  using assms by (simp_all add: store_wf_def)

lemma sum_list_len_Cons: "sum_list (map (length \<circ> (#) l) ws) = length ws + sum_list (map length ws)"
  by (induction ws) simp_all

lemma sum_list_Suc_mono:
  "(\<And>u. u \<in> set cs \<Longrightarrow> h u + 1 \<le> f u) \<Longrightarrow> sum_list (map h cs) + length cs \<le> (sum_list (map f cs) :: nat)"
  by (induction cs) (simp, force)

lemma tsize_words:
  assumes wf: "store_wf (d_units g) (d_labels g)"
  shows "0 < c \<Longrightarrow> c < length (d_units g) \<Longrightarrow> c < fuel \<Longrightarrow>
    graph_words g fuel c \<noteq> [] \<and> tsize g fuel c \<le> sum_list (map length (graph_words g fuel c))"
proof (induction fuel arbitrary: c)
  case (Suc fuel)
  let ?cs = "group_ids (d_units g) c" and ?ch = "\<lambda>u. unat (du_child (d_units g ! u))"
  let ?f = "\<lambda>u. if d_labels g ! u = 0 then [[0]] else map ((#) (d_labels g ! u)) (graph_words g fuel (?ch u))"
  let ?h = "\<lambda>u. if d_labels g ! u = 0 then 0 else tsize g fuel (?ch u)"
  have step: "?f u \<noteq> [] \<and> ?h u + 1 \<le> sum_list (map length (?f u))" if u: "u \<in> set ?cs" for u
  proof (cases "d_labels g ! u = 0")
    case False
    from store_child [OF wf Suc.prems(1,2) u False] Suc.prems
    have IH: "graph_words g fuel (?ch u) \<noteq> []" "tsize g fuel (?ch u) \<le> sum_list (map length (graph_words g fuel (?ch u)))"
      using Suc.IH [of "?ch u"] by simp_all
    then have "1 \<le> length (graph_words g fuel (?ch u))" by (cases "graph_words g fuel (?ch u)") simp_all
    with IH False show ?thesis by (simp add: sum_list_len_Cons)
  qed simp
  have cc: "c \<in> set ?cs" by (rule group_ids_first [OF Suc.prems(2)])
  then have ne: "1 \<le> length ?cs" by (cases ?cs) simp_all
  have eq: "graph_words g (Suc fuel) c = concat (map ?f ?cs)" by simp
  have "sum_list (map length (concat (map ?f ds))) = sum_list (map (\<lambda>u. sum_list (map length (?f u))) ds)" for ds
    by (induction ds) simp_all
  moreover have "sum_list (map ?h ?cs) + length ?cs \<le> sum_list (map (\<lambda>u. sum_list (map length (?f u))) ?cs)"
    by (rule sum_list_Suc_mono) (use step in blast)
  ultimately have "tsize g (Suc fuel) c \<le> sum_list (map length (graph_words g (Suc fuel) c))" using ne unfolding eq by simp
  moreover have "hd (?f c) \<in> set (concat (map ?f ?cs))"
    unfolding set_concat set_map using cc hd_in_set [OF conjunct1 [OF step [OF cc]]] by blast
  then have "graph_words g (Suc fuel) c \<noteq> []" unfolding eq by (metis empty_iff list.set(1))
  ultimately show ?case by blast
qed simp

lemma distinct_concat_hd:
  "(\<And>u. u \<in> set cs \<Longrightarrow> distinct (f u)) \<Longrightarrow> (\<And>u w. u \<in> set cs \<Longrightarrow> w \<in> set (f u) \<Longrightarrow> w \<noteq> [] \<and> hd w = lab u) \<Longrightarrow>
   distinct (map lab cs) \<Longrightarrow> distinct (concat (map f cs))"
proof (induction cs)
  case (Cons c cs)
  have "w \<notin> set (concat (map f cs))" if w: "w \<in> set (f c)" for w
  proof
    assume "w \<in> set (concat (map f cs))"
    then obtain u where u: "u \<in> set cs" "w \<in> set (f u)" by auto
    then have "lab u = lab c" using Cons.prems(2) [of c w] Cons.prems(2) [of u w] w by simp
    with u(1) Cons.prems(3) show False by (metis distinct.simps(2) image_eqI list.set_map list.simps(9))
  qed
  with Cons show ?case by auto
qed simp

lemma words_found:
  assumes wf: "store_wf (d_units g) (d_labels g)"
  shows "0 < c \<Longrightarrow> c < length (d_units g) \<Longrightarrow>
    distinct (graph_words g fuel c) \<and> (\<forall>w \<in> set (graph_words g fuel c). kword w \<and> dfind (d_units g) (d_labels g) c w \<noteq> None)"
proof (induction fuel arbitrary: c)
  case (Suc fuel)
  let ?cs = "group_ids (d_units g) c" and ?ch = "\<lambda>u. unat (du_child (d_units g ! u))"
  let ?f = "\<lambda>u. if d_labels g ! u = 0 then [[0]] else map ((#) (d_labels g ! u)) (graph_words g fuel (?ch u))"
  have eq: "graph_words g (Suc fuel) c = concat (map ?f ?cs)" by simp
  note fd = find_label(1) [OF wf Suc.prems]
  have IH: "distinct (graph_words g fuel (?ch u)) \<and>
      (\<forall>w \<in> set (graph_words g fuel (?ch u)). kword w \<and> dfind (d_units g) (d_labels g) (?ch u) w \<noteq> None)"
    if "u \<in> set ?cs" "d_labels g ! u \<noteq> 0" for u
    using Suc.IH [of "?ch u"] store_child [OF wf Suc.prems that] Suc.prems(2) by simp
  have "distinct (concat (map ?f ?cs))"
  proof (rule distinct_concat_hd)
    show "distinct (?f u)" if "u \<in> set ?cs" for u using IH [OF that] by (simp add: distinct_map)
    show "w \<noteq> [] \<and> hd w = d_labels g ! u" if "u \<in> set ?cs" "w \<in> set (?f u)" for u w using that by (auto split: if_splits)
    show "distinct (map ((!) (d_labels g)) ?cs)" using group_labels_sorted [OF wf Suc.prems] strict_sorted_iff by blast
  qed
  moreover have "kword w \<and> dfind (d_units g) (d_labels g) c w \<noteq> None" if w: "w \<in> set (concat (map ?f ?cs))" for w
  proof -
    from w obtain u where u: "u \<in> set ?cs" "w \<in> set (?f u)" unfolding set_concat set_map by blast
    show ?thesis
    proof (cases "d_labels g ! u = 0")
      case True
      with u fd [of 0 u] show ?thesis by (simp add: dfind.simps)
    next
      case False
      with u obtain t where t: "w = (d_labels g ! u) # t" "t \<in> set (graph_words g fuel (?ch u))" by auto
      with IH [OF u(1) False] fd [of "d_labels g ! u" u] u(1) False show ?thesis by (simp add: dfind.simps)
    qed
  qed
  ultimately show ?case unfolding eq by blast
qed simp

lemma key_labels_inj: "key_labels k = key_labels k' \<longleftrightarrow> k = k'"
proof -
  have "(of_char a :: uchar_type) = of_char b \<longleftrightarrow> a = b" for a b
  proof
    assume "(of_char a :: uchar_type) = of_char b"
    then have "unat (of_char a :: uchar_type) = unat (of_char b :: uchar_type)" by (rule arg_cong)
    then show "a = b" unfolding unat_of_char by simp
  qed simp
  then have "inj (of_char :: char \<Rightarrow> uchar_type)" by (auto simp: inj_on_def)
  then have "map (of_char :: char \<Rightarrow> uchar_type) k = map of_char k' \<longleftrightarrow> k = k'" by (rule inj_map_eq_map)
  then show ?thesis by (simp add: key_labels_def)
qed

lemma keyed_map_of: "keyed ks (key_labels k) = map_of ks k"
  by (induction ks) (auto simp: keyed_def key_labels_inj)

lemma keyed_keys: "keyed ks w \<noteq> None \<longleftrightarrow> w \<in> set (map (key_labels \<circ> fst) ks)"
proof -
  have "keyed ks w = None \<longleftrightarrow> w \<notin> set (map (key_labels \<circ> fst) ks)"
    unfolding keyed_def map_of_eq_None_iff by (simp add: split_beta image_image)
  then show ?thesis by (simp only: not_not)
qed

lemma sum_distinct_le:
  assumes "distinct ws" "set ws \<subseteq> set xs"
  shows "sum_list (map f ws) \<le> (sum_list (map f xs) :: nat)"
proof -
  have "sum f (set xs) \<le> sum_list (map f xs)"
    by (induction xs) (auto simp: sum.insert_if)
  moreover have "sum_list (map f ws) = sum f (set ws)" using assms(1) by (rule sum_list_distinct_conv_sum_set)
  moreover have "sum f (set ws) \<le> sum f (set xs)" using assms(2) by (rule sum_mono2 [OF finite_set]) simp
  ultimately show ?thesis by linarith
qed

lemma graph_groups:
  assumes ok: "graph_ok g (keyed ks)" and c: "0 < root_child g"
  shows "tsize g (length (d_units g)) (root_child g) \<le> labels_total ks"
proof -
  let ?ws = "graph_words g (length (d_units g)) (root_child g)"
  have wf: "store_wf (d_units g) (d_labels g)" and lt: "root_child g < length (d_units g)"
    and df: "\<And>w. kword w \<Longrightarrow> dfind (d_units g) (d_labels g) (root_child g) w = keyed ks w"
    using ok c by (auto simp: graph_ok_def)
  note found = words_found [OF wf c lt, of "length (d_units g)"]
  have "\<forall>w \<in> set ?ws. keyed ks w \<noteq> None"
  proof
    fix w assume "w \<in> set ?ws"
    with found have "kword w" "dfind (d_units g) (d_labels g) (root_child g) w \<noteq> None" by blast+
    with df [of w] show "keyed ks w \<noteq> None" by simp
  qed
  then have "sum_list (map length ?ws) \<le> sum_list (map length (map (key_labels \<circ> fst) ks))"
    using found by (intro sum_distinct_le) (simp, simp only: keyed_keys subset_code(1))
  also have "\<dots> = labels_total ks" by (induction ks) (simp_all add: labels_total_def key_labels_def)
  finally show ?thesis using tsize_words [OF wf c lt lt] by simp
qed

section \<open>The whole builder\<close>

lemma build_from_dawg_spec:
  assumes ok: "dawg_ok g v" and c: "0 < root_child g"
  shows "build_from_dawg g da_new = Inl Thrown \<and> 2 ^ 29 < 256 * (tsize g (length (d_units g)) (root_child g) + 1) \<or>
    (\<exists>b b' H G xs. build_from_dawg g da_new = Inr b' \<and> b_units b' = b_units b \<and>
      core g v {} {} {} (length (b_units b)) H G b xs)"
proof -
  obtain b0 where b0: "\<And>k :: DaBuilder \<Rightarrow> fault + DaBuilder. bind_ok (reserve_id 0 (da_start g)) (\<lambda>b1. bind_ok (upd_offset 0 1 (set_is_used 0 True b1)) (\<lambda>b2.
      bind_ok (upd_unit 0 (bu_set_label 0) b2) k)) = k b0"
    and core: "main_core g v {} {0} {} Map.empty Map.empty b0" and len: "length (b_units b0) = 256"
    using initial_core [OF ok] by blast
  let ?n = "length (d_units g)" and ?c = "root_child g"
  have wf: "store_wf (d_units g) (d_labels g)" and lt: "?c < ?n" using ok by (simp_all add: dawg_ok_def)
  have ch: "dawg_child g 0 = Inr ?c" using wf by (simp add: dawg_child_ok root_child_def store_wf_def)
  have eq: "build_from_dawg g da_new = bind_ok (build_node g ?n 0 0 b0) (\<lambda>b4. bind_ok (fix_all_blocks b4) (\<lambda>b5.
      Inr (b5\<lparr>b_extras := [], b_labels := [], b_table := []\<rparr>)))"
    unfolding build_from_dawg_def da_start_def [symmetric] b0 ch using c by simp
  have "built g v ({0} - {0}) Map.empty Map.empty (length (b_units b0) + 256 * tsize g ?n ?c) (build_node g ?n 0 0 b0)"
    by (rule build_node_spec [OF ok core _ _ ch c lt lt]) (simp_all add: node_target_def)
  then show ?thesis unfolding built_def
  proof (elim disjE exE conjE)
    assume "build_node g ?n 0 0 b0 = Inl Thrown" "2 ^ 29 < length (b_units b0) + 256 * tsize g ?n ?c"
    then show ?thesis using len by (simp add: eq)
  next
    fix b4 H G
    assume b4: "build_node g ?n 0 0 b0 = Inr b4" "main_core g v {} ({0} - {0}) {} H G b4"
    then obtain b5 xs where b5: "fix_all_blocks b4 = Inr b5" "core g v {} {} {} (length (b_units b4)) H G b5 xs"
      "length (b_units b5) = length (b_units b4)" using fix_all_spec [of g v "{}" "{}" "{}" H G b4] by auto
    then have "core g v {} {} {} (length (b_units b5)) H G b5 xs" by simp
    moreover have "build_from_dawg g da_new = Inr (b5\<lparr>b_extras := [], b_labels := [], b_table := []\<rparr>)"
      using b4(1) b5(1) by (simp add: eq)
    ultimately show ?thesis
      by (intro disjI2 exI [of _ b5] exI [of _ "b5\<lparr>b_extras := [], b_labels := [], b_table := []\<rparr>"] exI [of _ H]
        exI [of _ G] exI [of _ xs]) simp
  qed
qed

lemma da_build_spec:
  assumes ks: "list_all key_ok ks" "key_sorted ks" "ks \<noteq> []" and small: "2 + labels_total ks < 2 ^ 30"
  shows "da_build ks = Inl Thrown \<and> 2 ^ 21 \<le> labels_total ks \<or>
    (\<exists>arr. da_build ks = Inr arr \<and> arr \<noteq> [] \<and> length arr \<le> 2 ^ 29 \<and> da_contains arr (map_of ks))"
proof -
  obtain g where g: "build_dawg ks = Inr g" "graph_ok g (keyed ks)" using build_dawg_finds [OF ks(1,2) small] by blast
  from g(2) obtain v where ok: "dawg_ok g v" by (auto simp: graph_ok_def dawg_ok_def)
  have wf: "store_wf (d_units g) (d_labels g)" using ok by (simp add: dawg_ok_def)
  obtain k x ks' where k: "ks = (k, x) # ks'" using ks(3) by (cases ks) auto
  have "keyed ks (key_labels k) \<noteq> None" unfolding keyed_map_of k by simp
  moreover have "kword (key_labels k)" using ks(1) by (intro kword_key_labels) (simp add: k key_ok_def)
  ultimately have c: "0 < root_child g" using g(2) by (auto simp: graph_ok_def split: if_splits)
  have eq: "da_build ks = bind_ok (build_from_dawg g da_new) (\<lambda>b. Inr (b_units b))" using g(1) by (simp add: da_build_def)
  from build_from_dawg_spec [OF ok c] show ?thesis
  proof (elim disjE exE conjE)
    assume "build_from_dawg g da_new = Inl Thrown" "2 ^ 29 < 256 * (tsize g (length (d_units g)) (root_child g) + 1)"
    moreover have "256 * (2 :: nat) ^ 21 = 2 ^ 29" by simp
    ultimately have "(2 :: nat) ^ 21 < tsize g (length (d_units g)) (root_child g) + 1" "da_build ks = Inl Thrown"
      by (simp_all only: eq) (metis mult_less_cancel1, simp)
    with graph_groups [OF g(2) c] show ?thesis by simp
  next
    fix b b' H G xs
    assume b: "build_from_dawg g da_new = Inr b'" "b_units b' = b_units b" "core g v {} {} {} (length (b_units b)) H G b xs"
    have "exactMatchSearch (b_units b) key 0 0 = Inr (case map_of ks key of None \<Rightarrow> (-1, 0) | Some v \<Rightarrow> (v, length key))"
      if "no_nul key" for key
      using exact_search_spec [OF b(3) wf that] g(2) c kword_key_labels [OF that] by (simp add: graph_ok_def keyed_map_of)
    moreover have "b_units b \<noteq> []" "length (b_units b) \<le> 2 ^ 29"
      using b(3) by (auto simp: core_def window_ok_def ring_ok_def)
    ultimately show ?thesis using b(1,2) by (simp add: eq da_contains_def)
  qed
qed

section \<open>Properties\<close>

text \<open>
  C8: The builder of the double array. For keys without null bytes in ascending order, not empty and with values
  from 0 below \<open>2 ^ 31\<close>, \<^verbatim>\<open>DoubleArrayImpl::build\<close> never leaves its pools and always ends: it returns an array
  in which \<open>exactMatchSearch\<close> finds exactly these keys, each with the value of its first occurrence. It throws
  only if the offsets do not fit into 29 bits, which takes at least \<open>2 ^ 21\<close> characters of keys.
\<close>

theorem da_build_contains:
  assumes "list_all key_ok ks" "key_sorted ks" "ks \<noteq> []" "2 + labels_total ks < 2 ^ 30"
  shows "da_build ks = Inl Thrown \<and> 2 ^ 21 \<le> labels_total ks \<or>
    (\<exists>arr. da_build ks = Inr arr \<and> arr \<noteq> [] \<and> length arr \<le> 2 ^ 29 \<and> da_contains arr (map_of ks))"
  by (rule da_build_spec [OF assms])

theorem da_build_contains_witness:
  "\<exists>arr. da_build [(''ab'', 1), (''b'', 2)] = Inr arr \<and> exactMatchSearch arr ''ab'' 0 0 = Inr (1, 2) \<and>
    exactMatchSearch arr ''a'' 0 0 = Inr (-1, 0)"
proof -
  let ?ks = "[(''ab'', 1), (''b'', 2)] :: (string \<times> int) list"
  have "(of_char CHR ''a'' :: uchar_type) < of_char CHR ''b''" by code_simp
  then have s: "key_sorted ?ks" by (simp add: key_labels_def)
  have k: "list_all key_ok ?ks" "?ks \<noteq> []" "2 + labels_total ?ks < 2 ^ 30" "\<not> 2 ^ 21 \<le> labels_total ?ks"
    by (simp_all add: key_ok_def labels_total_def)
  from da_build_contains [OF k(1) s k(2,3)] k(4) obtain arr where
    "da_build ?ks = Inr arr" "da_contains arr (map_of ?ks)" by blast
  then show ?thesis unfolding da_contains_def by (intro exI [of _ arr]) (simp add: no_nul_def)
qed

end
