(* ===== verification/White_Black.thy ===== *)
theory White_Black
  imports Index_Da
begin

text \<open>
  The eight-column list of \<open>WhiteBlackList_\<close> (\<^verbatim>\<open>src/index/index_da/Index_da.cpp\<close>): \<open>MakeIndex\<close>
  reads lines of eight fields, \<open>OutputIndexFile\<close> writes a double array over the queries, for
  each of seven columns the ranges of the queries and the texts, and the lengths of the queries;
  \<open>LoadIndex\<close> reads the file. The seven vectors the sources name one by one are a list here, in
  the order of \<open>wb_columns\<close>; every statement the sources repeat for each of them is one \<open>map\<close>.
\<close>

record pos_reform =
  pr_vr :: string
  pr_label :: string
  pr_pos_type :: string
  pr_reform :: string
  pr_item_query :: string
  pr_data :: string
  pr_iswappc :: string
  pr_query_len :: int

record whiteblack_tmp =
  wt_query :: string
  wt_options :: "pos_reform list"

record begin_end =
  be_begin :: int
  be_end :: int

definition mk_begin_end :: "int \<Rightarrow> int \<Rightarrow> begin_end" where
  "mk_begin_end b e = \<lparr>be_begin = u32 b, be_end = u32 e\<rparr>"

definition wb_columns :: "(pos_reform \<Rightarrow> string) list" where
  "wb_columns = [pr_vr, pr_label, pr_pos_type, pr_reform, pr_item_query, pr_data, pr_iswappc]"

subsection \<open>MakeIndex\<close>

text \<open>
  A line needs seven fields but its eighth is read, too. A query that \<open>change2qj\<close> rejects leaves
  the buffer it is copied from uninitialised.
\<close>

definition wb_line :: "platform \<Rightarrow> string \<Rightarrow> fault + whiteblack_tmp option" where
  "wb_line pf line =
     (case split_sam [] line ''_$##$_'' of
        None \<Rightarrow> Inl Diverges
      | Some (r, parts) \<Rightarrow>
          if length parts < 7 then Inr None
          else if length parts = 7 then Inl Out_of_bounds
          else let query = parts ! 0
               in if length query < 1 \<or> MAXQUERYLEN < length query then Inr None
                  else case change2qj pf query of
                         (r, None) \<Rightarrow> Inl Uninitialised
                       | (r, Some gQuery) \<Rightarrow>
                           Inr (Some \<lparr>wt_query = gQuery,
                             wt_options = [\<lparr>pr_vr = c_str (parts ! 1), pr_label = c_str (parts ! 2),
                               pr_pos_type = c_str (parts ! 3), pr_reform = c_str (parts ! 4),
                               pr_item_query = c_str (parts ! 5), pr_data = c_str (parts ! 6),
                               pr_iswappc = c_str (parts ! 7), pr_query_len = i32 (int (length query))\<rparr>]\<rparr>))"

fun wb_lines :: "platform \<Rightarrow> string list \<Rightarrow> whiteblack_tmp list \<Rightarrow> fault + whiteblack_tmp list" where
  "wb_lines pf [] vect = Inr vect"
| "wb_lines pf (l # ls) vect =
     (case wb_line pf l of
        Inl e \<Rightarrow> Inl e
      | Inr None \<Rightarrow> wb_lines pf ls vect
      | Inr (Some v) \<Rightarrow> wb_lines pf ls (vect @ [v]))"

subsection \<open>OutputIndexFile\<close>

text \<open>The vectors and counters of one column.\<close>

record wb_col =
  wc_begin :: int
  wc_end :: int
  wc_ranges :: "begin_end list"
  wc_chars :: bytes

definition col_new :: wb_col where
  "col_new = \<lparr>wc_begin = 0, wc_end = 0, wc_ranges = [], wc_chars = []\<rparr>"

definition col_flush :: "wb_col \<Rightarrow> wb_col" where
  "col_flush c = c\<lparr>wc_ranges := wc_ranges c @ [mk_begin_end (wc_begin c) (u32 (wc_end c - 1))]\<rparr>"

definition col_next :: "wb_col \<Rightarrow> wb_col" where
  "col_next c = c\<lparr>wc_begin := wc_end c\<rparr>"

definition col_push :: "(pos_reform \<Rightarrow> string) \<Rightarrow> pos_reform \<Rightarrow> wb_col \<Rightarrow> wb_col" where
  "col_push f opt c =
     (case char_vect_push (f opt) (wc_chars c, wc_end c) of
        (chars, e) \<Rightarrow> c\<lparr>wc_chars := chars, wc_end := e\<rparr>)"

record wb_state =
  ws_cols :: "wb_col list"
  ws_dic :: "(string \<times> int) list"
  ws_num :: int
  ws_prequery :: string
  ws_query :: string
  ws_querylen :: "int list"

definition wb_init :: wb_state where
  "wb_init = \<lparr>ws_cols = map (\<lambda>f. col_new) wb_columns, ws_dic = [], ws_num = 0, ws_prequery = [],
     ws_query = [], ws_querylen = []\<rparr>"

text \<open>Pushing what is known of the query \<open>q\<close>.\<close>

definition wb_flush :: "string \<Rightarrow> wb_state \<Rightarrow> wb_state" where
  "wb_flush q s =
     s\<lparr>ws_cols := map col_flush (ws_cols s), ws_dic := map_set q (ws_num s) (ws_dic s),
       ws_num := u32 (ws_num s + 1), ws_querylen := ws_querylen s @ [i32 (int (length q))]\<rparr>"

definition wb_step :: "whiteblack_tmp \<Rightarrow> wb_state \<Rightarrow> wb_state" where
  "wb_step x s =
     (let query = wt_query x;
          pre = (if ws_prequery s = [] then query else ws_prequery s);
          s0 = s\<lparr>ws_query := query, ws_prequery := pre\<rparr>
      in if query = [] then s0
         else let s1 = (if pre \<noteq> query
                        then (wb_flush pre s0)\<lparr>ws_cols := map (col_next \<circ> col_flush) (ws_cols s0)\<rparr>
                        else s0)
              in s1\<lparr>ws_cols := map2 (\<lambda>f. fold (col_push f) (wt_options x)) wb_columns (ws_cols s1),
                    ws_prequery := query\<rparr>)"

definition wb_output :: "whiteblack_tmp list \<Rightarrow> wb_state" where
  "wb_output vect = (let s = fold wb_step vect wb_init in wb_flush (ws_query s) s)"

definition enc_begin_end :: "begin_end \<Rightarrow> bytes" where
  "enc_begin_end r = enc_u32 (be_begin r) @ enc_u32 (be_end r)"

definition dec_begin_end :: "bytes \<Rightarrow> begin_end" where
  "dec_begin_end bs = \<lparr>be_begin = dec_u32 (take 4 bs), be_end = dec_u32 (drop 4 bs)\<rparr>"

text \<open>A vector in the file: its length, then its elements, from the address of the first one.\<close>

definition write_vect :: "('a \<Rightarrow> bytes) \<Rightarrow> 'a list \<Rightarrow> bytes" where
  "write_vect enc xs = enc_u32 (int (length xs)) @ fwrite_items enc xs"

definition wb_image :: "unit32 list \<Rightarrow> wb_state \<Rightarrow> bytes \<Rightarrow> bytes" where
  "wb_image arr s f1 =
     (let f2 = f1 @ concat (map (\<lambda>c. write_vect enc_begin_end (wc_ranges c)) (ws_cols s))
                  @ concat (map (\<lambda>c. write_vect enc_char (wc_chars c)) (ws_cols s))
                  @ write_vect enc_i32 (ws_querylen s)
      in f2 @ enc_u32 (int (length f2)))"

text \<open>
  The result is the return value and the file. The address of the first character of a column with
  none is out of bounds; that is so only when no query is left.
\<close>

definition OutputIndexFile_wb ::
    "((string \<times> int) list \<Rightarrow> unit32 list option) \<Rightarrow> (whiteblack_tmp list \<Rightarrow> whiteblack_tmp list) \<Rightarrow> bool
      \<Rightarrow> whiteblack_tmp list \<Rightarrow> fault + (int \<times> bytes)" where
  "OutputIndexFile_wb build srt fp vect =
     (let s = wb_output (srt vect)
      in case build (map (\<lambda>(k, v). (c_str k, i32 v)) (ws_dic s)) of
           None \<Rightarrow> Inl Thrown
         | Some arr \<Rightarrow>
             if \<not> fp then Inr (-1, [])
             else case da_save arr (enc_u32 0 @ enc_u32 (u32 (int (length arr) * 4))) of
                    (r, f1) \<Rightarrow>
                      if r \<noteq> 0 then Inr (-1, f1)
                      else if \<exists>c \<in> set (ws_cols s). wc_chars c = [] then Inl Out_of_bounds
                      else Inr (0, wb_image arr s f1))"

definition MakeIndex_wb ::
    "platform \<Rightarrow> ((string \<times> int) list \<Rightarrow> unit32 list option) \<Rightarrow> (whiteblack_tmp list \<Rightarrow> whiteblack_tmp list)
      \<Rightarrow> bytes option \<Rightarrow> bool \<Rightarrow> fault + (int \<times> bytes)" where
  "MakeIndex_wb pf build srt fp_in fp_out =
     (case fp_in of
        None \<Rightarrow> Inr (-1, [])
      | Some f \<Rightarrow>
          (case wb_lines pf (fgets_lines 10240 f) [] of
             Inl e \<Rightarrow> Inl e
           | Inr vect \<Rightarrow>
               (case OutputIndexFile_wb build srt fp_out vect of
                  Inl e \<Rightarrow> Inl e
                | Inr (r, out) \<Rightarrow> Inr (0, out))))"

subsection \<open>LoadIndex\<close>

text \<open>What has been read completely; a section that is cut short ends the function.\<close>

record wb_loaded =
  wl_da :: "unit32 list option"
  wl_ranges :: "begin_end list list"
  wl_bufs :: "bytes list"
  wl_querylen :: "int list option"

definition wl_new :: wb_loaded where
  "wl_new = \<lparr>wl_da = None, wl_ranges = [], wl_bufs = [], wl_querylen = None\<rparr>"

definition read_vect :: "nat \<Rightarrow> (bytes \<Rightarrow> 'a) \<Rightarrow> bytes \<Rightarrow> ('a list \<times> bytes) option" where
  "read_vect width dec f =
     (case fread_item 4 dec_u32 f of
        None \<Rightarrow> None
      | Some (n, f') \<Rightarrow> fread_items width dec (nat n) f')"

fun load_ranges :: "nat \<Rightarrow> bytes \<Rightarrow> wb_loaded \<Rightarrow> wb_loaded \<times> bytes option" where
  "load_ranges 0 f l = (l, Some f)"
| "load_ranges (Suc k) f l =
     (case read_vect 8 dec_begin_end f of
        None \<Rightarrow> (l, None)
      | Some (v, f') \<Rightarrow> load_ranges k f' (l\<lparr>wl_ranges := wl_ranges l @ [v]\<rparr>))"

fun load_bufs :: "nat \<Rightarrow> bytes \<Rightarrow> wb_loaded \<Rightarrow> wb_loaded \<times> bytes option" where
  "load_bufs 0 f l = (l, Some f)"
| "load_bufs (Suc k) f l =
     (case read_vect 1 dec_char f of
        None \<Rightarrow> (l, None)
      | Some (v, f') \<Rightarrow> load_bufs k f' (l\<lparr>wl_bufs := wl_bufs l @ [v]\<rparr>))"

definition load_querylen :: "bytes \<Rightarrow> wb_loaded \<Rightarrow> int \<times> wb_loaded" where
  "load_querylen f l =
     (case read_vect 4 dec_i32 f of
        None \<Rightarrow> (-1, l)
      | Some (v, f') \<Rightarrow> (0, l\<lparr>wl_querylen := Some v\<rparr>))"

definition LoadIndex_wb :: "bytes option \<Rightarrow> fault + (int \<times> wb_loaded)" where
  "LoadIndex_wb fp =
     (case fp of
        None \<Rightarrow> Inl Null_deref
      | Some f \<Rightarrow>
          (case fread_item 4 dec_u32 (drop 4 f) of
             None \<Rightarrow> Inr (-1, wl_new)
           | Some (da_size, f1) \<Rightarrow>
               (case da_open f 8 (nat da_size) of
                  None \<Rightarrow> Inr (-1, wl_new)
                | Some arr \<Rightarrow>
                    (case load_ranges 7 (drop (8 + nat da_size) f) (wl_new\<lparr>wl_da := Some arr\<rparr>) of
                       (l, None) \<Rightarrow> Inr (-1, l)
                     | (l, Some f2) \<Rightarrow>
                         (case load_bufs 7 f2 l of
                            (l', None) \<Rightarrow> Inr (-1, l')
                          | (l', Some f3) \<Rightarrow> Inr (load_querylen f3 l'))))))"

section \<open>Properties\<close>

subsection \<open>The groups of a sorted list\<close>

fun wb_groups :: "string \<Rightarrow> pos_reform list \<Rightarrow> whiteblack_tmp list \<Rightarrow> (string \<times> pos_reform list) list" where
  "wb_groups q opts [] = [(q, opts)]"
| "wb_groups q opts (x # xs) =
     (if wt_query x = q then wb_groups q (opts @ wt_options x) xs
      else (q, opts) # wb_groups (wt_query x) (wt_options x) xs)"

definition col_text :: "(pos_reform \<Rightarrow> string) \<Rightarrow> pos_reform list \<Rightarrow> bytes" where
  "col_text f opts = concat (map (\<lambda>opt. c_str (f opt) @ [NUL]) opts)"

fun col_ranges :: "(pos_reform \<Rightarrow> string) \<Rightarrow> nat \<Rightarrow> (string \<times> pos_reform list) list \<Rightarrow> begin_end list" where
  "col_ranges f b [] = []"
| "col_ranges f b (g # gs) =
     mk_begin_end (int b) (int (b + length (col_text f (snd g))) - 1) #
     col_ranges f (b + length (col_text f (snd g))) gs"

definition col_texts :: "(pos_reform \<Rightarrow> string) \<Rightarrow> (string \<times> pos_reform list) list \<Rightarrow> bytes" where
  "col_texts f gs = concat (map (\<lambda>g. col_text f (snd g)) gs)"

lemma col_text_simps [simp]:
  "col_text f [] = []" "col_text f (opt # opts) = c_str (f opt) @ NUL # col_text f opts"
  "col_text f (xs @ ys) = col_text f xs @ col_text f ys"
  by (simp_all add: col_text_def)

lemma col_texts_simps [simp]:
  "col_texts f [] = []" "col_texts f (g # gs) = col_text f (snd g) @ col_texts f gs"
  "col_texts f (gs @ hs) = col_texts f gs @ col_texts f hs"
  by (simp_all add: col_texts_def)

lemma col_ranges_snoc:
  "col_ranges f b (gs @ [g]) = col_ranges f b gs @
     [mk_begin_end (int (b + length (col_texts f gs))) (int (b + length (col_texts f (gs @ [g]))) - 1)]"
  by (induction f b gs rule: col_ranges.induct) (auto simp: algebra_simps)

lemma length_col_ranges [simp]: "length (col_ranges f b gs) = length gs"
  by (induction f b gs rule: col_ranges.induct) auto

lemma u32_add [simp]: "u32 (u32 a + b) = u32 (a + b)" "u32 (u32 a - b) = u32 (a - b)"
  "u32 (b + u32 a) = u32 (b + a)" "u32 (u32 a) = u32 a" "u32 0 = 0"
  by (simp_all add: u32_def mod_simps)

lemma u32_add_inner [simp]: "u32 (a + (b + u32 c)) = u32 (a + (b + c))"
  by (metis add.assoc u32_add(3))

lemma mk_begin_end_u32 [simp]:
  "mk_begin_end (u32 b) e = mk_begin_end b e" "mk_begin_end b (u32 e) = mk_begin_end b e"
  by (simp_all add: mk_begin_end_def)

subsection \<open>One column\<close>

text \<open>The closed groups are \<open>gs\<close>, the open one has the options \<open>opts\<close>.\<close>

definition col_inv ::
    "(string \<times> pos_reform list) list \<Rightarrow> pos_reform list \<Rightarrow> (pos_reform \<Rightarrow> string) \<Rightarrow> wb_col \<Rightarrow> bool" where
  "col_inv gs opts f c \<longleftrightarrow> wc_chars c = col_texts f gs @ col_text f opts \<and>
     wc_end c = u32 (int (length (wc_chars c))) \<and> wc_begin c = u32 (int (length (col_texts f gs))) \<and>
     wc_ranges c = col_ranges f 0 gs"

lemma col_inv_new: "col_inv [] [] f col_new"
  by (simp add: col_inv_def col_new_def)

lemma col_inv_push: "col_inv gs opts f c \<Longrightarrow> col_inv gs (opts @ [opt]) f (col_push f opt c)"
  by (simp add: col_inv_def col_push_def char_vect_push_def algebra_simps)

lemma col_inv_pushes: "col_inv gs opts f c \<Longrightarrow> col_inv gs (opts @ os) f (fold (col_push f) os c)"
proof (induction os arbitrary: opts c)
  case (Cons opt os)
  from Cons.IH [OF col_inv_push [OF Cons.prems, of opt]] show ?case by simp
qed simp

lemma col_inv_flush:
  assumes "col_inv gs opts f c"
  shows "wc_ranges (col_flush c) = col_ranges f 0 (gs @ [(q, opts)])" "wc_chars (col_flush c) = wc_chars c"
  using assms by (simp_all add: col_inv_def col_flush_def col_ranges_snoc)

lemma col_inv_next:
  assumes "col_inv gs opts f c"
  shows "col_inv (gs @ [(q, opts)]) [] f (col_next (col_flush c))"
  using assms col_inv_flush(1) [OF assms, of q] by (simp add: col_inv_def col_flush_def col_next_def)

subsection \<open>The whole list\<close>

definition group_keys :: "(string \<times> pos_reform list) list \<Rightarrow> (string \<times> int) list" where
  "group_keys gs = zip (map fst gs) (map (\<lambda>i. u32 (int i)) [0..<length gs])"

lemma group_keys_snoc: "group_keys (gs @ [g]) = group_keys gs @ [(fst g, u32 (int (length gs)))]"
  by (simp add: group_keys_def)

definition wb_inv :: "(string \<times> pos_reform list) list \<Rightarrow> string \<Rightarrow> pos_reform list \<Rightarrow> wb_state \<Rightarrow> bool" where
  "wb_inv gs q opts s \<longleftrightarrow> q \<noteq> [] \<and> ws_prequery s = q \<and> ws_query s = q \<and>
     list_all2 (col_inv gs opts) wb_columns (ws_cols s) \<and>
     sorted_wrt str_less (map fst (ws_dic s)) \<and> map_of (ws_dic s) = map_of (group_keys gs) \<and>
     ws_num s = u32 (int (length gs)) \<and> ws_querylen s = map (\<lambda>g. i32 (int (length (fst g)))) gs \<and>
     sorted_wrt str_less (map fst gs @ [q])"

definition wb_done :: "(string \<times> pos_reform list) list \<Rightarrow> wb_state \<Rightarrow> bool" where
  "wb_done gs s \<longleftrightarrow>
     map wc_ranges (ws_cols s) = map (\<lambda>f. col_ranges f 0 gs) wb_columns \<and>
     map wc_chars (ws_cols s) = map (\<lambda>f. col_texts f gs) wb_columns \<and>
     sorted_wrt str_less (map fst (ws_dic s)) \<and> map_of (ws_dic s) = map_of (group_keys gs) \<and>
     ws_querylen s = map (\<lambda>g. i32 (int (length (fst g)))) gs"

lemma sorted_str_less_distinct: "sorted_wrt str_less ks \<Longrightarrow> distinct ks"
  by (induction ks) (auto dest: str_less_neq)

lemma map_of_group_keys_snoc:
  assumes "sorted_wrt str_less (map fst gs @ [q])" "map_of m = map_of (group_keys gs)"
  shows "map_of (map_set q (u32 (int (length gs))) m) = map_of (group_keys (gs @ [(q, opts)]))"
proof -
  have "q \<notin> set (map fst gs)" using sorted_str_less_distinct [OF assms(1)] by simp
  then have "map_of (group_keys gs) q = None"
    by (auto simp: group_keys_def map_of_eq_None_iff dest: set_zip_leftD)
  then show ?thesis
    by (auto simp: map_of_map_set assms(2) group_keys_snoc map_add_def fun_eq_iff split: option.splits)
qed

lemma wb_inv_flush:
  assumes "wb_inv gs q opts s"
  shows "wb_done (gs @ [(q, opts)]) (wb_flush q s)"
proof -
  have c: "list_all2 (col_inv gs opts) wb_columns (ws_cols s)" and
    k: "sorted_wrt str_less (map fst gs @ [q])" "map_of (ws_dic s) = map_of (group_keys gs)"
    using assms by (simp_all add: wb_inv_def)
  have "map wc_ranges (map col_flush (ws_cols s)) = map (\<lambda>f. col_ranges f 0 (gs @ [(q, opts)])) wb_columns"
    using c by (induction rule: list_all2_induct) (auto simp: col_inv_flush(1) [where q = q])
  moreover have "map wc_chars (map col_flush (ws_cols s)) = map (\<lambda>f. col_texts f (gs @ [(q, opts)])) wb_columns"
    using c by (induction rule: list_all2_induct) (auto simp: col_inv_flush(2), auto simp: col_inv_def)
  ultimately show ?thesis
    using assms map_of_group_keys_snoc [OF k, of opts]
    by (simp add: wb_done_def wb_flush_def wb_inv_def map_set_sorted)
qed

lemma list_all2_map2:
  assumes "list_all2 P fs cs" "\<And>f c. P f c \<Longrightarrow> Q f (h f c)"
  shows "list_all2 Q fs (map2 h fs cs)"
  using assms(1) by (induction rule: list_all2_induct) (auto intro: assms(2))

lemma wb_inv_same:
  assumes "wb_inv gs q opts s" "wt_query x = q"
  shows "wb_inv gs q (opts @ wt_options x) (wb_step x s)"
  using assms list_all2_map2 [of "col_inv gs opts" wb_columns "ws_cols s" "col_inv gs (opts @ wt_options x)"]
  by (simp add: wb_inv_def wb_step_def Let_def col_inv_pushes)

lemma str_less_Nil [simp]: "\<not> str_less a []"
  by (cases a) (simp_all add: str_less_def)

lemma wb_inv_new:
  assumes inv: "wb_inv gs q opts s" and q: "str_less q (wt_query x)"
  shows "wb_inv (gs @ [(q, opts)]) (wt_query x) (wt_options x) (wb_step x s)"
proof -
  let ?gs = "gs @ [(q, opts)]"
  have x: "wt_query x \<noteq> []" "q \<noteq> wt_query x" "ws_prequery s = q" "q \<noteq> []"
    using q inv by (auto simp: wb_inv_def dest: str_less_neq)
  have c: "list_all2 (col_inv gs opts) wb_columns (ws_cols s)" using inv by (simp add: wb_inv_def)
  then have "list_all2 (col_inv ?gs []) wb_columns (map (col_next \<circ> col_flush) (ws_cols s))"
    by (induction rule: list_all2_induct) (auto intro: col_inv_next)
  from list_all2_map2 [OF this, of "col_inv ?gs (wt_options x)" "\<lambda>f. fold (col_push f) (wt_options x)"]
  have "list_all2 (col_inv ?gs (wt_options x)) wb_columns
      (map2 (\<lambda>f. fold (col_push f) (wt_options x)) wb_columns (map (col_next \<circ> col_flush) (ws_cols s)))"
    using col_inv_pushes [of ?gs "[]" _ _ "wt_options x"] by simp
  moreover have "sorted_wrt str_less (map fst ?gs @ [wt_query x])"
    using inv q by (auto simp: wb_inv_def sorted_wrt_append dest: str_less_trans)
  ultimately show ?thesis
    using inv x wb_inv_flush [OF inv]
    by (simp add: wb_inv_def wb_step_def wb_flush_def wb_done_def Let_def comp_def add.commute)
qed

definition wb_le :: "whiteblack_tmp \<Rightarrow> whiteblack_tmp \<Rightarrow> bool" where
  "wb_le a b \<longleftrightarrow> \<not> str_less (wt_query b) (wt_query a)"

lemma wb_fold_groups:
  assumes "wb_inv gs q opts s" "sorted_wrt wb_le xs" "\<forall>x \<in> set xs. \<not> str_less (wt_query x) q"
  shows "\<exists>gs' q' opts'. wb_inv gs' q' opts' (fold wb_step xs s) \<and>
    gs @ wb_groups q opts xs = gs' @ [(q', opts')]"
  using assms
proof (induction xs arbitrary: gs q opts s)
  case Nil
  then show ?case by auto
next
  case (Cons x xs)
  show ?case
  proof (cases "wt_query x = q")
    case True
    from Cons.IH [OF wb_inv_same [OF Cons.prems(1) True]] Cons.prems True show ?thesis by simp
  next
    case False
    with Cons.prems(3) have less: "str_less q (wt_query x)" using str_less_linear by auto
    have "\<forall>y \<in> set xs. \<not> str_less (wt_query y) (wt_query x)"
      using Cons.prems(2) by (simp add: wb_le_def)
    from Cons.IH [OF wb_inv_new [OF Cons.prems(1) less] _ this] Cons.prems(2) False show ?thesis by simp
  qed
qed

lemma wb_inv_first:
  assumes "wt_query x \<noteq> []"
  shows "wb_inv [] (wt_query x) (wt_options x) (wb_step x wb_init)"
proof -
  have "list_all2 (col_inv [] []) wb_columns (map (\<lambda>f. col_new) wb_columns)"
    by (simp add: list_all2_map2 list_all2_conv_all_nth col_inv_new)
  from list_all2_map2 [OF this, of "col_inv [] (wt_options x)" "\<lambda>f. fold (col_push f) (wt_options x)"]
  have "list_all2 (col_inv [] (wt_options x)) wb_columns
      (map2 (\<lambda>f. fold (col_push f) (wt_options x)) wb_columns (map (\<lambda>f. col_new) wb_columns))"
    using col_inv_pushes [of "[]" "[]" _ _ "wt_options x"] by simp
  with assms show ?thesis
    by (simp add: wb_inv_def wb_step_def wb_init_def group_keys_def Let_def)
qed

lemma wb_output_groups:
  assumes "wt_query x \<noteq> []" "sorted_wrt wb_le (x # xs)"
  shows "wb_done (wb_groups (wt_query x) (wt_options x) xs) (wb_output (x # xs)) \<and>
    sorted_wrt str_less (map fst (wb_groups (wt_query x) (wt_options x) xs))"
proof -
  from wb_fold_groups [OF wb_inv_first [OF assms(1)], of xs] assms(2) obtain gs q opts where
    i: "wb_inv gs q opts (fold wb_step xs (wb_step x wb_init))"
      "wb_groups (wt_query x) (wt_options x) xs = gs @ [(q, opts)]"
    by (auto simp: wb_le_def)
  from wb_inv_flush [OF i(1)] i show ?thesis
    by (simp add: wb_output_def wb_inv_def Let_def)
qed

subsection \<open>What a group holds\<close>

definition options_of :: "string \<Rightarrow> whiteblack_tmp list \<Rightarrow> pos_reform list" where
  "options_of q xs = concat (map wt_options (filter (\<lambda>x. wt_query x = q) xs))"

lemma wb_groups_options:
  assumes "sorted_wrt wb_le xs" "\<forall>x \<in> set xs. \<not> str_less (wt_query x) q"
  shows "map_of (wb_groups q opts xs) k =
    (if k = q then Some (opts @ options_of k xs)
     else if \<exists>x \<in> set xs. wt_query x = k then Some (options_of k xs) else None)"
  using assms
proof (induction xs arbitrary: q opts)
  case Nil
  then show ?case by (simp add: options_of_def)
next
  case (Cons x xs)
  have le: "\<forall>y \<in> set xs. \<not> str_less (wt_query y) (wt_query x)"
    using Cons.prems(1) by (simp add: wb_le_def)
  show ?case
  proof (cases "wt_query x = q")
    case True
    with Cons.IH [of q "opts @ wt_options x"] Cons.prems show ?thesis by (auto simp: options_of_def)
  next
    case False
    with Cons.prems(2) have less: "str_less q (wt_query x)" using str_less_linear by auto
    then have "\<forall>y \<in> set xs. wt_query y \<noteq> q" using le by auto
    then have "options_of q (x # xs) = []" using False by (simp add: options_of_def)
    with Cons.IH [of "wt_query x" "wt_options x"] Cons.prems le False show ?thesis
      by (auto simp: options_of_def)
  qed
qed

lemma length_col_texts_groups:
  "length (col_texts f (wb_groups q opts xs)) =
     length (col_text f opts) + (\<Sum>x \<leftarrow> xs. length (col_text f (wt_options x)))"
  by (induction q opts xs rule: wb_groups.induct) auto

lemma length_wb_groups: "length (wb_groups q opts xs) \<le> Suc (length xs)"
  by (induction q opts xs rule: wb_groups.induct) auto

lemma col_ranges_nth:
  assumes "i < length gs"
  shows "col_ranges f b gs ! i = mk_begin_end (int (b + length (col_texts f (take i gs))))
    (int (b + length (col_texts f (take i gs)) + length (col_text f (snd (gs ! i)))) - 1)"
  using assms
proof (induction gs arbitrary: b i)
  case (Cons g gs)
  then show ?case by (cases i) (auto simp: algebra_simps)
qed simp

lemma col_texts_nth:
  assumes "i < length gs"
  shows "take (length (col_text f (snd (gs ! i)))) (drop (length (col_texts f (take i gs))) (col_texts f gs)) =
    col_text f (snd (gs ! i))"
proof -
  have "gs = take i gs @ gs ! i # drop (Suc i) gs" using assms by (simp add: id_take_nth_drop)
  then have "col_texts f gs = col_texts f (take i gs) @ col_text f (snd (gs ! i)) @ col_texts f (drop (Suc i) gs)"
    by (metis col_texts_simps(2,3))
  then show ?thesis by simp
qed

subsection \<open>The file\<close>

definition be_ok :: "begin_end \<Rightarrow> bool" where
  "be_ok r \<longleftrightarrow> in_u32 (be_begin r) \<and> in_u32 (be_end r)"

interpretation cbe: fixed_codec enc_begin_end dec_begin_end 8 be_ok
  by unfold_locales
    (simp_all add: enc_begin_end_def dec_begin_end_def be_ok_def cu32.enc_length dec_enc_u32)

context fixed_codec
begin

lemma read_write_vect:
  assumes "list_all ok xs" "length xs < 4294967296"
  shows "read_vect width dec (write_vect enc xs @ rest) = Some (xs, rest)"
  using assms by (simp add: read_vect_def write_vect_def cu32.fread_item_enc in_u32_nat fread_items_fwrite)

end

lemma load_ranges_written:
  assumes "list_all (\<lambda>v. list_all be_ok v \<and> length v < 4294967296) vs"
  shows "load_ranges (length vs) (concat (map (write_vect enc_begin_end) vs) @ rest) l =
    (l\<lparr>wl_ranges := wl_ranges l @ vs\<rparr>, Some rest)"
  using assms by (induction vs arbitrary: l) (auto simp: cbe.read_write_vect)

lemma load_bufs_written:
  assumes "list_all (\<lambda>v. length v < 4294967296) vs"
  shows "load_bufs (length vs) (concat (map (write_vect enc_char) vs) @ rest) l =
    (l\<lparr>wl_bufs := wl_bufs l @ vs\<rparr>, Some rest)"
  using assms by (induction vs arbitrary: l)
    (auto simp: cchar.read_write_vect [unfolded One_nat_def] list_all_iff)

lemma col_ranges_ok: "list_all be_ok (col_ranges f b gs)"
  by (induction f b gs rule: col_ranges.induct) (auto simp: be_ok_def mk_begin_end_def)

lemma wb_image_load:
  assumes d: "wb_done gs s" and arr: "arr \<noteq> []" "length arr * 4 < 4294967296"
    and n: "length gs < 4294967296" "\<And>f. f \<in> set wb_columns \<Longrightarrow> length (col_texts f gs) < 4294967296"
  shows "LoadIndex_wb (Some (wb_image arr s (snd (da_save arr (enc_u32 0 @ enc_u32 (u32 (int (length arr) * 4))))))) =
    Inr (0, \<lparr>wl_da = Some arr, wl_ranges = map (\<lambda>f. col_ranges f 0 gs) wb_columns,
      wl_bufs = map (\<lambda>f. col_texts f gs) wb_columns,
      wl_querylen = Some (map (\<lambda>g. i32 (int (length (fst g)))) gs)\<rparr>)"
proof -
  let ?n = "int (length arr) * 4"
  have u: "u32 ?n = ?n" "in_u32 ?n" using arr(2) by (simp_all add: in_u32_def)
  define R where "R = concat (map (write_vect enc_begin_end) (map (\<lambda>f. col_ranges f 0 gs) wb_columns))"
  define B where "B = concat (map (write_vect enc_char) (map (\<lambda>f. col_texts f gs) wb_columns))"
  define Q where "Q = write_vect enc_i32 (map (\<lambda>g. i32 (int (length (fst g)))) gs)"
  define pre where "pre = enc_u32 0 @ enc_u32 ?n"
  define tail where "tail = enc_u32 (int (length (pre @ da_bytes arr @ R @ B @ Q)))"
  have cc: "map wc_ranges (ws_cols s) = map (\<lambda>f. col_ranges f 0 gs) wb_columns"
      "map wc_chars (ws_cols s) = map (\<lambda>f. col_texts f gs) wb_columns"
    using d by (simp_all add: wb_done_def)
  have "map (\<lambda>c. write_vect enc_begin_end (wc_ranges c)) (ws_cols s) = map (write_vect enc_begin_end) (map wc_ranges (ws_cols s))"
      "map (\<lambda>c. write_vect enc_char (wc_chars c)) (ws_cols s) = map (write_vect enc_char) (map wc_chars (ws_cols s))"
    by simp_all
  note cols = this [unfolded cc]
  have img: "wb_image arr s (snd (da_save arr (enc_u32 0 @ enc_u32 (u32 ?n)))) =
      pre @ da_bytes arr @ R @ B @ Q @ tail"
    unfolding wb_image_def cols Let_def
    using d arr by (simp add: u da_save_def pre_def tail_def R_def B_def Q_def wb_done_def del: map_map)
  have lp: "length pre = 8" by (simp add: pre_def cu32.enc_length)
  have dl: "length (da_bytes arr) = 4 * length arr" by (simp add: da_bytes_def cunit.length_fwrite)
  have r1: "fread_item 4 dec_u32 (drop 4 (pre @ da_bytes arr @ R @ B @ Q @ tail)) =
      Some (?n, da_bytes arr @ R @ B @ Q @ tail)"
    using u by (simp add: pre_def cu32.enc_length cu32.fread_item_enc)
  have r2: "da_open (pre @ da_bytes arr @ R @ B @ Q @ tail) 8 (nat ?n) = Some arr"
    using da_open_save [OF arr(1) lp] by (simp add: nat_mult_distrib mult.commute)
  have r3: "drop (8 + nat ?n) (pre @ da_bytes arr @ R @ B @ Q @ tail) = R @ B @ Q @ tail"
    by (simp add: lp dl nat_mult_distrib)
  have k: "length (map (\<lambda>f. col_ranges f 0 gs) wb_columns) = 7" "length (map (\<lambda>f. col_texts f gs) wb_columns) = 7"
    by (simp_all add: wb_columns_def)
  have r4: "load_ranges 7 (R @ B @ Q @ tail) l =
      (l\<lparr>wl_ranges := wl_ranges l @ map (\<lambda>f. col_ranges f 0 gs) wb_columns\<rparr>, Some (B @ Q @ tail))" for l
    using load_ranges_written [of "map (\<lambda>f. col_ranges f 0 gs) wb_columns" "B @ Q @ tail" l] n(1)
    unfolding k by (simp add: R_def list_all_iff col_ranges_ok [unfolded list_all_iff])
  have r5: "load_bufs 7 (B @ Q @ tail) l = (l\<lparr>wl_bufs := wl_bufs l @ map (\<lambda>f. col_texts f gs) wb_columns\<rparr>, Some (Q @ tail))" for l
    using load_bufs_written [of "map (\<lambda>f. col_texts f gs) wb_columns" "Q @ tail" l] n(2)
    unfolding k by (simp add: B_def list_all_iff)
  have r6: "read_vect 4 dec_i32 (Q @ tail) = Some (map (\<lambda>g. i32 (int (length (fst g)))) gs, tail)"
    using n(1) unfolding Q_def by (intro ci32.read_write_vect) (simp_all add: list_all_iff)
  show ?thesis
    unfolding img LoadIndex_wb_def
    by (simp add: r1 r2 r3 r4 r5 r6 load_querylen_def wl_new_def del: drop_append)
qed

text \<open>The bytes of column \<open>k\<close> in the range of the query number \<open>i\<close>.\<close>

definition wb_cell :: "wb_loaded \<Rightarrow> nat \<Rightarrow> nat \<Rightarrow> bytes" where
  "wb_cell l k i =
     (let r = wl_ranges l ! k ! i
      in take (nat (be_end r + 1 - be_begin r)) (drop (nat (be_begin r)) (wl_bufs l ! k)))"

definition wb_ok :: "whiteblack_tmp \<Rightarrow> bool" where
  "wb_ok x \<longleftrightarrow> wt_query x \<noteq> [] \<and> no_nul (wt_query x) \<and> wt_options x \<noteq> []"

definition wb_fits :: "whiteblack_tmp list \<Rightarrow> bool" where
  "wb_fits xs \<longleftrightarrow> length xs < 2147483648 \<and> (\<forall>x \<in> set xs. length (wt_query x) < 2147483648) \<and>
     (\<forall>f \<in> set wb_columns. (\<Sum>x \<leftarrow> xs. length (col_text f (wt_options x))) < 4294967296)"

lemma wb_groups_keys: "set (map fst (wb_groups q opts xs)) = insert q (wt_query ` set xs)"
  by (induction q opts xs rule: wb_groups.induct) auto

lemma group_keys_nth:
  assumes "distinct (map fst gs)" "i < length gs"
  shows "map_of (group_keys gs) (fst (gs ! i)) = Some (u32 (int i))"
proof -
  have "map fst (group_keys gs) = map fst gs" by (simp add: group_keys_def)
  moreover have "group_keys gs ! i = (fst (gs ! i), u32 (int i))"
    using assms(2) by (simp add: group_keys_def)
  moreover have "i < length (group_keys gs)" using assms(2) by (simp add: group_keys_def)
  ultimately show ?thesis using assms(1) by (metis map_of_is_SomeI nth_mem)
qed

lemma wb_cell_range:
  assumes b: "b + length t \<le> length buf" "length buf < 4294967296" "t \<noteq> []"
    and r: "wl_ranges l ! k ! i = mk_begin_end (int b) (int (b + length t) - 1)"
    and buf: "wl_bufs l ! k = buf" "take (length t) (drop b buf) = t"
  shows "wb_cell l k i = t"
proof -
  have "0 < length t" using b(3) by simp
  then have "u32 (int b) = int b" "u32 (int (b + length t) - 1) = int (b + length t) - 1"
    using b(1,2) \<open>0 < length t\<close> unfolding in_u32_def by (intro u32_id, unfold in_u32_def, linarith)+
  with r buf show ?thesis by (simp add: wb_cell_def mk_begin_end_def Let_def)
qed

lemma group_keys_mem: "(k, v) \<in> set (group_keys gs) \<Longrightarrow> k \<in> set (map fst gs) \<and> (\<exists>i < length gs. v = u32 (int i))"
  by (force simp: group_keys_def in_set_zip)

lemma wb_dic_plain:
  assumes d: "wb_done gs s" and lg: "length gs < 2147483648" and nn: "\<forall>k \<in> set (map fst gs). no_nul k"
  shows "map (\<lambda>(k, v). (c_str k, i32 v)) (ws_dic s) = ws_dic s"
proof (rule map_idI)
  fix e
  assume e: "e \<in> set (ws_dic s)"
  obtain k v where kv: "e = (k, v)" by force
  have "distinct (map fst (ws_dic s))" using d sorted_str_less_distinct by (simp add: wb_done_def)
  then have "map_of (ws_dic s) k = Some v" using e kv by simp
  then have "map_of (group_keys gs) k = Some v" using d by (simp add: wb_done_def)
  then have m: "(k, v) \<in> set (group_keys gs)" by (rule map_of_SomeD)
  then obtain i where i: "i < length gs" "v = u32 (int i)" using group_keys_mem by blast
  then have "v = int i" using lg by (simp add: in_u32_def)
  then have "i32 v = v" using i(1) lg by (simp add: in_i32_def)
  moreover have "c_str k = k" using group_keys_mem [OF m] nn by auto
  ultimately show "(case e of (k, v) \<Rightarrow> (c_str k, i32 v)) = e" by (simp add: kv)
qed

lemma col_text_Nil [simp]: "col_text f opts = [] \<longleftrightarrow> opts = []"
  by (cases opts) auto

lemma wb_chars_nonempty:
  assumes "wb_done gs s" "map_of gs q = Some opts" "opts \<noteq> []"
  shows "\<forall>c \<in> set (ws_cols s). wc_chars c \<noteq> []"
proof
  fix c
  assume "c \<in> set (ws_cols s)"
  then have "wc_chars c \<in> set (map wc_chars (ws_cols s))" by simp
  also have "\<dots> = set (map (\<lambda>f. col_texts f gs) wb_columns)" using assms(1) by (simp add: wb_done_def)
  finally obtain f where "wc_chars c = col_texts f gs" by auto
  moreover have "(q, opts) \<in> set gs" using assms(2) by (rule map_of_SomeD)
  ultimately show "wc_chars c \<noteq> []" using assms(3) by (force simp: col_texts_def)
qed

lemma wb_row:
  assumes d: "wb_done gs s" and dist: "distinct (map fst gs)" and lg: "length gs < 2147483648"
    and lc: "\<And>f. f \<in> set wb_columns \<Longrightarrow> length (col_texts f gs) < 4294967296"
    and q: "no_nul q" "length q < 2147483648" "map_of gs q = Some opts" "opts \<noteq> []"
    and arr: "da_contains arr (map_of (ws_dic s))"
    and l: "wl_ranges l = map (\<lambda>f. col_ranges f 0 gs) wb_columns" "wl_bufs l = map (\<lambda>f. col_texts f gs) wb_columns"
      "wl_querylen l = Some (map (\<lambda>g. i32 (int (length (fst g)))) gs)"
  shows "\<exists>i. exactMatchSearch arr q 0 0 = Inr (int i, length q) \<and> the (wl_querylen l) ! i = int (length q) \<and>
    (\<forall>k < 7. wb_cell l k i = col_text (wb_columns ! k) opts)"
proof -
  from map_of_SomeD [OF q(3)] obtain i where i: "i < length gs" "gs ! i = (q, opts)"
    by (auto simp: in_set_conv_nth)
  have "map_of (ws_dic s) q = Some (u32 (int i))"
    using d group_keys_nth [OF dist i(1)] i(2) by (simp add: wb_done_def)
  moreover have "u32 (int i) = int i" using i(1) lg by (simp add: in_u32_def)
  ultimately have e: "exactMatchSearch arr q 0 0 = Inr (int i, length q)"
    using arr q(1) by (simp add: da_contains_def)
  have "wb_cell l k i = col_text (wb_columns ! k) opts" if k: "k < 7" for k
  proof -
    let ?f = "wb_columns ! k"
    have k7: "k < length wb_columns" using k by (simp add: wb_columns_def)
    have "length (col_texts ?f (take i gs)) + length (col_text ?f opts) \<le> length (col_texts ?f gs)"
      using arg_cong [OF id_take_nth_drop [OF i(1)], of "\<lambda>g. length (col_texts ?f g)"] i(2) by simp
    then show ?thesis
      by (rule wb_cell_range)
        (use k7 i lc [of ?f] q(4) col_ranges_nth [OF i(1), of ?f 0] col_texts_nth [OF i(1), of ?f] in
          \<open>simp_all add: l\<close>)
  qed
  moreover have "the (wl_querylen l) ! i = int (length q)"
    using i q(2) by (simp add: l in_i32_def)
  ultimately show ?thesis using e by blast
qed

text \<open>
  With a builder whose array finds exactly the keys it was built from; \<open>Built_Index\<close> has the builder of the code.
\<close>

lemma white_black_lookup:
  assumes ok: "list_all wb_ok vect" "vect \<noteq> []"
    and srt: "mset (srt vect) = mset vect" "sorted_wrt wb_le (srt vect)"
    and dic: "dic = ws_dic (wb_output (srt vect))"
    and b: "build dic = Some arr" and arr: "arr \<noteq> []" "length arr * 4 < 4294967296"
      "da_contains arr (map_of dic)"
    and fits: "wb_fits vect"
  shows "\<exists>out l. OutputIndexFile_wb build srt True vect = Inr (0, out) \<and> LoadIndex_wb (Some out) = Inr (0, l) \<and>
    wl_da l = Some arr \<and> (\<forall>q. no_nul q \<longrightarrow> (if \<exists>x \<in> set vect. wt_query x = q
      then \<exists>i. exactMatchSearch arr q 0 0 = Inr (int i, length q) \<and>
        the (wl_querylen l) ! i = int (length q) \<and>
        (\<forall>k < 7. wb_cell l k i = col_text (wb_columns ! k) (options_of q (srt vect)))
      else exactMatchSearch arr q 0 0 = Inr (-1, 0)))"
proof -
  obtain x xs where xs: "srt vect = x # xs" using srt(1) ok(2) by (cases "srt vect") auto
  let ?gs = "wb_groups (wt_query x) (wt_options x) xs" and ?s = "wb_output (srt vect)"
  have set: "set vect = set (x # xs)" using srt(1) by (metis mset_eq_setD xs)
  then have ok': "\<forall>y \<in> set (x # xs). wb_ok y" using ok(1) by (simp add: list_all_iff)
  have d: "wb_done ?gs ?s" and sg: "sorted_wrt str_less (map fst ?gs)"
    using wb_output_groups [of x xs] srt(2) ok' by (auto simp: xs wb_ok_def)
  have dist: "distinct (map fst ?gs)" by (rule sorted_str_less_distinct [OF sg])
  have len: "length (x # xs) = length vect" by (metis srt(1) size_mset xs)
  then have lg: "length ?gs < 2147483648"
    using length_wb_groups [of "wt_query x" "wt_options x" xs] fits by (simp add: wb_fits_def)
  have sums: "(\<Sum>y \<leftarrow> x # xs. length (col_text f (wt_options y))) = (\<Sum>y \<leftarrow> vect. length (col_text f (wt_options y)))" for f
    unfolding xs [symmetric] by (rule sum_list_mset [OF srt(1)])
  have lc: "length (col_texts f ?gs) < 4294967296" if "f \<in> set wb_columns" for f
    using fits that sums [of f] by (simp add: wb_fits_def length_col_texts_groups)
  have opts: "map_of ?gs q = (if \<exists>y \<in> set vect. wt_query y = q then Some (options_of q (srt vect)) else None)" for q
  proof -
    have "\<forall>y \<in> set xs. \<not> str_less (wt_query y) (wt_query x)" using srt(2) by (simp add: xs wb_le_def)
    from wb_groups_options [OF _ this, of "wt_options x" q] srt(2) show ?thesis
      by (auto simp: xs set options_of_def)
  qed
  have "\<forall>k \<in> set (map fst ?gs). no_nul k"
    unfolding wb_groups_keys using ok' by (auto simp: wb_ok_def)
  then have keys: "map (\<lambda>(k, v). (c_str k, i32 v)) dic = dic"
    unfolding dic by (rule wb_dic_plain [OF d lg])
  have full: "\<forall>c \<in> set (ws_cols ?s). wc_chars c \<noteq> []"
    using wb_chars_nonempty [OF d, of "wt_query x"] ok' opts [of "wt_query x"]
    by (auto simp: wb_ok_def xs set options_of_def)
  let ?f1 = "snd (da_save arr (enc_u32 0 @ enc_u32 (u32 (int (length arr) * 4))))"
  have out: "OutputIndexFile_wb build srt True vect = Inr (0, wb_image arr ?s ?f1)"
    using full b arr keys by (auto simp: OutputIndexFile_wb_def Let_def da_save_def simp flip: dic)
  define l where "l = \<lparr>wl_da = Some arr, wl_ranges = map (\<lambda>f. col_ranges f 0 ?gs) wb_columns,
      wl_bufs = map (\<lambda>f. col_texts f ?gs) wb_columns,
      wl_querylen = Some (map (\<lambda>g. i32 (int (length (fst g)))) ?gs)\<rparr>"
  have load: "LoadIndex_wb (Some (wb_image arr ?s ?f1)) = Inr (0, l)"
    unfolding l_def by (rule wb_image_load [OF d arr(1,2)]) (use lg lc in auto)
  have "if \<exists>x \<in> set vect. wt_query x = q
      then \<exists>i. exactMatchSearch arr q 0 0 = Inr (int i, length q) \<and>
        the (wl_querylen l) ! i = int (length q) \<and>
        (\<forall>k < 7. wb_cell l k i = col_text (wb_columns ! k) (options_of q (srt vect)))
      else exactMatchSearch arr q 0 0 = Inr (-1, 0)" if nn: "no_nul q" for q
  proof (cases "\<exists>y \<in> set vect. wt_query y = q")
    case True
    then have "length q < 2147483648" "options_of q (srt vect) \<noteq> []"
      using fits ok' by (auto simp: wb_fits_def xs set options_of_def wb_ok_def)
    with wb_row [OF d dist lg lc nn _ _ _ arr(3) [unfolded dic], of "options_of q (srt vect)" l] opts [of q] True
    show ?thesis by (simp add: l_def)
  next
    case False
    then have "map_of ?gs q = None" using opts [of q] by simp
    then have "q \<notin> set (map fst ?gs)" by (simp add: map_of_eq_None_iff)
    then have "map_of (group_keys ?gs) q = None"
      using group_keys_mem by (metis map_of_SomeD option.exhaust)
    then have "map_of dic q = None" using d by (simp add: wb_done_def dic)
    with False arr(3) nn show ?thesis by (simp add: da_contains_def)
  qed
  moreover have "wl_da l = Some arr" by (simp add: l_def)
  ultimately show ?thesis using out load by blast
qed

text \<open>
  A line of exactly seven fields passes the check of \<open>MakeIndex\<close>, which then reads an eighth
  field: whatever the fields are, as long as none has an underscore in it.
\<close>

theorem seven_fields_out_of_bounds:
  assumes "length parts = 7" "list_all (\<lambda>p. CHR ''_'' \<notin> set p) parts"
  shows "wb_line pf (join_with ''_$##$_'' parts) = Inl Out_of_bounds"
proof -
  have "join_with ''_$##$_'' parts \<noteq> []" "parts \<noteq> []"
    using assms(1) by (cases parts; cases "tl parts"; auto)+
  then have "split_sam [] (join_with ''_$##$_'' parts) ''_$##$_'' = Some (1, parts)"
    using split_sam_ref [of "''_$##$_''" "[]"] split_ref_join [OF assms(2)] by (simp add: no_nul_def)
  with assms(1) show ?thesis by (simp add: wb_line_def)
qed

theorem seven_fields_out_of_bounds_witness:
  "\<forall>pf. wb_line pf (join_with ''_$##$_'' [''q'', ''v'', ''l'', ''t'', ''r'', ''i'', ''d'']) = Inl Out_of_bounds"
  by (rule allI, rule seven_fields_out_of_bounds) simp_all

end
