(* ===== verification/Built_Index.thy ===== *)
theory Built_Index
  imports Da_Finish Uniq_Index White_Black
begin

text \<open>
  The three programs that write dictionaries (\<open>Index_Da\<close>, \<open>White_Black\<close>, \<open>Uniq_Index\<close>) with the builder of
  \<^verbatim>\<open>src/index/index_da/darts.h\<close> itself (\<open>Da_Builder\<close>), instead of any builder that keeps its promise. What the
  programs hand to it is a \<^verbatim>\<open>std::map\<close>: its keys are sorted as the builder wants them, since \<^verbatim>\<open>std::string\<close> compares
  bytes without sign. The bound on the characters of the keys is that of \<open>da_build_spec\<close>.
\<close>

definition da_builder :: "(string \<times> int) list \<Rightarrow> unit32 list option" where
  "da_builder ks = (case da_build ks of Inl e \<Rightarrow> None | Inr arr \<Rightarrow> Some arr)"

section \<open>The order of the keys\<close>

lemma label_of_char_less: "(of_char a :: uchar_type) < of_char b \<longleftrightarrow> (of_char a :: nat) < of_char b"
  by (simp only: word_less_nat_alt unat_of_char)

lemma str_less_labels:
  "no_nul a \<Longrightarrow> no_nul b \<Longrightarrow> str_less a b \<Longrightarrow> label_less (key_labels a) (key_labels b)"
proof (induction a b rule: strcmp.induct)
  case (2 b bs)
  then have "0 < (of_char b :: uchar_type)" by (simp add: word_gt_0 of_char_0)
  then show ?case by (simp add: key_labels_def)
next
  case (4 a as b bs)
  have eq: "a = b" if "\<not> (of_char a :: nat) < of_char b" "\<not> (of_char b :: nat) < of_char a"
    using that of_char_nat_eq [of a b] by linarith
  show ?case
  proof (cases "(of_char a :: nat) < of_char b")
    case True
    then show ?thesis by (simp add: key_labels_def label_of_char_less)
  next
    case False
    then have "\<not> (of_char b :: nat) < of_char a" "str_less as bs" using "4.prems"(3) by (auto simp: str_less_def split: if_splits)
    with False eq "4.IH" "4.prems"(1,2) show ?thesis by (simp add: key_labels_def)
  qed
qed (simp_all add: str_less_def)

lemma key_sorted_map:
  "sorted_wrt str_less (map fst ks) \<Longrightarrow> \<forall>e \<in> set ks. no_nul (fst e) \<Longrightarrow> key_sorted ks"
  by (induction ks rule: key_sorted.induct) (auto simp: str_less_labels)

lemma da_builder_contains:
  assumes sorted: "sorted_wrt str_less (map fst dic)" and ne: "dic \<noteq> []"
    and ok: "\<And>k v. map_of dic k = Some v \<Longrightarrow> k \<noteq> [] \<and> no_nul k \<and> 0 \<le> v \<and> in_i32 v"
    and small: "labels_total dic < 2 ^ 21"
  shows "\<exists>arr. da_builder dic = Some arr \<and> arr \<noteq> [] \<and> length arr * 4 < 4294967296 \<and> da_contains arr (map_of dic)"
proof -
  have e: "Dawg_Path.key_ok e" if "e \<in> set dic" for e
  proof -
    have "distinct (map fst dic)" by (rule sorted_wrt_str_less_distinct [OF sorted])
    then have "map_of dic (fst e) = Some (snd e)" using that by simp
    from ok [OF this] show ?thesis by (simp add: Dawg_Path.key_ok_def in_i32_def)
  qed
  then have "key_sorted dic" using key_sorted_map [OF sorted] by (simp add: Dawg_Path.key_ok_def)
  moreover have "list_all Dawg_Path.key_ok dic" using e by (simp add: list_all_iff)
  moreover have "2 + labels_total dic < 2 ^ 30" using small by simp
  ultimately have "da_build dic = Inl Thrown \<and> 2 ^ 21 \<le> labels_total dic \<or>
    (\<exists>arr. da_build dic = Inr arr \<and> arr \<noteq> [] \<and> length arr \<le> 2 ^ 29 \<and> da_contains arr (map_of dic))"
    using ne by (intro da_build_spec)
  then show ?thesis
  proof (elim disjE exE conjE)
    assume "2 ^ 21 \<le> labels_total dic"
    with small show ?thesis by linarith
  next
    fix arr assume "da_build dic = Inr arr" "arr \<noteq> []" "length arr \<le> 2 ^ 29" "da_contains arr (map_of dic)"
    then show ?thesis by (intro exI [of _ arr]) (simp add: da_builder_def)
  qed
qed

text \<open>The characters of a dictionary, from those of the texts its keys come from.\<close>

lemma labels_total_le:
  assumes "distinct (map fst dic)" "set (map fst dic) \<subseteq> set qs"
  shows "labels_total dic \<le> (\<Sum>q \<leftarrow> qs. length q + 1)"
proof -
  have "labels_total dic = sum_list (map (\<lambda>q. length q + 1) (map fst dic))" by (simp add: labels_total_def comp_def)
  also have "\<dots> \<le> (\<Sum>q \<leftarrow> qs. length q + 1)" by (rule sum_distinct_le [OF assms])
  finally show ?thesis .
qed

section \<open>Answers of equal questions joined\<close>

lemma merge_groups_keys: "set (map fst (merge_groups q t xs)) = insert q (st_query ` set xs)"
  by (induction q t xs rule: merge_groups.induct) auto

lemma merged_builder:
  assumes ok: "list_all st_ok vect" "vect \<noteq> []" and srt: "mset (srt vect) = mset vect" "sorted_wrt query_le (srt vect)"
    and len: "(\<Sum>x \<leftarrow> vect. length (st_extend x) + 4) < 2147483648"
    and small: "(\<Sum>x \<leftarrow> vect. length (st_query x) + 1) < 2 ^ 21"
  defines "dic \<equiv> ms_dic (merge_loop (srt vect) merge_init)"
  shows "\<exists>arr. da_builder dic = Some arr \<and> arr \<noteq> [] \<and> length arr * 4 < 4294967296 \<and> da_contains arr (map_of dic)"
proof -
  obtain x xs where xs: "srt vect = x # xs" using srt(1) ok(2) by (cases "srt vect") auto
  let ?gs = "merge_groups (st_query x) (StringTrim (st_extend x)) xs"
  have "set (srt vect) = set vect" by (rule mset_eq_setD [OF srt(1)])
  then have ok': "list_all st_ok (x # xs)" using ok(1) xs by (simp add: list_all_iff)
  have "(\<Sum>y \<leftarrow> srt vect. length (st_extend y) + 4) = (\<Sum>y \<leftarrow> vect. length (st_extend y) + 4)"
    by (rule sum_list_mset [OF srt(1)])
  then have lt: "length (texts ?gs) < 2147483648"
    using length_merge_groups_le [of "st_query x" "StringTrim (st_extend x)" xs]
      length_StringTrim [of "st_extend x"] len by (simp add: xs)
  have m: "merged ?gs (merge_loop (srt vect) merge_init)" using merge_loop_merged [OF ok'] srt(2) lt by (simp add: xs)
  then have dm: "map_of dic = map_of (offsets 0 ?gs)" and ds: "sorted_wrt str_less (map fst dic)"
    by (simp_all add: merged_def dic_def)
  have nn: "list_all (\<lambda>g. no_nul (fst g) \<and> no_nul (snd g)) ?gs"
    using ok' by (intro merge_groups_ok) (auto simp: st_ok_def no_nul_StringTrim)
  have "fst ` set dic = dom (map_of dic)" by (simp add: dom_map_of_conv_image_fst)
  also have "\<dots> = set (map fst (offsets 0 ?gs))" unfolding dm by (simp add: dom_map_of_conv_image_fst)
  also have "\<dots> = st_query ` set (srt vect)" unfolding map_fst_offsets merge_groups_keys xs by simp
  finally have keys: "fst ` set dic = st_query ` set (srt vect)" .
  show ?thesis
  proof (rule da_builder_contains [OF ds])
    show "dic \<noteq> []" using keys xs by auto
    fix k v assume kv: "map_of dic k = Some v"
    then have "k \<in> st_query ` set (srt vect)" unfolding keys [symmetric] by (intro image_eqI [of _ _ "(k, v)"]) (simp_all add: map_of_SomeD)
    then have "k \<noteq> [] \<and> no_nul k" using ok' unfolding xs by (auto simp: st_ok_def list_all_iff)
    moreover have "0 \<le> v \<and> in_i32 v" using sorted_offsets_range [OF kv dm _ lt] nn by (simp add: list_all_iff)
    ultimately show "k \<noteq> [] \<and> no_nul k \<and> 0 \<le> v \<and> in_i32 v" by blast
  next
    have "labels_total dic \<le> (\<Sum>q \<leftarrow> map st_query (srt vect). length q + 1)"
      by (rule labels_total_le [OF sorted_wrt_str_less_distinct [OF ds]]) (simp add: keys)
    also have "\<dots> = (\<Sum>x \<leftarrow> srt vect. length (st_query x) + 1)" by (simp add: comp_def)
    also have "\<dots> = (\<Sum>x \<leftarrow> vect. length (st_query x) + 1)" by (rule sum_list_mset [OF srt(1)])
    finally show "labels_total dic < 2 ^ 21" using small by simp
  qed
qed

text \<open>
  C4: From the pairs of question and answer to the lookup: the dictionary file written by
  \<open>OutputIndexFile\<close> and loaded by \<open>LoadDAs\<close> gives, for a question, all its answers in
  order, joined by \<^verbatim>\<open>|||\<close>, and nothing for any other question. This holds for any sort that sorts by
  question, with the double array built, saved, opened and searched as the code does it.
\<close>

theorem OutputIndexFile_answers:
  assumes ok: "list_all st_ok vect" "vect \<noteq> []"
    and srt: "mset (srt vect) = mset vect" "sorted_wrt query_le (srt vect)"
    and len: "(\<Sum>x \<leftarrow> vect. length (st_extend x) + 4) < 2147483648" "(\<Sum>x \<leftarrow> vect. length (st_query x) + 1) < 2 ^ 21"
  shows "\<exists>out. OutputIndexFile da_builder srt True vect = Inr (0, out) \<and>
    (\<forall>ds. \<exists>ds'. LoadDAs (Some out) ds = (0, ds') \<and>
      (\<forall>q m. DA_Search ds' q m =
         Inr (0, if answers_for (c_str q) (srt vect) = [] then m
                 else m(''da'' \<mapsto> join_with ''|||'' (answers_for (c_str q) (srt vect))))))"
proof -
  from merged_builder [where srt = srt, OF assms] obtain arr where
    "da_builder (ms_dic (merge_loop (srt vect) merge_init)) = Some arr" "arr \<noteq> []" "length arr * 4 < 4294967296"
    "da_contains arr (map_of (ms_dic (merge_loop (srt vect) merge_init)))" by blast
  from OutputIndexFile_lookup [where srt = srt and build = da_builder, OF ok srt refl this len(1)] show ?thesis .
qed

theorem OutputIndexFile_answers_witness:
  "\<exists>out. OutputIndexFile da_builder (\<lambda>v. v) True
      [\<lparr>st_query = ''a'', st_extend = ''x''\<rparr>, \<lparr>st_query = ''a'', st_extend = ''y''\<rparr>] = Inr (0, out) \<and>
    (\<forall>ds. \<exists>ds'. LoadDAs (Some out) ds = (0, ds') \<and> DA_Search ds' ''a'' Map.empty = Inr (0, [''da'' \<mapsto> ''x|||y'']))"
proof -
  let ?v = "[\<lparr>st_query = ''a'', st_extend = ''x''\<rparr>, \<lparr>st_query = ''a'', st_extend = ''y''\<rparr>]"
  have ans: "answers_for (c_str ''a'') ?v = [''x'', ''y'']" by code_simp
  have ok: "list_all st_ok ?v" by (simp add: st_ok_def no_nul_def)
  have le: "sorted_wrt query_le ?v" by (simp add: query_le_def)
  have v: "?v \<noteq> []" "mset ?v = mset ?v" "(\<Sum>x \<leftarrow> ?v. length (st_extend x) + 4) < 2147483648"
    "(\<Sum>x \<leftarrow> ?v. length (st_query x) + 1) < 2 ^ 21" by simp_all
  from OutputIndexFile_answers [where srt = "\<lambda>v. v", OF ok v(1,2) le v(3,4)]
  obtain out where o: "OutputIndexFile da_builder (\<lambda>v. v) True ?v = Inr (0, out)"
    "\<forall>ds. \<exists>ds'. LoadDAs (Some out) ds = (0, ds') \<and> (\<forall>q m. DA_Search ds' q m = Inr (0, if answers_for (c_str q) ?v = [] then m
                 else m(''da'' \<mapsto> join_with ''|||'' (answers_for (c_str q) ?v))))"
    by (elim exE conjE)
  have "\<exists>ds'. LoadDAs (Some out) ds = (0, ds') \<and> DA_Search ds' ''a'' Map.empty = Inr (0, [''da'' \<mapsto> ''x|||y''])" for ds
  proof -
    from o(2) [rule_format, of ds] obtain ds' where "LoadDAs (Some out) ds = (0, ds')"
      and q: "\<forall>q m. DA_Search ds' q m = Inr (0, if answers_for (c_str q) ?v = [] then m
                 else m(''da'' \<mapsto> join_with ''|||'' (answers_for (c_str q) ?v)))" by blast
    moreover have "DA_Search ds' ''a'' Map.empty = Inr (0, [''da'' \<mapsto> ''x|||y''])"
      using q [rule_format, of "''a''" Map.empty] unfolding ans by simp
    ultimately show ?thesis by blast
  qed
  with o(1) show ?thesis by blast
qed

section \<open>The list of eight columns\<close>

lemma wb_builder:
  assumes ok: "list_all wb_ok vect" "vect \<noteq> []" and srt: "mset (srt vect) = mset vect" "sorted_wrt wb_le (srt vect)"
    and fits: "wb_fits vect" and small: "(\<Sum>x \<leftarrow> vect. length (wt_query x) + 1) < 2 ^ 21"
  defines "dic \<equiv> ws_dic (wb_output (srt vect))"
  shows "\<exists>arr. da_builder dic = Some arr \<and> arr \<noteq> [] \<and> length arr * 4 < 4294967296 \<and> da_contains arr (map_of dic)"
proof -
  obtain x xs where xs: "srt vect = x # xs" using srt(1) ok(2) by (cases "srt vect") auto
  let ?gs = "wb_groups (wt_query x) (wt_options x) xs"
  have set: "set (srt vect) = set vect" by (rule mset_eq_setD [OF srt(1)])
  have ok': "\<forall>y \<in> set (x # xs). wb_ok y" using ok(1) set xs by (simp add: list_all_iff)
  then have d: "wb_done ?gs (wb_output (srt vect))" using wb_output_groups [of x xs] srt(2) by (simp add: xs wb_ok_def)
  then have dm: "map_of dic = map_of (group_keys ?gs)" and ds: "sorted_wrt str_less (map fst dic)"
    by (simp_all add: wb_done_def dic_def)
  have "length (srt vect) = length vect" by (metis srt(1) size_mset)
  then have lg: "length ?gs < 2147483648"
    using length_wb_groups [of "wt_query x" "wt_options x" xs] fits by (simp add: wb_fits_def xs)
  have "map fst (group_keys ?gs) = map fst ?gs" by (simp add: group_keys_def)
  moreover have "set (map fst ?gs) = wt_query ` set (srt vect)" unfolding wb_groups_keys xs by simp
  moreover have "set (map fst dic) = set (map fst (group_keys ?gs))"
    using arg_cong [OF dm, of dom] by (simp add: dom_map_of_conv_image_fst)
  ultimately have keys: "set (map fst dic) = wt_query ` set (srt vect)" by simp
  show ?thesis
  proof (rule da_builder_contains [OF ds])
    show "dic \<noteq> []" using keys xs by auto
    fix k v assume kv: "map_of dic k = Some v"
    then have "k \<in> wt_query ` set (srt vect)" unfolding keys [symmetric] set_map
      by (intro image_eqI [of _ _ "(k, v)"]) (simp_all add: map_of_SomeD)
    then have "k \<noteq> [] \<and> no_nul k" using ok' unfolding xs by (auto simp: wb_ok_def)
    moreover obtain i where "i < length ?gs" "v = u32 (int i)"
      using group_keys_mem [OF map_of_SomeD [OF kv [unfolded dm]]] by blast
    then have "v = int i" "i < 2147483648" using lg by (simp_all add: in_u32_def)
    ultimately show "k \<noteq> [] \<and> no_nul k \<and> 0 \<le> v \<and> in_i32 v" by (simp add: in_i32_def)
  next
    have "labels_total dic \<le> (\<Sum>q \<leftarrow> map wt_query (srt vect). length q + 1)"
      by (rule labels_total_le [OF sorted_wrt_str_less_distinct [OF ds]]) (subst keys, simp)
    also have "\<dots> = (\<Sum>x \<leftarrow> srt vect. length (wt_query x) + 1)" by (simp add: comp_def)
    also have "\<dots> = (\<Sum>x \<leftarrow> vect. length (wt_query x) + 1)" by (rule sum_list_mset [OF srt(1)])
    finally show "labels_total dic < 2 ^ 21" using small by simp
  qed
qed

text \<open>
  C5: The eight-column list is a table by query. The file \<open>OutputIndexFile\<close> writes with its double array,
  loaded by \<open>LoadIndex\<close>, has for every query of the list a number in the array it loads; the range of that
  number in each of the seven columns holds exactly the texts of the query's entries, in order and each
  with its terminator, and its length is recorded. No other query is found.
\<close>

theorem white_black_table:
  assumes ok: "list_all wb_ok vect" "vect \<noteq> []"
    and srt: "mset (srt vect) = mset vect" "sorted_wrt wb_le (srt vect)"
    and fits: "wb_fits vect" "(\<Sum>x \<leftarrow> vect. length (wt_query x) + 1) < 2 ^ 21"
  shows "\<exists>out l arr. OutputIndexFile_wb da_builder srt True vect = Inr (0, out) \<and>
    LoadIndex_wb (Some out) = Inr (0, l) \<and> wl_da l = Some arr \<and>
    (\<forall>q. no_nul q \<longrightarrow> (if \<exists>x \<in> set vect. wt_query x = q
      then \<exists>i. exactMatchSearch arr q 0 0 = Inr (int i, length q) \<and>
        the (wl_querylen l) ! i = int (length q) \<and>
        (\<forall>k < 7. wb_cell l k i = col_text (wb_columns ! k) (options_of q (srt vect)))
      else exactMatchSearch arr q 0 0 = Inr (-1, 0)))"
proof -
  from wb_builder [where srt = srt, OF assms] obtain arr where
    arr: "da_builder (ws_dic (wb_output (srt vect))) = Some arr" "arr \<noteq> []" "length arr * 4 < 4294967296"
    "da_contains arr (map_of (ws_dic (wb_output (srt vect))))" by blast
  from white_black_lookup [where srt = srt and build = da_builder, OF ok srt refl arr fits(1)] show ?thesis by blast
qed

theorem white_black_table_witness:
  "\<exists>out l. OutputIndexFile_wb da_builder (\<lambda>v. v) True
      [\<lparr>wt_query = ''a'', wt_options = [\<lparr>pr_vr = ''v'', pr_label = ''l'', pr_pos_type = ''p'', pr_reform = ''r'',
         pr_item_query = ''i'', pr_data = ''d'', pr_iswappc = ''w'', pr_query_len = 1\<rparr>]\<rparr>] = Inr (0, out) \<and>
    LoadIndex_wb (Some out) = Inr (0, l) \<and> (\<exists>i. wb_cell l 5 i = ''d'' @ [NUL])"
proof -
  let ?opt = "\<lparr>pr_vr = ''v'', pr_label = ''l'', pr_pos_type = ''p'', pr_reform = ''r'',
    pr_item_query = ''i'', pr_data = ''d'', pr_iswappc = ''w'', pr_query_len = 1\<rparr>"
  let ?v = "[\<lparr>wt_query = ''a'', wt_options = [?opt]\<rparr>]"
  have ok: "list_all wb_ok ?v" "?v \<noteq> []" "mset ?v = mset ?v" "sorted_wrt wb_le ?v"
    by (simp_all add: wb_ok_def no_nul_def)
  have fits: "wb_fits ?v" "(\<Sum>x \<leftarrow> ?v. length (wt_query x) + 1) < 2 ^ 21"
    by (simp_all add: wb_fits_def wb_columns_def c_str_def)
  from white_black_table [where srt = "\<lambda>v. v", OF ok fits]
  obtain out l arr where ol: "OutputIndexFile_wb da_builder (\<lambda>v. v) True ?v = Inr (0, out)" "LoadIndex_wb (Some out) = Inr (0, l)"
    and q: "\<forall>q. no_nul q \<longrightarrow> (if \<exists>x \<in> set ?v. wt_query x = q
      then \<exists>i. exactMatchSearch arr q 0 0 = Inr (int i, length q) \<and>
        the (wl_querylen l) ! i = int (length q) \<and>
        (\<forall>k < 7. wb_cell l k i = col_text (wb_columns ! k) (options_of q ?v))
      else exactMatchSearch arr q 0 0 = Inr (-1, 0))" by blast
  have t: "col_text (wb_columns ! 5) (options_of ''a'' ?v) = ''d'' @ [NUL]" by code_simp
  have "\<exists>i. \<forall>k < 7. wb_cell l k i = col_text (wb_columns ! k) (options_of ''a'' ?v)"
    using q [rule_format, of "''a''"] by (auto simp: no_nul_def)
  then obtain i where "\<forall>k < 7. wb_cell l k i = col_text (wb_columns ! k) (options_of ''a'' ?v)" by blast
  then have "wb_cell l 5 i = col_text (wb_columns ! 5) (options_of ''a'' ?v)" by simp
  with t ol show ?thesis by auto
qed

section \<open>One answer for every question\<close>

definition uniq_keys_ok :: "platform \<Rightarrow> st list \<Rightarrow> bool" where
  "uniq_keys_ok pf xs \<longleftrightarrow>
     uniq_items pf xs \<noteq> [] \<and> list_all (\<lambda>g. fst g \<noteq> []) (uniq_items pf xs) \<and>
     (\<Sum>g \<leftarrow> uniq_items pf xs. length (fst g) + 1) < 2 ^ 21"

lemma uniq_builder:
  assumes seg: "list_all (\<lambda>x. \<exists>r parts. Segment pf (st_query x) = Inr (r, parts)) xs"
    and len: "(\<Sum>x \<leftarrow> xs. length (st_extend x) + 1) < 2147483648" and keys_ok: "uniq_keys_ok pf xs"
  shows "\<exists>dic s arr. uniq_loop pf xs [] 0 ([], 0) = Inr (dic, s) \<and>
    da_builder dic = Some arr \<and> arr \<noteq> [] \<and> length arr * 4 < 4294967296 \<and> da_contains arr (map_of dic)"
proof -
  let ?gs = "uniq_items pf xs"
  have lt: "length (texts ?gs) < 2147483648" using length_uniq_items [of pf xs] len by simp
  have "uniq_inv [] []" by (simp add: uniq_inv_def)
  from uniq_loop_inv [OF seg this] lt obtain dic s where dic: "uniq_loop pf xs [] 0 ([], 0) = Inr (dic, s)"
    and u: "uniq_inv ?gs dic" by auto
  then have ds: "sorted_wrt str_less (map fst dic)" and dm: "map_of dic = map_of (rev (offsets 0 ?gs))"
    by (simp_all add: uniq_inv_def)
  have "set (map fst dic) = set (map fst (rev (offsets 0 ?gs)))"
    using arg_cong [OF dm, of dom] by (simp add: dom_map_of_conv_image_fst)
  then have keys: "set (map fst dic) = set (map fst ?gs)" unfolding rev_map [symmetric] map_fst_offsets by simp
  have "\<exists>arr. da_builder dic = Some arr \<and> arr \<noteq> [] \<and> length arr * 4 < 4294967296 \<and> da_contains arr (map_of dic)"
  proof (rule da_builder_contains [OF ds])
    show "dic \<noteq> []" using keys keys_ok by (auto simp: uniq_keys_ok_def)
    fix k v assume kv: "map_of dic k = Some v"
    then have "k \<in> set (map fst dic)" unfolding set_map
      by (intro image_eqI [of _ _ "(k, v)"]) (simp_all add: map_of_SomeD)
    then have "k \<in> fst ` set ?gs" unfolding keys by simp
    then have "k \<noteq> []" using keys_ok by (auto simp: uniq_keys_ok_def list_all_iff)
    with uniq_inv_range [OF u kv lt] show "k \<noteq> [] \<and> no_nul k \<and> 0 \<le> v \<and> in_i32 v" by blast
  next
    have "labels_total dic \<le> (\<Sum>q \<leftarrow> map fst ?gs. length q + 1)"
      by (rule labels_total_le [OF sorted_wrt_str_less_distinct [OF ds]]) (simp only: keys subset_refl)
    also have "\<dots> = (\<Sum>g \<leftarrow> ?gs. length (fst g) + 1)" by (simp add: comp_def)
    finally show "labels_total dic < 2 ^ 21" using keys_ok by (simp add: uniq_keys_ok_def)
  qed
  with dic show ?thesis by blast
qed

lemma OutputIndexFile_uniq_built:
  assumes seg: "list_all (\<lambda>x. \<exists>r parts. Segment pf (st_query x) = Inr (r, parts)) (srt vect)"
    and len: "(\<Sum>x \<leftarrow> srt vect. length (st_extend x) + 1) < 2147483648" and keys: "uniq_keys_ok pf (srt vect)"
  shows "\<exists>out. OutputIndexFile_uniq pf da_builder srt True vect = Inr (0, out) \<and>
    (\<forall>ds. \<exists>ds'. LoadDAs (Some out) ds = (0, ds') \<and> da_answers ds' (last_answer pf (srt vect)))"
proof -
  from uniq_builder [OF assms] obtain dic s arr where
    b: "uniq_loop pf (srt vect) [] 0 ([], 0) = Inr (dic, s)" "da_builder dic = Some arr" "arr \<noteq> []"
    "length arr * 4 < 4294967296" "da_contains arr (map_of dic)" by blast
  show ?thesis by (rule OutputIndexFile_uniq_answers [where srt = srt and vect = vect and build = da_builder, OF seg len b])
qed

lemma uniq_keys_ok_mset:
  assumes "mset xs = mset ys"
  shows "uniq_keys_ok pf xs = uniq_keys_ok pf ys"
proof -
  note m = uniq_items_mset [OF assms, of pf]
  have "set (uniq_items pf xs) = set (uniq_items pf ys)" using m by (rule mset_eq_setD)
  moreover have "uniq_items pf xs = [] \<longleftrightarrow> uniq_items pf ys = []"
    using arg_cong [OF m, of size] by auto
  ultimately show ?thesis
    unfolding uniq_keys_ok_def list_all_iff by (simp only: sum_list_mset [OF m])
qed

text \<open>
  From the lines, in any order, to the lookup: the dictionary for any sort in the order of the questions.
\<close>

lemma OutputIndexFile_uniq_greatest:
  assumes srt: "mset (srt vect) = mset vect" "sorted_wrt query_le (srt vect)"
    and seg: "list_all (\<lambda>x. \<exists>r parts. Segment pf (st_query x) = Inr (r, parts)) vect"
    and len: "(\<Sum>x \<leftarrow> vect. length (st_extend x) + 1) < 2147483648" and keys: "uniq_keys_ok pf vect"
  shows "\<exists>out A. OutputIndexFile_uniq pf da_builder srt True vect = Inr (0, out) \<and> greatest_answer pf vect A \<and>
    (\<forall>ds. \<exists>ds'. LoadDAs (Some out) ds = (0, ds') \<and> da_answers ds' A)"
proof -
  have "list_all (\<lambda>x. \<exists>r parts. Segment pf (st_query x) = Inr (r, parts)) (srt vect)"
    using seg mset_eq_setD [OF srt(1)] by (simp add: list_all_iff)
  moreover have "(\<Sum>x \<leftarrow> srt vect. length (st_extend x) + 1) < 2147483648"
    using len unfolding sum_list_mset [OF srt(1)] .
  moreover have "uniq_keys_ok pf (srt vect)" using keys uniq_keys_ok_mset [OF srt(1)] by blast
  ultimately show ?thesis
    using OutputIndexFile_uniq_built [of pf srt vect] sorted_answer_greatest [where srt = srt, OF srt] by blast
qed

text \<open>
  C6: The dictionary made with \<^verbatim>\<open>uniq\<close> keeps one answer for every question: when the
  questions can be segmented into words, \<open>OutputIndexFile\<close> sorts the lines by their questions, builds the double
  array of the words and writes a file that loads into any \<open>DA_SEARCH\<close>. A lookup there finds for a
  text that consists of the words of some question the answer on a line with these words, and of
  all lines with these words one whose question is the greatest in the order of the sort; the order of the
  lines in the file does not matter. It finds nothing for other texts.
\<close>

theorem uniq_dictionary_lookup:
  assumes "mset (srt vect) = mset vect" "sorted_wrt query_le (srt vect)"
    and "list_all (\<lambda>x. \<exists>r parts. Segment pf (st_query x) = Inr (r, parts)) vect"
    and "(\<Sum>x \<leftarrow> vect. length (st_extend x) + 1) < 2147483648" "uniq_keys_ok pf vect"
  shows "\<exists>out A. OutputIndexFile_uniq pf da_builder srt True vect = Inr (0, out) \<and> greatest_answer pf vect A \<and>
    (\<forall>ds. \<exists>ds'. LoadDAs (Some out) ds = (0, ds') \<and> da_answers ds' A)"
  by (rule OutputIndexFile_uniq_greatest [where srt = srt, OF assms])

text \<open>
  Two questions with the same words, and one without words: the dictionary has the answer of the greater
  question, which comes first in the file.
\<close>

theorem uniq_dictionary_lookup_witness:
  "\<exists>out ds. OutputIndexFile_uniq first_platform da_builder rev True
      [\<lparr>st_query = ''z'', st_extend = ''x''\<rparr>, \<lparr>st_query = ''ac'', st_extend = ''1''\<rparr>, \<lparr>st_query = ''ab'', st_extend = ''2''\<rparr>]
        = Inr (0, out) \<and>
    LoadDAs (Some out) \<lparr>DaSearch = None, Search_Buf = None, Search_Buf_len = 0\<rparr> = (0, ds) \<and>
    DA_Search ds ''a'' Map.empty = Inr (0, [''da'' \<mapsto> ''1''])"
proof -
  let ?z = "\<lparr>st_query = ''z'', st_extend = ''x''\<rparr>" and ?b = "\<lparr>st_query = ''ac'', st_extend = ''1''\<rparr>"
    and ?a = "\<lparr>st_query = ''ab'', st_extend = ''2''\<rparr>"
  let ?v = "[?z, ?b, ?a]"
  let ?ds = "\<lparr>DaSearch = None, Search_Buf = None, Search_Buf_len = 0\<rparr>"
  have z: "Segment first_platform ''z'' = Inr (0, [])" by (simp add: Segment_def)
  have seg: "list_all (\<lambda>x. \<exists>r parts. Segment first_platform (st_query x) = Inr (r, parts)) ?v"
    by (simp add: segment_first z)
  have k: "question_key first_platform ?z = None" "question_key first_platform ?b = Some ''a''"
    "question_key first_platform ?a = Some ''a''"
    by (simp_all add: question_key_def segment_first z)
  have it: "uniq_items first_platform ?v = [(''a'', ''1''), (''a'', ''2'')]"
    by (simp add: uniq_items_def uniq_item_key k c_str_def)
  have lt: "\<not> query_le ?b ?a" "query_le ?a ?b" "query_le ?a ?z" "query_le ?b ?z"
    by (simp_all add: query_le_def str_less_def)
  have v: "mset (rev ?v) = mset ?v" "sorted_wrt query_le (rev ?v)"
    "(\<Sum>x \<leftarrow> ?v. length (st_extend x) + 1) < 2147483648" "uniq_keys_ok first_platform ?v"
    by (simp_all add: uniq_keys_ok_def it lt)
  from uniq_dictionary_lookup [where srt = rev, OF v(1,2) seg v(3,4)]
  obtain out A ds where o: "OutputIndexFile_uniq first_platform da_builder rev True ?v = Inr (0, out)"
    "greatest_answer first_platform ?v A" "LoadDAs (Some out) ?ds = (0, ds)" "da_answers ds A" by blast
  from o(2) [unfolded greatest_answer_def, THEN spec, of "''a''"] have "A ''a'' = Some ''1''"
    by (cases "A ''a''") (auto simp: k lt c_str_def)
  with o(4) have "DA_Search ds ''a'' Map.empty = Inr (0, [''da'' \<mapsto> ''1''])"
    by (simp add: da_answers_def c_str_def)
  with o show ?thesis by blast
qed

end
