(* ===== verification/Wait_List.thy ===== *)
theory Wait_List
  imports Linked_List Byte_Codec
begin

text \<open>
  The blocking list \<open>wait_list_t\<close> (\<^verbatim>\<open>src/http_server/wait_list.hpp\<close>) that hands work to threads.
  What a thread does between two points where the mutex is free is one function on the list
  (\<open>wl_put\<close>, \<open>wl_take\<close>, \<open>wl_flush\<close>); the threads that wait for the condition variable, and those a
  signal has woken but which have not got the mutex back, are sets, and \<open>wl_step\<close> is one step of
  the whole, in any order. \<open>pthread_cond_signal\<close> wakes one of the sleeping threads if there is
  one, \<open>pthread_cond_broadcast\<close> all of them, and any thread may wake on its own.
\<close>

record wait_list =
  wl_head :: addr
  wl_links :: "addr links"
  wl_alive :: bool
  wl_num :: int

definition wl_new :: "addr \<Rightarrow> addr links \<Rightarrow> wait_list" where
  "wl_new h L = \<lparr>wl_head = h, wl_links = ll_reset h L, wl_alive = True, wl_num = 0\<rparr>"

definition wl_len :: "wait_list \<Rightarrow> int" where
  "wl_len w = wl_num w"

definition wl_put :: "addr \<Rightarrow> wait_list \<Rightarrow> wait_list" where
  "wl_put n w =
     (if wl_alive w
      then w\<lparr>wl_links := ll_add (wl_head w) n (wl_links w), wl_num := i32 (wl_num w + 1)\<rparr>
      else w)"

text \<open>The three getters: the oldest element, the oldest until a deadline, the newest.\<close>

datatype getter = Get | Get_until | Get_from_head

text \<open>The condition on which a getter waits, and what it does when it no longer holds.\<close>

definition wl_blocked :: "wait_list \<Rightarrow> bool" where
  "wl_blocked w \<longleftrightarrow> wl_alive w \<and> ll_is_empty (wl_head w) (wl_links w)"

definition wl_end :: "getter \<Rightarrow> wait_list \<Rightarrow> addr option" where
  "wl_end g w =
     (case g of
        Get_from_head \<Rightarrow> ll_next (wl_head w) (wl_head w) (wl_links w)
      | _ \<Rightarrow> ll_prev (wl_head w) (wl_head w) (wl_links w))"

definition wl_take :: "getter \<Rightarrow> wait_list \<Rightarrow> (addr option \<times> wait_list) option" where
  "wl_take g w =
     (if wl_alive w
      then case wl_end g w of
             None \<Rightarrow> None
           | Some n \<Rightarrow> Some (Some n, w\<lparr>wl_links := ll_del n (wl_links w), wl_num := i32 (wl_num w - 1)\<rparr>)
      else Some (None, w))"

definition wl_flush :: "wait_list \<Rightarrow> wait_list" where
  "wl_flush w = w\<lparr>wl_alive := False\<rparr>"

section \<open>Threads\<close>

record wait_sys =
  ws_list :: wait_list
  ws_sleeping :: "(nat \<times> getter) set"
  ws_woken :: "(nat \<times> getter) set"

definition wait_init :: "addr \<Rightarrow> addr links \<Rightarrow> wait_sys" where
  "wait_init h L = \<lparr>ws_list = wl_new h L, ws_sleeping = {}, ws_woken = {}\<rparr>"

text \<open>A node that may be put: not the head, and not in the list already.\<close>

definition unlinked :: "addr \<Rightarrow> wait_list \<Rightarrow> bool" where
  "unlinked n w \<longleftrightarrow> n \<noteq> wl_head w \<and> (\<exists>xs. ll_rep (wl_head w) (wl_links w) xs \<and> n \<notin> set xs)"

datatype wait_event =
    Put addr
  | Flush
  | Return nat getter "addr option"
  | Wait nat getter
  | Wake nat getter
  | Timeout nat

inductive wl_step :: "wait_sys \<Rightarrow> wait_event \<Rightarrow> wait_sys \<Rightarrow> bool" where
  put: "unlinked n (ws_list s) \<Longrightarrow> ws_sleeping s = {} \<Longrightarrow>
     wl_step s (Put n) (s\<lparr>ws_list := wl_put n (ws_list s)\<rparr>)"
| put_signal: "unlinked n (ws_list s) \<Longrightarrow> t \<in> ws_sleeping s \<Longrightarrow>
     wl_step s (Put n) \<lparr>ws_list = wl_put n (ws_list s), ws_sleeping = ws_sleeping s - {t},
       ws_woken = insert t (ws_woken s)\<rparr>"
| flush: "wl_step s Flush \<lparr>ws_list = wl_flush (ws_list s), ws_sleeping = {},
     ws_woken = ws_woken s \<union> ws_sleeping s\<rparr>"
| enter: "t \<notin> fst ` (ws_sleeping s \<union> ws_woken s) \<Longrightarrow> \<not> wl_blocked (ws_list s) \<Longrightarrow>
     wl_take g (ws_list s) = Some (r, w) \<Longrightarrow> wl_step s (Return t g r) (s\<lparr>ws_list := w\<rparr>)"
| enter_wait: "t \<notin> fst ` (ws_sleeping s \<union> ws_woken s) \<Longrightarrow> wl_blocked (ws_list s) \<Longrightarrow>
     wl_step s (Wait t g) (s\<lparr>ws_sleeping := insert (t, g) (ws_sleeping s)\<rparr>)"
| resume: "(t, g) \<in> ws_woken s \<Longrightarrow> \<not> wl_blocked (ws_list s) \<Longrightarrow>
     wl_take g (ws_list s) = Some (r, w) \<Longrightarrow>
     wl_step s (Return t g r) (s\<lparr>ws_list := w, ws_woken := ws_woken s - {(t, g)}\<rparr>)"
| resume_wait: "(t, g) \<in> ws_woken s \<Longrightarrow> wl_blocked (ws_list s) \<Longrightarrow>
     wl_step s (Wait t g) (s\<lparr>ws_sleeping := insert (t, g) (ws_sleeping s),
       ws_woken := ws_woken s - {(t, g)}\<rparr>)"
| spurious: "(t, g) \<in> ws_sleeping s \<Longrightarrow>
     wl_step s (Wake t g) (s\<lparr>ws_sleeping := ws_sleeping s - {(t, g)},
       ws_woken := insert (t, g) (ws_woken s)\<rparr>)"
| timeout: "(t, Get_until) \<in> ws_sleeping s \<Longrightarrow>
     wl_step s (Timeout t) (s\<lparr>ws_sleeping := ws_sleeping s - {(t, Get_until)}\<rparr>)"

inductive_cases wl_step_elims:
  "wl_step s (Put n) s'" "wl_step s Flush s'" "wl_step s (Return t g r) s'" "wl_step s (Wait t g) s'"
  "wl_step s (Wake t g) s'" "wl_step s (Timeout t) s'"

inductive wl_run :: "wait_sys \<Rightarrow> wait_event list \<Rightarrow> wait_sys \<Rightarrow> bool" where
  start: "wl_run s [] s"
| step: "wl_run s es s' \<Longrightarrow> wl_step s' e s'' \<Longrightarrow> wl_run s (es @ [e]) s''"

section \<open>Properties\<close>

subsection \<open>The operations on the list\<close>

lemma i32_add [simp]: "i32 (i32 a + b) = i32 (a + b)" "i32 (i32 a - b) = i32 (a - b)" "i32 (b + i32 a) = i32 (b + a)"
  by (simp_all add: i32_def mod_simps algebra_simps)

text \<open>The list object \<open>w\<close> holds \<open>xs\<close>, newest first, and counts them.\<close>

definition wl_rep :: "wait_list \<Rightarrow> addr list \<Rightarrow> bool" where
  "wl_rep w xs \<longleftrightarrow> ll_rep (wl_head w) (wl_links w) xs \<and> wl_num w = i32 (int (length xs))"

lemma wl_rep_unique: "wl_rep w xs \<Longrightarrow> wl_rep w ys \<Longrightarrow> xs = ys"
  by (auto simp: wl_rep_def dest: ll.unique)

lemma wl_rep_new: "wl_rep (wl_new h L) []"
  by (simp add: wl_rep_def wl_new_def i32_def)

lemma wl_rep_blocked: "wl_rep w xs \<Longrightarrow> wl_blocked w \<longleftrightarrow> wl_alive w \<and> xs = []"
  by (auto simp: wl_rep_def wl_blocked_def ll.empty)

lemma wl_rep_put:
  assumes "wl_rep w xs" "unlinked n w"
  shows "wl_rep (wl_put n w) (if wl_alive w then n # xs else xs)" "wl_alive (wl_put n w) = wl_alive w"
proof -
  from assms have "n \<noteq> wl_head w" "n \<notin> set xs"
    by (auto simp: wl_rep_def unlinked_def dest: ll.unique)
  with assms(1) show "wl_rep (wl_put n w) (if wl_alive w then n # xs else xs)"
    by (auto simp: wl_rep_def wl_put_def add.commute intro: ll.add)
  show "wl_alive (wl_put n w) = wl_alive w" by (simp add: wl_put_def)
qed

lemma wl_flush_simps [simp]: "wl_rep (wl_flush w) = wl_rep w" "\<not> wl_alive (wl_flush w)"
  by (auto simp: wl_rep_def wl_flush_def fun_eq_iff)

text \<open>The element a getter takes, and what it leaves.\<close>

definition end_of :: "getter \<Rightarrow> 'a list \<Rightarrow> 'a" where
  "end_of g xs = (if g = Get_from_head then hd xs else last xs)"

definition rest_of :: "getter \<Rightarrow> 'a list \<Rightarrow> 'a list" where
  "rest_of g xs = (if g = Get_from_head then tl xs else butlast xs)"

lemma length_rest_of [simp]: "length (rest_of g xs) = length xs - 1"
  by (simp add: rest_of_def)

lemma wl_take_dead: "\<not> wl_alive w \<Longrightarrow> wl_take g w = Some (None, w)"
  by (simp add: wl_take_def)

lemma wl_take_alive:
  assumes "wl_rep w xs" "wl_alive w" "xs \<noteq> []"
  obtains w' where "wl_take g w = Some (Some (end_of g xs), w')" "wl_rep w' (rest_of g xs)" "wl_alive w'"
proof -
  let ?h = "wl_head w" and ?L = "wl_links w"
  have r: "ll_rep ?h ?L xs" and n: "wl_num w = i32 (int (length xs))"
    using assms(1) by (auto simp: wl_rep_def)
  have ne: "\<not> ll_is_empty ?h ?L" using ll.empty [OF r] assms(3) by simp
  have e: "wl_end g w = Some (end_of g xs)"
    using ll.first [OF r assms(3)] ll.final [OF r assms(3)]
    by (simp add: wl_end_def end_of_def split: getter.split)
  have d: "ll_rep ?h (ll_del (end_of g xs) ?L) (rest_of g xs)"
  proof (cases "g = Get_from_head")
    case True
    then show ?thesis
      using ll.take_first [OF r ne] ll.first [OF r assms(3)] by (auto simp: end_of_def rest_of_def)
  next
    case False
    then show ?thesis
      using ll.take_final [OF r ne] ll.final [OF r assms(3)] by (auto simp: end_of_def rest_of_def)
  qed
  have l: "int (length (rest_of g xs)) = int (length xs) - 1"
    using assms(3) by (cases xs) auto
  show ?thesis
  proof (rule that)
    show "wl_take g w = Some (Some (end_of g xs),
        w\<lparr>wl_links := ll_del (end_of g xs) ?L, wl_num := i32 (wl_num w - 1)\<rparr>)"
      using assms(2) e by (simp add: wl_take_def)
  qed (use assms(2) d n l in \<open>simp_all add: wl_rep_def\<close>)
qed

lemma wl_take_cases:
  assumes "wl_rep w xs" "\<not> wl_blocked w" "wl_take g w = Some (r, w')"
  obtains (dead) "\<not> wl_alive w" "r = None" "w' = w"
    | (alive) "wl_alive w" "xs \<noteq> []" "r = Some (end_of g xs)" "wl_rep w' (rest_of g xs)" "wl_alive w'"
proof (cases "wl_alive w")
  case True
  with assms(1,2) have ne: "xs \<noteq> []" by (simp add: wl_rep_blocked)
  from wl_take_alive [OF assms(1) True ne, of g] obtain v where
    "wl_take g w = Some (Some (end_of g xs), v)" "wl_rep v (rest_of g xs)" "wl_alive v" .
  with assms(3) True ne show ?thesis by (intro alive) simp_all
next
  case False
  with assms(3) show ?thesis by (intro dead) (simp_all add: wl_take_dead)
qed

subsection \<open>The invariant\<close>

text \<open>
  As long as a thread sleeps the list is alive, and there are at least as many threads awake
  behind the condition variable as there are elements.
\<close>

definition wait_inv :: "wait_sys \<Rightarrow> addr list \<Rightarrow> bool" where
  "wait_inv s xs \<longleftrightarrow> wl_rep (ws_list s) xs \<and> finite (ws_sleeping s) \<and> finite (ws_woken s) \<and>
     ws_sleeping s \<inter> ws_woken s = {} \<and> inj_on fst (ws_sleeping s \<union> ws_woken s) \<and>
     (ws_sleeping s \<noteq> {} \<longrightarrow> wl_alive (ws_list s) \<and> length xs \<le> card (ws_woken s))"

subsection \<open>The abstract queue\<close>

text \<open>What an event does to a queue (newest first) that is open or closed.\<close>

fun queue_step :: "bool \<times> addr list \<Rightarrow> wait_event \<Rightarrow> (bool \<times> addr list) option" where
  "queue_step (alive, xs) (Put n) = Some (alive, if alive then n # xs else xs)"
| "queue_step (alive, xs) Flush = Some (False, xs)"
| "queue_step (alive, xs) (Return t g r) =
     (if alive then if xs \<noteq> [] \<and> r = Some (end_of g xs) then Some (alive, rest_of g xs) else None
      else if r = None then Some (alive, xs) else None)"
| "queue_step (alive, xs) _ = Some (alive, xs)"

definition sim :: "wait_sys \<Rightarrow> bool \<times> addr list \<Rightarrow> bool" where
  "sim s q \<longleftrightarrow> wait_inv s (snd q) \<and> fst q = wl_alive (ws_list s)"

lemma sim_init: "sim (wait_init h L) (True, [])"
  using wl_rep_new [of h L] by (simp add: sim_def wait_inv_def wait_init_def wl_new_def)

lemma wl_step_sim:
  assumes "wl_step s e s'" "sim s (a, xs)"
  shows "\<exists>q. queue_step (a, xs) e = Some q \<and> sim s' q"
  using assms
proof (induction rule: wl_step.cases)
  case (put n s)
  then show ?case
    using wl_rep_put [of "ws_list s" xs n] by (auto simp: sim_def wait_inv_def)
next
  case (put_signal n s t)
  then have a: "wl_alive (ws_list s)" and i: "wait_inv s xs" "a" by (auto simp: sim_def wait_inv_def)
  have u: "insert t (ws_woken s) \<union> (ws_sleeping s - {t}) = ws_woken s \<union> ws_sleeping s"
    using put_signal by auto
  have "inj_on fst ((ws_sleeping s - {t}) \<union> insert t (ws_woken s))"
    using i u by (simp add: wait_inv_def Un_commute)
  moreover have "t \<notin> ws_woken s" using put_signal i by (auto simp: wait_inv_def)
  ultimately show ?case
    using put_signal a i wl_rep_put [of "ws_list s" xs n] by (auto simp: sim_def wait_inv_def)
next
  case (flush s)
  then show ?case by (auto simp: sim_def wait_inv_def Un_commute)
next
  case (enter t s g r w)
  then have i: "wait_inv s xs" and a: "a = wl_alive (ws_list s)" by (auto simp: sim_def)
  then have "wl_rep (ws_list s) xs" by (simp add: wait_inv_def)
  from this enter(5,6) show ?case
  proof (cases rule: wl_take_cases)
    case dead
    with enter i a show ?thesis by (auto simp: sim_def)
  next
    case alive
    with enter i a show ?thesis by (auto simp: sim_def wait_inv_def)
  qed
next
  case (enter_wait t s g)
  then have n: "(t, g) \<notin> ws_woken s" by force
  have "inj_on fst (insert (t, g) (ws_sleeping s \<union> ws_woken s))"
    using enter_wait by (subst inj_on_insert) (auto simp: sim_def wait_inv_def)
  moreover from enter_wait have "wait_inv s xs" "a = wl_alive (ws_list s)" "wl_blocked (ws_list s)"
    by (simp_all add: sim_def)
  moreover from this have "xs = []" "wl_alive (ws_list s)"
    by (auto simp: wait_inv_def wl_rep_blocked)
  ultimately show ?case using n enter_wait(2,3) by (simp add: sim_def wait_inv_def)
next
  case (resume t g s r w)
  then have i: "wait_inv s xs" and a: "a = wl_alive (ws_list s)" by (auto simp: sim_def)
  then have r: "wl_rep (ws_list s) xs" by (simp add: wait_inv_def)
  have j: "inj_on fst (ws_sleeping s \<union> (ws_woken s - {(t, g)}))"
    by (rule inj_on_subset) (use i in \<open>auto simp: wait_inv_def\<close>)
  from r resume(5,6) show ?case
  proof (cases rule: wl_take_cases)
    case dead
    with resume i a j show ?thesis by (auto simp: sim_def wait_inv_def)
  next
    case alive
    with resume i a j show ?thesis by (auto simp: sim_def wait_inv_def)
  qed
next
  case (resume_wait t g s)
  then have i: "wait_inv s xs" "a = wl_alive (ws_list s)" and b: "wl_blocked (ws_list s)"
    by (simp_all add: sim_def)
  then have x: "xs = []" "wl_alive (ws_list s)" by (auto simp: wait_inv_def wl_rep_blocked)
  have "insert (t, g) (ws_sleeping s) \<union> (ws_woken s - {(t, g)}) = ws_sleeping s \<union> ws_woken s"
    using resume_wait by blast
  moreover have "insert (t, g) (ws_sleeping s) \<inter> (ws_woken s - {(t, g)}) = {}"
    using i by (auto simp: wait_inv_def)
  ultimately show ?case using resume_wait(2,3) i x by (simp add: sim_def wait_inv_def)
next
  case (spurious t g s)
  then have i: "wait_inv s xs" "a = wl_alive (ws_list s)" and m: "(t, g) \<in> ws_sleeping s"
    by (simp_all add: sim_def)
  then have c: "length xs \<le> card (insert (t, g) (ws_woken s))" "wl_alive (ws_list s)"
    by (auto simp: wait_inv_def card_insert_if)
  have "(ws_sleeping s - {(t, g)}) \<union> insert (t, g) (ws_woken s) = ws_sleeping s \<union> ws_woken s"
    using m by blast
  moreover have "(ws_sleeping s - {(t, g)}) \<inter> insert (t, g) (ws_woken s) = {}"
    using i by (auto simp: wait_inv_def)
  ultimately show ?case using spurious(2,3) i c by (simp add: sim_def wait_inv_def)
next
  case (timeout t s)
  have j: "inj_on fst (ws_sleeping s - {(t, Get_until)} \<union> ws_woken s)"
    by (rule inj_on_subset) (use timeout in \<open>auto simp: sim_def wait_inv_def\<close>)
  with timeout show ?case by (auto simp: sim_def wait_inv_def)
qed

subsection \<open>Runs\<close>

text \<open>The elements put before the list was closed, and those handed to a getter.\<close>

fun accepted :: "wait_event list \<Rightarrow> addr list" where
  "accepted [] = []"
| "accepted (Put n # es) = n # accepted es"
| "accepted (Flush # es) = []"
| "accepted (e # es) = accepted es"

fun delivered :: "wait_event list \<Rightarrow> addr list" where
  "delivered [] = []"
| "delivered (Return t g (Some n) # es) = n # delivered es"
| "delivered (e # es) = delivered es"

definition from_head :: "wait_event \<Rightarrow> bool" where
  "from_head e \<longleftrightarrow> (\<exists>t r. e = Return t Get_from_head r)"

lemma accepted_snoc:
  "accepted (es @ [e]) = accepted es @ (case e of Put n \<Rightarrow> if Flush \<in> set es then [] else [n] | _ \<Rightarrow> [])"
  by (induction es rule: accepted.induct) (auto split: wait_event.split)

lemma delivered_snoc:
  "delivered (es @ [e]) = delivered es @ (case e of Return t g (Some n) \<Rightarrow> [n] | _ \<Rightarrow> [])"
  by (induction es rule: delivered.induct) (auto split: wait_event.split option.split)

lemma end_rest:
  assumes "xs \<noteq> []"
  shows "mset xs = add_mset (end_of g xs) (mset (rest_of g xs))"
    and "g \<noteq> Get_from_head \<Longrightarrow> rev xs = end_of g xs # rev (rest_of g xs)"
proof -
  have h: "mset xs = add_mset (hd xs) (mset (tl xs))" using assms by (cases xs) auto
  have l: "mset xs = add_mset (last xs) (mset (butlast xs))" "rev xs = last xs # rev (butlast xs)"
    using assms by (cases xs rule: rev_cases; simp)+
  show "mset xs = add_mset (end_of g xs) (mset (rest_of g xs))"
    unfolding end_of_def rest_of_def using h l(1) by (simp only: split: if_split) simp
  show "g \<noteq> Get_from_head \<Longrightarrow> rev xs = end_of g xs # rev (rest_of g xs)"
    using l by (simp add: end_of_def rest_of_def)
qed

text \<open>The history of a queue: nothing is lost or invented, and without \<open>Get_from_head\<close> it is first in, first out.\<close>

definition history :: "wait_event list \<Rightarrow> bool \<times> addr list \<Rightarrow> bool" where
  "history es q \<longleftrightarrow> fst q = (Flush \<notin> set es) \<and>
     mset (accepted es) = mset (delivered es) + mset (snd q) \<and>
     ((\<forall>e \<in> set es. \<not> from_head e) \<longrightarrow> accepted es = delivered es @ rev (snd q))"

lemma history_step:
  assumes "history es q" "queue_step q e = Some q'"
  shows "history (es @ [e]) q'"
proof -
  obtain a xs where q: "q = (a, xs)" by (cases q)
  show ?thesis
  proof (cases e)
    case (Return t g r)
    with assms q end_rest [of xs g] show ?thesis
      by (auto simp: history_def accepted_snoc delivered_snoc from_head_def split: if_splits)
  qed (use assms q in \<open>auto simp: history_def accepted_snoc delivered_snoc split: if_splits\<close>)
qed

lemma wl_run_sim:
  assumes "wl_run (wait_init h L) es s"
  shows "\<exists>xs. sim s (Flush \<notin> set es, xs) \<and> history es (Flush \<notin> set es, xs)"
proof -
  have "\<exists>q. sim s q \<and> history es q"
    using assms
  proof (induction "wait_init h L" es s rule: wl_run.induct)
    case start
    show ?case by (rule exI [of _ "(True, [])"]) (simp add: sim_init history_def)
  next
    case (step es s' e s'')
    then obtain q where q: "sim s' q" "history es q" by auto
    with step(3) wl_step_sim [of s' e s'' "fst q" "snd q"] history_step show ?case by fastforce
  qed
  then show ?thesis by (auto simp: history_def)
qed

text \<open>
  C9: The wait list is a queue between threads. In every run, whatever the interleaving of puts,
  blocking gets, timed-out gets, spurious wake-ups and the flush, the links form a proper doubly
  linked list whose length is the counter, every element put before the flush is either still in
  it or has been handed out once, and as long as nobody takes from the head, elements come out in
  the order they went in.
\<close>

theorem wait_list_queue:
  assumes "wl_run (wait_init h L) es s"
  shows "\<exists>xs. ll_rep (wl_head (ws_list s)) (wl_links (ws_list s)) xs \<and>
    wl_len (ws_list s) = i32 (int (length xs)) \<and>
    mset (accepted es) = mset (delivered es) + mset xs \<and>
    ((\<forall>e \<in> set es. \<not> from_head e) \<longrightarrow> accepted es = delivered es @ rev xs)"
  using wl_run_sim [OF assms]
  by (auto simp: sim_def wait_inv_def wl_rep_def wl_len_def history_def)

lemma two_puts:
  "\<exists>s. wl_run (wait_init 0 L) [Put 1, Put 2, Return 7 Get (Some 1)] s"
proof -
  let ?s0 = "wait_init 0 L"
  let ?s1 = "?s0\<lparr>ws_list := wl_put 1 (ws_list ?s0)\<rparr>"
  let ?s2 = "?s1\<lparr>ws_list := wl_put 2 (ws_list ?s1)\<rparr>"
  have r0: "wl_rep (ws_list ?s0) []" "wl_head (ws_list ?s0) = 0" "wl_alive (ws_list ?s0)"
    using wl_rep_new [of 0 L] by (simp_all add: wait_init_def wl_new_def)
  then have u1: "unlinked 1 (ws_list ?s0)" by (auto simp: unlinked_def wl_rep_def)
  with r0 have r1: "wl_rep (ws_list ?s1) [1]" "wl_head (ws_list ?s1) = 0" "wl_alive (ws_list ?s1)"
    using wl_rep_put [OF r0(1) u1] by (auto simp: wl_put_def)
  then have u2: "unlinked 2 (ws_list ?s1)" by (auto simp: unlinked_def wl_rep_def)
  with r1 have r2: "wl_rep (ws_list ?s2) [2, 1]" "wl_alive (ws_list ?s2)"
    using wl_rep_put [OF r1(1) u2] by (auto simp: wl_put_def)
  from wl_take_alive [OF r2, of Get] obtain w where
    w: "wl_take Get (ws_list ?s2) = Some (Some 1, w)" by (auto simp: end_of_def)
  have n: "ws_sleeping ?s0 = {}" "ws_woken ?s0 = {}" by (simp_all add: wait_init_def)
  have "wl_step ?s0 (Put 1) ?s1" by (rule wl_step.put [OF u1 n(1)])
  moreover have "wl_step ?s1 (Put 2) ?s2" by (rule wl_step.put [OF u2]) (simp add: n)
  moreover have "wl_step ?s2 (Return 7 Get (Some 1)) (?s2\<lparr>ws_list := w\<rparr>)"
    by (rule wl_step.enter) (use n r2 w in \<open>simp_all add: wl_rep_blocked\<close>)
  ultimately have "wl_run ?s0 ((([] @ [Put 1]) @ [Put 2]) @ [Return 7 Get (Some 1)]) (?s2\<lparr>ws_list := w\<rparr>)"
    by (blast intro: wl_run.intros)
  then show ?thesis by auto
qed

theorem wait_list_queue_witness:
  "\<forall>L. \<exists>s xs. wl_run (wait_init 0 L) [Put 1, Put 2, Return 7 Get (Some 1)] s \<and>
    ll_rep (wl_head (ws_list s)) (wl_links (ws_list s)) xs \<and> [1, 2] = [1] @ rev xs"
proof
  fix L
  from two_puts [of L] obtain s where s: "wl_run (wait_init 0 L) [Put 1, Put 2, Return 7 Get (Some 1)] s" by blast
  from wait_list_queue [OF s] s
  show "\<exists>s xs. wl_run (wait_init 0 L) [Put 1, Put 2, Return 7 Get (Some 1)] s \<and>
      ll_rep (wl_head (ws_list s)) (wl_links (ws_list s)) xs \<and> [1, 2] = [1] @ rev xs"
    by (auto simp: from_head_def)
qed

lemma awake:
  assumes "sim s (a, xs)" "\<not> wl_blocked (ws_list s)" "ws_sleeping s \<union> ws_woken s \<noteq> {}"
  obtains t g where "(t, g) \<in> ws_woken s"
proof (cases "ws_sleeping s = {}")
  case True
  with assms(3) that show ?thesis by auto
next
  case False
  with assms(1,2) have "0 < length xs" "length xs \<le> card (ws_woken s)"
    by (auto simp: sim_def wait_inv_def wl_rep_blocked)
  then have "ws_woken s \<noteq> {}" by auto
  with that show ?thesis by auto
qed

lemma can_return:
  assumes "sim s (a, xs)" "\<not> wl_blocked (ws_list s)" "ws_sleeping s \<union> ws_woken s \<noteq> {}"
  obtains t g r s' where "(t, g) \<in> ws_woken s" "wl_step s (Return t g r) s'" "r = None \<longleftrightarrow> \<not> a"
    "card (ws_sleeping s' \<union> ws_woken s') < card (ws_sleeping s \<union> ws_woken s)"
proof -
  obtain t g where t: "(t, g) \<in> ws_woken s" by (rule awake [OF assms])
  have i: "wl_rep (ws_list s) xs" "a = wl_alive (ws_list s)" "finite (ws_sleeping s \<union> ws_woken s)"
      "ws_sleeping s \<inter> ws_woken s = {}"
    using assms(1) by (auto simp: sim_def wait_inv_def)
  have "\<exists>r w. wl_take g (ws_list s) = Some (r, w) \<and> (r = None \<longleftrightarrow> \<not> a)"
  proof (cases a)
    case True
    with i assms(2) have "wl_alive (ws_list s)" "xs \<noteq> []" by (auto simp: wl_rep_blocked)
    from wl_take_alive [OF i(1) this, of g] obtain w where
      "wl_take g (ws_list s) = Some (Some (end_of g xs), w)" .
    with True show ?thesis by blast
  next
    case False
    with i(2) show ?thesis by (auto simp: wl_take_dead)
  qed
  then obtain r w where r: "wl_take g (ws_list s) = Some (r, w)" "r = None \<longleftrightarrow> \<not> a" by blast
  let ?s = "s\<lparr>ws_list := w, ws_woken := ws_woken s - {(t, g)}\<rparr>"
  have "ws_sleeping ?s \<union> ws_woken ?s = (ws_sleeping s \<union> ws_woken s) - {(t, g)}"
    using t i(4) by auto
  then have "card (ws_sleeping ?s \<union> ws_woken ?s) < card (ws_sleeping s \<union> ws_woken s)"
    using t i(3) by (simp only:) (rule card_Diff1_less, auto)
  with that [OF t wl_step.resume [OF t assms(2) r(1)] r(2)] show ?thesis by blast
qed

lemma wl_run_Cons: "wl_run s' es u \<Longrightarrow> wl_step s e s' \<Longrightarrow> wl_run s (e # es) u"
proof (induction s' es u rule: wl_run.induct)
  case (start s')
  then show ?case using wl_run.step [OF wl_run.start] by simp
next
  case (step s' es v d w)
  then show ?case using wl_run.step [of s "e # es"] by simp
qed

lemma drain:
  assumes "sim s (False, xs)"
  shows "\<exists>es s'. wl_run s es s' \<and> (\<forall>e \<in> set es. \<exists>t g. e = Return t g None) \<and>
    ws_sleeping s' = {} \<and> ws_woken s' = {}"
  using assms
proof (induction "card (ws_sleeping s \<union> ws_woken s)" arbitrary: s xs rule: less_induct)
  case less
  show ?case
  proof (cases "ws_sleeping s \<union> ws_woken s = {}")
    case True
    then show ?thesis by (intro exI [of _ "[]"] exI [of _ s]) (auto intro: wl_run.start)
  next
    case False
    have "\<not> wl_blocked (ws_list s)" using less(2) by (simp add: sim_def wl_blocked_def)
    from can_return [OF less(2) this False] obtain t g r s' where
      "(t, g) \<in> ws_woken s" and s': "wl_step s (Return t g r) s'" "r = None \<longleftrightarrow> \<not> False"
      "card (ws_sleeping s' \<union> ws_woken s') < card (ws_sleeping s \<union> ws_woken s)" .
    from wl_step_sim [OF s'(1) less(2)] obtain ys where "sim s' (False, ys)" by (auto split: if_splits)
    from less(1) [OF s'(3) this] obtain es u where u: "wl_run s' es u"
      "\<forall>e \<in> set es. \<exists>t g. e = Return t g None" "ws_sleeping u = {} \<and> ws_woken u = {}" by blast
    from wl_run_Cons [OF u(1) s'(1)] have "wl_run s (Return t g r # es) u" .
    with u(2,3) s'(2) show ?thesis
      by (intro exI [of _ "Return t g r # es"] exI [of _ u]) auto
  qed
qed

text \<open>
  C14: No wake-up is lost. Whenever a thread waits although the list is not empty, or has been
  flushed, some thread has been woken and can return at once, with an element unless the list was
  flushed, leaving fewer threads waiting; and after a flush the waiting threads can all return,
  empty-handed.
\<close>

theorem wait_list_progress:
  assumes "wl_run (wait_init h L) es s" "ws_sleeping s \<union> ws_woken s \<noteq> {}" "\<not> wl_blocked (ws_list s)"
  shows "(\<exists>t g r s'. (t, g) \<in> ws_woken s \<and> wl_step s (Return t g r) s' \<and> (r = None \<longleftrightarrow> Flush \<in> set es) \<and>
      card (ws_sleeping s' \<union> ws_woken s') < card (ws_sleeping s \<union> ws_woken s)) \<and>
    (Flush \<in> set es \<longrightarrow> (\<exists>es' s'. wl_run s es' s' \<and> (\<forall>e \<in> set es'. \<exists>t g. e = Return t g None) \<and>
      ws_sleeping s' = {} \<and> ws_woken s' = {}))"
proof -
  from wl_run_sim [OF assms(1)] obtain xs where x: "sim s (Flush \<notin> set es, xs)" by blast
  from can_return [OF x assms(3,2)] obtain t g r s' where
    "(t, g) \<in> ws_woken s" "wl_step s (Return t g r) s'" "r = None \<longleftrightarrow> \<not> Flush \<notin> set es"
    "card (ws_sleeping s' \<union> ws_woken s') < card (ws_sleeping s \<union> ws_woken s)" .
  moreover have "Flush \<in> set es \<Longrightarrow> \<exists>es' s'. wl_run s es' s' \<and>
      (\<forall>e \<in> set es'. \<exists>t g. e = Return t g None) \<and> ws_sleeping s' = {} \<and> ws_woken s' = {}"
    using drain [of s xs] x by simp
  ultimately show ?thesis by blast
qed

lemma wait_then_flush:
  "\<exists>s. wl_run (wait_init 0 L) [Wait 7 Get, Flush] s \<and> ws_sleeping s = {} \<and> ws_woken s = {(7, Get)} \<and>
    \<not> wl_blocked (ws_list s)"
proof -
  let ?s0 = "wait_init 0 L"
  let ?s1 = "?s0\<lparr>ws_sleeping := insert (7, Get) (ws_sleeping ?s0)\<rparr>"
  let ?s2 = "\<lparr>ws_list = wl_flush (ws_list ?s1), ws_sleeping = {}, ws_woken = ws_woken ?s1 \<union> ws_sleeping ?s1\<rparr>"
  have "wl_blocked (ws_list ?s0)"
    using wl_rep_blocked [OF wl_rep_new [of 0 L]] by (simp add: wait_init_def wl_new_def)
  then have "wl_step ?s0 (Wait 7 Get) ?s1" by (intro wl_step.enter_wait) (auto simp: wait_init_def)
  moreover have "wl_step ?s1 Flush ?s2" by (rule wl_step.flush)
  ultimately have "wl_run ?s0 (([] @ [Wait 7 Get]) @ [Flush]) ?s2"
    by (blast intro: wl_run.intros)
  moreover have "ws_sleeping ?s2 = {}" "ws_woken ?s2 = {(7, Get)}" "\<not> wl_blocked (ws_list ?s2)"
    by (simp_all add: wait_init_def wl_blocked_def)
  ultimately show ?thesis by (intro exI [of _ ?s2]) simp
qed

theorem wait_list_progress_witness:
  "\<forall>L. \<exists>s s'. wl_run (wait_init 0 L) [Wait 7 Get, Flush] s \<and>
    wl_step s (Return 7 Get None) s' \<and> card (ws_sleeping s' \<union> ws_woken s') < 1"
proof
  fix L
  from wait_then_flush [of L] obtain s where s: "wl_run (wait_init 0 L) [Wait 7 Get, Flush] s"
    "ws_sleeping s = {}" "ws_woken s = {(7, Get)}" "\<not> wl_blocked (ws_list s)" by blast
  then have "ws_sleeping s \<union> ws_woken s \<noteq> {}" by simp
  from conjunct1 [OF wait_list_progress [OF s(1) this s(4)]]
  obtain t g r s' where "(t, g) \<in> ws_woken s" "wl_step s (Return t g r) s'" "r = None"
    "card (ws_sleeping s' \<union> ws_woken s') < card (ws_sleeping s \<union> ws_woken s)" by auto
  with s show "\<exists>s s'. wl_run (wait_init 0 L) [Wait 7 Get, Flush] s \<and>
      wl_step s (Return 7 Get None) s' \<and> card (ws_sleeping s' \<union> ws_woken s') < 1" by auto
qed

end
