(* ===== verification/Ctype.thy ===== *)
theory Ctype
  imports Byte_Codec
begin

text \<open>
  What the components use of \<^verbatim>\<open>ctype.h\<close>, \<^verbatim>\<open>stdlib.h\<close> and \<^verbatim>\<open>string.h\<close>: the character classes of the
  C locale, in which no byte above 127 is a letter, a digit or a space, \<^verbatim>\<open>atoi\<close>, \<^verbatim>\<open>strchr\<close>, and
  the pieces of a string between separators.
\<close>

definition isdigit :: "char \<Rightarrow> bool" where
  "isdigit c \<longleftrightarrow> 48 \<le> schar c \<and> schar c \<le> 57"

definition isupper :: "char \<Rightarrow> bool" where
  "isupper c \<longleftrightarrow> 65 \<le> schar c \<and> schar c \<le> 90"

definition islower :: "char \<Rightarrow> bool" where
  "islower c \<longleftrightarrow> 97 \<le> schar c \<and> schar c \<le> 122"

definition isalnum :: "char \<Rightarrow> bool" where
  "isalnum c \<longleftrightarrow> isdigit c \<or> isupper c \<or> islower c"

definition tolower :: "char \<Rightarrow> int" where
  "tolower c = (if isupper c then schar c + 32 else schar c)"

definition isspace :: "char \<Rightarrow> bool" where
  "isspace c \<longleftrightarrow> c \<in> {CHR '' '', CHR 0x09, CHR 0x0A, CHR 0x0B, CHR 0x0C, CHR 0x0D}"

fun read_digits :: "int \<Rightarrow> string \<Rightarrow> int" where
  "read_digits n [] = n"
| "read_digits n (c # s) = (if isdigit c then read_digits (10 * n + (schar c - 48)) s else n)"

text \<open>\<^verbatim>\<open>atoi\<close> is \<^verbatim>\<open>strtol\<close>, which saturates at 64 bits, cut down to an \<^verbatim>\<open>int\<close>.\<close>

definition clamp64 :: "int \<Rightarrow> int" where
  "clamp64 x = max (- 9223372036854775808) (min 9223372036854775807 x)"

definition atoi :: "string \<Rightarrow> int" where
  "atoi s =
     (case dropWhile isspace s of
        [] \<Rightarrow> 0
      | c # t \<Rightarrow> i32 (clamp64 (if c = CHR ''-'' then - read_digits 0 t
                            else if c = CHR ''+'' then read_digits 0 t
                            else read_digits 0 (c # t))))"


fun index_of :: "char \<Rightarrow> string \<Rightarrow> nat option" where
  "index_of d [] = None"
| "index_of d (c # s) = (if c = d then Some 0 else map_option Suc (index_of d s))"

text \<open>The pieces between the separators; there is one more than separators.\<close>

fun split_on :: "char \<Rightarrow> string \<Rightarrow> string list" where
  "split_on d [] = [[]]"
| "split_on d (c # s) = (if c = d then [] # split_on d s else (c # hd (split_on d s)) # tl (split_on d s))"

lemma split_on_not_Nil [simp]: "split_on d s \<noteq> []"
  by (cases s) auto

lemma split_on_append: "d \<notin> set s \<Longrightarrow> split_on d (s @ d # t) = s # split_on d t"
  by (induction s) auto

lemma split_on_single: "d \<notin> set s \<Longrightarrow> split_on d s = [s]"
  by (induction s) auto

lemma index_of_append: "d \<notin> set s \<Longrightarrow> index_of d (s @ d # t) = Some (length s)"
  by (induction s) auto

subsection \<open>Decimal numbers\<close>

text \<open>\<^verbatim>\<open>%u\<close> and \<^verbatim>\<open>%d\<close> of a number that is not negative.\<close>

function show_nat :: "nat \<Rightarrow> string" where
  "show_nat n = (if n < 10 then [char_of (48 + n)] else show_nat (n div 10) @ [char_of (48 + n mod 10)])"
  by auto
termination by (relation "measure id") auto

declare show_nat.simps [simp del] show_nat.simps [code]

lemma schar_char_of: "n < 128 \<Longrightarrow> schar (char_of n) = int n"
proof -
  assume "n < 128"
  then have n: "(of_char (char_of n) :: nat) = n" by (simp add: of_char_of take_bit_eq_mod)
  have i: "(of_char c :: int) = int (of_char c)" for c by (rule of_nat_of_char [symmetric])
  show ?thesis unfolding schar_def char_neg_def i n using \<open>n < 128\<close> by simp
qed

lemma digit_char:
  assumes "n < 10"
  shows "isdigit (char_of (48 + n))" "schar (char_of (48 + n)) = 48 + int n"
  using assms schar_char_of [of "48 + n"] by (simp_all add: isdigit_def)

lemma show_nat_not_Nil [simp]: "show_nat n \<noteq> []"
  by (subst show_nat.simps) simp

lemma show_nat_digits: "c \<in> set (show_nat n) \<Longrightarrow> isdigit c"
proof (induction n rule: show_nat.induct)
  case (1 n)
  from 1(2) show ?case
    by (subst (asm) show_nat.simps) (use 1(1) digit_char [of n] digit_char [of "n mod 10"] in \<open>auto split: if_splits\<close>)
qed

lemma read_digits_append:
  "(\<And>c. c \<in> set s \<Longrightarrow> isdigit c) \<Longrightarrow> read_digits m (s @ t) = read_digits (read_digits m s) t"
  by (induction s arbitrary: m) auto

lemma read_show_nat: "read_digits 0 (show_nat n) = int n"
proof (induction n rule: show_nat.induct)
  case (1 n)
  show ?case
  proof (cases "n < 10")
    case True
    then show ?thesis by (subst show_nat.simps) (simp add: digit_char)
  next
    case False
    then have "read_digits 0 (show_nat n) = read_digits (int (n div 10)) [char_of (48 + n mod 10)]"
      using 1 by (subst show_nat.simps) (simp add: read_digits_append show_nat_digits)
    then show ?thesis by (simp add: digit_char zdiv_int zmod_int)
  qed
qed

lemma isdigit_not_space: "isdigit c \<Longrightarrow> \<not> isspace c" "isdigit c \<Longrightarrow> c \<noteq> CHR ''-''" "isdigit c \<Longrightarrow> c \<noteq> CHR ''+''"
    "isdigit c \<Longrightarrow> c \<noteq> NUL"
  by (auto simp: isdigit_def isspace_def schar_def char_neg_def)

lemma atoi_show_nat:
  assumes "n < 2147483648"
  shows "atoi (show_nat n) = int n"
proof -
  obtain c t where ct: "show_nat n = c # t" by (cases "show_nat n") auto
  then have d: "isdigit c" using show_nat_digits [of c n] by simp
  then have "atoi (show_nat n) = i32 (clamp64 (read_digits 0 (show_nat n)))"
    using isdigit_not_space [of c] by (simp add: atoi_def ct)
  also have "\<dots> = int n" using assms by (simp add: read_show_nat clamp64_def in_i32_nat)
  finally show ?thesis .
qed

lemma no_nul_show_nat [simp]: "no_nul (show_nat n)"
  unfolding no_nul_def using isdigit_not_space(4) show_nat_digits by blast

end
