(* ===== verification/Config_Map.thy ===== *)
theory Config_Map
  imports Ctype
begin

text \<open>
  The configuration files of the server: the tree \<open>config_map\<close>
  (\<^verbatim>\<open>src/http_server/config_map.hpp\<close>) and \<open>Configuration\<close>
  (\<^verbatim>\<open>src/http_server/configuration.cpp\<close>). A node and the chain of its \<open>right\<close> siblings is a list
  of nodes, the \<open>left\<close> child of a node such a list; the map is the list below its root. The pointer
  \<open>cur\<close> is the path of section keys that leads to its section. New nodes are put in front of a
  list, so the pointer \<open>iter\<close> is a path and the number of nodes from it to the end of the list.
\<close>

definition strip :: "string \<Rightarrow> string" where
  "strip s =
     (let head = length (takeWhile isspace s);
          tail = length s - length (takeWhile isspace (rev s))
      in substr s head (tail - head))"

section \<open>The tree\<close>

datatype config_map_node_type = SECTION | VALUE

datatype config_map_node =
  Config_node (cn_type: config_map_node_type) (cn_key: string) (cn_value: string) (cn_left: "config_map_node list")

record config_map =
  cm_nodes :: "config_map_node list"
  cm_cur :: "string list"
  cm_iter :: "string list \<times> nat"

definition cm_new :: config_map where
  "cm_new = \<lparr>cm_nodes = [], cm_cur = [], cm_iter = ([], 0)\<rparr>"

fun find_child :: "config_map_node_type \<Rightarrow> string \<Rightarrow> config_map_node list \<Rightarrow> config_map_node option" where
  "find_child ty k [] = None"
| "find_child ty k (n # ns) = (if cn_type n \<noteq> ty \<or> cn_key n \<noteq> k then find_child ty k ns else Some n)"

fun map_child :: "(config_map_node \<Rightarrow> config_map_node) \<Rightarrow> config_map_node_type \<Rightarrow> string \<Rightarrow>
    config_map_node list \<Rightarrow> config_map_node list" where
  "map_child f ty k [] = []"
| "map_child f ty k (n # ns) = (if cn_type n \<noteq> ty \<or> cn_key n \<noteq> k then n # map_child f ty k ns else f n # ns)"

text \<open>Following a path, and changing the list it leads to.\<close>

fun children_at :: "string list \<Rightarrow> config_map_node list \<Rightarrow> config_map_node list" where
  "children_at [] ns = ns"
| "children_at (k # p) ns = (case find_child SECTION k ns of None \<Rightarrow> [] | Some n \<Rightarrow> children_at p (cn_left n))"

fun update_at :: "(config_map_node list \<Rightarrow> config_map_node list) \<Rightarrow> string list \<Rightarrow>
    config_map_node list \<Rightarrow> config_map_node list" where
  "update_at f [] ns = f ns"
| "update_at f (k # p) ns =
     map_child (\<lambda>n. Config_node (cn_type n) (cn_key n) (cn_value n) (update_at f p (cn_left n))) SECTION k ns"

definition section_step :: "string \<Rightarrow> config_map \<Rightarrow> config_map" where
  "section_step sub cm =
     (if sub = [] then cm
      else let nodes = (case find_child SECTION sub (children_at (cm_cur cm) (cm_nodes cm)) of
                          None \<Rightarrow> update_at (\<lambda>ns. Config_node SECTION sub [] [] # ns) (cm_cur cm) (cm_nodes cm)
                        | Some pos \<Rightarrow> cm_nodes cm);
               cur = cm_cur cm @ [sub]
           in \<lparr>cm_nodes = nodes, cm_cur = cur, cm_iter = (cur, length (children_at cur nodes))\<rparr>)"

definition set_section :: "string \<Rightarrow> config_map \<Rightarrow> config_map" where
  "set_section key cm =
     fold (\<lambda>piece. section_step (strip piece))
       (split_on (CHR ''/'') (map (\<lambda>c. if c = CHR 0x5C then CHR ''/'' else c) (c_str key))) (cm\<lparr>cm_cur := []\<rparr>)"

definition set_value :: "string \<Rightarrow> string \<Rightarrow> config_map \<Rightarrow> config_map" where
  "set_value key v cm =
     cm\<lparr>cm_nodes := update_at (\<lambda>ns.
          case find_child VALUE key ns of
            None \<Rightarrow> Config_node VALUE key v [] # ns
          | Some pos \<Rightarrow> map_child (\<lambda>n. Config_node (cn_type n) (cn_key n) v (cn_left n)) VALUE key ns)
        (cm_cur cm) (cm_nodes cm)\<rparr>"

definition get_value :: "string \<Rightarrow> config_map \<Rightarrow> string option" where
  "get_value key cm =
     map_option (\<lambda>n. c_str (cn_value n)) (find_child VALUE key (children_at (cm_cur cm) (cm_nodes cm)))"

definition enum_value :: "config_map \<Rightarrow> (string \<times> string) option \<times> config_map" where
  "enum_value cm =
     (case cm_iter cm of
        (p, k) \<Rightarrow>
          let ns = children_at p (cm_nodes cm)
          in case dropWhile (\<lambda>n. cn_type n = SECTION) (drop (length ns - k) ns) of
               [] \<Rightarrow> (None, cm\<lparr>cm_iter := (p, 0)\<rparr>)
             | n # ms \<Rightarrow> (Some (c_str (cn_key n), c_str (cn_value n)), cm\<lparr>cm_iter := (p, length ms)\<rparr>))"

section \<open>Reading a file\<close>

definition import_value :: "string \<Rightarrow> string \<Rightarrow> config_map \<Rightarrow> config_map" where
  "import_value key line cm =
     (let line1 = strip line
      in if line1 = [] \<or> hd line1 \<noteq> CHR ''='' then cm
         else let line2 = strip (tl line1)
              in if line2 = [] \<or> hd line2 \<noteq> CHR 0x22 then cm
                 else case index_of (CHR 0x22) (tl line2) of
                        None \<Rightarrow> cm
                      | Some i \<Rightarrow> set_value (c_str key) (c_str (take i (tl line2))) cm)"

definition import_line :: "string \<Rightarrow> config_map \<Rightarrow> config_map" where
  "import_line l cm =
     (case strip l of
        [] \<Rightarrow> cm
      | c # line \<Rightarrow>
          if c = CHR ''['' then
            (case index_of (CHR '']'') line of
               None \<Rightarrow> cm
             | Some i \<Rightarrow> if i = 0 then cm else set_section (strip (take i line)) cm)
          else if c = CHR 0x22 then
            (case index_of (CHR 0x22) line of
               None \<Rightarrow> cm
             | Some i \<Rightarrow> if i = 0 then cm else import_value (take i line) (drop (Suc i) line) cm)
          else cm)"

definition config_import :: "bytes option \<Rightarrow> config_map \<Rightarrow> int \<times> config_map" where
  "config_import f cm =
     (case f of
        None \<Rightarrow> (-1, cm)
      | Some bs \<Rightarrow> (0, fold import_line (split_on (CHR 0x0A) bs) cm))"

section \<open>The settings of the server\<close>

record configuration =
  listen_port :: int
  thread_stack_size :: int
  receiver_num :: int

definition readParameter :: "bytes option \<Rightarrow> string \<Rightarrow> configuration \<Rightarrow> int \<times> configuration" where
  "readParameter f key c =
     (let cm = set_section (c_str (c_str key @ ''/Parameter'')) (snd (config_import f cm_new))
      in case get_value ''ListenPort'' cm of
           None \<Rightarrow> (-1, c)
         | Some v \<Rightarrow>
             let c1 = c\<lparr>listen_port := u32 (atoi v)\<rparr>
             in case get_value ''ThreadStackSize'' cm of
                  None \<Rightarrow> (0, c1\<lparr>thread_stack_size := 256 * 1024\<rparr>)
                | Some v2 \<Rightarrow> (0, c1\<lparr>thread_stack_size := u32 (i32 (atoi v2 * 1024))\<rparr>))"

definition readThreadNumber :: "bytes option \<Rightarrow> string \<Rightarrow> configuration \<Rightarrow> int \<times> configuration" where
  "readThreadNumber f key c =
     (let cm = set_section (c_str (c_str key @ ''/ThreadNumber'')) (snd (config_import f cm_new))
      in case get_value ''ReceiverThread'' cm of
           None \<Rightarrow> (0, c\<lparr>receiver_num := 3\<rparr>)
         | Some v \<Rightarrow> (0, c\<lparr>receiver_num := u32 (atoi v)\<rparr>))"

definition config_open :: "bytes option \<Rightarrow> string \<Rightarrow> configuration \<Rightarrow> int \<times> configuration" where
  "config_open f key c =
     (case readParameter f key c of
        (r, c1) \<Rightarrow>
          if r \<noteq> 0 then (-1, c1)
          else case readThreadNumber f key c1 of
                 (r2, c2) \<Rightarrow> if r2 \<noteq> 0 then (-1, c2) else (0, c2))"

definition readString :: "bytes option \<Rightarrow> string \<Rightarrow> string \<Rightarrow> string" where
  "readString f path name =
     (case config_import f cm_new of
        (r, cm) \<Rightarrow>
          if r \<noteq> 0 then []
          else case get_value (c_str name) (set_section (c_str path) cm) of
                 None \<Rightarrow> []
               | Some v \<Rightarrow> v)"

definition SeparateIP :: "string \<Rightarrow> (string \<times> int) option" where
  "SeparateIP v =
     (case index_of (CHR '':'') v of
        None \<Rightarrow> None
      | Some i \<Rightarrow> Some (take i v, atoi (drop (Suc i) v)))"

section \<open>Properties\<close>

subsection \<open>The tree as a table\<close>

lemma find_child_Some: "find_child ty k ns = Some n \<Longrightarrow> cn_type n = ty \<and> cn_key n = k"
  by (induction ty k ns rule: find_child.induct) (auto split: if_splits)

lemma find_map_child:
  assumes "\<And>n. cn_type (f n) = cn_type n" "\<And>n. cn_key (f n) = cn_key n"
  shows "find_child ty' k' (map_child f ty k ns) =
    (if ty' = ty \<and> k' = k then map_option f (find_child ty k ns) else find_child ty' k' ns)"
  using assms by (induction f ty k ns rule: map_child.induct) auto

fun path_ok :: "string list \<Rightarrow> config_map_node list \<Rightarrow> bool" where
  "path_ok [] ns = True"
| "path_ok (k # p) ns = (case find_child SECTION k ns of None \<Rightarrow> False | Some n \<Rightarrow> path_ok p (cn_left n))"

text \<open>The value of a key in the section a path leads to.\<close>

definition value_at :: "config_map_node list \<Rightarrow> string list \<times> string \<Rightarrow> string option" where
  "value_at ns q = map_option cn_value (find_child VALUE (snd q) (children_at (fst q) ns))"

lemma value_at_Nil [simp]: "value_at [] q = None"
  by (cases "fst q") (simp_all add: value_at_def)

lemma value_at_Cons:
  "value_at ns (k # p, key) =
     (case find_child SECTION k ns of None \<Rightarrow> None | Some n \<Rightarrow> value_at (cn_left n) (p, key))"
  by (simp add: value_at_def split: option.split)

lemma children_update_at: "path_ok p ns \<Longrightarrow> children_at p (update_at f p ns) = f (children_at p ns)"
  by (induction p arbitrary: ns) (auto simp: find_map_child split: option.splits)

text \<open>Changes that keep the sections of a list.\<close>

lemma path_ok_update_at:
  assumes "\<And>ns k. find_child SECTION k (f ns) = find_child SECTION k ns"
  shows "path_ok p ns \<Longrightarrow> path_ok q (update_at f p ns) = path_ok q ns"
proof (induction p arbitrary: q ns)
  case Nil
  then show ?case by (cases q) (simp_all add: assms)
next
  case (Cons k p)
  then show ?case
    by (cases q) (auto simp: find_map_child split: option.splits)
qed

lemma value_at_update_at:
  assumes "\<And>ns k. find_child SECTION k (f ns) = find_child SECTION k ns"
  shows "path_ok p ns \<Longrightarrow> value_at (update_at f p ns) (q, key) =
    (if q = p then value_at (f (children_at p ns)) ([], key) else value_at ns (q, key))"
proof (induction p arbitrary: q ns)
  case Nil
  then show ?case by (cases q) (auto simp: assms value_at_Cons)
next
  case (Cons k p)
  then obtain n where n: "find_child SECTION k ns = Some n" "path_ok p (cn_left n)"
    by (auto split: option.splits)
  show ?case
  proof (cases q)
    case Nil
    then show ?thesis by (simp add: value_at_def find_map_child)
  next
    case (Cons j q')
    with n Cons.IH [OF n(2)] show ?thesis
      by (auto simp: value_at_Cons find_map_child)
  qed
qed

text \<open>Adding an empty section in front.\<close>

lemma value_at_push_section:
  assumes "path_ok p ns" "find_child SECTION sub (children_at p ns) = None"
  shows "value_at (update_at (\<lambda>ns. Config_node SECTION sub [] [] # ns) p ns) q = value_at ns q"
    and "path_ok (p @ [sub]) (update_at (\<lambda>ns. Config_node SECTION sub [] [] # ns) p ns)"
proof -
  obtain qp key where q: "q = (qp, key)" by (cases q)
  show "value_at (update_at (\<lambda>ns. Config_node SECTION sub [] [] # ns) p ns) q = value_at ns q"
    unfolding q using assms
  proof (induction p arbitrary: qp ns)
    case Nil
    then show ?case by (cases qp) (auto simp: value_at_Cons, simp add: value_at_def)
  next
    case (Cons k p)
    then show ?case
      by (cases qp) (auto simp: value_at_Cons find_map_child split: option.splits, simp add: value_at_def find_map_child)
  qed
  show "path_ok (p @ [sub]) (update_at (\<lambda>ns. Config_node SECTION sub [] [] # ns) p ns)"
    using assms(1) by (induction p arbitrary: ns) (auto simp: find_map_child split: option.splits)
qed

lemma path_ok_append:
  "path_ok p ns \<Longrightarrow> find_child SECTION sub (children_at p ns) = Some n \<Longrightarrow> path_ok (p @ [sub]) ns"
  by (induction p arbitrary: ns) (auto split: option.splits)

subsection \<open>The operations on the table\<close>

definition cm_ok :: "config_map \<Rightarrow> bool" where
  "cm_ok cm \<longleftrightarrow> path_ok (cm_cur cm) (cm_nodes cm)"

lemma section_step_table:
  assumes "cm_ok cm"
  shows "cm_ok (section_step sub cm)" "value_at (cm_nodes (section_step sub cm)) = value_at (cm_nodes cm)"
    "cm_cur (section_step sub cm) = (if sub = [] then cm_cur cm else cm_cur cm @ [sub])"
  using assms value_at_push_section path_ok_append
  by (auto simp: section_step_def cm_ok_def Let_def fun_eq_iff split: option.split)

lemma section_steps_table:
  assumes "cm_ok cm"
  shows "cm_ok (fold (\<lambda>piece. section_step (strip piece)) ps cm) \<and>
    value_at (cm_nodes (fold (\<lambda>piece. section_step (strip piece)) ps cm)) = value_at (cm_nodes cm) \<and>
    cm_cur (fold (\<lambda>piece. section_step (strip piece)) ps cm) = cm_cur cm @ filter (\<lambda>s. s \<noteq> []) (map strip ps)"
  using assms
proof (induction ps arbitrary: cm)
  case (Cons p ps)
  then show ?case
    using Cons.IH [of "section_step (strip p) cm"] section_step_table [of cm "strip p"] by simp
qed simp

text \<open>The keys of the sections a path names.\<close>

definition path_keys :: "string \<Rightarrow> string list" where
  "path_keys key =
     filter (\<lambda>s. s \<noteq> []) (map strip (split_on (CHR ''/'') (map (\<lambda>c. if c = CHR 0x5C then CHR ''/'' else c) (c_str key))))"

lemma set_section_table:
  assumes "cm_ok cm"
  shows "cm_ok (set_section key cm)" "value_at (cm_nodes (set_section key cm)) = value_at (cm_nodes cm)"
    "cm_cur (set_section key cm) = path_keys key"
proof -
  have "cm_ok (cm\<lparr>cm_cur := []\<rparr>)" by (simp add: cm_ok_def)
  from section_steps_table [OF this]
  show "cm_ok (set_section key cm)" "value_at (cm_nodes (set_section key cm)) = value_at (cm_nodes cm)"
      "cm_cur (set_section key cm) = path_keys key"
    by (simp_all add: set_section_def path_keys_def)
qed

lemma set_value_table:
  assumes "cm_ok cm"
  shows "cm_ok (set_value key v cm)"
    "value_at (cm_nodes (set_value key v cm)) = (value_at (cm_nodes cm))((cm_cur cm, key) \<mapsto> v)"
    "cm_cur (set_value key v cm) = cm_cur cm"
proof -
  let ?f = "\<lambda>ns. case find_child VALUE key ns of
      None \<Rightarrow> Config_node VALUE key v [] # ns
    | Some pos \<Rightarrow> map_child (\<lambda>n. Config_node (cn_type n) (cn_key n) v (cn_left n)) VALUE key ns"
  have s: "find_child SECTION k (?f ns) = find_child SECTION k ns" for ns k
    by (simp add: find_map_child split: option.split)
  have p: "path_ok (cm_cur cm) (cm_nodes cm)" using assms by (simp add: cm_ok_def)
  show "cm_ok (set_value key v cm)"
    using path_ok_update_at [of ?f, OF s p] p by (simp add: cm_ok_def set_value_def)
  show "cm_cur (set_value key v cm) = cm_cur cm" by (simp add: set_value_def)
  have "value_at (cm_nodes (set_value key v cm)) (q, k) = ((value_at (cm_nodes cm))((cm_cur cm, key) \<mapsto> v)) (q, k)" for q k
    using value_at_update_at [of ?f, OF s p]
    by (auto simp: set_value_def value_at_def find_map_child split: option.split)
  then show "value_at (cm_nodes (set_value key v cm)) = (value_at (cm_nodes cm))((cm_cur cm, key) \<mapsto> v)"
    by auto
qed

lemma get_value_table: "get_value key cm = map_option c_str (value_at (cm_nodes cm) (cm_cur cm, key))"
  by (simp add: get_value_def value_at_def option.map_comp comp_def)

subsection \<open>The meaning of a file\<close>

datatype config_stmt = Section "string list" | Assign string string | Other

fun config_exec :: "config_stmt \<Rightarrow> string list \<times> (string list \<times> string \<rightharpoonup> string)
    \<Rightarrow> string list \<times> (string list \<times> string \<rightharpoonup> string)" where
  "config_exec (Section p) (cur, m) = (p, m)"
| "config_exec (Assign k v) (cur, m) = (cur, m((cur, k) \<mapsto> v))"
| "config_exec Other (cur, m) = (cur, m)"

definition parse_value :: "string \<Rightarrow> string \<Rightarrow> config_stmt" where
  "parse_value key line =
     (let line1 = strip line
      in if line1 = [] \<or> hd line1 \<noteq> CHR ''='' then Other
         else let line2 = strip (tl line1)
              in if line2 = [] \<or> hd line2 \<noteq> CHR 0x22 then Other
                 else case index_of (CHR 0x22) (tl line2) of
                        None \<Rightarrow> Other
                      | Some i \<Rightarrow> Assign (c_str key) (c_str (take i (tl line2))))"

definition parse_line :: "string \<Rightarrow> config_stmt" where
  "parse_line l =
     (case strip l of
        [] \<Rightarrow> Other
      | c # line \<Rightarrow>
          if c = CHR ''['' then
            (case index_of (CHR '']'') line of
               None \<Rightarrow> Other
             | Some i \<Rightarrow> if i = 0 then Other else Section (path_keys (strip (take i line))))
          else if c = CHR 0x22 then
            (case index_of (CHR 0x22) line of
               None \<Rightarrow> Other
             | Some i \<Rightarrow> if i = 0 then Other else parse_value (take i line) (drop (Suc i) line))
          else Other)"

definition cm_table :: "config_map \<Rightarrow> string list \<times> (string list \<times> string \<rightharpoonup> string)" where
  "cm_table cm = (cm_cur cm, value_at (cm_nodes cm))"

lemma import_value_table:
  "cm_ok cm \<Longrightarrow> cm_ok (import_value key l cm) \<and>
     cm_table (import_value key l cm) = config_exec (parse_value key l) (cm_table cm)"
  using set_value_table [of cm]
  by (simp add: import_value_def parse_value_def cm_table_def Let_def split: option.split)

lemma import_line_table:
  "cm_ok cm \<Longrightarrow> cm_ok (import_line l cm) \<and> cm_table (import_line l cm) = config_exec (parse_line l) (cm_table cm)"
  using import_value_table [of cm] set_section_table [of cm]
  by (simp add: import_line_def parse_line_def cm_table_def split: list.split option.split)

lemma import_lines_table:
  "cm_ok cm \<Longrightarrow> cm_ok (fold import_line ls cm) \<and>
     cm_table (fold import_line ls cm) = fold config_exec (map parse_line ls) (cm_table cm)"
proof (induction ls arbitrary: cm)
  case (Cons l ls)
  then show ?case using Cons.IH [of "import_line l cm"] import_line_table [of cm l] by simp
qed simp

subsection \<open>Writing and reading back\<close>

definition name_ok :: "string \<Rightarrow> bool" where
  "name_ok s \<longleftrightarrow> s \<noteq> [] \<and> \<not> isspace (hd s) \<and> \<not> isspace (last s) \<and> no_nul s \<and>
     set s \<inter> {CHR ''/'', CHR 0x5C, CHR '']'', CHR 0x0A} = {}"

definition text_ok :: "string \<Rightarrow> bool" where
  "text_ok s \<longleftrightarrow> no_nul s \<and> CHR 0x22 \<notin> set s \<and> CHR 0x0A \<notin> set s"

fun stmt_ok :: "config_stmt \<Rightarrow> bool" where
  "stmt_ok (Section p) \<longleftrightarrow> p \<noteq> [] \<and> list_all name_ok p"
| "stmt_ok (Assign k v) \<longleftrightarrow> k \<noteq> [] \<and> text_ok k \<and> text_ok v"
| "stmt_ok Other \<longleftrightarrow> True"

fun slashed :: "string list \<Rightarrow> string" where
  "slashed [] = []"
| "slashed [s] = s"
| "slashed (s # p) = s @ CHR ''/'' # slashed p"

fun stmt_text :: "config_stmt \<Rightarrow> string" where
  "stmt_text (Section p) = CHR ''['' # slashed p @ [CHR '']'']"
| "stmt_text (Assign k v) = CHR 0x22 # k @ CHR 0x22 # CHR ''='' # CHR 0x22 # v @ [CHR 0x22]"
| "stmt_text Other = []"

lemma strip_id:
  assumes "s = [] \<or> \<not> isspace (hd s) \<and> \<not> isspace (last s)"
  shows "strip s = s"
proof -
  have "takeWhile isspace s = []" using assms by (cases s) auto
  moreover have "takeWhile isspace (rev s) = []" using assms by (cases s rule: rev_cases) auto
  ultimately show ?thesis by (simp add: strip_def substr_def)
qed

lemma name_ok_strip: "name_ok s \<Longrightarrow> strip s = s"
  by (rule strip_id) (auto simp: name_ok_def)

lemma name_ok_mem:
  "name_ok s \<Longrightarrow> CHR ''/'' \<notin> set s" "name_ok s \<Longrightarrow> CHR 0x5C \<notin> set s" "name_ok s \<Longrightarrow> CHR '']'' \<notin> set s"
  "name_ok s \<Longrightarrow> CHR 0x0A \<notin> set s" "name_ok s \<Longrightarrow> no_nul s" "name_ok s \<Longrightarrow> s \<noteq> []"
  by (simp_all add: name_ok_def)

lemma slashed_pieces:
  assumes "list_all name_ok p" "p \<noteq> []"
  shows "split_on (CHR ''/'') (map (\<lambda>c. if c = CHR 0x5C then CHR ''/'' else c) (slashed p)) = p"
proof -
  have m: "map (\<lambda>c. if c = CHR 0x5C then CHR ''/'' else c) s = s" if "name_ok s" for s
    using name_ok_mem(2) [OF that] by (intro map_idI) auto
  show ?thesis
    using assms
    by (induction p rule: slashed.induct) (simp_all add: m split_on_append split_on_single name_ok_mem)
qed

lemma slashed_mem:
  assumes "list_all name_ok p" "p \<noteq> []"
  shows "no_nul (slashed p)" "CHR '']'' \<notin> set (slashed p)" "CHR 0x0A \<notin> set (slashed p)"
    "slashed p \<noteq> []" "hd (slashed p) = hd (hd p)" "last (slashed p) = last (last p)"
  using assms by (induction p rule: slashed.induct) (simp_all add: name_ok_mem)

lemma path_keys_slashed:
  assumes "list_all name_ok p" "p \<noteq> []"
  shows "path_keys (slashed p) = p" "strip (slashed p) = slashed p"
proof -
  have "map strip p = p" "filter (\<lambda>s. s \<noteq> []) p = p"
    using assms(1) by (auto simp: list_all_iff name_ok_mem name_ok_strip intro!: map_idI)
  then show "path_keys (slashed p) = p"
    using slashed_pieces [OF assms] slashed_mem [OF assms] by (simp add: path_keys_def)
  have "name_ok (hd p)" "name_ok (last p)" using assms by (auto simp: list_all_iff)
  then show "strip (slashed p) = slashed p"
    using slashed_mem [OF assms] by (intro strip_id) (simp add: name_ok_def)
qed

lemma stmt_text_ok:
  assumes "stmt_ok s"
  shows "CHR 0x0A \<notin> set (stmt_text s)" "parse_line (stmt_text s) = s"
proof -
  show "CHR 0x0A \<notin> set (stmt_text s)"
    using assms by (cases s) (auto simp: text_ok_def slashed_mem)
  show "parse_line (stmt_text s) = s"
  proof (cases s)
    case (Section p)
    with assms have p: "list_all name_ok p" "p \<noteq> []" by auto
    have "strip (stmt_text s) = stmt_text s"
      using Section by (intro strip_id) (simp add: isspace_def)
    then show ?thesis
      using Section slashed_mem [OF p] path_keys_slashed [OF p] index_of_append [of "CHR '']''" "slashed p" "[]"]
      by (simp add: parse_line_def)
  next
    case (Assign k v)
    with assms have k: "k \<noteq> []" "no_nul k" "CHR 0x22 \<notin> set k" and v: "no_nul v" "CHR 0x22 \<notin> set v"
      by (auto simp: text_ok_def)
    have st: "strip (stmt_text s) = stmt_text s"
      using Assign by (intro strip_id) (simp add: isspace_def)
    have s1: "strip (CHR ''='' # CHR 0x22 # v @ [CHR 0x22]) = CHR ''='' # CHR 0x22 # v @ [CHR 0x22]"
      and s2: "strip (CHR 0x22 # v @ [CHR 0x22]) = CHR 0x22 # v @ [CHR 0x22]"
      by (intro strip_id, simp add: isspace_def)+
    have i: "index_of (CHR 0x22) (k @ CHR 0x22 # CHR ''='' # CHR 0x22 # v @ [CHR 0x22]) = Some (length k)"
      "index_of (CHR 0x22) (v @ [CHR 0x22]) = Some (length v)"
      using k(3) v(2) by (simp_all add: index_of_append)
    show ?thesis
      using k v by (simp add: parse_line_def st, simp add: Assign i parse_value_def s1 s2)
  qed (simp add: parse_line_def strip_def substr_def)
qed

lemma parse_lines_text:
  assumes "list_all stmt_ok ss"
  shows "map parse_line (split_on (CHR 0x0A) (concat (map (\<lambda>s. stmt_text s @ [CHR 0x0A]) ss))) = ss @ [Other]"
  using assms
proof (induction ss)
  case Nil
  show ?case by (simp add: parse_line_def strip_def substr_def)
next
  case (Cons s ss)
  then show ?case by (simp add: split_on_append stmt_text_ok)
qed

text \<open>
  C13: A configuration file is a table. Reading a file of section headers and assignments, in any
  order and with any repetition, and asking for a key of a section returns the value of the last
  assignment to the key under that section, and the empty string when there is none.
\<close>

theorem readString_last_assignment:
  assumes "list_all stmt_ok ss" "list_all name_ok p" "p \<noteq> []" "no_nul name"
  shows "readString (Some (concat (map (\<lambda>s. stmt_text s @ [CHR 0x0A]) ss))) (slashed p) name =
    (case snd (fold config_exec ss ([], Map.empty)) (p, name) of None \<Rightarrow> [] | Some v \<Rightarrow> c_str v)"
proof -
  let ?ls = "split_on (CHR 0x0A) (concat (map (\<lambda>s. stmt_text s @ [CHR 0x0A]) ss))"
  let ?cm = "fold import_line ?ls cm_new"
  have n: "cm_ok cm_new" "cm_table cm_new = ([], Map.empty)"
    by (auto simp: cm_ok_def cm_new_def cm_table_def)
  have "fold config_exec (ss @ [Other]) ([], Map.empty) = fold config_exec ss ([], Map.empty)"
    by (cases "fold config_exec ss ([], Map.empty)") simp
  with import_lines_table [OF n(1), of ?ls] n(2) have cm: "cm_ok ?cm"
      "cm_table ?cm = fold config_exec ss ([], Map.empty)"
    by (simp_all only: parse_lines_text [OF assms(1)])
  have "value_at (cm_nodes ?cm) = snd (fold config_exec ss ([], Map.empty))"
    using cm(2) by (metis cm_table_def snd_conv)
  then show ?thesis
    using set_section_table [OF cm(1), of "slashed p"] path_keys_slashed [OF assms(2,3)]
      slashed_mem(1) [OF assms(2,3)] assms(4)
    by (simp add: readString_def config_import_def get_value_table split: option.split)
qed

theorem readString_last_assignment_witness:
  "readString (Some (concat (map (\<lambda>s. stmt_text s @ [CHR 0x0A])
      [Section [''HTTP'', ''Parameter''], Assign ''ListenPort'' ''80'', Section [''HTTP''], Assign ''ListenPort'' ''1'',
       Section [''HTTP'', ''Parameter''], Assign ''ListenPort'' ''8080''])))
    (slashed [''HTTP'', ''Parameter'']) ''ListenPort'' = ''8080''"
proof -
  let ?ss = "[Section [''HTTP'', ''Parameter''], Assign ''ListenPort'' ''80'', Section [''HTTP''], Assign ''ListenPort'' ''1'',
       Section [''HTTP'', ''Parameter''], Assign ''ListenPort'' ''8080'']"
  have "list_all stmt_ok ?ss" "list_all name_ok [''HTTP'', ''Parameter'']"
    "[''HTTP'', ''Parameter''] \<noteq> []" "no_nul ''ListenPort''"
    by (simp_all add: name_ok_def text_ok_def isspace_def)
  from readString_last_assignment [OF this] show ?thesis by simp
qed

end
