(* ===== verification/Http_Response.thy ===== *)
theory Http_Response
  imports Ctype
begin

text \<open>
  The answer to a request: \<^verbatim>\<open>src/http_server/HttpResponse.hpp\<close> and \<^verbatim>\<open>HttpResponse.cpp\<close>. The array
  of field values is a function from the fields; a pointer that is \<^verbatim>\<open>NULL\<close> is \<^const>\<open>None\<close>. The
  destination of \<open>dump_to_buff\<close> is a list of bytes whose length is \<open>max_dest_len\<close>; a write behind its
  end is the fault \<^const>\<open>Out_of_bounds\<close>.
\<close>

datatype http_res_version = HTTP10 | HTTP11

primrec http_res_version_str :: "http_res_version \<Rightarrow> string" where
  "http_res_version_str HTTP10 = ''HTTP/1.0''"
| "http_res_version_str HTTP11 = ''HTTP/1.1''"

datatype http_response_field =
      Accept_Ranges | Age | Allow | Cache_Control | Connection | Content_Encoding
    | Content_Language | Content_Length | Content_Location | Content_MD5 | Content_Disposition
    | Content_Range | Content_Type | Date | ETag | Expires | Last_Modified | Link
    | Location | P3P | Pragma | Proxy_Authenticate | Refresh | Retry_After | Server | Set_Cookie
    | Strict_Transport_Security | Trailer | ransfer_Encoding | Vary | Via | Warning
    | WWW_Authenticate

text \<open>The fields in the order of their numbers, with their names.\<close>

definition http_response_fields :: "(http_response_field \<times> string) list" where
  "http_response_fields =
    [(Accept_Ranges, ''Accept-Ranges: ''),
     (Age, ''Age: ''),
     (Allow, ''Allow: ''),
     (Cache_Control, ''Cache-Control: ''),
     (Connection, ''Connection: ''),
     (Content_Encoding, ''Content-Encoding: ''),
     (Content_Language, ''Content-Language: ''),
     (Content_Length, ''Content-Length: ''),
     (Content_Location, ''Content-Location: ''),
     (Content_MD5, ''Content-MD5: ''),
     (Content_Disposition, ''Content-Disposition: ''),
     (Content_Range, ''Content-Range: ''),
     (Content_Type, ''Content-Type: ''),
     (Date, ''Date: ''),
     (ETag, ''ETag: ''),
     (Expires, ''Expires: ''),
     (Last_Modified, ''Last-Modified: ''),
     (Link, ''Link: ''),
     (Location, ''Location: ''),
     (P3P, ''P3P: ''),
     (Pragma, ''Pragma: ''),
     (Proxy_Authenticate, ''Proxy-Authenticate: ''),
     (Refresh, ''Refresh: ''),
     (Retry_After, ''Retry-After: ''),
     (Server, ''Server: ''),
     (Set_Cookie, ''Set-Cookie: ''),
     (Strict_Transport_Security, ''Strict-Transport-Security: ''),
     (Trailer, ''Trailer: ''),
     (ransfer_Encoding, ''Transfer-Encoding: ''),
     (Vary, ''Vary: ''),
     (Via, ''Via: ''),
     (Warning, ''Warning: ''),
     (WWW_Authenticate, ''WWW-Authenticate: '')]"

datatype status_code =
      SC100 | SC101 | SC200 | SC201 | SC202 | SC203 | SC204 | SC205 | SC206 | SC300 | SC301
    | SC302 | SC303 | SC304 | SC305 | SC307 | SC400 | SC401 | SC402 | SC403 | SC404 | SC405
    | SC406 | SC407 | SC408 | SC409 | SC410 | SC411 | SC412 | SC413 | SC414 | SC415 | SC416
    | SC417 | SC500 | SC501 | SC502 | SC503 | SC504 | SC505

primrec status_code_str :: "status_code \<Rightarrow> string" where
  "status_code_str SC100 = ''100 Continue''"
| "status_code_str SC101 = ''101 Switching Protocols''"
| "status_code_str SC200 = ''200 OK''"
| "status_code_str SC201 = ''201 Created''"
| "status_code_str SC202 = ''202 Accepted''"
| "status_code_str SC203 = ''203 Non-Authoritative Information''"
| "status_code_str SC204 = ''204 No Content''"
| "status_code_str SC205 = ''205 Reset Content''"
| "status_code_str SC206 = ''206 Partial Content''"
| "status_code_str SC300 = ''300 Multiple Choices''"
| "status_code_str SC301 = ''301 Moved Permanently''"
| "status_code_str SC302 = ''302 Found''"
| "status_code_str SC303 = ''303 See Other''"
| "status_code_str SC304 = ''304 Not Modified''"
| "status_code_str SC305 = ''305 Use Proxy''"
| "status_code_str SC307 = ''307 Temporary Redirect''"
| "status_code_str SC400 = ''400 Bad Request''"
| "status_code_str SC401 = ''401 Unauthorized''"
| "status_code_str SC402 = ''402 Payment Required''"
| "status_code_str SC403 = ''403 Forbidden''"
| "status_code_str SC404 = ''404 Not Found''"
| "status_code_str SC405 = ''405 Method Not Allowed''"
| "status_code_str SC406 = ''406 Not Acceptable''"
| "status_code_str SC407 = ''407 Proxy Authentication Required''"
| "status_code_str SC408 = ''408 Request Time-out''"
| "status_code_str SC409 = ''409 Conflict''"
| "status_code_str SC410 = ''410 Gone''"
| "status_code_str SC411 = ''411 Length Required''"
| "status_code_str SC412 = ''412 Precondition Failed''"
| "status_code_str SC413 = ''413 Request Entity Too Large''"
| "status_code_str SC414 = ''414 Request-URI Too Large''"
| "status_code_str SC415 = ''415 Unsupported Media Type''"
| "status_code_str SC416 = ''416 Requested range not satisfiable''"
| "status_code_str SC417 = ''417 Expectation Failed''"
| "status_code_str SC500 = ''500 Internal Server Error''"
| "status_code_str SC501 = ''501 Not Implemented''"
| "status_code_str SC502 = ''502 Bad Gateway''"
| "status_code_str SC503 = ''503 Service Unavailable''"
| "status_code_str SC504 = ''504 Gateway Time-out''"
| "status_code_str SC505 = ''505 HTTP Version not supported''"

definition line_sep :: string where
  "line_sep = [CHR 0x0D, CHR 0x0A]"

record http_response =
  hr_content :: "bytes option"
  hr_fields :: "http_response_field \<Rightarrow> string option"
  hr_code :: status_code
  hr_version :: http_res_version

definition HttpResponse :: "http_res_version \<Rightarrow> status_code \<Rightarrow> http_response" where
  "HttpResponse v c = \<lparr>hr_content = None, hr_fields = (\<lambda>f. None), hr_code = c, hr_version = v\<rparr>"

text \<open>The allocation of a value may fail (\<open>mem = False\<close>), and leaves the field empty then.\<close>

definition setField :: "bool \<Rightarrow> http_response_field \<Rightarrow> string \<Rightarrow> http_response \<Rightarrow> int \<times> http_response" where
  "setField mem field v r =
     (if field = Content_Length then (-1, r)
      else if \<not> mem then (-1, r\<lparr>hr_fields := (hr_fields r)(field := None)\<rparr>)
      else (0, r\<lparr>hr_fields := (hr_fields r)(field := Some (c_str v))\<rparr>))"

text \<open>
  The buffer has ten bytes more than the content, counted modulo \<open>2\<^sup>3\<^sup>2\<close>. The content is copied from
  \<open>content\<close>, which has to have that many bytes.
\<close>

definition fillContent :: "int \<Rightarrow> bytes \<Rightarrow> http_response \<Rightarrow> fault + (int \<times> http_response)" where
  "fillContent content_len content r =
     (let n = nat (u32 content_len)
      in if length content < n \<or> u32 (content_len + 10) < u32 content_len then Inl Out_of_bounds
         else Inr (0, r\<lparr>hr_fields := (hr_fields r)(Content_Length \<mapsto> show_nat n), hr_content := Some (take n content)\<rparr>))"

definition setVersion :: "http_res_version \<Rightarrow> http_response \<Rightarrow> http_response" where
  "setVersion v r = r\<lparr>hr_version := v\<rparr>"

definition setStatusCode :: "status_code \<Rightarrow> http_response \<Rightarrow> http_response" where
  "setStatusCode c r = r\<lparr>hr_code := c\<rparr>"

section \<open>Writing the response\<close>

definition write_at :: "bytes \<Rightarrow> nat \<Rightarrow> bytes \<Rightarrow> bytes" where
  "write_at dest off data = take off dest @ data @ drop (off + length data) dest"

text \<open>
  \<^verbatim>\<open>snprintf(dest + off, max - off, "%s", s)\<close> for a buffer of \<open>max\<close> bytes: what does not fit with its
  terminator is cut off, but the result is the length of all of \<open>s\<close>. Behind the end of the buffer the
  size is negative, that is a huge \<^verbatim>\<open>size_t\<close>, and everything is written.
\<close>

definition snprintf_at :: "nat \<Rightarrow> string \<Rightarrow> bytes \<Rightarrow> fault + (int \<times> bytes)" where
  "snprintf_at off s dest =
     (if length dest < off then Inl Out_of_bounds
      else Inr (int (length s),
        if off = length dest then dest else write_at dest off (take (length dest - off - 1) s @ [NUL])))"

text \<open>One \<^verbatim>\<open>snprintf\<close> of a text whose length is known, with the test of its result.\<close>

definition print_at :: "string \<Rightarrow> nat \<times> bytes \<Rightarrow> fault + (nat \<times> bytes) option" where
  "print_at s hd_buf =
     (case hd_buf of
        (head, dest) \<Rightarrow>
          (case snprintf_at head s dest of
             Inl e \<Rightarrow> Inl e
           | Inr (write_count, dest') \<Rightarrow>
               if write_count \<noteq> int (length s) then Inr None
               else Inr (Some (head + nat write_count, dest'))))"

definition field_line :: "http_response \<Rightarrow> http_response_field \<times> string \<Rightarrow> string option" where
  "field_line r f = map_option (\<lambda>v. snd f @ v @ line_sep) (hr_fields r (fst f))"

fun print_fields :: "http_response \<Rightarrow> (http_response_field \<times> string) list \<Rightarrow> nat \<times> bytes
    \<Rightarrow> fault + (nat \<times> bytes) option" where
  "print_fields r [] st = Inr (Some st)"
| "print_fields r (f # fs) st =
     (case field_line r f of
        None \<Rightarrow> print_fields r fs st
      | Some l \<Rightarrow>
          (case print_at l st of
             Inl e \<Rightarrow> Inl e
           | Inr None \<Rightarrow> Inr None
           | Inr (Some st') \<Rightarrow> print_fields r fs st'))"

definition status_line :: "http_response \<Rightarrow> string" where
  "status_line r = http_res_version_str (hr_version r) @ '' '' @ status_code_str (hr_code r) @ line_sep"

text \<open>
  Copying the content behind the head. The buffer of the content has ten spare bytes; a length that
  goes beyond them or is negative is out of bounds.
\<close>

definition dump_body :: "http_response \<Rightarrow> nat \<times> bytes \<Rightarrow> fault + (int \<times> bytes \<times> int)" where
  "dump_body r st =
     (case st of
        (head, dest) \<Rightarrow>
          (case hr_fields r Content_Length of
             None \<Rightarrow> Inr (0, dest, int head)
           | Some v \<Rightarrow>
               let body_len = atoi v
               in if int (length dest) < int head + body_len then Inr (-1, dest, int head)
                  else case hr_content r of
                         None \<Rightarrow> Inl Null_deref
                       | Some content \<Rightarrow>
                           if body_len < 0 \<or> int (length content) < body_len then Inl Out_of_bounds
                           else let len = head + nat body_len
                                in if length dest \<le> len then Inl Out_of_bounds
                                   else Inr (0, write_at (write_at dest head (take (nat body_len) content)) len [NUL],
                                             int len)))"

text \<open>The return value, the buffer, and \<open>len\<close> where it has been set.\<close>

definition dump_to_buff :: "http_response \<Rightarrow> bytes \<Rightarrow> fault + (int \<times> bytes \<times> int option)" where
  "dump_to_buff r dest =
     (case print_at (status_line r) (0, dest) of
        Inl e \<Rightarrow> Inl e
      | Inr None \<Rightarrow> Inr (-1, dest, None)
      | Inr (Some st1) \<Rightarrow>
          (case print_fields r http_response_fields st1 of
             Inl e \<Rightarrow> Inl e
           | Inr None \<Rightarrow> Inr (-1, snd st1, None)
           | Inr (Some st2) \<Rightarrow>
               (case print_at line_sep st2 of
                  Inl e \<Rightarrow> Inl e
                | Inr None \<Rightarrow> Inr (-1, snd st2, None)
                | Inr (Some st3) \<Rightarrow>
                    (case dump_body r st3 of
                       Inl e \<Rightarrow> Inl e
                     | Inr (ret, d, len) \<Rightarrow> Inr (ret, d, Some len)))))"

section \<open>Properties\<close>

subsection \<open>Content and length agree\<close>

definition resp_ok :: "http_response \<Rightarrow> bool" where
  "resp_ok r \<longleftrightarrow> hr_fields r Content_Length = map_option (\<lambda>c. show_nat (length c)) (hr_content r)"

lemma resp_ok_ops:
  "resp_ok (HttpResponse v c)"
  "resp_ok r \<Longrightarrow> resp_ok (snd (setField mem field w r))"
  "fillContent n content r = Inr (x, r') \<Longrightarrow> resp_ok r'"
  "resp_ok r \<Longrightarrow> resp_ok (setVersion v r)"
  "resp_ok r \<Longrightarrow> resp_ok (setStatusCode c r)"
  by (auto simp: resp_ok_def HttpResponse_def setField_def fillContent_def setVersion_def setStatusCode_def
      Let_def split: if_splits)

lemma fillContent_all:
  assumes "length content < 4294967286"
  shows "fillContent (int (length content)) content r =
    Inr (0, r\<lparr>hr_fields := (hr_fields r)(Content_Length \<mapsto> show_nat (length content)), hr_content := Some content\<rparr>)"
proof -
  have "in_u32 (int (length content))" "in_u32 (int (length content) + 10)"
    using assms by (simp_all add: in_u32_def)
  then show ?thesis by (simp add: fillContent_def)
qed

subsection \<open>The head\<close>

definition field_lines :: "http_response \<Rightarrow> (http_response_field \<times> string) list \<Rightarrow> string" where
  "field_lines r fs = concat (map (\<lambda>f. case field_line r f of None \<Rightarrow> [] | Some l \<Rightarrow> l) fs)"

definition head_text :: "http_response \<Rightarrow> string" where
  "head_text r = status_line r @ field_lines r http_response_fields @ line_sep"

lemma field_lines_simps [simp]:
  "field_lines r [] = []"
  "field_lines r (f # fs) = (case field_line r f of None \<Rightarrow> [] | Some l \<Rightarrow> l) @ field_lines r fs"
  by (simp_all add: field_lines_def)

text \<open>The buffer holds the C string \<open>t\<close>.\<close>

definition holds :: "string \<Rightarrow> bytes \<Rightarrow> bool" where
  "holds t dest \<longleftrightarrow> (\<exists>rest. dest = t @ NUL # rest)"

lemma length_write_at [simp]: "off + length data \<le> length dest \<Longrightarrow> length (write_at dest off data) = length dest"
  by (simp add: write_at_def)

lemma print_at_fits:
  assumes "take (length t) dest = t" "length (t @ s) < length dest"
  shows "\<exists>d. print_at s (length t, dest) = Inr (Some (length (t @ s), d)) \<and> holds (t @ s) d \<and> length d = length dest"
proof -
  let ?d = "write_at dest (length t) (s @ [NUL])"
  have "print_at s (length t, dest) = Inr (Some (length (t @ s), ?d))"
    using assms by (simp add: print_at_def snprintf_at_def)
  moreover have "holds (t @ s) ?d" using assms(1) by (simp add: holds_def write_at_def)
  ultimately show ?thesis using assms(2) by auto
qed

lemma holds_take: "holds t d \<Longrightarrow> take (length t) d = t"
  by (auto simp: holds_def)

lemma print_fields_fits:
  assumes "take (length t) dest = t" "length (t @ field_lines r fs) < length dest"
  shows "\<exists>d. print_fields r fs (length t, dest) = Inr (Some (length (t @ field_lines r fs), d)) \<and>
    take (length (t @ field_lines r fs)) d = t @ field_lines r fs \<and> length d = length dest"
  using assms
proof (induction fs arbitrary: t dest)
  case (Cons f fs)
  show ?case
  proof (cases "field_line r f")
    case None
    with Cons show ?thesis by simp
  next
    case (Some l)
    with Cons.prems have "length (t @ l) < length dest" by simp
    from print_at_fits [OF Cons.prems(1) this] obtain d where d: "print_at l (length t, dest) = Inr (Some (length (t @ l), d))"
      "take (length (t @ l)) d = t @ l" "length d = length dest" using holds_take by blast
    from Cons.IH [OF d(2)] d(1,3) Cons.prems(2) Some show ?thesis by simp
  qed
qed simp

text \<open>Whether or not the buffer is large enough, the head is counted in full.\<close>

lemma print_at_beyond: "length dest < head \<Longrightarrow> print_at s (head, dest) = Inl Out_of_bounds"
  by (simp add: print_at_def snprintf_at_def)

lemma print_at_within:
  assumes "head \<le> length dest"
  shows "\<exists>d. print_at s (head, dest) = Inr (Some (head + length s, d)) \<and> length d = length dest"
  using assms by (auto simp: print_at_def snprintf_at_def)

lemma print_fields_any:
  "print_fields r fs (head, dest) = Inl Out_of_bounds \<or>
   (\<exists>d. print_fields r fs (head, dest) = Inr (Some (head + length (field_lines r fs), d)) \<and> length d = length dest)"
proof (induction fs arbitrary: head dest)
  case (Cons f fs)
  show ?case
  proof (cases "field_line r f")
    case None
    with Cons show ?thesis by simp
  next
    case (Some l)
    show ?thesis
    proof (cases "head \<le> length dest")
      case True
      from print_at_within [OF this, of l] obtain d where
        "print_at l (head, dest) = Inr (Some (head + length l, d))" "length d = length dest" by blast
      with Cons.IH [of "head + length l" d] Some show ?thesis by (simp add: add.assoc)
    next
      case False
      with Some show ?thesis by (simp add: print_at_beyond)
    qed
  qed
qed simp

subsection \<open>The whole response\<close>

lemma dump_head_fits:
  assumes "length (head_text r) < length dest"
  shows "\<exists>d. dump_to_buff r dest = (case dump_body r (length (head_text r), d) of
      Inl e \<Rightarrow> Inl e | Inr (ret, d', len) \<Rightarrow> Inr (ret, d', Some len)) \<and>
    holds (head_text r) d \<and> length d = length dest"
proof -
  have "length ([] @ status_line r) < length dest" using assms by (simp add: head_text_def)
  from print_at_fits [OF _ this] obtain d1 where d1: "print_at (status_line r) (0, dest) = Inr (Some (length (status_line r), d1))"
    "take (length (status_line r)) d1 = status_line r" "length d1 = length dest" using holds_take by auto
  have "length (status_line r @ field_lines r http_response_fields) < length d1"
    using assms d1(3) by (simp add: head_text_def)
  from print_fields_fits [OF d1(2) this] obtain d2 where
    d2: "print_fields r http_response_fields (length (status_line r), d1) =
      Inr (Some (length (status_line r @ field_lines r http_response_fields), d2))"
    "take (length (status_line r @ field_lines r http_response_fields)) d2 =
      status_line r @ field_lines r http_response_fields" "length d2 = length dest" using d1(3) by auto
  have "length ((status_line r @ field_lines r http_response_fields) @ line_sep) < length d2"
    using assms d2(3) by (simp add: head_text_def)
  from print_at_fits [OF d2(2) this] obtain d3 where
    d3: "print_at line_sep (length (status_line r @ field_lines r http_response_fields), d2) =
      Inr (Some (length (head_text r), d3))" "holds (head_text r) d3" "length d3 = length dest"
    using d2(3) by (auto simp: head_text_def)
  show ?thesis
    by (rule exI [of _ d3]) (simp add: dump_to_buff_def d1(1) d2(1) d3(1) [unfolded length_append] d3(2,3))
qed

text \<open>A buffer that only has no room for the blank line: it is counted all the same.\<close>

lemma print_fields_within:
  "head + length (field_lines r fs) \<le> length dest \<Longrightarrow>
    \<exists>d. print_fields r fs (head, dest) = Inr (Some (head + length (field_lines r fs), d)) \<and> length d = length dest"
proof (induction fs arbitrary: head dest)
  case (Cons f fs)
  show ?case
  proof (cases "field_line r f")
    case None
    with Cons show ?thesis by simp
  next
    case (Some l)
    with Cons.prems have "head \<le> length dest" by simp
    from print_at_within [OF this, of l] obtain d where
      "print_at l (head, dest) = Inr (Some (head + length l, d))" "length d = length dest" by blast
    with Cons.IH [of "head + length l" d] Cons.prems Some show ?thesis by (simp add: add.assoc)
  qed
qed simp

lemma dump_head_within:
  assumes "length (status_line r @ field_lines r http_response_fields) \<le> length dest"
  shows "\<exists>d. dump_to_buff r dest = (case dump_body r (length (head_text r), d) of
      Inl e \<Rightarrow> Inl e | Inr (ret, d', len) \<Rightarrow> Inr (ret, d', Some len)) \<and> length d = length dest"
proof -
  from print_at_within [of 0 dest "status_line r"] obtain d1 where
    d1: "print_at (status_line r) (0, dest) = Inr (Some (length (status_line r), d1))" "length d1 = length dest" by auto
  from print_fields_within [of "length (status_line r)" r http_response_fields d1] obtain d2 where
    d2: "print_fields r http_response_fields (length (status_line r), d1) =
      Inr (Some (length (status_line r) + length (field_lines r http_response_fields), d2))" "length d2 = length dest"
    using assms d1(2) by auto
  from print_at_within [of "length (status_line r) + length (field_lines r http_response_fields)" d2 line_sep] obtain d3 where
    d3: "print_at line_sep (length (status_line r) + length (field_lines r http_response_fields), d2) =
      Inr (Some (length (head_text r), d3))" "length d3 = length dest"
    using assms d2(2) by (auto simp: head_text_def add.assoc)
  show ?thesis
    by (rule exI [of _ d3]) (simp add: dump_to_buff_def d1(1) d2(1) d3)
qed

lemma dump_head_beyond:
  assumes "length dest < length (status_line r @ field_lines r http_response_fields)"
  shows "dump_to_buff r dest = Inl Out_of_bounds"
proof -
  from print_at_within [of 0 dest "status_line r"] obtain d1 where
    d1: "print_at (status_line r) (0, dest) = Inr (Some (length (status_line r), d1))" "length d1 = length dest" by auto
  from print_fields_any [of r http_response_fields "length (status_line r)" d1]
  show ?thesis using assms d1 by (auto simp: dump_to_buff_def print_at_beyond)
qed

lemma dump_to_buff_complete:
  assumes "resp_ok r" "hr_content r = Some content" "length content < 2147483648"
    and l: "length (head_text r @ content) < length dest"
  shows "\<exists>rest. dump_to_buff r dest = Inr (0, head_text r @ content @ NUL # rest, Some (int (length (head_text r @ content)))) \<and>
    length (head_text r @ content @ NUL # rest) = length dest"
proof -
  let ?h = "head_text r"
  have v: "hr_fields r Content_Length = Some (show_nat (length content))"
    using assms by (simp add: resp_ok_def)
  have a: "atoi (show_nat (length content)) = int (length content)"
    by (rule atoi_show_nat) (use assms(3) in simp)
  from l have "length ?h < length dest" by simp
  from dump_head_fits [OF this] obtain d where d: "dump_to_buff r dest = (case dump_body r (length ?h, d) of
      Inl e \<Rightarrow> Inl e | Inr (ret, d', len) \<Rightarrow> Inr (ret, d', Some len))" "take (length ?h) d = ?h"
    "length d = length dest" using holds_take by blast
  have "dump_body r (length ?h, d) =
      Inr (0, ?h @ content @ NUL # drop (Suc (length (?h @ content))) d, int (length (?h @ content)))"
    using l d(2,3) v a assms(2) by (simp add: dump_body_def write_at_def)
  with d(1,3) l show ?thesis by auto
qed



end
