(* ===== verification/Http_Server.thy ===== *)
theory Http_Server
  imports Http_Response
begin

text \<open>
  The connections of the server: \<^verbatim>\<open>src/http_server/http_server.cpp\<close>, with \<open>SocketHandle\<close>
  (\<^verbatim>\<open>socket_handle.hpp\<close>) and \<open>Worker\<close> (\<^verbatim>\<open>worker.hpp\<close>). What the network delivers to a socket is a list
  of chunks: a read takes at most the bytes asked for from the first of them, and an empty chunk
  stands for a time-out, an error or the end of the stream. Log output is left out, and with it the two
  lines that read what they must not: \<open>readn_timeout\<close> prints its buffer before it has been filled, and
  \<open>recv_request\<close> prints the content of the worker after \<open>retrieve_worker\<close> has deleted it.
\<close>

section \<open>Reading\<close>

definition READ_BUF_SIZE :: nat where
  "READ_BUF_SIZE = 512"

type_synonym net = "bytes list"

text \<open>What has been read, unless the result is not positive, and what is still to come.\<close>

fun read_data :: "nat \<Rightarrow> net \<Rightarrow> bytes option \<times> net" where
  "read_data len [] = (None, [])"
| "read_data len (c # cs) =
     (if c = [] \<or> len = 0 then (None, cs)
      else (Some (take len c), if len < length c then drop len c # cs else cs))"

definition net_size :: "net \<Rightarrow> nat" where
  "net_size cs = sum_list (map (\<lambda>c. Suc (length c)) cs)"

lemma read_data_progress: "read_data len cs = (Some bs, cs') \<Longrightarrow> net_size cs' < net_size cs"
  by (cases cs) (auto simp: net_size_def split: if_splits)

definition header_end :: string where
  "header_end = [CHR 0x0D, CHR 0x0A, CHR 0x0D, CHR 0x0A]"

text \<open>
  The header and the buffer behind it. What a read delivers is appended as a C string, up to its
  first NUL.
\<close>

function read_http_header_timeout :: "string \<Rightarrow> net \<Rightarrow> string option \<times> string \<times> net" where
  "read_http_header_timeout buffer cs =
     (case find0 header_end buffer of
        Some pos \<Rightarrow> (Some (take pos buffer), drop (pos + 4) buffer, cs)
      | None \<Rightarrow>
          (case read_data READ_BUF_SIZE cs of
             (None, cs') \<Rightarrow> (None, buffer, cs')
           | (Some bs, cs') \<Rightarrow> read_http_header_timeout (buffer @ c_str bs) cs'))"
  by auto
termination
  by (relation "measure (\<lambda>(buffer, cs). net_size cs)") (auto dest: read_data_progress [OF sym])

declare read_http_header_timeout.simps [simp del] read_http_header_timeout.simps [code]

text \<open>The bytes that arrive while \<open>left\<close> are missing, and how many stay missing.\<close>

function readn_loop :: "nat \<Rightarrow> net \<Rightarrow> bytes \<times> nat \<times> net" where
  "readn_loop left cs =
     (if left = 0 then ([], 0, cs)
      else let len = (if READ_BUF_SIZE < left then READ_BUF_SIZE else left)
           in case read_data len cs of
                (None, cs') \<Rightarrow> ([], left, cs')
              | (Some bs, cs') \<Rightarrow>
                  (case readn_loop (left - length bs) cs' of (ds, r) \<Rightarrow> (bs @ ds, r)))"
  by auto
termination
  by (relation "measure (\<lambda>(left, cs). net_size cs)") (auto dest: read_data_progress [OF sym])

declare readn_loop.simps [simp del] readn_loop.simps [code]

text \<open>The result, the content, and the buffer and network behind it.\<close>

definition readn_timeout :: "string \<Rightarrow> nat \<Rightarrow> net \<Rightarrow> int \<times> bytes \<times> string \<times> net" where
  "readn_timeout buffer buf_len cs =
     (if buf_len \<le> length buffer then (int buf_len, take buf_len buffer, drop buf_len buffer, cs)
      else (case readn_loop (buf_len - length buffer) cs of
              (bs, left, cs') \<Rightarrow> (int (buf_len - left), buffer @ bs, [], cs')))"

section \<open>Writing\<close>

text \<open>
  The outcomes of \<^verbatim>\<open>poll\<close> and \<^verbatim>\<open>write\<close> are given: \<^const>\<open>None\<close> when the socket is not ready, or the
  result of \<^verbatim>\<open>write\<close>, which may be -1. \<open>pos\<close> is the position of \<open>buf\<close>, moved by every result.
\<close>

fun writen_timeout :: "bytes \<Rightarrow> int \<Rightarrow> int \<Rightarrow> int option list \<Rightarrow> fault + (int \<times> bytes)" where
  "writen_timeout buf pos left [] = Inr (if 0 < left then -1 else pos + left, [])"
| "writen_timeout buf pos left (w # ws) =
     (if left \<le> 0 then Inr (pos + left, [])
      else case w of
             None \<Rightarrow> Inr (-1, [])
           | Some n \<Rightarrow>
               if pos < 0 \<or> int (length buf) < pos + left then Inl Out_of_bounds
               else if n = 0 then Inr (pos, [])
               else case writen_timeout buf (pos + n) (left - n) ws of
                      Inl e \<Rightarrow> Inl e
                    | Inr (r, sent) \<Rightarrow> Inr (r, take (nat n) (drop (nat pos) buf) @ sent))"

section \<open>The request line\<close>

text \<open>\<^verbatim>\<open>sscanf\<close>: a literal, a word, an unsigned and a signed number.\<close>

definition scan_lit :: "string \<Rightarrow> string \<Rightarrow> string option" where
  "scan_lit lit s = (if prefix lit s then Some (drop (length lit) s) else None)"

definition scan_word :: "string \<Rightarrow> (string \<times> string) option" where
  "scan_word s =
     (let t = dropWhile isspace s; w = takeWhile (\<lambda>c. \<not> isspace c) t
      in if w = [] then None else Some (w, drop (length w) t))"

definition scan_int :: "string \<Rightarrow> (int \<times> string) option" where
  "scan_int s =
     (let t = dropWhile isspace s;
          u = (if t \<noteq> [] \<and> (hd t = CHR ''-'' \<or> hd t = CHR ''+'') then tl t else t)
      in if u = [] \<or> \<not> isdigit (hd u) then None
         else Some (i32 (clamp64 (if hd t = CHR ''-'' then - read_digits 0 u else read_digits 0 u)),
                dropWhile isdigit u))"

text \<open>\<^verbatim>\<open>sscanf(buf, "<method> /%s HTTP/%u.%u", uri, ...) == 3\<close>; the versions are not used.\<close>

definition scan_request :: "string \<Rightarrow> string \<Rightarrow> string option" where
  "scan_request method s =
     (case scan_lit method s of
        None \<Rightarrow> None
      | Some s1 \<Rightarrow>
          (case scan_lit ''/'' (dropWhile isspace s1) of
             None \<Rightarrow> None
           | Some s2 \<Rightarrow>
               (case scan_word s2 of
                  None \<Rightarrow> None
                | Some (uri, s3) \<Rightarrow>
                    (case scan_lit ''HTTP/'' (dropWhile isspace s3) of
                       None \<Rightarrow> None
                     | Some s4 \<Rightarrow>
                         (case scan_int s4 of
                            None \<Rightarrow> None
                          | Some (v1, s5) \<Rightarrow>
                              (case scan_lit ''.'' s5 of
                                 None \<Rightarrow> None
                               | Some s6 \<Rightarrow> map_option (\<lambda>v. uri) (scan_int s6)))))))"

text \<open>The first of the methods the header mentions anywhere decides.\<close>

definition request_uri :: "string \<Rightarrow> string option" where
  "request_uri header =
     (case find0 ''POST'' header of
        Some i \<Rightarrow> scan_request ''POST'' (c_str (drop i header))
      | None \<Rightarrow>
          (case find0 ''GET'' header of
             Some i \<Rightarrow> scan_request ''GET'' (c_str (drop i header))
           | None \<Rightarrow>
               (case find0 ''PUT'' header of
                  Some i \<Rightarrow> scan_request ''PUT'' (c_str (drop i header))
                | None \<Rightarrow>
                    (case find0 ''DELETE'' header of
                       Some i \<Rightarrow> scan_request ''DELETE'' (c_str (drop i header))
                     | None \<Rightarrow> None))))"

record worker =
  wk_header :: string
  wk_content :: "bytes option"
  wk_content_len :: int
  wk_response :: "http_response option"
  wk_url :: string
  wk_keep_alive :: bool

definition worker_new :: worker where
  "worker_new = \<lparr>wk_header = [], wk_content = None, wk_content_len = 0, wk_response = None, wk_url = [],
     wk_keep_alive = False\<rparr>"

text \<open>
  Without a \<open>Content-Length:\<close> the result \<^verbatim>\<open>npos\<close> of \<^verbatim>\<open>find\<close> is added to the start of the header, and
  \<^verbatim>\<open>sscanf\<close> reads in front of it.
\<close>

definition GetInfo :: "worker \<Rightarrow> fault + (int \<times> worker)" where
  "GetInfo w =
     (case request_uri (wk_header w) of
        None \<Rightarrow> Inr (-1, w)
      | Some uri \<Rightarrow>
          (case find0 ''Content-Length:'' (wk_header w) of
             None \<Rightarrow> Inl Out_of_bounds
           | Some i \<Rightarrow>
               let len = (case scan_int (drop 15 (c_str (drop i (wk_header w)))) of None \<Rightarrow> 0 | Some (n, s) \<Rightarrow> n);
                   keep = (if find0 ''Connection: close'' (wk_header w) \<noteq> None then False
                           else if find0 ''Connection: keep-alive'' (wk_header w) \<noteq> None then True
                           else wk_keep_alive w)
               in Inr (0, w\<lparr>wk_url := uri, wk_content_len := len, wk_keep_alive := keep\<rparr>)))"

section \<open>One request\<close>

text \<open>
  The content buffer has ten bytes more than the content, and is not allocated at all for an empty
  one, whose terminator is then written to the null pointer. The result is that of the reading, the
  worker, and the buffer and network behind the request.
\<close>

definition read_content :: "worker \<Rightarrow> string \<Rightarrow> net \<Rightarrow> fault + (bool \<times> worker \<times> string \<times> net)" where
  "read_content w buffer cs =
     (let n = wk_content_len w
      in if n < 0 then Inl Out_of_bounds
         else if 2147483637 < n then Inl Null_deref
         else case readn_timeout buffer (nat n) cs of
                (r, content, buffer', cs') \<Rightarrow>
                  if r \<noteq> n then Inr (False, w, buffer', cs')
                  else if n = 0 then Inl Null_deref
                  else Inr (True, w\<lparr>wk_content := Some (content @ [NUL])\<rparr>, buffer', cs'))"

definition read_request :: "string \<Rightarrow> net \<Rightarrow> fault + (bool \<times> worker \<times> string \<times> net)" where
  "read_request buffer cs =
     (case read_http_header_timeout buffer cs of
        (None, buffer', cs') \<Rightarrow> Inr (False, worker_new, buffer', cs')
      | (Some header, buffer', cs') \<Rightarrow>
          (case GetInfo (worker_new\<lparr>wk_header := header\<rparr>) of
             Inl e \<Rightarrow> Inl e
           | Inr (r, w) \<Rightarrow> if r < 0 then Inr (False, w, buffer', cs') else read_content w buffer' cs'))"

text \<open>What is sent, and whether it was all that was to be sent.\<close>

definition send_result :: "bytes \<Rightarrow> int \<Rightarrow> int option list \<Rightarrow> fault + (int \<times> bytes)" where
  "send_result buf buf_len ws =
     (case writen_timeout buf 0 buf_len ws of
        Inl e \<Rightarrow> Inl e
      | Inr (r, sent) \<Rightarrow> Inr (if r \<noteq> buf_len then -3 else 0, sent))"

text \<open>
  What is sent for a worker whose handler has made the response. The results of \<open>dump_to_buff\<close> and of
  \<open>send_result\<close> are ignored, so that a response that does not fit is sent without its content. A length that was
  never set, and one behind the buffer, are faults. The result of the function is never set and
  never looked at.
\<close>

definition retrieve_worker :: "bytes \<Rightarrow> worker \<Rightarrow> int option list \<Rightarrow> fault + bytes" where
  "retrieve_worker response_buf w ws =
     (case wk_response w of
        None \<Rightarrow> Inl Null_deref
      | Some r \<Rightarrow>
          (case dump_to_buff r response_buf of
             Inl e \<Rightarrow> Inl e
           | Inr (ret, d, None) \<Rightarrow> Inl Uninitialised
           | Inr (ret, d, Some len) \<Rightarrow>
               (case send_result d len ws of
                  Inl e \<Rightarrow> Inl e
                | Inr (ret', sent) \<Rightarrow> Inr sent)))"

text \<open>
  The handler gets the worker and sends the response; its result, \<open>ret\<close>, is ignored. A request
  that cannot be read closes the connection (-1) without an answer. The result, what is sent, and
  the buffer and the network behind the request.
\<close>

definition recv_request ::
    "(worker \<Rightarrow> fault + (int \<times> bytes)) \<Rightarrow> string \<Rightarrow> net \<Rightarrow> fault + (int \<times> bytes \<times> string \<times> net)" where
  "recv_request handler buffer cs =
     (case read_request buffer cs of
        Inl e \<Rightarrow> Inl e
      | Inr (False, w, st) \<Rightarrow> Inr (-1, [], st)
      | Inr (True, w, st) \<Rightarrow>
          (case handler w of
             Inl e \<Rightarrow> Inl e
           | Inr (ret, sent) \<Rightarrow> Inr (0, sent, st)))"

section \<open>Properties of the transfer\<close>

text \<open>A stream that delivers: no empty chunk, no NUL.\<close>

definition live :: "net \<Rightarrow> bool" where
  "live cs \<longleftrightarrow> [] \<notin> set cs \<and> no_nul (concat cs)"

lemma live_simps [simp]: "live []" "live (c # cs) \<longleftrightarrow> c \<noteq> [] \<and> no_nul c \<and> live cs"
  by (auto simp: live_def)

lemma no_nul_take_drop: "no_nul s \<Longrightarrow> no_nul (take n s)" "no_nul s \<Longrightarrow> no_nul (drop n s)"
  by (auto simp: no_nul_def dest: in_set_takeD in_set_dropD)

lemma read_data_live:
  assumes "live cs" "cs \<noteq> []" "0 < n"
  obtains bs cs' where "read_data n cs = (Some bs, cs')" "live cs'" "bs \<noteq> []" "no_nul bs"
    "length bs \<le> n" "concat cs = bs @ concat cs'"
proof -
  from assms(2) obtain c cs'' where "cs = c # cs''" by (cases cs) auto
  with assms that [of "take n c" "if n < length c then drop n c # cs'' else cs''"] show ?thesis
    by (auto simp: no_nul_take_drop split: if_splits)
qed

lemma length_header_end: "length header_end = 4"
  by (simp add: header_end_def)

lemma read_header_live:
  assumes "live cs" "buffer @ concat cs = header @ header_end @ rest"
    and h: "find0 header_end (header @ header_end) = Some (length header)"
  shows "\<exists>buffer' cs'. read_http_header_timeout buffer cs = (Some header, buffer', cs') \<and>
    buffer' @ concat cs' = rest \<and> live cs'"
  using assms(1,2)
proof (induction buffer cs rule: read_http_header_timeout.induct)
  case (1 buffer cs)
  have all: "find0 header_end (header @ header_end @ rest) = Some (length header)"
    using find0_append [OF h, of rest] by simp
  show ?case
  proof (cases "find0 header_end buffer")
    case (Some pos)
    then have "pos = length header"
      using find0_append [OF Some, of "concat cs"] 1(3) all by simp
    moreover from this have "length header + 4 \<le> length buffer"
      using find0_bound [OF Some] by (simp add: header_end_def)
    moreover from calculation have "take pos buffer = header"
      using append_split_le(1) [OF 1(3)] by simp
    moreover have "drop (pos + 4) buffer @ concat cs = rest"
      using append_split_le(2) [of buffer "concat cs" "header @ header_end" rest] 1(3) calculation
      by (simp add: length_header_end)
    ultimately show ?thesis using Some 1(2) by (subst read_http_header_timeout.simps) simp
  next
    case None
    then have "cs \<noteq> []" "0 < READ_BUF_SIZE" using 1(3) all by (auto simp: READ_BUF_SIZE_def)
    with 1(2) obtain bs cs' where r: "read_data READ_BUF_SIZE cs = (Some bs, cs')" "live cs'" "no_nul bs"
      "concat cs = bs @ concat cs'" by (rule read_data_live)
    then have "(buffer @ c_str bs) @ concat cs' = header @ header_end @ rest" using 1(3) by simp
    from 1(1) [OF None r(1) [symmetric] refl r(2) this] None r(1) show ?thesis
      by (subst read_http_header_timeout.simps) simp
  qed
qed

lemma readn_loop_live:
  assumes "live cs" "left \<le> length (concat cs)"
  shows "\<exists>cs'. readn_loop left cs = (take left (concat cs), 0, cs') \<and> concat cs' = drop left (concat cs) \<and> live cs'"
  using assms
proof (induction left cs rule: readn_loop.induct)
  case (1 left cs)
  show ?case
  proof (cases "left = 0")
    case True
    with 1(2) show ?thesis by (subst readn_loop.simps) simp
  next
    case False
    let ?len = "if READ_BUF_SIZE < left then READ_BUF_SIZE else left"
    have n: "cs \<noteq> []" "0 < ?len" using False 1(3) by (auto simp: READ_BUF_SIZE_def)
    with 1(2) obtain bs cs' where r: "read_data ?len cs = (Some bs, cs')" "live cs'" "length bs \<le> ?len"
      "concat cs = bs @ concat cs'" by (rule read_data_live) (use n in auto)
    have l: "length bs \<le> left" using r(3) by (auto split: if_splits)
    have "left - length bs \<le> length (concat cs')" using 1(3) r(4) by simp
    from 1(1) [OF False refl r(1) [symmetric] refl r(2) this] obtain cs'' where
      "readn_loop (left - length bs) cs' = (take (left - length bs) (concat cs'), 0, cs'')"
      "concat cs'' = drop (left - length bs) (concat cs')" "live cs''" by blast
    with False r(1,4) l show ?thesis by (subst readn_loop.simps) simp
  qed
qed

lemma readn_timeout_live:
  assumes "live cs" "buffer @ concat cs = content @ rest"
  shows "\<exists>buffer' cs'. readn_timeout buffer (length content) cs = (int (length content), content, buffer', cs') \<and>
    buffer' @ concat cs' = rest \<and> live cs'"
proof (cases "length content \<le> length buffer")
  case True
  with assms(2) have "take (length content) buffer = content" "drop (length content) buffer @ concat cs = rest"
    using append_split_le [OF assms(2)] by simp_all
  with True assms(1) show ?thesis by (simp add: readn_timeout_def)
next
  case False
  let ?n = "length content - length buffer"
  have t: "content = buffer @ take ?n (concat cs)" "rest = drop ?n (concat cs)"
    using False append_split_ge [OF assms(2)] by simp_all
  have "?n \<le> length (concat cs)" using arg_cong [OF assms(2), of length] by simp
  from readn_loop_live [OF assms(1) this] obtain cs' where
    "readn_loop ?n cs = (take ?n (concat cs), 0, cs')" "concat cs' = rest" "live cs'" using t(2) by auto
  with False t(1) show ?thesis by (simp add: readn_timeout_def)
qed

text \<open>
  The header up to the first blank line, as many bytes of content as it announces, and the rest.
\<close>

lemma read_request_live:
  assumes "live cs" "buffer @ concat cs = header @ header_end @ content @ rest"
    and "find0 header_end (header @ header_end) = Some (length header)"
    and "GetInfo (worker_new\<lparr>wk_header := header\<rparr>) = Inr (0, w)"
    and "wk_content_len w = int (length content)" "content \<noteq> []" "length content \<le> 2147483637"
  shows "\<exists>buffer' cs'. read_request buffer cs = Inr (True, w\<lparr>wk_content := Some (content @ [NUL])\<rparr>, buffer', cs') \<and>
    buffer' @ concat cs' = rest \<and> live cs'"
proof -
  from read_header_live [OF assms(1,2,3)] obtain b1 cs1 where
    h: "read_http_header_timeout buffer cs = (Some header, b1, cs1)" "b1 @ concat cs1 = content @ rest" "live cs1"
    by blast
  from readn_timeout_live [OF h(3,2)] obtain b2 cs2 where
    c: "readn_timeout b1 (length content) cs1 = (int (length content), content, b2, cs2)"
    "b2 @ concat cs2 = rest" "live cs2" by blast
  have "read_content w b1 cs1 = Inr (True, w\<lparr>wk_content := Some (content @ [NUL])\<rparr>, b2, cs2)"
    using assms(5-7) c(1) by (simp add: read_content_def)
  with h(1) assms(4) c(2,3) show ?thesis by (simp add: read_request_def)
qed

text \<open>
  C11: A request is read whole, however the network cuts it into chunks and whatever part of it
  was read ahead with the request before: the header up to the first blank line, then as many bytes
  of content as it announces; what follows, the next request, stays in the buffer and the stream.
\<close>

theorem read_request_any_chunks:
  assumes "live cs" "buffer @ concat cs = header @ header_end @ content @ rest"
    and "find0 header_end (header @ header_end) = Some (length header)"
    and "GetInfo (worker_new\<lparr>wk_header := header\<rparr>) = Inr (0, w)"
    and "wk_content_len w = int (length content)" "content \<noteq> []" "length content \<le> 2147483637"
  shows "\<exists>buffer' cs'. read_request buffer cs = Inr (True, w\<lparr>wk_content := Some (content @ [NUL])\<rparr>, buffer', cs') \<and>
    buffer' @ concat cs' = rest \<and> live cs'"
  by (rule read_request_live [OF assms])

theorem read_request_any_chunks_witness:
  "\<exists>w buffer' cs'. read_request []
      [''POS'', ''T /q HTTP/1.0'' @ line_sep @ ''Content-Length: 2'' @ line_sep, line_sep @ ''o'', ''kGET''] =
    Inr (True, w\<lparr>wk_content := Some (''ok'' @ [NUL])\<rparr>, buffer', cs') \<and> buffer' @ concat cs' = ''GET''"
proof -
  let ?h = "''POST /q HTTP/1.0'' @ line_sep @ ''Content-Length: 2''"
  let ?cs = "[''POS'', ''T /q HTTP/1.0'' @ line_sep @ ''Content-Length: 2'' @ line_sep, line_sep @ ''o'', ''kGET'']"
  have "live ?cs" "[] @ concat ?cs = ?h @ header_end @ ''ok'' @ ''GET''"
    by (simp_all add: line_sep_def header_end_def)
  moreover have "find0 header_end (?h @ header_end) = Some (length ?h)" by code_simp
  moreover have "request_uri ?h = Some ''q''" "find0 ''Content-Length:'' ?h = Some 18"
      "scan_int (drop 15 (c_str (drop 18 ?h))) = Some (2, [])"
      "find0 ''Connection: close'' ?h = None" "find0 ''Connection: keep-alive'' ?h = None"
    by code_simp+
  then have "GetInfo (worker_new\<lparr>wk_header := ?h\<rparr>) =
      Inr (0, worker_new\<lparr>wk_header := ?h, wk_content_len := 2, wk_url := ''q''\<rparr>)"
    by (simp add: GetInfo_def worker_new_def)
  ultimately show ?thesis
    using read_request_any_chunks [of ?cs "[]" ?h "''ok''" "''GET''"] by fastforce
qed

subsection \<open>Writing\<close>

text \<open>As long as every write makes progress, the bytes are sent in order and completely.\<close>

lemma writen_timeout_sends:
  assumes "0 \<le> pos" "0 \<le> left" "int (length buf) \<ge> pos + left" "list_all (\<lambda>w. \<exists>n. w = Some n \<and> 0 < n) ws"
    and "\<forall>k \<le> length ws. k < length ws \<longrightarrow> sum_list (map the (take (Suc k) ws)) \<le> left"
    and "sum_list (map the ws) = left"
  shows "writen_timeout buf pos left ws = Inr (pos + left, take (nat left) (drop (nat pos) buf))"
  using assms
proof (induction buf pos left ws rule: writen_timeout.induct)
  case (1 buf pos left)
  then show ?case by simp
next
  case (2 buf pos left w ws)
  then obtain n where w: "w = Some n" "0 < n" by auto
  have nl: "n \<le> left" using 2(6) w by force
  have k: "\<forall>k \<le> length ws. k < length ws \<longrightarrow> sum_list (map the (take (Suc k) ws)) \<le> left - n"
  proof (intro allI impI)
    fix k assume "k \<le> length ws" "k < length ws"
    with 2(6) [rule_format, of "Suc k"] w show "sum_list (map the (take (Suc k) ws)) \<le> left - n" by simp
  qed
  have "writen_timeout buf (pos + n) (left - n) ws =
      Inr (pos + left, take (nat (left - n)) (drop (nat (pos + n)) buf))"
    using 2(1) [of n] 2(2-7) w nl k by simp
  moreover have "take (nat n) (drop (nat pos) buf) @ take (nat (left - n)) (drop (nat (pos + n)) buf) =
      take (nat left) (drop (nat pos) buf)"
  proof -
    have "nat left = nat n + nat (left - n)" "nat (pos + n) = nat n + nat pos" using 2(2) w nl by auto
    then show ?thesis by (simp add: take_add)
  qed
  ultimately show ?case using 2(2-4) w nl by simp
qed

end
