(* ===== verification/Http_Connections.thy ===== *)
theory Http_Connections
  imports Http_Server
begin

text \<open>
  The table of connections of \<open>Http_Server\<close> under several threads
  (\<^verbatim>\<open>src/http_server/http_server.cpp\<close>, \<^verbatim>\<open>socket_handle.hpp\<close>). Each operation under a mutex is one
  function on the state; \<open>server_step\<close> is one of them done by some thread. \<open>hs_serving\<close> are the
  connections that a thread is serving between \<open>get_handle\<close> and \<open>release_handle\<close>, \<open>hs_rearm\<close> those for
  which a thread that has answered still has to call \<open>add_input_fd\<close>. The operating system gives
  out any number that is not open.
\<close>

record socket_handle =
  sh_fd :: int
  sh_ref :: int
  sh_flag :: int
  sh_read_buf :: string

definition SocketHandle :: socket_handle where
  "SocketHandle = \<lparr>sh_fd = -1, sh_ref = 0, sh_flag = 0, sh_read_buf = []\<rparr>"

definition acquire :: "socket_handle \<Rightarrow> socket_handle" where
  "acquire h = h\<lparr>sh_ref := i32 (sh_ref h + 1)\<rparr>"

definition release :: "socket_handle \<Rightarrow> socket_handle" where
  "release h = h\<lparr>sh_ref := i32 (sh_ref h - 1)\<rparr>"

definition MAX_FD_NUM :: int where
  "MAX_FD_NUM = 1024"

record http_server =
  hs_fd_set :: "int \<rightharpoonup> socket_handle"
  hs_now_connections :: int
  hs_epoll :: "int set"
  hs_serving :: "int multiset"
  hs_rearm :: "int multiset"

definition Http_Server :: http_server where
  "Http_Server = \<lparr>hs_fd_set = Map.empty, hs_now_connections = 0, hs_epoll = {}, hs_serving = {#}, hs_rearm = {#}\<rparr>"

definition add_input_fd :: "int \<Rightarrow> http_server \<Rightarrow> http_server" where
  "add_input_fd fd s = (if fd \<in> dom (hs_fd_set s) then s\<lparr>hs_epoll := insert fd (hs_epoll s)\<rparr> else s)"

definition del_input_fd :: "int \<Rightarrow> http_server \<Rightarrow> http_server" where
  "del_input_fd fd s = s\<lparr>hs_epoll := hs_epoll s - {fd}\<rparr>"

text \<open>\<^verbatim>\<open>map::insert\<close> leaves a handle that is there.\<close>

definition insert_handle :: "int \<Rightarrow> socket_handle \<Rightarrow> http_server \<Rightarrow> int \<times> http_server" where
  "insert_handle fd h s =
     (case hs_fd_set s fd of
        None \<Rightarrow> (0, s\<lparr>hs_fd_set := (hs_fd_set s)(fd \<mapsto> h)\<rparr>)
      | Some old \<Rightarrow> (-1, s))"

definition create_handle :: "int \<Rightarrow> int \<Rightarrow> http_server \<Rightarrow> http_server" where
  "create_handle fd flag s = snd (insert_handle fd (SocketHandle\<lparr>sh_flag := flag, sh_fd := fd\<rparr>) s)"

text \<open>A new connection, refused (closed again) when there are too many.\<close>

definition accept_connection :: "int \<Rightarrow> http_server \<Rightarrow> http_server" where
  "accept_connection new_fd s =
     (if MAX_FD_NUM \<le> hs_now_connections s \<or> 1024 \<le> new_fd then s
      else add_input_fd new_fd (create_handle new_fd 1
             (s\<lparr>hs_now_connections := hs_now_connections s + 1\<rparr>)))"

definition get_handle :: "int \<Rightarrow> http_server \<Rightarrow> (socket_handle \<times> http_server) option" where
  "get_handle fd s =
     (case hs_fd_set s fd of
        None \<Rightarrow> None
      | Some h \<Rightarrow> Some (acquire h, s\<lparr>hs_fd_set := (hs_fd_set s)(fd \<mapsto> acquire h)\<rparr>))"

text \<open>
  When the connection is to be closed but is still referred to, the message printed calls
  \<open>release\<close> a second time. \<^const>\<open>None\<close> is a handle that has been deleted.
\<close>

definition release_handle :: "int \<Rightarrow> bool \<Rightarrow> http_server \<Rightarrow> http_server option" where
  "release_handle fd close_handle s =
     (case hs_fd_set s fd of
        None \<Rightarrow> None
      | Some h \<Rightarrow>
          Some (if close_handle then
                  (if sh_ref (release h) = 0
                   then (del_input_fd fd s)\<lparr>hs_fd_set := (hs_fd_set s)(fd := None),
                          hs_now_connections := hs_now_connections s - 1\<rparr>
                   else s\<lparr>hs_fd_set := (hs_fd_set s)(fd \<mapsto> release (release h))\<rparr>)
                else s\<lparr>hs_fd_set := (hs_fd_set s)(fd \<mapsto> release h)\<rparr>))"

section \<open>The steps of the threads\<close>

text \<open>
  Accepting a connection is one step, although the counter and the table are changed under different mutexes: both
  changes are made while \<^verbatim>\<open>_epoll_mutex\<close> is held, and only a thread that holds it looks at the counter. An
  event is taken from \<^verbatim>\<open>epoll\<close> when it is handled; the events \<^verbatim>\<open>epoll_wait\<close> has returned and that are still to be
  handled are not kept apart. A thread whose handle has been deleted by another has no further step.
\<close>

datatype server_event = Accept int | Dispatch int | Fail int | Reply int bool | Rearm int

inductive server_step :: "http_server \<Rightarrow> server_event \<Rightarrow> http_server \<Rightarrow> bool" where
  accept: "fd \<notin> dom (hs_fd_set s) \<Longrightarrow> 0 \<le> fd \<Longrightarrow> server_step s (Accept fd) (accept_connection fd s)"
| dispatch: "fd \<in> hs_epoll s \<Longrightarrow> get_handle fd (del_input_fd fd s) = Some (h, s') \<Longrightarrow>
     server_step s (Dispatch fd) (s'\<lparr>hs_serving := add_mset fd (hs_serving s)\<rparr>)"
| fail: "fd \<in># hs_serving s \<Longrightarrow> release_handle fd True s = Some s' \<Longrightarrow>
     server_step s (Fail fd) (s'\<lparr>hs_serving := hs_serving s - {#fd#}\<rparr>)"
| reply: "fd \<in># hs_serving s \<Longrightarrow> release_handle fd (\<not> keep_alive) s = Some s' \<Longrightarrow>
     server_step s (Reply fd keep_alive)
       (s'\<lparr>hs_serving := hs_serving s - {#fd#}, hs_rearm := add_mset fd (hs_rearm s)\<rparr>)"
| rearm: "fd \<in># hs_rearm s \<Longrightarrow>
     server_step s (Rearm fd) ((add_input_fd fd s)\<lparr>hs_rearm := hs_rearm s - {#fd#}\<rparr>)"

inductive_simps server_step_simps:
  "server_step s (Accept fd) s'" "server_step s (Dispatch fd) s'" "server_step s (Fail fd) s'"
  "server_step s (Reply fd k) s'" "server_step s (Rearm fd) s'"

text \<open>A step that does not accept a connection whose number is still to be rearmed.\<close>

definition no_reuse :: "http_server \<Rightarrow> server_event \<Rightarrow> bool" where
  "no_reuse s e \<longleftrightarrow> (case e of Accept fd \<Rightarrow> fd \<notin># hs_rearm s | _ \<Rightarrow> True)"

text \<open>The states of all runs, and of those whose steps are all of this kind (\<open>careful\<close>).\<close>

inductive server_reach :: "bool \<Rightarrow> http_server \<Rightarrow> bool" for careful where
  start: "server_reach careful Http_Server"
| step: "server_reach careful s \<Longrightarrow> server_step s e s' \<Longrightarrow> careful \<longrightarrow> no_reuse s e \<Longrightarrow> server_reach careful s'"

lemmas server_defs = add_input_fd_def del_input_fd_def insert_handle_def create_handle_def
  accept_connection_def get_handle_def release_handle_def acquire_def release_def SocketHandle_def MAX_FD_NUM_def

section \<open>Properties\<close>

subsection \<open>The table\<close>

definition table_ok :: "http_server \<Rightarrow> bool" where
  "table_ok s \<longleftrightarrow> finite (dom (hs_fd_set s)) \<and> hs_now_connections s = int (card (dom (hs_fd_set s))) \<and>
     hs_now_connections s \<le> MAX_FD_NUM \<and> dom (hs_fd_set s) \<subseteq> {0..<1024} \<and> hs_epoll s \<subseteq> dom (hs_fd_set s) \<and>
     (\<forall>fd h. hs_fd_set s fd = Some h \<longrightarrow> sh_fd h = fd)"

lemma table_ok_init: "table_ok Http_Server"
  by (simp add: table_ok_def Http_Server_def MAX_FD_NUM_def)

lemma table_ok_cong:
  "hs_fd_set s' = hs_fd_set s \<Longrightarrow> hs_now_connections s' = hs_now_connections s \<Longrightarrow> hs_epoll s' \<subseteq> hs_epoll s \<Longrightarrow>
   table_ok s \<Longrightarrow> table_ok s'"
  by (auto simp: table_ok_def)

lemma accept_ok:
  assumes "table_ok s" "fd \<notin> dom (hs_fd_set s)" "0 \<le> fd"
  shows "table_ok (accept_connection fd s)"
proof (cases "MAX_FD_NUM \<le> hs_now_connections s \<or> 1024 \<le> fd")
  case False
  have n: "hs_fd_set s fd = None" using assms(2) by auto
  have "card (insert fd (dom (hs_fd_set s))) = Suc (card (dom (hs_fd_set s)))"
    using assms(1,2) by (intro card_insert_disjoint) (simp_all add: table_ok_def)
  with False n assms(1,3) show ?thesis
    by (auto simp: table_ok_def accept_connection_def add_input_fd_def create_handle_def insert_handle_def)
qed (use assms(1) in \<open>simp add: accept_connection_def\<close>)

lemma same_dom_ok:
  assumes "table_ok s" "hs_fd_set s fd = Some h" "sh_fd h' = sh_fd h"
  shows "table_ok (s\<lparr>hs_fd_set := (hs_fd_set s)(fd \<mapsto> h')\<rparr>)"
proof -
  have "insert fd (dom (hs_fd_set s)) = dom (hs_fd_set s)" using assms(2) by auto
  with assms show ?thesis by (auto simp: table_ok_def)
qed

lemma get_handle_ok:
  assumes "table_ok s" "get_handle fd s = Some (h, s')"
  shows "table_ok s'"
  using assms same_dom_ok [OF assms(1), of fd]
  by (auto simp: get_handle_def acquire_def split: option.splits)

lemma release_handle_ok:
  assumes "table_ok s" "release_handle fd c s = Some s'"
  shows "table_ok s'"
proof -
  obtain h where h: "hs_fd_set s fd = Some h" using assms(2) by (auto simp: release_handle_def split: option.splits)
  have "fd \<in> dom (hs_fd_set s)" "finite (dom (hs_fd_set s))" using assms(1) h by (auto simp: table_ok_def)
  then have "card (dom (hs_fd_set s) - {fd}) = card (dom (hs_fd_set s)) - 1" "0 < card (dom (hs_fd_set s))"
    by (simp, metis card_gt_0_iff empty_iff)
  then have "table_ok ((del_input_fd fd s)\<lparr>hs_fd_set := (hs_fd_set s)(fd := None),
      hs_now_connections := hs_now_connections s - 1\<rparr>)"
    using assms(1) by (auto simp: table_ok_def del_input_fd_def)
  with assms(2) h same_dom_ok [OF assms(1) h] show ?thesis
    by (auto simp: release_handle_def release_def split: if_splits)
qed

lemma server_step_ok: "server_step s e s' \<Longrightarrow> table_ok s \<Longrightarrow> table_ok s'"
proof (induction rule: server_step.induct)
  case (accept fd s)
  then show ?case by (intro accept_ok) auto
next
  case (dispatch fd s h s')
  have "table_ok (del_input_fd fd s)" by (rule table_ok_cong [OF _ _ _ dispatch(3)]) (auto simp: del_input_fd_def)
  from get_handle_ok [OF this dispatch(2)] show ?case by (rule table_ok_cong [rotated 3]) auto
next
  case (fail fd s s')
  from release_handle_ok [OF fail(3,2)] show ?case by (rule table_ok_cong [rotated 3]) auto
next
  case (reply fd s k s')
  from release_handle_ok [OF reply(3,2)] show ?case by (rule table_ok_cong [rotated 3]) auto
next
  case (rearm fd s)
  then show ?case by (auto simp: table_ok_def add_input_fd_def)
qed

subsection \<open>Every connection has one owner\<close>

definition owners :: "http_server \<Rightarrow> int \<Rightarrow> nat" where
  "owners s fd = count (hs_serving s) fd + count (hs_rearm s) fd + (if fd \<in> hs_epoll s then 1 else 0)"

definition owned :: "http_server \<Rightarrow> int \<Rightarrow> bool" where
  "owned s fd \<longleftrightarrow>
     (case hs_fd_set s fd of
        Some h \<Rightarrow> owners s fd = 1 \<and> sh_ref h = int (count (hs_serving s) fd)
      | None \<Rightarrow> count (hs_serving s) fd = 0 \<and> fd \<notin> hs_epoll s)"

fun event_fd :: "server_event \<Rightarrow> int" where
  "event_fd (Accept fd) = fd"
| "event_fd (Dispatch fd) = fd"
| "event_fd (Fail fd) = fd"
| "event_fd (Reply fd k) = fd"
| "event_fd (Rearm fd) = fd"

lemma i32_small [simp]: "i32 1 = 1" "i32 0 = 0"
  by (simp_all add: i32_def)

lemma owned_frame:
  "server_step s e s' \<Longrightarrow> fd \<noteq> event_fd e \<Longrightarrow> owned s' fd = owned s fd"
  by (induction rule: server_step.induct)
    (auto simp: owned_def owners_def server_defs split: option.splits if_splits)

lemma owned_serving:
  assumes "owned s fd" "fd \<in># hs_serving s" "hs_fd_set s fd = Some h"
  shows "count (hs_serving s) fd = 1" "count (hs_rearm s) fd = 0" "fd \<notin> hs_epoll s" "sh_ref h = 1"
proof -
  obtain n where "count (hs_serving s) fd = Suc n" using assms(2) by (metis count_eq_zero_iff not0_implies_Suc)
  with assms(1,3) show "count (hs_serving s) fd = 1" "count (hs_rearm s) fd = 0" "fd \<notin> hs_epoll s" "sh_ref h = 1"
    by (auto simp: owned_def owners_def split: if_splits)
qed

lemma release_handle_Some:
  assumes "release_handle fd c s = Some s'"
  obtains h where "hs_fd_set s fd = Some h"
  using assms by (auto simp: release_handle_def split: option.splits)

lemma owned_here:
  "server_step s e s' \<Longrightarrow> no_reuse s e \<Longrightarrow> owned s (event_fd e) \<Longrightarrow> owned s' (event_fd e)"
proof (induction rule: server_step.induct)
  case (accept fd s)
  then have "hs_fd_set s fd = None" "count (hs_rearm s) fd = 0" by (auto simp: no_reuse_def not_in_iff)
  with accept(4) show ?case by (simp add: owned_def owners_def server_defs)
next
  case (dispatch fd s h s')
  then obtain g where g: "hs_fd_set s fd = Some g" "s' = s\<lparr>hs_epoll := hs_epoll s - {fd},
      hs_fd_set := (hs_fd_set s)(fd \<mapsto> acquire g)\<rparr>"
    by (auto simp: get_handle_def del_input_fd_def split: option.splits)
  with dispatch(1,4) have "count (hs_serving s) fd = 0" "count (hs_rearm s) fd = 0" "sh_ref g = 0"
    by (simp_all add: owned_def owners_def)
  with g show ?case by (simp add: owned_def owners_def acquire_def)
next
  case (fail fd s s')
  obtain h where h: "hs_fd_set s fd = Some h" by (rule release_handle_Some [OF fail(2)])
  have c: "owned s fd" using fail(4) by simp
  from owned_serving [OF c fail(1) h] h fail(2) show ?case
    by (auto simp: owned_def owners_def release_handle_def release_def del_input_fd_def)
next
  case (reply fd s k s')
  obtain h where h: "hs_fd_set s fd = Some h" by (rule release_handle_Some [OF reply(2)])
  have c: "owned s fd" using reply(4) by simp
  from owned_serving [OF c reply(1) h] h reply(2) show ?case
    by (cases k) (auto simp: owned_def owners_def release_handle_def release_def del_input_fd_def)
next
  case (rearm fd s)
  obtain n where "count (hs_rearm s) fd = Suc n" using rearm(1) by (metis count_eq_zero_iff not0_implies_Suc)
  with rearm(3) show ?case
    by (auto simp: owned_def owners_def add_input_fd_def split: option.splits if_splits)
qed

lemma owned_step: "server_step s e s' \<Longrightarrow> no_reuse s e \<Longrightarrow> \<forall>fd. owned s fd \<Longrightarrow> \<forall>fd. owned s' fd"
  using owned_frame owned_here by metis

text \<open>
  C10: The table of connections. In every run of the threads the counter is the number of open
  connections, never more than the limit, each filed under its own number, and only open ones are
  waited for. In a run in which no connection is accepted under a number that a thread has still to
  rearm, every open connection is moreover in exactly one place (waited for, served by one thread,
  or to be rearmed) and its reference count is the number of threads serving it; then the reply
  that is to close it does close it.
\<close>

theorem server_connections:
  assumes "server_reach careful s"
  shows "hs_now_connections s = int (card (dom (hs_fd_set s))) \<and> hs_now_connections s \<le> 1024 \<and>
    (\<forall>fd h. hs_fd_set s fd = Some h \<longrightarrow> sh_fd h = fd) \<and> hs_epoll s \<subseteq> dom (hs_fd_set s) \<and>
    (careful \<longrightarrow> (\<forall>fd h. hs_fd_set s fd = Some h \<longrightarrow> owners s fd = 1 \<and>
      sh_ref h = int (count (hs_serving s) fd) \<and>
      (\<forall>s'. server_step s (Reply fd False) s' \<longrightarrow> fd \<notin> dom (hs_fd_set s'))))"
proof -
  have t: "table_ok s"
    using assms by (induction rule: server_reach.induct) (auto intro: table_ok_init server_step_ok)
  have o: "careful \<longrightarrow> (\<forall>fd. owned s fd)"
    using assms
  proof (induction rule: server_reach.induct)
    case start
    show ?case by (simp add: owned_def Http_Server_def)
  next
    case (step s e s')
    then show ?case using owned_step by blast
  qed
  have "fd \<notin> dom (hs_fd_set s')" if "owned s fd" "server_step s (Reply fd False) s'" for fd s'
  proof -
    from that(2) obtain u where u: "fd \<in># hs_serving s" "release_handle fd True s = Some u"
      "hs_fd_set s' = hs_fd_set u" by (auto simp: server_step_simps)
    obtain h where h: "hs_fd_set s fd = Some h" by (rule release_handle_Some [OF u(2)])
    from owned_serving [OF that(1) u(1) h] h u show ?thesis
      by (auto simp: release_handle_def release_def del_input_fd_def)
  qed
  with t o show ?thesis by (auto simp: table_ok_def MAX_FD_NUM_def owned_def split: option.splits)
qed

theorem server_connections_witness:
  "\<exists>s h. server_reach True s \<and> hs_fd_set s 5 = Some h \<and> hs_now_connections s = 1 \<and>
    owners s 5 = 1 \<and> sh_ref h = int (count (hs_serving s) 5)"
proof -
  let ?s = "accept_connection 5 Http_Server"
  have "server_step Http_Server (Accept 5) ?s"
    by (rule server_step.accept) (auto simp: Http_Server_def)
  then have r: "server_reach True ?s"
    by (rule server_reach.step [OF server_reach.start]) (simp add: no_reuse_def Http_Server_def)
  obtain h where h: "hs_fd_set ?s 5 = Some h"
    by (simp add: server_defs Http_Server_def)
  have "dom (hs_fd_set ?s) = {5}" by (auto simp: server_defs Http_Server_def)
  with server_connections [OF r] r h show ?thesis by auto
qed

subsection \<open>The race\<close>

text \<open>A connection nobody waits for, serves or will rearm.\<close>

definition lost :: "http_server \<Rightarrow> int \<Rightarrow> bool" where
  "lost s fd \<longleftrightarrow> fd \<in> dom (hs_fd_set s) \<and> owners s fd = 0"

lemma lost_step:
  assumes "server_step s e s'" "lost s fd"
  shows "lost s' fd"
proof (cases "fd = event_fd e")
  case True
  with assms show ?thesis
    by (induction rule: server_step.induct) (auto simp: lost_def owners_def count_eq_zero_iff split: if_splits)
next
  case False
  with assms show ?thesis
    by (induction rule: server_step.induct)
      (auto simp: lost_def owners_def server_defs split: option.splits if_splits)
qed

text \<open>
  C27: A connection can be lost for ever. A thread that has closed a connection still rearms its
  number. If a new connection is accepted under that number and dispatched in between, two threads
  serve it at once; when both are to close it neither does, because the reference count is not zero
  for the first and is decremented twice. From then on, in every continuation, the connection stays
  in the table, counted, and nobody waits for it, serves it or will rearm it.
\<close>

theorem connection_lost:
  "\<exists>s. server_reach False s \<and> 5 \<in> dom (hs_fd_set s) \<and> owners s 5 = 0 \<and>
    {s'. (\<lambda>s s'. \<exists>e. server_step s e s')\<^sup>*\<^sup>* s s'} \<subseteq> {s'. 5 \<in> dom (hs_fd_set s') \<and> owners s' 5 = 0}"
proof -
  have stay: "(\<lambda>s s'. \<exists>e. server_step s e s')\<^sup>*\<^sup>* s s' \<Longrightarrow> lost s 5 \<Longrightarrow> lost s' 5" for s s'
    by (induction rule: rtranclp_induct) (auto intro: lost_step)
  let ?st = "\<lambda>r n ep sv re. \<lparr>hs_fd_set = r, hs_now_connections = n, hs_epoll = ep, hs_serving = sv, hs_rearm = re\<rparr>"
  let ?h = "\<lambda>k. [5 \<mapsto> \<lparr>sh_fd = 5, sh_ref = k, sh_flag = 1, sh_read_buf = []\<rparr>]"
  have go: "server_reach False s \<Longrightarrow> server_step s e s' \<Longrightarrow> server_reach False s'" for s e s'
    by (rule server_reach.step) auto
  have i: "i32 2 = 2" "i32 (- 1) = - 1" "i32 (- 2) = - 2" by (simp_all add: i32_def)
  have accept: "server_step (?st Map.empty 0 {} {#} re) (Accept 5) (?st (?h 0) 1 {5} {#} re)" for re
    using server_step.accept [of 5 "?st Map.empty 0 {} {#} re"] by (simp add: server_defs)
  have dispatch: "in_i32 (k + 1) \<Longrightarrow> server_step (?st (?h k) 1 {5} sv re) (Dispatch 5) (?st (?h (k + 1)) 1 {} (add_mset 5 sv) re)"
    for k sv re
    using server_step.dispatch [of 5 "?st (?h k) 1 {5} sv re"] by (simp add: server_defs)
  have fail: "k \<noteq> 1 \<Longrightarrow> in_i32 (k - 1) \<Longrightarrow> in_i32 (k - 2) \<Longrightarrow>
      server_step (?st (?h k) 1 {} (add_mset 5 sv) re) (Fail 5) (?st (?h (k - 2)) 1 {} sv re)" for k sv re
    using server_step.fail [of 5 "?st (?h k) 1 {} (add_mset 5 sv) re"] by (simp add: server_defs)
  have reply: "server_step (?st (?h 1) 1 {} {#5#} {#}) (Reply 5 False) (?st Map.empty 0 {} {#} {#5#})"
    using server_step.reply [of 5 "?st (?h 1) 1 {} {#5#} {#}" False] by (simp add: server_defs)
  have rearm: "server_step (?st (?h 1) 1 {} {#5#} {#5#}) (Rearm 5) (?st (?h 1) 1 {5} {#5#} {#})"
    using server_step.rearm [of 5 "?st (?h 1) 1 {} {#5#} {#5#}"] by (simp add: server_defs)
  have b: "in_i32 (0 + 1)" "in_i32 (1 + 1)" "in_i32 (2 - 1)" "in_i32 (2 - 2)" "in_i32 (0 - 1)" "in_i32 (0 - 2)"
    by (simp_all add: in_i32_def)
  have "server_reach False (?st Map.empty 0 {} {#} {#})"
    using server_reach.start by (simp add: Http_Server_def)
  from go [OF go [OF go [OF this accept] dispatch [OF b(1)]]] reply
  have "server_reach False (?st Map.empty 0 {} {#} {#5#})" by simp
  from go [OF go [OF this accept] dispatch [OF b(1)]] rearm go
  have "server_reach False (?st (?h 1) 1 {5} {#5#} {#})" by simp
  from go [OF this dispatch [OF b(2)]]
  have "server_reach False (?st (?h 2) 1 {} (add_mset 5 {#5#}) {#})" by simp
  from go [OF this fail [OF _ b(3,4)]]
  have "server_reach False (?st (?h 0) 1 {} (add_mset 5 {#}) {#})" by simp
  from go [OF this fail [OF _ b(5,6)]]
  have r: "server_reach False (?st (?h (- 2)) 1 {} {#} {#})" by simp
  have "lost (?st (?h (- 2)) 1 {} {#} {#}) 5" by (simp add: lost_def owners_def)
  with r stay show ?thesis unfolding lost_def by blast
qed

end
