(* ===== verification/Url_Code.thy ===== *)
theory Url_Code
  imports Ctype
begin

unbundle bit_operations_syntax

text \<open>
  URL coding: \<^verbatim>\<open>src/include/UrlEncodeAndDecode.h\<close>. A buffer of \<^verbatim>\<open>malloc\<close> that is filled and
  terminated is the string written to it.
\<close>

definition i8 :: "int \<Rightarrow> int" where
  "i8 x = (x + 128) mod 256 - 128"

definition from_hex :: "char \<Rightarrow> int" where
  "from_hex ch = i8 (if isdigit ch then schar ch - 48 else tolower ch - 97 + 10)"

definition to_hex :: "int \<Rightarrow> char" where
  "to_hex code = ''0123456789abcdef'' ! nat (code AND 15)"

definition unreserved :: "char \<Rightarrow> bool" where
  "unreserved c \<longleftrightarrow> isalnum c \<or> c = CHR ''-'' \<or> c = CHR ''_'' \<or> c = CHR ''.'' \<or> c = CHR ''~''"

definition encode_char :: "char \<Rightarrow> string" where
  "encode_char c =
     (if unreserved c then [c]
      else if c = CHR '' '' then [CHR ''+'']
      else [CHR ''%'', to_hex (drop_bit 4 (schar c)), to_hex (schar c AND 15)])"

fun url_encode_loop :: "string \<Rightarrow> string" where
  "url_encode_loop [] = []"
| "url_encode_loop (c # cs) = encode_char c @ url_encode_loop cs"

definition url_encode :: "string \<Rightarrow> string" where
  "url_encode str = url_encode_loop (c_str str)"

text \<open>A percent sign with fewer than two bytes behind it is dropped.\<close>

fun url_decode_loop :: "string \<Rightarrow> string" where
  "url_decode_loop [] = []"
| "url_decode_loop (c # cs) =
     (if c = CHR ''%''
      then (case cs of
              a # b # cs' \<Rightarrow> char_of (push_bit 4 (from_hex a) OR from_hex b) # url_decode_loop cs'
            | _ \<Rightarrow> url_decode_loop cs)
      else if c = CHR ''+'' then CHR '' '' # url_decode_loop cs
      else c # url_decode_loop cs)"

text \<open>The result is read back as a C string, so that a decoded NUL ends it.\<close>

definition url_decode :: "string \<Rightarrow> string" where
  "url_decode str = c_str (url_decode_loop (c_str str))"

definition url_encoded_str :: "string \<Rightarrow> string" where
  "url_encoded_str str = c_str (url_encode str)"

definition url_decoded_str :: "string \<Rightarrow> string" where
  "url_decoded_str str = url_decode str"

definition is_hex_digit :: "char \<Rightarrow> bool" where
  "is_hex_digit c \<longleftrightarrow> isdigit c \<or> (97 \<le> schar c \<and> schar c \<le> 102) \<or> (65 \<le> schar c \<and> schar c \<le> 70)"

fun url_check_loop :: "string \<Rightarrow> nat \<Rightarrow> nat option" where
  "url_check_loop [] naive_count = Some naive_count"
| "url_check_loop (c # cs) naive_count =
     (if c = CHR ''%''
      then (case cs of
              a # b # cs' \<Rightarrow>
                if is_hex_digit a \<and> is_hex_digit b then url_check_loop cs' naive_count else None
            | _ \<Rightarrow> None)
      else if c = CHR ''+'' \<or> c = CHR '' '' \<or> c = CHR ''~'' then url_check_loop cs (naive_count + 1)
      else None)"

definition is_url_encode_str :: "string \<Rightarrow> bool" where
  "is_url_encode_str str =
     (case url_check_loop (c_str str) 0 of
        None \<Rightarrow> False
      | Some naive_count \<Rightarrow> naive_count \<noteq> length str)"

section \<open>Properties\<close>

lemma nibble_cases:
  fixes v :: int
  assumes "0 \<le> v" "v < 16"
  shows "v \<in> set [0, 1, 2, 3, 4, 5, 6, 7, 8, 9, 10, 11, 12, 13, 14, 15]"
  using assms unfolding set_simps insert_iff empty_iff by presburger

lemma from_to_hex_all:
  "list_all (\<lambda>v. from_hex (to_hex v) = v \<and> to_hex v \<noteq> NUL) [0, 1, 2, 3, 4, 5, 6, 7, 8, 9, 10, 11, 12, 13, 14, 15]"
  by code_simp

lemma from_to_hex:
  assumes "0 \<le> v" "v < 16"
  shows "from_hex (to_hex v) = v" "to_hex v \<noteq> NUL"
  using nibble_cases [OF assms] from_to_hex_all unfolding list_all_iff by blast+

lemma to_hex_AND: "to_hex (v AND 15) = to_hex v"
  by (simp add: to_hex_def and.assoc)

lemma AND_15: "(v :: int) AND 15 = v mod 16"
  using take_bit_eq_mask [of 4 v] by (simp add: take_bit_eq_mod mask_eq_exp_minus_1)

lemma schar_mod: "schar c mod 256 = int (of_char c)"
proof -
  have "int (of_char c) mod 256 = int (of_char c)" using nat_of_char_less_256 [of c]
    by (simp add: zmod_int [symmetric])
  moreover have "(int (of_char c) - 256) mod 256 = int (of_char c) mod 256"
    by (metis minus_mod_self2)
  ultimately show ?thesis by (simp add: schar_def of_nat_of_char)
qed

lemma nibble_of_mod:
  fixes v w :: int
  assumes "v mod 256 = w"
  shows "v div 16 mod 16 = w div 16" "v mod 16 = w mod 16" "0 \<le> w div 16" "w div 16 < 16" "w = 16 * (w div 16) + w mod 16"
proof -
  have "w = 16 * (v div 16 mod 16) + v mod 16"
    using assms zmod_zmult2_eq [of 16 v 16] by simp
  moreover have "0 \<le> v div 16 mod 16" "v div 16 mod 16 < 16" "0 \<le> v mod 16" "v mod 16 < 16" by simp_all
  ultimately have "w div 16 = v div 16 mod 16" "w mod 16 = v mod 16" by simp_all
  then show "v div 16 mod 16 = w div 16" "v mod 16 = w mod 16" "0 \<le> w div 16" "w div 16 < 16"
    by simp_all
  show "w = 16 * (w div 16) + w mod 16" by simp
qed

lemma high_nibble: "drop_bit 4 (schar c) AND 15 = int (of_char c) div 16"
  using nibble_of_mod(1) [OF schar_mod, of c] by (simp add: AND_15 drop_bit_eq_div)

lemma low_nibble: "schar c AND 15 = int (of_char c) mod 16"
  using nibble_of_mod(2) [OF schar_mod, of c] by (simp add: AND_15)

lemma nibbles_together:
  fixes hi lo :: int
  assumes "0 \<le> lo" "lo < 16"
  shows "push_bit 4 hi OR lo = 16 * hi + lo"
proof -
  have t: "take_bit 4 lo = lo" using assms by (simp add: take_bit_int_eq_self)
  have "push_bit 4 hi AND lo = 0"
    by (rule bit_eqI) (metis t bit_and_iff bit_push_bit_iff bit_take_bit_iff bit_0_eq bot_apply bot_bool_def leD)
  then have "push_bit 4 hi OR lo = push_bit 4 hi + lo" by (simp only: disjunctive_add_eq_or)
  then show ?thesis by (simp add: push_bit_eq_mult)
qed

lemma hex_nibbles:
  "from_hex (to_hex (drop_bit 4 (schar c))) = int (of_char c) div 16"
  "from_hex (to_hex (schar c AND 15)) = int (of_char c) mod 16"
  "to_hex (drop_bit 4 (schar c)) \<noteq> NUL" "to_hex (schar c AND 15) \<noteq> NUL"
proof -
  let ?n = "int (of_char c)"
  have hi: "to_hex (drop_bit 4 (schar c)) = to_hex (?n div 16)"
    by (subst to_hex_AND [symmetric]) (simp only: high_nibble)
  have b: "0 \<le> ?n div 16" "?n div 16 < 16" "0 \<le> ?n mod 16" "?n mod 16 < 16"
    using nibble_of_mod(3,4) [OF schar_mod, of c] by simp_all
  show "from_hex (to_hex (drop_bit 4 (schar c))) = ?n div 16" "to_hex (drop_bit 4 (schar c)) \<noteq> NUL"
    unfolding hi by (rule from_to_hex [OF b(1,2)])+
  show "from_hex (to_hex (schar c AND 15)) = ?n mod 16" "to_hex (schar c AND 15) \<noteq> NUL"
    unfolding low_nibble by (rule from_to_hex [OF b(3,4)])+
qed

lemma decode_encode_char:
  "url_decode_loop (encode_char c @ s) = c # url_decode_loop s"
proof -
  let ?n = "int (of_char c)"
  have "push_bit 4 (?n div 16) OR ?n mod 16 = ?n"
    using nibbles_together [of "?n mod 16" "?n div 16"] nibble_of_mod(5) [OF schar_mod, of c] by simp
  then have "char_of (push_bit 4 (from_hex (to_hex (drop_bit 4 (schar c)))) OR from_hex (to_hex (schar c AND 15))) = c"
    by (simp only: hex_nibbles of_nat_of_char char_of_char)
  moreover have "unreserved c \<longrightarrow> c \<noteq> CHR ''%'' \<and> c \<noteq> CHR ''+''"
    by (auto simp: unreserved_def isalnum_def isdigit_def isupper_def islower_def schar_def char_neg_def)
  ultimately show ?thesis by (auto simp: encode_char_def)
qed

lemma decode_encode_loop: "url_decode_loop (url_encode_loop s) = s"
  by (induction s) (auto simp: decode_encode_char)

lemma encode_char_no_nul: "c \<noteq> NUL \<Longrightarrow> no_nul (encode_char c)"
  using hex_nibbles(3,4) [of c] by (auto simp: encode_char_def no_nul_def)

lemma encode_loop_no_nul: "no_nul s \<Longrightarrow> no_nul (url_encode_loop s)"
  by (induction s) (auto simp: encode_char_no_nul)

text \<open>
  C28: Decoding inverts encoding on every C string: \<open>url_decode\<close> of \<open>url_encode\<close> is the string itself,
  also for bytes above 127 and for the characters the coding uses itself.
\<close>

theorem url_round_trip: "url_decoded_str (url_encoded_str s) = c_str s"
  using encode_loop_no_nul [of "c_str s"]
  by (simp add: url_decoded_str_def url_encoded_str_def url_decode_def url_encode_def decode_encode_loop)

text \<open>The encoded text has only unreserved characters, plus signs and percent escapes.\<close>

inductive coded :: "string \<Rightarrow> bool" where
  coded_Nil: "coded []"
| coded_plain: "coded s \<Longrightarrow> c = CHR ''+'' \<or> c = CHR '' '' \<or> c = CHR ''~'' \<Longrightarrow> coded (c # s)"
| coded_escape: "coded s \<Longrightarrow> is_hex_digit a \<Longrightarrow> is_hex_digit b \<Longrightarrow> coded (CHR ''%'' # a # b # s)"

inductive_simps coded_simps: "coded []" "coded (c # s)"

lemma coded_percent:
  "coded (CHR ''%'' # s) \<longleftrightarrow> (\<exists>a b t. s = a # b # t \<and> is_hex_digit a \<and> is_hex_digit b \<and> coded t)"
  by (auto simp: coded_simps(2))

lemma coded_other: "c \<noteq> CHR ''%'' \<Longrightarrow>
  coded (c # s) \<longleftrightarrow> (c = CHR ''+'' \<or> c = CHR '' '' \<or> c = CHR ''~'') \<and> coded s"
  by (auto simp: coded_simps(2))

lemma url_check_loop_cases:
  "(url_check_loop s n \<noteq> None \<longleftrightarrow> coded s) \<and>
   (\<forall>m. url_check_loop s n = Some m \<longrightarrow> m \<le> n + length s \<and> (m = n + length s \<longleftrightarrow> CHR ''%'' \<notin> set s))"
proof (induction s arbitrary: n rule: length_induct)
  case (1 s)
  show ?case
  proof (cases s)
    case Nil
    then show ?thesis by (simp add: coded_simps(1))
  next
    case (Cons c cs)
    show ?thesis
    proof (cases "c = CHR ''%''")
      case True
      show ?thesis
      proof (cases "\<exists>a b t. cs = a # b # t \<and> is_hex_digit a \<and> is_hex_digit b")
        case hex: True
        then obtain a b t where t: "cs = a # b # t" "is_hex_digit a" "is_hex_digit b" by blast
        have "length t < length s" by (simp add: Cons t(1))
        with 1 have IH: "(url_check_loop t n \<noteq> None \<longleftrightarrow> coded t) \<and>
            (\<forall>m. url_check_loop t n = Some m \<longrightarrow> m \<le> n + length t)" by blast
        have "url_check_loop s n = url_check_loop t n" using True t by (simp add: Cons)
        moreover have "coded s \<longleftrightarrow> coded t" using True t by (simp add: Cons coded_percent)
        moreover have "CHR ''%'' \<in> set s" "length s = length t + 3" using True t by (simp_all add: Cons)
        ultimately show ?thesis using IH by auto
      next
        case False
        then have "url_check_loop s n = None" using True by (auto simp: Cons split: list.split)
        moreover have "\<not> coded s" using True False by (auto simp: Cons coded_percent)
        ultimately show ?thesis by simp
      qed
    next
      case False
      have "length cs < length s" by (simp add: Cons)
      with 1 have IH: "(url_check_loop cs (n + 1) \<noteq> None \<longleftrightarrow> coded cs) \<and>
            (\<forall>m. url_check_loop cs (n + 1) = Some m \<longrightarrow> m \<le> n + 1 + length cs \<and>
               (m = n + 1 + length cs \<longleftrightarrow> CHR ''%'' \<notin> set cs))" by blast
      show ?thesis
      proof (cases "c = CHR ''+'' \<or> c = CHR '' '' \<or> c = CHR ''~''")
        case True
        then have "url_check_loop s n = url_check_loop cs (n + 1)" "coded s \<longleftrightarrow> coded cs"
          using False by (simp_all add: Cons coded_other)
        with IH False show ?thesis by (simp add: Cons)
      next
        case other: False
        then have "url_check_loop s n = None" "\<not> coded s"
          using False by (simp_all add: Cons coded_other)
        then show ?thesis by simp
      qed
    qed
  qed
qed

text \<open>
  \<open>is_url_encode_str\<close> accepts exactly the strings made of percent escapes, plus signs, spaces and
  tildes with at least one escape among them. No letter, digit, hyphen, underscore or dot may stand
  for itself, although \<open>url_encode\<close> leaves these alone.
\<close>

theorem is_url_encode_str_language:
  assumes "no_nul s"
  shows "is_url_encode_str s \<longleftrightarrow> coded s \<and> CHR ''%'' \<in> set s"
  using url_check_loop_cases [of s 0] assms
  by (auto simp: is_url_encode_str_def split: option.splits)

theorem is_url_encode_str_language_witness:
  "(is_url_encode_str ''+%e4%BD'' \<longleftrightarrow> coded ''+%e4%BD'' \<and> CHR ''%'' \<in> set ''+%e4%BD'') \<and>
   \<not> is_url_encode_str (url_encoded_str ''a b%'')"
proof
  show "is_url_encode_str ''+%e4%BD'' \<longleftrightarrow> coded ''+%e4%BD'' \<and> CHR ''%'' \<in> set ''+%e4%BD''"
    by (rule is_url_encode_str_language) (simp add: no_nul_def)
  show "\<not> is_url_encode_str (url_encoded_str ''a b%'')" by code_simp
qed

end
