(* ===== verification/Locate_Result.thy ===== *)
theory Locate_Result
  imports Text_Files Ctype
begin

text \<open>
  The places around a location: \<^verbatim>\<open>src/locate_getresult/locate_getresult.cpp\<close>. The distances are of
  any linearly ordered type, which leaves out the not-a-number of \<^verbatim>\<open>long double\<close>; \<open>GetDistance\<close>, a
  formula over the floating-point functions of \<^verbatim>\<open>math.h\<close>, and the conversion of a field to a number are
  parameters. The vector of distances that is kept beside the results is a list of pairs with them.
\<close>

record 'd result_data =
  rd_longitude :: 'd
  rd_latitude :: 'd
  rd_lng :: string
  rd_lat :: string
  rd_title :: string
  rd_url :: string
  rd_source :: string
  rd_datatime :: string

definition trim :: "string \<Rightarrow> string" where
  "trim s = rev (dropWhile isspace (rev (dropWhile isspace s)))"

text \<open>A line whose fields are not six is left out.\<close>

definition locate_line :: "(string \<Rightarrow> 'd) \<Rightarrow> string \<Rightarrow> 'd result_data option" where
  "locate_line num line =
     (case split_on (CHR 0x09) (trim line) of
        [e0, e1, e2, e3, e4, e5] \<Rightarrow>
          Some \<lparr>rd_longitude = num (c_str e0), rd_latitude = num (c_str e1), rd_lng = e0, rd_lat = e1,
            rd_title = e2, rd_url = e5, rd_source = e3, rd_datatime = e4\<rparr>
      | _ \<Rightarrow> None)"

definition loaddiclocate :: "(string \<Rightarrow> 'd) \<Rightarrow> bytes option \<Rightarrow> 'd result_data list \<Rightarrow> 'd result_data list" where
  "loaddiclocate num f all =
     (case f of
        None \<Rightarrow> all
      | Some bs \<Rightarrow> fold (\<lambda>line all. case locate_line num line of None \<Rightarrow> all | Some r \<Rightarrow> all @ [r]) (getlines bs) all)"

text \<open>The position in front of the first larger distance, and the insertion there.\<close>

fun insert_at :: "('d :: linorder) \<times> 'a \<Rightarrow> ('d \<times> 'a) list \<Rightarrow> ('d \<times> 'a) list" where
  "insert_at x [] = [x]"
| "insert_at x (y # ys) = (if fst x < fst y then x # y # ys else y # insert_at x ys)"

fun locate_loop :: "('a \<Rightarrow> 'd :: linorder) \<Rightarrow> 'd \<Rightarrow> 'a list \<Rightarrow> ('d \<times> 'a) list \<Rightarrow> ('d \<times> 'a) list" where
  "locate_loop dis distance [] res = res"
| "locate_loop dis distance (it # its) res =
     (let tmpDis = dis it
      in locate_loop dis distance its (if distance \<le> tmpDis then res else insert_at (tmpDis, it) res))"

text \<open>\<open>GetDistance lat1 lng1 lat2 lng2\<close> is a parameter.\<close>

definition distance_from ::
    "('d \<Rightarrow> 'd \<Rightarrow> 'd \<Rightarrow> 'd \<Rightarrow> 'd) \<Rightarrow> 'd \<Rightarrow> 'd \<Rightarrow> 'd result_data \<Rightarrow> 'd" where
  "distance_from GetDistance longitude latitude it =
     GetDistance latitude longitude (rd_latitude it) (rd_longitude it)"

definition GetLocationResult ::
    "('d \<Rightarrow> 'd \<Rightarrow> 'd \<Rightarrow> 'd \<Rightarrow> 'd :: linorder) \<Rightarrow> 'd result_data list \<Rightarrow> 'd \<Rightarrow> 'd \<Rightarrow> 'd \<Rightarrow> bool \<times> 'd result_data list" where
  "GetLocationResult GetDistance all longitude latitude distance =
     (True, map snd (locate_loop (distance_from GetDistance longitude latitude) distance all []))"

section \<open>Properties\<close>

text \<open>Inserting behind the entries that are not larger is a stable insertion sort.\<close>

lemma insert_at_snoc_sort:
  "insert_at (d x, x) (map (\<lambda>y. (d y, y)) (sort_key d xs)) = map (\<lambda>y. (d y, y)) (sort_key d (xs @ [x]))"
proof -
  have "insert_at (d x, x) (map (\<lambda>y. (d y, y)) ys) =
      map (\<lambda>y. (d y, y)) (filter (\<lambda>y. d y \<le> d x) ys @ x # filter (\<lambda>y. d x < d y) ys)"
    if "sorted (map d ys)" for ys
    using that
  proof (induction ys)
    case (Cons y ys)
    show ?case
    proof (cases "d x < d y")
      case True
      have "\<forall>z \<in> set ys. d y \<le> d z" using Cons.prems by auto
      with True have "filter (\<lambda>y. d y \<le> d x) ys = []" "filter (\<lambda>y. d x < d y) ys = ys"
        by (auto simp: filter_empty_conv intro!: filter_True)
      with True show ?thesis by auto
    qed (use Cons in auto)
  qed simp
  then have "insert_at (d x, x) (map (\<lambda>y. (d y, y)) (sort_key d xs)) =
      map (\<lambda>y. (d y, y)) (filter (\<lambda>y. d y \<le> d x) (sort_key d xs) @ x # filter (\<lambda>y. d x < d y) (sort_key d xs))"
    by simp
  also have "filter (\<lambda>y. d y \<le> d x) (sort_key d xs) @ x # filter (\<lambda>y. d x < d y) (sort_key d xs) = sort_key d (xs @ [x])"
  proof (rule properties_for_sort_key [symmetric])
    show "mset (filter (\<lambda>y. d y \<le> d x) (sort_key d xs) @ x # filter (\<lambda>y. d x < d y) (sort_key d xs)) = mset (xs @ [x])"
      using multiset_partition [of "mset xs" "\<lambda>y. d y \<le> d x"] by (simp add: not_le)
    have st: "filter (\<lambda>y. d k = d y) (sort_key d xs) = filter (\<lambda>y. d k = d y) xs" for k
      using sort_key_stable [of d "d k" xs] by (simp add: eq_commute [of "d k"])
    show "filter (\<lambda>y. d k = d y) (filter (\<lambda>y. d y \<le> d x) (sort_key d xs) @ x # filter (\<lambda>y. d x < d y) (sort_key d xs)) =
        filter (\<lambda>y. d k = d y) (xs @ [x])" for k
    proof (cases "d k \<le> d x")
      case True
      then have "filter (\<lambda>y. d k = d y) (filter (\<lambda>y. d y \<le> d x) (sort_key d xs)) = filter (\<lambda>y. d k = d y) xs"
          "filter (\<lambda>y. d k = d y) (filter (\<lambda>y. d x < d y) (sort_key d xs)) = []"
        unfolding filter_filter st [symmetric] by (auto intro!: filter_cong simp: filter_empty_conv)
      then show ?thesis by auto
    next
      case False
      then have "filter (\<lambda>y. d k = d y) (filter (\<lambda>y. d x < d y) (sort_key d xs)) = filter (\<lambda>y. d k = d y) xs"
          "filter (\<lambda>y. d k = d y) (filter (\<lambda>y. d y \<le> d x) (sort_key d xs)) = []"
        unfolding filter_filter st [symmetric] by (auto intro!: filter_cong simp: filter_empty_conv)
      with False show ?thesis by auto
    qed
    show "sorted (map d (filter (\<lambda>y. d y \<le> d x) (sort_key d xs) @ x # filter (\<lambda>y. d x < d y) (sort_key d xs)))"
      by (auto simp: sorted_append intro: sorted_filter)
  qed
  finally show ?thesis .
qed

lemma locate_loop_sorts:
  "locate_loop d lim its (map (\<lambda>y. (d y, y)) (sort_key d xs)) =
     map (\<lambda>y. (d y, y)) (sort_key d (xs @ filter (\<lambda>y. d y < lim) its))"
proof (induction its arbitrary: xs)
  case (Cons it its)
  then show ?case
    by (auto simp: insert_at_snoc_sort not_le [symmetric])
qed simp

text \<open>
  The places are the nearest first: \<open>GetLocationResult\<close> returns the loaded places whose
  distance from the location is below the limit, each as often as it was loaded, in the order of
  their distance, and those at the same distance in the order of the file.
\<close>

lemma GetLocationResult_sorted:
  "GetLocationResult GetDistance all lon lat lim =
    (True, sort_key (distance_from GetDistance lon lat)
             (filter (\<lambda>r. distance_from GetDistance lon lat r < lim) all))"
  using locate_loop_sorts [of "distance_from GetDistance lon lat" lim all "[]"]
  by (simp add: GetLocationResult_def comp_def)

end
