(* ===== verification/Http_Handler.thy ===== *)
theory Http_Handler
  imports Http_Server Url_Code Locate_Result
begin

text \<open>
  What the server does with a request: \<^verbatim>\<open>src/http_server/HttpHandler.cpp\<close>. The JSON library is a
  parameter in two places: \<open>parse\<close> stands for parsing the content and converting its three members,
  which may throw, and \<open>styled\<close> for the text of the object whose member \<^verbatim>\<open>list\<close> is a list of items,
  each an association of members and texts.
\<close>

definition ToHex :: "nat \<Rightarrow> char" where
  "ToHex x = (if 9 < x then char_of (x + 55) else char_of (x + 48))"

definition UrlEncode_char :: "char \<Rightarrow> string" where
  "UrlEncode_char c =
     (if isalnum c \<or> c = CHR ''-'' \<or> c = CHR ''_'' \<or> c = CHR ''.'' \<or> c = CHR ''~'' then [c]
      else if c = CHR '' '' then ''+''
      else [CHR ''%'', ToHex (of_char c div 16), ToHex (of_char c mod 16)])"

fun UrlEncode :: "string \<Rightarrow> string" where
  "UrlEncode [] = []"
| "UrlEncode (c # s) = UrlEncode_char c @ UrlEncode s"

definition json_item :: "'d result_data \<Rightarrow> (string \<times> string) list" where
  "json_item r =
     [(''longitude'', rd_lng r), (''latitude'', rd_lat r), (''title'', UrlEncode (rd_title r)),
      (''url'', UrlEncode (rd_url r)), (''source'', UrlEncode (rd_source r)),
      (''datetime'', UrlEncode (rd_datatime r))]"

definition generate_json_result :: "((string \<times> string) list list \<Rightarrow> string) \<Rightarrow> 'd result_data list \<Rightarrow> string" where
  "generate_json_result styled locateResult =
     (let returnLen = (if length locateResult < 10 then length locateResult else 10)
      in styled (map (\<lambda>i. json_item (locateResult ! i)) [0..<returnLen]))"

text \<open>
  The coordinates of the request are read and then overwritten. \<open>get\<close> is \<open>GetLocationResult\<close> of the
  loaded places, \<open>coords\<close> the three constants.
\<close>

definition generate_response ::
    "(string \<Rightarrow> fault + bool) \<Rightarrow> ((string \<times> string) list list \<Rightarrow> string)
      \<Rightarrow> ('d \<Rightarrow> 'd \<Rightarrow> 'd \<Rightarrow> bool \<times> 'd result_data list) \<Rightarrow> 'd \<times> 'd \<times> 'd \<Rightarrow> worker \<Rightarrow> fault + (int \<times> worker)" where
  "generate_response parse styled get coords w =
     (let r = (case wk_response w of None \<Rightarrow> HttpResponse HTTP10 SC200 | Some r \<Rightarrow> r);
          w1 = w\<lparr>wk_response := Some r\<rparr>
      in case wk_content w of
           None \<Rightarrow> Inl Null_deref
         | Some content \<Rightarrow>
             (case parse (c_str content) of
                Inl e \<Rightarrow> Inl e
              | Inr ok \<Rightarrow>
                  (case coords of
                     (longitude, latitude, distance) \<Rightarrow>
                       (case get longitude latitude distance of
                          (found, locateResult) \<Rightarrow>
                            if \<not> found then Inr (-1, w1)
                            else let json = generate_json_result styled locateResult
                                 in case fillContent (int (length json)) json r of
                                      Inl e \<Rightarrow> Inl e
                                    | Inr (x, r') \<Rightarrow> Inr (0, w1\<lparr>wk_response := Some r'\<rparr>)))))"

text \<open>The response is sent even when it could not be generated.\<close>

definition handle_worker ::
    "(worker \<Rightarrow> fault + (int \<times> worker)) \<Rightarrow> bytes \<Rightarrow> int option list \<Rightarrow> worker \<Rightarrow> fault + (int \<times> bytes)" where
  "handle_worker generate response_buf ws w =
     (case generate w of
        Inl e \<Rightarrow> Inl e
      | Inr (ret, w') \<Rightarrow>
          (case retrieve_worker response_buf w' ws of
             Inl e \<Rightarrow> Inl e
           | Inr sent \<Rightarrow> Inr (ret, sent)))"

section \<open>Properties\<close>

lemma ToHex_decodes:
  assumes "n < 16"
  shows "from_hex (ToHex n) = int n"
  using assms schar_char_of [of "n + 55"] schar_char_of [of "n + 48"]
  by (simp add: from_hex_def ToHex_def isdigit_def tolower_def isupper_def i8_def)

lemma not_alnum: "\<not> isalnum CHR ''+''" "\<not> isalnum CHR ''%''" "\<not> isalnum CHR '' ''"
  by code_simp+

lemma decode_UrlEncode_char: "url_decode_loop (UrlEncode_char c @ t) = c # url_decode_loop t"
proof -
  have n: "(of_char c :: nat) div 16 < 16" "(of_char c :: nat) mod 16 < 16"
    using nat_of_char_less_256 [of c] by (simp_all del: nat_of_char_less_256)
  have "push_bit 4 (int (of_char c div 16)) OR int (of_char c mod 16) = 16 * int (of_char c div 16) + int (of_char c mod 16)"
    by (rule nibbles_together) (use n in auto)
  also have "\<dots> = int (of_char c)" by presburger
  finally have "(char_of (push_bit 4 (from_hex (ToHex (of_char c div 16))) OR from_hex (ToHex (of_char c mod 16))) :: char) = c"
    unfolding ToHex_decodes [OF n(1)] ToHex_decodes [OF n(2)] by (simp add: of_nat_of_char)
  then show ?thesis
    using not_alnum by (auto simp: UrlEncode_char_def simp del: of_nat_of_char)
qed

lemma decode_UrlEncode: "url_decode_loop (UrlEncode s) = s"
  by (induction s) (simp_all add: decode_UrlEncode_char)

lemma only_length_head:
  assumes "hr_fields r = [Content_Length \<mapsto> v]" "hr_version r = HTTP10" "hr_code r = SC200"
  shows "head_text r = ''HTTP/1.0 200 OK'' @ line_sep @ ''Content-Length: '' @ v @ line_sep @ line_sep"
  by (simp add: head_text_def status_line_def http_response_fields_def field_line_def assms)

lemma generate_json_result_take: "generate_json_result styled rs = styled (map json_item (take 10 rs))"
proof -
  let ?n = "if length rs < 10 then length rs else 10"
  have "map (\<lambda>i. json_item (rs ! i)) [0..<?n] = map json_item (take 10 rs)"
    by (rule nth_equalityI) (auto split: if_splits)
  then show ?thesis by (simp add: generate_json_result_def)
qed

text \<open>Writes that all make progress and end with the last byte.\<close>

definition writes_all :: "nat \<Rightarrow> int option list \<Rightarrow> bool" where
  "writes_all n ws \<longleftrightarrow> list_all (\<lambda>w. \<exists>k. w = Some k \<and> 0 < k) ws \<and> sum_list (map the ws) = int n"

lemma sum_list_take_le:
  "list_all (\<lambda>w. \<exists>k. w = Some k \<and> 0 < (k :: int)) ws \<Longrightarrow> sum_list (map the (take k ws)) \<le> sum_list (map the ws)"
proof (induction ws arbitrary: k)
  case (Cons w ws)
  have p: "0 \<le> sum_list (map the (w # ws))"
    by (rule sum_list_nonneg) (use Cons.prems in \<open>force simp: list_all_iff\<close>)
  show ?case
  proof (cases k)
    case 0
    with p show ?thesis by simp
  next
    case (Suc j)
    with Cons show ?thesis by simp
  qed
qed simp

lemma writes_all_sent:
  assumes "writes_all n ws" "n \<le> length buf"
  shows "writen_timeout buf 0 (int n) ws = Inr (int n, take n buf)"
  using writen_timeout_sends [of 0 "int n" buf ws] assms sum_list_take_le [of ws]
  by (auto simp: writes_all_def)

lemma generate_and_send:
  assumes "wk_content w = Some content" "wk_response w = None" "parse (c_str content) = Inr ok"
    and "json = styled (map json_item (take 10
      (sort_key (distance_from GetDistance lon lat) (filter (\<lambda>r. distance_from GetDistance lon lat r < lim) all))))"
    and "text = ''HTTP/1.0 200 OK'' @ line_sep @ ''Content-Length: '' @ show_nat (length json) @ line_sep @ line_sep @ json"
    and "length text < length buf" "length buf < 2147483648" "writes_all (length text) ws"
  shows "\<exists>w'. generate_response parse styled (GetLocationResult GetDistance all) (lon, lat, lim) w = Inr (0, w') \<and>
    retrieve_worker buf w' ws = Inr text"
proof -
  have l: "length json < length text" using assms(5) by simp
  let ?r = "(HttpResponse HTTP10 SC200)\<lparr>hr_fields := (hr_fields (HttpResponse HTTP10 SC200))
    (Content_Length \<mapsto> show_nat (length json)), hr_content := Some json\<rparr>"
  have "fillContent (int (length json)) json (HttpResponse HTTP10 SC200) = Inr (0, ?r)"
    using l assms(6,7) by (intro fillContent_all) simp
  then have g: "generate_response parse styled (GetLocationResult GetDistance all) (lon, lat, lim) w =
      Inr (0, w\<lparr>wk_response := Some ?r\<rparr>)"
    using assms(1-3) unfolding assms(4)
    by (simp add: generate_response_def GetLocationResult_sorted generate_json_result_take Let_def)
  have h: "head_text ?r @ json = text"
    using only_length_head [of ?r "show_nat (length json)"] assms(5) by (simp add: HttpResponse_def)
  have "resp_ok ?r" "hr_content ?r = Some json" "length json < 2147483648"
    using l assms(6,7) by (simp_all add: resp_ok_def)
  from dump_to_buff_complete [OF this, of buf] obtain rest where
    d: "dump_to_buff ?r buf = Inr (0, text @ NUL # rest, Some (int (length text)))"
    using assms(6) unfolding h [symmetric] by auto
  have "writen_timeout (text @ NUL # rest) 0 (int (length text)) ws = Inr (int (length text), text)"
    using writes_all_sent [OF assms(8), of "text @ NUL # rest"] by simp
  with d have "retrieve_worker buf (w\<lparr>wk_response := Some ?r\<rparr>) ws = Inr text"
    by (simp add: retrieve_worker_def send_result_def)
  with g show ?thesis by blast
qed

text \<open>
  C12: From a request to the bytes on the wire. Whatever place the request names, and however its
  text parses, the server answers with the places nearest to its own constant location, at most ten
  of them, nearest first, as the content of a response that announces their length, sent completely
  however the socket splits it, when the response is shorter than the buffer.
\<close>

theorem nearest_places_sent:
  assumes "wk_content w = Some content" "wk_response w = None" "parse (c_str content) = Inr ok"
    and "json = styled (map json_item (take 10
      (sort_key (distance_from GetDistance lon lat) (filter (\<lambda>r. distance_from GetDistance lon lat r < lim) all))))"
    and "text = ''HTTP/1.0 200 OK'' @ line_sep @ ''Content-Length: '' @ show_nat (length json) @ line_sep @ line_sep @ json"
    and "length text < length buf" "length buf < 2147483648" "writes_all (length text) ws"
  shows "\<exists>w'. generate_response parse styled (GetLocationResult GetDistance all) (lon, lat, lim) w = Inr (0, w') \<and>
    retrieve_worker buf w' ws = Inr text"
  by (rule generate_and_send [where parse = parse and styled = styled, OF assms])

theorem nearest_places_sent_witness:
  "\<exists>w'. generate_response (\<lambda>s. Inr False) (\<lambda>items. show_nat (length items))
      (GetLocationResult (\<lambda>a b c d. \<bar>a - c\<bar> + \<bar>b - d\<bar>)
        [\<lparr>rd_longitude = 3, rd_latitude = 4, rd_lng = ''3'', rd_lat = ''4'', rd_title = ''t'', rd_url = ''u'',
          rd_source = ''s'', rd_datatime = ''d''\<rparr>])
      (1 :: int, 2, 10) (worker_new\<lparr>wk_content := Some ''{}''\<rparr>) = Inr (0, w') \<and>
    retrieve_worker (replicate 50 NUL) w' [Some 7, Some 32] =
      Inr (''HTTP/1.0 200 OK'' @ line_sep @ ''Content-Length: 1'' @ line_sep @ line_sep @ ''1'')"
proof -
  let ?D = "\<lambda>a b c d :: int. \<bar>a - c\<bar> + \<bar>b - d\<bar>"
  let ?all = "[\<lparr>rd_longitude = 3, rd_latitude = 4, rd_lng = ''3'', rd_lat = ''4'', rd_title = ''t'', rd_url = ''u'',
          rd_source = ''s'', rd_datatime = ''d''\<rparr>]"
  let ?text = "''HTTP/1.0 200 OK'' @ line_sep @ ''Content-Length: '' @ show_nat (length ''1'') @ line_sep @ line_sep @ ''1''"
  have one: "show_nat 1 = ''1''" by code_simp
  have f: "filter (\<lambda>r. distance_from ?D 1 2 r < 10) ?all = ?all" by (simp add: distance_from_def)
  have j: "''1'' = show_nat (length (map json_item (take 10 (sort_key (distance_from ?D 1 2)
      (filter (\<lambda>r. distance_from ?D 1 2 r < 10) ?all)))))"
    unfolding f by (simp add: one [unfolded One_nat_def])
  have t: "length ?text = 39" by (simp add: line_sep_def one [unfolded One_nat_def])
  have w: "wk_content (worker_new\<lparr>wk_content := Some ''{}''\<rparr>) = Some ''{}''"
    "wk_response (worker_new\<lparr>wk_content := Some ''{}''\<rparr>) = None"
    "(Inr False :: fault + bool) = Inr False" by (simp_all add: worker_new_def)
  have b: "length ?text < length (replicate 50 NUL)" "length (replicate 50 NUL) < 2147483648"
    "writes_all (length ?text) [Some 7, Some 32]" unfolding t by (simp_all add: writes_all_def)
  show ?thesis
    using nearest_places_sent [where parse = "\<lambda>s. Inr False" and styled = "\<lambda>items. show_nat (length items)" and
        GetDistance = ?D and all = ?all and lon = 1 and lat = 2 and lim = 10, OF w j refl b]
    unfolding t by (simp add: one [unfolded One_nat_def])
qed

subsection \<open>A whole request\<close>

lemma drop_length_append: "drop (length s) (s @ t) = t"
  by simp

lemma c_str_snoc_NUL: "c_str (s @ [NUL]) = c_str s"
  by (induction s) (auto simp: c_str_def)

lemma dropWhile_none: "\<forall>c \<in> set s. \<not> P c \<Longrightarrow> dropWhile P (s @ t) = (if s = [] then dropWhile P t else s @ t)"
  by (cases s) auto

lemma takeWhile_all_append: "\<forall>c \<in> set s. P c \<Longrightarrow> \<not> P d \<Longrightarrow> takeWhile P (s @ d # t) = s"
  by (induction s) auto

lemma isspace_simps [simp]: "isspace CHR '' ''" "\<not> isspace CHR ''/''" "\<not> isspace CHR ''H''" "\<not> isspace CHR ''1''"
  "\<not> isspace CHR ''.''"
  by (simp_all add: isspace_def)

lemma isdigit_simps [simp]: "isdigit CHR ''1''" "\<not> isdigit CHR ''.''" "\<not> isdigit CHR 0x0D"
  by code_simp+

lemma scan_request_post:
  assumes "uri \<noteq> []" "\<forall>c \<in> set uri. \<not> isspace c"
  shows "scan_request ''POST'' (''POST /'' @ uri @ '' HTTP/1.1'' @ line_sep @ hlines) = Some uri"
proof -
  let ?t = "CHR '' '' # ''HTTP/1.1'' @ line_sep @ hlines"
  have d: "dropWhile isspace (uri @ ?t) = uri @ ?t" using dropWhile_none [OF assms(2), of ?t] assms(1) by simp
  have t: "takeWhile (\<lambda>c. \<not> isspace c) (uri @ ?t) = uri"
    by (rule takeWhile_all_append) (use assms(2) in simp_all)
  have w: "scan_word (uri @ ?t) = Some (uri, ?t)"
    unfolding scan_word_def Let_def d t using assms(1) by simp
  then have "scan_word (uri @ '' HTTP/1.1'' @ line_sep @ hlines) = Some (uri, ?t)" by simp
  then show ?thesis
    by (simp add: scan_request_def scan_lit_def scan_int_def line_sep_def)
qed

lemma scan_int_length:
  assumes "n < 2147483648" "rest = [] \<or> \<not> isdigit (hd rest)"
  shows "\<exists>t. scan_int (CHR '' '' # show_nat n @ rest) = Some (int n, t)"
proof -
  obtain c s where ct: "show_nat n = c # s" by (cases "show_nat n") auto
  then have d: "isdigit c" using show_nat_digits [of c n] by simp
  have "read_digits m rest = m" for m using assms(2) by (cases rest) auto
  then have "read_digits 0 (show_nat n @ rest) = int n"
    by (simp add: read_digits_append show_nat_digits read_show_nat)
  then have r: "read_digits 0 (c # s @ rest) = int n" by (simp add: ct)
  show ?thesis
    using isdigit_not_space [OF d] d r assms(1)
    by (simp add: scan_int_def ct Let_def clamp64_def in_i32_nat)
qed

text \<open>The header of a \<^verbatim>\<open>POST\<close> request for a content of \<open>n\<close> bytes, with \<open>hlines\<close> and \<open>rest\<close> as its other lines.\<close>

definition post_header :: "string \<Rightarrow> string \<Rightarrow> nat \<Rightarrow> string \<Rightarrow> string" where
  "post_header uri hlines n rest =
     ''POST /'' @ uri @ '' HTTP/1.1'' @ line_sep @ hlines @ ''Content-Length: '' @ show_nat n @ rest"

text \<open>The words that are looked for occur first where they are meant.\<close>

definition post_ok :: "string \<Rightarrow> string \<Rightarrow> nat \<Rightarrow> string \<Rightarrow> bool" where
  "post_ok uri hlines n rest \<longleftrightarrow>
     uri \<noteq> [] \<and> list_all (\<lambda>c. \<not> isspace c) uri \<and> no_nul (uri @ hlines @ rest) \<and> (rest = [] \<or> \<not> isdigit (hd rest)) \<and>
     (let before = ''POST /'' @ uri @ '' HTTP/1.1'' @ line_sep @ hlines
      in find0 ''Content-Length:'' (before @ ''Content-Length:'') = Some (length before)) \<and>
     find0 header_end (post_header uri hlines n rest @ header_end) = Some (length (post_header uri hlines n rest))"

lemma GetInfo_post:
  assumes "post_ok uri hlines n rest" "n < 2147483648"
  shows "\<exists>w. GetInfo (worker_new\<lparr>wk_header := post_header uri hlines n rest\<rparr>) = Inr (0, w) \<and>
    wk_content_len w = int n \<and> wk_response w = None \<and> wk_url w = uri"
proof -
  let ?b = "''POST /'' @ uri @ '' HTTP/1.1'' @ line_sep @ hlines"
  let ?h = "post_header uri hlines n rest"
  have h: "?h = (?b @ ''Content-Length:'') @ CHR '' '' # show_nat n @ rest"
    by (simp add: post_header_def)
  have nn: "no_nul ?h" using assms(1) by (simp add: post_ok_def post_header_def no_nul_def line_sep_def)
      (use no_nul_show_nat [of n] in \<open>auto simp: no_nul_def\<close>)
  have "find0 ''POST'' ?h = Some 0" by (simp add: post_header_def)
  moreover have "scan_request ''POST'' ?h = Some uri"
    unfolding post_header_def
    by (rule scan_request_post) (use assms(1) in \<open>auto simp: post_ok_def list_all_iff\<close>)
  ultimately have u: "request_uri ?h = Some uri" using nn by (simp add: request_uri_def)
  have "find0 ''Content-Length:'' (?b @ ''Content-Length:'') = Some (length ?b)"
    using assms(1) by (simp add: post_ok_def Let_def)
  from find0_append [OF this] have f: "find0 ''Content-Length:'' ?h = Some (length ?b)" unfolding h .
  have "no_nul (drop (length ?b) ?h)" using nn by (rule no_nul_take_drop)
  then have "c_str (drop (length ?b) ?h) = drop (length ?b) ?h" by simp
  moreover have "drop (length ?b) ?h = ''Content-Length:'' @ CHR '' '' # show_nat n @ rest"
    unfolding h append_assoc [of ?b] by (rule drop_length_append)
  ultimately have "drop 15 (c_str (drop (length ?b) ?h)) = CHR '' '' # show_nat n @ rest" by simp
  with scan_int_length [of n rest] assms obtain t where
    "scan_int (drop 15 (c_str (drop (length ?b) ?h))) = Some (int n, t)" by (auto simp: post_ok_def)
  with u f show ?thesis by (simp add: GetInfo_def worker_new_def Let_def)
qed



end
