(* ===== verification/Format_Dlg.thy ===== *)
theory Format_Dlg
  imports White_Black Doc_Answers
begin

text \<open>
  Preparing the file of answers: \<^verbatim>\<open>src/index/index_da/FormatDlgCor.cpp\<close> groups the lines
  question, separator, answer by the words of the question, the answers of a question
  joined by \<open>##-##\<close>, and \<^verbatim>\<open>index_da_make_index.cpp\<close> makes the dictionary index from the result.
  The file has its own copies of \<open>DeleteSpace\<close> and \<open>split_sam\<close>, equal to those of
  \<^verbatim>\<open>Index_da.cpp\<close> (\<open>Gary_String.DeleteSpace\<close>, \<open>Gary_String.split_sam\<close>), which are not called.
\<close>

text \<open>\<open>hash_uniq\<close> is a \<^verbatim>\<open>map\<close>: an association list sorted by key, as it is iterated.\<close>

definition uniq_append :: "string \<Rightarrow> string \<Rightarrow> (string \<times> string) list \<Rightarrow> (string \<times> string) list" where
  "uniq_append key answer hash_uniq =
     (case map_of hash_uniq key of
        Some old \<Rightarrow> map_set key (old @ ''##-##'' @ answer) hash_uniq
      | None \<Rightarrow> map_set key answer hash_uniq)"

fun format_lines ::
    "platform \<Rightarrow> string list \<Rightarrow> (string \<times> string) list \<Rightarrow> fault + (string \<times> string) list" where
  "format_lines pf [] hash_uniq = Inr hash_uniq"
| "format_lines pf (line # lines) hash_uniq =
     (case StringSplit (StringTrim line) ''##_##'' of
        None \<Rightarrow> Inl Diverges
      | Some vec \<Rightarrow>
          if length vec < 1 then Inl Out_of_bounds
          else (case Segment pf (vec ! 0) of
                  Inl e \<Rightarrow> Inl e
                | Inr (r, parts) \<Rightarrow>
                    if length vec < 2 then Inl Out_of_bounds
                    else if length parts < 1
                         then format_lines pf lines (uniq_append (vec ! 0) (vec ! 1) hash_uniq)
                         else format_lines pf lines
                                (uniq_append (foldl (\<lambda>a p. a @ p) [] parts) (vec ! 1) hash_uniq)))"

text \<open>The return value and what is written to the standard output.\<close>

definition PreProcess_dlg_cor :: "platform \<Rightarrow> bytes option \<Rightarrow> fault + (int \<times> bytes)" where
  "PreProcess_dlg_cor pf infile =
     (case infile of
        None \<Rightarrow> Inr (-1, [])
      | Some f \<Rightarrow>
          (case format_lines pf (getlines f) [] of
             Inl e \<Rightarrow> Inl e
           | Inr hash_uniq \<Rightarrow>
               Inr (0, concat (map (\<lambda>(q, a). q @ ''##_##'' @ a @ [CHR 0x0A]) hash_uniq))))"

text \<open>
  The program that makes the dictionary files. \<open>argv\<close> are the arguments with the name of the
  program first; the sort of the two kinds of lines, the builder and the files are parameters. The results
  are the return value and the contents of the output file. With a type that is none of the three, the
  variable that is tested at the end has no value.
\<close>

definition make_index_main ::
    "platform \<Rightarrow> ((string \<times> int) list \<Rightarrow> unit32 list option) \<Rightarrow> (st list \<Rightarrow> st list)
      \<Rightarrow> (whiteblack_tmp list \<Rightarrow> whiteblack_tmp list) \<Rightarrow> (string \<Rightarrow> bytes option) \<Rightarrow> (string \<Rightarrow> bool)
      \<Rightarrow> string list \<Rightarrow> fault + (int \<times> bytes)" where
  "make_index_main pf build srt srt_wb fs writable argv =
     (if length argv \<noteq> 3 \<and> length argv \<noteq> 4 then Inr (-1, [])
      else let FLAGS_input = argv ! 1; FLAGS_output = argv ! 2;
               ty = (if length argv = 4 then argv ! 3 else ''none'')
           in if ty = ''none''
              then (case MakeIndex_wb pf build srt_wb (fs FLAGS_input) (writable FLAGS_output) of
                      Inl e \<Rightarrow> Inl e
                    | Inr (ret, out) \<Rightarrow> Inr (0, out))
              else if ty = ''extend'' \<or> ty = ''uniq''
              then (case MakeIndex_tag pf build srt (fs FLAGS_input) (writable FLAGS_output) ty of
                      Inl e \<Rightarrow> Inl e
                    | Inr (ret, out) \<Rightarrow> Inr (0, out))
              else Inl Uninitialised)"

section \<open>Properties\<close>

text \<open>The question and the answer of a line, as the words of the question put together.\<close>

definition qa_of :: "platform \<Rightarrow> string \<Rightarrow> string \<times> string" where
  "qa_of pf line =
     (case StringSplit (StringTrim line) ''##_##'' of
        Some (q # a # vec) \<Rightarrow>
          (case Segment pf q of
             Inr (r, p # parts) \<Rightarrow> (concat (p # parts), a)
           | _ \<Rightarrow> (q, a))
      | _ \<Rightarrow> ([], []))"

definition answers_of :: "(string \<times> string) list \<Rightarrow> string \<Rightarrow> string list" where
  "answers_of qas k = map snd (filter (\<lambda>qa. fst qa = k) qas)"

definition grouped :: "(string \<times> string) list \<Rightarrow> (string \<times> string) list \<Rightarrow> bool" where
  "grouped qas h \<longleftrightarrow> sorted_wrt str_less (map fst h) \<and>
     (\<forall>k. map_of h k = (if answers_of qas k = [] then None else Some (join_with ''##-##'' (answers_of qas k))))"

lemma grouped_append:
  assumes "grouped qas h"
  shows "grouped (qas @ [(k, a)]) (uniq_append k a h)"
proof -
  have m: "map_of h k = (if answers_of qas k = [] then None else Some (join_with ''##-##'' (answers_of qas k)))"
    and s: "sorted_wrt str_less (map fst h)" using assms by (auto simp: grouped_def)
  have "answers_of (qas @ [(k, a)]) j = (if j = k then answers_of qas k @ [a] else answers_of qas j)" for j
    by (simp add: answers_of_def)
  with assms m s show ?thesis
    by (auto simp: grouped_def uniq_append_def map_of_map_set map_set_sorted join_with_snoc)
qed

lemma format_lines_Cons:
  assumes "format_lines pf (line # lines) h = Inr h'"
  shows "format_lines pf lines (uniq_append (fst (qa_of pf line)) (snd (qa_of pf line)) h) = Inr h'"
proof -
  from assms obtain q a vec where v: "StringSplit (StringTrim line) ''##_##'' = Some (q # a # vec)"
    by (auto simp: neq_Nil_conv Suc_le_eq not_less split: option.splits if_splits sum.splits)
  obtain r parts where p: "Segment pf q = Inr (r, parts)"
    using assms v by (auto split: sum.splits)
  show ?thesis
    using assms by (cases parts) (auto simp: v p qa_of_def foldl_append_concat)
qed

lemma format_lines_grouped:
  assumes "format_lines pf lines h = Inr h'" "grouped qas h"
  shows "grouped (qas @ map (qa_of pf) lines) h'"
  using assms
proof (induction lines arbitrary: qas h)
  case (Cons line lines)
  from Cons.IH [OF format_lines_Cons [OF Cons.prems(1)] grouped_append [OF Cons.prems(2)]]
  show ?case by simp
qed simp

lemma StringSplit_length:
  assumes "StringSplit s w = Some vec" "p \<in> set vec" "w \<noteq> []"
  shows "length p \<le> length s"
  using assms StringSplit_ref [OF assms(3), of s] by (auto intro: length_split_ref)

text \<open>A line with a question and an answer.\<close>

definition has_answer :: "string \<Rightarrow> bool" where
  "has_answer line = (case StringSplit (StringTrim line) ''##_##'' of Some (q # a # vec) \<Rightarrow> True | _ \<Rightarrow> False)"

lemma format_lines_total:
  assumes "list_all (\<lambda>l. length l < MAXLEN) lines"
  shows "(\<exists>h'. format_lines pf lines h = Inr h') \<and> list_all has_answer lines \<or>
    format_lines pf lines h = Inl Out_of_bounds \<and> \<not> list_all has_answer lines"
  using assms
proof (induction lines arbitrary: h)
  case (Cons line lines)
  obtain vec where v: "StringSplit (StringTrim line) ''##_##'' = Some vec"
    using StringSplit_ref [of "''##_##''" "StringTrim line"] by auto
  show ?case
  proof (cases vec)
    case (Cons q vec')
    have "length q < MAXLEN"
      using StringSplit_length [OF v, of q] length_StringTrim [of line] Cons.prems
      by (simp add: \<open>vec = q # vec'\<close>)
    from Segment_total [OF this, of pf] obtain r parts where s: "Segment pf q = Inr (r, parts)" by blast
    show ?thesis
      using Cons.IH Cons.prems by (cases vec') (auto simp: v Cons s has_answer_def)
  qed (use v in \<open>simp add: has_answer_def\<close>)
qed simp

text \<open>
  C25: The answers of a file are grouped by their question: when every line has a question and an
  answer the output has one line per question (in the order of \<^verbatim>\<open>std::string\<close>), with all its answers in
  the order of the file, joined by \<^verbatim>\<open>##-##\<close>; a line without an answer, a blank line say, is an access out
  of bounds.
\<close>

theorem PreProcess_groups_answers:
  assumes "list_all (\<lambda>l. length l < MAXLEN) (getlines f)"
  shows "if list_all has_answer (getlines f)
    then \<exists>h. PreProcess_dlg_cor pf (Some f) = Inr (0, unlines (map (\<lambda>(q, a). q @ ''##_##'' @ a) h)) \<and>
           grouped (map (qa_of pf) (getlines f)) h
    else PreProcess_dlg_cor pf (Some f) = Inl Out_of_bounds"
proof -
  have g: "grouped [] []" by (simp add: grouped_def answers_of_def)
  have out: "concat (map (\<lambda>(q, a). q @ ''##_##'' @ a @ [CHR 0x0A]) h) = unlines (map (\<lambda>(q, a). q @ ''##_##'' @ a) h)" for h
    by (auto simp: unlines_def intro!: arg_cong [where f = concat])
  from format_lines_total [OF assms, of pf "[]"] show ?thesis
  proof (elim disjE conjE exE)
    fix h assume "format_lines pf (getlines f) [] = Inr h" "list_all has_answer (getlines f)"
    with format_lines_grouped [OF this(1) g] show ?thesis
      unfolding PreProcess_dlg_cor_def option.case sum.case out by auto
  qed (simp add: PreProcess_dlg_cor_def)
qed

theorem PreProcess_groups_answers_witness:
  "PreProcess_dlg_cor byte_platform (Some (unlines [''ab##_##x'', [], ''ab##_##y''])) = Inl Out_of_bounds \<and>
   (\<exists>h. PreProcess_dlg_cor byte_platform (Some (unlines [''ab##_##x'', ''ab##_##y''])) =
      Inr (0, unlines (map (\<lambda>(q, a). q @ ''##_##'' @ a) h)) \<and> map_of h ''ab'' = Some ''x##-##y'')"
proof -
  have g: "getlines (unlines [''ab##_##x'', [], ''ab##_##y'']) = [''ab##_##x'', [], ''ab##_##y'']"
    "getlines (unlines [''ab##_##x'', ''ab##_##y'']) = [''ab##_##x'', ''ab##_##y'']"
    by (rule getlines_unlines, simp)+
  have "list_all (\<lambda>l. length l < MAXLEN) [''ab##_##x'', [], ''ab##_##y'']"
    "\<not> list_all has_answer [''ab##_##x'', [], ''ab##_##y'']"
    "list_all (\<lambda>l. length l < MAXLEN) [''ab##_##x'', ''ab##_##y'']"
    "list_all has_answer [''ab##_##x'', ''ab##_##y'']" by (simp_all add: MAXLEN_def) code_simp+
  then have l: "list_all (\<lambda>l. length l < MAXLEN) (getlines (unlines [''ab##_##x'', [], ''ab##_##y'']))"
    "\<not> list_all has_answer (getlines (unlines [''ab##_##x'', [], ''ab##_##y'']))"
    "list_all (\<lambda>l. length l < MAXLEN) (getlines (unlines [''ab##_##x'', ''ab##_##y'']))"
    "list_all has_answer (getlines (unlines [''ab##_##x'', ''ab##_##y'']))" unfolding g by this+
  have "StringSplit (StringTrim ''ab##_##x'') ''##_##'' = Some [''ab'', ''x'']"
    "StringSplit (StringTrim ''ab##_##y'') ''##_##'' = Some [''ab'', ''y'']" by code_simp+
  then have q: "map (qa_of byte_platform) (getlines (unlines [''ab##_##x'', ''ab##_##y''])) = [(''ab'', ''x''), (''ab'', ''y'')]"
    by (simp add: g qa_of_def segment_two_bytes)
  from PreProcess_groups_answers [OF l(1), of byte_platform] PreProcess_groups_answers [OF l(3), of byte_platform] l
  show ?thesis by (auto simp: q grouped_def answers_of_def)
qed

end
