(* ===== verification/Char_Dictionary.thy ===== *)
theory Char_Dictionary
  imports Byte_Codec
begin

text \<open>
  \<open>CDictionary\<close> of \<^verbatim>\<open>src/include/gary_common/gary_dictionary.h\<close>: a set of words as a tree with a
  branch for each byte, its nodes taken from a pool of fixed size. A pointer to a node is its number
  in the pool; slot 0 of the pool is never handed out, and the number 0 stands for the root, which the class
  allocates on its own. The index of a node is its number, negative as long as no word ends there.
\<close>

record char_node =
  dwIndex :: int
  branch :: "char \<Rightarrow> nat option"

record dictionary =
  d_size :: nat
  d_nodes :: "char_node list"
  m_dwCurNodeIndex :: int

definition blank_node :: char_node where
  "blank_node = \<lparr>dwIndex = 0, branch = (\<lambda>c. None)\<rparr>"

definition dict_new :: "nat \<Rightarrow> dictionary" where
  "dict_new n = \<lparr>d_size = n, d_nodes = replicate (max 1 n) blank_node, m_dwCurNodeIndex = 1\<rparr>"

definition dict_Reset :: "dictionary \<Rightarrow> dictionary" where
  "dict_Reset d = d\<lparr>m_dwCurNodeIndex := 1, d_nodes := (d_nodes d)[0 := blank_node]\<rparr>"

subsection \<open>Searching\<close>

fun dict_walk :: "char_node list \<Rightarrow> nat \<Rightarrow> string \<Rightarrow> nat option" where
  "dict_walk ns p [] = Some p"
| "dict_walk ns p (c # w) =
     (case branch (ns ! p) c of
        None \<Rightarrow> None
      | Some q \<Rightarrow> dict_walk ns q w)"

text \<open>The word is \<^const>\<open>None\<close> for a null pointer, else the bytes of its length.\<close>

definition LookUp :: "dictionary \<Rightarrow> string option \<Rightarrow> int" where
  "LookUp d pWord =
     (case pWord of
        None \<Rightarrow> 0
      | Some w \<Rightarrow>
          if length w = 0 then 0
          else (case dict_walk (d_nodes d) 0 w of
                  None \<Rightarrow> 0
                | Some p \<Rightarrow> dwIndex (d_nodes d ! p)))"

text \<open>
  The search for a node folds the capital letters; \<open>need\<close> counts the bytes left of the current
  character, so that the second byte of a two-byte character is not folded.
\<close>

definition fold_case :: "char \<Rightarrow> char" where
  "fold_case c = (if 65 \<le> schar c \<and> schar c \<le> 90 then char_of ((of_char c :: nat) + 32) else c)"

fun walk_folding :: "char_node list \<Rightarrow> nat \<Rightarrow> int \<Rightarrow> string \<Rightarrow> nat option" where
  "walk_folding ns p need [] = Some p"
| "walk_folding ns p need (c # w) =
     (let need1 = (if need = 0 then (if char_neg c then 2 else 1) else need);
          c1 = (if need = 0 \<and> \<not> char_neg c then fold_case c else c)
      in case branch (ns ! p) c1 of
           None \<Rightarrow> None
         | Some q \<Rightarrow> walk_folding ns q (need1 - 1) w)"

definition LookUp_node :: "dictionary \<Rightarrow> string option \<Rightarrow> nat option \<Rightarrow> nat option" where
  "LookUp_node d pWord pBeginNode =
     (case pWord of
        None \<Rightarrow> None
      | Some w \<Rightarrow>
          if length w = 0 then None
          else walk_folding (d_nodes d) (case pBeginNode of None \<Rightarrow> 0 | Some p \<Rightarrow> p) 0 w)"

subsection \<open>Adding\<close>

definition AllocateNode :: "dictionary \<Rightarrow> dictionary \<times> nat option" where
  "AllocateNode d =
     (if int (d_size d) \<le> u32 (m_dwCurNodeIndex d) then (d, None)
      else let i = nat (m_dwCurNodeIndex d)
           in (d\<lparr>d_nodes := (d_nodes d)[i := blank_node\<lparr>dwIndex := i32 (- m_dwCurNodeIndex d)\<rparr>],
                 m_dwCurNodeIndex := i32 (m_dwCurNodeIndex d + 1)\<rparr>, Some i))"

definition link_node :: "nat \<Rightarrow> char \<Rightarrow> nat \<Rightarrow> dictionary \<Rightarrow> dictionary" where
  "link_node p c q d =
     d\<lparr>d_nodes := (d_nodes d)[p := (d_nodes d ! p)\<lparr>branch := (branch (d_nodes d ! p))(c \<mapsto> q)\<rparr>]\<rparr>"

fun add_loop :: "dictionary \<Rightarrow> nat \<Rightarrow> string \<Rightarrow> dictionary \<times> nat option" where
  "add_loop d p [] = (d, Some p)"
| "add_loop d p (c # w) =
     (case branch (d_nodes d ! p) c of
        None \<Rightarrow>
          (case AllocateNode d of
             (d1, None) \<Rightarrow> (d1, None)
           | (d1, Some q) \<Rightarrow> add_loop (link_node p c q d1) q w)
      | Some q \<Rightarrow> add_loop d q w)"

definition mark_word :: "nat \<Rightarrow> dictionary \<Rightarrow> dictionary" where
  "mark_word p d =
     (if dwIndex (d_nodes d ! p) < 0
      then d\<lparr>d_nodes := (d_nodes d)[p := (d_nodes d ! p)\<lparr>dwIndex := i32 (- dwIndex (d_nodes d ! p))\<rparr>]\<rparr>
      else d)"

definition AddWord :: "dictionary \<Rightarrow> string option \<Rightarrow> int \<times> dictionary" where
  "AddWord d pWord =
     (case pWord of
        None \<Rightarrow> (0, d)
      | Some w \<Rightarrow>
          if length w = 0 then (0, d)
          else (case add_loop d 0 w of
                  (d1, None) \<Rightarrow> (0, d1)
                | (d1, Some p) \<Rightarrow> let d2 = mark_word p d1 in (dwIndex (d_nodes d2 ! p), d2)))"

section \<open>Well-formed pools\<close>

text \<open>
  The nodes in use are those below \<open>m_dwCurNodeIndex\<close>; each carries its number, a branch leads to a node
  in use with a greater number, and no node is reached by two branches.
\<close>

definition cur :: "dictionary \<Rightarrow> nat" where
  "cur d = nat (m_dwCurNodeIndex d)"

definition dict_wf :: "dictionary \<Rightarrow> bool" where
  "dict_wf d \<longleftrightarrow> d_size d < 2147483648 \<and> length (d_nodes d) = max 1 (d_size d) \<and>
     1 \<le> m_dwCurNodeIndex d \<and> cur d \<le> max 1 (d_size d) \<and>
     dwIndex (d_nodes d ! 0) = 0 \<and>
     (\<forall>i. 0 < i \<and> i < cur d \<longrightarrow> \<bar>dwIndex (d_nodes d ! i)\<bar> = int i) \<and>
     (\<forall>i c j. i < cur d \<longrightarrow> branch (d_nodes d ! i) c = Some j \<longrightarrow> i < j \<and> j < cur d) \<and>
     (\<forall>i c i' c' j. i < cur d \<longrightarrow> i' < cur d \<longrightarrow> branch (d_nodes d ! i) c = Some j \<longrightarrow>
        branch (d_nodes d ! i') c' = Some j \<longrightarrow> i = i' \<and> c = c')"

lemma dict_wfD:
  assumes "dict_wf d"
  shows "d_size d < 2147483648" "length (d_nodes d) = max 1 (d_size d)" "1 \<le> m_dwCurNodeIndex d"
    "cur d \<le> max 1 (d_size d)" "dwIndex (d_nodes d ! 0) = 0"
    "\<And>i. 0 < i \<Longrightarrow> i < cur d \<Longrightarrow> \<bar>dwIndex (d_nodes d ! i)\<bar> = int i"
    "\<And>i c j. i < cur d \<Longrightarrow> branch (d_nodes d ! i) c = Some j \<Longrightarrow> i < j \<and> j < cur d"
    "\<And>i c i' c' j. i < cur d \<Longrightarrow> i' < cur d \<Longrightarrow> branch (d_nodes d ! i) c = Some j \<Longrightarrow>
       branch (d_nodes d ! i') c' = Some j \<Longrightarrow> i = i' \<and> c = c'"
  using assms unfolding dict_wf_def by blast+

lemma dict_wf_cur:
  assumes "dict_wf d"
  shows "0 < cur d" "cur d \<le> length (d_nodes d)" "m_dwCurNodeIndex d = int (cur d)"
  using dict_wfD(2,3,4) [OF assms] by (simp_all add: cur_def)

lemma blank_simps [simp]: "dwIndex blank_node = 0" "branch blank_node c = None"
  by (simp_all add: blank_node_def)

lemma dict_wf_root:
  assumes "d_size d < 2147483648" "length (d_nodes d) = max 1 (d_size d)" "m_dwCurNodeIndex d = 1"
    "d_nodes d ! 0 = blank_node"
  shows "dict_wf d"
proof -
  have "cur d = 1" using assms(3) by (simp add: cur_def)
  then have i: "i = 0" if "i < cur d" for i using that by simp
  have n: "branch (d_nodes d ! i) c = None" if "i < cur d" for i c using i [OF that] assms(4) by simp
  show ?thesis
    unfolding dict_wf_def
  proof (intro conjI allI impI)
    fix j assume "0 < j \<and> j < cur d"
    then show "\<bar>dwIndex (d_nodes d ! j)\<bar> = int j" using i by blast
  qed (use assms n \<open>cur d = 1\<close> in \<open>auto\<close>)
qed

lemma dict_wf_new: "n < 2147483648 \<Longrightarrow> dict_wf (dict_new n)"
  by (rule dict_wf_root) (simp_all add: dict_new_def)

lemma dict_wf_Reset:
  assumes "dict_wf d"
  shows "dict_wf (dict_Reset d)"
proof (rule dict_wf_root)
  have "d_nodes d \<noteq> []" using dict_wfD(2) [OF assms] by auto
  then show "d_nodes (dict_Reset d) ! 0 = blank_node" by (simp add: dict_Reset_def)
qed (simp_all add: dict_Reset_def dict_wfD(1,2) [OF assms])

lemma walk_in_use:
  assumes "dict_wf d" "p < cur d" "dict_walk (d_nodes d) p w = Some q"
  shows "p \<le> q \<and> q < cur d \<and> (w \<noteq> [] \<longrightarrow> p < q)"
  using assms(2,3)
proof (induction w arbitrary: p)
  case (Cons c w)
  from Cons.prems obtain r where r: "branch (d_nodes d ! p) c = Some r" "dict_walk (d_nodes d) r w = Some q"
    by (auto split: option.splits)
  with dict_wfD(7) [OF assms(1) Cons.prems(1)] have "p < r" "r < cur d" by auto
  with Cons.IH [OF _ r(2)] show ?case by auto
qed simp

lemma dict_walk_append:
  "dict_walk ns p (v @ w) = (case dict_walk ns p v of None \<Rightarrow> None | Some q \<Rightarrow> dict_walk ns q w)"
  by (induction v arbitrary: p) (auto split: option.splits)

text \<open>Every node in use is reached by one word only.\<close>

lemma walk_inj:
  assumes wf: "dict_wf d"
  shows "dict_walk (d_nodes d) 0 v = Some q \<Longrightarrow> dict_walk (d_nodes d) 0 w = Some q \<Longrightarrow> v = w"
proof (induction v arbitrary: w q rule: rev_induct)
  case Nil
  then have "q = 0" by simp
  with walk_in_use [OF wf dict_wf_cur(1) [OF wf] Nil(2)] show ?case by auto
next
  case (snoc c v)
  then obtain p where p: "dict_walk (d_nodes d) 0 v = Some p" "branch (d_nodes d ! p) c = Some q"
    by (auto simp: dict_walk_append split: option.splits)
  have pc: "p < cur d" using walk_in_use [OF wf dict_wf_cur(1) [OF wf] p(1)] by simp
  then have "p < q" using dict_wfD(7) [OF wf _ p(2)] by simp
  then have "w \<noteq> []" using snoc.prems(2) by auto
  then obtain w' e where w: "w = w' @ [e]" by (cases w rule: rev_cases) auto
  with snoc.prems(2) obtain p' where p': "dict_walk (d_nodes d) 0 w' = Some p'" "branch (d_nodes d ! p') e = Some q"
    by (auto simp: dict_walk_append split: option.splits)
  have "p' < cur d" using walk_in_use [OF wf dict_wf_cur(1) [OF wf] p'(1)] by simp
  from dict_wfD(8) [OF wf pc this p(2) p'(2)] have "p = p'" "c = e" by auto
  with snoc.IH [OF p(1)] p'(1) w show ?case by simp
qed

section \<open>Adding a word\<close>

definition grown :: "nat \<Rightarrow> char \<Rightarrow> dictionary \<Rightarrow> dictionary" where
  "grown p c d = link_node p c (cur d) (fst (AllocateNode d))"

lemma AllocateNode_eq:
  assumes "dict_wf d"
  shows "AllocateNode d = (if d_size d \<le> cur d then (d, None)
    else (d\<lparr>d_nodes := (d_nodes d)[cur d := blank_node\<lparr>dwIndex := - int (cur d)\<rparr>],
            m_dwCurNodeIndex := int (cur d + 1)\<rparr>, Some (cur d)))"
proof -
  have c: "m_dwCurNodeIndex d = int (cur d)" "cur d \<le> 2147483647"
    using dict_wf_cur(3) [OF assms] dict_wfD(1,4) [OF assms] by auto
  then have "u32 (int (cur d)) = int (cur d)" by (intro u32_id) (simp add: in_u32_def)
  moreover have "i32 (int (cur d) + 1) = int (cur d) + 1" "i32 (- int (cur d)) = - int (cur d)" if "cur d < d_size d"
    using that dict_wfD(1) [OF assms] by (auto intro!: i32_id simp: in_i32_def)
  ultimately show ?thesis by (simp add: AllocateNode_def Let_def c add.commute)
qed

lemma grown_nodes:
  assumes wf: "dict_wf d" and p: "p < cur d" and room: "cur d < d_size d"
  shows "cur (grown p c d) = cur d + 1" "d_size (grown p c d) = d_size d"
    "length (d_nodes (grown p c d)) = length (d_nodes d)" "1 \<le> m_dwCurNodeIndex (grown p c d)"
    "d_nodes (grown p c d) ! cur d = blank_node\<lparr>dwIndex := - int (cur d)\<rparr>"
    "i < cur d \<Longrightarrow> dwIndex (d_nodes (grown p c d) ! i) = dwIndex (d_nodes d ! i)"
    "i < cur d \<Longrightarrow> branch (d_nodes (grown p c d) ! i) =
       (if i = p then (branch (d_nodes d ! i))(c \<mapsto> cur d) else branch (d_nodes d ! i))"
proof -
  have "\<not> d_size d \<le> cur d" "cur d < length (d_nodes d)" using room dict_wfD(2) [OF wf] by auto
  then show "cur (grown p c d) = cur d + 1" "d_size (grown p c d) = d_size d"
    "length (d_nodes (grown p c d)) = length (d_nodes d)" "1 \<le> m_dwCurNodeIndex (grown p c d)"
    "d_nodes (grown p c d) ! cur d = blank_node\<lparr>dwIndex := - int (cur d)\<rparr>"
    "i < cur d \<Longrightarrow> dwIndex (d_nodes (grown p c d) ! i) = dwIndex (d_nodes d ! i)"
    "i < cur d \<Longrightarrow> branch (d_nodes (grown p c d) ! i) =
       (if i = p then (branch (d_nodes d ! i))(c \<mapsto> cur d) else branch (d_nodes d ! i))"
    using p by (auto simp: grown_def link_node_def AllocateNode_eq [OF wf] cur_def nth_list_update)
qed

lemma grown_branch:
  assumes "dict_wf d" "p < cur d" "cur d < d_size d" "i < cur (grown p c d)"
    and "branch (d_nodes (grown p c d) ! i) e = Some j"
  shows "i = p \<and> e = c \<and> j = cur d \<or> i < cur d \<and> (i \<noteq> p \<or> e \<noteq> c) \<and> branch (d_nodes d ! i) e = Some j"
proof (cases "i < cur d")
  case True
  with assms grown_nodes(7) [OF assms(1,2,3) True, of c] show ?thesis by (auto split: if_splits)
next
  case False
  then have "i = cur d" using assms(4) grown_nodes(1) [OF assms(1,2,3), of c] by simp
  then show ?thesis using assms(5) grown_nodes(5) [OF assms(1,2,3), of c] by (simp add: blank_node_def)
qed

lemma grown_wf:
  assumes wf: "dict_wf d" and p: "p < cur d" and room: "cur d < d_size d"
  shows "dict_wf (grown p c d)"
  unfolding dict_wf_def
proof (intro conjI allI impI)
  note g = grown_nodes [OF assms]
  note b = grown_branch [OF assms]
  show "d_size (grown p c d) < 2147483648" "length (d_nodes (grown p c d)) = max 1 (d_size (grown p c d))"
    "1 \<le> m_dwCurNodeIndex (grown p c d)" "cur (grown p c d) \<le> max 1 (d_size (grown p c d))"
    using dict_wfD(1,2) [OF wf] room by (simp_all add: g)
  show "dwIndex (d_nodes (grown p c d) ! 0) = 0"
    using g(6) [OF dict_wf_cur(1) [OF wf]] dict_wfD(5) [OF wf] by simp
  fix i assume i: "0 < i \<and> i < cur (grown p c d)"
  show "\<bar>dwIndex (d_nodes (grown p c d) ! i)\<bar> = int i"
  proof (cases "i < cur d")
    case True
    with g(6) [OF True] dict_wfD(6) [OF wf, of i] i show ?thesis by simp
  next
    case False
    with i g(1) [of c] have "i = cur d" by simp
    with g(5) [of c] show ?thesis by simp
  qed
next
  note g = grown_nodes [OF assms]
  fix i e j assume "i < cur (grown p c d)" "branch (d_nodes (grown p c d) ! i) e = Some j"
  from grown_branch [OF assms this] dict_wfD(7) [OF wf, of i e j] have "i < j \<and> j \<le> cur d"
    using p by (elim disjE conjE) simp_all
  then show "i < j" "j < cur (grown p c d)" by (simp_all add: g(1) [of c])
next
  fix i e i' e' j
  assume a: "i < cur (grown p c d)" "i' < cur (grown p c d)"
    "branch (d_nodes (grown p c d) ! i) e = Some j" "branch (d_nodes (grown p c d) ! i') e' = Some j"
  have old: "branch (d_nodes d ! k) x \<noteq> Some (cur d)" if "k < cur d" for k x
    using dict_wfD(7) [OF wf that] by blast
  have u: "i = i' \<and> e = e'" if "i < cur d" "i' < cur d" "branch (d_nodes d ! i) e = Some j"
    "branch (d_nodes d ! i') e' = Some j" using dict_wfD(8) [OF wf] that by blast
  have "i = i' \<and> e = e'"
    using grown_branch [OF assms a(1,3)] grown_branch [OF assms a(2,4)] old [of i e] old [of i' e'] u by blast
  then show "i = i'" "e = e'" by auto
qed

text \<open>The words that lead somewhere: those of before and the one for the new node.\<close>

lemma grown_walk:
  assumes wf: "dict_wf d" and p: "p < cur d" and room: "cur d < d_size d" and none: "branch (d_nodes d ! p) c = None"
  shows "dict_walk (d_nodes d) r w = Some q \<Longrightarrow> r < cur d \<Longrightarrow> dict_walk (d_nodes (grown p c d)) r w = Some q"
    and "dict_walk (d_nodes (grown p c d)) r w = Some q \<Longrightarrow> r < cur d \<Longrightarrow>
      dict_walk (d_nodes d) r w = Some q \<or> q = cur d"
proof -
  note g = grown_nodes [OF wf p room]
  show "dict_walk (d_nodes d) r w = Some q \<Longrightarrow> r < cur d \<Longrightarrow> dict_walk (d_nodes (grown p c d)) r w = Some q"
  proof (induction w arbitrary: r)
    case (Cons x w)
    then obtain s where s: "branch (d_nodes d ! r) x = Some s" "dict_walk (d_nodes d) s w = Some q"
      by (auto split: option.splits)
    then have "s < cur d" using dict_wfD(7) [OF wf Cons.prems(2)] by blast
    with Cons.IH [OF s(2)] s(1) none g(7) [OF Cons.prems(2), of c] show ?case by auto
  qed simp
  show "dict_walk (d_nodes (grown p c d)) r w = Some q \<Longrightarrow> r < cur d \<Longrightarrow>
      dict_walk (d_nodes d) r w = Some q \<or> q = cur d"
  proof (induction w arbitrary: r)
    case (Cons x w)
    then obtain s where s: "branch (d_nodes (grown p c d) ! r) x = Some s"
        "dict_walk (d_nodes (grown p c d)) s w = Some q"
      by (auto split: option.splits)
    have r: "r < cur (grown p c d)" using Cons.prems(2) g(1) [of c] by simp
    from grown_branch [OF wf p room r s(1)] consider "s = cur d" | "branch (d_nodes d ! r) x = Some s" by blast
    then show ?case
    proof cases
      assume "s = cur d"
      with s(2) have "w = [] \<and> q = cur d" by (cases w) (simp_all add: g(5) [of c] blank_node_def)
      then show ?case by simp
    next
      assume b: "branch (d_nodes d ! r) x = Some s"
      then have "s < cur d" using dict_wfD(7) [OF wf Cons.prems(2)] by blast
      from Cons.IH [OF s(2) this] b show ?case by simp
    qed
  qed simp
qed

text \<open>
  How a dictionary grows: the nodes of before keep their indices and their words, the new ones are
  no words yet.
\<close>

definition dict_ext :: "dictionary \<Rightarrow> dictionary \<Rightarrow> bool" where
  "dict_ext d d' \<longleftrightarrow> dict_wf d' \<and> d_size d' = d_size d \<and> cur d \<le> cur d' \<and>
     (\<forall>i < cur d. dwIndex (d_nodes d' ! i) = dwIndex (d_nodes d ! i)) \<and>
     (\<forall>i. cur d \<le> i \<longrightarrow> i < cur d' \<longrightarrow> dwIndex (d_nodes d' ! i) = - int i) \<and>
     (\<forall>v q. dict_walk (d_nodes d) 0 v = Some q \<longrightarrow> dict_walk (d_nodes d') 0 v = Some q) \<and>
     (\<forall>v q. dict_walk (d_nodes d') 0 v = Some q \<longrightarrow> dict_walk (d_nodes d) 0 v = Some q \<or> cur d \<le> q)"

lemma dict_ext_refl: "dict_wf d \<Longrightarrow> dict_ext d d"
  by (simp add: dict_ext_def)

lemma dict_ext_trans:
  assumes "dict_ext a b" "dict_ext b c"
  shows "dict_ext a c"
proof -
  have "dwIndex (d_nodes c ! i) = - int i" if "cur a \<le> i" "i < cur c" for i
    using assms that by (cases "i < cur b") (auto simp: dict_ext_def)
  moreover have "dict_walk (d_nodes a) 0 v = Some q \<or> cur a \<le> q" if "dict_walk (d_nodes c) 0 v = Some q" for v q
    using assms that unfolding dict_ext_def by (meson le_trans)
  ultimately show ?thesis using assms unfolding dict_ext_def by (auto simp: less_le_trans)
qed

lemma dict_ext_grown:
  assumes wf: "dict_wf d" and p: "p < cur d" and room: "cur d < d_size d" and none: "branch (d_nodes d ! p) c = None"
  shows "dict_ext d (grown p c d)"
proof -
  note g = grown_nodes [OF wf p room]
  have "dwIndex (d_nodes (grown p c d) ! i) = - int i" if "cur d \<le> i" "i < cur (grown p c d)" for i
  proof -
    have "i = cur d" using that g(1) [of c] by simp
    then show ?thesis by (simp add: g(5) [of c])
  qed
  moreover have "dict_walk (d_nodes d) 0 v = Some q \<or> cur d \<le> q" if "dict_walk (d_nodes (grown p c d)) 0 v = Some q" for v q
    using grown_walk(2) [OF assms that dict_wf_cur(1) [OF wf]] by auto
  ultimately show ?thesis
    using grown_wf [OF wf p room] grown_walk(1) [OF assms _ dict_wf_cur(1) [OF wf]]
    by (auto simp: dict_ext_def g(1,2,6))
qed

lemma add_loop_Cons:
  assumes "dict_wf d"
  shows "add_loop d p (c # w) = (case branch (d_nodes d ! p) c of
      None \<Rightarrow> if d_size d \<le> cur d then (d, None) else add_loop (grown p c d) (cur d) w
    | Some q \<Rightarrow> add_loop d q w)"
  by (auto simp: AllocateNode_eq [OF assms] grown_def split: option.splits)

lemma add_loop_spec:
  assumes "dict_wf d" "p < cur d" "dict_walk (d_nodes d) 0 u = Some p" "add_loop d p w = (d', res)"
  shows "dict_ext d d' \<and> (case res of None \<Rightarrow> d_size d \<le> cur d'
    | Some q \<Rightarrow> dict_walk (d_nodes d') 0 (u @ w) = Some q)"
  using assms
proof (induction w arbitrary: d p u)
  case (Cons c w)
  note wf = Cons.prems(1) and p = Cons.prems(2) and u = Cons.prems(3)
  show ?case
  proof (cases "branch (d_nodes d ! p) c")
    case (Some q)
    then have "q < cur d" "dict_walk (d_nodes d) 0 (u @ [c]) = Some q"
      using dict_wfD(7) [OF wf p] u by (auto simp: dict_walk_append)
    from Cons.IH [OF wf this] Some Cons.prems(4) show ?thesis by (cases res) simp_all
  next
    case None
    show ?thesis
    proof (cases "d_size d \<le> cur d")
      case True
      with Cons.prems(4) None wf show ?thesis by (auto simp: add_loop_Cons [OF wf] dict_ext_refl simp del: add_loop.simps)
    next
      case False
      then have room: "cur d < d_size d" by simp
      note g = grown_nodes [OF wf p room]
      from Cons.prems(4) None False have l: "add_loop (grown p c d) (cur d) w = (d', res)"
        by (simp add: add_loop_Cons [OF wf] del: add_loop.simps)
      have "dict_walk (d_nodes (grown p c d)) 0 u = Some p"
        using grown_walk(1) [OF wf p room None u dict_wf_cur(1) [OF wf]] .
      then have "dict_walk (d_nodes (grown p c d)) 0 (u @ [c]) = Some (cur d)"
        using g(7) [OF p, of c] by (simp add: dict_walk_append)
      from Cons.IH [OF grown_wf [OF wf p room] _ this l] g(1,2) [of c]
        dict_ext_trans [OF dict_ext_grown [OF wf p room None]]
      show ?thesis by (auto split: option.splits)
    qed
  qed
next
  case Nil
  then have "d' = d" "res = Some p" by simp_all
  with Nil show ?case by (simp add: dict_ext_refl)
qed

subsection \<open>The word is marked\<close>

lemma dict_walk_cong:
  assumes "\<And>i. branch (ns' ! i) = branch (ns ! i)"
  shows "dict_walk ns' p w = dict_walk ns p w"
  by (induction w arbitrary: p) (simp_all add: assms split: option.split)

lemma mark_word_nodes:
  assumes wf: "dict_wf d" and p: "0 < p" "p < cur d"
  shows "mark_word p d = d\<lparr>d_nodes := (d_nodes d)[p := (d_nodes d ! p)\<lparr>dwIndex := int p\<rparr>]\<rparr>"
proof -
  have r: "\<bar>dwIndex (d_nodes d ! p)\<bar> = int p" by (rule dict_wfD(6) [OF wf p])
  have "p < 2147483648" using dict_wfD(1,4) [OF wf] p by auto
  then have "i32 (int p) = int p" by (simp add: in_i32_def)
  show ?thesis
  proof (cases "dwIndex (d_nodes d ! p) < 0")
    case True
    with r \<open>i32 (int p) = int p\<close> show ?thesis by (simp add: mark_word_def)
  next
    case False
    with r have "(d_nodes d ! p)\<lparr>dwIndex := int p\<rparr> = d_nodes d ! p" by (intro char_node.equality) simp_all
    then have "(d_nodes d)[p := (d_nodes d ! p)\<lparr>dwIndex := int p\<rparr>] = d_nodes d" by (metis list_update_id)
    with False show ?thesis by (simp add: mark_word_def)
  qed
qed

lemma mark_word_spec:
  assumes wf: "dict_wf d" and p: "0 < p" "p < cur d"
  shows "dict_wf (mark_word p d)" "cur (mark_word p d) = cur d"
    "dict_walk (d_nodes (mark_word p d)) r w = dict_walk (d_nodes d) r w"
    "dwIndex (d_nodes (mark_word p d) ! i) = (if i = p then int p else dwIndex (d_nodes d ! i))"
proof -
  note m = mark_word_nodes [OF assms]
  have pl: "p < length (d_nodes d)" using p(2) dict_wf_cur(2) [OF wf] by simp
  show b: "dict_walk (d_nodes (mark_word p d)) r w = dict_walk (d_nodes d) r w"
    by (rule dict_walk_cong) (use pl in \<open>simp add: m nth_list_update\<close>)
  show c: "cur (mark_word p d) = cur d" by (simp add: m cur_def)
  show x: "dwIndex (d_nodes (mark_word p d) ! i) = (if i = p then int p else dwIndex (d_nodes d ! i))" for i
    using pl by (simp add: m nth_list_update)
  have br: "branch (d_nodes (mark_word p d) ! i) = branch (d_nodes d ! i)" for i
    using pl by (simp add: m nth_list_update)
  show "dict_wf (mark_word p d)"
    unfolding dict_wf_def c x br
  proof (intro conjI allI impI)
    show "d_size (mark_word p d) < 2147483648" "length (d_nodes (mark_word p d)) = max 1 (d_size (mark_word p d))"
      "1 \<le> m_dwCurNodeIndex (mark_word p d)" "cur d \<le> max 1 (d_size (mark_word p d))"
      using dict_wfD(1-4) [OF wf] by (simp_all add: m)
    show "(if 0 = p then int p else dwIndex (d_nodes d ! 0)) = 0" using p(1) dict_wfD(5) [OF wf] by simp
    fix i assume "0 < i \<and> i < cur d"
    then show "\<bar>if i = p then int p else dwIndex (d_nodes d ! i)\<bar> = int i" using dict_wfD(6) [OF wf, of i] by simp
  next
    fix i c j assume "i < cur d" "branch (d_nodes d ! i) c = Some j"
    from dict_wfD(7) [OF wf this] show "i < j" "j < cur d" by auto
  next
    fix i c i' c' j
    assume "i < cur d" "i' < cur d" "branch (d_nodes d ! i) c = Some j" "branch (d_nodes d ! i') c' = Some j"
    from dict_wfD(8) [OF wf this] show "i = i'" "c = c'" by auto
  qed
qed

lemma add_loop_cur:
  assumes "dict_wf d" "p < cur d" "add_loop d p w = (d', res)"
  shows "cur d' \<le> cur d + length w \<and> (res = None \<longrightarrow> cur d' < cur d + length w)"
  using assms
proof (induction w arbitrary: d p)
  case (Cons c w)
  note wf = Cons.prems(1) and p = Cons.prems(2)
  show ?case
  proof (cases "branch (d_nodes d ! p) c")
    case (Some q)
    then have "q < cur d" using dict_wfD(7) [OF wf p] by auto
    from Cons.IH [OF wf this] Some Cons.prems(3) show ?thesis by auto
  next
    case None
    show ?thesis
    proof (cases "d_size d \<le> cur d")
      case True
      with Cons.prems(3) None show ?thesis by (auto simp: add_loop_Cons [OF wf] simp del: add_loop.simps)
    next
      case False
      then have room: "cur d < d_size d" by simp
      from Cons.prems(3) None False have l: "add_loop (grown p c d) (cur d) w = (d', res)"
        by (simp add: add_loop_Cons [OF wf] del: add_loop.simps)
      from Cons.IH [OF grown_wf [OF wf p room] _ l] grown_nodes(1) [OF wf p room, of c] show ?thesis by simp
    qed
  qed
qed auto

section \<open>The words of a dictionary\<close>

definition numbered :: "dictionary \<Rightarrow> string \<Rightarrow> nat option" where
  "numbered d w = (if 0 < LookUp d (Some w) then Some (nat (LookUp d (Some w))) else None)"

lemma numbered_walk:
  assumes wf: "dict_wf d"
  shows "numbered d w = (case dict_walk (d_nodes d) 0 w of
      None \<Rightarrow> None
    | Some p \<Rightarrow> if w \<noteq> [] \<and> 0 < dwIndex (d_nodes d ! p) then Some p else None)"
proof (cases "w = []")
  case False
  show ?thesis
  proof (cases "dict_walk (d_nodes d) 0 w")
    case (Some p)
    with walk_in_use [OF wf dict_wf_cur(1) [OF wf] Some] False have "0 < p" "p < cur d" by auto
    from dict_wfD(6) [OF wf this] have "0 < dwIndex (d_nodes d ! p) \<Longrightarrow> nat (dwIndex (d_nodes d ! p)) = p" by simp
    with Some False show ?thesis by (simp add: numbered_def LookUp_def)
  qed (simp add: numbered_def LookUp_def False)
qed (simp add: numbered_def LookUp_def)

lemma numbered_inj:
  assumes "dict_wf d" "numbered d v = Some n" "numbered d w = Some n"
  shows "v = w"
  using assms(2,3) walk_inj [OF assms(1)]
  by (auto simp: numbered_walk [OF assms(1)] split: option.splits if_splits)

lemma numbered_ext:
  assumes wf: "dict_wf d" and e: "dict_ext d d'"
  shows "numbered d' = numbered d"
proof
  fix v
  have wf': "dict_wf d'" using e by (simp add: dict_ext_def)
  show "numbered d' v = numbered d v"
  proof (cases "dict_walk (d_nodes d) 0 v")
    case (Some q)
    have "q < cur d" using walk_in_use [OF wf dict_wf_cur(1) [OF wf] Some] by simp
    then have "dict_walk (d_nodes d') 0 v = Some q" "dwIndex (d_nodes d' ! q) = dwIndex (d_nodes d ! q)"
      using e Some unfolding dict_ext_def by auto
    with Some show ?thesis by (simp add: numbered_walk [OF wf] numbered_walk [OF wf'])
  next
    case None
    show ?thesis
    proof (cases "dict_walk (d_nodes d') 0 v")
      case (Some q)
      with None e have "cur d \<le> q" unfolding dict_ext_def by (metis option.distinct(1))
      moreover have "q < cur d'" using walk_in_use [OF wf' dict_wf_cur(1) [OF wf'] Some] by simp
      ultimately have "dwIndex (d_nodes d' ! q) = - int q" using e unfolding dict_ext_def by blast
      with None Some show ?thesis by (simp add: numbered_walk [OF wf] numbered_walk [OF wf'])
    qed (simp add: None numbered_walk [OF wf] numbered_walk [OF wf'])
  qed
qed

lemma numbered_mark:
  assumes wf: "dict_wf d" and w: "dict_walk (d_nodes d) 0 w = Some p" "w \<noteq> []"
  shows "numbered (mark_word p d) = (numbered d)(w \<mapsto> p)"
proof
  fix v
  have p: "0 < p" "p < cur d" using walk_in_use [OF wf dict_wf_cur(1) [OF wf] w(1)] w(2) by auto
  note m = mark_word_spec [OF wf p]
  show "numbered (mark_word p d) v = ((numbered d)(w \<mapsto> p)) v"
  proof (cases "v = w")
    case True
    with w p show ?thesis by (simp add: numbered_walk [OF m(1)] m(3,4))
  next
    case False
    then have "dict_walk (d_nodes d) 0 v \<noteq> Some p" using walk_inj [OF wf _ w(1)] by blast
    with False show ?thesis
      by (auto simp: numbered_walk [OF m(1)] numbered_walk [OF wf] m(3,4) split: option.split)
  qed
qed

lemma AddWord_spec:
  assumes wf: "dict_wf d" and w: "w \<noteq> []" and r: "AddWord d (Some w) = (r, d')"
  shows "dict_wf d'" "cur d' \<le> cur d + length w"
    "r = 0 \<and> numbered d' = numbered d \<and> d_size d \<le> cur d' \<and> cur d' < cur d + length w \<or>
     0 < r \<and> numbered d' = (numbered d)(w \<mapsto> nat r) \<and> (numbered d w = None \<or> numbered d w = Some (nat r))"
    "d_size d' = d_size d"
proof -
  obtain d1 res where l: "add_loop d 0 w = (d1, res)" by force
  have u: "dict_walk (d_nodes d) 0 [] = Some 0" by simp
  from add_loop_spec [OF wf dict_wf_cur(1) [OF wf] u l]
  have e: "dict_ext d d1" and res: "case res of None \<Rightarrow> d_size d \<le> cur d1 | Some q \<Rightarrow> dict_walk (d_nodes d1) 0 w = Some q"
    by (simp_all split: option.splits)
  have wf1: "dict_wf d1" and size: "d_size d1 = d_size d" using e by (simp_all add: dict_ext_def)
  note n = numbered_ext [OF wf e] and c = add_loop_cur [OF wf dict_wf_cur(1) [OF wf] l]
  have "dict_wf d' \<and> cur d' \<le> cur d + length w \<and> d_size d' = d_size d \<and>
    (r = 0 \<and> numbered d' = numbered d \<and> d_size d \<le> cur d' \<and> cur d' < cur d + length w \<or>
     0 < r \<and> numbered d' = (numbered d)(w \<mapsto> nat r) \<and> (numbered d w = None \<or> numbered d w = Some (nat r)))"
  proof (cases res)
    case None
    then have "r = 0" "d' = d1" using r w l by (simp_all add: AddWord_def)
    with None res n c wf1 size show ?thesis by simp
  next
    case (Some p)
    then have q: "dict_walk (d_nodes d1) 0 w = Some p" using res by simp
    then have p: "0 < p" "p < cur d1" using walk_in_use [OF wf1 dict_wf_cur(1) [OF wf1]] w by blast+
    note m = mark_word_spec [OF wf1 p]
    have d': "d' = mark_word p d1" "r = int p" using r w l m(4) [of p] by (simp_all add: AddWord_def Some Let_def)
    have "d_size (mark_word p d1) = d_size d1" by (simp add: mark_word_def)
    moreover have "numbered d w = None \<or> numbered d w = Some p"
      using q by (simp add: n [symmetric] numbered_walk [OF wf1])
    ultimately show ?thesis
      using m(1,2) numbered_mark [OF wf1 q w] c p n size by (simp add: d')
  qed
  then show "dict_wf d'" "cur d' \<le> cur d + length w" "d_size d' = d_size d"
    "r = 0 \<and> numbered d' = numbered d \<and> d_size d \<le> cur d' \<and> cur d' < cur d + length w \<or>
     0 < r \<and> numbered d' = (numbered d)(w \<mapsto> nat r) \<and> (numbered d w = None \<or> numbered d w = Some (nat r))"
    by blast+
qed

section \<open>What a client of a dictionary may rely on\<close>

text \<open>
  The contract of a numbering of words: every object \<open>d\<close> with the invariant has a room of \<open>room d\<close>
  cells; adding a word gives it a number, that of before if it had one, unless the word needs more room
  than is left; nothing else changes, and no two words have the same number.
\<close>

locale word_numbering =
  fixes inv :: "'d \<Rightarrow> bool" and number :: "'d \<Rightarrow> string \<Rightarrow> nat option"
    and insert_word :: "string \<Rightarrow> 'd \<Rightarrow> 'd" and room :: "'d \<Rightarrow> nat"
  assumes inv_insert: "inv d \<Longrightarrow> w \<noteq> [] \<Longrightarrow> inv (insert_word w d)"
    and room_insert: "inv d \<Longrightarrow> w \<noteq> [] \<Longrightarrow> room d \<le> room (insert_word w d) + length w"
    and number_insert: "inv d \<Longrightarrow> w \<noteq> [] \<Longrightarrow> length w \<le> room d \<Longrightarrow>
      \<exists>n. number (insert_word w d) = (number d)(w \<mapsto> n) \<and> (number d w = None \<or> number d w = Some n)"
    and number_inj: "inv d \<Longrightarrow> number d v = Some n \<Longrightarrow> number d w = Some n \<Longrightarrow> v = w"
begin

lemma fold_insert:
  assumes "inv d" "[] \<notin> set ws" "length (concat ws) \<le> room d"
  shows "inv (fold insert_word ws d) \<and> dom (number (fold insert_word ws d)) = dom (number d) \<union> set ws \<and>
    number d \<subseteq>\<^sub>m number (fold insert_word ws d)"
  using assms
proof (induction ws arbitrary: d)
  case (Cons w ws)
  then have w: "w \<noteq> []" "length w \<le> room d" by auto
  from number_insert [OF Cons.prems(1) w] obtain n where
    n: "number (insert_word w d) = (number d)(w \<mapsto> n)" "number d w = None \<or> number d w = Some n" by blast
  have "length (concat ws) \<le> room (insert_word w d)"
    using room_insert [OF Cons.prems(1) w(1)] Cons.prems(3) by simp
  from Cons.IH [OF inv_insert [OF Cons.prems(1) w(1)] _ this] Cons.prems(2)
  have IH: "inv (fold insert_word ws (insert_word w d))"
    "dom (number (fold insert_word ws (insert_word w d))) = dom (number (insert_word w d)) \<union> set ws"
    "number (insert_word w d) \<subseteq>\<^sub>m number (fold insert_word ws (insert_word w d))" by auto
  have "number d \<subseteq>\<^sub>m number (insert_word w d)" using n by (auto simp: map_le_def)
  with IH n show ?case by (auto intro: map_le_trans)
qed simp

lemma room_fold:
  assumes "inv d" "[] \<notin> set ws" "length (concat ws) \<le> room d"
  shows "room d \<le> room (fold insert_word ws d) + length (concat ws)"
  using assms
proof (induction ws arbitrary: d)
  case (Cons w ws)
  then have w: "w \<noteq> []" by auto
  note r = room_insert [OF Cons.prems(1) w]
  have "length (concat ws) \<le> room (insert_word w d)" using r Cons.prems(3) by simp
  from Cons.IH [OF inv_insert [OF Cons.prems(1) w] _ this] Cons.prems(2) r show ?case by simp
qed simp

lemma fold_insert_numbers:
  assumes "inv d" "[] \<notin> set ws" "length (concat ws) \<le> room d"
  shows "inj_on (number (fold insert_word ws d)) (dom (number d) \<union> set ws)"
proof (rule inj_onI)
  note f = fold_insert [OF assms]
  fix v w
  assume "v \<in> dom (number d) \<union> set ws" "number (fold insert_word ws d) v = number (fold insert_word ws d) w"
  with f obtain n where "number (fold insert_word ws d) v = Some n" "number (fold insert_word ws d) w = Some n"
    by (metis domD)
  with number_inj f show "v = w" by blast
qed

end

definition insert_dict :: "string \<Rightarrow> dictionary \<Rightarrow> dictionary" where
  "insert_dict w d = snd (AddWord d (Some w))"

definition dict_room :: "dictionary \<Rightarrow> nat" where
  "dict_room d = d_size d - cur d"

interpretation dict: word_numbering dict_wf numbered insert_dict dict_room
proof unfold_locales
  fix d :: dictionary and w :: string assume d: "dict_wf d" and w: "w \<noteq> []"
  obtain r d' where r: "AddWord d (Some w) = (r, d')" by force
  note a = AddWord_spec [OF d w r]
  show "dict_wf (insert_dict w d)" using a(1) by (simp add: insert_dict_def r)
  show "dict_room d \<le> dict_room (insert_dict w d) + length w" using a(2,4) by (simp add: insert_dict_def r dict_room_def)
  show "\<exists>n. numbered (insert_dict w d) = (numbered d)(w \<mapsto> n) \<and> (numbered d w = None \<or> numbered d w = Some n)"
    if "length w \<le> dict_room d"
  proof -
    have "0 < length w" using w by simp
    with that have "\<not> (d_size d \<le> cur d' \<and> cur d' < cur d + length w)" unfolding dict_room_def by linarith
    with a(3) show ?thesis by (auto simp: insert_dict_def r)
  qed
qed (rule numbered_inj)

lemma numbered_new: "n < 2147483648 \<Longrightarrow> numbered (dict_new n) = Map.empty"
proof
  fix w assume n: "n < 2147483648"
  have "d_nodes (dict_new n) ! 0 = blank_node" by (simp add: dict_new_def)
  then show "numbered (dict_new n) w = None"
    by (cases w) (simp_all add: numbered_walk [OF dict_wf_new [OF n]])
qed

lemma numbered_Reset:
  assumes "dict_wf d"
  shows "numbered (dict_Reset d) = Map.empty"
proof
  fix w
  have "d_nodes d \<noteq> []" using dict_wfD(2) [OF assms] by auto
  then have r: "d_nodes (dict_Reset d) ! 0 = blank_node" by (simp add: dict_Reset_def)
  then show "numbered (dict_Reset d) w = None"
    by (cases w) (simp_all add: numbered_walk [OF dict_wf_Reset [OF assms]])
qed

section \<open>Capital letters\<close>

fun folded :: "int \<Rightarrow> string \<Rightarrow> string" where
  "folded need [] = []"
| "folded need (c # w) =
     (let need1 = (if need = 0 then (if char_neg c then 2 else 1) else need)
      in (if need = 0 \<and> \<not> char_neg c then fold_case c else c) # folded (need1 - 1) w)"

lemma walk_folding_folded: "walk_folding ns p need w = dict_walk ns p (folded need w)"
  by (induction w arbitrary: p need) (simp_all add: Let_def split: option.split)

lemma schar_capital: "65 \<le> schar c \<and> schar c \<le> 90 \<longleftrightarrow> 65 \<le> (of_char c :: nat) \<and> (of_char c :: nat) \<le> 90"
proof -
  have "schar c = (if 128 \<le> (of_char c :: nat) then int (of_char c) - 256 else int (of_char c))"
    unfolding schar_def char_neg_def of_nat_of_char ..
  moreover have "(of_char c :: nat) < 256" by (rule nat_of_char_less_256)
  ultimately show ?thesis by presburger
qed

lemma fold_case_code:
  "(of_char (fold_case c) :: nat) =
    (if 65 \<le> (of_char c :: nat) \<and> (of_char c :: nat) \<le> 90 then of_char c + 32 else of_char c)"
  by (simp add: fold_case_def schar_capital of_char_of)

lemma fold_case_neg: "\<not> char_neg c \<Longrightarrow> \<not> char_neg (fold_case c)"
  by (simp add: char_neg_def fold_case_code)

lemma fold_case_idem: "fold_case (fold_case c) = fold_case c"
proof -
  have "(of_char (fold_case (fold_case c)) :: nat) = of_char (fold_case c)" by (simp add: fold_case_code)
  then show ?thesis by (simp only: of_char_eq_iff)
qed

lemma folded_idem: "folded need (folded need w) = folded need w"
  by (induction need w rule: folded.induct) (auto simp: Let_def fold_case_neg fold_case_idem)

lemma folded_Nil [simp]: "folded need w = [] \<longleftrightarrow> w = []"
  by (cases w) (simp_all add: Let_def)

lemma LookUp_node_folded:
  "LookUp_node d (Some w) None = (if w = [] then None else dict_walk (d_nodes d) 0 (folded 0 w))"
  by (simp add: LookUp_node_def walk_folding_folded)

section \<open>Properties\<close>

text \<open>
  C17: The pool of a dictionary stays well typed. Every dictionary that is made by the constructor
  and changed by \<open>AddWord\<close> (successful or not) and \<open>Reset\<close> has a pool in which every branch of a
  node in use leads to a node in use with a greater number, so that the searches end and return a node
  of the pool, in which every node in use has its own number as index, up to the sign, and no node has two parents.
\<close>

theorem dictionary_well_typed:
  assumes "n < 2147483648"
  shows "dict_wf (dict_new n) \<and>
    (\<forall>d. dict_wf d \<longrightarrow> dict_wf (dict_Reset d) \<and> (\<forall>w. dict_wf (snd (AddWord d w))) \<and>
      (\<forall>w p. LookUp_node d w None = Some p \<longrightarrow> p < length (d_nodes d) \<and> \<bar>dwIndex (d_nodes d ! p)\<bar> = int p))"
proof (intro conjI allI impI)
  show "dict_wf (dict_new n)" using assms by (rule dict_wf_new)
  fix d assume wf: "dict_wf d"
  then show "dict_wf (dict_Reset d)" by (rule dict_wf_Reset)
  show "dict_wf (snd (AddWord d w))" for w
  proof (cases "w = None \<or> w = Some []")
    case False
    then obtain v where "w = Some v" "v \<noteq> []" by auto
    with AddWord_spec(1) [OF wf] show ?thesis by (metis prod.collapse)
  qed (use wf in \<open>auto simp: AddWord_def\<close>)
  fix w p assume "LookUp_node d w None = Some p"
  then obtain v where v: "v \<noteq> []" "dict_walk (d_nodes d) 0 (folded 0 v) = Some p"
    by (cases w) (auto simp: LookUp_node_folded LookUp_node_def [of d None] split: if_splits)
  with walk_in_use [OF wf dict_wf_cur(1) [OF wf] v(2)] have "0 < p" "p < cur d" by auto
  with dict_wfD(6) [OF wf] dict_wf_cur(2) [OF wf]
  show "p < length (d_nodes d)" "\<bar>dwIndex (d_nodes d ! p)\<bar> = int p" by auto
qed

theorem dictionary_well_typed_witness: "dict_wf (snd (AddWord (dict_new 2) (Some ''abc'')))"
proof -
  have "(2::nat) < 2147483648" by simp
  from dictionary_well_typed [OF this] show ?thesis by blast
qed

text \<open>
  C18: A dictionary is the set of its words. Adding the words of a list, none of them empty, to a
  new dictionary with room for all their bytes gives a dictionary that finds, with a positive number,
  exactly the words of the list; every word has one number, whatever is added later, and different
  words have different numbers.
\<close>

theorem dictionary_is_word_list:
  assumes "n < 2147483648" "[] \<notin> set (vs @ ws)" "length (concat (vs @ ws)) < n"
  shows "(\<forall>w. 0 < LookUp (fold insert_dict vs (dict_new n)) (Some w) \<longleftrightarrow> w \<in> set vs) \<and>
    (\<forall>w \<in> set vs. LookUp (fold insert_dict (vs @ ws) (dict_new n)) (Some w) =
       LookUp (fold insert_dict vs (dict_new n)) (Some w)) \<and>
    inj_on (\<lambda>w. LookUp (fold insert_dict vs (dict_new n)) (Some w)) (set vs)"
proof -
  let ?d = "fold insert_dict vs (dict_new n)" and ?e = "fold insert_dict (vs @ ws) (dict_new n)"
  have wf: "dict_wf (dict_new n)" using assms(1) by (rule dict_wf_new)
  have room: "length (concat (vs @ ws)) \<le> dict_room (dict_new n)"
    using assms(3) by (simp add: dict_room_def dict_new_def cur_def)
  then have vs: "[] \<notin> set vs" "length (concat vs) \<le> dict_room (dict_new n)" using assms(2) by auto
  note f = dict.fold_insert [OF wf vs] and g = dict.fold_insert [OF wf assms(2) room]
  have dom: "dom (numbered ?d) = set vs" using f by (simp add: numbered_new [OF assms(1)])
  then have pos: "0 < LookUp ?d (Some w) \<longleftrightarrow> w \<in> set vs" for w
    by (auto simp: numbered_def dom_def split: if_splits)
  have e: "numbered ?e w = numbered ?d w" if "w \<in> set vs" for w
  proof -
    have "dict_wf ?d" using f by simp
    have room': "length (concat ws) \<le> dict_room ?d"
      using dict.room_fold [OF wf vs] room by simp
    from dict.fold_insert [OF \<open>dict_wf ?d\<close> _ room'] assms(2) have "numbered ?d \<subseteq>\<^sub>m numbered ?e" by simp
    with that dom show ?thesis by (auto simp: map_le_def)
  qed
  have "LookUp ?e (Some w) = LookUp ?d (Some w)" if "w \<in> set vs" for w
    using e [OF that] pos [of w] that by (auto simp: numbered_def split: if_splits)
  moreover have "inj_on (\<lambda>w. LookUp ?d (Some w)) (set vs)"
  proof (rule inj_onI)
    fix v w assume "v \<in> set vs" "w \<in> set vs" "LookUp ?d (Some v) = LookUp ?d (Some w)"
    then show "v = w"
      using dict.fold_insert_numbers [OF wf vs] pos
      by (auto simp: numbered_new [OF assms(1)] numbered_def inj_on_def)
  qed
  ultimately show ?thesis using pos by simp
qed

theorem dictionary_is_word_list_witness:
  "0 < LookUp (fold insert_dict [''ab'', ''a''] (dict_new 8)) (Some ''ab'') \<and>
    \<not> 0 < LookUp (fold insert_dict [''ab'', ''a''] (dict_new 8)) (Some ''b'') \<and>
    LookUp (fold insert_dict [''ab'', ''a'', ''b''] (dict_new 8)) (Some ''ab'') =
      LookUp (fold insert_dict [''ab'', ''a''] (dict_new 8)) (Some ''ab'') \<and>
    inj_on (\<lambda>w. LookUp (fold insert_dict [''ab'', ''a''] (dict_new 8)) (Some w)) {''ab'', ''a''}"
proof -
  obtain d e where d: "d = fold insert_dict [''ab'', ''a''] (dict_new 8)"
    and e: "e = fold insert_dict ([''ab'', ''a''] @ [''b'']) (dict_new 8)" by blast
  have "(\<forall>w. 0 < LookUp d (Some w) \<longleftrightarrow> w \<in> set [''ab'', ''a'']) \<and>
    (\<forall>w \<in> set [''ab'', ''a'']. LookUp e (Some w) = LookUp d (Some w)) \<and>
    inj_on (\<lambda>w. LookUp d (Some w)) (set [''ab'', ''a''])"
    unfolding d e by (rule dictionary_is_word_list) simp_all
  then have "0 < LookUp d (Some ''ab'') \<and> \<not> 0 < LookUp d (Some ''b'') \<and>
      LookUp e (Some ''ab'') = LookUp d (Some ''ab'') \<and> inj_on (\<lambda>w. LookUp d (Some w)) {''ab'', ''a''}" by simp
  then show ?thesis unfolding d e append_Cons append_Nil .
qed

text \<open>
  C40: \<open>AddWord\<close> does not fold capital letters, the search for a node does: a word with a capital
  letter outside of a two-byte character that has been added is never found by that search, not even
  when it is looked up as it was added.
\<close>

theorem capital_words_not_found:
  assumes "dict_wf d" "0 < LookUp d (Some v)" "folded 0 v \<noteq> v"
  shows "\<forall>w. LookUp_node d (Some w) None \<noteq> Some (nat (LookUp d (Some v)))"
proof
  fix w
  have n: "numbered d v = Some (nat (LookUp d (Some v)))" using assms(2) by (simp add: numbered_def)
  then have v: "dict_walk (d_nodes d) 0 v = Some (nat (LookUp d (Some v)))"
    by (auto simp: numbered_walk [OF assms(1)] split: option.splits if_splits)
  show "LookUp_node d (Some w) None \<noteq> Some (nat (LookUp d (Some v)))"
  proof
    assume "LookUp_node d (Some w) None = Some (nat (LookUp d (Some v)))"
    then have "dict_walk (d_nodes d) 0 (folded 0 w) = Some (nat (LookUp d (Some v)))"
      by (simp add: LookUp_node_folded split: if_splits)
    with walk_inj [OF assms(1) v] have "v = folded 0 w" by simp
    with assms(3) folded_idem [of 0 w] show False by simp
  qed
qed

theorem capital_words_not_found_witness:
  "LookUp (snd (AddWord (dict_new 2) (Some ''A''))) (Some ''A'') = 1 \<and>
   LookUp_node (snd (AddWord (dict_new 2) (Some ''A''))) (Some ''A'') None \<noteq> Some 1"
proof -
  have wf: "dict_wf (snd (AddWord (dict_new 2) (Some ''A'')))"
    by (rule AddWord_spec(1) [OF dict_wf_new _ surjective_pairing]) simp_all
  have l: "LookUp (snd (AddWord (dict_new 2) (Some ''A''))) (Some ''A'') = 1" by code_simp
  have f: "folded 0 ''A'' \<noteq> ''A''" by code_simp
  from capital_words_not_found [OF wf _ f] l show ?thesis by simp
qed

end
