(* ===== verification/Gary_Sort.thy ===== *)
theory Gary_Sort
  imports Bit_Vector Quick_Partition
begin

text \<open>
  \<^verbatim>\<open>QuickSortAsc\<close> of \<^verbatim>\<open>src/include/gary_common/gary_sort.h\<close>: a quicksort in place with its own stack of segments,
  the median of three as pivot, and a bubble pass followed by an insertion sort for segments of at most 16 elements.
  The scans of the partition and of the insertion sort have no test for the ends of the segment: they rely on
  elements that stop them. Accesses in front of or behind the buffer are faults here; \<open>QuickSortAsc_spec\<close>
  shows that there are none, and that the sort ends, sorted, unless the stack is too small for the input.
\<close>

section \<open>The program\<close>

subsection \<open>Short segments\<close>

text \<open>One bubble pass from \<open>j\<close> down to \<open>l + 1\<close>, which takes the least element to \<open>l\<close>.\<close>

fun bubble_down :: "'a :: linorder list \<Rightarrow> nat \<Rightarrow> nat \<Rightarrow> fault + 'a list" where
  "bubble_down v l 0 = Inr v"
| "bubble_down v l (Suc j) =
     (if Suc j \<le> l then Inr v
      else if length v \<le> Suc j then Inl Out_of_bounds
      else bubble_down (if v ! Suc j < v ! j then swap_nth v (Suc j) j else v) l j)"

fun sink_down :: "'a :: linorder \<Rightarrow> 'a list \<Rightarrow> nat \<Rightarrow> fault + 'a list" where
  "sink_down x v 0 = Inl Out_of_bounds"
| "sink_down x v (Suc k) =
     bind_ok (pool_at v k) (\<lambda>y. if x < y then sink_down x (v[Suc k := y, k := x]) k else Inr v)"

fun insert_each :: "nat list \<Rightarrow> 'a :: linorder list \<Rightarrow> fault + 'a list" where
  "insert_each [] v = Inr v"
| "insert_each (j # js) v = bind_ok (pool_at v j) (\<lambda>x. bind_ok (sink_down x v j) (insert_each js))"

definition sort_short :: "'a :: linorder list \<Rightarrow> nat \<Rightarrow> nat \<Rightarrow> fault + 'a list" where
  "sort_short v l r = bind_ok (bubble_down v l r) (insert_each [l + 2..<r + 1])"

subsection \<open>The partition\<close>

function scan_up :: "'a :: linorder list \<Rightarrow> 'a \<Rightarrow> nat \<Rightarrow> fault + nat" where
  "scan_up v x k =
     (if length v \<le> k + 1 then Inl Out_of_bounds
      else if v ! (k + 1) < x then scan_up v x (k + 1) else Inr (k + 1))"
  by pat_completeness auto
termination by (relation "measure (\<lambda>(v, x, k). length v - k)") auto

declare scan_up.simps [simp del]

fun scan_down :: "'a :: linorder list \<Rightarrow> 'a \<Rightarrow> nat \<Rightarrow> nat \<Rightarrow> fault + nat" where
  "scan_down v x k 0 = Inl Out_of_bounds"
| "scan_down v x k (Suc j) =
     bind_ok (pool_at v j) (\<lambda>y. if x < y then (if j = k then Inr j else scan_down v x k j) else Inr j)"

lemma scan_down_less: "scan_down v x k j = Inr j' \<Longrightarrow> j' < j"
proof (induction j)
  case (Suc j)
  then show ?case by (auto simp: pool_at_def bind_ok_def less_Suc_eq split: if_splits)
qed simp

function cross_loop :: "'a :: linorder list \<Rightarrow> 'a \<Rightarrow> nat \<Rightarrow> nat \<Rightarrow> fault + ('a list \<times> nat)" where
  "cross_loop v x k j =
     (case scan_up v x k of
        Inl e \<Rightarrow> Inl e
      | Inr k' \<Rightarrow>
          (case scan_down v x k' j of
             Inl e \<Rightarrow> Inl e
           | Inr j' \<Rightarrow> if j' \<le> k' then Inr (v, k') else cross_loop (swap_nth v k' j') x k' j'))"
  by pat_completeness auto
termination by (relation "measure (\<lambda>(v, x, k, j). j)") (auto dest: scan_down_less)

declare cross_loop.simps [simp del]

definition order_pair :: "nat \<Rightarrow> nat \<Rightarrow> 'a :: linorder list \<Rightarrow> 'a list" where
  "order_pair i j v = (if v ! j < v ! i then swap_nth v i j else v)"

definition gs_partition :: "'a :: linorder list \<Rightarrow> nat \<Rightarrow> nat \<Rightarrow> fault + ('a list \<times> nat)" where
  "gs_partition v l r =
     (if length v \<le> r \<or> 2147483648 \<le> l + r then Inl Out_of_bounds
      else let j = r - 1;
               v1 = order_pair l j (order_pair l r (order_pair j r (swap_nth v ((l + r) div 2) j)))
           in bind_ok (cross_loop v1 (v1 ! j) l j) (\<lambda>(v2, k). Inr (swap_nth v2 (r - 1) k, k)))"

subsection \<open>The stack\<close>

text \<open>
  The loop that counts the bits never ends for a negative number. The stack holds two integers for each segment, with the lower end on top; it has room for
  \<open>64 * bits (dwRight - 1)\<close> integers and is full when less than four of them are free.
\<close>

fun halvings :: "nat \<Rightarrow> nat" where
  "halvings j = (if j div 2 = 0 then 1 else halvings (j div 2) + 1)"

declare halvings.simps [simp del]

definition stack_limit :: "nat \<Rightarrow> nat" where
  "stack_limit r = 64 * halvings (r - 1) - 4"

definition push_segments :: "nat \<Rightarrow> nat \<Rightarrow> nat \<Rightarrow> (nat \<times> nat) list \<Rightarrow> (nat \<times> nat) list" where
  "push_segments l r k st =
     (let st1 = (if k + 1 < r then (k + 1, r) # st else st) in if l + 1 < k then (l, k - 1) # st1 else st1)"

fun sort_loop ::
    "nat \<Rightarrow> nat \<Rightarrow> (nat \<times> nat) list \<Rightarrow> 'a :: linorder list \<Rightarrow> fault + (int \<times> 'a list)" where
  "sort_loop fuel limit [] v = Inr (0, v)"
| "sort_loop 0 limit ((l, r) # st) v = Inl Diverges"
| "sort_loop (Suc fuel) limit ((l, r) # st) v =
     (if r - l < 16 then bind_ok (sort_short v l r) (sort_loop fuel limit st)
      else bind_ok (gs_partition v l r) (\<lambda>(v', k).
        if limit \<le> 2 * length st then Inr (-1, v') else sort_loop fuel limit (push_segments l r k st) v'))"

definition QuickSortAsc :: "'a :: linorder list \<Rightarrow> int \<Rightarrow> int \<Rightarrow> fault + (int \<times> 'a list)" where
  "QuickSortAsc v left right =
     (if right \<le> left then Inr (0, v)
      else if left < 0 then Inl (if right < 1 then Diverges else Out_of_bounds)
      else sort_loop (nat (right - left) + 2) (stack_limit (nat right)) [(nat left, nat right)] v)"

section \<open>Rearranging a segment\<close>

definition rearr :: "nat \<Rightarrow> nat \<Rightarrow> 'a list \<Rightarrow> 'a list \<Rightarrow> bool" where
  "rearr l r v v' \<longleftrightarrow> take l v' = take l v \<and> drop (Suc r) v' = drop (Suc r) v \<and> mset v' = mset v"

lemma rearr_refl [simp]: "rearr l r v v"
  by (simp add: rearr_def)

lemma rearr_trans [trans]: "rearr l r u v \<Longrightarrow> rearr l r v w \<Longrightarrow> rearr l r u w"
  by (simp add: rearr_def)

lemma rearr_length: "rearr l r v v' \<Longrightarrow> length v' = length v"
  unfolding rearr_def by (metis size_mset)

lemma rearr_out:
  assumes "rearr l r v v'" "i < l \<or> r < i" "i < length v"
  shows "v' ! i = v ! i"
proof -
  have len: "length v' = length v" by (rule rearr_length [OF assms(1)])
  from assms(2) show ?thesis
  proof
    assume "i < l"
    then show ?thesis using assms(1) unfolding rearr_def by (metis nth_take)
  next
    assume "r < i"
    then obtain d where "i = Suc r + d" by (metis Suc_leI le_add_diff_inverse)
    then have "drop (Suc r) w ! d = w ! i" if "length w = length v" for w :: "'a list" using assms(3) that by simp
    then show ?thesis using assms(1) len unfolding rearr_def by metis
  qed
qed

lemma rearr_mono:
  assumes "rearr l r v v'" "l' \<le> l" "r \<le> r'"
  shows "rearr l' r' v v'"
proof -
  have t: "take l' (take l w) = take l' w" for w :: "'a list" using assms(2) by (simp add: min_absorb1)
  have d: "drop (r' - r) (drop (Suc r) w) = drop (Suc r') w" for w :: "'a list" using assms(3) by simp
  have "take l' v' = take l' v" "drop (Suc r') v' = drop (Suc r') v"
    using arg_cong [of "take l v'" "take l v" "take l'"] arg_cong [of "drop (Suc r) v'" "drop (Suc r) v" "drop (r' - r)"] assms(1)
    unfolding t d rearr_def by blast+
  then show ?thesis using assms(1) by (simp add: rearr_def)
qed

lemma rearr_swap:
  assumes "l \<le> i" "i \<le> r" "l \<le> j" "j \<le> r" "r < length v"
  shows "rearr l r v (swap_nth v i j)"
  using assms by (simp add: rearr_def) (simp add: swap_nth_def)

text \<open>The elements of the segment are the same.\<close>

lemma rearr_all:
  assumes "rearr l r v v'" "r < length v" "\<And>i. l \<le> i \<Longrightarrow> i \<le> r \<Longrightarrow> P (v ! i)" "l \<le> i" "i \<le> r"
  shows "P (v' ! i)"
proof -
  have split: "mset w = mset (take l w) + mset (take (Suc r - l) (drop l w)) + mset (drop (Suc r) w)" for w :: "'a list"
  proof -
    have "mset w = mset (take n w) + mset (drop n w)" for n and w :: "'a list" by (metis append_take_drop_id mset_append)
    from this [where n = l and w = w] this [where n = "Suc r - l" and w = "drop l w"] assms(4,5) show ?thesis
      by (simp add: union_assoc)
  qed
  have "mset (take l v) + mset (take (Suc r - l) (drop l v')) + mset (drop (Suc r) v) =
      mset (take l v) + mset (take (Suc r - l) (drop l v)) + mset (drop (Suc r) v)"
    using assms(1) split [of v'] split [of v] unfolding rearr_def by metis
  then have "mset (take (Suc r - l) (drop l v')) = mset (take (Suc r - l) (drop l v))" by (simp only: add_left_cancel add_right_cancel)
  then have sets: "set (take (Suc r - l) (drop l v')) = set (take (Suc r - l) (drop l v))" by (rule mset_eq_setD)
  have len: "length v' = length v" by (rule rearr_length [OF assms(1)])
  have nth: "take (Suc r - l) (drop l w) ! (i - l) = w ! i" "i - l < length (take (Suc r - l) (drop l w))"
    if "length w = length v" for w :: "'a list" using assms(2,4,5) that by auto
  have "v' ! i \<in> set (take (Suc r - l) (drop l v'))" using nth [OF len] by (metis nth_mem)
  then obtain m where m: "m < length (take (Suc r - l) (drop l v))" "v' ! i = take (Suc r - l) (drop l v) ! m"
    unfolding sets by (metis in_set_conv_nth)
  then have "v' ! i = v ! (l + m)" "l + m \<le> r" using assms(2) by auto
  then show ?thesis using assms(3) [of "l + m"] by simp
qed

definition sorted_on :: "'a :: linorder list \<Rightarrow> nat \<Rightarrow> nat \<Rightarrow> bool" where
  "sorted_on v l r \<longleftrightarrow> (\<forall>i j. l \<le> i \<longrightarrow> i < j \<longrightarrow> j \<le> r \<longrightarrow> v ! i \<le> v ! j)"

section \<open>Short segments are sorted\<close>

lemma bubble_down_spec:
  "r < length v \<Longrightarrow> l \<le> j \<Longrightarrow> j \<le> r \<Longrightarrow> \<forall>i. j \<le> i \<longrightarrow> i \<le> r \<longrightarrow> v ! j \<le> v ! i \<Longrightarrow>
   \<exists>v'. bubble_down v l j = Inr v' \<and> rearr l r v v' \<and> (\<forall>i. l \<le> i \<longrightarrow> i \<le> r \<longrightarrow> v' ! l \<le> v' ! i)"
proof (induction v l j rule: bubble_down.induct)
  case (2 v l j)
  show ?case
  proof (cases "Suc j \<le> l")
    case True
    then have "l = Suc j" using "2.prems"(2) by simp
    with "2.prems"(4) show ?thesis by simp
  next
    case False
    let ?v = "if v ! Suc j < v ! j then swap_nth v (Suc j) j else v"
    have lt: "Suc j < length v" "j < length v" using "2.prems" by simp_all
    have r: "rearr l r v ?v" using "2.prems" False by (auto intro!: rearr_swap)
    have le: "v ! Suc j \<le> v ! i" if "Suc j \<le> i" "i \<le> r" for i using "2.prems"(4) that by blast
    have "?v ! j \<le> ?v ! i" if i: "j \<le> i" "i \<le> r" for i
    proof (cases "v ! Suc j < v ! j")
      case True
      then have "?v ! m = (if m = j then v ! Suc j else if m = Suc j then v ! j else v ! m)" for m
        using lt by (simp add: nth_swap_nth)
      moreover have "v ! Suc j \<le> v ! j" using True by simp
      moreover have "i \<noteq> j \<Longrightarrow> i \<noteq> Suc j \<Longrightarrow> v ! Suc j \<le> v ! i" using i le [of i] by simp
      ultimately show ?thesis by (cases "i = j"; cases "i = Suc j") (simp_all only: refl if_True if_False order_refl simp_thms not_False_eq_True True_implies_equals)
    next
      case False
      then have "v ! j \<le> v ! Suc j" by simp
      moreover have "i \<noteq> j \<Longrightarrow> v ! Suc j \<le> v ! i" using i le [of i] by simp
      ultimately have "v ! j \<le> v ! i" by (cases "i = j") (simp, blast intro: order_trans)
      with False show ?thesis by simp
    qed
    then have m: "\<forall>i. j \<le> i \<longrightarrow> i \<le> r \<longrightarrow> ?v ! j \<le> ?v ! i" by blast
    have len: "r < length ?v" using rearr_length [OF r] "2.prems"(1) by simp
    have "l \<le> j" "j \<le> r" "\<not> length v \<le> Suc j" using False "2.prems" by simp_all
    from "2.IH" [OF False this(3) len this(1,2) m] obtain v' where
      "bubble_down ?v l j = Inr v'" "rearr l r ?v v'" "\<forall>i. l \<le> i \<longrightarrow> i \<le> r \<longrightarrow> v' ! l \<le> v' ! i" by blast
    then show ?thesis using False lt rearr_trans [OF r] by (intro exI [of _ v']) simp
  qed
qed auto

lemma sink_down_spec:
  "l < k \<Longrightarrow> k \<le> j \<Longrightarrow> j < length v \<Longrightarrow> v ! k = x \<Longrightarrow> v ! l \<le> x \<Longrightarrow>
   \<forall>a b. l \<le> a \<longrightarrow> a < b \<longrightarrow> b \<le> j \<longrightarrow> a \<noteq> k \<longrightarrow> b \<noteq> k \<longrightarrow> v ! a \<le> v ! b \<Longrightarrow>
   \<forall>b. k < b \<longrightarrow> b \<le> j \<longrightarrow> x \<le> v ! b \<Longrightarrow>
   \<exists>v'. sink_down x v k = Inr v' \<and> rearr l j v v' \<and> sorted_on v' l j"
proof (induction x v k rule: sink_down.induct)
  case (2 x v k)
  let ?y = "v ! k"
  have lt: "k < length v" "Suc k < length v" using "2.prems" by simp_all
  show ?case
  proof (cases "x < ?y")
    case True
    then have "k \<noteq> l" using "2.prems"(5) by auto
    then have lk: "l < k" using "2.prems"(1) by simp
    let ?v = "v[Suc k := ?y, k := x]"
    have sw: "?v = swap_nth v k (Suc k)" using "2.prems"(4) lt by (simp add: swap_nth_def list_update_swap)
    have n: "?v ! i = (if i = k then x else if i = Suc k then ?y else v ! i)" for i
      using lt by (auto simp: nth_list_update)
    have s: "v ! a \<le> v ! b" if "l \<le> a" "a < b" "b \<le> j" "a \<noteq> Suc k" "b \<noteq> Suc k" for a b
      using "2.prems"(6) that by blast
    have "?v ! a \<le> ?v ! b" if "l \<le> a" "a < b" "b \<le> j" "a \<noteq> k" "b \<noteq> k" for a b
    proof -
      consider "b = Suc k" | "a = Suc k" | "a \<noteq> Suc k" "b \<noteq> Suc k" by blast
      then show ?thesis
      proof cases
        case 1
        with that have "a < k" by simp
        with 1 that "2.prems"(2) show ?thesis using s [of a k] by (simp add: n)
      next
        case 2
        with that lk show ?thesis using s [of k b] by (simp add: n)
      qed (use that s in \<open>simp add: n\<close>)
    qed
    moreover have "x \<le> ?v ! b" if "k < b" "b \<le> j" for b
      using True "2.prems"(7) that by (cases "b = Suc k") (auto simp: n)
    ultimately obtain v' where v': "sink_down x ?v k = Inr v'" "rearr l j ?v v'" "sorted_on v' l j"
      using "2.IH" [of ?y] True lk lt "2.prems" by (auto simp: n)
    have "rearr l j v ?v" unfolding sw using "2.prems" lk by (intro rearr_swap) auto
    with v' True lt show ?thesis by (auto intro: rearr_trans)
  next
    case False
    have "v ! a \<le> v ! b" if "l \<le> a" "a < b" "b \<le> j" for a b
    proof -
      consider "b = Suc k" | "a = Suc k" | "a \<noteq> Suc k" "b \<noteq> Suc k" by blast
      then show ?thesis
      proof cases
        case 1
        have "v ! a \<le> v ! k" using "2.prems"(6) that 1 by (cases "a = k") auto
        with False 1 "2.prems"(4) show ?thesis by (auto intro: order_trans)
      next
        case 2
        with that "2.prems"(4,7) show ?thesis by simp
      qed (use that "2.prems"(6) in blast)
    qed
    with False lt show ?thesis by (auto simp: sorted_on_def)
  qed
qed simp

lemma insert_each_spec:
  "r < length v \<Longrightarrow> l < m \<Longrightarrow> m \<le> Suc r \<Longrightarrow> sorted_on v l (m - 1) \<Longrightarrow> \<forall>i. l \<le> i \<longrightarrow> i \<le> r \<longrightarrow> v ! l \<le> v ! i \<Longrightarrow>
   \<exists>v'. insert_each [m..<Suc r] v = Inr v' \<and> rearr l r v v' \<and> sorted_on v' l r"
proof (induction "Suc r - m" arbitrary: m v)
  case 0
  then have "m = Suc r" by simp
  with 0 show ?case by simp
next
  case (Suc n)
  then have m: "m < Suc r" "m < length v" by simp_all
  have "v ! a \<le> v ! b" if "l \<le> a" "a < b" "b \<le> m" "a \<noteq> m" "b \<noteq> m" for a b
    using Suc.prems(4) that by (simp add: sorted_on_def)
  moreover have "v ! l \<le> v ! m" using Suc.prems(2,5) m by simp
  ultimately obtain v1 where v1: "sink_down (v ! m) v m = Inr v1" "rearr l m v v1" "sorted_on v1 l m"
    using sink_down_spec [of l m m v "v ! m"] Suc.prems(2) m(2) by auto
  have r1: "rearr l r v v1" by (rule rearr_mono [OF v1(2)]) (use m in simp_all)
  have len: "r < length v1" using rearr_length [OF r1] Suc.prems(1) by simp
  have low: "\<forall>i. l \<le> i \<longrightarrow> i \<le> r \<longrightarrow> v ! l \<le> v1 ! i"
    using rearr_all [OF r1 Suc.prems(1), of "\<lambda>x. v ! l \<le> x"] Suc.prems(5) by blast
  have "v1 ! l \<le> v ! l"
  proof -
    have "v1 ! l \<le> v1 ! i" if "l \<le> i" "i \<le> m" for i using v1(3) that by (cases "i = l") (auto simp: sorted_on_def)
    then show ?thesis using rearr_all [OF _ _ _ order_refl, of l m v1 v "\<lambda>x. v1 ! l \<le> x"] v1(2) m Suc.prems(2) rearr_length [OF v1(2)]
      by (simp add: rearr_def)
  qed
  with low have "\<forall>i. l \<le> i \<longrightarrow> i \<le> r \<longrightarrow> v1 ! l \<le> v1 ! i" by (blast intro: order_trans)
  moreover have "n = Suc r - Suc m" "l < Suc m" "Suc m \<le> Suc r" using Suc.hyps(2) Suc.prems(2) m by simp_all
  moreover have "sorted_on v1 l (Suc m - 1)" using v1(3) by simp
  ultimately obtain v' where "insert_each [Suc m..<Suc r] v1 = Inr v'" "rearr l r v1 v'" "sorted_on v' l r"
    using Suc.hyps(1) len by blast
  then show ?case using v1(1) m rearr_trans [OF r1] by (simp add: upt_conv_Cons del: upt_Suc)
qed

lemma sort_short_spec:
  assumes "l < r" "r < length v"
  shows "\<exists>v'. sort_short v l r = Inr v' \<and> rearr l r v v' \<and> sorted_on v' l r"
proof -
  from bubble_down_spec [of r v l r] assms obtain v1 where
    v1: "bubble_down v l r = Inr v1" "rearr l r v v1" "\<forall>i. l \<le> i \<longrightarrow> i \<le> r \<longrightarrow> v1 ! l \<le> v1 ! i" by auto
  have "sorted_on v1 l (l + 2 - 1)"
  proof -
    have "v1 ! i \<le> v1 ! j" if "l \<le> i" "i < j" "j \<le> l + 1" for i j
    proof -
      have "i = l" "j = l + 1" using that by simp_all
      with v1(3) assms(1) show ?thesis by simp
    qed
    then show ?thesis by (simp add: sorted_on_def)
  qed
  moreover have "r < length v1" using rearr_length [OF v1(2)] assms(2) by simp
  ultimately obtain v' where "insert_each [l + 2..<Suc r] v1 = Inr v'" "rearr l r v1 v'" "sorted_on v' l r"
    using insert_each_spec [of r v1 l "l + 2"] assms(1) v1(3) by auto
  then show ?thesis using v1(1) rearr_trans [OF v1(2)] by (simp add: sort_short_def)
qed

section \<open>The partition\<close>

lemma scan_up_spec:
  "k < m \<Longrightarrow> m < length v \<Longrightarrow> \<not> v ! m < x \<Longrightarrow>
   \<exists>k'. scan_up v x k = Inr k' \<and> k < k' \<and> k' \<le> m \<and> \<not> v ! k' < x \<and> (\<forall>i. k < i \<longrightarrow> i < k' \<longrightarrow> v ! i < x)"
proof (induction v x k rule: scan_up.induct)
  case (1 v x k)
  show ?case
  proof (cases "v ! (k + 1) < x")
    case True
    then have "k + 1 < m" using 1(2,4) by (metis Suc_eq_plus1 Suc_lessI)
    with 1 True obtain k' where k': "scan_up v x (k + 1) = Inr k'" "k + 1 < k'" "k' \<le> m" "\<not> v ! k' < x"
      "\<forall>i. k + 1 < i \<longrightarrow> i < k' \<longrightarrow> v ! i < x" by auto
    have "v ! i < x" if "k < i" "i < k'" for i using k'(5) True that by (cases "i = k + 1") auto
    with k' True 1(2,3) show ?thesis by (subst scan_up.simps) auto
  next
    case False
    with 1 show ?thesis by (subst scan_up.simps) auto
  qed
qed

lemma scan_down_spec:
  "m < j \<Longrightarrow> j \<le> length v \<Longrightarrow> \<not> x < v ! m \<or> m = k \<Longrightarrow>
   \<exists>j'. scan_down v x k j = Inr j' \<and> m \<le> j' \<and> j' < j \<and> (\<not> x < v ! j' \<or> j' = k) \<and> (\<forall>i. j' < i \<longrightarrow> i < j \<longrightarrow> x < v ! i)"
proof (induction j)
  case (Suc j)
  show ?case
  proof (cases "x < v ! j \<and> j \<noteq> k")
    case True
    then have "m < j" using Suc.prems(1,3) by (cases "m = j") auto
    with Suc obtain j' where j': "scan_down v x k j = Inr j'" "m \<le> j'" "j' < j" "\<not> x < v ! j' \<or> j' = k"
      "\<forall>i. j' < i \<longrightarrow> i < j \<longrightarrow> x < v ! i" by auto
    then show ?thesis using True Suc.prems(2) by (auto simp: less_Suc_eq)
  next
    case False
    then show ?thesis using Suc.prems by (auto simp: less_Suc_eq_le)
  qed
qed simp

text \<open>Between \<open>k\<close> and \<open>j\<close> nothing is known yet; \<open>e\<close> is the place of the pivot \<open>x\<close>, at the right end of the scan.\<close>

definition cross_state :: "'a :: linorder list \<Rightarrow> 'a \<Rightarrow> nat \<Rightarrow> nat \<Rightarrow> nat \<Rightarrow> nat \<Rightarrow> bool" where
  "cross_state v x l e k j \<longleftrightarrow>
     l \<le> k \<and> k < j \<and> j \<le> e \<and> e < length v \<and> v ! e = x \<and>
     (\<forall>i. l \<le> i \<longrightarrow> i \<le> k \<longrightarrow> v ! i \<le> x) \<and> (\<forall>i. j \<le> i \<longrightarrow> i \<le> e \<longrightarrow> x \<le> v ! i)"

lemma cross_loop_spec:
  "cross_state v x l e k j \<Longrightarrow>
   \<exists>v' k'. cross_loop v x k j = Inr (v', k') \<and> l < k' \<and> k' \<le> e \<and> rearr l e v v' \<and> v' ! e = x \<and>
     (\<forall>i. l \<le> i \<longrightarrow> i < k' \<longrightarrow> v' ! i \<le> x) \<and> (\<forall>i. k' \<le> i \<longrightarrow> i \<le> e \<longrightarrow> x \<le> v' ! i)"
proof (induction v x k j rule: cross_loop.induct)
  case (1 v x k j)
  then have s: "l \<le> k" "k < j" "j \<le> e" "e < length v" "v ! e = x" and
    lo: "\<And>i. l \<le> i \<Longrightarrow> i \<le> k \<Longrightarrow> v ! i \<le> x" and hi: "\<And>i. j \<le> i \<Longrightarrow> i \<le> e \<Longrightarrow> x \<le> v ! i"
    by (auto simp: cross_state_def)
  have "\<not> v ! j < x" using hi [of j] s(3) by simp
  with scan_up_spec [of k j v x] s obtain k' where k': "scan_up v x k = Inr k'" "k < k'" "k' \<le> j" "\<not> v ! k' < x"
    "\<And>i. k < i \<Longrightarrow> i < k' \<Longrightarrow> v ! i < x" by auto
  have lo': "v ! i \<le> x" if "l \<le> i" "i < k'" for i
    using lo [of i] k'(5) [of i] that by (cases "i \<le> k") (auto intro: less_imp_le)
  have "\<not> x < v ! k" using lo [of k] s(1) by simp
  moreover have "k < j" "j \<le> length v" using s by simp_all
  ultimately obtain j' where j': "scan_down v x k' j = Inr j'" "k \<le> j'" "j' < j" "\<not> x < v ! j' \<or> j' = k'"
    "\<And>i. j' < i \<Longrightarrow> i < j \<Longrightarrow> x < v ! i" using scan_down_spec [of k j v x k'] by blast
  have hi': "x \<le> v ! i" if "j' < i" "i \<le> e" for i
    using hi [of i] j'(5) [of i] that by (cases "i < j") (auto intro: less_imp_le)
  show ?case
  proof (cases "j' \<le> k'")
    case True
    have "x \<le> v ! i" if "k' \<le> i" "i \<le> e" for i
    proof (cases "j' < i")
      case False
      then have "i = k'" using that True by simp
      with k'(4) show ?thesis by simp
    qed (use hi' that in blast)
    moreover have "cross_loop v x k j = Inr (v, k')" using k'(1) j'(1) True by (subst cross_loop.simps) simp
    ultimately show ?thesis using s k'(2,3) lo' by (intro exI [of _ v] exI [of _ k']) auto
  next
    case False
    let ?v = "swap_nth v k' j'"
    have lt: "k' < j'" "k' < length v" "j' < length v" using False j'(3) s by simp_all
    have n: "?v ! i = (if i = j' then v ! k' else if i = k' then v ! j' else v ! i)" for i
      using lt by (simp add: nth_swap_nth)
    have "v ! j' \<le> x" "x \<le> v ! k'" using j'(4) k'(4) lt by auto
    then have "cross_state ?v x l e k' j'"
      unfolding cross_state_def using s lt k' j'(3) lo' hi' by (auto simp: n le_less)
    with "1.IH" [OF k'(1) j'(1) False] obtain v' k2 where
      r: "cross_loop ?v x k' j' = Inr (v', k2)" "l < k2" "k2 \<le> e" "rearr l e ?v v'" "v' ! e = x"
        "\<forall>i. l \<le> i \<longrightarrow> i < k2 \<longrightarrow> v' ! i \<le> x" "\<forall>i. k2 \<le> i \<longrightarrow> i \<le> e \<longrightarrow> x \<le> v' ! i" by blast
    have "rearr l e v ?v" using s lt k' j'(3) by (intro rearr_swap) auto
    then have "rearr l e v v'" using r(4) by (rule rearr_trans)
    moreover have "cross_loop v x k j = Inr (v', k2)" using k'(1) j'(1) False r(1) by (subst cross_loop.simps) simp
    ultimately show ?thesis using r by blast
  qed
qed

lemma order_pair_spec:
  assumes "l \<le> i" "i \<le> r" "l \<le> j" "j \<le> r" "r < length v"
  shows "rearr l r v (order_pair i j v)" "order_pair i j v ! i \<le> order_pair i j v ! j"
    "m \<noteq> i \<Longrightarrow> m \<noteq> j \<Longrightarrow> order_pair i j v ! m = v ! m"
    "order_pair i j v ! i = min (v ! i) (v ! j)" "order_pair i j v ! j = max (v ! i) (v ! j)"
proof -
  show "rearr l r v (order_pair i j v)" using assms by (auto simp: order_pair_def intro: rearr_swap)
  show "m \<noteq> i \<Longrightarrow> m \<noteq> j \<Longrightarrow> order_pair i j v ! m = v ! m" using assms by (simp add: order_pair_def nth_swap_nth)
  show 4: "order_pair i j v ! i = min (v ! i) (v ! j)" using assms by (auto simp: order_pair_def nth_swap_nth min_def)
  show 5: "order_pair i j v ! j = max (v ! i) (v ! j)" using assms by (auto simp: order_pair_def nth_swap_nth max_def)
  show "order_pair i j v ! i \<le> order_pair i j v ! j" unfolding 4 5 by (auto simp: min_def max_def)
qed

lemma gs_partition_spec:
  assumes lr: "l + 16 \<le> r" "r < length v" and small: "l + r < 2147483648"
  shows "\<exists>v' k. gs_partition v l r = Inr (v', k) \<and> l < k \<and> k < r \<and> rearr l r v v' \<and>
    (\<forall>i. l \<le> i \<longrightarrow> i < k \<longrightarrow> v' ! i \<le> v' ! k) \<and> (\<forall>i. k < i \<longrightarrow> i \<le> r \<longrightarrow> v' ! k \<le> v' ! i)"
proof -
  obtain j where j: "j = r - 1" by blast
  obtain a where a: "a = swap_nth v ((l + r) div 2) j" by blast
  obtain b where b: "b = order_pair j r a" by blast
  obtain c where c: "c = order_pair l r b" by blast
  obtain d where d: "d = order_pair l j c" by blast
  have ra: "rearr l r v a" unfolding a using lr j by (intro rearr_swap) auto
  have la: "r < length a" using rearr_length [OF ra] lr by simp
  note pb = order_pair_spec [of l j r r a, folded b]
  have rb: "rearr l r a b" using pb(1) la lr j by simp
  have lb: "r < length b" using rearr_length [OF rb] la by simp
  note pc = order_pair_spec [of l l r r b, folded c]
  have rc: "rearr l r b c" using pc(1) lb lr by simp
  have lc: "r < length c" using rearr_length [OF rc] lb by simp
  note pd = order_pair_spec [of l l r j c, folded d]
  have rd: "rearr l r c d" using pd(1) lc lr j by simp
  have ld: "r < length d" using rearr_length [OF rd] lc by simp
  have "b ! j \<le> b ! r" using pb(2) la lr j by simp
  moreover have "c ! r = max (b ! l) (b ! r)" "c ! l = min (b ! l) (b ! r)" "c ! j = b ! j" using pc(3-5) lb lr j by auto
  moreover have "d ! r = c ! r" "d ! l = min (c ! l) (c ! j)" "d ! j = max (c ! l) (c ! j)" using pd(3-5) lc lr j by auto
  ultimately have m: "d ! l \<le> d ! j" "d ! j \<le> d ! r" by (auto simp: min_def max_def)
  have "cross_state d (d ! j) l j l j" using m lr ld j by (auto simp: cross_state_def)
  from cross_loop_spec [OF this] obtain w k where w: "cross_loop d (d ! j) l j = Inr (w, k)" "l < k" "k \<le> j" "rearr l j d w"
    "w ! j = d ! j" "\<And>i. l \<le> i \<Longrightarrow> i < k \<Longrightarrow> w ! i \<le> d ! j" "\<And>i. k \<le> i \<Longrightarrow> i \<le> j \<Longrightarrow> d ! j \<le> w ! i" by blast
  have lw: "r < length w" using rearr_length [OF w(4)] ld by simp
  have wr: "w ! r = d ! r" by (rule rearr_out [OF w(4)]) (use lr ld j in simp_all)
  let ?v = "swap_nth w j k"
  have n: "?v ! i = (if i = k then w ! j else if i = j then w ! k else w ! i)" for i
    using lw w(3) lr j by (simp add: nth_swap_nth)
  have "gs_partition v l r = Inr (?v, k)"
    using lr small w(1) unfolding gs_partition_def Let_def j [symmetric] a [symmetric] b [symmetric] c [symmetric] d [symmetric] by simp
  moreover have "rearr l r v ?v"
  proof -
    have "rearr l r d w" by (rule rearr_mono [OF w(4)]) (use j in simp_all)
    moreover have "rearr l r w ?v" using w(2,3) lw lr j by (intro rearr_swap) auto
    ultimately show ?thesis using ra rb rc rd by (blast intro: rearr_trans)
  qed
  moreover have "?v ! i \<le> ?v ! k" if "l \<le> i" "i < k" for i using w(3,5,6) that by (simp add: n)
  moreover have "?v ! k \<le> ?v ! i" if i: "k < i" "i \<le> r" for i
  proof -
    have jr: "r \<noteq> j" "k \<noteq> r" "i = r \<or> i \<le> j" using lr j w(3) i by auto
    show ?thesis
    proof (cases "i = r")
      case True
      with m(2) wr w(5) jr show ?thesis by (simp add: n)
    next
      case False
      with jr have "i \<le> j" by simp
      with i(1) w(3,5,7) show ?thesis by (simp add: n)
    qed
  qed
  moreover have "k < r" using w(3) lr j by simp
  ultimately show ?thesis using w(2) by (intro exI [of _ ?v] exI [of _ k]) blast
qed

section \<open>The sort\<close>

text \<open>The segments on the stack ascend, lie between \<open>a\<close> and \<open>b\<close>, and leave room for a pivot between each other.\<close>

fun segs_ok :: "nat \<Rightarrow> nat \<Rightarrow> (nat \<times> nat) list \<Rightarrow> bool" where
  "segs_ok a b [] \<longleftrightarrow> True"
| "segs_ok a b ((l, r) # st) \<longleftrightarrow> a \<le> l \<and> l < r \<and> r \<le> b \<and> segs_ok (r + 2) b st"

definition together :: "(nat \<times> nat) list \<Rightarrow> nat \<Rightarrow> nat \<Rightarrow> bool" where
  "together st i j \<longleftrightarrow> (\<exists>(l, r) \<in> set st. l \<le> i \<and> j \<le> r)"

text \<open>Elements that are not in one segment are in order.\<close>

definition in_order :: "nat \<Rightarrow> nat \<Rightarrow> (nat \<times> nat) list \<Rightarrow> 'a :: linorder list \<Rightarrow> bool" where
  "in_order a b st v \<longleftrightarrow> (\<forall>i j. a \<le> i \<longrightarrow> i < j \<longrightarrow> j \<le> b \<longrightarrow> \<not> together st i j \<longrightarrow> v ! i \<le> v ! j)"

definition width :: "(nat \<times> nat) list \<Rightarrow> nat" where
  "width st = (\<Sum>(l, r) \<leftarrow> st. r - l)"

lemma together_simps [simp]:
  "\<not> together [] i j" "together ((l, r) # st) i j \<longleftrightarrow> l \<le> i \<and> j \<le> r \<or> together st i j"
  by (auto simp: together_def)

lemma width_simps [simp]: "width [] = 0" "width ((l, r) # st) = r - l + width st"
  by (simp_all add: width_def)

lemma segs_ok_mono: "segs_ok a b st \<Longrightarrow> a' \<le> a \<Longrightarrow> segs_ok a' b st"
  by (cases st) auto

lemma segs_ok_bounds: "segs_ok a b st \<Longrightarrow> (l, r) \<in> set st \<Longrightarrow> a \<le> l \<and> l < r \<and> r \<le> b"
  by (induction a b st rule: segs_ok.induct) fastforce+

lemma together_above: "segs_ok a b st \<Longrightarrow> together st i j \<Longrightarrow> a \<le> i"
  using segs_ok_bounds by (fastforce simp: together_def)

lemma segs_ok_size: "segs_ok a b st \<Longrightarrow> a \<le> b + 2 \<Longrightarrow> width st + 2 * length st \<le> b + 2 - a"
  by (induction a b st rule: segs_ok.induct) fastforce+

lemma segs_ok_length: "segs_ok a b st \<Longrightarrow> length st \<le> width st"
  by (induction a b st rule: segs_ok.induct) auto

lemma push_segments_ok:
  assumes "segs_ok (r + 2) b st" "a \<le> l" "l < k" "k < r" "r \<le> b"
  shows "segs_ok a b (push_segments l r k st)" "width (push_segments l r k st) + 2 \<le> r - l + width st"
proof -
  have "segs_ok (k + 1) b (if k + 1 < r then (k + 1, r) # st else st)"
    using assms by (auto intro: segs_ok_mono)
  moreover from this have "segs_ok a b (if k + 1 < r then (k + 1, r) # st else st)"
    by (rule segs_ok_mono) (use assms in simp)
  moreover have "k - 1 + 2 = k + 1" using assms by simp
  ultimately show "segs_ok a b (push_segments l r k st)"
    using assms unfolding push_segments_def Let_def by (simp only: segs_ok.simps split: if_split) auto
  show "width (push_segments l r k st) + 2 \<le> r - l + width st"
    using assms by (auto simp: push_segments_def Let_def)
qed

lemma together_push:
  assumes "together st i j \<or> l \<le> i \<and> i < j \<and> j < k \<or> k < i \<and> i < j \<and> j \<le> r"
  shows "together (push_segments l r k st) i j"
  using assms by (auto simp: push_segments_def Let_def)

text \<open>What is rearranged inside the first segment keeps its order to what is outside.\<close>

lemma in_order_outside:
  assumes ord: "in_order a b ((l, r) # st) v" and ok: "segs_ok a b ((l, r) # st)" and re: "rearr l r v v'" "b < length v"
    and ij: "a \<le> i" "i < j" "j \<le> b" "\<not> (l \<le> i \<and> j \<le> r)" "\<not> together st i j"
  shows "v' ! i \<le> v' ! j"
proof -
  have rl: "r < length v" using ok re(2) by simp
  have le: "v ! i' \<le> v ! j'" if "a \<le> i'" "i' < j'" "j' \<le> b" "\<not> (l \<le> i' \<and> j' \<le> r)" "\<not> together st i' j'" for i' j'
    using ord that by (simp add: in_order_def)
  have above: "\<not> together st i' j'" if "i' < r + 2" for i' j'
    using together_above [of "r + 2" b st i' j'] ok that by auto
  have out: "v' ! m = v ! m" if "m < l \<or> r < m" "m \<le> b" for m
    by (rule rearr_out [OF re(1) that(1)]) (use that(2) re(2) in simp)
  consider "l \<le> i" "i \<le> r" "r < j" | "i < l" "l \<le> j" "j \<le> r" | "(i < l \<or> r < i) \<and> (j < l \<or> r < j)"
    using ij(2,4) by linarith
  then show ?thesis
  proof cases
    case 1
    have "v ! m \<le> v ! j" if "l \<le> m" "m \<le> r" for m using le [of m j] above [of m j] that 1 ij ok by simp
    then have "v' ! i \<le> v ! j" using rearr_all [OF re(1) rl, of "\<lambda>x. x \<le> v ! j"] 1 by blast
    with out [of j] 1 ij show ?thesis by simp
  next
    case 2
    have "v ! i \<le> v ! m" if "l \<le> m" "m \<le> r" for m using le [of i m] above [of i m] that 2 ij ok by simp
    then have "v ! i \<le> v' ! j" using rearr_all [OF re(1) rl, of "\<lambda>x. v ! i \<le> x"] 2 by blast
    with out [of i] 2 ij show ?thesis by simp
  next
    case 3
    with out [of i] out [of j] le [of i j] ij show ?thesis by simp
  qed
qed

lemma sort_loop_spec:
  "segs_ok a b st \<Longrightarrow> b < length v \<Longrightarrow> b < 1073741824 \<Longrightarrow> in_order a b st v \<Longrightarrow> width st \<le> fuel \<Longrightarrow>
   \<exists>ret v'. sort_loop fuel limit st v = Inr (ret, v') \<and> rearr a b v v' \<and>
     (ret = 0 \<and> sorted_on v' a b \<or> ret = -1 \<and> 3 * limit + 2 * a + 32 \<le> 2 * b)"
proof (induction fuel limit st v rule: sort_loop.induct)
  case (1 fuel limit v)
  then show ?case by (auto simp: sorted_on_def in_order_def)
next
  case (3 fuel limit l r st v)
  note ok = "3.prems"(1) and len = "3.prems"(2)
  have lr: "a \<le> l" "l < r" "r \<le> b" "segs_ok (r + 2) b st" "r < length v" using ok len by simp_all
  have mono: "rearr a b v v'" if "rearr l r v v'" for v' using rearr_mono [OF that] lr by simp
  show ?case
  proof (cases "r - l < 16")
    case True
    from sort_short_spec [OF lr(2,5)] obtain v1 where
      v1: "sort_short v l r = Inr v1" "rearr l r v v1" "sorted_on v1 l r" by blast
    have "in_order a b st v1"
      unfolding in_order_def
    proof (intro allI impI)
      fix i j assume ij: "a \<le> i" "i < j" "j \<le> b" "\<not> together st i j"
      show "v1 ! i \<le> v1 ! j"
      proof (cases "l \<le> i \<and> j \<le> r")
        case True
        with v1(3) ij(2) show ?thesis by (simp add: sorted_on_def)
      next
        case False
        from in_order_outside [OF "3.prems"(4) ok v1(2) len ij(1-3) False ij(4)] show ?thesis .
      qed
    qed
    moreover have "segs_ok a b st" by (rule segs_ok_mono [OF lr(4)]) (use lr in simp)
    moreover have "b < length v1" "width st \<le> fuel" using rearr_length [OF v1(2)] len "3.prems"(5) lr(2) by simp_all
    ultimately obtain ret v' where "sort_loop fuel limit st v1 = Inr (ret, v')" "rearr a b v1 v'"
      "ret = 0 \<and> sorted_on v' a b \<or> ret = -1 \<and> 3 * limit + 2 * a + 32 \<le> 2 * b"
      using "3.IH"(1) [OF True, of v1] "3.prems"(3) by blast
    with True v1(1) rearr_trans [OF mono [OF v1(2)]] show ?thesis by auto
  next
    case False
    then have "l + 16 \<le> r" "l + r < 2147483648" using lr "3.prems"(3) by simp_all
    with gs_partition_spec [of l r v] lr(5) obtain v1 k where
      v1: "gs_partition v l r = Inr (v1, k)" "l < k" "k < r" "rearr l r v v1"
        "\<And>i. l \<le> i \<Longrightarrow> i < k \<Longrightarrow> v1 ! i \<le> v1 ! k" "\<And>i. k < i \<Longrightarrow> i \<le> r \<Longrightarrow> v1 ! k \<le> v1 ! i" by blast
    show ?thesis
    proof (cases "limit \<le> 2 * length st")
      case True
      have "width ((l, r) # st) + 2 * length ((l, r) # st) \<le> b + 2 - a"
        by (rule segs_ok_size [OF ok]) (use lr in simp)
      then have "3 * limit + 2 * a + 32 \<le> 2 * b" using True \<open>l + 16 \<le> r\<close> segs_ok_length [OF lr(4)] lr(1,3) by simp
      with False True v1(1) mono [OF v1(4)] show ?thesis by simp
    next
      case room: False
      let ?st = "push_segments l r k st"
      have "in_order a b ?st v1"
        unfolding in_order_def
      proof (intro allI impI)
        fix i j assume ij: "a \<le> i" "i < j" "j \<le> b" "\<not> together ?st i j"
        show "v1 ! i \<le> v1 ! j"
        proof (cases "l \<le> i \<and> j \<le> r")
          case True
          then have "\<not> j < k" "\<not> k < i" using together_push [of st i j l k r] ij by auto
          then consider "i < k" "k < j" | "i = k" | "j = k" by linarith
          then show ?thesis using v1(5) [of i] v1(6) [of j] True ij(2) by cases (auto intro: order_trans)
        next
          case out: False
          moreover have "\<not> together st i j" using together_push [of st i j l k r] ij(4) by blast
          ultimately show ?thesis by (rule in_order_outside [OF "3.prems"(4) ok v1(4) len ij(1-3)])
        qed
      qed
      moreover have "segs_ok a b ?st" "width ?st \<le> fuel"
        using push_segments_ok [OF lr(4,1) v1(2,3) lr(3)] "3.prems"(5) by simp_all
      moreover have "b < length v1" using rearr_length [OF v1(4)] len by simp
      ultimately obtain ret v' where "sort_loop fuel limit ?st v1 = Inr (ret, v')" "rearr a b v1 v'"
        "ret = 0 \<and> sorted_on v' a b \<or> ret = -1 \<and> 3 * limit + 2 * a + 32 \<le> 2 * b"
        using "3.IH"(2) [OF False room, of k v1] "3.prems"(3) by blast
      with False room v1(1) rearr_trans [OF mono [OF v1(4)]] show ?thesis by auto
    qed
  qed
qed simp

lemma QuickSortAsc_rearranges:
  assumes "0 \<le> left" "left < right" "right < int (length v)" "right < 1073741824"
  shows "\<exists>ret v'. QuickSortAsc v left right = Inr (ret, v') \<and> rearr (nat left) (nat right) v v' \<and>
    (ret = 0 \<and> sorted_on v' (nat left) (nat right) \<or>
     ret = -1 \<and> 96 * halvings (nat right - 1) + 10 \<le> nat right - nat left)"
proof -
  let ?l = "nat left" and ?r = "nat right"
  have lr: "?l < ?r" "?r < length v" "?r < 1073741824" using assms by simp_all
  have h: "1 \<le> halvings (?r - 1)" by (subst halvings.simps) simp
  have q: "QuickSortAsc v left right = sort_loop (nat (right - left) + 2) (stack_limit ?r) [(?l, ?r)] v"
    using assms by (simp add: QuickSortAsc_def)
  have "segs_ok ?l ?r [(?l, ?r)]" "in_order ?l ?r [(?l, ?r)] v" "width [(?l, ?r)] \<le> nat (right - left) + 2"
    using lr assms by (auto simp: in_order_def)
  from sort_loop_spec [OF this(1) lr(2,3) this(2,3), of "stack_limit ?r"] obtain ret v' where
    "sort_loop (nat (right - left) + 2) (stack_limit ?r) [(?l, ?r)] v = Inr (ret, v')" "rearr ?l ?r v v'"
    "ret = 0 \<and> sorted_on v' ?l ?r \<or> ret = -1 \<and> 3 * stack_limit ?r + 2 * ?l + 32 \<le> 2 * ?r" by blast
  moreover have "96 * n + 10 \<le> ?r - ?l" if "3 * (64 * n - 4) + 2 * ?l + 32 \<le> 2 * ?r" "1 \<le> n" for n
    using that by (simp add: diff_mult_distrib2)
  note this [OF _ h]
  ultimately show ?thesis unfolding q stack_limit_def by blast
qed

lemma sorted_on_segment:
  assumes "sorted_on v l r" "r < length v" "l \<le> r"
  shows "sorted (take (r + 1 - l) (drop l v))"
  unfolding sorted_iff_nth_mono_less using assms by (simp add: sorted_on_def)



end
