(* ===== verification/Spec2Isabelle.thy ===== *)
theory Spec2Isabelle
  imports Examples Built_Index Edit_Dist Wait_List Config_Map Http_Connections Http_Handler Format_Dlg
  Char_Dictionary Gary_Words Gary_Sort
begin

text \<open>
  A verification library for the dialogue service: the answering of a question from a dictionary of fixed answers
  and an inverted index of known questions, the programs that make these two files, and an HTTP server.

  \<^bold>\<open>The program.\<close> The repository holds three programs that share libraries.
  \<^item> The makers of the data: \<^verbatim>\<open>index/index_da\<close> turns a file of questions and answers into a dictionary, a double
    array (\<^verbatim>\<open>darts.h\<close>) from the words of a question to the position of its answers; \<^verbatim>\<open>index/inv_index\<close> turns a file of
    questions into an inverted index of their words, a \<^verbatim>\<open>CommonIndex\<close> over a \<^verbatim>\<open>CHashVector_Enhanced\<close>.
  \<^item> The dialogue, \<^verbatim>\<open>dialogue/\<close>: it loads both files, asks the document index (\<^verbatim>\<open>doc_search/\<close>) for the known questions
    that have words of a query, orders them by edit distance to the query, looks up the answers to one of the nearest in the
    dictionary (\<^verbatim>\<open>da_search/\<close>) and says one of them. It has a main program of its own.
  \<^item> The server, \<^verbatim>\<open>http_server/\<close>: threads wait in turn for an event of a connection, read a request from it, let
    the handler compute an answer and write it. The handler answers with places from \<^verbatim>\<open>locate_getresult/\<close>; its
    calls of the two searches are commented out, so that the server does not reach the dialogue. The wait list of
    \<^verbatim>\<open>wait_list.hpp\<close> is a library of the server that its code does not use at present.

  All paths below are under \<^verbatim>\<open>src/\<close>.

  \<^bold>\<open>Theories.\<close>
  \<^item> \<open>Dlg_Prelude\<close>, \<open>Ctype\<close>, \<open>Byte_Codec\<close>, \<open>Text_Files\<close>: bytes and C strings, the C library functions the
    sources call, little-endian images of integers, reading of files by lines, and the \<open>fault\<close>s (undefined
    behaviour, uncaught exceptions) that a model returns as \<open>Inl\<close>.
  \<^item> \<open>Gary_String\<close>: \<^verbatim>\<open>include/gary_common/gary_string.h\<close>; the round trip of split and join, the
    pieces of a split, trimming, the removal of spaces on GBK text.
  \<^item> \<open>Quick_Partition\<close>, \<open>Hash_Vector\<close>, \<open>Common_Index\<close>: \<^verbatim>\<open>include/HashVector_Enhanced.h\<close> and
    \<^verbatim>\<open>include/common_index.h\<close>. \<open>hv_wf\<close> and \<open>ci_wf\<close> are the invariants of the two objects; a key
    once added is found with its value, before and after saving and loading.
  \<^item> \<open>Segmenter\<close>, \<open>Doc_Index\<close>, \<open>Doc_Answers\<close>, \<open>Examples\<close>: \<^verbatim>\<open>segment/Segment.cpp\<close>,
    \<^verbatim>\<open>index/inv_index/normalize.cpp\<close>, \<^verbatim>\<open>index/inv_index/doc_index.cpp\<close>: the word lists, building and
    loading the index, the union of the postings of a query, and the composition of all of these.
  \<^item> \<open>Edit_Dist\<close>: \<^verbatim>\<open>include/common/EditDist.cpp\<close>, whose table is the least number of edits.
  \<^item> \<open>Double_Array\<close>, \<open>Index_Da\<close>, \<open>White_Black\<close>: \<^verbatim>\<open>index/index_da/darts.h\<close> (search, save, open),
    \<^verbatim>\<open>index/index_da/Index_da.cpp\<close> and \<^verbatim>\<open>da_search/Da_Search.cpp\<close>: merging sorted lines into one block of
    text per query, the file image, and the lookup of a query in it.
  \<^item> \<open>Linked_List\<close>, \<open>Wait_List\<close>: \<^verbatim>\<open>http_server/linked_list.hpp\<close> on a store of links (a locale
    states what the client needs of a list) and \<^verbatim>\<open>http_server/wait_list.hpp\<close> as a step relation of
    threads with mutex, condition and time-outs.
  \<^item> \<open>Url_Code\<close>, \<open>Config_Map\<close>, \<open>Http_Response\<close>, \<open>Http_Server\<close>, \<open>Http_Connections\<close>, \<open>Locate_Result\<close>,
    \<open>Http_Handler\<close>: \<^verbatim>\<open>include/UrlEncodeAndDecode.h\<close>, \<^verbatim>\<open>http_server/config_map.hpp\<close> and
    \<^verbatim>\<open>configuration.cpp\<close>, \<^verbatim>\<open>HttpResponse.cpp\<close>, \<^verbatim>\<open>http_server.cpp\<close>,
    \<^verbatim>\<open>locate_getresult/locate_getresult.cpp\<close> and \<^verbatim>\<open>HttpHandler.cpp\<close>.
  \<^item> \<open>Uniq_Index\<close>, \<open>Format_Dlg\<close>: what a dictionary made with the tag \<^verbatim>\<open>uniq\<close> (in \<^verbatim>\<open>Index_da.cpp\<close>) answers;
    \<^verbatim>\<open>index/index_da/FormatDlgCor.cpp\<close>, which groups the lines of a dialogue corpus by query, and the program that makes
    dictionaries, \<^verbatim>\<open>index/index_da/index_da_make_index.cpp\<close>.
  \<^item> \<open>Dialogue\<close>: \<^verbatim>\<open>doc_search/\<close> and \<^verbatim>\<open>dialogue/\<close>: the search in both indices, the choice of the
    answer nearest to the question, the text that is shown; the property about it, from the two input files to the
    reply, is in this root theory.
  \<^item> \<open>Char_Dictionary\<close>, \<open>Gary_Words\<close>: containers of \<^verbatim>\<open>include/gary_common\<close>: the trie that numbers
    words, the three-byte integer, the bit map, the tests of GBK characters.
  \<^item> \<open>Gary_Sort\<close>: \<^verbatim>\<open>include/gary_common/gary_sort.h\<close>, a quicksort in place on a buffer whose ends are never tested;
    its invariant is that elements of different segments of the stack are in order (\<open>in_order\<close>).
  \<^item> \<open>Bit_Vector\<close>, \<open>Dawg_Builder\<close>, \<open>Dawg_Store\<close>, \<open>Dawg_Path\<close>: the first half of the builder of
    \<^verbatim>\<open>darts.h\<close>: the bit vector with ranks and the minimal word graph of the sorted keys (the hash table of stored
    groups in \<open>Dawg_Store\<close>, the path of the last key in \<open>Dawg_Path\<close>).
  \<^item> \<open>Da_Builder\<close> and, about it, \<open>Da_Ring\<close>, \<open>Da_Units\<close>, \<open>Da_Layout\<close>, \<open>Da_Place\<close>, \<open>Da_Build\<close>, \<open>Da_Finish\<close>: the
    second half, the layout of the graph in the double array: the ring of free units (a use of \<open>Linked_List\<close>), the
    bits of a unit, the invariant \<open>core\<close> of the builder with its two ghost maps, the choice of an offset and
    the placing of a group, the recursion over the groups, and the searches in the finished array.
  \<^item> \<open>Built_Index\<close>: the makers of dictionaries with this builder, from their input to the lookup.

  \<^bold>\<open>Conventions.\<close> An object is a record named after its class, a method a function from the object (and
  its arguments) to the result and the object after it; an operation that may leave the defined behaviour of
  C++ (an index out of bounds, an uncaught exception, an uninitialised or freed object) returns
  \<open>Inl\<close> of the fault. Integers are \<open>nat\<close>, \<open>int\<close> or \<open>w word\<close>, with \<open>i32\<close>, \<open>u32\<close> and the like where the width
  of the code's variable matters. A loop is a recursion on the data it consumes or has a measure;
  where the code may loop for ever or waits for others the model is a step relation, or fuel whose sufficiency is
  proved (the recursion over the word graph has as much fuel as the graph has units, the walk along the ring as much
  as the window has, 4096, the quicksort as much as the segment is long; every step of the latter takes a segment from the stack).

  \<^bold>\<open>Parameters.\<close> Code that is not in the repository is an argument of the definitions: the segmentation
  library and the code conversions (\<open>platform\<close>), the sort of \<^verbatim>\<open>std::sort\<close> (any permutation in the order of
  its comparison), the JSON library, the answers of the operating system to \<^verbatim>\<open>recv\<close>, \<^verbatim>\<open>send\<close>, \<^verbatim>\<open>open\<close>, the values of
  \<^verbatim>\<open>rand()\<close>, and the floating-point distance of two places. The makers of dictionaries take
  the builder of the double array as an argument \<open>build\<close>; \<open>Built_Index\<close> gives them the builder of the code, for keys
  of less than \<open>2 ^ 21\<close> characters, which can never need an offset of more than 29 bits.

  \<^bold>\<open>Not modelled.\<close> Socket options, signals, the pipe and thread creation (system calls without logic
  of the program), logging, even where a log line reads memory it must not (see \<open>Http_Server\<close>), the vendored
  \<^verbatim>\<open>jsoncpp/\<close>, \<^verbatim>\<open>tinyxml.h\<close> and \<^verbatim>\<open>pcre*.h\<close>, the older copy of some parts in
  \<^verbatim>\<open>hint-3.0.1/\<close>, the MySQL access of \<^verbatim>\<open>common_base/\<close>, the test programs, and
  the stand-alone parts \<^verbatim>\<open>QueryMatch/\<close>, \<^verbatim>\<open>simhash/\<close>, \<^verbatim>\<open>http_client/\<close> and \<^verbatim>\<open>index/data_make/\<close>, which neither the dialogue nor
  the server uses.
\<close>

text \<open>
  C2: From the input file to the answers. For every input file whose lines can be indexed into an
  empty index within the limits of the file format, \<open>MakeIndex\<close> writes a file (given room for it)
  that \<open>LoadIndex\<close> reads back into any object with the same number of buckets; the loaded index
  answers every query that has a word left after the stop words with exactly the questions
  that contain the rarest word of the query, in the order of the file and once per occurrence.
\<close>

theorem make_load_query_answers:
  assumes "di_index di = ci_new N" "0 < N" "hv_blank N (ci_index (di_index di0))"
    and lines: "index_lines pf (fgets_lines 4096 f) (ci_new N) = Inr ci" and fits: "ci_fits N ci"
  shows "\<exists>img di2. (\<forall>room. length img \<le> room \<longrightarrow>
      (\<exists>di1. MakeIndex pf pad (Some f) (Some room) di = Inr (0, di1, img))) \<and>
    LoadIndex (Some img) di0 = Inr (0, di2) \<and>
    (\<forall>query r parts texts. GraphSegment pf (di_stopword di0) query = Inr (r, parts) \<longrightarrow> parts \<noteq> [] \<longrightarrow>
       (let found = texts @ answers (questions pf (fgets_lines 4096 f)) parts
        in GetUnionResults pf di2 query texts = Inr (int (length found), found, parts)))"
proof -
  let ?D = "questions pf (fgets_lines 4096 f)"
  from MakeIndex_LoadIndex_stored [OF assms] obtain img di2 where
    s: "\<And>room. length img \<le> room \<Longrightarrow> \<exists>di1. MakeIndex pf pad (Some f) (Some room) di = Inr (0, di1, img)"
      "LoadIndex (Some img) di0 = Inr (0, di2)" "stored (di_index di2) ?D"
      "di_stopword di2 = di_stopword di0" by blast
  have few: "occurrences ?D p < 2147483648" for p
    using index_lines_occurrences [OF lines \<open>0 < N\<close> fits] .
  show ?thesis
    using s GetUnionResults_answers [OF s(3)] few
    by (intro exI [of _ img] exI [of _ di2]) (simp add: Let_def)
qed

theorem make_load_query_answers_witness:
  "\<exists>img di2. LoadIndex (Some img) empty_index = Inr (0, di2) \<and>
    GetUnionResults byte_platform di2 ''bc'' [] = Inr (1, [''ab''], [''b'', ''c''])"
proof -
  have seg: "GraphSegment byte_platform (di_stopword empty_index) ''bc'' = Inr (0, [''b'', ''c''])"
    by (simp add: empty_index_def segment_two_bytes)
  have e: "di_index empty_index = ci_new 3" by (simp add: empty_index_def)
  have ans: "answers two_questions [''b'', ''c''] = [''ab'']" by code_simp
  have N0: "hv_blank 3 (ci_index (di_index empty_index))" using blank_new by (simp add: e)
  have "(0::nat) < 3" by simp
  from make_load_query_answers [OF e this N0 index_lines_two index_ab_fits, where pad = "[]", unfolded questions_two]
  obtain img di2 where l: "LoadIndex (Some img) empty_index = Inr (0, di2)"
    and q: "\<forall>query r parts texts. GraphSegment byte_platform (di_stopword empty_index) query = Inr (r, parts) \<longrightarrow>
       parts \<noteq> [] \<longrightarrow> (let found = texts @ answers two_questions parts
        in GetUnionResults byte_platform di2 query texts = Inr (int (length found), found, parts))"
    by (elim exE conjE)
  from q [rule_format, OF seg, of "[]"] ans l show ?thesis by (auto simp: Let_def)
qed

text \<open>
  C3: A saved index is a faithful copy. Saving a well-formed index and loading the file into any index
  object with as many buckets succeeds, with the texts and documents as they were; a lookup of any key
  finds exactly its postings, in the old order or, on request, sorted by the weight of their documents,
  and no lookup of another key finds anything.
\<close>

theorem saved_index_serves_postings:
  assumes "ci_wf N ci" "ci_fits N ci" "b \<longrightarrow> weights_ok ci" "hv_blank N (ci_index ci0)"
  shows "\<exists>m img ci2.
    map_ordered b (ci_doc_vect ci) (ci_index_map ci) m \<and>
    (\<forall>room. length img \<le> room \<longrightarrow> (\<exists>ci1. Save room pad ci b = Inr (0, ci1, img))) \<and>
    (\<forall>rest. Load ci0 (img @ rest) = Inr (0, ci2, rest)) \<and>
    ci_char_buf ci2 = Some (ci_char_vect ci) \<and> ci_doc_buf ci2 = Some (ci_doc_vect ci) \<and> serves ci2 m"
  unfolding serves_def by (rule Save_Load_query [OF assms])

theorem saved_index_serves_postings_witness:
  "\<exists>m img ci2.
    map_ordered False (ci_doc_vect index_ab) (ci_index_map index_ab) m \<and>
    (\<forall>room. length img \<le> room \<longrightarrow> (\<exists>ci1. Save room [] index_ab False = Inr (0, ci1, img))) \<and>
    (\<forall>rest. Load (ci_new 3) (img @ rest) = Inr (0, ci2, rest)) \<and>
    ci_char_buf ci2 = Some (ci_char_vect index_ab) \<and> ci_doc_buf ci2 = Some (ci_doc_vect index_ab) \<and> serves ci2 m"
  by (rule saved_index_serves_postings [OF index_ab_wf index_ab_fits _ blank_new]) simp

text \<open>
  C1: From the two files to the reply. Let \<open>f\<close> be a file of questions that can be indexed, and
  \<open>vect\<close> the questions and answers of the other file, in any order. The files made from them load
  into any dialogue whose pointer \<open>da_index\<close> is set; from then on the reply to every query of less than 10000
  bytes, whose converted texts have room in the buffers, is the one specified. The known questions found for it
  are those with the rarest of its words; none, if its words together have less than two or more than a
  hundred bytes, contain a word of the blacklist or are all stop words. When none is found the dialogue says
  so; otherwise it shows them, and unless the nearest are more than five edits away says one of the answers,
  in the answer file, to one of the nearest. The questions found are taken to be not empty, shorter than 10000 bytes and
  without the character \<^verbatim>\<open>#\<close>, of which the separator is made that joins and splits them.
\<close>

theorem dialogue_from_two_files:
  assumes doc: "di_index di = ci_new N" "0 < N"
      "index_lines pf (fgets_lines 4096 f) (ci_new N) = Inr ci" "ci_fits N ci"
    and srt: "mset (srt vect) = mset vect" "sorted_wrt query_le (srt vect)"
    and seg: "list_all (\<lambda>x. \<exists>r parts. Segment pf (st_query x) = Inr (r, parts)) vect"
    and len: "(\<Sum>x \<leftarrow> vect. length (st_extend x) + 1) < 2147483648" and keys: "uniq_keys_ok pf vect"
    and dg: "dg_da dg = Some ds" "hv_blank N (ci_index (di_index (dg_doc dg)))"
  shows "\<exists>img out A.
    (\<forall>room. length img \<le> room \<longrightarrow> (\<exists>di1. MakeIndex pf pad (Some f) (Some room) di = Inr (0, di1, img))) \<and>
    OutputIndexFile_uniq pf da_builder srt True vect = Inr (0, out) \<and> greatest_answer pf vect A \<and>
    (\<forall>fs dir p.
       fs (c_str dir @ ''data//index_dir/dlg.doc.index'') = Some img \<longrightarrow>
       fs (c_str dir @ ''data//index_dir/dlg.da.index'') = Some out \<longrightarrow>
       fs (c_str dir @ ''/data/punc/punc.txt'') = Some p \<longrightarrow>
       (\<exists>dg'. Dialogue_Init fs dir dg = Inr (0, dg') \<and>
          (\<forall>query rnd. let found = found_questions pf (dg_doc dg) (questions pf (fgets_lines 4096 f)) (c_str query)
             in query_fits pf (c_str query) \<and> list_all question_ok found \<longrightarrow>
                (\<exists>us. IndexOutcome pf rnd dg' query = Inr (0, us) \<and> spoken pf A rnd (c_str query) found us))))"
proof -
  let ?D = "questions pf (fgets_lines 4096 f)"
  have few: "occurrences ?D p < 2147483648" for p
    using index_lines_occurrences [OF doc(3,2,4)] .
  from MakeIndex_LoadIndex_stored [OF doc(1,2) dg(2) doc(3,4)] obtain img doc' where
    i: "\<forall>room. length img \<le> room \<longrightarrow> (\<exists>di1. MakeIndex pf pad (Some f) (Some room) di = Inr (0, di1, img))"
      "LoadIndex (Some img) (dg_doc dg) = Inr (0, doc')" "stored (di_index doc') ?D"
      "di_stopword doc' = di_stopword (dg_doc dg)" "di_syn doc' = di_syn (dg_doc dg)" "di_black doc' = di_black (dg_doc dg)"
    by blast
  from OutputIndexFile_uniq_greatest [where srt = srt, OF srt seg len keys] obtain out A ds' where
    o: "OutputIndexFile_uniq pf da_builder srt True vect = Inr (0, out)" "greatest_answer pf vect A"
      "LoadDAs (Some out) ds = (0, ds')" "da_answers ds' A" by blast
  have q: "found_questions pf doc' = found_questions pf (dg_doc dg)"
    by (intro ext) (simp add: found_questions_def i(4,6))
  have "\<exists>dg'. Dialogue_Init fs dir dg = Inr (0, dg') \<and>
      (\<forall>query rnd. let found = found_questions pf (dg_doc dg) ?D (c_str query)
         in query_fits pf (c_str query) \<and> list_all question_ok found \<longrightarrow>
            (\<exists>us. IndexOutcome pf rnd dg' query = Inr (0, us) \<and> spoken pf A rnd (c_str query) found us))"
    if fs: "fs (c_str dir @ ''data//index_dir/dlg.doc.index'') = Some img"
      "fs (c_str dir @ ''data//index_dir/dlg.da.index'') = Some out"
      "fs (c_str dir @ ''/data/punc/punc.txt'') = Some p" for fs dir p
  proof -
    from Dialogue_Init_loads [OF fs(1) i(2) fs(2) dg(1) o(3) fs(3)] obtain dg' where
      g: "Dialogue_Init fs dir dg = Inr (0, dg')" "dg_doc dg' = doc'" "dg_da dg' = Some ds'" by blast
    from IndexOutcome_stored [OF _ g(3) o(4) _ few, where pf = pf] i(3) show ?thesis
      by (intro exI [of _ dg']) (simp add: g q Let_def)
  qed
  with i(1) o(1,2) show ?thesis by blast
qed

text \<open>A query that is answered, and one that has no words.\<close>

theorem dialogue_from_two_files_witness:
  "\<exists>img out dg'. Dialogue_Init (\<lambda>p. if p = ''data//index_dir/dlg.doc.index'' then Some img
        else if p = ''data//index_dir/dlg.da.index'' then Some out else Some []) [] some_dialogue = Inr (0, dg') \<and>
    IndexOutcome byte_platform 7 dg' ''ab'' = Inr (0, [Asking ''ab'', Searching ''ab'', Answers ''x'', Says ''x'']) \<and>
    IndexOutcome byte_platform 7 dg' ''a'' = Inr (0, [No_question])"
proof -
  have e: "di_index empty_index = ci_new 3" by (simp add: empty_index_def)
  have seg: "list_all (\<lambda>x. \<exists>r parts. Segment byte_platform (st_query x) = Inr (r, parts)) one_answer"
    by (simp add: one_answer_def segment_two_bytes)
  have len: "(\<Sum>x \<leftarrow> one_answer. length (st_extend x) + 1) < 2147483648" by (simp add: one_answer_def)
  have srt: "mset one_answer = mset one_answer" "sorted_wrt query_le one_answer" by (simp_all add: one_answer_def)
  have keys: "uniq_keys_ok byte_platform one_answer"
    by (simp add: uniq_keys_ok_def uniq_items_def uniq_item_def one_answer_def segment_two_bytes)
  have dg: "dg_da some_dialogue = Some \<lparr>DaSearch = None, Search_Buf = None, Search_Buf_len = 0\<rparr>"
    "hv_blank 3 (ci_index (di_index (dg_doc some_dialogue)))"
    using blank_new by (simp_all add: some_dialogue_def e)
  have d: "dg_doc some_dialogue = empty_index" by (simp add: some_dialogue_def)
  have "(0::nat) < 3" by simp
  from dialogue_from_two_files [where srt = "\<lambda>v. v" and pad = "[]",
      OF e this index_lines_two index_ab_fits srt seg len keys dg, unfolded questions_two d]
  obtain img out A where A: "greatest_answer byte_platform one_answer A"
    and io: "\<forall>fs dir p. fs (c_str dir @ ''data//index_dir/dlg.doc.index'') = Some img \<longrightarrow>
       fs (c_str dir @ ''data//index_dir/dlg.da.index'') = Some out \<longrightarrow>
       fs (c_str dir @ ''/data/punc/punc.txt'') = Some p \<longrightarrow>
       (\<exists>dg'. Dialogue_Init fs dir some_dialogue = Inr (0, dg') \<and>
          (\<forall>query rnd. let found = found_questions byte_platform empty_index two_questions (c_str query)
             in query_fits byte_platform (c_str query) \<and> list_all question_ok found \<longrightarrow>
                (\<exists>us. IndexOutcome byte_platform rnd dg' query = Inr (0, us) \<and>
                   spoken byte_platform A rnd (c_str query) found us)))" by (elim exE conjE)
  let ?fs = "\<lambda>p. if p = ''data//index_dir/dlg.doc.index'' then Some img
        else if p = ''data//index_dir/dlg.da.index'' then Some out else Some []"
  from io [rule_format, of ?fs "[]" "[]"] obtain dg' where
    i: "Dialogue_Init ?fs [] some_dialogue = Inr (0, dg')"
    and r: "\<forall>query rnd. let found = found_questions byte_platform empty_index two_questions (c_str query)
             in query_fits byte_platform (c_str query) \<and> list_all question_ok found \<longrightarrow>
                (\<exists>us. IndexOutcome byte_platform rnd dg' query = Inr (0, us) \<and>
                   spoken byte_platform A rnd (c_str query) found us)" by auto
  have c: "c_str ''ab'' = ''ab''" "c_str ''a'' = ''a''" by (simp_all add: c_str_def)
  have "list_all question_ok [''ab'']" by (simp add: question_ok_def)
  with r [THEN spec, THEN spec, of "''ab''" 7, unfolded c Let_def found_ab] fits_ab
  obtain us where us: "IndexOutcome byte_platform 7 dg' ''ab'' = Inr (0, us)" "spoken byte_platform A 7 ''ab'' [''ab''] us"
    by blast
  from r [THEN spec, THEN spec, of "''a''" 7, unfolded c Let_def found_a] fits_a
  have "IndexOutcome byte_platform 7 dg' ''a'' = Inr (0, [No_question])" by (simp add: spoken_def)
  with i us(1) spoken_ab [OF A us(2)] show ?thesis by blast
qed

end
